(* ===== verification/OC_Prelude.thy ===== *)
theory OC_Prelude
  imports Main
begin

text \<open>
  Shared vocabulary of the development: the exceptions of the Python code as values, the
  result type of a service call, database tables as lists of rows addressed by primary key,
  and the generic transition-system contract that every state-machine component instantiates.

  A service call of the source flushes and never commits; an exception makes the caller roll
  the transaction back. A model of such a call therefore has the type
  \<open>db \<Rightarrow> \<dots> \<Rightarrow> exn + (result \<times> db)\<close>: on \<open>Inl\<close> the database is the one the call started from.
\<close>

named_theorems res_simps \<open>rewriting of results of service calls\<close>
named_theorems row_simps \<open>rewriting of table lookups and updates\<close>

section \<open>Exceptions and results\<close>

text \<open>
  \<open>APIError\<close> carries the HTTP status and the stable machine code of the structured error; the
  human-readable message is not modelled. \<open>ServiceError\<close> is an exception class of the code itself, by
  its name. The other constructors are the Python built-ins the modelled code can raise.
\<close>

datatype exn =
    APIError nat string
  | ServiceError string
  | ValueError
  | RuntimeError
  | KeyError
  | AttributeError
  | OverflowError
  | InvalidOperation
  | IntegrityError
  | NoResultFound
  | MultipleResultsFound
  | TypeError

type_synonym 'a res = "exn + 'a"

fun rbind :: "'e + 'a \<Rightarrow> ('a \<Rightarrow> 'e + 'b) \<Rightarrow> 'e + 'b" where
  "rbind (Inl e) f = Inl e"
| "rbind (Inr x) f = f x"

fun is_ok :: "'e + 'a \<Rightarrow> bool" where
  "is_ok (Inl e) = False"
| "is_ok (Inr x) = True"

lemma rbind_eq_Inr [res_simps]: "rbind r f = Inr y \<longleftrightarrow> (\<exists>x. r = Inr x \<and> f x = Inr y)"
  by (cases r) auto

lemma rbind_eq_Inl [res_simps]:
  "rbind r f = Inl e \<longleftrightarrow> r = Inl e \<or> (\<exists>x. r = Inr x \<and> f x = Inl e)"
  by (cases r) auto

lemma is_ok_iff [res_simps]: "is_ok r \<longleftrightarrow> (\<exists>x. r = Inr x)"
  by (cases r) auto

lemma rbind_Inr_right [simp]: "rbind r Inr = r"
  by (cases r) auto

lemma rbind_assoc [simp]: "rbind (rbind r f) g = rbind r (\<lambda>x. rbind (f x) g)"
  by (cases r) auto

text \<open>Evaluate a fallible function over a list, left to right, stopping at the first error.\<close>

fun rmap :: "('a \<Rightarrow> 'e + 'b) \<Rightarrow> 'a list \<Rightarrow> 'e + 'b list" where
  "rmap f [] = Inr []"
| "rmap f (x # xs) = rbind (f x) (\<lambda>y. rbind (rmap f xs) (\<lambda>ys. Inr (y # ys)))"

lemma rmap_cong [fundef_cong]:
  "xs = ys \<Longrightarrow> (\<And>x. x \<in> set ys \<Longrightarrow> f x = g x) \<Longrightarrow> rmap f xs = rmap g ys"
proof (induction xs arbitrary: ys)
  case (Cons x xs)
  then show ?case by (cases ys) auto
qed simp

lemma rmap_Inr_map: "(\<And>x. x \<in> set xs \<Longrightarrow> f x = Inr (g x)) \<Longrightarrow> rmap f xs = Inr (map g xs)"
  by (induction xs) auto

lemma rmap_eq_Inr_iff:
  "rmap f xs = Inr ys \<longleftrightarrow> list_all2 (\<lambda>x y. f x = Inr y) xs ys"
proof (induction xs arbitrary: ys)
  case (Cons x xs)
  then show ?case by (cases ys) (auto simp: rbind_eq_Inr)
qed auto

lemma rmap_ok: "(\<And>x. x \<in> set xs \<Longrightarrow> is_ok (f x)) \<Longrightarrow> is_ok (rmap f xs)"
  by (induction xs) (auto simp: is_ok_iff rbind_eq_Inr)

text \<open>Python truth of an optional string: \<open>None\<close> and the empty string are false.\<close>

definition truthy :: "string option \<Rightarrow> bool" where
  "truthy s = (case s of None \<Rightarrow> False | Some t \<Rightarrow> t \<noteq> [])"

lemma truthy_simps [simp]: "\<not> truthy None" "truthy (Some t) \<longleftrightarrow> t \<noteq> []"
  by (simp_all add: truthy_def)

text \<open>\<open>a or b\<close> on optional values of the source.\<close>

definition or_else :: "'a option \<Rightarrow> 'a option \<Rightarrow> 'a option" where
  "or_else a b = (case a of None \<Rightarrow> b | Some x \<Rightarrow> Some x)"

lemma or_else_simps [simp]: "or_else None b = b" "or_else (Some x) b = Some x"
  by (simp_all add: or_else_def)

lemma find_Some_in: "find P xs = Some x \<Longrightarrow> x \<in> set xs \<and> P x"
  by (induction xs) (auto split: if_splits)

section \<open>Tables\<close>

text \<open>
  A table is the list of the rows the ORM's soft-delete filter lets through, in the order of
  their insertion, addressed by an integer primary key. \<open>row_get\<close> is \<open>session.get\<close> (or a
  select on the key), \<open>row_upd\<close> an ORM mutation of the row with that key.
\<close>

definition row_get :: "('r \<Rightarrow> int) \<Rightarrow> 'r list \<Rightarrow> int \<Rightarrow> 'r option" where
  "row_get key rows k = find (\<lambda>r. key r = k) rows"

definition row_upd :: "('r \<Rightarrow> int) \<Rightarrow> int \<Rightarrow> ('r \<Rightarrow> 'r) \<Rightarrow> 'r list \<Rightarrow> 'r list" where
  "row_upd key k f rows = map (\<lambda>r. if key r = k then f r else r) rows"

lemma row_get_simps [simp]:
  "row_get key [] k = None"
  "row_get key (r # rows) k = (if key r = k then Some r else row_get key rows k)"
  by (simp_all add: row_get_def)

lemma row_upd_simps [simp]:
  "row_upd key k f [] = []"
  "row_upd key k f (r # rows) = (if key r = k then f r else r) # row_upd key k f rows"
  by (simp_all add: row_upd_def)

lemma row_get_Some [dest]: "row_get key rows k = Some r \<Longrightarrow> r \<in> set rows \<and> key r = k"
  by (auto simp: row_get_def find_Some_iff)

lemma row_get_None: "row_get key rows k = None \<longleftrightarrow> (\<forall>r \<in> set rows. key r \<noteq> k)"
  by (auto simp: row_get_def find_None_iff)

lemma row_get_append [row_simps]:
  "row_get key (rows @ more) k =
     (case row_get key rows k of None \<Rightarrow> row_get key more k | Some r \<Rightarrow> Some r)"
  by (induction rows) auto

lemma row_get_upd [row_simps]:
  assumes "\<And>r. key r = k \<Longrightarrow> key (f r) = k"
  shows "row_get key (row_upd key k f rows) j =
     (if j = k then map_option f (row_get key rows j) else row_get key rows j)"
  using assms by (induction rows) auto

lemma row_get_distinct:
  "distinct (map key rows) \<Longrightarrow> r \<in> set rows \<Longrightarrow> row_get key rows (key r) = Some r"
  by (induction rows) (auto simp: image_iff)

lemma row_upd_keys [simp]:
  "(\<And>r. key r = k \<Longrightarrow> key (f r) = k) \<Longrightarrow> map key (row_upd key k f rows) = map key rows"
  by (induction rows) auto

lemma set_row_upd:
  "set (row_upd key k f rows) = {r \<in> set rows. key r \<noteq> k} \<union> f ` {r \<in> set rows. key r = k}"
  by (auto simp: row_upd_def)

lemma length_row_upd [simp]: "length (row_upd key k f rows) = length rows"
  by (simp add: row_upd_def)

section \<open>Transition systems\<close>

text \<open>
  Reachable states of a component, and the contract a component discharges once per invariant:
  it holds initially and every step keeps it.
\<close>

inductive reach :: "('s \<Rightarrow> bool) \<Rightarrow> ('s \<Rightarrow> 's \<Rightarrow> bool) \<Rightarrow> 's \<Rightarrow> bool"
  for init :: "'s \<Rightarrow> bool" and step :: "'s \<Rightarrow> 's \<Rightarrow> bool" where
  reach_init: "init s \<Longrightarrow> reach init step s"
| reach_step: "reach init step s \<Longrightarrow> step s t \<Longrightarrow> reach init step t"

lemma reach_steps:
  assumes "init s" "step\<^sup>*\<^sup>* s t"
  shows "reach init step t"
  using assms(2) by (induction rule: rtranclp_induct) (auto intro: reach.intros assms(1))

locale invariant_system =
  fixes init :: "'s \<Rightarrow> bool"
    and step :: "'s \<Rightarrow> 's \<Rightarrow> bool"
    and inv :: "'s \<Rightarrow> bool"
  assumes inv_init: "init s \<Longrightarrow> inv s"
    and inv_step: "inv s \<Longrightarrow> step s t \<Longrightarrow> inv t"
begin

lemma reach_inv: "reach init step s \<Longrightarrow> inv s"
  by (induction rule: reach.induct) (auto intro: inv_init inv_step)

lemma reach_steps_inv: "inv s \<Longrightarrow> step\<^sup>*\<^sup>* s t \<Longrightarrow> inv t"
  by (rotate_tac 1, induction rule: rtranclp_induct) (auto intro: inv_step)

end

end
