(* ===== verification/Workdays.thy ===== *)
theory Workdays
  imports OC_Prelude "HOL-Library.Product_Lexorder"
begin

text \<open>
  The working-day engine, \<open>src/office_connect/core/workdays.py\<close>. A Python \<open>date\<close> is its
  proleptic Gregorian ordinal (\<open>date.toordinal\<close>), an \<open>int\<close> between 1 (0001-01-01, a Monday)
  and \<open>max_ordinal\<close> (9999-12-31); leaving that range raises \<open>OverflowError\<close>, as
  \<open>date + timedelta\<close> does. The loops are recursive functions that end because every step moves
  the cursor towards an end of the range.
\<close>

section \<open>Model\<close>

type_synonym date = int

definition max_ordinal :: int where
  "max_ordinal = 3652059"

definition valid_date :: "date \<Rightarrow> bool" where
  "valid_date d \<longleftrightarrow> 1 \<le> d \<and> d \<le> max_ordinal"

definition date_add :: "date \<Rightarrow> int \<Rightarrow> date res" where
  "date_add d k = (if valid_date (d + k) then Inr (d + k) else Inl OverflowError)"

definition weekday :: "date \<Rightarrow> int" where
  "weekday d = (d + 6) mod 7"

definition WEEKEND :: "int set" where
  "WEEKEND = {5, 6}"

definition NON_WORKING_HOLIDAY_TYPES :: "string set" where
  "NON_WORKING_HOLIDAY_TYPES =
     {''regular'', ''special_non_working'', ''work_suspension'', ''local''}"

definition is_working_day :: "date \<Rightarrow> date set \<Rightarrow> bool" where
  "is_working_day day nonworking \<longleftrightarrow> weekday day \<notin> WEEKEND \<and> day \<notin> nonworking"

function next_working_day :: "date \<Rightarrow> date set \<Rightarrow> date res" where
  "next_working_day cursor nonworking =
     (if is_working_day cursor nonworking then Inr cursor
      else if valid_date (cursor + 1) then next_working_day (cursor + 1) nonworking
      else Inl OverflowError)"
  by pat_completeness auto
termination
  by (relation "measure (\<lambda>(c, _). nat (max_ordinal - c))") (auto simp: valid_date_def)

function previous_working_day :: "date \<Rightarrow> date set \<Rightarrow> date res" where
  "previous_working_day cursor nonworking =
     (if is_working_day cursor nonworking then Inr cursor
      else if valid_date (cursor - 1) then previous_working_day (cursor - 1) nonworking
      else Inl OverflowError)"
  by pat_completeness auto
termination
  by (relation "measure (\<lambda>(c, _). nat c)") (auto simp: valid_date_def)

text \<open>The loop of \<open>add_working_days\<close>, forwards (step 1) or backwards (step -1).\<close>

function add_loop :: "bool \<Rightarrow> nat \<Rightarrow> date \<Rightarrow> date set \<Rightarrow> date res" where
  "add_loop forward remaining cursor nonworking =
     (if remaining = 0 then Inr cursor
      else
        (let cursor' = cursor + (if forward then 1 else -1) in
         if valid_date cursor' then
           add_loop forward
             (if is_working_day cursor' nonworking then remaining - 1 else remaining)
             cursor' nonworking
         else Inl OverflowError))"
  by pat_completeness auto
termination
  by (relation "measure (\<lambda>(fw, _, c, _). if fw then nat (max_ordinal - c) else nat c)")
    (auto simp: valid_date_def)

definition add_working_days :: "date \<Rightarrow> int \<Rightarrow> date set \<Rightarrow> date res" where
  "add_working_days start n nonworking =
     (if n = 0 then Inr start else add_loop (n > 0) (nat \<bar>n\<bar>) start nonworking)"

text \<open>
  The counting loop of \<open>working_days_between\<close>. Python also computes the successor of the last
  cursor, so a range that ends on the last representable date raises.
\<close>

function count_loop :: "date \<Rightarrow> date \<Rightarrow> date set \<Rightarrow> int \<Rightarrow> int res" where
  "count_loop cursor hi nonworking acc =
     (if cursor \<le> hi then
        (let acc' = (if is_working_day cursor nonworking then acc + 1 else acc) in
         if valid_date (cursor + 1) then count_loop (cursor + 1) hi nonworking acc'
         else Inl OverflowError)
      else Inr acc)"
  by pat_completeness auto
termination
  by (relation "measure (\<lambda>(c, hi, _, _). nat (hi + 1 - c))") auto

definition working_days_between :: "date \<Rightarrow> date \<Rightarrow> date set \<Rightarrow> int res" where
  "working_days_between start end_d nonworking =
     (if end_d = start then Inr 0
      else
        (let lo = (if end_d > start then start else end_d);
             hi = (if end_d > start then end_d else start)
         in rbind (date_add lo 1) (\<lambda>cursor.
            rbind (count_loop cursor hi nonworking 0) (\<lambda>count.
              Inr (if end_d > start then count else - count)))))"

definition adjust_to_working_day :: "date \<Rightarrow> date set \<Rightarrow> string \<Rightarrow> date res" where
  "adjust_to_working_day day nonworking direction =
     (if direction = ''backward'' then previous_working_day day nonworking
      else next_working_day day nonworking)"

text \<open>\<open>core_holidays\<close> rows and the two readers of the table.\<close>

record holiday =
  calendar_date :: date
  holiday_name :: string
  holiday_type :: string
  holiday_is_active :: bool

definition holiday_counts :: "date \<Rightarrow> date \<Rightarrow> holiday \<Rightarrow> bool" where
  "holiday_counts start end_d h \<longleftrightarrow>
     start \<le> calendar_date h \<and> calendar_date h \<le> end_d \<and> holiday_is_active h \<and>
     holiday_type h \<in> NON_WORKING_HOLIDAY_TYPES"

definition load_nonworking_dates :: "holiday list \<Rightarrow> date \<Rightarrow> date \<Rightarrow> date set" where
  "load_nonworking_dates holidays start end_d =
     set (map calendar_date (filter (holiday_counts start end_d) holidays))"

text \<open>
  The labels reader: the same filter, ordered by date and then by name, the first label of a
  date wins (\<open>setdefault\<close>). The database's collation of names is the parameter \<open>collate\<close>.
\<close>

definition load_nonworking_labels ::
  "(string \<Rightarrow> nat) \<Rightarrow> holiday list \<Rightarrow> date \<Rightarrow> date \<Rightarrow> (date \<rightharpoonup> string)" where
  "load_nonworking_labels collate holidays start end_d =
     foldl (\<lambda>labels h. if calendar_date h \<in> dom labels then labels
              else labels(calendar_date h \<mapsto> holiday_name h)) Map.empty
       (sort_key (\<lambda>h. (calendar_date h, collate (holiday_name h)))
          (filter (holiday_counts start end_d) holidays))"

declare next_working_day.simps [simp del] previous_working_day.simps [simp del]
  add_loop.simps [simp del] count_loop.simps [simp del]

section \<open>Counting\<close>

text \<open>The specification: the number of working days in the half-open interval \<open>(lo, hi]\<close>.\<close>

definition wd_count :: "date set \<Rightarrow> date \<Rightarrow> date \<Rightarrow> nat" where
  "wd_count nonworking lo hi = card ({lo<..hi} \<inter> {d. is_working_day d nonworking})"

lemma wd_count_same [simp]: "hi \<le> lo \<Longrightarrow> wd_count N lo hi = 0"
  by (simp add: wd_count_def)

lemma wd_count_split:
  assumes "lo \<le> mid" "mid \<le> hi"
  shows "wd_count N lo hi = wd_count N lo mid + wd_count N mid hi"
proof -
  have "{lo<..hi} \<inter> W = ({lo<..mid} \<inter> W) \<union> ({mid<..hi} \<inter> W)" for W
    using assms by auto
  moreover have "({lo<..mid} \<inter> W) \<inter> ({mid<..hi} \<inter> W) = {}" for W
    by auto
  ultimately show ?thesis
    unfolding wd_count_def by (simp add: card_Un_disjoint)
qed

lemma wd_count_step:
  "wd_count N d (d + 1) = (if is_working_day (d + 1) N then 1 else 0)"
proof -
  have "{d<..d + 1} = {d + 1}" by auto
  then show ?thesis by (simp add: wd_count_def)
qed

lemma wd_count_back:
  "wd_count N (d - 1) d = (if is_working_day d N then 1 else 0)"
  using wd_count_step [of N "d - 1"] by simp

lemma wd_count_pos_last:
  "is_working_day d N \<Longrightarrow> lo < d \<Longrightarrow> wd_count N lo d = wd_count N lo (d - 1) + 1"
  using wd_count_split [of lo "d - 1" d N] by (simp add: wd_count_back)

lemma count_loop_spec:
  assumes "0 \<le> cursor" "hi < max_ordinal"
  shows "count_loop cursor hi N acc = Inr (acc + int (wd_count N (cursor - 1) hi))"
  using assms
proof (induction cursor hi N acc rule: count_loop.induct)
  case (1 cursor hi N acc)
  show ?case
  proof (cases "cursor \<le> hi")
    case True
    with "1.prems" have "valid_date (cursor + 1)" by (simp add: valid_date_def)
    moreover have "wd_count N (cursor - 1) hi =
        (if is_working_day cursor N then 1 else 0) + wd_count N cursor hi"
      using wd_count_split [of "cursor - 1" cursor hi N] True by (simp add: wd_count_back)
    ultimately show ?thesis
      using True "1.prems" "1.IH" [OF True refl]
      by (subst count_loop.simps) (simp add: Let_def split del: if_split split: if_split)
  next
    case False
    then show ?thesis by (subst count_loop.simps) simp
  qed
qed

text \<open>\<open>working_days_between\<close> on every pair of dates before the last representable one.\<close>

lemma working_days_between_spec:
  assumes "valid_date s" "valid_date e" "s < max_ordinal" "e < max_ordinal"
  shows "working_days_between s e N =
    Inr (if s \<le> e then int (wd_count N s e) else - int (wd_count N e s))"
  using assms by (auto simp: working_days_between_def date_add_def valid_date_def count_loop_spec)

section \<open>Adding working days\<close>

lemma add_loop_forward:
  assumes "add_loop True k s N = Inr d" "0 \<le> s"
  shows "s \<le> d \<and> wd_count N s d = k \<and> (0 < k \<longrightarrow> is_working_day d N \<and> valid_date d)"
  using assms
proof (induction True k s N rule: add_loop.induct)
  case (1 k s N)
  show ?case
  proof (cases "k = 0")
    case True
    with "1.prems" show ?thesis by (simp add: add_loop.simps)
  next
    case False
    let ?k = "if is_working_day (s + 1) N then k - 1 else k"
    from False "1.prems" have v: "valid_date (s + 1)" and rec: "add_loop True ?k (s + 1) N = Inr d"
      by (simp_all add: add_loop.simps [of True k s N] Let_def split: if_splits)
    from "1.hyps" [OF False _ _ rec] v "1.prems"
    have IH: "s + 1 \<le> d" "wd_count N (s + 1) d = ?k"
      "0 < ?k \<longrightarrow> is_working_day d N \<and> valid_date d" by auto
    have "wd_count N s d = (if is_working_day (s + 1) N then 1 else 0) + ?k"
      using wd_count_split [of s "s + 1" d N] IH by (simp add: wd_count_step)
    moreover have "is_working_day d N \<and> valid_date d"
    proof (cases "0 < ?k")
      case False2: False
      with False have "is_working_day (s + 1) N" "k = 1" by (auto split: if_splits)
      with rec v show ?thesis by (simp add: add_loop.simps)
    qed (use IH in auto)
    ultimately show ?thesis using IH False by auto
  qed
qed

lemma add_loop_backward:
  assumes "add_loop False k s N = Inr d"
  shows "d \<le> s \<and> wd_count N (d - 1) (s - 1) = k \<and>
    (0 < k \<longrightarrow> is_working_day d N \<and> valid_date d)"
  using assms
proof (induction False k s N rule: add_loop.induct)
  case (1 k s N)
  show ?case
  proof (cases "k = 0")
    case True
    with "1.prems" show ?thesis by (simp add: add_loop.simps)
  next
    case False
    let ?k = "if is_working_day (s - 1) N then k - 1 else k"
    from False "1.prems" have v: "valid_date (s - 1)" and rec: "add_loop False ?k (s - 1) N = Inr d"
      by (simp_all add: add_loop.simps [of False k s N] Let_def split: if_splits)
    from "1.hyps" [OF False _ _] v rec
    have IH: "d \<le> s - 1" "wd_count N (d - 1) (s - 2) = ?k"
      "0 < ?k \<longrightarrow> is_working_day d N \<and> valid_date d" by auto
    have "wd_count N (d - 1) (s - 1) = ?k + (if is_working_day (s - 1) N then 1 else 0)"
      using wd_count_split [of "d - 1" "s - 2" "s - 1" N] IH wd_count_back [of N "s - 1"] by simp
    moreover have "is_working_day d N \<and> valid_date d"
    proof (cases "0 < ?k")
      case False2: False
      with False have "is_working_day (s - 1) N" "k = 1" by (auto split: if_splits)
      with rec v show ?thesis by (simp add: add_loop.simps)
    qed (use IH in auto)
    ultimately show ?thesis using IH False by auto
  qed
qed

text \<open>Enough working days before the end of the range make the loop return.\<close>

lemma add_loop_forward_total:
  assumes "k \<le> wd_count N s M" "M \<le> max_ordinal" "0 \<le> s"
  shows "\<exists>d. add_loop True k s N = Inr d \<and> d \<le> max s M"
  using assms
proof (induction True k s N rule: add_loop.induct)
  case (1 k s N)
  show ?case
  proof (cases "k = 0")
    case True
    then show ?thesis by (simp add: add_loop.simps)
  next
    case False
    let ?k = "if is_working_day (s + 1) N then k - 1 else k"
    from False "1.prems" have lt: "s < M" by (cases "s < M") auto
    with "1.prems" have v: "valid_date (s + 1)" by (simp add: valid_date_def)
    have "wd_count N s M = (if is_working_day (s + 1) N then 1 else 0) + wd_count N (s + 1) M"
      using wd_count_split [of s "s + 1" M N] lt by (simp add: wd_count_step)
    with "1.prems" False have "?k \<le> wd_count N (s + 1) M" by auto
    with "1.hyps" [OF False refl] v "1.prems" lt
    obtain d where "add_loop True ?k (s + 1) N = Inr d" "d \<le> max (s + 1) M" by auto
    with False v lt show ?thesis
      by (subst add_loop.simps) (simp add: Let_def)
  qed
qed

text \<open>The result depends only on the calendar between the start and the result.\<close>

lemma add_loop_forward_local:
  assumes "add_loop True k s N = Inr d" "N \<inter> {s<..d} = N' \<inter> {s<..d}" "0 \<le> s"
  shows "add_loop True k s N' = Inr d"
  using assms
proof (induction True k s N rule: add_loop.induct)
  case (1 k s N)
  show ?case
  proof (cases "k = 0")
    case True
    with "1.prems" show ?thesis by (simp add: add_loop.simps)
  next
    case False
    let ?k = "if is_working_day (s + 1) N then k - 1 else k"
    from False "1.prems" have v: "valid_date (s + 1)" and rec: "add_loop True ?k (s + 1) N = Inr d"
      by (simp_all add: add_loop.simps [of True k s N] Let_def split: if_splits)
    have "s + 1 \<le> d" using add_loop_forward [OF rec] "1.prems" by simp
    then have "s + 1 \<in> {s<..d}" by simp
    with "1.prems"(2) have "s + 1 \<in> N \<longleftrightarrow> s + 1 \<in> N'" by blast
    then have same: "is_working_day (s + 1) N' = is_working_day (s + 1) N"
      by (simp add: is_working_day_def)
    have "{s + 1<..d} \<subseteq> {s<..d}" by auto
    with "1.prems"(2) have "N \<inter> {s + 1<..d} = N' \<inter> {s + 1<..d}" by blast
    with "1.hyps" [OF False refl] v rec "1.prems"
    have "add_loop True ?k (s + 1) N' = Inr d" by simp
    with False v same show ?thesis
      by (subst add_loop.simps) (simp add: Let_def)
  qed
qed

section \<open>How far the calendar reaches\<close>

lemma wd_count_Suc:
  "lo \<le> hi \<Longrightarrow> wd_count N lo (hi + 1) = wd_count N lo hi + (if is_working_day (hi + 1) N then 1 else 0)"
  using wd_count_split [of lo hi "hi + 1" N] by (simp add: wd_count_step)

lemma is_weekday_iff: "is_working_day d {} \<longleftrightarrow> (d + 6) mod 7 < 5"
  unfolding is_working_day_def weekday_def WEEKEND_def by auto

lemma week_has_five_weekdays: "wd_count {} s (s + 7) = 5"
proof -
  define i where "i k = (if (s + k + 6) mod 7 < 5 then 1 else (0::nat))" for k
  have step: "wd_count {} s (s + (k + 1)) = wd_count {} s (s + k) + i (k + 1)" if "0 \<le> k" for k
    using wd_count_Suc [of s "s + k" "{}"] that by (simp add: is_weekday_iff i_def algebra_simps)
  have "wd_count {} s (s + 7) = i 1 + i 2 + i 3 + i 4 + i 5 + i 6 + i 7"
    using step [of 0] step [of 1] step [of 2] step [of 3] step [of 4] step [of 5] step [of 6]
    by simp
  also have "\<dots> = 5"
  proof -
    have m: "i k = (if (s mod 7 + k + 6) mod 7 < 5 then 1 else 0)" for k
      unfolding i_def by (metis (no_types) mod_add_left_eq add.assoc)
    consider "s mod 7 = 0" | "s mod 7 = 1" | "s mod 7 = 2" | "s mod 7 = 3" | "s mod 7 = 4"
      | "s mod 7 = 5" | "s mod 7 = 6" by fastforce
    then show ?thesis by cases (simp_all add: m)
  qed
  finally show ?thesis .
qed

lemma weeks_have_weekdays: "wd_count {} s (s + 7 * int w) = 5 * w"
proof (induction w)
  case (Suc w)
  have "wd_count {} s (s + 7 * int (Suc w)) =
      wd_count {} s (s + 7 * int w) + wd_count {} (s + 7 * int w) (s + 7 * int w + 7)"
    using wd_count_split [of s "s + 7 * int w" "s + 7 * int (Suc w)" "{}"]
    by (simp add: algebra_simps)
  with Suc week_has_five_weekdays [of "s + 7 * int w"] show ?case by simp
qed simp

lemma wd_count_holidays:
  "wd_count {} lo hi \<le> wd_count N lo hi + card (N \<inter> {lo<..hi})"
proof -
  have "{lo<..hi} \<inter> {d. is_working_day d {}} \<subseteq>
      ({lo<..hi} \<inter> {d. is_working_day d N}) \<union> (N \<inter> {lo<..hi})"
    by (auto simp: is_working_day_def)
  then have "wd_count {} lo hi \<le>
      card (({lo<..hi} \<inter> {d. is_working_day d N}) \<union> (N \<inter> {lo<..hi}))"
    unfolding wd_count_def by (intro card_mono) auto
  also have "\<dots> \<le> wd_count N lo hi + card (N \<inter> {lo<..hi})"
    unfolding wd_count_def by (rule card_Un_le)
  finally show ?thesis .
qed

text \<open>
  \<open>w\<close> weeks that hold at least \<open>n\<close> weekdays more than holidays contain the \<open>n\<close>-th working day.
\<close>

lemma add_working_days_reach:
  assumes "0 \<le> n" "1 \<le> start" "start + 7 * int w \<le> max_ordinal"
    and "nat n + card (N \<inter> {start<..start + 7 * int w}) \<le> 5 * w"
  shows "\<exists>d. add_working_days start n N = Inr d \<and> start \<le> d \<and> d \<le> start + 7 * int w"
proof (cases "n = 0")
  case True
  then show ?thesis by (simp add: add_working_days_def)
next
  case False
  have "nat n \<le> wd_count N start (start + 7 * int w)"
    using wd_count_holidays [of start "start + 7 * int w" N] assms(4)
    by (simp add: weeks_have_weekdays)
  from add_loop_forward_total [OF this] assms
  obtain d where "add_loop True (nat n) start N = Inr d" "d \<le> max start (start + 7 * int w)"
    by auto
  with False assms add_loop_forward [of "nat n" start N d] show ?thesis
    by (auto simp: add_working_days_def)
qed

lemma add_working_days_local:
  assumes "add_working_days start n N = Inr d" "0 \<le> n" "0 \<le> start"
    and "N \<inter> {start<..d} = N' \<inter> {start<..d}"
  shows "add_working_days start n N' = Inr d"
  using assms by (auto simp: add_working_days_def intro: add_loop_forward_local split: if_splits)

section \<open>Properties\<close>

text \<open>
  C26. Counting back what was added, forwards: when \<open>add_working_days(start, n)\<close> returns \<open>d\<close> for \<open>n \<ge> 0\<close>, with
  \<open>start\<close> and \<open>d\<close> dates before the last day of the calendar (31 December 9999), then
  \<open>working_days_between(start, d)\<close> is exactly \<open>n\<close>, and for \<open>n > 0\<close> the date \<open>d\<close> is a working day strictly
  after \<open>start\<close>. Backwards, for \<open>n < 0\<close>, the count may be off, see \<open>add_backwards_then_between\<close>.
\<close>

theorem add_then_between:
  assumes "add_working_days start n N = Inr d" "0 \<le> n"
    and "valid_date start" "start < max_ordinal" "d < max_ordinal"
  shows "working_days_between start d N = Inr n \<and>
    (0 < n \<longrightarrow> is_working_day d N \<and> start < d)"
proof (cases "n = 0")
  case True
  with assms show ?thesis by (simp add: add_working_days_def working_days_between_def)
next
  case False
  with assms have loop: "add_loop True (nat n) start N = Inr d"
    by (simp add: add_working_days_def)
  have "0 \<le> start" using assms(3) by (simp add: valid_date_def)
  from add_loop_forward [OF loop this] False assms(2)
  have d: "start \<le> d" "wd_count N start d = nat n" "is_working_day d N" "valid_date d" by auto
  with False assms(2) have "start \<noteq> d" by auto
  with d working_days_between_spec [of start d N] assms show ?thesis by auto
qed

theorem add_then_between_witness:
  "add_working_days 5 3 {9} = Inr 11 \<and> working_days_between 5 11 {9} = Inr 3"
proof -
  have r: "add_working_days 5 3 {9} = Inr 11"
    by (simp add: add_working_days_def add_loop.simps Let_def is_working_day_def weekday_def
        WEEKEND_def valid_date_def max_ordinal_def)
  show ?thesis
    using r add_then_between [OF r] by (simp add: valid_date_def max_ordinal_def)
qed

text \<open>
  The loop returns, and not too late: over any calendar, if \<open>w\<close> weeks after the start hold at
  most \<open>5 w - n\<close> non-working dates and stay inside the representable range, then
  \<open>add_working_days(start, n)\<close> returns a date within those \<open>w\<close> weeks; in particular it never
  raises there.
\<close>

theorem add_working_days_bounded:
  assumes "0 \<le> n" "valid_date start" "start + 7 * int w \<le> max_ordinal"
    and "nat n + card (N \<inter> {start<..start + 7 * int w}) \<le> 5 * w"
  shows "\<exists>d. add_working_days start n N = Inr d \<and> start \<le> d \<and> d \<le> start + 7 * int w"
  using assms by (intro add_working_days_reach) (auto simp: valid_date_def)

theorem add_working_days_bounded_witness:
  "\<exists>d. add_working_days 738000 3 {738001} = Inr d \<and> 738000 \<le> d \<and> d \<le> 738007"
proof -
  have "{738001} \<inter> {738000<..738000 + 7 * int 1} = {738001::int}" by auto
  then have "nat 3 + card ({738001} \<inter> {738000<..738000 + 7 * int 1}) \<le> 5 * 1" by simp
  from add_working_days_bounded [of 3 738000 1 "{738001}", OF _ _ _ this] show ?thesis
    by (simp add: valid_date_def max_ordinal_def)
qed

text \<open>
  Counting backwards: for \<open>n < 0\<close> the result \<open>d\<close> is a working day strictly before \<open>start\<close> with
  exactly \<open>-n\<close> working days in \<open>[d, start)\<close>; \<open>working_days_between(start, d)\<close>, which counts
  \<open>(d, start]\<close>, gives back \<open>n\<close> when \<open>start\<close> is itself a working day and \<open>n + 1\<close> otherwise.
\<close>

theorem add_backwards_then_between:
  assumes "add_working_days start n N = Inr d" "n < 0"
    and "valid_date start" "start < max_ordinal"
  shows "is_working_day d N \<and> d < start \<and> wd_count N (d - 1) (start - 1) = nat (- n) \<and>
    working_days_between start d N = Inr (if is_working_day start N then n else n + 1)"
proof -
  have loop: "add_loop False (nat (- n)) start N = Inr d"
    using assms by (simp add: add_working_days_def)
  from add_loop_backward [OF loop] assms(2)
  have d: "d \<le> start" "wd_count N (d - 1) (start - 1) = nat (- n)" "is_working_day d N"
    "valid_date d" by auto
  have lt: "d < start"
  proof (rule ccontr)
    assume "\<not> d < start"
    then have "wd_count N (d - 1) (start - 1) = 0" by simp
    with d(2) assms(2) show False by simp
  qed
  have "wd_count N (d - 1) (start - 1) = 1 + wd_count N d (start - 1)"
    using wd_count_split [of "d - 1" d "start - 1" N] lt d(3) by (simp add: wd_count_back)
  moreover have "wd_count N d start =
      wd_count N d (start - 1) + (if is_working_day start N then 1 else 0)"
    using wd_count_split [of d "start - 1" start N] lt by (simp add: wd_count_back)
  ultimately have "int (wd_count N d start) = - (if is_working_day start N then n else n + 1)"
    using d(2) assms(2) by auto
  with working_days_between_spec [of start d N] assms lt d show ?thesis
    by auto
qed

theorem add_backwards_then_between_witness:
  "add_working_days 9 (-2) {} = Inr 5 \<and> working_days_between 9 5 {} = Inr (-2) \<and>
   add_working_days 13 (-1) {} = Inr 12 \<and> working_days_between 13 12 {} = Inr 0"
proof -
  note ev = add_working_days_def add_loop.simps Let_def is_working_day_def weekday_def
    WEEKEND_def valid_date_def max_ordinal_def
  have r: "add_working_days 9 (-2) {} = Inr 5" by (simp add: ev)
  have q: "add_working_days 13 (-1) {} = Inr 12" by (simp add: ev)
  show ?thesis
    using r q add_backwards_then_between [OF r] add_backwards_then_between [OF q]
    by (simp add: ev)
qed

section \<open>Rolling onto a working day\<close>

lemma next_working_day_spec:
  assumes "next_working_day day N = Inr d"
  shows "day \<le> d \<and> is_working_day d N \<and> (\<forall>x. day \<le> x \<and> x < d \<longrightarrow> \<not> is_working_day x N)"
  using assms
proof (induction day N rule: next_working_day.induct)
  case (1 c N)
  show ?case
  proof (cases "is_working_day c N")
    case True
    with "1.prems" show ?thesis by (auto simp: next_working_day.simps)
  next
    case False
    with "1.prems" have v: "valid_date (c + 1)" and "next_working_day (c + 1) N = Inr d"
      by (simp_all add: next_working_day.simps [of c N] split: if_splits)
    with "1.IH" [OF False v] have IH: "c + 1 \<le> d" "is_working_day d N"
      "\<forall>x. c + 1 \<le> x \<and> x < d \<longrightarrow> \<not> is_working_day x N" by auto
    have "\<not> is_working_day x N" if "c \<le> x" "x < d" for x
      using IH(3) False that by (cases "x = c") auto
    with IH show ?thesis by auto
  qed
qed

lemma previous_working_day_spec:
  assumes "previous_working_day day N = Inr d"
  shows "d \<le> day \<and> is_working_day d N \<and> (\<forall>x. d < x \<and> x \<le> day \<longrightarrow> \<not> is_working_day x N)"
  using assms
proof (induction day N rule: previous_working_day.induct)
  case (1 c N)
  show ?case
  proof (cases "is_working_day c N")
    case True
    with "1.prems" show ?thesis by (auto simp: previous_working_day.simps)
  next
    case False
    with "1.prems" have v: "valid_date (c - 1)" and "previous_working_day (c - 1) N = Inr d"
      by (simp_all add: previous_working_day.simps [of c N] split: if_splits)
    with "1.IH" [OF False v] have IH: "d \<le> c - 1" "is_working_day d N"
      "\<forall>x. d < x \<and> x \<le> c - 1 \<longrightarrow> \<not> is_working_day x N" by auto
    have "\<not> is_working_day x N" if "d < x" "x \<le> c" for x
      using IH(3) False that by (cases "x = c") auto
    with IH show ?thesis by auto
  qed
qed

text \<open>
  Rolling a fixed deadline: \<open>adjust_to_working_day\<close> returns a working day and skips no
  working day on the way, in the direction asked for (every direction but \<open>''backward''\<close> is
  forward).
\<close>

theorem adjust_to_working_day_nearest:
  assumes "adjust_to_working_day day N direction = Inr d"
  shows "is_working_day d N \<and>
    (if direction = ''backward''
     then d \<le> day \<and> (\<forall>x. d < x \<and> x \<le> day \<longrightarrow> \<not> is_working_day x N)
     else day \<le> d \<and> (\<forall>x. day \<le> x \<and> x < d \<longrightarrow> \<not> is_working_day x N))"
  using assms next_working_day_spec [of day N d] previous_working_day_spec [of day N d]
  by (auto simp: adjust_to_working_day_def split: if_splits)

theorem adjust_to_working_day_nearest_witness:
  "adjust_to_working_day 13 {15} ''forward'' = Inr 16 \<and> is_working_day 16 {15} \<and>
   adjust_to_working_day 13 {12} ''backward'' = Inr 11 \<and> is_working_day 11 {12}"
proof -
  note ev = adjust_to_working_day_def next_working_day.simps previous_working_day.simps
    is_working_day_def weekday_def WEEKEND_def valid_date_def max_ordinal_def
  have f: "adjust_to_working_day 13 {15} ''forward'' = Inr 16" by (simp add: ev)
  have b: "adjust_to_working_day 13 {12} ''backward'' = Inr 11" by (simp add: ev)
  show ?thesis
    using f b adjust_to_working_day_nearest [OF f] adjust_to_working_day_nearest [OF b] by simp
qed

lemma dom_setdefault:
  "dom (foldl (\<lambda>m h. if k h \<in> dom m then m else m(k h \<mapsto> v h)) m hs) = dom m \<union> k ` set hs"
  by (induction hs arbitrary: m) auto

text \<open>
  The two readers of \<open>core_holidays\<close> move together: a date has a label exactly when the
  deadline engine treats it as non-working, whatever the collation.
\<close>

theorem labels_and_dates_agree:
  "dom (load_nonworking_labels collate holidays start end_d) =
   load_nonworking_dates holidays start end_d"
  by (simp add: load_nonworking_labels_def load_nonworking_dates_def dom_setdefault)

end
