(* ===== verification/Org_Units.thy ===== *)
theory Org_Units
  imports OC_Prelude "HOL-Library.Product_Lexorder"
begin

text \<open>
  Org-unit ancestry and org-scoped authorization, \<open>src/office_connect/core/org_units.py\<close>.
  \<open>core_org_units\<close> is an adjacency list; the two recursive CTEs walk it upwards and downwards
  with the same depth guard of 64. A grant without an org unit is global, a scoped grant covers
  its unit and everything below. Times are UTC instants in microseconds; \<open>wall\<close> is what
  \<open>utc_now()\<close> reads during the transaction.
\<close>

section \<open>Model\<close>

type_synonym instant = int

record org_unit =
  ou_id :: int
  ou_parent :: "int option"
  ou_deleted :: bool

record user_role =
  ur_user :: int
  ur_role :: int
  ur_org :: "int option"
  ur_valid_from :: "instant option"
  ur_valid_to :: "instant option"

record user =
  user_id :: int
  user_is_active :: bool
  user_staff :: "int option"
  user_email :: string

text \<open>
  \<open>role_perms\<close> is the join of \<open>core_role_permissions\<close> and \<open>core_permissions\<close>: role id and
  permission code.
\<close>

record auth_db =
  org_units :: "org_unit list"
  user_roles :: "user_role list"
  role_perms :: "(int \<times> string) list"
  users :: "user list"
  wall :: instant

definition MAX_ANCESTRY_DEPTH :: nat where
  "MAX_ANCESTRY_DEPTH = 64"

definition live_unit :: "org_unit list \<Rightarrow> int \<Rightarrow> org_unit option" where
  "live_unit units u = find (\<lambda>r. ou_id r = u \<and> \<not> ou_deleted r) units"

primrec anc_walk :: "org_unit list \<Rightarrow> nat \<Rightarrow> int \<Rightarrow> int list" where
  "anc_walk units 0 u = (case live_unit units u of None \<Rightarrow> [] | Some r \<Rightarrow> [u])"
| "anc_walk units (Suc n) u =
     (case live_unit units u of
        None \<Rightarrow> []
      | Some r \<Rightarrow> u # (case ou_parent r of None \<Rightarrow> [] | Some p \<Rightarrow> anc_walk units n p))"

definition ancestors_or_self :: "org_unit list \<Rightarrow> int option \<Rightarrow> int list" where
  "ancestors_or_self units u =
     (case u of None \<Rightarrow> [] | Some i \<Rightarrow> anc_walk units MAX_ANCESTRY_DEPTH i)"

definition live_children :: "org_unit list \<Rightarrow> int list \<Rightarrow> int list" where
  "live_children units level =
     concat (map (\<lambda>b. map ou_id (filter (\<lambda>c. ou_parent c = Some b \<and> \<not> ou_deleted c) units)) level)"

primrec desc_walk :: "org_unit list \<Rightarrow> nat \<Rightarrow> int list \<Rightarrow> int list" where
  "desc_walk units 0 level = level"
| "desc_walk units (Suc n) level = level @ desc_walk units n (live_children units level)"

definition descendants_or_self :: "org_unit list \<Rightarrow> int set \<Rightarrow> int set" where
  "descendants_or_self units roots =
     set (desc_walk units MAX_ANCESTRY_DEPTH
       (map ou_id (filter (\<lambda>r. ou_id r \<in> roots \<and> \<not> ou_deleted r) units)))"

definition in_window :: "user_role \<Rightarrow> instant \<Rightarrow> bool" where
  "in_window g now \<longleftrightarrow>
     (case ur_valid_from g of None \<Rightarrow> True | Some f \<Rightarrow> f \<le> now) \<and>
     (case ur_valid_to g of None \<Rightarrow> True | Some t \<Rightarrow> t > now)"

definition scoped_org_units :: "auth_db \<Rightarrow> int \<Rightarrow> string \<Rightarrow> instant \<Rightarrow> int option set" where
  "scoped_org_units db uid perm now =
     set (map ur_org
       (filter (\<lambda>g. ur_user g = uid \<and> (ur_role g, perm) \<in> set (role_perms db) \<and> in_window g now)
          (user_roles db)))"

definition authorize_scoped :: "auth_db \<Rightarrow> int \<Rightarrow> string \<Rightarrow> int option \<Rightarrow> bool" where
  "authorize_scoped db uid perm target =
     (let scopes = scoped_org_units db uid perm (wall db) in
      if scopes = {} then False
      else if None \<in> scopes then True
      else (case target of
              None \<Rightarrow> False
            | Some t \<Rightarrow> (\<exists>a \<in> set (ancestors_or_self (org_units db) (Some t)). Some a \<in> scopes)))"

text \<open>PostgreSQL sorts a NULL org unit last.\<close>

definition holder_key :: "int \<times> int option \<Rightarrow> int \<times> int \<times> int" where
  "holder_key p = (fst p, case snd p of None \<Rightarrow> (1, 0) | Some u \<Rightarrow> (0, u))"

definition permission_holders ::
  "auth_db \<Rightarrow> string \<Rightarrow> int option \<Rightarrow> instant \<Rightarrow> (int \<times> int option) list" where
  "permission_holders db perm target now =
     (let covered = ancestors_or_self (org_units db) target in
      remdups (sort_key holder_key
        (map (\<lambda>g. (ur_user g, ur_org g))
          (filter (\<lambda>g. (ur_role g, perm) \<in> set (role_perms db) \<and>
                       (\<exists>u \<in> set (users db). user_id u = ur_user g \<and> user_is_active u) \<and>
                       in_window g now \<and>
                       (case ur_org g of None \<Rightarrow> True | Some o_id \<Rightarrow> o_id \<in> set covered))
             (user_roles db)))))"

section \<open>Walking the tree\<close>

text \<open>
  \<open>up units n u\<close> is the unit \<open>n\<close> parent links above \<open>u\<close>, through live units only: what both
  walks compute.
\<close>

primrec up :: "org_unit list \<Rightarrow> nat \<Rightarrow> int \<Rightarrow> int option" where
  "up units 0 u = (case live_unit units u of None \<Rightarrow> None | Some r \<Rightarrow> Some u)"
| "up units (Suc n) u =
     (case live_unit units u of
        None \<Rightarrow> None
      | Some r \<Rightarrow> (case ou_parent r of None \<Rightarrow> None | Some p \<Rightarrow> up units n p))"

definition unique_units :: "org_unit list \<Rightarrow> bool" where
  "unique_units units \<longleftrightarrow> distinct (map ou_id units)"

lemma anc_walk_iff: "a \<in> set (anc_walk units f u) \<longleftrightarrow> (\<exists>n \<le> f. up units n u = Some a)"
proof (induction f arbitrary: u)
  case 0
  then show ?case by (auto split: option.splits)
next
  case (Suc f)
  have "(\<exists>n \<le> Suc f. up units n u = Some a) \<longleftrightarrow>
      up units 0 u = Some a \<or> (\<exists>n \<le> f. up units (Suc n) u = Some a)"
    by (metis Suc_le_mono le0 not0_implies_Suc)
  then show ?case using Suc by (auto split: option.splits)
qed

lemma length_anc_walk: "length (anc_walk units f u) \<le> Suc f"
proof (induction f arbitrary: u)
  case (Suc f)
  then show ?case by (auto split: option.splits)
qed (auto split: option.splits)

lemma live_unit_unique:
  assumes "unique_units units"
  shows "live_unit units u = Some r \<longleftrightarrow> r \<in> set units \<and> ou_id r = u \<and> \<not> ou_deleted r"
proof
  assume "live_unit units u = Some r"
  then show "r \<in> set units \<and> ou_id r = u \<and> \<not> ou_deleted r"
    by (auto simp: live_unit_def find_Some_iff)
next
  assume r: "r \<in> set units \<and> ou_id r = u \<and> \<not> ou_deleted r"
  then obtain r' where r': "live_unit units u = Some r'"
    by (cases "live_unit units u") (auto simp: live_unit_def find_None_iff)
  then have "r' \<in> set units" "ou_id r' = u" by (auto simp: live_unit_def find_Some_iff)
  with r assms have "r' = r" by (auto simp: unique_units_def distinct_map inj_on_def)
  with r' show "live_unit units u = Some r" by simp
qed

lemma live_children_iff:
  "c \<in> set (live_children units level) \<longleftrightarrow>
     (\<exists>r \<in> set units. ou_id r = c \<and> \<not> ou_deleted r \<and> (\<exists>b \<in> set level. ou_parent r = Some b))"
  by (auto simp: live_children_def)

text \<open>One more link at the far end.\<close>

lemma up_Suc_end:
  "up units (Suc n) u = Some a \<longleftrightarrow>
    (\<exists>b r. up units n u = Some b \<and> live_unit units b = Some r \<and> ou_parent r = Some a \<and>
       live_unit units a \<noteq> None)"
proof (induction n arbitrary: u)
  case 0
  then show ?case by (auto split: option.splits)
next
  case (Suc n)
  show ?case
  proof (cases "live_unit units u")
    case None
    then show ?thesis by simp
  next
    case (Some r)
    then show ?thesis
      using Suc by (cases "ou_parent r") (simp_all del: up.simps add: up.simps(2))
  qed
qed

lemma desc_walk_iff:
  assumes "unique_units units" "\<forall>b \<in> set level. live_unit units b \<noteq> None"
  shows "u \<in> set (desc_walk units f level) \<longleftrightarrow>
    (\<exists>n \<le> f. \<exists>a \<in> set level. up units n u = Some a)"
  using assms(2)
proof (induction f arbitrary: level)
  case 0
  then show ?case by (auto split: option.splits)
next
  case (Suc f)
  have ch: "b \<in> set (live_children units level) \<longleftrightarrow>
      (\<exists>r a. live_unit units b = Some r \<and> ou_parent r = Some a \<and> a \<in> set level)" for b
    using live_unit_unique [OF assms(1), of b] by (auto simp: live_children_iff)
  then have live: "\<forall>b \<in> set (live_children units level). live_unit units b \<noteq> None"
    by auto
  have step: "(\<exists>b \<in> set (live_children units level). up units n u = Some b) \<longleftrightarrow>
      (\<exists>a \<in> set level. up units (Suc n) u = Some a)" for n
    using Suc.prems by (simp only: Bex_def ch up_Suc_end) blast
  have "(\<exists>n \<le> Suc f. \<exists>a \<in> set level. up units n u = Some a) \<longleftrightarrow>
      (\<exists>a \<in> set level. up units 0 u = Some a) \<or>
      (\<exists>n \<le> f. \<exists>a \<in> set level. up units (Suc n) u = Some a)"
    by (metis Suc_le_mono le0 not0_implies_Suc)
  moreover have "(\<exists>a \<in> set level. up units 0 u = Some a) \<longleftrightarrow> u \<in> set level"
    using Suc.prems by (auto split: option.splits)
  ultimately show ?case
    using Suc.IH [OF live] by (simp del: up.simps add: step)
qed

lemma up_live_end: "up units n u = Some a \<Longrightarrow> live_unit units a \<noteq> None"
  by (induction n arbitrary: u) (auto split: option.splits)

lemma descendants_iff:
  assumes "unique_units units"
  shows "u \<in> descendants_or_self units roots \<longleftrightarrow>
    (\<exists>a \<in> roots. a \<in> set (ancestors_or_self units (Some u)))"
proof -
  let ?base = "map ou_id (filter (\<lambda>r. ou_id r \<in> roots \<and> \<not> ou_deleted r) units)"
  have base: "a \<in> set ?base \<longleftrightarrow> a \<in> roots \<and> live_unit units a \<noteq> None" for a
  proof -
    have "live_unit units a \<noteq> None \<longleftrightarrow> (\<exists>r \<in> set units. ou_id r = a \<and> \<not> ou_deleted r)"
      using live_unit_unique [OF assms] by auto
    then show ?thesis by auto
  qed
  have "u \<in> descendants_or_self units roots \<longleftrightarrow>
      (\<exists>n \<le> MAX_ANCESTRY_DEPTH. \<exists>a \<in> set ?base. up units n u = Some a)"
    unfolding descendants_or_self_def by (rule desc_walk_iff [OF assms]) (use base in blast)
  also have "\<dots> \<longleftrightarrow> (\<exists>a \<in> roots. \<exists>n \<le> MAX_ANCESTRY_DEPTH. up units n u = Some a)"
    using up_live_end base by blast
  finally show ?thesis by (simp add: ancestors_or_self_def anc_walk_iff)
qed

section \<open>Properties\<close>

text \<open>
  The downward walk is the inverse of the upward walk: a unit is in the subtree closure of a
  set of roots exactly when one of the roots is among its ancestors-or-self, soft-deleted units
  and the depth guard included.
\<close>

theorem descendants_iff_ancestors:
  assumes "unique_units units"
  shows "u \<in> descendants_or_self units roots \<longleftrightarrow>
    (\<exists>a \<in> roots. a \<in> set (ancestors_or_self units (Some u)))"
  by (rule descendants_iff [OF assms])

theorem descendants_iff_ancestors_witness:
  "let units = [\<lparr>ou_id = 1, ou_parent = None, ou_deleted = False\<rparr>,
                \<lparr>ou_id = 2, ou_parent = Some 1, ou_deleted = False\<rparr>]
   in 2 \<in> descendants_or_self units {1} \<and> 1 \<in> set (ancestors_or_self units (Some 2))"
proof -
  let ?units = "[\<lparr>ou_id = 1, ou_parent = None, ou_deleted = False\<rparr>,
                \<lparr>ou_id = 2, ou_parent = Some 1, ou_deleted = False\<rparr>]"
  have "unique_units ?units" by (simp add: unique_units_def)
  from descendants_iff_ancestors [OF this, of 2 "{1}"] show ?thesis
    by (simp add: ancestors_or_self_def anc_walk_iff)
      (auto simp: MAX_ANCESTRY_DEPTH_def live_unit_def intro!: exI [of _ "Suc 0"])
qed

text \<open>
  A list endpoint sees exactly what the one-row check allows: \<open>authorize_scoped\<close> on a request's
  unit holds exactly when the permission is held globally or the unit is in the subtree closure
  of the scoped grants.
\<close>

theorem authorize_iff_subtree:
  assumes "unique_units (org_units db)"
  shows "authorize_scoped db uid perm (Some t) \<longleftrightarrow>
    None \<in> scoped_org_units db uid perm (wall db) \<or>
    t \<in> descendants_or_self (org_units db)
          {s. Some s \<in> scoped_org_units db uid perm (wall db)}"
  unfolding descendants_iff [OF assms] authorize_scoped_def
  by (auto simp: Let_def)

theorem authorize_iff_subtree_witness:
  "let db = \<lparr>org_units = [\<lparr>ou_id = 1, ou_parent = None, ou_deleted = False\<rparr>],
             user_roles = [\<lparr>ur_user = 7, ur_role = 3, ur_org = Some 1, ur_valid_from = None,
                            ur_valid_to = None\<rparr>],
             role_perms = [(3, ''reimb.claim.review'')], users = [], wall = 0\<rparr>
   in authorize_scoped db 7 ''reimb.claim.review'' (Some 1)"
proof -
  let ?db = "\<lparr>org_units = [\<lparr>ou_id = 1, ou_parent = None, ou_deleted = False\<rparr>],
             user_roles = [\<lparr>ur_user = 7, ur_role = 3, ur_org = Some 1, ur_valid_from = None,
                            ur_valid_to = None\<rparr>],
             role_perms = [(3, ''reimb.claim.review'')], users = [], wall = 0\<rparr>"
  have u: "unique_units (org_units ?db)" by (simp add: unique_units_def)
  have "1 \<in> descendants_or_self (org_units ?db) {1}"
    using descendants_iff [OF u, of 1 "{1}"]
    by (simp add: ancestors_or_self_def anc_walk_iff)
      (auto simp: live_unit_def intro!: exI [of _ 0])
  with authorize_iff_subtree [OF u, of 7 "''reimb.claim.review''" 1] show ?thesis
    by (simp add: scoped_org_units_def in_window_def)
qed

lemma permission_holders_iff:
  "(uid, g_unit) \<in> set (permission_holders db perm target now) \<longleftrightarrow>
    (\<exists>u \<in> set (users db). user_id u = uid \<and> user_is_active u) \<and>
    g_unit \<in> scoped_org_units db uid perm now \<and>
    (case g_unit of None \<Rightarrow> True | Some a \<Rightarrow> a \<in> set (ancestors_or_self (org_units db) target))"
  unfolding permission_holders_def scoped_org_units_def Let_def
  by (simp add: image_iff Bex_def) (rule iffI; elim exE conjE; intro conjI exI; assumption?; simp)

text \<open>
  Holder resolution is the inverse of authorization: an active user appears in
  \<open>permission_holders\<close> for a target unit exactly when \<open>authorize_scoped\<close> lets that user exercise
  the permission there (both evaluated at the same instant).
\<close>

theorem holders_iff_authorized:
  assumes "\<exists>u \<in> set (users db). user_id u = uid \<and> user_is_active u"
  shows "(\<exists>unit. (uid, unit) \<in> set (permission_holders db perm target (wall db))) \<longleftrightarrow>
    authorize_scoped db uid perm target"
proof -
  have "(\<exists>unit. (uid, unit) \<in> set (permission_holders db perm target (wall db))) \<longleftrightarrow>
      (\<exists>s \<in> scoped_org_units db uid perm (wall db).
         s = None \<or> (\<exists>a \<in> set (ancestors_or_self (org_units db) target). s = Some a))"
    unfolding permission_holders_iff using assms by (auto split: option.splits)
  then show ?thesis
    by (cases target) (auto simp: authorize_scoped_def ancestors_or_self_def Let_def)
qed

theorem holders_iff_authorized_witness:
  "let db = \<lparr>org_units = [], user_roles = [\<lparr>ur_user = 7, ur_role = 3, ur_org = None,
              ur_valid_from = Some 5, ur_valid_to = None\<rparr>], role_perms = [(3, ''p'')],
              users = [\<lparr>user_id = 7, user_is_active = True, user_staff = None, user_email = ''a''\<rparr>], wall = 5\<rparr>
   in \<exists>g_unit. (7, g_unit) \<in> set (permission_holders db ''p'' None (wall db))"
proof -
  let ?db = "\<lparr>org_units = [], user_roles = [\<lparr>ur_user = 7, ur_role = 3, ur_org = None,
              ur_valid_from = Some 5, ur_valid_to = None\<rparr>], role_perms = [(3, ''p'')],
              users = [\<lparr>user_id = 7, user_is_active = True, user_staff = None, user_email = ''a''\<rparr>], wall = 5\<rparr>"
  have "\<exists>u \<in> set (users ?db). user_id u = 7 \<and> user_is_active u" by simp
  from holders_iff_authorized [OF this, of "''p''" None] show ?thesis
    by (simp add: authorize_scoped_def scoped_org_units_def in_window_def)
qed

text \<open>
  The ancestry walk is bounded by the depth guard: at most 65 ids come back, whatever the
  parent pointers say, so a cycle in the tree cannot make the query run away.
\<close>

theorem ancestors_bounded: "length (ancestors_or_self units u) \<le> Suc MAX_ANCESTRY_DEPTH"
  by (auto simp: ancestors_or_self_def length_anc_walk split: option.splits)

end
