(* ===== verification/Workflow_Model.thy ===== *)
theory Workflow_Model
  imports Org_Units
begin

text \<open>
  The tables of the workflow engine, \<open>src/office_connect/core/models/workflow.py\<close>, and its error
  codes, \<open>src/office_connect/core/workflow/errors.py\<close>. A native enum is a datatype, a table row a
  record, a \<open>numeric(12, 2)\<close> amount an \<open>int\<close> of centavos. Every table holds the rows the
  soft-delete filter lets through; the audit columns, the \<open>description\<close>, the \<open>context\<close> and the
  \<open>payload\<close> columns, which the engine never reads, are left out. \<open>*_seq\<close> is the last value the
  table's id sequence handed out.
\<close>

section \<open>Enums and rows\<close>

datatype state_kind = Initial | Normal | Terminal

datatype transition_action = Submit | Approve | Return | Reject | Cancel | Escalate | Resubmit

datatype step_status = Pending | Active | Done | Returned | Skipped

datatype join_type = JoinAll | JoinAny | JoinQuorum

datatype event_type = Started | Transition | Escalation | Reminder | Note

datatype resubmit_policy = Restart | Resume

record wf_definition =
  def_id :: int
  def_code :: string
  def_name :: string
  def_module :: "string option"

record wf_version =
  ver_id :: int
  ver_definition :: int
  ver_no :: int
  ver_published :: bool
  ver_published_at :: "instant option"
  ver_resubmit :: resubmit_policy

record wf_state =
  st_id :: int
  st_version :: int
  st_code :: string
  st_name :: string
  st_kind :: state_kind
  st_sort :: int
  st_gate :: bool
  st_perm :: "string option"
  st_join :: join_type
  st_step_count :: int
  st_quorum :: "int option"
  st_sla_hours :: "int option"
  st_segregation :: bool
  st_comment :: bool

record wf_transition =
  tr_id :: int
  tr_version :: int
  tr_from :: int
  tr_to :: int
  tr_action :: transition_action
  tr_sort :: int
  tr_perm :: "string option"
  tr_min :: "int option"
  tr_max :: "int option"
  tr_comment :: bool

record wf_instance =
  in_id :: int
  in_version :: int
  in_state :: int
  in_row_version :: int
  in_revision :: int
  in_originator :: "int option"
  in_org :: "int option"
  in_subject_kind :: "string option"
  in_subject_id :: "int option"
  in_amount :: "int option"

record wf_step =
  sp_id :: int
  sp_instance :: int
  sp_state :: int
  sp_revision :: int
  sp_sequence :: int
  sp_join :: join_type
  sp_quorum :: "int option"
  sp_perm :: "string option"
  sp_org :: "int option"
  sp_status :: step_status
  sp_acted_by :: "int option"
  sp_on_behalf :: "int option"
  sp_acted_at :: "instant option"
  sp_comment :: "string option"
  sp_sla_due :: "instant option"
  sp_escalation :: int

record wf_event =
  ev_id :: int
  ev_instance :: int
  ev_step :: "int option"
  ev_type :: event_type
  ev_action :: "transition_action option"
  ev_from :: "int option"
  ev_to :: "int option"
  ev_actor :: "int option"
  ev_on_behalf :: "int option"
  ev_comment :: "string option"
  ev_key :: "string option"
  ev_escalation :: "int option"
  ev_revision :: "int option"

record wf_delegation =
  dg_delegator :: int
  dg_delegate :: int
  dg_definition :: "int option"
  dg_org :: "int option"
  dg_starts :: instant
  dg_ends :: instant

record feature_flag =
  ff_key :: string
  ff_enabled :: bool
  ff_is_active :: bool

section \<open>The database\<close>

record wf_db =
  auth :: auth_db
  definitions :: "wf_definition list"
  versions :: "wf_version list"
  states :: "wf_state list"
  transitions :: "wf_transition list"
  instances :: "wf_instance list"
  steps :: "wf_step list"
  events :: "wf_event list"
  delegations :: "wf_delegation list"
  flags :: "feature_flag list"
  def_seq :: int
  ver_seq :: int
  st_seq :: int
  tr_seq :: int
  in_seq :: int
  sp_seq :: int
  ev_seq :: int

abbreviation get_version :: "wf_db \<Rightarrow> int \<Rightarrow> wf_version option" where
  "get_version db \<equiv> row_get ver_id (versions db)"

abbreviation get_state :: "wf_db \<Rightarrow> int \<Rightarrow> wf_state option" where
  "get_state db \<equiv> row_get st_id (states db)"

abbreviation get_instance :: "wf_db \<Rightarrow> int \<Rightarrow> wf_instance option" where
  "get_instance db \<equiv> row_get in_id (instances db)"

section \<open>Errors\<close>

definition instance_not_found :: exn where
  "instance_not_found = APIError 404 ''workflow_instance_not_found''"

definition definition_not_published :: exn where
  "definition_not_published = APIError 409 ''workflow_definition_not_published''"

definition module_disabled :: exn where
  "module_disabled = APIError 409 ''workflow_module_disabled''"

definition stale_version :: exn where
  "stale_version = APIError 409 ''stale_workflow_version''"

definition state_conflict :: exn where
  "state_conflict = APIError 409 ''workflow_state_conflict''"

definition already_acted :: exn where
  "already_acted = APIError 409 ''workflow_step_already_acted''"

definition not_authorized :: exn where
  "not_authorized = APIError 403 ''workflow_not_authorized''"

definition transition_not_allowed :: exn where
  "transition_not_allowed = APIError 422 ''workflow_transition_not_allowed''"

definition comment_required :: exn where
  "comment_required = APIError 422 ''workflow_comment_required''"

definition invalid_definition :: exn where
  "invalid_definition = APIError 400 ''workflow_invalid_definition''"

definition already_published :: exn where
  "already_published = APIError 409 ''workflow_version_published''"

definition segregation_of_duties :: exn where
  "segregation_of_duties = APIError 409 ''segregation_of_duties''"

end
