(* ===== verification/Workflow_Definitions.thy ===== *)
theory Workflow_Definitions
  imports Workflow_Model
begin

text \<open>
  Design-time authoring, \<open>src/office_connect/core/workflow/definitions.py\<close>: definitions, draft
  versions, states and transitions, the graph validation that publishing runs, and the two
  lookups a new instance starts from. The unique indexes of the tables (definition code, state
  code and initial state per version) raise \<open>IntegrityError\<close> at flush.
\<close>

section \<open>Authoring\<close>

definition create_definition ::
  "wf_db \<Rightarrow> string \<Rightarrow> string \<Rightarrow> string option \<Rightarrow> (wf_definition \<times> wf_db) res" where
  "create_definition db code name module =
     (if \<exists>d \<in> set (definitions db). def_code d = code then Inl IntegrityError
      else
        (let d = \<lparr>def_id = def_seq db + 1, def_code = code, def_name = name, def_module = module\<rparr>
         in Inr (d, db\<lparr>definitions := definitions db @ [d], def_seq := def_seq db + 1\<rparr>)))"

definition max_version_no :: "wf_db \<Rightarrow> int \<Rightarrow> int" where
  "max_version_no db did =
     fold max (map ver_no (filter (\<lambda>v. ver_definition v = did) (versions db))) 0"

definition create_version :: "wf_db \<Rightarrow> int \<Rightarrow> resubmit_policy \<Rightarrow> wf_version \<times> wf_db" where
  "create_version db did policy =
     (let v = \<lparr>ver_id = ver_seq db + 1, ver_definition = did, ver_no = max_version_no db did + 1,
               ver_published = False, ver_published_at = None, ver_resubmit = policy\<rparr>
      in (v, db\<lparr>versions := versions db @ [v], ver_seq := ver_seq db + 1\<rparr>))"

text \<open>
  \<open>add_state\<close> takes the row to insert; its id and version columns are set here, the rest are the
  keyword arguments of the source.
\<close>

definition add_state :: "wf_db \<Rightarrow> wf_version \<Rightarrow> wf_state \<Rightarrow> (wf_state \<times> wf_db) res" where
  "add_state db version row =
     (if ver_published version then Inl already_published
      else if \<exists>s \<in> set (states db). st_version s = ver_id version \<and>
                (st_code s = st_code row \<or> (st_kind s = Initial \<and> st_kind row = Initial))
      then Inl IntegrityError
      else
        (let s = row\<lparr>st_id := st_seq db + 1, st_version := ver_id version\<rparr>
         in Inr (s, db\<lparr>states := states db @ [s], st_seq := st_seq db + 1\<rparr>)))"

definition add_transition ::
  "wf_db \<Rightarrow> wf_version \<Rightarrow> wf_transition \<Rightarrow> (wf_transition \<times> wf_db) res" where
  "add_transition db version row =
     (if ver_published version then Inl already_published
      else
        (let t = row\<lparr>tr_id := tr_seq db + 1, tr_version := ver_id version\<rparr>
         in Inr (t, db\<lparr>transitions := transitions db @ [t], tr_seq := tr_seq db + 1\<rparr>)))"

definition states_and_transitions :: "wf_db \<Rightarrow> int \<Rightarrow> wf_state list \<times> wf_transition list" where
  "states_and_transitions db vid =
     (filter (\<lambda>s. st_version s = vid) (states db),
      filter (\<lambda>t. tr_version t = vid) (transitions db))"

section \<open>Validation\<close>

text \<open>The value of \<open>out[id]\<close> once every transition has been entered.\<close>

definition out_edges :: "wf_transition list \<Rightarrow> int \<Rightarrow> int list" where
  "out_edges ts i = map tr_to (filter (\<lambda>t. tr_from t = i) ts)"

text \<open>
  The worklist loop: \<open>pop()\<close> takes the last element; \<open>out[node]\<close> on a node that is no state raises
  \<open>KeyError\<close>.
\<close>

function reach_loop :: "int list \<Rightarrow> (int \<Rightarrow> int list) \<Rightarrow> int set \<Rightarrow> int list \<Rightarrow> int set res" where
  "reach_loop ids out seen frontier =
     (if frontier = [] then Inr seen
      else
        (let node = last frontier; rest = butlast frontier in
         if node \<in> seen then reach_loop ids out seen rest
         else if node \<in> set ids then reach_loop ids out (insert node seen) (rest @ out node)
         else Inl KeyError))"
  by pat_completeness auto
termination
proof (relation "measures [\<lambda>(ids, out, seen, fr). card (set ids - seen), \<lambda>(ids, out, seen, fr). length fr]",
    goal_cases)
  case (3 ids out seen frontier node rest)
  then have "set ids - insert node seen \<subset> set ids - seen" by auto
  then have "card (set ids - insert node seen) < card (set ids - seen)"
    by (intro psubset_card_mono) auto
  then show ?case by simp
qed auto

declare reach_loop.simps [simp del]

definition validate_graph :: "wf_state list \<Rightarrow> wf_transition list \<Rightarrow> unit res" where
  "validate_graph sts ts =
     (if sts = [] then Inl invalid_definition
      else
        (let ids = map st_id sts; initials = filter (\<lambda>s. st_kind s = Initial) sts in
         if length initials \<noteq> 1 then Inl invalid_definition
         else if \<not> (\<exists>s \<in> set sts. st_kind s = Terminal) then Inl invalid_definition
         else if \<exists>t \<in> set ts. tr_from t \<notin> set ids \<or> tr_to t \<notin> set ids then Inl invalid_definition
         else if \<exists>s \<in> set sts. st_kind s \<noteq> Terminal \<and> out_edges ts (st_id s) = []
         then Inl invalid_definition
         else rbind (reach_loop ids (out_edges ts) {} [st_id (hd initials)]) (\<lambda>seen.
           if set ids - seen \<noteq> {} then Inl invalid_definition else Inr ())))"

definition publish_version :: "wf_db \<Rightarrow> wf_version \<Rightarrow> (wf_version \<times> wf_db) res" where
  "publish_version db version =
     (if ver_published version then Inr (version, db)
      else
        (let (sts, ts) = states_and_transitions db (ver_id version) in
         rbind (validate_graph sts ts) (\<lambda>_.
           let pub = (\<lambda>v. v\<lparr>ver_published := True, ver_published_at := Some (wall (auth db))\<rparr>)
           in Inr (pub version, db\<lparr>versions := row_upd ver_id (ver_id version) pub (versions db)\<rparr>))))"

definition latest_version :: "wf_version list \<Rightarrow> wf_version option" where
  "latest_version vs =
     fold (\<lambda>v best. case best of None \<Rightarrow> Some v | Some b \<Rightarrow> if ver_no v > ver_no b then Some v else best)
       vs None"

definition get_published_version :: "wf_db \<Rightarrow> string \<Rightarrow> wf_version option" where
  "get_published_version db code =
     latest_version (filter (\<lambda>v. ver_published v \<and>
        (\<exists>d \<in> set (definitions db). def_id d = ver_definition v \<and> def_code d = code)) (versions db))"

text \<open>\<open>scalars().one()\<close> raises unless exactly one row comes back.\<close>

definition initial_state :: "wf_db \<Rightarrow> int \<Rightarrow> wf_state res" where
  "initial_state db vid =
     (case filter (\<lambda>s. st_version s = vid \<and> st_kind s = Initial) (states db) of
        [s] \<Rightarrow> Inr s
      | _ \<Rightarrow> Inl NoResultFound)"

section \<open>What the validation establishes\<close>

definition graph_edges :: "wf_transition list \<Rightarrow> (int \<times> int) set" where
  "graph_edges ts = (\<lambda>t. (tr_from t, tr_to t)) ` set ts"

definition well_formed_graph :: "wf_state list \<Rightarrow> wf_transition list \<Rightarrow> bool" where
  "well_formed_graph sts ts \<longleftrightarrow>
     (\<exists>s0. filter (\<lambda>s. st_kind s = Initial) sts = [s0] \<and>
        (\<forall>s \<in> set sts. (st_id s0, st_id s) \<in> (graph_edges ts)\<^sup>*)) \<and>
     (\<exists>s \<in> set sts. st_kind s = Terminal) \<and>
     (\<forall>t \<in> set ts. tr_from t \<in> st_id ` set sts \<and> tr_to t \<in> st_id ` set sts) \<and>
     (\<forall>s \<in> set sts. st_kind s \<noteq> Terminal \<longrightarrow> (\<exists>t \<in> set ts. tr_from t = st_id s))"

lemma reach_loop_least_closed:
  assumes "\<And>a. a \<in> set ids \<Longrightarrow> set (out a) \<subseteq> set ids" "set frontier \<subseteq> set ids"
    and "\<And>a. a \<in> seen \<Longrightarrow> set (out a) \<subseteq> seen \<union> set frontier"
  shows "\<exists>S. reach_loop ids out seen frontier = Inr S \<and> seen \<union> set frontier \<subseteq> S \<and>
    (\<forall>a \<in> S. set (out a) \<subseteq> S) \<and>
    (\<forall>R. seen \<union> set frontier \<subseteq> R \<longrightarrow> (\<forall>a \<in> R. set (out a) \<subseteq> R) \<longrightarrow> S \<subseteq> R)"
  using assms
proof (induction ids out seen frontier rule: reach_loop.induct)
  case (1 ids out seen frontier)
  show ?case
  proof (cases "frontier = []")
    case True
    with "1.prems" show ?thesis by (simp add: reach_loop.simps)
  next
    case False
    define node rest where nr: "node = last frontier" "rest = butlast frontier"
    have fr: "set frontier = insert node (set rest)"
      using False nr by (metis append_butlast_last_id insert_is_Un list.simps(15) set_append Un_commute empty_set)
    have mem: "node \<in> set ids" using "1.prems"(2) fr by auto
    show ?thesis
    proof (cases "node \<in> seen")
      case True
      have eq: "seen \<union> set frontier = seen \<union> set rest" using True fr by auto
      have "reach_loop ids out seen frontier = reach_loop ids out seen rest"
        using False True nr by (subst reach_loop.simps) (simp add: Let_def)
      then show ?thesis
        using "1.IH"(1) [OF False nr True "1.prems"(1)] "1.prems" eq fr by auto
    next
      case False2: False
      have eq: "reach_loop ids out seen frontier =
          reach_loop ids out (insert node seen) (rest @ out node)"
        using False False2 mem nr by (subst reach_loop.simps) (simp add: Let_def)
      have "set (rest @ out node) \<subseteq> set ids" using "1.prems"(1) [OF mem] "1.prems"(2) fr by auto
      moreover have "set (out a) \<subseteq> insert node seen \<union> set (rest @ out node)"
        if "a \<in> insert node seen" for a
        using that "1.prems"(3) [of a] fr by auto
      ultimately obtain S where S: "reach_loop ids out (insert node seen) (rest @ out node) = Inr S"
        "insert node seen \<union> set (rest @ out node) \<subseteq> S" "\<forall>a \<in> S. set (out a) \<subseteq> S"
        "\<forall>R. insert node seen \<union> set (rest @ out node) \<subseteq> R \<longrightarrow> (\<forall>a \<in> R. set (out a) \<subseteq> R) \<longrightarrow> S \<subseteq> R"
        using "1.IH"(2) [OF False nr False2 mem "1.prems"(1)] by blast
      have "S \<subseteq> R" if R: "seen \<union> set frontier \<subseteq> R" "\<forall>a \<in> R. set (out a) \<subseteq> R" for R
      proof -
        have "node \<in> R" using R(1) fr by auto
        then have "set (out node) \<subseteq> R" using R(2) by auto
        then have "insert node seen \<union> set (rest @ out node) \<subseteq> R" using R(1) fr by auto
        then show ?thesis using S(4) R(2) by blast
      qed
      then show ?thesis using S fr eq by auto
    qed
  qed
qed

lemma reach_loop_reachable:
  assumes "\<And>t. t \<in> set ts \<Longrightarrow> tr_from t \<in> set ids \<and> tr_to t \<in> set ids" "i \<in> set ids"
  shows "reach_loop ids (out_edges ts) {} [i] = Inr ((graph_edges ts)\<^sup>* `` {i})"
proof -
  have out: "set (out_edges ts a) = graph_edges ts `` {a}" for a
    by (auto simp: out_edges_def graph_edges_def)
  have "set (out_edges ts a) \<subseteq> set ids" for a
    using assms(1) by (auto simp: out_edges_def)
  then obtain S where S: "reach_loop ids (out_edges ts) {} [i] = Inr S" "i \<in> S"
    "\<forall>a \<in> S. set (out_edges ts a) \<subseteq> S"
    "\<forall>R. i \<in> R \<longrightarrow> (\<forall>a \<in> R. set (out_edges ts a) \<subseteq> R) \<longrightarrow> S \<subseteq> R"
    using reach_loop_least_closed [of ids "out_edges ts" "[i]" "{}"] assms(2) by auto
  have "S \<subseteq> (graph_edges ts)\<^sup>* `` {i}"
    using S(4) by (rule allE [where x = "(graph_edges ts)\<^sup>* `` {i}"]) (auto simp: out)
  moreover have "b \<in> S" if "(i, b) \<in> (graph_edges ts)\<^sup>*" for b
    using that by (induction rule: rtrancl_induct) (use S(2,3) out in auto)
  ultimately have "S = (graph_edges ts)\<^sup>* `` {i}" by blast
  with S(1) show ?thesis by simp
qed

lemma out_edges_empty: "out_edges ts i = [] \<longleftrightarrow> (\<forall>t \<in> set ts. tr_from t \<noteq> i)"
  by (auto simp: out_edges_def filter_empty_conv)

lemma validate_graph_spec:
  "validate_graph sts ts = Inr () \<longleftrightarrow> well_formed_graph sts ts"
proof (cases "\<exists>s0. filter (\<lambda>s. st_kind s = Initial) sts = [s0]")
  case False
  then have "length (filter (\<lambda>s. st_kind s = Initial) sts) \<noteq> 1"
    by (metis (no_types, lifting) One_nat_def length_0_conv length_Suc_conv)
  with False show ?thesis by (auto simp: validate_graph_def well_formed_graph_def Let_def)
next
  case True
  then obtain s0 where s0: "filter (\<lambda>s. st_kind s = Initial) sts = [s0]" by blast
  then have "s0 \<in> set (filter (\<lambda>s. st_kind s = Initial) sts)" by simp
  then have mem: "s0 \<in> set sts" by simp
  show ?thesis
  proof (cases "\<forall>t \<in> set ts. tr_from t \<in> st_id ` set sts \<and> tr_to t \<in> st_id ` set sts")
    case False
    then show ?thesis using s0 mem by (auto simp: validate_graph_def well_formed_graph_def Let_def)
  next
    case closed: True
    have "reach_loop (map st_id sts) (out_edges ts) {} [st_id s0] =
        Inr ((graph_edges ts)\<^sup>* `` {st_id s0})"
      by (rule reach_loop_reachable) (use closed mem in auto)
    then show ?thesis
      using s0 mem closed
      by (auto simp: validate_graph_def well_formed_graph_def Let_def out_edges_empty)
  qed
qed

lemma validate_graph_error:
  assumes "validate_graph sts ts \<noteq> Inr ()"
  shows "validate_graph sts ts = Inl invalid_definition"
proof -
  let ?ini = "filter (\<lambda>s. st_kind s = Initial) sts"
  have "reach_loop (map st_id sts) (out_edges ts) {} [st_id (hd ?ini)] =
      Inr ((graph_edges ts)\<^sup>* `` {st_id (hd ?ini)})"
    if "length ?ini = 1" "\<not> (\<exists>t \<in> set ts. tr_from t \<notin> st_id ` set sts \<or> tr_to t \<notin> st_id ` set sts)"
  proof (rule reach_loop_reachable)
    from that(1) have "hd ?ini \<in> set ?ini" by (intro hd_in_set) auto
    then show "st_id (hd ?ini) \<in> set (map st_id sts)" by simp
  qed (use that(2) in auto)
  with assms show ?thesis
    by (auto simp: validate_graph_def Let_def split: if_splits)
qed

section \<open>The authoring state machine\<close>

text \<open>
  One authoring call on the database; the \<open>version\<close> argument is a row the session has loaded.
\<close>

inductive authoring_step :: "wf_db \<Rightarrow> wf_db \<Rightarrow> bool" where
  author_definition: "create_definition db code name module = Inr (d, db') \<Longrightarrow> authoring_step db db'"
| author_version: "create_version db did policy = (v, db') \<Longrightarrow> authoring_step db db'"
| author_state:
    "v \<in> set (versions db) \<Longrightarrow> add_state db v row = Inr (s, db') \<Longrightarrow> authoring_step db db'"
| author_transition:
    "v \<in> set (versions db) \<Longrightarrow> add_transition db v row = Inr (t, db') \<Longrightarrow> authoring_step db db'"
| author_publish:
    "v \<in> set (versions db) \<Longrightarrow> publish_version db v = Inr (v', db') \<Longrightarrow> authoring_step db db'"

definition authoring_init :: "wf_db \<Rightarrow> bool" where
  "authoring_init db \<longleftrightarrow> versions db = [] \<and> states db = [] \<and> transitions db = []"

definition version_keys :: "wf_db \<Rightarrow> bool" where
  "version_keys db \<longleftrightarrow>
     distinct (map ver_id (versions db)) \<and> (\<forall>v \<in> set (versions db). ver_id v \<le> ver_seq db)"

definition published_valid :: "wf_db \<Rightarrow> bool" where
  "published_valid db \<longleftrightarrow>
     (\<forall>v \<in> set (versions db). ver_published v \<longrightarrow>
        validate_graph (fst (states_and_transitions db (ver_id v)))
                       (snd (states_and_transitions db (ver_id v))) = Inr ())"

definition authoring_inv :: "wf_db \<Rightarrow> bool" where
  "authoring_inv db \<longleftrightarrow> version_keys db \<and> published_valid db"

lemma same_version:
  "version_keys db \<Longrightarrow> v \<in> set (versions db) \<Longrightarrow> w \<in> set (versions db) \<Longrightarrow> ver_id v = ver_id w \<Longrightarrow> v = w"
  by (auto simp: version_keys_def distinct_map inj_on_def)

text \<open>A call on a draft leaves the graph of every other version alone.\<close>

lemma add_state_graph:
  assumes "add_state db v row = Inr (s, db')" "ver_id w \<noteq> ver_id v"
  shows "states_and_transitions db' (ver_id w) = states_and_transitions db (ver_id w)"
  using assms by (auto simp: add_state_def states_and_transitions_def Let_def split: if_splits)

lemma add_transition_graph:
  assumes "add_transition db v row = Inr (t, db')" "ver_id w \<noteq> ver_id v"
  shows "states_and_transitions db' (ver_id w) = states_and_transitions db (ver_id w)"
  using assms by (auto simp: add_transition_def states_and_transitions_def Let_def split: if_splits)

lemma publish_graph:
  assumes "publish_version db v = Inr (v', db')"
  shows "states_and_transitions db' vid = states_and_transitions db vid"
  using assms
  by (auto simp: publish_version_def states_and_transitions_def Let_def res_simps split: if_splits)

lemma publish_versions:
  assumes "publish_version db v = Inr (v', db')"
  shows "(ver_published v \<and> versions db' = versions db) \<or>
    (\<not> ver_published v \<and>
     validate_graph (fst (states_and_transitions db (ver_id v)))
                    (snd (states_and_transitions db (ver_id v))) = Inr () \<and>
     versions db' = row_upd ver_id (ver_id v)
        (\<lambda>v. v\<lparr>ver_published := True, ver_published_at := Some (wall (auth db))\<rparr>) (versions db))"
  using assms
  by (auto simp: publish_version_def states_and_transitions_def Let_def res_simps split: if_splits)

lemma publish_seq: "publish_version db v = Inr (v', db') \<Longrightarrow> ver_seq db' = ver_seq db"
  by (auto simp: publish_version_def Let_def res_simps split: if_splits prod.splits)

lemma add_state_draft:
  assumes "add_state db v row = Inr (s, db')"
  shows "\<not> ver_published v" "versions db' = versions db" "ver_seq db' = ver_seq db"
  using assms by (auto simp: add_state_def Let_def split: if_splits)

lemma add_transition_draft:
  assumes "add_transition db v row = Inr (t, db')"
  shows "\<not> ver_published v" "versions db' = versions db" "ver_seq db' = ver_seq db"
  using assms by (auto simp: add_transition_def Let_def split: if_splits)

lemma version_keys_step:
  assumes "version_keys db" "authoring_step db db'"
  shows "version_keys db'"
  using assms(2)
proof cases
  case author_publish
  from publish_versions [OF this(2)] publish_seq [OF this(2)] assms(1) show ?thesis
    by (auto simp: version_keys_def set_row_upd) force
next
  case author_version
  with assms(1) show ?thesis
    by (force simp: create_version_def version_keys_def Let_def)
qed (use assms(1) in \<open>auto simp: create_definition_def version_keys_def add_state_def
      add_transition_def Let_def split: if_splits\<close>)

lemma published_frozen_step:
  assumes "version_keys db" "authoring_step db db'" "w \<in> set (versions db)" "ver_published w"
  shows "w \<in> set (versions db') \<and>
    states_and_transitions db' (ver_id w) = states_and_transitions db (ver_id w)"
  using assms(2)
proof cases
  case (author_state v row s)
  then have "ver_id w \<noteq> ver_id v"
    using same_version [OF assms(1,3) author_state(1)] add_state_draft(1) assms(4) by blast
  with author_state assms(3) show ?thesis
    by (simp add: add_state_graph add_state_draft(2) [OF author_state(2)])
next
  case (author_transition v row t)
  then have "ver_id w \<noteq> ver_id v"
    using same_version [OF assms(1,3) author_transition(1)] add_transition_draft(1) assms(4) by blast
  with author_transition assms(3) show ?thesis
    by (simp add: add_transition_graph add_transition_draft(2) [OF author_transition(2)])
next
  case (author_publish v v')
  have "ver_id w \<noteq> ver_id v" if "\<not> ver_published v"
    using same_version [OF assms(1,3) author_publish(1)] that assms(4) by blast
  with publish_versions [OF author_publish(2)] assms(3) show ?thesis
    by (auto simp: publish_graph [OF author_publish(2)] set_row_upd)
qed (use assms(3) in \<open>auto simp: create_definition_def create_version_def states_and_transitions_def
      Let_def split: if_splits\<close>)

text \<open>A version that is published after a call was published before it, or was just validated.\<close>

lemma newly_published:
  assumes "authoring_step db db'" "w \<in> set (versions db')" "ver_published w"
  shows "w \<in> set (versions db) \<or>
    validate_graph (fst (states_and_transitions db' (ver_id w)))
                   (snd (states_and_transitions db' (ver_id w))) = Inr ()"
  using assms(1)
proof cases
  case (author_publish v v')
  from publish_versions [OF this(2)] assms(2,3) show ?thesis
    by (auto simp: publish_graph [OF author_publish(2)] set_row_upd)
qed (use assms(2,3) in \<open>auto simp: create_definition_def create_version_def add_state_def
      add_transition_def Let_def split: if_splits\<close>)

lemma authoring_inv_step:
  assumes "authoring_inv db" "authoring_step db db'"
  shows "authoring_inv db'"
  unfolding authoring_inv_def published_valid_def
proof (intro conjI ballI impI)
  show "version_keys db'" using assms version_keys_step by (auto simp: authoring_inv_def)
next
  fix w assume w: "w \<in> set (versions db')" "ver_published w"
  show "validate_graph (fst (states_and_transitions db' (ver_id w)))
      (snd (states_and_transitions db' (ver_id w))) = Inr ()"
    using newly_published [OF assms(2) w] published_frozen_step [OF _ assms(2) _ w(2)] assms(1) w(2)
    by (auto simp: authoring_inv_def published_valid_def)
qed

interpretation authoring: invariant_system authoring_init authoring_step authoring_inv
proof unfold_locales
  show "authoring_inv db" if "authoring_init db" for db
    using that by (simp add: authoring_init_def authoring_inv_def version_keys_def published_valid_def)
qed (rule authoring_inv_step)

lemma initial_state_of_valid:
  assumes "validate_graph (fst (states_and_transitions db vid)) (snd (states_and_transitions db vid))
    = Inr ()"
  shows "\<exists>s. initial_state db vid = Inr s \<and> s \<in> set (states db) \<and> st_version s = vid \<and>
    st_kind s = Initial"
proof -
  from assms obtain s where s: "filter (\<lambda>s. st_version s = vid \<and> st_kind s = Initial) (states db) = [s]"
    unfolding validate_graph_spec by (auto simp: well_formed_graph_def states_and_transitions_def
        conj_commute)
  have "s \<in> set (filter (\<lambda>s. st_version s = vid \<and> st_kind s = Initial) (states db))" unfolding s by simp
  then have "s \<in> set (states db)" "st_version s = vid" "st_kind s = Initial" by simp_all
  with s show ?thesis by (simp add: initial_state_def)
qed

section \<open>A sample definition\<close>

text \<open>
  The smallest publishable graph, authored by the calls above on an empty database: \<open>draft\<close>, an
  approval gate \<open>review\<close> and the terminal \<open>done\<close>. The witnesses here and in the engine start from it.
\<close>

definition empty_wf_db :: "auth_db \<Rightarrow> wf_db" where
  "empty_wf_db a = \<lparr>auth = a, definitions = [], versions = [], states = [], transitions = [],
     instances = [], steps = [], events = [], delegations = [], flags = [], def_seq = 0, ver_seq = 0,
     st_seq = 0, tr_seq = 0, in_seq = 0, sp_seq = 0, ev_seq = 0\<rparr>"

definition sample_auth :: auth_db where
  "sample_auth = \<lparr>org_units = [\<lparr>ou_id = 1, ou_parent = None, ou_deleted = False\<rparr>],
     user_roles = [\<lparr>ur_user = 8, ur_role = 3, ur_org = Some 1, ur_valid_from = None, ur_valid_to = None\<rparr>],
     role_perms = [(3, ''review'')], users = [], wall = 100\<rparr>"

definition sample_state :: "string \<Rightarrow> state_kind \<Rightarrow> bool \<Rightarrow> wf_state" where
  "sample_state code kind gate = \<lparr>st_id = 0, st_version = 0, st_code = code, st_name = code,
     st_kind = kind, st_sort = 0, st_gate = gate,
     st_perm = (if gate then Some ''review'' else None), st_join = JoinAll, st_step_count = 1,
     st_quorum = None, st_sla_hours = (if gate then Some 24 else None), st_segregation = gate, st_comment = False\<rparr>"

definition sample_transition :: "int \<Rightarrow> int \<Rightarrow> transition_action \<Rightarrow> wf_transition" where
  "sample_transition a b act = \<lparr>tr_id = 0, tr_version = 0, tr_from = a, tr_to = b, tr_action = act,
     tr_sort = 0, tr_perm = None, tr_min = None, tr_max = None, tr_comment = False\<rparr>"

fun ok_db :: "'e + ('a \<times> wf_db) \<Rightarrow> wf_db" where
  "ok_db (Inr (x, db)) = db"
| "ok_db (Inl e) = undefined"

definition sample_db1 :: wf_db where
  "sample_db1 = snd (create_version (ok_db (create_definition (empty_wf_db sample_auth) ''memo'' ''Memo'' None))
     1 Restart)"

definition sample_db2 :: wf_db where
  "sample_db2 = ok_db (add_state sample_db1 (hd (versions sample_db1)) (sample_state ''draft'' Initial False))"

definition sample_db3 :: wf_db where
  "sample_db3 = ok_db (add_state sample_db2 (hd (versions sample_db2)) (sample_state ''review'' Normal True))"

definition sample_db4 :: wf_db where
  "sample_db4 = ok_db (add_state sample_db3 (hd (versions sample_db3)) (sample_state ''done'' Terminal False))"

definition sample_db5 :: wf_db where
  "sample_db5 = ok_db (add_transition sample_db4 (hd (versions sample_db4)) (sample_transition 1 2 Submit))"

definition sample_db6 :: wf_db where
  "sample_db6 = ok_db (add_transition sample_db5 (hd (versions sample_db5)) (sample_transition 2 3 Approve))"

definition sample_db :: wf_db where
  "sample_db = ok_db (publish_version sample_db6 (hd (versions sample_db6)))"

lemma authored_ok:
  "is_ok (create_definition db code name module) \<Longrightarrow>
     authoring_step db (ok_db (create_definition db code name module))"
  "authoring_step db (snd (create_version db did policy))"
  "v \<in> set (versions db) \<Longrightarrow> is_ok (add_state db v row) \<Longrightarrow> authoring_step db (ok_db (add_state db v row))"
  "v \<in> set (versions db) \<Longrightarrow> is_ok (add_transition db v trow) \<Longrightarrow>
     authoring_step db (ok_db (add_transition db v trow))"
  "v \<in> set (versions db) \<Longrightarrow> is_ok (publish_version db v) \<Longrightarrow>
     authoring_step db (ok_db (publish_version db v))"
  by (auto simp: is_ok_iff intro: authoring_step.intros)
    (metis author_version prod.collapse)

lemma sample_graph_valid: "is_ok (publish_version sample_db6 (hd (versions sample_db6)))"
  by code_simp

lemma sample_db6_steps: "authoring_step\<^sup>*\<^sup>* (empty_wf_db sample_auth) sample_db6"
proof -
  have "authoring_step\<^sup>*\<^sup>* (empty_wf_db sample_auth)
      (ok_db (create_definition (empty_wf_db sample_auth) ''memo'' ''Memo'' None))"
    by (rule r_into_rtranclp) (rule authored_ok, code_simp)
  then have "authoring_step\<^sup>*\<^sup>* (empty_wf_db sample_auth) sample_db1"
    unfolding sample_db1_def by (rule rtranclp.rtrancl_into_rtrancl) (rule authored_ok)
  then have "authoring_step\<^sup>*\<^sup>* (empty_wf_db sample_auth) sample_db2"
    unfolding sample_db2_def by (rule rtranclp.rtrancl_into_rtrancl) (rule authored_ok; code_simp)
  then have "authoring_step\<^sup>*\<^sup>* (empty_wf_db sample_auth) sample_db3"
    unfolding sample_db3_def by (rule rtranclp.rtrancl_into_rtrancl) (rule authored_ok; code_simp)
  then have "authoring_step\<^sup>*\<^sup>* (empty_wf_db sample_auth) sample_db4"
    unfolding sample_db4_def by (rule rtranclp.rtrancl_into_rtrancl) (rule authored_ok; code_simp)
  then have "authoring_step\<^sup>*\<^sup>* (empty_wf_db sample_auth) sample_db5"
    unfolding sample_db5_def by (rule rtranclp.rtrancl_into_rtrancl) (rule authored_ok; code_simp)
  then show ?thesis
    unfolding sample_db6_def by (rule rtranclp.rtrancl_into_rtrancl) (rule authored_ok; code_simp)
qed

lemma sample_publish_step: "authoring_step sample_db6 sample_db"
  unfolding sample_db_def by (rule authored_ok(5)) (code_simp, rule sample_graph_valid)

lemma sample_db_steps: "authoring_step\<^sup>*\<^sup>* (empty_wf_db sample_auth) sample_db"
  by (rule rtranclp.rtrancl_into_rtrancl [OF sample_db6_steps sample_publish_step])

lemma sample_db_reach: "reach authoring_init authoring_step sample_db"
  by (rule reach_steps [OF _ sample_db_steps]) (simp add: authoring_init_def empty_wf_db_def)

lemma sample_db_version:
  "hd (versions sample_db) \<in> set (versions sample_db) \<and> ver_published (hd (versions sample_db)) \<and>
   ver_id (hd (versions sample_db)) = 1"
  by code_simp

section \<open>Properties\<close>

text \<open>
  C25. The validation decides well-formedness: it passes exactly the graphs with one initial state
  from which every state is reachable, a terminal state, no dangling transition and no
  non-terminal dead end, and refuses every other with \<open>workflow_invalid_definition\<close>; the worklist
  loop ends and never indexes outside the graph.
\<close>

theorem validate_graph_iff:
  "validate_graph sts ts =
     (if well_formed_graph sts ts then Inr () else Inl invalid_definition)"
  using validate_graph_spec validate_graph_error by auto

text \<open>
  Whatever authoring calls run, in whatever order, every published version is a well-formed
  graph, so the initial state a new instance asks for exists and is unique.
\<close>

theorem published_versions_startable:
  assumes "reach authoring_init authoring_step db" "v \<in> set (versions db)" "ver_published v"
  shows "well_formed_graph (fst (states_and_transitions db (ver_id v)))
           (snd (states_and_transitions db (ver_id v))) \<and>
    (\<exists>s. initial_state db (ver_id v) = Inr s)"
  using authoring.reach_inv [OF assms(1)] assms(2,3) initial_state_of_valid
  unfolding validate_graph_spec [symmetric]
  by (auto simp: authoring_inv_def published_valid_def) metis

theorem published_versions_startable_witness:
  "\<exists>s. initial_state sample_db 1 = Inr s"
  using published_versions_startable [OF sample_db_reach, of "hd (versions sample_db)"] sample_db_version
  by auto

text \<open>
  A published version is frozen: no authoring call changes its row, its states or its
  transitions.
\<close>

theorem published_frozen:
  assumes "reach authoring_init authoring_step db" "authoring_step db db'"
    "v \<in> set (versions db)" "ver_published v"
  shows "v \<in> set (versions db') \<and>
    states_and_transitions db' (ver_id v) = states_and_transitions db (ver_id v)"
  using published_frozen_step [OF _ assms(2-4)] authoring.reach_inv [OF assms(1)]
  by (simp add: authoring_inv_def)

theorem published_frozen_witness:
  "states_and_transitions (snd (create_version sample_db 1 Resume)) 1 = states_and_transitions sample_db 1"
  using published_frozen [OF sample_db_reach authored_ok(2), of "hd (versions sample_db)"]
    sample_db_version by auto

end
