(* ===== verification/Workflow_Engine.thy ===== *)
theory Workflow_Engine
  imports Workflow_Definitions Workdays
begin

text \<open>
  The run time of the workflow engine, \<open>src/office_connect/core/workflow/\<close>: the amount guard,
  the step rows of an approval gate with their fan-in, authority resolution with delegation, the
  transition executor \<open>execute_action\<close>, the read side \<open>available_actions\<close>, \<open>start_instance\<close>, the
  SLA sweep and the event fold; and \<open>src/office_connect/core/maker_checker.py\<close>.

  The row lock of \<open>execute_action\<close> serialises the calls on one instance, so a call is one atomic
  step on the database. An unordered query returns its rows in table order. An instant counts
  microseconds from 0001-01-01 00:00 UTC; adding hours beyond 9999-12-31 raises \<open>OverflowError\<close>.
\<close>

section \<open>Guards, segregation, authority\<close>

text \<open>\<open>a or b\<close> on optional strings.\<close>

definition py_or :: "string option \<Rightarrow> string option \<Rightarrow> string option" where
  "py_or a b = (if truthy a then a else b)"

definition amount_guard_passes :: "wf_transition \<Rightarrow> wf_instance \<Rightarrow> bool" where
  "amount_guard_passes t i \<longleftrightarrow>
     (case tr_min t of
        None \<Rightarrow> True
      | Some lo \<Rightarrow> (case in_amount i of None \<Rightarrow> False | Some a \<Rightarrow> \<not> a < lo)) \<and>
     (case tr_max t of
        None \<Rightarrow> True
      | Some hi \<Rightarrow> (case in_amount i of None \<Rightarrow> False | Some a \<Rightarrow> \<not> a > hi))"

definition assert_segregation :: "int \<Rightarrow> int list \<Rightarrow> unit res" where
  "assert_segregation maker checkers =
     (if maker \<in> set checkers then Inl segregation_of_duties
      else if \<not> distinct checkers then Inl segregation_of_duties
      else Inr ())"

record authority =
  authorized :: bool
  on_behalf_of :: "int option"

definition delegation_covers ::
  "wf_delegation \<Rightarrow> int \<Rightarrow> int option \<Rightarrow> int list \<Rightarrow> instant \<Rightarrow> bool" where
  "delegation_covers d actor did covering now \<longleftrightarrow>
     dg_delegate d = actor \<and> dg_starts d \<le> now \<and> dg_ends d > now \<and>
     (dg_definition d = None \<or> dg_definition d = did) \<and>
     (case dg_org d of None \<Rightarrow> True | Some u \<Rightarrow> u \<in> set covering)"

definition resolve_authority ::
  "wf_db \<Rightarrow> int \<Rightarrow> string option \<Rightarrow> int option \<Rightarrow> int option \<Rightarrow> instant \<Rightarrow> authority" where
  "resolve_authority db actor perm org did now =
     (case perm of
        None \<Rightarrow> \<lparr>authorized = True, on_behalf_of = None\<rparr>
      | Some p \<Rightarrow>
          (if authorize_scoped (auth db) actor p org then \<lparr>authorized = True, on_behalf_of = None\<rparr>
           else
             (let covering = (if org = None \<or> org = Some 0 then []
                              else ancestors_or_self (org_units (auth db)) org) in
              case find (\<lambda>d. authorize_scoped (auth db) (dg_delegator d) p org)
                     (filter (\<lambda>d. delegation_covers d actor did covering now) (delegations db)) of
                Some d \<Rightarrow> \<lparr>authorized = True, on_behalf_of = Some (dg_delegator d)\<rparr>
              | None \<Rightarrow> \<lparr>authorized = False, on_behalf_of = None\<rparr>)))"

section \<open>Steps\<close>

definition max_instant :: instant where
  "max_instant = max_ordinal * 86400000000 - 1"

definition add_hours :: "instant \<Rightarrow> int \<Rightarrow> instant res" where
  "add_hours now h =
     (let t = now + h * 3600000000 in if 0 \<le> t \<and> t \<le> max_instant then Inr t else Inl OverflowError)"

definition sla_due :: "wf_state \<Rightarrow> instant \<Rightarrow> instant option res" where
  "sla_due st now =
     (case st_sla_hours st of
        None \<Rightarrow> Inr None
      | Some h \<Rightarrow> if h = 0 then Inr None else rbind (add_hours now h) (\<lambda>t. Inr (Some t)))"

definition new_step ::
  "wf_instance \<Rightarrow> wf_state \<Rightarrow> instant option \<Rightarrow> int \<Rightarrow> nat \<Rightarrow> wf_step" where
  "new_step i st due seq n =
     \<lparr>sp_id = seq + 1 + int n, sp_instance = in_id i, sp_state = st_id st,
      sp_revision = in_revision i, sp_sequence = int n, sp_join = st_join st,
      sp_quorum = st_quorum st, sp_perm = st_perm st, sp_org = in_org i, sp_status = Active,
      sp_acted_by = None, sp_on_behalf = None, sp_acted_at = None, sp_comment = None,
      sp_sla_due = due, sp_escalation = 0\<rparr>"

definition activate_state_steps ::
  "wf_db \<Rightarrow> wf_instance \<Rightarrow> wf_state \<Rightarrow> instant \<Rightarrow> (wf_step list \<times> wf_db) res" where
  "activate_state_steps db i st now =
     (if \<not> st_gate st then Inr ([], db)
      else rbind (sla_due st now) (\<lambda>due.
        let n = nat (max 1 (st_step_count st));
            new = map (new_step i st due (sp_seq db)) [0..<n]
        in Inr (new, db\<lparr>steps := steps db @ new, sp_seq := sp_seq db + int n\<rparr>)))"

definition in_gate :: "int \<Rightarrow> int \<Rightarrow> int \<Rightarrow> wf_step \<Rightarrow> bool" where
  "in_gate iid sid rv s \<longleftrightarrow> sp_instance s = iid \<and> sp_state s = sid \<and> sp_revision s = rv"

definition gate_steps :: "wf_step list \<Rightarrow> int \<Rightarrow> int \<Rightarrow> int \<Rightarrow> wf_step list" where
  "gate_steps ss iid sid rv = filter (in_gate iid sid rv) ss"

definition join_satisfied :: "wf_step list \<Rightarrow> bool" where
  "join_satisfied ss =
     (let live = filter (\<lambda>s. sp_status s = Active \<or> sp_status s = Done) ss in
      if live = [] then False
      else
        (let dn = int (length (filter (\<lambda>s. sp_status s = Done) live));
             total = int (length live) in
         case sp_join (hd live) of
           JoinAny \<Rightarrow> dn \<ge> 1
         | JoinQuorum \<Rightarrow>
             dn \<ge> (case sp_quorum (hd live) of None \<Rightarrow> total | Some q \<Rightarrow> if q = 0 then total else q)
         | JoinAll \<Rightarrow> dn \<ge> total))"

section \<open>The transition executor\<close>

definition GATE_ACTIONS :: "transition_action set" where
  "GATE_ACTIONS = {Approve, Return, Reject}"

definition ordered_transitions :: "wf_db \<Rightarrow> int \<Rightarrow> wf_transition list" where
  "ordered_transitions db sid =
     sort_key (\<lambda>t. (tr_sort t, tr_id t)) (filter (\<lambda>t. tr_from t = sid) (transitions db))"

definition select_transition ::
  "wf_db \<Rightarrow> wf_instance \<Rightarrow> wf_state \<Rightarrow> transition_action \<Rightarrow> wf_transition option" where
  "select_transition db i cur act =
     find (\<lambda>t. amount_guard_passes t i)
       (filter (\<lambda>t. tr_action t = act) (ordered_transitions db (st_id cur)))"

definition definition_id :: "wf_db \<Rightarrow> wf_instance \<Rightarrow> int option" where
  "definition_id db i = map_option ver_definition (get_version db (in_version i))"

definition authorize_originator ::
  "wf_db \<Rightarrow> wf_instance \<Rightarrow> wf_transition \<Rightarrow> int \<Rightarrow> int option \<Rightarrow> instant \<Rightarrow> authority" where
  "authorize_originator db i t actor did now =
     (if in_originator i = Some actor then \<lparr>authorized = True, on_behalf_of = None\<rparr>
      else resolve_authority db actor (tr_perm t) (in_org i) did now)"

text \<open>
  The three ways an action is carried out. Each returns the delegator acted for, the step acted
  on, the state to move to, the instance and the step table.
\<close>

type_synonym action_effect = "int option \<times> int option \<times> int \<times> wf_instance \<times> wf_step list"

definition approve_mark :: "int \<Rightarrow> int option \<Rightarrow> instant \<Rightarrow> string option \<Rightarrow> wf_step \<Rightarrow> wf_step" where
  "approve_mark actor obo now comment s =
     s\<lparr>sp_status := Done, sp_acted_by := Some actor, sp_on_behalf := obo, sp_acted_at := Some now,
       sp_comment := comment\<rparr>"

definition skip_active :: "(wf_step \<Rightarrow> bool) \<Rightarrow> wf_step list \<Rightarrow> wf_step list" where
  "skip_active g = map (\<lambda>s. if g s \<and> sp_status s = Active then s\<lparr>sp_status := Skipped\<rparr> else s)"

definition approve_action ::
  "wf_db \<Rightarrow> wf_instance \<Rightarrow> wf_state \<Rightarrow> wf_transition \<Rightarrow> int \<Rightarrow> string option \<Rightarrow> int option \<Rightarrow>
     instant \<Rightarrow> action_effect res" where
  "approve_action db i cur t actor comment did now =
     (let g = in_gate (in_id i) (st_id cur) (in_revision i); gate = filter g (steps db) in
      if \<exists>s \<in> set gate. sp_acted_by s = Some actor \<and> sp_status s = Done then Inl already_acted
      else
        (case find (\<lambda>s. sp_status s = Active) gate of
           None \<Rightarrow> Inl already_acted
         | Some s \<Rightarrow>
             (let a = resolve_authority db actor (sp_perm s) (sp_org s) did now in
              if \<not> authorized a then Inl not_authorized
              else rbind
                (case in_originator i of
                   Some maker \<Rightarrow>
                     (if st_segregation cur
                      then assert_segregation maker
                             (List.map_filter (\<lambda>s. if sp_status s = Done then sp_acted_by s else None) gate
                              @ [actor])
                      else Inr ())
                 | None \<Rightarrow> Inr ())
                (\<lambda>_.
                  let ss = row_upd sp_id (sp_id s) (approve_mark actor (on_behalf_of a) now comment)
                             (steps db) in
                  if join_satisfied (filter g ss)
                  then Inr (on_behalf_of a, Some (sp_id s), tr_to t, i, skip_active g ss)
                  else Inr (on_behalf_of a, Some (sp_id s), st_id cur, i, ss)))))"

definition resolve_mark ::
  "step_status \<Rightarrow> int \<Rightarrow> int option \<Rightarrow> instant \<Rightarrow> (wf_step \<Rightarrow> bool) \<Rightarrow> wf_step \<Rightarrow> wf_step" where
  "resolve_mark status actor obo now g s =
     (if g s \<and> (sp_status s = Active \<or> sp_status s = Pending)
      then s\<lparr>sp_status := status, sp_acted_by := Some actor, sp_on_behalf := obo,
             sp_acted_at := Some now\<rparr>
      else s)"

definition resolve_action ::
  "wf_db \<Rightarrow> wf_instance \<Rightarrow> wf_state \<Rightarrow> wf_transition \<Rightarrow> transition_action \<Rightarrow> int \<Rightarrow> int option \<Rightarrow>
     instant \<Rightarrow> action_effect res" where
  "resolve_action db i cur t act actor did now =
     (let a = resolve_authority db actor (py_or (st_perm cur) (tr_perm t)) (in_org i) did now in
      if \<not> authorized a then Inl not_authorized
      else
        (let g = in_gate (in_id i) (st_id cur) (in_revision i);
             status = (if act = Return then Returned else Skipped)
         in Inr (on_behalf_of a, None, tr_to t, i,
              map (resolve_mark status actor (on_behalf_of a) now g) (steps db))))"

definition originator_action ::
  "wf_db \<Rightarrow> wf_instance \<Rightarrow> wf_transition \<Rightarrow> transition_action \<Rightarrow> int \<Rightarrow> int option \<Rightarrow> instant \<Rightarrow>
     action_effect res" where
  "originator_action db i t act actor did now =
     (let a = authorize_originator db i t actor did now in
      if \<not> authorized a then Inl not_authorized
      else Inr (on_behalf_of a, None, tr_to t,
             (if act = Resubmit then i\<lparr>in_revision := in_revision i + 1\<rparr> else i), steps db))"

definition perform ::
  "wf_db \<Rightarrow> wf_instance \<Rightarrow> wf_state \<Rightarrow> wf_transition \<Rightarrow> transition_action \<Rightarrow> int \<Rightarrow> string option \<Rightarrow>
     instant \<Rightarrow> action_effect res" where
  "perform db i cur t act actor comment now =
     (let did = definition_id db i in
      if act \<in> GATE_ACTIONS
      then (if act = Approve then approve_action db i cur t actor comment did now
            else resolve_action db i cur t act actor did now)
      else originator_action db i t act actor did now)"

text \<open>The partial unique index on \<open>(instance_id, idempotency_key)\<close> guards every insert.\<close>

definition add_event :: "wf_db \<Rightarrow> wf_event \<Rightarrow> (wf_event \<times> wf_db) res" where
  "add_event db e =
     (if ev_key e \<noteq> None \<and>
         (\<exists>x \<in> set (events db). ev_instance x = ev_instance e \<and> ev_key x = ev_key e)
      then Inl IntegrityError
      else (let e' = e\<lparr>ev_id := ev_seq db + 1\<rparr>
            in Inr (e', db\<lparr>events := events db @ [e'], ev_seq := ev_seq db + 1\<rparr>)))"

definition emit ::
  "wf_instance \<Rightarrow> transition_action \<Rightarrow> int \<Rightarrow> int \<Rightarrow> int \<Rightarrow> int option \<Rightarrow> string option \<Rightarrow>
     string option \<Rightarrow> int option \<Rightarrow> wf_event" where
  "emit i act from_id to_id actor obo comment key step =
     \<lparr>ev_id = 0, ev_instance = in_id i, ev_step = step, ev_type = Transition, ev_action = Some act,
      ev_from = Some from_id, ev_to = Some to_id, ev_actor = Some actor, ev_on_behalf = obo,
      ev_comment = comment, ev_key = key, ev_escalation = None, ev_revision = Some (in_revision i)\<rparr>"

text \<open>Step 6: move the instance, bump its version, activate the next gate, append the event.\<close>

definition advance ::
  "wf_db \<Rightarrow> wf_state \<Rightarrow> transition_action \<Rightarrow> int \<Rightarrow> string option \<Rightarrow> string option \<Rightarrow> instant \<Rightarrow>
     action_effect \<Rightarrow> (wf_event \<times> wf_db) res" where
  "advance db cur act actor comment key now eff =
     (case eff of (obo, step, new_id, i, ss) \<Rightarrow>
        let i' = i\<lparr>in_state := new_id, in_row_version := in_row_version i + 1\<rparr>;
            db1 = db\<lparr>instances := row_upd in_id (in_id i) (\<lambda>_. i') (instances db), steps := ss\<rparr> in
        rbind
          (if new_id = st_id cur then Inr db1
           else (case get_state db1 new_id of
                   None \<Rightarrow> Inl AttributeError
                 | Some st \<Rightarrow> rbind (activate_state_steps db1 i' st now) (\<lambda>(_, db2). Inr db2)))
          (\<lambda>db2. add_event db2 (emit i' act (st_id cur) new_id actor obo comment key step)))"

definition find_replay :: "wf_db \<Rightarrow> int \<Rightarrow> string option \<Rightarrow> wf_event option" where
  "find_replay db iid key =
     (if truthy key then find (\<lambda>e. ev_instance e = iid \<and> ev_key e = key) (events db) else None)"

definition execute_action ::
  "wf_db \<Rightarrow> int \<Rightarrow> transition_action \<Rightarrow> int \<Rightarrow> string option \<Rightarrow> string option \<Rightarrow> int option \<Rightarrow>
     instant \<Rightarrow> (wf_event \<times> wf_db) res" where
  "execute_action db iid act actor comment key expected now =
     (case get_instance db iid of
        None \<Rightarrow> Inl instance_not_found
      | Some i \<Rightarrow>
     (case find_replay db iid key of
        Some e \<Rightarrow> Inr (e, db)
      | None \<Rightarrow>
     if expected \<noteq> None \<and> expected \<noteq> Some (in_row_version i) then Inl stale_version
     else
     (case get_state db (in_state i) of
        None \<Rightarrow> Inl AttributeError
      | Some cur \<Rightarrow>
     if st_kind cur = Terminal then Inl state_conflict
     else
     (case select_transition db i cur act of
        None \<Rightarrow> Inl transition_not_allowed
      | Some t \<Rightarrow>
     if (tr_comment t \<or> st_comment cur) \<and> \<not> truthy comment then Inl comment_required
     else rbind (perform db i cur t act actor comment now)
            (advance db cur act actor comment key now)))))"

section \<open>Reading the allowed actions\<close>

definition may_act ::
  "wf_db \<Rightarrow> wf_instance \<Rightarrow> wf_state \<Rightarrow> wf_transition \<Rightarrow> int \<Rightarrow> instant \<Rightarrow> bool" where
  "may_act db i cur t actor now =
     (let did = definition_id db i;
          gate = gate_steps (steps db) (in_id i) (st_id cur) (in_revision i) in
      if tr_action t \<in> GATE_ACTIONS
      then (tr_action t = Approve \<longrightarrow>
              (\<exists>s \<in> set gate. sp_status s = Active) \<and>
              \<not> (\<exists>s \<in> set gate. sp_acted_by s = Some actor \<and> sp_status s = Done) \<and>
              \<not> (st_segregation cur \<and> in_originator i = Some actor)) \<and>
           authorized (resolve_authority db actor (py_or (st_perm cur) (tr_perm t)) (in_org i) did now)
      else authorized (authorize_originator db i t actor did now))"

definition available_actions ::
  "wf_db \<Rightarrow> int \<Rightarrow> int \<Rightarrow> instant \<Rightarrow> transition_action list res" where
  "available_actions db iid actor now =
     (case get_instance db iid of
        None \<Rightarrow> Inl instance_not_found
      | Some i \<Rightarrow>
          (case get_state db (in_state i) of
             None \<Rightarrow> Inr []
           | Some cur \<Rightarrow>
               if st_kind cur = Terminal then Inr []
               else Inr (fold (\<lambda>t allowed.
                      if tr_action t \<in> set allowed then allowed
                      else if \<not> amount_guard_passes t i then allowed
                      else if may_act db i cur t actor now then allowed @ [tr_action t]
                      else allowed)
                    (ordered_transitions db (st_id cur)) [])))"

section \<open>Starting an instance\<close>

definition flag_enabled :: "wf_db \<Rightarrow> string \<Rightarrow> bool" where
  "flag_enabled db key =
     (case find (\<lambda>f. ff_key f = key) (flags db) of
        None \<Rightarrow> False
      | Some f \<Rightarrow> ff_enabled f \<and> ff_is_active f)"

definition start_instance ::
  "wf_db \<Rightarrow> string \<Rightarrow> int option \<Rightarrow> int option \<Rightarrow> string option \<Rightarrow> int option \<Rightarrow> int option \<Rightarrow>
     string option \<Rightarrow> instant \<Rightarrow> (wf_instance \<times> wf_db) res" where
  "start_instance db code actor org skind sid amount flag now =
     (if (case flag of None \<Rightarrow> False | Some k \<Rightarrow> \<not> flag_enabled db k) then Inl module_disabled
      else
        (case get_published_version db code of
           None \<Rightarrow> Inl definition_not_published
         | Some v \<Rightarrow> rbind (initial_state db (ver_id v)) (\<lambda>ini.
             let i = \<lparr>in_id = in_seq db + 1, in_version = ver_id v, in_state = st_id ini,
                      in_row_version = 1, in_revision = 1, in_originator = actor, in_org = org,
                      in_subject_kind = skind, in_subject_id = sid, in_amount = amount\<rparr>;
                 db1 = db\<lparr>instances := instances db @ [i], in_seq := in_seq db + 1\<rparr> in
             rbind (activate_state_steps db1 i ini now) (\<lambda>(_, db2).
             rbind (add_event db2
                \<lparr>ev_id = 0, ev_instance = in_id i, ev_step = None, ev_type = Started,
                 ev_action = None, ev_from = None, ev_to = Some (st_id ini), ev_actor = actor,
                 ev_on_behalf = None, ev_comment = None, ev_key = None, ev_escalation = None,
                 ev_revision = Some 1\<rparr>) (\<lambda>(_, db3). Inr (i, db3))))))"

section \<open>SLA sweep\<close>

definition due_step :: "instant \<Rightarrow> wf_step \<Rightarrow> bool" where
  "due_step now s \<longleftrightarrow> sp_status s = Active \<and> sp_escalation s = 0 \<and>
     (case sp_sla_due s of None \<Rightarrow> False | Some d \<Rightarrow> d \<le> now)"

definition due_steps :: "wf_db \<Rightarrow> instant \<Rightarrow> nat \<Rightarrow> wf_step list" where
  "due_steps db now limit = take limit (sort_key sp_id (filter (due_step now) (steps db)))"

definition escalate :: "wf_db \<Rightarrow> wf_step \<Rightarrow> wf_db res" where
  "escalate db s =
     (let level = sp_escalation s + 1 in
      if \<exists>x \<in> set (events db). ev_type x = Escalation \<and> ev_step x = Some (sp_id s) \<and>
           ev_escalation x = Some level
      then Inl IntegrityError
      else Inr (db\<lparr>
        events := events db @ [\<lparr>ev_id = ev_seq db + 1, ev_instance = sp_instance s,
          ev_step = Some (sp_id s), ev_type = Escalation, ev_action = None, ev_from = None,
          ev_to = None, ev_actor = None, ev_on_behalf = None, ev_comment = None, ev_key = None,
          ev_escalation = Some level, ev_revision = None\<rparr>],
        ev_seq := ev_seq db + 1,
        steps := row_upd sp_id (sp_id s) (\<lambda>r. r\<lparr>sp_escalation := level\<rparr>) (steps db)\<rparr>))"

fun escalate_all :: "wf_db \<Rightarrow> wf_step list \<Rightarrow> wf_db res" where
  "escalate_all db [] = Inr db"
| "escalate_all db (s # ss) = rbind (escalate db s) (\<lambda>db'. escalate_all db' ss)"

text \<open>The ids handed to the registered enqueuer come back with the count.\<close>

definition sweep_due_steps :: "wf_db \<Rightarrow> instant \<Rightarrow> nat \<Rightarrow> (int list \<times> wf_db) res" where
  "sweep_due_steps db now limit =
     (let due = due_steps db now limit in
      rbind (escalate_all db due) (\<lambda>db'. Inr (map sp_id due, db')))"

section \<open>Replaying the event log\<close>

fun fold_events :: "wf_event list \<Rightarrow> int option \<Rightarrow> int option" where
  "fold_events [] state_id = state_id"
| "fold_events (e # es) state_id =
     fold_events es
       (if (ev_type e = Started \<or> ev_type e = Transition) \<and> ev_to e \<noteq> None then ev_to e
        else state_id)"

definition folded_state_id :: "wf_db \<Rightarrow> int \<Rightarrow> int option" where
  "folded_state_id db iid =
     fold_events (sort_key ev_id (filter (\<lambda>e. ev_instance e = iid) (events db))) None"

definition is_consistent :: "wf_db \<Rightarrow> int \<Rightarrow> bool" where
  "is_consistent db iid =
     (case get_instance db iid of
        None \<Rightarrow> False
      | Some i \<Rightarrow> folded_state_id db iid = Some (in_state i))"

end
