(* ===== verification/Workflow_Invariants.thy ===== *)
theory Workflow_Invariants
  imports Workflow_Engine
begin

text \<open>
  What the engine guarantees. The state machine of the whole engine interleaves authoring calls,
  new instances, actions and SLA sweeps; its invariants are proved operation by operation and
  discharged once, as an interpretation of the transition-system contract.
\<close>

section \<open>Case analysis of the executor\<close>

lemma execute_action_cases:
  assumes "execute_action db iid act actor comment key expected now = Inr (e, db')"
  obtains
    (replay) "db' = db" "find_replay db iid key = Some e"
  | (acted) i cur t eff where "get_instance db iid = Some i" "find_replay db iid key = None"
      "expected = None \<or> expected = Some (in_row_version i)"
      "get_state db (in_state i) = Some cur" "st_kind cur \<noteq> Terminal"
      "select_transition db i cur act = Some t"
      "\<not> ((tr_comment t \<or> st_comment cur) \<and> \<not> truthy comment)"
      "perform db i cur t act actor comment now = Inr eff"
      "advance db cur act actor comment key now eff = Inr (e, db')"
proof -
  from assms have "(db' = db \<and> find_replay db iid key = Some e) \<or>
    (\<exists>i cur t eff. get_instance db iid = Some i \<and> find_replay db iid key = None \<and>
      (expected = None \<or> expected = Some (in_row_version i)) \<and>
      get_state db (in_state i) = Some cur \<and> st_kind cur \<noteq> Terminal \<and>
      select_transition db i cur act = Some t \<and>
      \<not> ((tr_comment t \<or> st_comment cur) \<and> \<not> truthy comment) \<and>
      perform db i cur t act actor comment now = Inr eff \<and>
      advance db cur act actor comment key now eff = Inr (e, db'))"
    unfolding execute_action_def
    by (simp add: rbind_eq_Inr split: option.splits if_splits) blast?
  with replay acted show thesis by blast
qed

lemma find_replay_Some:
  "find_replay db iid key = Some e \<Longrightarrow>
    e \<in> set (events db) \<and> ev_instance e = iid \<and> ev_key e = key \<and> truthy key"
  by (auto simp: find_replay_def find_Some_iff split: if_splits)

lemma select_transition_Some:
  assumes "select_transition db i cur act = Some t"
  shows "t \<in> set (transitions db) \<and> tr_from t = st_id cur \<and> tr_action t = act \<and>
    amount_guard_passes t i"
proof -
  have "t \<in> set (filter (\<lambda>t. tr_action t = act) (ordered_transitions db (st_id cur)))"
    "amount_guard_passes t i"
    using assms find_Some_in unfolding select_transition_def by fastforce+
  then show ?thesis by (auto simp: ordered_transitions_def)
qed

text \<open>
  How one step row may change under an action: not at all, or from open to closed with its routing
  untouched; it becomes \<open>Done\<close> only by the approval that acted on it.
\<close>

definition pinned :: "wf_step \<Rightarrow> int \<times> int \<times> int \<times> int \<times> string option \<times> int option \<times> int \<times>
    join_type \<times> int option \<times> instant option" where
  "pinned s = (sp_id s, sp_instance s, sp_state s, sp_revision s, sp_perm s, sp_org s,
     sp_escalation s, sp_join s, sp_quorum s, sp_sla_due s)"

definition step_moved :: "(wf_step \<Rightarrow> bool) \<Rightarrow> int \<Rightarrow> int option \<Rightarrow> wf_step \<Rightarrow> wf_step \<Rightarrow> bool" where
  "step_moved g actor target s s' \<longleftrightarrow>
     s' = s \<or>
     (g s \<and> sp_status s \<in> {Active, Pending} \<and> pinned s' = pinned s \<and>
      ((sp_status s' = Done \<and> sp_acted_by s' = Some actor \<and> target = Some (sp_id s)) \<or>
       sp_status s' \<in> {Returned, Skipped}))"

lemma step_moved_pinned: "step_moved g actor target s s' \<Longrightarrow> pinned s' = pinned s"
  by (auto simp: step_moved_def)

text \<open>The guards an approval has passed.\<close>

definition approval_guards :: "wf_db \<Rightarrow> wf_instance \<Rightarrow> wf_state \<Rightarrow> int \<Rightarrow> int \<Rightarrow> bool" where
  "approval_guards db i cur actor sid \<longleftrightarrow>
     (\<forall>s \<in> set (steps db). in_gate (in_id i) (st_id cur) (in_revision i) s \<and> sp_status s = Done \<longrightarrow>
        sp_acted_by s \<noteq> Some actor) \<and>
     (st_segregation cur \<longrightarrow> in_originator i \<noteq> Some actor) \<and>
     (\<exists>s \<in> set (steps db). sp_id s = sid \<and> sp_status s = Active \<and>
        in_gate (in_id i) (st_id cur) (in_revision i) s)"

lemma approve_action_effect:
  assumes ok: "approve_action db i cur t actor comment did now = Inr (obo, target, new_id, i', ss)"
    and dist: "distinct (map sp_id (steps db))"
  obtains f sid where "ss = map f (steps db)" "target = Some sid" "i' = i"
    "new_id = tr_to t \<or> new_id = st_id cur" "approval_guards db i cur actor sid"
    "\<And>s. s \<in> set (steps db) \<Longrightarrow>
       step_moved (in_gate (in_id i) (st_id cur) (in_revision i)) actor target s (f s)"
proof -
  define g where g: "g = in_gate (in_id i) (st_id cur) (in_revision i)"
  let ?gate = "filter g (steps db)"
  from ok obtain s where notyet: "\<not> (\<exists>s \<in> set ?gate. sp_acted_by s = Some actor \<and> sp_status s = Done)"
    and s: "find (\<lambda>s. sp_status s = Active) ?gate = Some s"
    unfolding approve_action_def g [symmetric] by (auto simp: Let_def split: if_splits option.splits)
  define a where a: "a = resolve_authority db actor (sp_perm s) (sp_org s) did now"
  define mark where mark: "mark = approve_mark actor (on_behalf_of a) now comment"
  define ss1 where ss1: "ss1 = row_upd sp_id (sp_id s) mark (steps db)"
  from ok notyet s
  have seg: "(case in_originator i of Some maker \<Rightarrow> (if st_segregation cur
         then assert_segregation maker (List.map_filter (\<lambda>s. if sp_status s = Done then sp_acted_by s else None) ?gate @ [actor])
         else Inr ()) | None \<Rightarrow> Inr ()) = Inr ()"
    and res: "(obo, target, new_id, i', ss) = (on_behalf_of a, Some (sp_id s),
        (if join_satisfied (filter g ss1) then tr_to t else st_id cur), i,
        (if join_satisfied (filter g ss1) then skip_active g ss1 else ss1))"
    unfolding approve_action_def g [symmetric] by (auto simp: Let_def rbind_eq_Inr a mark ss1 split: if_splits)
  have s_in: "s \<in> set (steps db)" "g s" "sp_status s = Active" using s by (auto simp: find_Some_iff dest!: nth_mem)
  have uniq: "r = s" if "r \<in> set (steps db)" "sp_id r = sp_id s" for r
    using dist that s_in by (auto simp: distinct_map inj_on_def)
  define f where "f = (\<lambda>r. let r1 = (if sp_id r = sp_id s then mark r else r) in
      if join_satisfied (filter g ss1) \<and> g r1 \<and> sp_status r1 = Active then r1\<lparr>sp_status := Skipped\<rparr> else r1)"
  have "ss = map f (steps db)"
    using res by (simp add: f_def ss1 row_upd_def skip_active_def Let_def)
  moreover have "step_moved g actor target r (f r)" if "r \<in> set (steps db)" for r
    using uniq [OF that] res s_in
    by (auto simp: step_moved_def f_def Let_def mark approve_mark_def pinned_def)
  moreover have "approval_guards db i cur actor (sp_id s)"
    unfolding approval_guards_def g [symmetric] using notyet s_in seg
    by (auto simp: assert_segregation_def split: if_splits)
  ultimately show thesis using that [of f "sp_id s"] res unfolding g by auto
qed

lemma perform_effect:
  assumes ok: "perform db i cur t act actor comment now = Inr (obo, target, new_id, i', ss)"
    and dist: "distinct (map sp_id (steps db))"
  obtains f where "ss = map f (steps db)" "new_id = tr_to t \<or> new_id = st_id cur"
    "i' = i\<lparr>in_revision := in_revision i'\<rparr>"
    "\<And>sid. target = Some sid \<Longrightarrow> act = Approve \<and> approval_guards db i cur actor sid"
    "\<And>s. s \<in> set (steps db) \<Longrightarrow>
       step_moved (in_gate (in_id i) (st_id cur) (in_revision i)) actor target s (f s)"
proof (cases "act = Approve")
  case True
  with ok have "approve_action db i cur t actor comment (definition_id db i) now =
      Inr (obo, target, new_id, i', ss)"
    by (simp add: perform_def GATE_ACTIONS_def Let_def)
  from approve_action_effect [OF this dist] obtain f sid where
    f: "ss = map f (steps db)" "target = Some sid" "i' = i" "new_id = tr_to t \<or> new_id = st_id cur"
    "approval_guards db i cur actor sid"
    "\<And>s. s \<in> set (steps db) \<Longrightarrow>
       step_moved (in_gate (in_id i) (st_id cur) (in_revision i)) actor target s (f s)"
    by blast
  show thesis
  proof (rule that [OF f(1,4)])
    show "act = Approve \<and> approval_guards db i cur actor sid'" if "target = Some sid'" for sid'
      using that f(2,5) True by simp
  qed (use f in simp_all)
next
  case False
  let ?g = "in_gate (in_id i) (st_id cur) (in_revision i)"
  show thesis
  proof (cases "act \<in> GATE_ACTIONS")
    case True
    define st where "st = (if act = Return then Returned else Skipped)"
    from False True ok have "resolve_action db i cur t act actor (definition_id db i) now =
        Inr (obo, target, new_id, i', ss)"
      by (simp add: perform_def Let_def)
    then have eq: "ss = map (resolve_mark st actor obo now ?g) (steps db)"
      "new_id = tr_to t" "i' = i" "target = None"
      unfolding resolve_action_def Let_def st_def by (clarsimp split: if_split_asm)+
    have "step_moved ?g actor target s (resolve_mark st actor obo now ?g s)" for s
      unfolding step_moved_def resolve_mark_def pinned_def st_def by simp
    then show thesis by (intro that [of "resolve_mark st actor obo now ?g"]) (use eq in simp_all)
  next
    case no: False
    with ok have "originator_action db i t act actor (definition_id db i) now =
        Inr (obo, target, new_id, i', ss)"
      by (simp add: perform_def Let_def)
    then have "new_id = tr_to t" "target = None" "ss = steps db"
      "i' = i \<or> i' = i\<lparr>in_revision := in_revision i + 1\<rparr>"
      unfolding originator_action_def Let_def by (auto split: if_split_asm)
    then show thesis by (intro that [of id]) (auto simp: step_moved_def)
  qed
qed

text \<open>The rows a newly entered gate spawns, none for a state that is no gate.\<close>

definition spawned :: "wf_db \<Rightarrow> wf_instance \<Rightarrow> wf_state \<Rightarrow> wf_step list \<Rightarrow> bool" where
  "spawned db i st new \<longleftrightarrow>
     new = [] \<or>
     (\<exists>due. st_gate st \<and>
        new = map (new_step i st due (sp_seq db)) [0..<nat (max 1 (st_step_count st))])"

lemma activate_effect:
  assumes "activate_state_steps db i st now = Inr (new, db')"
  shows "db' = db\<lparr>steps := steps db @ new, sp_seq := sp_seq db + int (length new)\<rparr> \<and> spawned db i st new"
  using assms by (auto simp: activate_state_steps_def spawned_def rbind_eq_Inr Let_def split: if_splits)

lemma advance_effect:
  assumes "advance db cur act actor comment key now (obo, target, new_id, i, ss) = Inr (e, db')"
  obtains new i' where
    "i' = i\<lparr>in_state := new_id, in_row_version := in_row_version i + 1\<rparr>"
    "e = (emit i' act (st_id cur) new_id actor obo comment key target)\<lparr>ev_id := ev_seq db + 1\<rparr>"
    "db' = db\<lparr>instances := row_upd in_id (in_id i) (\<lambda>_. i') (instances db), steps := ss @ new,
       sp_seq := sp_seq db + int (length new), events := events db @ [e], ev_seq := ev_seq db + 1\<rparr>"
    "new = [] \<or> (\<exists>st. get_state db new_id = Some st \<and> spawned db i' st new)"
    "\<And>x. key \<noteq> None \<Longrightarrow> x \<in> set (events db) \<Longrightarrow> ev_instance x = in_id i \<Longrightarrow> ev_key x \<noteq> key"
proof -
  define i' where i': "i' = i\<lparr>in_state := new_id, in_row_version := in_row_version i + 1\<rparr>"
  define db1 where db1: "db1 = db\<lparr>instances := row_upd in_id (in_id i) (\<lambda>_. i') (instances db), steps := ss\<rparr>"
  from assms obtain db2 where
    db2: "(if new_id = st_id cur then Inr db1
           else (case get_state db1 new_id of None \<Rightarrow> Inl AttributeError
                 | Some st \<Rightarrow> rbind (activate_state_steps db1 i' st now) (\<lambda>(_, db2). Inr db2))) = Inr db2"
    and ev: "add_event db2 (emit i' act (st_id cur) new_id actor obo comment key target) = Inr (e, db')"
    unfolding advance_def prod.case Let_def i' [symmetric] db1 [symmetric] by (auto simp: rbind_eq_Inr)
  obtain new where new: "db2 = db1\<lparr>steps := steps db1 @ new, sp_seq := sp_seq db1 + int (length new)\<rparr>"
    "new = [] \<or> (\<exists>st. get_state db new_id = Some st \<and> spawned db i' st new)"
  proof (cases "new_id = st_id cur")
    case True
    with db2 have "db2 = db1\<lparr>steps := steps db1 @ [], sp_seq := sp_seq db1 + int (length [])\<rparr>"
      by (simp add: db1)
    then show thesis by (rule that) simp
  next
    case False
    with db2 obtain st new where "get_state db1 new_id = Some st"
      "activate_state_steps db1 i' st now = Inr (new, db2)"
      by (auto simp: rbind_eq_Inr split: option.splits)
    with activate_effect [OF this(2)] show thesis
      by (intro that [of new]) (auto simp: db1 spawned_def)
  qed
  from ev have "e = (emit i' act (st_id cur) new_id actor obo comment key target)\<lparr>ev_id := ev_seq db + 1\<rparr>"
    "db' = db2\<lparr>events := events db @ [e], ev_seq := ev_seq db + 1\<rparr>"
    "key \<noteq> None \<Longrightarrow> x \<in> set (events db) \<Longrightarrow> ev_instance x = in_id i \<Longrightarrow> ev_key x \<noteq> key" for x
    by (auto simp: add_event_def Let_def new(1) db1 emit_def i' split: if_splits)
  with new show thesis by (intro that [OF i']) (auto simp: db1)
qed

section \<open>The state machine\<close>

text \<open>
  What a consuming module writes into the engine's tables itself: the amount an instance is routed on, the
  due time of steps, which the reimbursement module counts in working days, and the reminders it sent.
\<close>

definition set_amount :: "wf_db \<Rightarrow> int \<Rightarrow> int option \<Rightarrow> wf_db" where
  "set_amount db iid a = db\<lparr>instances := row_upd in_id iid (\<lambda>i. i\<lparr>in_amount := a\<rparr>) (instances db)\<rparr>"

definition set_due :: "wf_db \<Rightarrow> (wf_step \<Rightarrow> bool) \<Rightarrow> instant \<Rightarrow> wf_db" where
  "set_due db P d = db\<lparr>steps := map (\<lambda>s. if P s then s\<lparr>sp_sla_due := Some d\<rparr> else s) (steps db)\<rparr>"

definition add_reminder :: "wf_db \<Rightarrow> wf_step \<Rightarrow> int \<Rightarrow> wf_db" where
  "add_reminder w s k = w\<lparr>events := events w @ [\<lparr>ev_id = ev_seq w + 1, ev_instance = sp_instance s, ev_step = Some (sp_id s),
     ev_type = Reminder, ev_action = None, ev_from = None, ev_to = None, ev_actor = None, ev_on_behalf = None,
     ev_comment = None, ev_key = None, ev_escalation = Some k, ev_revision = Some (sp_revision s)\<rparr>], ev_seq := ev_seq w + 1\<rparr>"

inductive engine_step :: "wf_db \<Rightarrow> wf_db \<Rightarrow> bool" where
  engine_author: "authoring_step db db' \<Longrightarrow> engine_step db db'"
| engine_start:
    "start_instance db code actor org skind sid amount flag now = Inr (i, db') \<Longrightarrow> engine_step db db'"
| engine_act:
    "execute_action db iid act actor comment key expected now = Inr (e, db') \<Longrightarrow> engine_step db db'"
| engine_sweep: "sweep_due_steps db now limit = Inr (ids, db') \<Longrightarrow> engine_step db db'"
| engine_amount: "engine_step db (set_amount db iid a)"
| engine_due: "engine_step db (set_due db P d)"
| engine_remind: "s \<in> set (steps db) \<Longrightarrow> engine_step db (add_reminder db s k)"
| engine_admin: "engine_step db (db\<lparr>auth := a, delegations := ds, flags := fs\<rparr>)"

definition engine_init :: "wf_db \<Rightarrow> bool" where
  "engine_init db \<longleftrightarrow> authoring_init db \<and> instances db = [] \<and> steps db = [] \<and> events db = []"

text \<open>
  The invariant: primary keys are fresh; a step carries the permission of its state and the unit
  of its instance; the log determines every instance's state and version counter; the done steps
  of a gate have distinct approvers, never the maker where segregation is on; a step's
  escalation level counts its escalation events; an idempotency key is used once per instance.
\<close>

definition engine_keys :: "wf_db \<Rightarrow> bool" where
  "engine_keys db \<longleftrightarrow>
     distinct (map in_id (instances db)) \<and> (\<forall>i \<in> set (instances db). in_id i \<le> in_seq db) \<and>
     distinct (map sp_id (steps db)) \<and> (\<forall>s \<in> set (steps db). sp_id s \<le> sp_seq db) \<and>
     sorted_wrt (<) (map ev_id (events db)) \<and>
     (\<forall>e \<in> set (events db). ev_id e \<le> ev_seq db \<and> ev_instance e \<le> in_seq db \<and>
        (\<forall>k. ev_step e = Some k \<longrightarrow> k \<le> sp_seq db))"

definition state_keys :: "wf_db \<Rightarrow> bool" where
  "state_keys db \<longleftrightarrow>
     distinct (map st_id (states db)) \<and> (\<forall>s \<in> set (states db). st_id s \<le> st_seq db)"

definition steps_pinned :: "wf_db \<Rightarrow> bool" where
  "steps_pinned db \<longleftrightarrow>
     (\<forall>s \<in> set (steps db). \<exists>st i. get_state db (sp_state s) = Some st \<and>
        get_instance db (sp_instance s) = Some i \<and> sp_perm s = st_perm st \<and> sp_org s = in_org i)"

definition moves :: "wf_db \<Rightarrow> int \<Rightarrow> wf_event list" where
  "moves db iid = filter (\<lambda>e. ev_instance e = iid \<and> (ev_type e = Started \<or> ev_type e = Transition)) (events db)"

definition log_agrees :: "wf_db \<Rightarrow> bool" where
  "log_agrees db \<longleftrightarrow>
     (\<forall>i \<in> set (instances db). folded_state_id db (in_id i) = Some (in_state i) \<and>
        in_row_version i = int (length (moves db (in_id i))))"

definition same_gate :: "wf_step \<Rightarrow> wf_step \<Rightarrow> bool" where
  "same_gate s s' \<longleftrightarrow> in_gate (sp_instance s) (sp_state s) (sp_revision s) s'"

definition approvals_sound :: "wf_db \<Rightarrow> bool" where
  "approvals_sound db \<longleftrightarrow>
     (\<forall>s \<in> set (steps db). sp_status s = Done \<longrightarrow>
        (\<forall>s' \<in> set (steps db). sp_status s' = Done \<and> same_gate s s' \<and> sp_id s' \<noteq> sp_id s \<longrightarrow>
           sp_acted_by s' \<noteq> sp_acted_by s) \<and>
        (\<forall>st i. get_state db (sp_state s) = Some st \<and> st_segregation st \<and>
           get_instance db (sp_instance s) = Some i \<and> in_originator i \<noteq> None \<longrightarrow>
           sp_acted_by s \<noteq> in_originator i))"

definition escalations :: "wf_db \<Rightarrow> int \<Rightarrow> wf_event list" where
  "escalations db k = filter (\<lambda>e. ev_type e = Escalation \<and> ev_step e = Some k) (events db)"

definition escalations_agree :: "wf_db \<Rightarrow> bool" where
  "escalations_agree db \<longleftrightarrow>
     (\<forall>s \<in> set (steps db). sp_escalation s = int (length (escalations db (sp_id s))))"

definition keys_once :: "wf_db \<Rightarrow> bool" where
  "keys_once db \<longleftrightarrow>
     (\<forall>e \<in> set (events db). \<forall>e' \<in> set (events db).
        ev_key e \<noteq> None \<and> ev_key e' = ev_key e \<and> ev_instance e' = ev_instance e \<longrightarrow> e' = e)"

definition engine_inv :: "wf_db \<Rightarrow> bool" where
  "engine_inv db \<longleftrightarrow> state_keys db \<and> engine_keys db \<and> steps_pinned db \<and> log_agrees db \<and> approvals_sound db \<and>
     escalations_agree db \<and> keys_once db"

section \<open>Effects of the operations\<close>

text \<open>The change an action makes, once its guards have passed.\<close>

definition acted ::
  "wf_db \<Rightarrow> wf_db \<Rightarrow> wf_instance \<Rightarrow> wf_state \<Rightarrow> int \<Rightarrow> int option \<Rightarrow> wf_instance \<Rightarrow>
     (wf_step \<Rightarrow> wf_step) \<Rightarrow> wf_step list \<Rightarrow> wf_event \<Rightarrow> bool" where
  "acted db db' i cur actor target i' f new e \<longleftrightarrow>
     get_instance db (in_id i) = Some i \<and> get_state db (in_state i) = Some cur \<and>
     st_kind cur \<noteq> Terminal \<and>
     i' = i\<lparr>in_state := in_state i', in_row_version := in_row_version i + 1, in_revision := in_revision i'\<rparr> \<and>
     db' = db\<lparr>instances := row_upd in_id (in_id i) (\<lambda>_. i') (instances db),
       steps := map f (steps db) @ new, sp_seq := sp_seq db + int (length new),
       events := events db @ [e], ev_seq := ev_seq db + 1\<rparr> \<and>
     ev_id e = ev_seq db + 1 \<and> ev_instance e = in_id i \<and> ev_type e = Transition \<and>
     ev_from e = Some (in_state i) \<and> ev_to e = Some (in_state i') \<and> ev_step e = target \<and>
     ev_actor e = Some actor \<and>
     (ev_key e \<noteq> None \<longrightarrow>
        (\<forall>x \<in> set (events db). ev_instance x = in_id i \<longrightarrow> ev_key x \<noteq> ev_key e)) \<and>
     (new = [] \<or> (\<exists>st. get_state db (in_state i') = Some st \<and> spawned db i' st new)) \<and>
     (\<forall>sid. target = Some sid \<longrightarrow> approval_guards db i cur actor sid) \<and>
     (\<forall>s \<in> set (steps db).
        step_moved (in_gate (in_id i) (in_state i) (in_revision i)) actor target s (f s))"

lemma acted_effect:
  assumes ok: "execute_action db iid act actor comment key expected now = Inr (e, db')"
    and dist: "distinct (map sp_id (steps db))"
  obtains (replay) "db' = db" "find_replay db iid key = Some e"
    | (acted) i cur target i' f new where "acted db db' i cur actor target i' f new e"
        "in_id i = iid" "ev_action e = Some act" "ev_key e = key"
        "expected = None \<or> expected = Some (in_row_version i)"
  using ok
proof (cases rule: execute_action_cases)
  case replay
  with that(1) show thesis by blast
next
  case (acted i cur t eff)
  obtain obo target new_id j ss where eff: "eff = (obo, target, new_id, j, ss)" by (cases eff)
  from perform_effect [OF acted(8) [unfolded eff] dist] obtain f where
    f: "ss = map f (steps db)" "j = i\<lparr>in_revision := in_revision j\<rparr>"
    "\<And>sid. target = Some sid \<Longrightarrow> act = Approve \<and> approval_guards db i cur actor sid"
    "\<And>s. s \<in> set (steps db) \<Longrightarrow>
       step_moved (in_gate (in_id i) (st_id cur) (in_revision i)) actor target s (f s)"
    by blast
  from advance_effect [OF acted(9) [unfolded eff]] obtain new i' where
    a: "i' = j\<lparr>in_state := new_id, in_row_version := in_row_version j + 1\<rparr>"
    "e = (emit i' act (st_id cur) new_id actor obo comment key target)\<lparr>ev_id := ev_seq db + 1\<rparr>"
    "db' = db\<lparr>instances := row_upd in_id (in_id j) (\<lambda>_. i') (instances db), steps := ss @ new,
       sp_seq := sp_seq db + int (length new), events := events db @ [e], ev_seq := ev_seq db + 1\<rparr>"
    "new = [] \<or> (\<exists>st. get_state db new_id = Some st \<and> spawned db i' st new)"
    "\<And>x. key \<noteq> None \<Longrightarrow> x \<in> set (events db) \<Longrightarrow> ev_instance x = in_id j \<Longrightarrow> ev_key x \<noteq> key"
    by blast
  from f(2) obtain r where r: "j = i\<lparr>in_revision := r\<rparr>" by blast
  have j: "in_id j = in_id i" "in_row_version j = in_row_version i"
    "i' = i\<lparr>in_state := new_id, in_row_version := in_row_version i + 1, in_revision := in_revision i'\<rparr>"
    by (simp_all add: a(1) r)
  have ids: "in_id i = iid" "st_id cur = in_state i" using acted(1,4) by auto
  have "acted db db' i cur actor target i' f new e"
    unfolding acted_def
    using acted(1,4,5) f(1,3,4) a(3,4,5) j ids by (auto simp: a(2) emit_def a(1))
  then show thesis using that(2) ids(1) acted(3) by (simp add: a(2) emit_def)
qed

end
