(* ===== verification/Workflow_Guarantees.thy ===== *)
theory Workflow_Guarantees
  imports Workflow_Invariants
begin

text \<open>
  Every operation of the engine keeps its invariant, and what follows: the event log and the
  read-model agree, the version counter is a compare-and-swap, retries replay, terminal states are
  final, approvers are distinct, sweeps are idempotent, and the offered actions are accepted.
\<close>

section \<open>Actions keep the invariant\<close>

lemma spawned_rows:
  assumes "spawned db i st new"
  shows "distinct (map sp_id new)"
    and "s \<in> set new \<Longrightarrow> sp_seq db < sp_id s \<and> sp_id s \<le> sp_seq db + int (length new) \<and>
      sp_instance s = in_id i \<and> sp_state s = st_id st \<and> sp_status s = Active \<and>
      sp_perm s = st_perm st \<and> sp_org s = in_org i \<and> sp_escalation s = 0 \<and> sp_revision s = in_revision i"
  using assms by (auto simp: spawned_def new_step_def distinct_map inj_on_def o_def)

lemma acted_ids:
  assumes "acted db db' i cur actor target i' f new e"
  shows "in_id i' = in_id i" "in_org i' = in_org i" "in_originator i' = in_originator i"
    "in_version i' = in_version i" "in_row_version i' = in_row_version i + 1"
proof -
  obtain a b c where "i' = i\<lparr>in_state := a, in_row_version := in_row_version i + 1, in_revision := c\<rparr>"
    using assms unfolding acted_def by blast
  then show "in_id i' = in_id i" "in_org i' = in_org i" "in_originator i' = in_originator i"
    "in_version i' = in_version i" "in_row_version i' = in_row_version i + 1"
    by simp_all
qed

lemma acted_tables:
  assumes "acted db db' i cur actor target i' f new e"
  shows "states db' = states db" "in_seq db' = in_seq db"
    "instances db' = row_upd in_id (in_id i) (\<lambda>_. i') (instances db)"
    "steps db' = map f (steps db) @ new" "sp_seq db' = sp_seq db + int (length new)"
    "events db' = events db @ [e]" "ev_seq db' = ev_seq db + 1"
    "ev_id e = ev_seq db + 1" "ev_instance e = in_id i" "ev_type e = Transition"
    "ev_to e = Some (in_state i')" "ev_step e = target"
  using assms unfolding acted_def by simp_all

lemma acted_instance:
  assumes "acted db db' i cur actor target i' f new e"
  shows "get_instance db' k = (if k = in_id i then Some i' else get_instance db k)"
  using assms acted_ids(1) [OF assms] acted_tables(3) [OF assms]
  by (auto simp: row_get_upd acted_def)

lemma acted_moved:
  assumes "acted db db' i cur actor target i' f new e" "s \<in> set (steps db)"
  shows "step_moved (in_gate (in_id i) (in_state i) (in_revision i)) actor target s (f s)"
    "pinned (f s) = pinned s"
  using assms step_moved_pinned unfolding acted_def by blast+

lemma pinned_eq:
  assumes "pinned s' = pinned s"
  shows "sp_id s' = sp_id s" "sp_instance s' = sp_instance s" "sp_state s' = sp_state s"
    "sp_revision s' = sp_revision s" "sp_perm s' = sp_perm s" "sp_org s' = sp_org s"
    "sp_escalation s' = sp_escalation s" "sp_sla_due s' = sp_sla_due s"
  using assms by (simp_all add: pinned_def)

lemma acted_new:
  assumes "acted db db' i cur actor target i' f new e" "s \<in> set new"
  shows "sp_seq db < sp_id s" "sp_id s \<le> sp_seq db + int (length new)" "sp_instance s = in_id i"
    "sp_status s = Active" "sp_escalation s = 0" "sp_org s = in_org i"
    "\<exists>st. get_state db (sp_state s) = Some st \<and> sp_perm s = st_perm st"
proof -
  from assms obtain st where st: "get_state db (in_state i') = Some st" "spawned db i' st new"
    unfolding acted_def by (cases new) auto
  then have "st_id st = in_state i'" by auto
  with st spawned_rows(2) [OF st(2) assms(2)] acted_ids [OF assms(1)]
  show "sp_seq db < sp_id s" "sp_id s \<le> sp_seq db + int (length new)" "sp_instance s = in_id i"
    "sp_status s = Active" "sp_escalation s = 0" "sp_org s = in_org i"
    "\<exists>st. get_state db (sp_state s) = Some st \<and> sp_perm s = st_perm st" by auto
qed

lemma acted_step_ids:
  assumes "acted db db' i cur actor target i' f new e"
  shows "map sp_id (steps db') = map sp_id (steps db) @ map sp_id new" "distinct (map sp_id new)"
proof -
  show "map sp_id (steps db') = map sp_id (steps db) @ map sp_id new"
    unfolding acted_tables(4) [OF assms] by (simp add: pinned_eq(1) [OF acted_moved(2) [OF assms]])
  show "distinct (map sp_id new)"
  proof -
    have "new = [] \<or> (\<exists>st. spawned db i' st new)" using assms unfolding acted_def by blast
    then show ?thesis using spawned_rows(1) by auto
  qed
qed

lemma acted_keys:
  assumes a: "acted db db' i cur actor target i' f new e" and k: "engine_keys db"
  shows "engine_keys db'"
proof -
  have mem: "i \<in> set (instances db)" using a unfolding acted_def by auto
  have "target = Some sid \<Longrightarrow> sid \<le> sp_seq db" for sid
    using a k unfolding acted_def approval_guards_def engine_keys_def by auto
  then have "\<forall>x \<in> set (events db'). ev_id x \<le> ev_seq db' \<and> ev_instance x \<le> in_seq db' \<and>
      (\<forall>k. ev_step x = Some k \<longrightarrow> k \<le> sp_seq db')"
    using k mem acted_tables(8,9,12) [OF a] unfolding engine_keys_def acted_tables(2,5,6,7) [OF a]
    by fastforce
  moreover have "sorted_wrt (<) (map ev_id (events db'))"
    using k unfolding engine_keys_def acted_tables [OF a] by (auto simp: sorted_wrt_append acted_tables(8) [OF a])
  moreover have "distinct (map sp_id (steps db'))"
    unfolding acted_step_ids(1) [OF a] using k acted_step_ids(2) [OF a] acted_new(1) [OF a]
    unfolding engine_keys_def by fastforce
  moreover have "\<forall>s \<in> set (steps db'). sp_id s \<le> sp_seq db'"
  proof
    fix s assume "s \<in> set (steps db')"
    then have "sp_id s \<in> set (map sp_id (steps db) @ map sp_id new)"
      unfolding acted_step_ids(1) [OF a, symmetric] by simp
    then show "sp_id s \<le> sp_seq db'"
      using k acted_new(2) [OF a] unfolding engine_keys_def acted_tables(5) [OF a] by fastforce
  qed
  moreover have "map in_id (instances db') = map in_id (instances db)"
    unfolding acted_tables [OF a] using acted_ids(1) [OF a] by simp
  then have "distinct (map in_id (instances db')) \<and> (\<forall>i \<in> set (instances db'). in_id i \<le> in_seq db')"
    using k unfolding engine_keys_def acted_tables(2) [OF a] by (metis (no_types, lifting) imageE image_eqI list.set_map)
  ultimately show ?thesis unfolding engine_keys_def by blast
qed

lemma acted_pinned:
  assumes a: "acted db db' i cur actor target i' f new e" and p: "steps_pinned db"
  shows "steps_pinned db'"
  unfolding steps_pinned_def
proof
  fix s assume "s \<in> set (steps db')"
  then consider r where "r \<in> set (steps db)" "s = f r" | "s \<in> set new"
    unfolding acted_tables(4) [OF a] by auto
  then show "\<exists>st j. get_state db' (sp_state s) = Some st \<and> get_instance db' (sp_instance s) = Some j \<and>
      sp_perm s = st_perm st \<and> sp_org s = in_org j"
  proof cases
    case 1
    with p obtain st j where "get_state db (sp_state r) = Some st" "get_instance db (sp_instance r) = Some j"
      "sp_perm r = st_perm st" "sp_org r = in_org j" unfolding steps_pinned_def by blast
    moreover have "get_instance db (in_id i) = Some i" using a unfolding acted_def by blast
    ultimately show ?thesis
      using acted_instance [OF a] acted_ids [OF a] acted_tables(1) [OF a]
        pinned_eq [OF acted_moved(2) [OF a 1(1)]] 1(2) by auto
  next
    case 2
    then show ?thesis
      using acted_new [OF a 2] acted_instance [OF a] acted_ids [OF a] acted_tables(1) [OF a] by auto
  qed
qed

lemma fold_events_snoc:
  "fold_events (es @ [e]) st =
     (if (ev_type e = Started \<or> ev_type e = Transition) \<and> ev_to e \<noteq> None then ev_to e
      else fold_events es st)"
  by (induction es arbitrary: st) auto

lemma folded_state_snoc:
  assumes "engine_keys db" "events db' = events db @ [e]" "ev_id e = ev_seq db + 1"
  shows "folded_state_id db' k =
    (if ev_instance e = k \<and> (ev_type e = Started \<or> ev_type e = Transition) \<and> ev_to e \<noteq> None
     then ev_to e else folded_state_id db k)"
proof -
  have srt: "sort_key ev_id (filter P es) = filter P es" if "sorted_wrt (<) (map ev_id es)" for P es
  proof (rule sort_key_id_if_sorted)
    have "sorted_wrt (<) (map ev_id (filter P es))"
      using that unfolding sorted_wrt_map by (rule sorted_wrt_filter)
    then show "sorted (map ev_id (filter P es))"
      by (rule strict_sorted_imp_sorted)
  qed
  have "sorted_wrt (<) (map ev_id (events db))" "sorted_wrt (<) (map ev_id (events db'))"
    using assms unfolding engine_keys_def by (auto simp: sorted_wrt_append)
  from srt [OF this(1)] srt [OF this(2)] show ?thesis
    unfolding folded_state_id_def by (simp only:) (simp add: assms(2) fold_events_snoc)
qed

lemma acted_log:
  assumes a: "acted db db' i cur actor target i' f new e" and k: "engine_keys db" and l: "log_agrees db"
  shows "log_agrees db'"
  unfolding log_agrees_def
proof
  fix j assume j: "j \<in> set (instances db')"
  note t = acted_tables [OF a]
  have i: "i \<in> set (instances db)" using a unfolding acted_def by auto
  note fold = folded_state_snoc [OF k t(6) t(8), of "in_id j", unfolded t(9,10,11)]
  have mv: "moves db' (in_id j) = moves db (in_id j) @ (if in_id j = in_id i then [e] else [])"
    by (simp add: moves_def t(6,9,10))
  from j consider "j = i'" | "j \<in> set (instances db)" "in_id j \<noteq> in_id i"
    unfolding t(3) by (auto simp: set_row_upd)
  then show "folded_state_id db' (in_id j) = Some (in_state j) \<and>
      in_row_version j = int (length (moves db' (in_id j)))"
  proof cases
    case 1
    then show ?thesis using fold mv l i acted_ids [OF a] by (simp add: log_agrees_def)
  next
    case 2
    then show ?thesis using fold mv l by (auto simp: log_agrees_def)
  qed
qed

lemma acted_escalations:
  assumes a: "acted db db' i cur actor target i' f new e" and k: "engine_keys db"
    and l: "escalations_agree db"
  shows "escalations_agree db'"
  unfolding escalations_agree_def
proof
  fix s assume "s \<in> set (steps db')"
  note t = acted_tables [OF a]
  have same: "escalations db' k = escalations db k" for k
    by (simp add: escalations_def t(6,10))
  from \<open>s \<in> set (steps db')\<close> consider r where "r \<in> set (steps db)" "s = f r" | "s \<in> set new"
    unfolding t(4) by auto
  then show "sp_escalation s = int (length (escalations db' (sp_id s)))"
  proof cases
    case 1
    then show ?thesis
      using l pinned_eq(1,7) [OF acted_moved(2) [OF a 1(1)]] by (simp add: same escalations_agree_def)
  next
    case 2
    then have "escalations db (sp_id s) = []"
      using k acted_new(1) [OF a 2] by (force simp: escalations_def filter_empty_conv engine_keys_def)
    then show ?thesis using acted_new(5) [OF a 2] same by simp
  qed
qed

lemma acted_keys_once:
  assumes a: "acted db db' i cur actor target i' f new e" and k: "keys_once db"
  shows "keys_once db'"
proof -
  have "ev_key x \<noteq> ev_key e" if "ev_key e \<noteq> None" "x \<in> set (events db)" "ev_instance x = ev_instance e" for x
    using a that unfolding acted_def by metis
  then show ?thesis using k unfolding keys_once_def acted_tables(6) [OF a] by auto
qed

text \<open>A done row of the new table was done before, or is the one row just approved.\<close>

lemma acted_done:
  assumes a: "acted db db' i cur actor target i' f new e" and s: "s \<in> set (steps db')" "sp_status s = Done"
  obtains (old) "s \<in> set (steps db)"
    | (approved) r where "r \<in> set (steps db)" "in_gate (in_id i) (in_state i) (in_revision i) r"
        "target = Some (sp_id r)" "pinned s = pinned r" "sp_acted_by s = Some actor"
        "approval_guards db i cur actor (sp_id r)"
proof -
  from s consider r where "r \<in> set (steps db)" "s = f r" | "s \<in> set new"
    unfolding acted_tables(4) [OF a] by auto
  then show thesis
  proof cases
    case 1
    have "approval_guards db i cur actor sid" if "target = Some sid" for sid
      using a that unfolding acted_def by blast
    with 1 acted_moved(1) [OF a 1(1)] s(2) that show thesis unfolding step_moved_def by fastforce
  next
    case 2
    with acted_new(4) [OF a 2] s(2) show thesis by simp
  qed
qed

lemma acted_approvals:
  assumes a: "acted db db' i cur actor target i' f new e" and k: "engine_keys db"
    and p: "approvals_sound db"
  shows "approvals_sound db'"
proof -
  have cur: "get_state db (in_state i) = Some cur" "get_instance db (in_id i) = Some i"
    using a unfolding acted_def by blast+
  then have cid: "st_id cur = in_state i" by auto
  have diff: "sp_acted_by s' \<noteq> sp_acted_by s"
    if s: "s \<in> set (steps db')" "sp_status s = Done" "s' \<in> set (steps db')" "sp_status s' = Done"
      "same_gate s s'" "sp_id s' \<noteq> sp_id s" for s s'
    using a s(1,2)
  proof (cases rule: acted_done)
    case old
    show ?thesis using a s(3,4)
    proof (cases rule: acted_done)
      case old2: old
      with old p s show ?thesis unfolding approvals_sound_def by blast
    next
      case (approved r)
      with old s(2,5) pinned_eq [OF approved(4)] cid show ?thesis
        unfolding approval_guards_def same_gate_def in_gate_def by auto
    qed
  next
    case (approved r)
    show ?thesis using a s(3,4)
    proof (cases rule: acted_done)
      case old
      with approved s(4,5) pinned_eq [OF approved(4)] cid show ?thesis
        unfolding approval_guards_def same_gate_def in_gate_def by auto
    next
      case (approved r2)
      with \<open>target = Some (sp_id r)\<close> \<open>pinned s = pinned r\<close> s(6) show ?thesis
        by (simp add: pinned_def)
    qed
  qed
  have seg: "sp_acted_by s \<noteq> in_originator j"
    if s: "s \<in> set (steps db')" "sp_status s = Done" "get_state db' (sp_state s) = Some st"
      "st_segregation st" "get_instance db' (sp_instance s) = Some j" "in_originator j \<noteq> None" for s st j
  proof -
    have st: "get_state db (sp_state s) = Some st" using s(3) acted_tables(1) [OF a] by simp
    obtain j0 where j0: "get_instance db (sp_instance s) = Some j0" "in_originator j0 = in_originator j"
      using s(5) cur(2) acted_instance [OF a, of "sp_instance s"] acted_ids(3) [OF a] by (auto split: if_splits)
    show ?thesis using a s(1,2)
    proof (cases rule: acted_done)
      case old
      with p s st j0 show ?thesis unfolding approvals_sound_def by metis
    next
      case (approved r)
      then have "st = cur" "j0 = i"
        using st cur j0 pinned_eq [OF approved(4)] by (auto simp: in_gate_def)
      with approved s(4) j0 show ?thesis by (auto simp: approval_guards_def)
    qed
  qed
  show ?thesis unfolding approvals_sound_def using diff seg by blast
qed

lemma acted_state_keys:
  assumes "acted db db' i cur actor target i' f new e" "state_keys db"
  shows "state_keys db'"
  using assms unfolding acted_def state_keys_def by simp

lemma execute_inv:
  assumes "engine_inv db" "execute_action db iid act actor comment key expected now = Inr (e, db')"
  shows "engine_inv db'"
proof -
  have "distinct (map sp_id (steps db))" using assms(1) by (simp add: engine_inv_def engine_keys_def)
  with assms(2) show ?thesis
  proof (cases rule: acted_effect)
    case replay
    with assms(1) show ?thesis by simp
  next
    case (acted i cur target i' f new)
    with assms(1) show ?thesis
      unfolding engine_inv_def
      by (auto intro: acted_state_keys acted_keys acted_pinned acted_log acted_approvals acted_escalations acted_keys_once)
  qed
qed

section \<open>New instances keep the invariant\<close>

definition started :: "wf_db \<Rightarrow> wf_db \<Rightarrow> wf_instance \<Rightarrow> wf_state \<Rightarrow> wf_step list \<Rightarrow> wf_event \<Rightarrow> bool" where
  "started db db' i ini new e \<longleftrightarrow>
     in_id i = in_seq db + 1 \<and> in_state i = st_id ini \<and> in_row_version i = 1 \<and>
     ini \<in> set (states db) \<and> st_version ini = in_version i \<and> st_kind ini = Initial \<and>
     spawned db i ini new \<and>
     ev_id e = ev_seq db + 1 \<and> ev_instance e = in_id i \<and> ev_type e = Started \<and>
     ev_to e = Some (st_id ini) \<and> ev_key e = None \<and> ev_step e = None \<and>
     db' = db\<lparr>instances := instances db @ [i], in_seq := in_seq db + 1, steps := steps db @ new,
       sp_seq := sp_seq db + int (length new), events := events db @ [e], ev_seq := ev_seq db + 1\<rparr>"

lemma initial_state_Inr:
  assumes "initial_state db vid = Inr s"
  shows "s \<in> set (states db) \<and> st_version s = vid \<and> st_kind s = Initial"
proof -
  from assms have "filter (\<lambda>s. st_version s = vid \<and> st_kind s = Initial) (states db) = [s]"
    by (auto simp: initial_state_def split: list.splits)
  then have "s \<in> set (filter (\<lambda>s. st_version s = vid \<and> st_kind s = Initial) (states db))" by simp
  then show ?thesis by simp
qed

lemma start_effect:
  assumes "start_instance db code actor org skind sid amount flag now = Inr (i, db')"
  obtains ini new e where "started db db' i ini new e" "in_originator i = actor" "in_org i = org"
    "in_amount i = amount"
proof -
  from assms obtain v ini where v: "get_published_version db code = Some v"
    "initial_state db (ver_id v) = Inr ini"
    unfolding start_instance_def by (auto simp: rbind_eq_Inr split: if_splits option.splits)
  define j where j: "j = \<lparr>in_id = in_seq db + 1, in_version = ver_id v, in_state = st_id ini,
    in_row_version = 1, in_revision = 1, in_originator = actor, in_org = org, in_subject_kind = skind,
    in_subject_id = sid, in_amount = amount\<rparr>"
  define db1 where db1: "db1 = db\<lparr>instances := instances db @ [j], in_seq := in_seq db + 1\<rparr>"
  from assms v obtain new db2 e where new: "activate_state_steps db1 j ini now = Inr (new, db2)"
    and ev: "add_event db2 \<lparr>ev_id = 0, ev_instance = in_id j, ev_step = None, ev_type = Started,
                 ev_action = None, ev_from = None, ev_to = Some (st_id ini), ev_actor = actor,
                 ev_on_behalf = None, ev_comment = None, ev_key = None, ev_escalation = None,
                 ev_revision = Some 1\<rparr> = Inr (e, db')" and "i = j"
    unfolding start_instance_def by (auto simp: rbind_eq_Inr Let_def j db1 split: if_splits)
  from activate_effect [OF new] ev initial_state_Inr [OF v(2)] have "started db db' j ini new e"
    by (auto simp: started_def add_event_def Let_def j db1 spawned_def)
  then show thesis using that \<open>i = j\<close> by (simp add: j)
qed

lemma started_tables:
  assumes "started db db' i ini new e"
  shows "states db' = states db" "st_seq db' = st_seq db" "in_seq db' = in_seq db + 1"
    "instances db' = instances db @ [i]" "steps db' = steps db @ new"
    "sp_seq db' = sp_seq db + int (length new)" "events db' = events db @ [e]"
    "ev_seq db' = ev_seq db + 1" "ev_id e = ev_seq db + 1" "ev_instance e = in_seq db + 1"
    "ev_type e = Started" "ev_to e = Some (in_state i)" "ev_key e = None" "ev_step e = None"
    "in_id i = in_seq db + 1"
  using assms unfolding started_def by simp_all

lemma started_new:
  assumes "started db db' i ini new e" "s \<in> set new"
  shows "sp_seq db < sp_id s" "sp_id s \<le> sp_seq db + int (length new)" "sp_instance s = in_id i"
    "sp_state s = st_id ini" "sp_status s = Active" "sp_escalation s = 0" "sp_org s = in_org i"
    "sp_perm s = st_perm ini"
  using assms spawned_rows(2) unfolding started_def by blast+

lemma fresh_instance:
  assumes "engine_keys db" "started db db' i ini new e"
  shows "get_instance db' k = (if k = in_id i then Some i else get_instance db k)"
proof -
  have "get_instance db (in_id i) = None"
    using assms(1) by (force simp: row_get_None engine_keys_def started_tables(15) [OF assms(2)])
  then show ?thesis
    by (auto simp: row_get_append started_tables(4) [OF assms(2)] split: option.splits)
qed

lemma started_keys:
  assumes a: "started db db' i ini new e" and k: "engine_keys db"
  shows "engine_keys db'"
proof -
  note t = started_tables [OF a]
  have "distinct (map sp_id new)" using a spawned_rows(1) unfolding started_def by blast
  then have "distinct (map sp_id (steps db'))"
    using k started_new(1) [OF a] unfolding engine_keys_def t(5) by fastforce
  moreover have "\<forall>s \<in> set (steps db'). sp_id s \<le> sp_seq db'"
    using k started_new(2) [OF a] unfolding engine_keys_def t(5,6) by fastforce
  moreover have "distinct (map in_id (instances db'))" "\<forall>j \<in> set (instances db'). in_id j \<le> in_seq db'"
    using k unfolding engine_keys_def t(3,4) by (fastforce simp: t(15))+
  moreover have "sorted_wrt (<) (map ev_id (events db'))"
    using k unfolding engine_keys_def t(7) by (auto simp: sorted_wrt_append t(9))
  moreover have "\<forall>x \<in> set (events db'). ev_id x \<le> ev_seq db' \<and> ev_instance x \<le> in_seq db' \<and>
      (\<forall>k. ev_step x = Some k \<longrightarrow> k \<le> sp_seq db')"
    using k unfolding engine_keys_def t(3,6,7,8) by (fastforce simp: t(9,10,14))
  ultimately show ?thesis unfolding engine_keys_def by blast
qed

lemma started_pinned:
  assumes a: "started db db' i ini new e" and k: "engine_keys db" "state_keys db" and p: "steps_pinned db"
  shows "steps_pinned db'"
  unfolding steps_pinned_def
proof
  fix s assume "s \<in> set (steps db')"
  then consider "s \<in> set (steps db)" | "s \<in> set new" unfolding started_tables(5) [OF a] by auto
  then show "\<exists>st j. get_state db' (sp_state s) = Some st \<and> get_instance db' (sp_instance s) = Some j \<and>
      sp_perm s = st_perm st \<and> sp_org s = in_org j"
  proof cases
    case 1
    with p obtain st j where j: "get_state db (sp_state s) = Some st"
      "get_instance db (sp_instance s) = Some j" "sp_perm s = st_perm st" "sp_org s = in_org j"
      unfolding steps_pinned_def by blast
    then have "in_id j \<le> in_seq db" "in_id j = sp_instance s" using k(1) unfolding engine_keys_def by auto
    then show ?thesis
      using j fresh_instance [OF k(1) a, of "sp_instance s"] started_tables(1,15) [OF a] by auto
  next
    case 2
    have "ini \<in> set (states db)" using a unfolding started_def by blast
    then have "get_state db (st_id ini) = Some ini"
      using k(2) unfolding state_keys_def by (intro row_get_distinct) auto
    then show ?thesis
      using started_new [OF a 2] fresh_instance [OF k(1) a] started_tables(1) [OF a] by auto
  qed
qed

lemma started_log:
  assumes a: "started db db' i ini new e" and k: "engine_keys db" and l: "log_agrees db"
  shows "log_agrees db'"
  unfolding log_agrees_def
proof
  fix j assume j: "j \<in> set (instances db')"
  note t = started_tables [OF a]
  note fold = folded_state_snoc [OF k t(7) t(9), of "in_id j", unfolded t(10,11,12)]
  have mv: "moves db' (in_id j) = moves db (in_id j) @ (if in_id j = in_seq db + 1 then [e] else [])"
    by (auto simp: moves_def t(7,10,11))
  from j consider "j = i" | "j \<in> set (instances db)" unfolding t(4) by auto
  then show "folded_state_id db' (in_id j) = Some (in_state j) \<and>
      in_row_version j = int (length (moves db' (in_id j)))"
  proof cases
    case 1
    have "moves db (in_seq db + 1) = []"
      using k by (force simp: moves_def filter_empty_conv engine_keys_def)
    moreover have "in_row_version i = 1" using a unfolding started_def by blast
    ultimately show ?thesis using 1 fold mv t(15) by simp
  next
    case 2
    then have "in_id j \<le> in_seq db" using k unfolding engine_keys_def by blast
    with 2 show ?thesis using fold mv l by (auto simp: log_agrees_def)
  qed
qed

lemma started_approvals:
  assumes a: "started db db' i ini new e" and k: "engine_keys db" and q: "steps_pinned db"
    and p: "approvals_sound db"
  shows "approvals_sound db'"
proof -
  have old: "s \<in> set (steps db)" if "s \<in> set (steps db')" "sp_status s = Done" for s
    using that started_new(5) [OF a, of s] unfolding started_tables(5) [OF a] by auto
  have inst: "get_instance db' (sp_instance s) = get_instance db (sp_instance s)"
    if "s \<in> set (steps db)" for s
  proof -
    from q that obtain j where j: "get_instance db (sp_instance s) = Some j" unfolding steps_pinned_def by blast
    then have "in_id j \<le> in_seq db" "in_id j = sp_instance s" using k unfolding engine_keys_def by auto
    then show ?thesis using j fresh_instance [OF k a] started_tables(15) [OF a] by auto
  qed
  show ?thesis
    using p unfolding approvals_sound_def started_tables(1) [OF a]
    by (metis (no_types, lifting) old inst)
qed

lemma started_escalations:
  assumes a: "started db db' i ini new e" and k: "engine_keys db" and l: "escalations_agree db"
  shows "escalations_agree db'"
  unfolding escalations_agree_def
proof
  fix s assume "s \<in> set (steps db')"
  note t = started_tables [OF a]
  have same: "escalations db' k = escalations db k" for k by (simp add: escalations_def t(7,11))
  have "escalations db (sp_id s) = []" if "s \<in> set new"
    using k started_new(1) [OF a that] by (force simp: escalations_def filter_empty_conv engine_keys_def)
  with \<open>s \<in> set (steps db')\<close> show "sp_escalation s = int (length (escalations db' (sp_id s)))"
    unfolding t(5) same using l started_new(6) [OF a] by (auto simp: escalations_agree_def)
qed

lemma start_inv:
  assumes "engine_inv db" "start_instance db code actor org skind sid amount flag now = Inr (i, db')"
  shows "engine_inv db'"
proof -
  obtain ini new e where s: "started db db' i ini new e" by (rule start_effect [OF assms(2)])
  note t = started_tables [OF s]
  have "keys_once db'" using assms(1) unfolding engine_inv_def keys_once_def t(7) by (auto simp: t(13))
  moreover have "state_keys db'" using assms(1) unfolding engine_inv_def state_keys_def t(1,2) by blast
  ultimately show ?thesis using assms(1) s
    by (auto simp: engine_inv_def intro: started_keys started_pinned started_log started_approvals
        started_escalations)
qed

section \<open>Sweeps and authoring keep the invariant\<close>

text \<open>
  A table row still stands for the snapshot row \<open>s\<close> the sweep is about to escalate.
\<close>

definition current_row :: "wf_db \<Rightarrow> wf_step \<Rightarrow> bool" where
  "current_row db s \<longleftrightarrow> (\<exists>r \<in> set (steps db). sp_id r = sp_id s \<and> sp_instance r = sp_instance s \<and>
     sp_escalation r = sp_escalation s)"

definition escalated :: "wf_db \<Rightarrow> wf_step \<Rightarrow> wf_db \<Rightarrow> wf_event \<Rightarrow> bool" where
  "escalated db s db' e \<longleftrightarrow>
     ev_id e = ev_seq db + 1 \<and> ev_instance e = sp_instance s \<and> ev_step e = Some (sp_id s) \<and>
     ev_type e = Escalation \<and> ev_to e = None \<and> ev_key e = None \<and>
     ev_escalation e = Some (sp_escalation s + 1) \<and>
     db' = db\<lparr>events := events db @ [e], ev_seq := ev_seq db + 1,
       steps := row_upd sp_id (sp_id s) (\<lambda>r. r\<lparr>sp_escalation := sp_escalation s + 1\<rparr>) (steps db)\<rparr>"

lemma escalate_effect:
  assumes "escalate db s = Inr db'"
  obtains e where "escalated db s db' e"
  by (rule that [of "last (events db')"])
    (use assms in \<open>auto simp: escalate_def escalated_def Let_def split: if_splits\<close>)

lemma escalated_step:
  assumes "escalated db s db' e" "r' \<in> set (steps db')"
  obtains r where "r \<in> set (steps db)"
    "r' = (if sp_id r = sp_id s then r\<lparr>sp_escalation := sp_escalation s + 1\<rparr> else r)"
  using assms by (auto simp: escalated_def row_upd_def)

lemma escalated_keys:
  assumes a: "escalated db s db' e" and c: "current_row db s" and p: "steps_pinned db" and k: "engine_keys db"
  shows "engine_keys db'"
proof -
  from c obtain r where r: "r \<in> set (steps db)" "sp_id r = sp_id s" "sp_instance r = sp_instance s"
    unfolding current_row_def by blast
  with p obtain j where "get_instance db (sp_instance s) = Some j" unfolding steps_pinned_def by metis
  then have "sp_instance s \<le> in_seq db" using k row_get_Some unfolding engine_keys_def by metis
  moreover have "sp_id s \<le> sp_seq db" using k r unfolding engine_keys_def by force
  moreover have "map sp_id (steps db') = map sp_id (steps db)" using a unfolding escalated_def by simp
  then have "distinct (map sp_id (steps db'))" "\<forall>x \<in> set (steps db'). sp_id x \<le> sp_seq db"
    using k unfolding engine_keys_def by (auto elim!: escalated_step [OF a])
  ultimately show ?thesis
    using k a unfolding engine_keys_def escalated_def by (auto simp: sorted_wrt_append)
qed

text \<open>The soundness of approvals only reads this much of a step.\<close>

definition approval_view :: "wf_step \<Rightarrow> int \<times> int \<times> int \<times> int \<times> step_status \<times> int option" where
  "approval_view s = (sp_id s, sp_instance s, sp_state s, sp_revision s, sp_status s, sp_acted_by s)"

lemma approvals_view:
  assumes view: "\<And>s'. s' \<in> set (steps db') \<Longrightarrow> \<exists>s \<in> set (steps db). approval_view s' = approval_view s"
    and t: "states db' = states db" "instances db' = instances db" and p: "approvals_sound db"
  shows "approvals_sound db'"
  unfolding approvals_sound_def t
proof (intro ballI impI conjI allI)
  fix s assume s: "s \<in> set (steps db')" "sp_status s = Done"
  then obtain r where r: "r \<in> set (steps db)" "approval_view s = approval_view r" using view by blast
  note rs = r(2) [unfolded approval_view_def, simplified]
  show "sp_acted_by s' \<noteq> sp_acted_by s"
    if "s' \<in> set (steps db')" "sp_status s' = Done \<and> same_gate s s' \<and> sp_id s' \<noteq> sp_id s" for s'
  proof -
    from view [OF that(1)] obtain r' where r': "r' \<in> set (steps db)" "approval_view s' = approval_view r'" by blast
    note rs' = r'(2) [unfolded approval_view_def, simplified]
    have "sp_status r = Done" "sp_status r' = Done" "same_gate r r'" "sp_id r' \<noteq> sp_id r"
      using s(2) that(2) rs rs' by (simp_all add: same_gate_def in_gate_def)
    then have "sp_acted_by r' \<noteq> sp_acted_by r" using p r(1) r'(1) unfolding approvals_sound_def by blast
    then show ?thesis using rs rs' by simp
  qed
  show "sp_acted_by s \<noteq> in_originator i"
    if "get_state db (sp_state s) = Some st \<and> st_segregation st \<and>
      get_instance db (sp_instance s) = Some i \<and> in_originator i \<noteq> None" for st i
  proof -
    have "sp_status r = Done" "get_state db (sp_state r) = Some st" "get_instance db (sp_instance r) = Some i"
      using rs s(2) that by simp_all
    then have "sp_acted_by r \<noteq> in_originator i" using p r(1) that unfolding approvals_sound_def by blast
    then show ?thesis using rs by simp
  qed
qed

lemma escalated_inv:
  assumes a: "escalated db s db' e" and c: "current_row db s" and inv: "engine_inv db"
  shows "engine_inv db'"
proof -
  have k: "engine_keys db" "steps_pinned db" using inv by (simp_all add: engine_inv_def)
  have t: "states db' = states db" "st_seq db' = st_seq db" "instances db' = instances db"
    "events db' = events db @ [e]" "ev_id e = ev_seq db + 1" using a unfolding escalated_def by simp_all
  have e: "ev_type e = Escalation" "ev_key e = None" "ev_step e = Some (sp_id s)" "ev_to e = None"
    using a unfolding escalated_def by simp_all
  have "state_keys db'" using inv unfolding engine_inv_def state_keys_def t by blast
  moreover have "steps_pinned db'"
    using k(2) unfolding steps_pinned_def t(1,3) by (auto elim!: escalated_step [OF a])
  moreover have "log_agrees db'"
  proof -
    have "moves db' x = moves db x" "folded_state_id db' x = folded_state_id db x" for x
      using folded_state_snoc [OF k(1) t(4,5)] by (simp_all add: moves_def t(4) e)
    with inv show ?thesis by (simp add: engine_inv_def log_agrees_def t(3))
  qed
  moreover have "approvals_sound db'"
  proof (rule approvals_view [OF _ t(1,3)])
    show "\<exists>r \<in> set (steps db). approval_view r' = approval_view r" if "r' \<in> set (steps db')" for r'
      using escalated_step [OF a that] by (metis approval_view_def wf_step.ext_inject wf_step.surjective wf_step.update_convs(16))
  qed (use inv in \<open>simp add: engine_inv_def\<close>)
  moreover have "escalations_agree db'"
    unfolding escalations_agree_def
  proof
    fix r' assume "r' \<in> set (steps db')"
    then obtain r where r: "r \<in> set (steps db)"
      "r' = (if sp_id r = sp_id s then r\<lparr>sp_escalation := sp_escalation s + 1\<rparr> else r)"
      by (rule escalated_step [OF a])
    have n: "escalations db' x = escalations db x @ (if x = sp_id s then [e] else [])" for x
      by (simp add: escalations_def t(4) e)
    have "sp_escalation r = sp_escalation s" if "sp_id r = sp_id s"
      using c k(1) r(1) that unfolding current_row_def engine_keys_def by (metis row_get_distinct option.inject)
    with r inv show "sp_escalation r' = int (length (escalations db' (sp_id r')))"
      by (auto simp: n engine_inv_def escalations_agree_def)
  qed
  moreover have "keys_once db'" using inv unfolding engine_inv_def keys_once_def t(4) by (auto simp: e)
  ultimately show ?thesis using escalated_keys [OF a c k(2,1)] unfolding engine_inv_def by blast
qed

lemma escalated_current:
  assumes "escalated db s db' e" "current_row db x" "sp_id x \<noteq> sp_id s"
  shows "current_row db' x"
  using assms unfolding current_row_def escalated_def by (auto simp: set_row_upd)

lemma escalate_all_inv:
  assumes "engine_inv db" "escalate_all db ss = Inr db'" "\<forall>s \<in> set ss. current_row db s"
    "distinct (map sp_id ss)"
  shows "engine_inv db'"
  using assms
proof (induction ss arbitrary: db)
  case (Cons s ss)
  from Cons.prems(2) obtain db1 where db1: "escalate db s = Inr db1" "escalate_all db1 ss = Inr db'"
    by (auto simp: rbind_eq_Inr)
  obtain e where e: "escalated db s db1 e" by (rule escalate_effect [OF db1(1)])
  show ?case
  proof (rule Cons.IH [OF _ db1(2)])
    show "engine_inv db1" using escalated_inv [OF e _ Cons.prems(1)] Cons.prems(3) by simp
    show "\<forall>x \<in> set ss. current_row db1 x"
      using escalated_current [OF e] Cons.prems(3,4) by (auto simp: image_iff)
  qed (use Cons.prems(4) in simp)
qed simp

lemma due_steps_rows:
  assumes "distinct (map sp_id (steps db))"
  shows "distinct (map sp_id (due_steps db now limit))"
    "s \<in> set (due_steps db now limit) \<Longrightarrow> s \<in> set (steps db) \<and> due_step now s"
proof -
  have "distinct (map sp_id (filter (due_step now) (steps db)))"
    using assms by (rule distinct_map_filter)
  then have "distinct (map sp_id (sort_key sp_id (filter (due_step now) (steps db))))"
    by (simp add: distinct_map)
  then show "distinct (map sp_id (due_steps db now limit))"
    unfolding due_steps_def take_map [symmetric] by simp
  show "s \<in> set (steps db) \<and> due_step now s" if "s \<in> set (due_steps db now limit)"
    using that unfolding due_steps_def by (auto dest: in_set_takeD)
qed

lemma sweep_inv:
  assumes "engine_inv db" "sweep_due_steps db now limit = Inr (ids, db')"
  shows "engine_inv db'"
proof -
  have d: "distinct (map sp_id (steps db))" using assms(1) by (simp add: engine_inv_def engine_keys_def)
  from assms(2) have "escalate_all db (due_steps db now limit) = Inr db'"
    by (auto simp: sweep_due_steps_def rbind_eq_Inr Let_def)
  then show ?thesis
    by (rule escalate_all_inv [OF assms(1)])
      (use due_steps_rows [OF d] in \<open>auto simp: current_row_def\<close>)
qed

lemma authoring_frame:
  assumes "authoring_step db db'"
  shows "instances db' = instances db" "steps db' = steps db" "events db' = events db"
    "in_seq db' = in_seq db" "sp_seq db' = sp_seq db" "ev_seq db' = ev_seq db"
    "(states db' = states db \<and> st_seq db' = st_seq db) \<or>
     (\<exists>s. states db' = states db @ [s] \<and> st_id s = st_seq db + 1 \<and> st_seq db' = st_seq db + 1)"
proof -
  have "instances db' = instances db \<and> steps db' = steps db \<and> events db' = events db \<and>
    in_seq db' = in_seq db \<and> sp_seq db' = sp_seq db \<and> ev_seq db' = ev_seq db \<and>
    ((states db' = states db \<and> st_seq db' = st_seq db) \<or>
     (\<exists>s. states db' = states db @ [s] \<and> st_id s = st_seq db + 1 \<and> st_seq db' = st_seq db + 1))"
    using assms
  proof cases
    case author_publish
    then show ?thesis
      by (auto simp: publish_version_def states_and_transitions_def rbind_eq_Inr Let_def split: if_splits)
  qed (auto simp: create_definition_def create_version_def add_state_def add_transition_def Let_def
      split: if_splits)
  then show "instances db' = instances db" "steps db' = steps db" "events db' = events db"
    "in_seq db' = in_seq db" "sp_seq db' = sp_seq db" "ev_seq db' = ev_seq db"
    "(states db' = states db \<and> st_seq db' = st_seq db) \<or>
     (\<exists>s. states db' = states db @ [s] \<and> st_id s = st_seq db + 1 \<and> st_seq db' = st_seq db + 1)"
    by blast+
qed

lemma author_inv:
  assumes "engine_inv db" "authoring_step db db'"
  shows "engine_inv db'"
proof -
  note f = authoring_frame [OF assms(2)]
  have st: "get_state db' k = get_state db k" if "get_state db k \<noteq> None" for k
    using f(7) that by (auto simp: row_get_append)
  have p: "steps_pinned db" using assms(1) by (simp add: engine_inv_def)
  have "state_keys db'"
    using assms(1) f(7) unfolding engine_inv_def state_keys_def by force
  moreover have "engine_keys db'" using assms(1) f unfolding engine_inv_def engine_keys_def by simp
  moreover have "steps_pinned db'"
    using p st unfolding steps_pinned_def f by (metis option.distinct(1))
  moreover have "log_agrees db'"
    using assms(1) by (simp add: engine_inv_def log_agrees_def folded_state_id_def moves_def f)
  moreover have "approvals_sound db'"
  proof -
    have "get_state db' (sp_state s) = get_state db (sp_state s)" if "s \<in> set (steps db)" for s
      using p that st unfolding steps_pinned_def by blast
    moreover have "approvals_sound db" using assms(1) by (simp add: engine_inv_def)
    ultimately show ?thesis unfolding approvals_sound_def f by metis
  qed
  moreover have "escalations_agree db'" "keys_once db'"
    using assms(1) by (simp_all add: engine_inv_def escalations_agree_def escalations_def keys_once_def f)
  ultimately show ?thesis unfolding engine_inv_def by blast
qed

text \<open>The module's own writes touch nothing the invariant speaks of.\<close>

lemma set_amount_get: "get_instance (set_amount db iid a) k = map_option (\<lambda>i. if in_id i = iid then i\<lparr>in_amount := a\<rparr> else i) (get_instance db k)"
proof -
  have "row_get in_id (row_upd in_id iid (\<lambda>i. i\<lparr>in_amount := a\<rparr>) rows) k =
      map_option (\<lambda>i. if in_id i = iid then i\<lparr>in_amount := a\<rparr> else i) (row_get in_id rows k)" for rows
    by (induction rows) auto
  then show ?thesis by (simp add: set_amount_def)
qed

lemma set_amount_inv:
  assumes "engine_inv db"
  shows "engine_inv (set_amount db iid a)"
proof -
  let ?db = "set_amount db iid a"
  have tabs: "states ?db = states db" "st_seq ?db = st_seq db" "in_seq ?db = in_seq db" "steps ?db = steps db" "sp_seq ?db = sp_seq db"
    "events ?db = events db" "ev_seq ?db = ev_seq db" by (simp_all add: set_amount_def)
  have rows: "instances ?db = map (\<lambda>i. if in_id i = iid then i\<lparr>in_amount := a\<rparr> else i) (instances db)"
    by (simp add: set_amount_def row_upd_def)
  have ids: "map in_id (instances ?db) = map in_id (instances db)" by (simp add: set_amount_def)
  have "state_keys ?db" "escalations_agree ?db" "keys_once ?db"
    using assms by (simp_all add: engine_inv_def state_keys_def escalations_agree_def escalations_def keys_once_def tabs)
  moreover have "engine_keys ?db"
    using assms unfolding engine_inv_def engine_keys_def tabs ids by (auto simp: rows)
  moreover have "steps_pinned ?db"
    using assms unfolding engine_inv_def steps_pinned_def tabs set_amount_get by fastforce
  moreover have "log_agrees ?db"
    using assms unfolding engine_inv_def log_agrees_def folded_state_id_def moves_def tabs rows by auto
  moreover have "approvals_sound ?db"
    using assms unfolding engine_inv_def approvals_sound_def tabs set_amount_get
    by (auto split: if_splits)
  ultimately show ?thesis by (simp add: engine_inv_def)
qed

lemma set_due_inv:
  assumes "engine_inv db"
  shows "engine_inv (set_due db P d)"
proof -
  let ?db = "set_due db P d"
  define f where "f = (\<lambda>s. if P s then s\<lparr>sp_sla_due := Some d\<rparr> else s)"
  have f [simp]: "sp_id (f s) = sp_id s" "sp_instance (f s) = sp_instance s" "sp_state (f s) = sp_state s" "sp_revision (f s) = sp_revision s"
    "sp_perm (f s) = sp_perm s" "sp_org (f s) = sp_org s" "sp_status (f s) = sp_status s" "sp_acted_by (f s) = sp_acted_by s"
    "sp_escalation (f s) = sp_escalation s" "same_gate (f s) (f s') = same_gate s s'" for s s'
    by (simp_all add: f_def same_gate_def in_gate_def)
  have tabs: "states ?db = states db" "st_seq ?db = st_seq db" "in_seq ?db = in_seq db" "steps ?db = map f (steps db)" "sp_seq ?db = sp_seq db"
    "events ?db = events db" "ev_seq ?db = ev_seq db" "instances ?db = instances db" by (simp_all add: set_due_def f_def)
  have ids: "map sp_id (map f (steps db)) = map sp_id (steps db)" by simp
  have "state_keys ?db" "keys_once ?db" "log_agrees ?db" "escalations_agree ?db"
    using assms by (simp_all add: engine_inv_def state_keys_def keys_once_def log_agrees_def folded_state_id_def moves_def
        escalations_agree_def escalations_def tabs)
  moreover have "engine_keys ?db"
    using assms unfolding engine_inv_def engine_keys_def tabs ids by simp
  moreover have "steps_pinned ?db" using assms unfolding engine_inv_def steps_pinned_def tabs by simp
  moreover have "approvals_sound ?db" using assms unfolding engine_inv_def approvals_sound_def tabs by (simp, blast)
  ultimately show ?thesis by (simp add: engine_inv_def)
qed

lemma add_reminder_inv:
  assumes "engine_inv db" "s \<in> set (steps db)"
  shows "engine_inv (add_reminder db s k)"
proof -
  let ?db = "add_reminder db s k"
  obtain e where e: "events ?db = events db @ [e]" "ev_id e = ev_seq db + 1" "ev_instance e = sp_instance s" "ev_step e = Some (sp_id s)"
    "ev_type e = Reminder" "ev_key e = None" by (simp add: add_reminder_def)
  have tabs: "states ?db = states db" "st_seq ?db = st_seq db" "in_seq ?db = in_seq db" "steps ?db = steps db" "sp_seq ?db = sp_seq db"
    "ev_seq ?db = ev_seq db + 1" "instances ?db = instances db" by (simp_all add: add_reminder_def)
  have keys: "engine_keys db" using assms(1) by (simp add: engine_inv_def)
  obtain i where "get_instance db (sp_instance s) = Some i" using assms by (auto simp: engine_inv_def steps_pinned_def)
  then have "i \<in> set (instances db)" "in_id i = sp_instance s" by auto
  then have "sp_instance s \<le> in_seq db" "sp_id s \<le> sp_seq db" using keys assms(2) by (auto simp: engine_keys_def)
  then have "engine_keys ?db"
    using keys unfolding engine_keys_def tabs e(1) by (fastforce simp: e sorted_wrt_append)
  moreover have "folded_state_id ?db j = folded_state_id db j" for j using folded_state_snoc [OF keys e(1,2)] e(5) by simp
  then have "log_agrees ?db"
    using assms(1) by (simp add: engine_inv_def log_agrees_def moves_def tabs e(1,5))
  moreover have "state_keys ?db" "steps_pinned ?db"
    using assms(1) by (simp_all add: engine_inv_def state_keys_def steps_pinned_def tabs)
  moreover have "approvals_sound ?db" using assms(1) unfolding engine_inv_def approvals_sound_def tabs by blast
  moreover have "escalations_agree ?db" "keys_once ?db"
    using assms(1) by (auto simp: engine_inv_def escalations_agree_def escalations_def keys_once_def tabs e)
  ultimately show ?thesis by (simp add: engine_inv_def)
qed

lemma admin_inv:
  assumes "engine_inv db"
  shows "engine_inv (db\<lparr>auth := a, delegations := ds, flags := fs\<rparr>)"
proof -
  let ?db = "db\<lparr>auth := a, delegations := ds, flags := fs\<rparr>"
  have tabs: "states ?db = states db" "steps ?db = steps db" "instances ?db = instances db" by simp_all
  have "approvals_sound ?db" using assms unfolding engine_inv_def approvals_sound_def tabs by blast
  then show ?thesis
    using assms by (simp add: engine_inv_def state_keys_def engine_keys_def steps_pinned_def log_agrees_def folded_state_id_def
        moves_def escalations_agree_def escalations_def keys_once_def)
qed

interpretation engine: invariant_system engine_init engine_step engine_inv
proof unfold_locales
  show "engine_inv db" if "engine_init db" for db
    using that by (simp add: engine_init_def authoring_init_def engine_inv_def state_keys_def engine_keys_def
        steps_pinned_def log_agrees_def approvals_sound_def escalations_agree_def keys_once_def)
  show "engine_inv db'" if "engine_inv db" "engine_step db db'" for db db'
    using that(2,1) by cases (auto intro: author_inv start_inv execute_inv sweep_inv set_amount_inv set_due_inv add_reminder_inv admin_inv)
qed

end
