(* ===== verification/Workflow_Properties.thy ===== *)
theory Workflow_Properties
  imports Workflow_Guarantees
begin

text \<open>
  The properties of the workflow engine, each over the reachable databases of the state machine or
  over every database, with a witness that runs the engine on the sample definition.
\<close>

section \<open>A sample run\<close>

text \<open>User 7 starts a memo, submits it and user 8, who holds \<open>review\<close> on the unit, approves it.\<close>

definition sample_run1 :: wf_db where
  "sample_run1 = ok_db (start_instance sample_db ''memo'' (Some 7) (Some 1) None None None None 100)"

definition sample_run2 :: wf_db where
  "sample_run2 = ok_db (execute_action sample_run1 1 Submit 7 None (Some ''k1'') (Some 1) 100)"

definition sample_run3 :: wf_db where
  "sample_run3 = ok_db (execute_action sample_run2 1 Approve 8 None None (Some 2) 100)"

lemma ran_ok:
  "is_ok (start_instance db code actor org skind sid amount flag now) \<Longrightarrow>
     engine_step db (ok_db (start_instance db code actor org skind sid amount flag now))"
  "is_ok (execute_action db iid act uid comment key expected now) \<Longrightarrow>
     engine_step db (ok_db (execute_action db iid act uid comment key expected now))"
  by (auto simp: is_ok_iff intro: engine_step.intros)

lemma sample_engine_reach: "reach engine_init engine_step sample_db"
proof (rule reach_steps)
  show "engine_init (empty_wf_db sample_auth)"
    by (simp add: engine_init_def authoring_init_def empty_wf_db_def)
  show "engine_step\<^sup>*\<^sup>* (empty_wf_db sample_auth) sample_db"
    using sample_db_steps by (rule rtranclp_mono [THEN predicate2D, rotated]) (auto intro: engine_author)
qed

lemma sample_run1_reach: "reach engine_init engine_step sample_run1"
  unfolding sample_run1_def by (rule reach_step [OF sample_engine_reach]) (rule ran_ok, code_simp)

lemma sample_run2_reach: "reach engine_init engine_step sample_run2"
  unfolding sample_run2_def by (rule reach_step [OF sample_run1_reach]) (rule ran_ok, code_simp)

lemma sample_run3_reach: "reach engine_init engine_step sample_run3"
  unfolding sample_run3_def by (rule reach_step [OF sample_run2_reach]) (rule ran_ok, code_simp)

section \<open>The log, the version counter and retries\<close>

text \<open>
  C3. Whatever runs, folding the append-only log reproduces the stored state of every instance, and
  its \<open>row_version\<close> is the number of its started and transition events: nothing moves an instance
  without a logged event.
\<close>

theorem log_determines_instance:
  assumes "reach engine_init engine_step db" "get_instance db iid = Some i"
  shows "is_consistent db iid \<and> in_row_version i = int (length (moves db iid))"
proof -
  have "log_agrees db" using engine.reach_inv [OF assms(1)] by (simp add: engine_inv_def)
  with row_get_Some [OF assms(2)] show ?thesis
    by (auto simp: is_consistent_def log_agrees_def assms(2))
qed

theorem log_determines_instance_witness:
  "is_consistent sample_run3 1 \<and>
   in_row_version (the (get_instance sample_run3 1)) = int (length (moves sample_run3 1))"
proof -
  have "get_instance sample_run3 1 = Some (the (get_instance sample_run3 1))" by code_simp
  from log_determines_instance [OF sample_run3_reach this] show ?thesis .
qed

lemma inv_distinct_steps: "reach engine_init engine_step db \<Longrightarrow> distinct (map sp_id (steps db))"
  using engine.reach_inv by (auto simp: engine_inv_def engine_keys_def)

lemma acted_fresh:
  assumes "reach engine_init engine_step db"
    "execute_action db iid act actor comment key expected now = Inr (e, db')"
    "find_replay db iid key = None"
  obtains i cur target i' f new where "acted db db' i cur actor target i' f new e" "in_id i = iid"
    "ev_action e = Some act" "ev_key e = key" "expected = None \<or> expected = Some (in_row_version i)"
  using assms(2) inv_distinct_steps [OF assms(1)]
  by (cases rule: acted_effect) (use assms(3) that in auto)

text \<open>
  C33. A successful action that is no replay is one compare-and-swap: the version the caller expected
  was the stored one, it goes up by one, exactly one event is appended, recording actor, action and
  both states, and no other instance changes.
\<close>

theorem action_is_compare_and_swap:
  assumes "reach engine_init engine_step db"
    "execute_action db iid act actor comment key expected now = Inr (e, db')"
    "find_replay db iid key = None"
  shows "\<exists>i i'. get_instance db iid = Some i \<and> get_instance db' iid = Some i' \<and>
    (expected = None \<or> expected = Some (in_row_version i)) \<and>
    in_row_version i' = in_row_version i + 1 \<and> in_originator i' = in_originator i \<and>
    in_org i' = in_org i \<and> in_version i' = in_version i \<and>
    events db' = events db @ [e] \<and> ev_instance e = iid \<and> ev_action e = Some act \<and>
    ev_actor e = Some actor \<and> ev_from e = Some (in_state i) \<and> ev_to e = Some (in_state i') \<and>
    (\<forall>k. k \<noteq> iid \<longrightarrow> get_instance db' k = get_instance db k)"
proof -
  obtain i cur target i' f new where a: "acted db db' i cur actor target i' f new e" "in_id i = iid"
    "ev_action e = Some act" "expected = None \<or> expected = Some (in_row_version i)"
    by (rule acted_fresh [OF assms])
  have "get_instance db iid = Some i" "ev_from e = Some (in_state i)" "ev_actor e = Some actor"
    using a(1,2) unfolding acted_def by auto
  with a acted_instance [OF a(1)] acted_ids [OF a(1)] acted_tables [OF a(1)] show ?thesis
    by (intro exI [of _ i] exI [of _ i']) auto
qed

theorem action_is_compare_and_swap_witness:
  "\<exists>i. get_instance sample_run2 1 = Some i \<and> in_row_version i = 2"
proof -
  obtain e where e: "execute_action sample_run1 1 Submit 7 None (Some ''k1'') (Some 1) 100 = Inr (e, sample_run2)"
  proof -
    have "is_ok (execute_action sample_run1 1 Submit 7 None (Some ''k1'') (Some 1) 100)" by code_simp
    then show thesis using that unfolding sample_run2_def by (auto simp: is_ok_iff)
  qed
  have "find_replay sample_run1 1 (Some ''k1'') = None" by code_simp
  from action_is_compare_and_swap [OF sample_run1_reach e this] show ?thesis by auto
qed

text \<open>
  Of two actors who read the same version, one wins: after a successful action every other
  action that carries the old version is refused as stale, unless it is a retry of one already done.
\<close>

theorem concurrent_action_refused:
  assumes "reach engine_init engine_step db"
    "execute_action db iid act actor comment key (Some v) now = Inr (e, db')"
    "find_replay db iid key = None" "find_replay db' iid key2 = None"
  shows "execute_action db' iid act2 actor2 comment2 key2 (Some v) now2 = Inl stale_version"
proof -
  obtain i cur target i' f new where a: "acted db db' i cur actor target i' f new e" "in_id i = iid"
    "Some v = None \<or> Some v = Some (in_row_version i)"
    by (rule acted_fresh [OF assms(1-3)])
  have "get_instance db' iid = Some i'" using acted_instance [OF a(1)] a(2) by simp
  with assms(4) a(3) acted_ids(5) [OF a(1)] show ?thesis
    by (simp add: execute_action_def)
qed

theorem concurrent_action_refused_witness:
  "execute_action sample_run2 1 Cancel 9 None None (Some 1) 101 = Inl stale_version"
proof -
  obtain e where e: "execute_action sample_run1 1 Submit 7 None (Some ''k1'') (Some 1) 100 = Inr (e, sample_run2)"
  proof -
    have "is_ok (execute_action sample_run1 1 Submit 7 None (Some ''k1'') (Some 1) 100)" by code_simp
    then show thesis using that unfolding sample_run2_def by (auto simp: is_ok_iff)
  qed
  have "find_replay sample_run1 1 (Some ''k1'') = None" "find_replay sample_run2 1 None = None" by code_simp+
  from concurrent_action_refused [OF sample_run1_reach e this] show ?thesis .
qed

text \<open>
  C11. A retry replays: after a successful call with an idempotency key, any later call on the
  instance with that key returns the same event and changes nothing, whatever its other arguments.
\<close>

theorem retry_replays:
  assumes "reach engine_init engine_step db" "truthy key"
    "execute_action db iid act actor comment key expected now = Inr (e, db')"
  shows "execute_action db' iid act2 actor2 comment2 key expected2 now2 = Inr (e, db')"
proof -
  have inv: "engine_inv db'"
    using execute_inv [OF engine.reach_inv [OF assms(1)] assms(3)] .
  have e: "e \<in> set (events db') \<and> ev_instance e = iid \<and> ev_key e = key \<and> get_instance db' iid \<noteq> None"
    using assms(3) inv_distinct_steps [OF assms(1)]
  proof (cases rule: acted_effect)
    case replay
    from assms(3) have "get_instance db iid \<noteq> None"
      by (cases "get_instance db iid") (simp_all add: execute_action_def)
    with replay(1) find_replay_Some [OF replay(2)] show ?thesis by simp
  next
    case (acted i cur target i' f new)
    then show ?thesis using acted_instance [OF acted(1)] acted_tables(6,9) [OF acted(1)] by simp
  qed
  let ?P = "\<lambda>e. ev_instance e = iid \<and> ev_key e = key"
  obtain e2 where e2: "find ?P (events db') = Some e2"
    using e by (cases "find ?P (events db')") (auto simp: find_None_iff)
  have "ev_key e \<noteq> None" using e assms(2) by (cases key) auto
  with e find_Some_in [OF e2] inv have "e2 = e" unfolding engine_inv_def keys_once_def by simp
  with e2 assms(2) have "find_replay db' iid key = Some e" by (simp add: find_replay_def)
  with e show ?thesis by (auto simp: execute_action_def)
qed

theorem retry_replays_witness:
  "snd (projr (execute_action sample_run2 1 Approve 9 None (Some ''k1'') None 500)) = sample_run2"
proof -
  obtain e where e: "execute_action sample_run1 1 Submit 7 None (Some ''k1'') (Some 1) 100 = Inr (e, sample_run2)"
  proof -
    have "is_ok (execute_action sample_run1 1 Submit 7 None (Some ''k1'') (Some 1) 100)" by code_simp
    then show thesis using that unfolding sample_run2_def by (auto simp: is_ok_iff)
  qed
  from retry_replays [OF sample_run1_reach _ e] show ?thesis by simp
qed

text \<open>
  A terminal state is final: whatever is asked of an instance that has reached one, the database
  stays as it is (the call is refused, or replays an earlier event).
\<close>

theorem terminal_is_final:
  assumes "get_instance db iid = Some i" "get_state db (in_state i) = Some cur" "st_kind cur = Terminal"
  shows "execute_action db iid act actor comment key expected now \<in> {Inl stale_version, Inl state_conflict} \<or>
    (\<exists>e. execute_action db iid act actor comment key expected now = Inr (e, db) \<and> e \<in> set (events db))"
  using assms find_replay_Some by (auto simp: execute_action_def split: option.splits)

theorem terminal_is_final_witness:
  "execute_action sample_run3 1 Approve 8 None None None 100 = Inl state_conflict"
proof -
  have i: "get_instance sample_run3 1 = Some (the (get_instance sample_run3 1))"
    "get_state sample_run3 (in_state (the (get_instance sample_run3 1))) = Some (states sample_run3 ! 2)"
    "st_kind (states sample_run3 ! 2) = Terminal"
    "execute_action sample_run3 1 Approve 8 None None None 100 \<noteq> Inl stale_version"
    "\<not> is_ok (execute_action sample_run3 1 Approve 8 None None None 100)"
    by code_simp+
  from terminal_is_final [OF i(1-3), of Approve 8 None None None 100] i(4,5) show ?thesis by auto
qed

section \<open>Who may approve\<close>

text \<open>
  C2. Four eyes: in every reachable database two done steps of one activation of a gate were signed by
  different users, and at a gate that enforces segregation no done step was signed by the
  instance's originator.
\<close>

theorem approvers_distinct_and_segregated:
  assumes "reach engine_init engine_step db" "s \<in> set (steps db)" "sp_status s = Done"
  shows "(\<forall>s' \<in> set (steps db). sp_status s' = Done \<and> sp_id s' \<noteq> sp_id s \<and>
      in_gate (sp_instance s) (sp_state s) (sp_revision s) s' \<longrightarrow> sp_acted_by s' \<noteq> sp_acted_by s) \<and>
    (\<forall>st i. get_state db (sp_state s) = Some st \<and> st_segregation st \<and>
      get_instance db (sp_instance s) = Some i \<and> in_originator i \<noteq> None \<longrightarrow> sp_acted_by s \<noteq> in_originator i)"
  using engine.reach_inv [OF assms(1)] assms(2,3)
  by (auto simp: engine_inv_def approvals_sound_def same_gate_def)

theorem approvers_distinct_and_segregated_witness:
  "sp_acted_by (hd (steps sample_run3)) \<noteq> Some 7"
proof -
  have s: "hd (steps sample_run3) \<in> set (steps sample_run3)" "sp_status (hd (steps sample_run3)) = Done"
    "get_state sample_run3 (sp_state (hd (steps sample_run3))) = Some (states sample_run3 ! 1)"
    "st_segregation (states sample_run3 ! 1)"
    "get_instance sample_run3 (sp_instance (hd (steps sample_run3))) = Some (hd (instances sample_run3))"
    "in_originator (hd (instances sample_run3)) = Some 7"
    by code_simp+
  from approvers_distinct_and_segregated [OF sample_run3_reach s(1,2)] s(3-6) show ?thesis by auto
qed

text \<open>
  Authority is exactly: an open gate, a direct grant covering the unit, or a delegation to the
  actor, in its window and scope, from a user who holds the grant; the recorded delegator is such
  a user, and is recorded only when the actor has no grant of their own.
\<close>

theorem resolve_authority_spec:
  "(authorized (resolve_authority db actor (Some p) org did now) \<longleftrightarrow>
      authorize_scoped (auth db) actor p org \<or>
      (\<exists>d \<in> set (delegations db). delegation_covers d actor did
          (if org = None \<or> org = Some 0 then [] else ancestors_or_self (org_units (auth db)) org) now \<and>
         authorize_scoped (auth db) (dg_delegator d) p org)) \<and>
   (case on_behalf_of (resolve_authority db actor (Some p) org did now) of
      None \<Rightarrow> authorized (resolve_authority db actor (Some p) org did now) =
                authorize_scoped (auth db) actor p org
    | Some u \<Rightarrow> authorize_scoped (auth db) u p org \<and> \<not> authorize_scoped (auth db) actor p org)"
proof -
  define cov where "cov = (if org = None \<or> org = Some 0 then [] else ancestors_or_self (org_units (auth db)) org)"
  let ?ds = "filter (\<lambda>d. delegation_covers d actor did cov now) (delegations db)"
  let ?P = "\<lambda>d. authorize_scoped (auth db) (dg_delegator d) p org"
  have eq: "resolve_authority db actor (Some p) org did now =
    (if authorize_scoped (auth db) actor p org then \<lparr>authorized = True, on_behalf_of = None\<rparr>
     else case find ?P ?ds of Some d \<Rightarrow> \<lparr>authorized = True, on_behalf_of = Some (dg_delegator d)\<rparr>
          | None \<Rightarrow> \<lparr>authorized = False, on_behalf_of = None\<rparr>)"
    by (simp add: resolve_authority_def Let_def cov_def)
  show ?thesis
  proof (cases "find ?P ?ds")
    case None
    then have "\<forall>d \<in> set (delegations db). delegation_covers d actor did cov now \<longrightarrow> \<not> ?P d"
      by (auto simp: find_None_iff)
    then show ?thesis unfolding eq None option.case cov_def [symmetric] by auto
  next
    case (Some d)
    with find_Some_in [OF Some] show ?thesis unfolding eq Some option.case cov_def [symmetric] by auto
  qed
qed

section \<open>The SLA sweep\<close>

lemma escalate_succeeds:
  assumes "engine_inv db" "current_row db s" "sp_escalation s = 0"
  shows "is_ok (escalate db s)"
proof -
  from assms(2) obtain r where "r \<in> set (steps db)" "sp_id r = sp_id s" "sp_escalation r = 0"
    unfolding current_row_def assms(3) by blast
  with assms(1) have "escalations db (sp_id s) = []"
    unfolding engine_inv_def escalations_agree_def by fastforce
  then have "\<not> (\<exists>x \<in> set (events db). ev_type x = Escalation \<and> ev_step x = Some (sp_id s) \<and>
      ev_escalation x = Some (sp_escalation s + 1))"
    by (auto simp: escalations_def filter_empty_conv)
  then show ?thesis by (simp add: escalate_def Let_def)
qed

text \<open>What a sweep does to the step table: one level up on the due rows, nothing else.\<close>

definition escalate_rows :: "wf_step list \<Rightarrow> wf_step list \<Rightarrow> wf_step list" where
  "escalate_rows due = map (\<lambda>r. if sp_id r \<in> sp_id ` set due then r\<lparr>sp_escalation := 1\<rparr> else r)"

text \<open>What an escalation event says: its kind, its step and instance, and the level reached.\<close>

definition escalation_facts :: "wf_event \<Rightarrow> event_type \<times> int option \<times> int \<times> int option" where
  "escalation_facts e = (ev_type e, ev_step e, ev_instance e, ev_escalation e)"

lemma escalate_all_effect:
  assumes "engine_inv db" "\<forall>s \<in> set ss. current_row db s \<and> sp_escalation s = 0" "distinct (map sp_id ss)"
  shows "\<exists>db'. escalate_all db ss = Inr db' \<and> steps db' = escalate_rows ss (steps db) \<and>
    instances db' = instances db \<and>
    (\<exists>new. events db' = events db @ new \<and> map escalation_facts new = map (\<lambda>s. (Escalation, Some (sp_id s), sp_instance s, Some 1)) ss)"
  using assms
proof (induction ss arbitrary: db)
  case Nil
  then show ?case by (simp add: escalate_rows_def)
next
  case (Cons s ss)
  from Cons.prems have s: "current_row db s" "sp_escalation s = 0" by simp_all
  then obtain db1 where db1: "escalate db s = Inr db1"
    using escalate_succeeds [OF Cons.prems(1)] by (auto simp: is_ok_iff)
  obtain e where e: "escalated db s db1 e" by (rule escalate_effect [OF db1])
  obtain x where x: "events db1 = events db @ [x]" "escalation_facts x = (Escalation, Some (sp_id s), sp_instance s, Some 1)"
    using db1 s(2) by (auto simp: escalate_def escalation_facts_def Let_def split: if_splits)
  have "\<exists>db'. escalate_all db1 ss = Inr db' \<and> steps db' = escalate_rows ss (steps db1) \<and> instances db' = instances db1 \<and>
    (\<exists>new. events db' = events db1 @ new \<and> map escalation_facts new = map (\<lambda>s. (Escalation, Some (sp_id s), sp_instance s, Some 1)) ss)"
  proof (rule Cons.IH)
    show "engine_inv db1" by (rule escalated_inv [OF e s(1) Cons.prems(1)])
    show "\<forall>x \<in> set ss. current_row db1 x \<and> sp_escalation x = 0"
      using escalated_current [OF e] Cons.prems(2,3) by (auto simp: image_iff)
  qed (use Cons.prems(3) in simp)
  moreover have "escalate_rows ss (steps db1) = escalate_rows (s # ss) (steps db)"
    using e s(2) by (auto simp: escalated_def escalate_rows_def row_upd_def)
  ultimately obtain db' new where "escalate_all db1 ss = Inr db'" "steps db' = escalate_rows (s # ss) (steps db)" "instances db' = instances db1"
    "events db' = events db @ x # new" "map escalation_facts new = map (\<lambda>s. (Escalation, Some (sp_id s), sp_instance s, Some 1)) ss"
    using x(1) by auto
  then show ?case using e x(2) by (intro exI [of _ db']) (auto simp: db1 escalated_def)
qed

lemma escalated_not_due:
  assumes "\<forall>s \<in> set ss. due_step now s \<longrightarrow> s \<in> set due"
  shows "filter (due_step now) (escalate_rows due ss) = []"
  using assms by (auto simp: escalate_rows_def due_step_def filter_empty_conv split: if_splits)

text \<open>
  C34. A sweep always succeeds and never interrupts: it returns the ids of the due steps within its limit, sets
  exactly those steps to escalation level 1 and changes no other step and no instance, and appends exactly
  one escalation event for each of them, of that step and instance and at level 1. When the limit covered
  all due steps, a second sweep at the same time finds nothing and changes nothing.
\<close>

theorem sweep_idempotent:
  assumes "reach engine_init engine_step db"
  shows "\<exists>ids db' new. sweep_due_steps db now limit = Inr (ids, db') \<and>
    ids = map sp_id (due_steps db now limit) \<and> instances db' = instances db \<and>
    steps db' = map (\<lambda>r. if sp_id r \<in> set ids then r\<lparr>sp_escalation := 1\<rparr> else r) (steps db) \<and>
    events db' = events db @ new \<and>
    map escalation_facts new = map (\<lambda>s. (Escalation, Some (sp_id s), sp_instance s, Some 1)) (due_steps db now limit) \<and>
    (length (filter (due_step now) (steps db)) \<le> limit \<longrightarrow>
       sweep_due_steps db' now limit' = Inr ([], db'))"
proof -
  note inv = engine.reach_inv [OF assms]
  note rows = due_steps_rows [OF inv_distinct_steps [OF assms]]
  have "\<forall>s \<in> set (due_steps db now limit). current_row db s \<and> sp_escalation s = 0"
    using rows(2) by (auto simp: current_row_def due_step_def)
  from escalate_all_effect [OF inv this rows(1)] obtain db' new where
    db': "escalate_all db (due_steps db now limit) = Inr db'"
    "steps db' = escalate_rows (due_steps db now limit) (steps db)" "instances db' = instances db"
    "events db' = events db @ new"
    "map escalation_facts new = map (\<lambda>s. (Escalation, Some (sp_id s), sp_instance s, Some 1)) (due_steps db now limit)" by blast
  have "filter (due_step now) (steps db') = []" if "length (filter (due_step now) (steps db)) \<le> limit"
    unfolding db'(2)
  proof (rule escalated_not_due)
    show "\<forall>s \<in> set (steps db). due_step now s \<longrightarrow> s \<in> set (due_steps db now limit)"
      using that by (simp add: due_steps_def)
  qed
  then have "sweep_due_steps db' now limit' = Inr ([], db')"
    if "length (filter (due_step now) (steps db)) \<le> limit"
    using that by (simp add: sweep_due_steps_def due_steps_def)
  then show ?thesis
    using db' by (intro exI [of _ "map sp_id (due_steps db now limit)"] exI [of _ db'] exI [of _ new])
      (simp add: sweep_due_steps_def escalate_rows_def)
qed

theorem sweep_idempotent_witness:
  "\<exists>db'. sweep_due_steps sample_run2 86400000100 10 = Inr ([1], db') \<and>
    sweep_due_steps db' 86400000100 10 = Inr ([], db')"
proof -
  have "map sp_id (due_steps sample_run2 86400000100 10) = [1]"
    "length (filter (due_step 86400000100) (steps sample_run2)) \<le> 10" by code_simp+
  with sweep_idempotent [OF sample_run2_reach, of 86400000100 10 10] show ?thesis by auto
qed

section \<open>The offered actions\<close>

lemma available_step_mem:
  "act \<in> set (fold (\<lambda>t allowed.
      if tr_action t \<in> set allowed then allowed else if \<not> amount_guard_passes t i then allowed
      else if may_act db i cur t actor now then allowed @ [tr_action t] else allowed) ts allowed0) \<Longrightarrow>
    act \<in> set allowed0 \<or> (\<exists>t \<in> set ts. tr_action t = act \<and> amount_guard_passes t i \<and> may_act db i cur t actor now)"
proof (induction ts arbitrary: allowed0)
  case (Cons t ts)
  from Cons.IH [OF Cons.prems [unfolded fold.simps o_apply]] show ?case
    by (auto split: if_splits)
qed simp

lemma available_mem:
  assumes "available_actions db iid actor now = Inr acts" "act \<in> set acts"
  obtains i cur t where "get_instance db iid = Some i" "get_state db (in_state i) = Some cur"
    "st_kind cur \<noteq> Terminal" "t \<in> set (ordered_transitions db (st_id cur))" "tr_action t = act"
    "amount_guard_passes t i" "may_act db i cur t actor now"
proof -
  from assms obtain i cur where i: "get_instance db iid = Some i" "get_state db (in_state i) = Some cur"
    "st_kind cur \<noteq> Terminal"
    by (auto simp: available_actions_def split: option.splits if_splits)
  with assms show thesis using that available_step_mem [where ?allowed0.0 = "[]"]
    by (fastforce simp: available_actions_def)
qed

lemma select_transition_exists:
  assumes "t \<in> set (ordered_transitions db (st_id cur))" "tr_action t = act" "amount_guard_passes t i"
  obtains t' where "select_transition db i cur act = Some t'" "t' \<in> set (ordered_transitions db (st_id cur))"
    "tr_action t' = act" "amount_guard_passes t' i"
proof -
  let ?ts = "filter (\<lambda>t. tr_action t = act) (ordered_transitions db (st_id cur))"
  obtain t' where t': "find (\<lambda>t. amount_guard_passes t i) ?ts = Some t'"
    using assms by (cases "find (\<lambda>t. amount_guard_passes t i) ?ts") (auto simp: find_None_iff)
  with find_Some_in [OF t'] show thesis using that by (simp add: select_transition_def)
qed

lemma may_act_cong:
  "tr_action t' = tr_action t \<Longrightarrow> tr_perm t' = tr_perm t \<Longrightarrow>
     may_act db i cur t' actor now = may_act db i cur t actor now"
  by (simp add: may_act_def authorize_originator_def)

text \<open>The earlier approvers of a gate are pairwise distinct, so segregation cannot fail on them.\<close>

definition approvers :: "wf_step list \<Rightarrow> int list" where
  "approvers = List.map_filter (\<lambda>s. if sp_status s = Done then sp_acted_by s else None)"

lemma set_approvers: "u \<in> set (approvers ss) \<longleftrightarrow> (\<exists>s \<in> set ss. sp_status s = Done \<and> sp_acted_by s = Some u)"
  by (induction ss) (auto simp: approvers_def split: option.splits)

lemma distinct_approvers:
  assumes "distinct (map sp_id ss)"
    "\<And>s s'. s \<in> set ss \<Longrightarrow> s' \<in> set ss \<Longrightarrow> sp_status s = Done \<Longrightarrow> sp_status s' = Done \<Longrightarrow>
       sp_id s' \<noteq> sp_id s \<Longrightarrow> sp_acted_by s' \<noteq> sp_acted_by s"
  shows "distinct (approvers ss)"
  using assms
proof (induction ss)
  case Nil
  then show ?case by (simp add: approvers_def)
next
  case (Cons s ss)
  have "distinct (approvers ss)" by (rule Cons.IH) (use Cons.prems in auto)
  moreover have "u \<notin> set (approvers ss)" if "sp_status s = Done" "sp_acted_by s = Some u" for u
  proof
    assume "u \<in> set (approvers ss)"
    then obtain s' where s': "s' \<in> set ss" "sp_status s' = Done" "sp_acted_by s' = Some u"
      unfolding set_approvers by blast
    then have "sp_id s' \<noteq> sp_id s" using Cons.prems(1) by (auto simp: image_iff)
    with Cons.prems(2) [of s s'] s' that show False by simp
  qed
  ultimately show ?case by (auto simp: approvers_def split: option.splits)
qed

lemma approve_accepted:
  assumes inv: "engine_inv db" and i: "get_instance db iid = Some i" and cur: "get_state db (in_state i) = Some cur"
    and may: "may_act db i cur t actor now" "tr_action t = Approve" and perm: "st_perm cur \<noteq> Some []"
  shows "is_ok (approve_action db i cur t actor comment (definition_id db i) now)"
proof -
  define g where "g = in_gate (in_id i) (st_id cur) (in_revision i)"
  let ?gate = "filter g (steps db)"
  from may have may': "\<exists>s \<in> set ?gate. sp_status s = Active"
    "\<not> (\<exists>s \<in> set ?gate. sp_acted_by s = Some actor \<and> sp_status s = Done)"
    "\<not> (st_segregation cur \<and> in_originator i = Some actor)"
    "authorized (resolve_authority db actor (py_or (st_perm cur) (tr_perm t)) (in_org i) (definition_id db i) now)"
    by (auto simp: may_act_def GATE_ACTIONS_def gate_steps_def g_def Let_def)
  have ids: "in_id i = iid" "st_id cur = in_state i" using i cur by auto
  obtain s where s: "find (\<lambda>s. sp_status s = Active) ?gate = Some s"
    using may'(1) by (cases "find (\<lambda>s. sp_status s = Active) ?gate") (auto simp: find_None_iff)
  have s_in: "s \<in> set (steps db)" "g s" using find_Some_in [OF s] by auto
  then have pin: "sp_perm s = st_perm cur" "sp_org s = in_org i"
    using inv i cur ids unfolding engine_inv_def steps_pinned_def g_def in_gate_def by fastforce+
  have auth: "authorized (resolve_authority db actor (sp_perm s) (sp_org s) (definition_id db i) now)"
    using may'(4) perm unfolding pin by (cases "st_perm cur") (auto simp: py_or_def resolve_authority_def)
  have snd: "approvals_sound db" "distinct (map sp_id (steps db))"
    using inv by (simp_all add: engine_inv_def engine_keys_def)
  have "distinct (approvers ?gate)"
  proof (rule distinct_approvers)
    show "distinct (map sp_id ?gate)" by (rule distinct_map_filter [OF snd(2)])
    show "sp_acted_by s' \<noteq> sp_acted_by s" if "s \<in> set ?gate" "s' \<in> set ?gate" "sp_status s = Done"
      "sp_status s' = Done" "sp_id s' \<noteq> sp_id s" for s s'
      using snd(1) that unfolding approvals_sound_def same_gate_def g_def in_gate_def by auto
  qed
  moreover have "actor \<notin> set (approvers ?gate)" using may'(2) by (auto simp: set_approvers)
  moreover have "maker \<notin> set (approvers ?gate)" if "in_originator i = Some maker" "st_segregation cur" for maker
    using snd(1) that i cur ids unfolding set_approvers approvals_sound_def g_def in_gate_def by fastforce
  ultimately have "assert_segregation maker (approvers ?gate @ [actor]) = Inr ()"
    if "in_originator i = Some maker" "st_segregation cur" for maker
    using that may'(3) by (auto simp: assert_segregation_def)
  then show ?thesis
    using may'(2) s auth unfolding approve_action_def g_def [symmetric] Let_def approvers_def [symmetric]
    by (auto simp: is_ok_iff rbind_eq_Inr split: option.splits)
qed

lemma perform_accepted:
  assumes "engine_inv db" "get_instance db iid = Some i" "get_state db (in_state i) = Some cur"
    "may_act db i cur t actor now" "st_perm cur \<noteq> Some []"
  shows "is_ok (perform db i cur t (tr_action t) actor comment now)"
proof (cases "tr_action t = Approve")
  case True
  with approve_accepted [OF assms(1-4) True assms(5)] show ?thesis
    by (simp add: perform_def GATE_ACTIONS_def Let_def)
next
  case False
  with assms(4) show ?thesis
    by (auto simp: perform_def may_act_def resolve_action_def originator_action_def Let_def is_ok_iff)
qed

lemma advance_accepted:
  assumes "new_id = st_id cur \<or> get_state db new_id \<noteq> None" "\<forall>st \<in> set (states db). is_ok (sla_due st now)"
  shows "is_ok (advance db cur act actor comment None now (obo, target, new_id, i, ss))"
proof -
  have act: "is_ok (activate_state_steps db2 j st now)" if "st \<in> set (states db)" for db2 j st
    using assms(2) that by (auto simp: activate_state_steps_def is_ok_iff rbind_eq_Inr Let_def)
  have add: "is_ok (add_event db2 e)" if "ev_key e = None" for db2 e
    using that by (simp add: add_event_def Let_def)
  show ?thesis
  proof (cases "new_id = st_id cur")
    case True
    then show ?thesis by (simp add: advance_def Let_def add emit_def)
  next
    case False
    with assms(1) obtain st where st: "get_state db new_id = Some st" by auto
    then have "st \<in> set (states db)" by auto
    define i' where "i' = i\<lparr>in_state := new_id, in_row_version := in_row_version i + 1\<rparr>"
    define db1 where "db1 = db\<lparr>instances := row_upd in_id (in_id i) (\<lambda>_. i') (instances db), steps := ss\<rparr>"
    from act [OF \<open>st \<in> set (states db)\<close>, of db1 i'] obtain new db2
      where "activate_state_steps db1 i' st now = Inr (new, db2)"
      by (auto simp: is_ok_iff)
    then show ?thesis using False st
      unfolding advance_def prod.case Let_def i'_def [symmetric] db1_def [symmetric]
      by (simp add: db1_def add emit_def)
  qed
qed

text \<open>
  The contract of \<open>available_actions\<close> needs what the schema and the authored definitions give: every
  transition leads to an existing state, the due dates fit the calendar, no state names the empty
  permission, and the alternatives of one action at a state ask for the same permission.
\<close>

definition routing_regular :: "wf_db \<Rightarrow> instant \<Rightarrow> bool" where
  "routing_regular db now \<longleftrightarrow>
     (\<forall>t \<in> set (transitions db). get_state db (tr_to t) \<noteq> None) \<and>
     (\<forall>st \<in> set (states db). is_ok (sla_due st now) \<and> st_perm st \<noteq> Some []) \<and>
     (\<forall>t \<in> set (transitions db). \<forall>t' \<in> set (transitions db).
        tr_from t = tr_from t' \<and> tr_action t = tr_action t' \<longrightarrow> tr_perm t = tr_perm t')"

text \<open>
  C12. An action that is offered is accepted: if \<open>available_actions\<close> lists it for the actor, then
  \<open>execute_action\<close> by that actor at that moment, with a comment, succeeds.
\<close>

theorem offered_action_accepted:
  assumes "reach engine_init engine_step db" "routing_regular db now"
    "available_actions db iid actor now = Inr acts" "act \<in> set acts" "truthy comment"
  shows "\<exists>e db'. execute_action db iid act actor comment None None now = Inr (e, db')"
proof -
  note inv = engine.reach_inv [OF assms(1)]
  obtain i cur t where i: "get_instance db iid = Some i" "get_state db (in_state i) = Some cur"
    "st_kind cur \<noteq> Terminal" "t \<in> set (ordered_transitions db (st_id cur))" "tr_action t = act"
    "amount_guard_passes t i" "may_act db i cur t actor now"
    by (rule available_mem [OF assms(3,4)])
  obtain t' where t': "select_transition db i cur act = Some t'"
    "t' \<in> set (ordered_transitions db (st_id cur))" "tr_action t' = act"
    by (rule select_transition_exists [OF i(4-6)])
  have mem: "t \<in> set (transitions db)" "t' \<in> set (transitions db)" "tr_from t = tr_from t'"
    using i(4) t'(2) by (auto simp: ordered_transitions_def)
  then have "tr_perm t' = tr_perm t" using assms(2) i(5) t'(3) unfolding routing_regular_def by metis
  then have may: "may_act db i cur t' actor now" using i(5,7) t'(3) may_act_cong by metis
  have "cur \<in> set (states db)" using i(2) by auto
  then have "st_perm cur \<noteq> Some []" using assms(2) unfolding routing_regular_def by blast
  from perform_accepted [OF inv i(1,2) may this, of comment] t'(3)
  obtain obo target new_id j ss where p: "perform db i cur t' act actor comment now = Inr (obo, target, new_id, j, ss)"
    by (auto simp: is_ok_iff)
  have "new_id = tr_to t' \<or> new_id = st_id cur"
    using perform_effect [OF p inv_distinct_steps [OF assms(1)]] by blast
  then have "is_ok (advance db cur act actor comment None now (obo, target, new_id, j, ss))"
    using assms(2) mem(2) by (intro advance_accepted) (auto simp: routing_regular_def)
  then show ?thesis
    using i t' p assms(5) by (auto simp: execute_action_def find_replay_def is_ok_iff)
qed

theorem offered_action_accepted_witness:
  "\<exists>e db'. execute_action sample_run2 1 Approve 8 (Some ''ok'') None None 100 = Inr (e, db')"
proof -
  have "routing_regular sample_run2 100" "available_actions sample_run2 1 8 100 = Inr [Approve]"
    by code_simp+
  from offered_action_accepted [OF sample_run2_reach this] show ?thesis by simp
qed

section \<open>Where the code departs from its documentation\<close>

text \<open>
  Two transitions of one action at a state, the first asking for a permission: the reader offers the
  action because of the second, the executor routes to the first and refuses.
\<close>

definition twin_draft :: wf_db where
  "twin_draft = (let v = hd (versions sample_db6) in
     ok_db (add_transition (ok_db (add_transition sample_db6 v
       ((sample_transition 1 3 Cancel)\<lparr>tr_perm := Some ''admin''\<rparr>))) v (sample_transition 1 3 Cancel)))"

definition twin_db :: wf_db where
  "twin_db = ok_db (start_instance (ok_db (publish_version twin_draft (hd (versions twin_draft))))
     ''memo'' (Some 7) (Some 1) None None None None 100)"

text \<open>
  The contract of \<open>available_actions\<close> is not unconditional: it can list an action that
  \<open>execute_action\<close> then refuses with \<open>workflow_not_authorized\<close>, when an earlier guard-passing
  transition of the same action asks for a permission the actor lacks.
\<close>

theorem offered_action_may_be_refused:
  "available_actions twin_db 1 9 100 = Inr [Submit, Cancel] \<and>
   execute_action twin_db 1 Cancel 9 (Some ''x'') None None 100 = Inl not_authorized"
  by (rule conjI) code_simp+

text \<open>
  A draft second version whose transition starts at a state of the published first version.
\<close>

definition hijack_before :: wf_db where
  "hijack_before = snd (create_version sample_run2 1 Restart)"

definition hijack_after :: wf_db where
  "hijack_after = ok_db (add_transition hijack_before (versions hijack_before ! 1)
     ((sample_transition 2 1 Approve)\<lparr>tr_sort := -1\<rparr>))"

text \<open>
  Publishing does not freeze routing: \<open>add_transition\<close> accepts, on a draft version, a transition
  out of a state of a published version, and the executor, which selects by state only, then
  routes running instances of the published version along it.
\<close>

theorem draft_transition_reroutes_published:
  "authoring_step hijack_before hijack_after \<and>
   ver_published (hd (versions hijack_before)) \<and>
   map_option tr_to (select_transition hijack_before (hd (instances hijack_before))
     (states hijack_before ! 1) Approve) = Some 3 \<and>
   map_option tr_to (select_transition hijack_after (hd (instances hijack_after))
     (states hijack_after ! 1) Approve) = Some 1"
proof (intro conjI)
  show "authoring_step hijack_before hijack_after"
    unfolding hijack_after_def by (rule authored_ok(4); code_simp)
qed code_simp+

end
