(* ===== verification/Claim_Status.thy ===== *)
theory Claim_Status
  imports OC_Prelude
begin

text \<open>
  The status vocabularies of the two claim kinds,
  \<open>src/office_connect/modules/reimbursement/services/status.py\<close>. A \<open>Mapping\<close> of the source is an
  association list in the source's order, a \<open>frozenset\<close> a set. The em dash of one display string is
  its UTF-8 encoding.
\<close>

section \<open>State codes\<close>

definition DRAFT :: string where "DRAFT = ''draft''"
definition RETURNED :: string where "RETURNED = ''returned''"
definition HANDED_TO_FMS :: string where "HANDED_TO_FMS = ''handed_to_fms''"
definition CANCELLED :: string where "CANCELLED = ''cancelled''"
definition DIVISION_APPROVAL :: string where "DIVISION_APPROVAL = ''division_approval''"
definition ADMIN_REVIEW :: string where "ADMIN_REVIEW = ''admin_review''"
definition FMS_RETURNED :: string where "FMS_RETURNED = ''fms_returned''"
definition PAID_CLOSED :: string where "PAID_CLOSED = ''paid_closed''"
definition CERTIFY_B :: string where "CERTIFY_B = ''certify_b''"
definition CERTIFY_C :: string where "CERTIFY_C = ''certify_c''"
definition SETTLED :: string where "SETTLED = ''settled''"
definition REIMBURSEMENT_KIND :: string where "REIMBURSEMENT_KIND = ''reimbursement''"
definition LIQUIDATION_KIND :: string where "LIQUIDATION_KIND = ''liquidation''"
definition IN_BUREAU :: string where "IN_BUREAU = ''in_bureau''"
definition WITH_FMS :: string where "WITH_FMS = ''with_fms''"
definition BOARD_DONE :: string where "BOARD_DONE = ''done''"

lemmas code_defs = DRAFT_def RETURNED_def HANDED_TO_FMS_def CANCELLED_def DIVISION_APPROVAL_def
  ADMIN_REVIEW_def FMS_RETURNED_def PAID_CLOSED_def CERTIFY_B_def CERTIFY_C_def SETTLED_def
  REIMBURSEMENT_KIND_def LIQUIDATION_KIND_def IN_BUREAU_def WITH_FMS_def BOARD_DONE_def

definition BOARD_COLUMNS :: "(string \<times> string) list" where
  "BOARD_COLUMNS = [(IN_BUREAU, ''In Bureau''), (WITH_FMS, ''With FMS''), (BOARD_DONE, ''Done'')]"

section \<open>Vocabularies\<close>

record vocab =
  vc_kind :: string
  vc_all_states :: "string list"
  vc_terminal :: "string set"
  vc_claimant :: "string set"
  vc_external :: "string set"
  vc_labels :: "(string \<times> string) list"
  vc_next_action :: "(string \<times> string option) list"
  vc_board :: "(string \<times> string option) list"

definition em_dash :: string where "em_dash = [CHR 0xE2, CHR 0x80, CHR 0x94]"

definition waiting_on_fms :: string where
  "waiting_on_fms = ''Waiting on FMS '' @ em_dash @ '' update status''"

definition REIMBURSEMENT :: vocab where
  "REIMBURSEMENT = \<lparr>vc_kind = REIMBURSEMENT_KIND,
     vc_all_states = [DRAFT, DIVISION_APPROVAL, ADMIN_REVIEW, HANDED_TO_FMS, FMS_RETURNED, RETURNED,
       PAID_CLOSED, CANCELLED],
     vc_terminal = {PAID_CLOSED, CANCELLED}, vc_claimant = {DRAFT, RETURNED}, vc_external = {HANDED_TO_FMS},
     vc_labels = [(DRAFT, ''Draft''), (DIVISION_APPROVAL, ''For Approval''), (ADMIN_REVIEW, ''Admin Review''),
       (HANDED_TO_FMS, ''Handed to FMS''), (FMS_RETURNED, ''FMS Returned''), (RETURNED, ''Returned''),
       (PAID_CLOSED, ''Paid / Closed''), (CANCELLED, ''Cancelled/Void'')],
     vc_next_action = [(DRAFT, Some ''Complete your packet''), (DIVISION_APPROVAL, Some ''Approve or return''),
       (ADMIN_REVIEW, Some ''Final check & print packet''), (HANDED_TO_FMS, Some waiting_on_fms),
       (FMS_RETURNED, Some ''Relay FMS comments''), (RETURNED, Some ''Fix and resubmit''),
       (PAID_CLOSED, None), (CANCELLED, None)],
     vc_board = [(DRAFT, None), (DIVISION_APPROVAL, Some IN_BUREAU), (ADMIN_REVIEW, Some IN_BUREAU),
       (HANDED_TO_FMS, Some WITH_FMS), (FMS_RETURNED, Some IN_BUREAU), (RETURNED, Some IN_BUREAU),
       (PAID_CLOSED, Some BOARD_DONE), (CANCELLED, None)]\<rparr>"

definition LIQUIDATION :: vocab where
  "LIQUIDATION = \<lparr>vc_kind = LIQUIDATION_KIND,
     vc_all_states = [DRAFT, CERTIFY_B, CERTIFY_C, HANDED_TO_FMS, RETURNED, SETTLED, CANCELLED],
     vc_terminal = {SETTLED, CANCELLED}, vc_claimant = {DRAFT, RETURNED}, vc_external = {HANDED_TO_FMS},
     vc_labels = [(DRAFT, ''Draft''), (CERTIFY_B, ''For Certification B''), (CERTIFY_C, ''For Certification C''),
       (HANDED_TO_FMS, ''Handed to FMS''), (RETURNED, ''Returned''), (SETTLED, ''Settled''),
       (CANCELLED, ''Cancelled/Void'')],
     vc_next_action = [(DRAFT, Some ''Complete your liquidation''), (CERTIFY_B, Some ''Certify or return''),
       (CERTIFY_C, Some ''Record the Accounting certification''), (HANDED_TO_FMS, Some waiting_on_fms),
       (RETURNED, Some ''Fix and resubmit''), (SETTLED, None), (CANCELLED, None)],
     vc_board = [(DRAFT, None), (CERTIFY_B, Some IN_BUREAU), (CERTIFY_C, Some IN_BUREAU),
       (HANDED_TO_FMS, Some WITH_FMS), (RETURNED, Some IN_BUREAU), (SETTLED, Some BOARD_DONE),
       (CANCELLED, None)]\<rparr>"

definition VOCABULARIES :: "(string \<times> vocab) list" where
  "VOCABULARIES = [(REIMBURSEMENT_KIND, REIMBURSEMENT), (LIQUIDATION_KIND, LIQUIDATION)]"

definition vocabulary :: "string option \<Rightarrow> vocab res" where
  "vocabulary kind =
     (case kind of
        None \<Rightarrow> Inr REIMBURSEMENT
      | Some k \<Rightarrow> (case map_of VOCABULARIES k of Some v \<Rightarrow> Inr v | None \<Rightarrow> Inl RuntimeError))"

definition ALL_TERMINAL_STATES :: "string set" where
  "ALL_TERMINAL_STATES = \<Union> (set (map (\<lambda>(k, v). vc_terminal v) VOCABULARIES))"

definition ALL_CLAIMANT_STATES :: "string set" where
  "ALL_CLAIMANT_STATES = \<Union> (set (map (\<lambda>(k, v). vc_claimant v) VOCABULARIES))"

section \<open>Board columns\<close>

definition column_states :: "(string \<times> vocab) list \<Rightarrow> (string \<times> string set) list" where
  "column_states vocs =
     map (\<lambda>(column, label).
       (column, set (concat (map (\<lambda>(k, v). map fst (filter (\<lambda>(s, a). a = Some column) (vc_board v))) vocs))))
     BOARD_COLUMNS"

definition BOARD_COLUMN_STATES :: "(string \<times> string set) list" where
  "BOARD_COLUMN_STATES = column_states VOCABULARIES"

definition ALL_BOARD_STATES :: "string set" where
  "ALL_BOARD_STATES = \<Union> (set (map snd BOARD_COLUMN_STATES))"

text \<open>The checks on one vocabulary, in the source's order.\<close>

definition assert_columns :: "vocab \<Rightarrow> unit res" where
  "assert_columns v =
     (let known = set (map fst BOARD_COLUMNS) in
      if set (vc_all_states v) - set (map fst (vc_board v)) \<noteq> {} then Inl RuntimeError
      else if set (map fst (vc_board v)) - set (vc_all_states v) \<noteq> {} then Inl RuntimeError
      else if \<exists>a \<in> set (map snd (vc_board v)). a \<noteq> None \<and> the a \<notin> known then Inl RuntimeError
      else Inr ())"

text \<open>The last loop: \<open>seen\<close> maps a state to the column it was met in.\<close>

fun assert_disjoint :: "(string \<times> string set) list \<Rightarrow> (string \<Rightarrow> string option) \<Rightarrow> unit res" where
  "assert_disjoint [] seen = Inr ()"
| "assert_disjoint ((column, sts) # rest) seen =
     (if \<exists>s \<in> sts. seen s \<noteq> None \<and> seen s \<noteq> Some column then Inl RuntimeError
      else assert_disjoint rest (\<lambda>s. if s \<in> sts then Some column else seen s))"

definition assert_board_columns :: "(string \<times> vocab) list \<Rightarrow> unit res" where
  "assert_board_columns vocs =
     rbind (rmap (\<lambda>(k, v). assert_columns v) vocs) (\<lambda>_.
       assert_disjoint BOARD_COLUMN_STATES (\<lambda>_. None))"

definition board_column :: "string option \<Rightarrow> string option \<Rightarrow> string option res" where
  "board_column kind status =
     (case status of
        None \<Rightarrow> Inr None
      | Some s \<Rightarrow> rbind (vocabulary kind) (\<lambda>v.
          Inr (case map_of (vc_board v) s of None \<Rightarrow> None | Some a \<Rightarrow> a)))"

text \<open>The bucket of the cross-kind query: the first column whose states contain the code.\<close>

definition bucket_of :: "(string \<times> string set) list \<Rightarrow> string option \<Rightarrow> string option" where
  "bucket_of columns status =
     (case status of
        None \<Rightarrow> None
      | Some s \<Rightarrow> map_option fst (find (\<lambda>(c, sts). s \<in> sts) columns))"

section \<open>What the assertion establishes\<close>

definition disjoint_columns :: "(string \<times> string set) list \<Rightarrow> bool" where
  "disjoint_columns cols \<longleftrightarrow>
     (\<forall>p \<in> set cols. \<forall>q \<in> set cols. \<forall>s. s \<in> snd p \<longrightarrow> s \<in> snd q \<longrightarrow> fst p = fst q)"

lemma assert_disjoint_sound:
  "assert_disjoint cols seen = Inr () \<Longrightarrow>
     (\<forall>p \<in> set cols. \<forall>s \<in> snd p. \<forall>c. seen s = Some c \<longrightarrow> fst p = c) \<and> disjoint_columns cols"
proof (induction cols arbitrary: seen)
  case (Cons p rest)
  obtain c sts where p: "p = (c, sts)" by fastforce
  let ?seen = "\<lambda>s. if s \<in> sts then Some c else seen s"
  have ok: "\<And>s d. s \<in> sts \<Longrightarrow> seen s = Some d \<Longrightarrow> c = d" and rest: "assert_disjoint rest ?seen = Inr ()"
    using Cons.prems by (auto simp: p split: if_splits)
  note IH = Cons.IH [OF rest]
  have later: "\<And>q s. q \<in> set rest \<Longrightarrow> s \<in> snd q \<Longrightarrow> s \<in> sts \<Longrightarrow> fst q = c"
    using conjunct1 [OF IH] by auto
  have "\<forall>q \<in> set rest. \<forall>s \<in> snd q. \<forall>d. seen s = Some d \<longrightarrow> fst q = d"
  proof (intro ballI allI impI)
    fix q s d assume q: "q \<in> set rest" "s \<in> snd q" "seen s = Some d"
    show "fst q = d"
    proof (cases "s \<in> sts")
      case True then show ?thesis using later [OF q(1,2)] ok q(3) by simp
    next
      case False then show ?thesis using conjunct1 [OF IH] q by auto
    qed
  qed
  moreover have "disjoint_columns (p # rest)"
    unfolding disjoint_columns_def
  proof (intro ballI allI impI)
    fix q r s assume qr: "q \<in> set (p # rest)" "r \<in> set (p # rest)" "s \<in> snd q" "s \<in> snd r"
    have old: "q \<in> set rest \<Longrightarrow> r \<in> set rest \<Longrightarrow> fst q = fst r"
      using conjunct2 [OF IH] qr(3,4) unfolding disjoint_columns_def by blast
    consider "q = p" "r = p" | "q = p" "r \<in> set rest" | "q \<in> set rest" "r = p" | "q \<in> set rest" "r \<in> set rest"
      using qr(1,2) by auto
    then show "fst q = fst r"
    proof cases
      case 2 then show ?thesis using later [OF 2(2) qr(4)] qr(3) p by simp
    next
      case 3 then show ?thesis using later [OF 3(1) qr(3)] qr(4) p by simp
    qed (use old in simp_all)
  qed
  ultimately show ?case using ok by (auto simp: p)
qed (simp add: disjoint_columns_def)

lemma column_states_mem:
  assumes "(c, sts) \<in> set (column_states vocs)"
  shows "s \<in> sts \<longleftrightarrow> (\<exists>k v. (k, v) \<in> set vocs \<and> (s, Some c) \<in> set (vc_board v))"
proof -
  have sts: "sts = set (concat (map (\<lambda>(k, v). map fst (filter (\<lambda>(s, a). a = Some c) (vc_board v))) vocs))"
    using assms by (auto simp: column_states_def)
  show ?thesis unfolding sts by (induction vocs) (auto simp: image_iff)
qed

lemma bucket_of_iff:
  assumes "assert_disjoint cols (\<lambda>_. None) = Inr ()"
  shows "bucket_of cols (Some s) = Some c \<longleftrightarrow> (\<exists>sts. (c, sts) \<in> set cols \<and> s \<in> sts)"
proof
  assume "bucket_of cols (Some s) = Some c"
  then show "\<exists>sts. (c, sts) \<in> set cols \<and> s \<in> sts"
    by (auto simp: bucket_of_def dest!: find_Some_in)
next
  assume "\<exists>sts. (c, sts) \<in> set cols \<and> s \<in> sts"
  then obtain sts where sts: "(c, sts) \<in> set cols" "s \<in> sts" by blast
  then obtain c' sts' where f: "find (\<lambda>(c, sts). s \<in> sts) cols = Some (c', sts')"
    by (cases "find (\<lambda>(c, sts). s \<in> sts) cols") (auto simp: find_None_iff)
  then have "(c', sts') \<in> set cols" "s \<in> sts'" by (auto dest: find_Some_in)
  moreover have "disjoint_columns cols" using assert_disjoint_sound [OF assms] by blast
  ultimately have "c' = c" using sts unfolding disjoint_columns_def by force
  with f show "bucket_of cols (Some s) = Some c" by (simp add: bucket_of_def)
qed

lemma shipped_columns: "assert_board_columns VOCABULARIES = Inr ()"
  by code_simp

lemma shipped_disjoint: "assert_disjoint BOARD_COLUMN_STATES (\<lambda>_. None) = Inr ()"
  using shipped_columns by (simp add: assert_board_columns_def rbind_eq_Inr)

lemma shipped_keys:
  "(k, v) \<in> set VOCABULARIES \<Longrightarrow> distinct (map fst (vc_board v)) \<and> set (map fst (vc_board v)) = set (vc_all_states v) \<and>
     (\<forall>a \<in> set (map snd (vc_board v)). a = None \<or> the a \<in> set (map fst BOARD_COLUMNS)) \<and>
     map_of VOCABULARIES k = Some v"
proof -
  have "\<forall>(k, v) \<in> set VOCABULARIES. distinct (map fst (vc_board v)) \<and> set (map fst (vc_board v)) = set (vc_all_states v) \<and>
     (\<forall>a \<in> set (map snd (vc_board v)). a = None \<or> the a \<in> set (map fst BOARD_COLUMNS)) \<and>
     map_option vc_kind (map_of VOCABULARIES k) = Some k \<and> vc_kind v = k"
    by code_simp
  moreover have "distinct (map fst VOCABULARIES)" by code_simp
  ultimately show "(k, v) \<in> set VOCABULARIES \<Longrightarrow> ?thesis" by (auto simp del: set_map) 
qed

text \<open>A code both kinds have is on the same column in both.\<close>

lemma shipped_codes_agree:
  assumes "(k, v) \<in> set VOCABULARIES" "(k', v') \<in> set VOCABULARIES" "(s, a) \<in> set (vc_board v)"
    "(s, a') \<in> set (vc_board v')"
  shows "a = a'"
proof -
  have all: "\<forall>p \<in> set VOCABULARIES. \<forall>q \<in> set VOCABULARIES. \<forall>x \<in> set (vc_board (snd p)).
     \<forall>y \<in> set (vc_board (snd q)). fst x = fst y \<longrightarrow> snd x = snd y"
    by code_simp
  show ?thesis
    using bspec [OF bspec [OF bspec [OF bspec [OF all assms(1)] assms(2)], of "(s, a)"], of "(s, a')"]
      assms(3,4) by simp
qed

text \<open>A deliberately broken pair: one code, two columns.\<close>

definition torn_vocabularies :: "(string \<times> vocab) list" where
  "torn_vocabularies = [(REIMBURSEMENT_KIND, REIMBURSEMENT),
     (LIQUIDATION_KIND, LIQUIDATION\<lparr>vc_board := map (\<lambda>(s, a). (s, if s = RETURNED then Some BOARD_DONE else a))
        (vc_board LIQUIDATION)\<rparr>)]"

section \<open>Properties\<close>

text \<open>
  The cross-kind bucketing of the pipeline board agrees with the kind-aware column: for a claim
  of a known kind whose status its vocabulary has, the first column whose derived state set holds
  the code is exactly the column the kind's vocabulary assigns, and no column exactly when the
  vocabulary puts the state off the board.
\<close>

theorem board_bucket_agrees:
  assumes "(kind, v) \<in> set VOCABULARIES" "s \<in> set (vc_all_states v)"
  shows "board_column (Some kind) (Some s) = Inr (bucket_of BOARD_COLUMN_STATES (Some s))"
proof -
  note keys = shipped_keys [OF assms(1)]
  obtain a where a: "(s, a) \<in> set (vc_board v)" using keys assms(2) by force
  then have col: "board_column (Some kind) (Some s) = Inr a"
    using keys by (simp add: board_column_def vocabulary_def)
  have "bucket_of BOARD_COLUMN_STATES (Some s) = Some c \<longleftrightarrow> a = Some c" for c
  proof
    assume "bucket_of BOARD_COLUMN_STATES (Some s) = Some c"
    then obtain sts where "(c, sts) \<in> set BOARD_COLUMN_STATES" "s \<in> sts"
      using bucket_of_iff [OF shipped_disjoint] by blast
    then obtain k' v' where "(k', v') \<in> set VOCABULARIES" "(s, Some c) \<in> set (vc_board v')"
      using column_states_mem unfolding BOARD_COLUMN_STATES_def by blast
    then show "a = Some c" using shipped_codes_agree [OF assms(1) _ a] by metis
  next
    assume c: "a = Some c"
    then have "c \<in> fst ` set BOARD_COLUMNS" using keys a by force
    then obtain sts where sts: "(c, sts) \<in> set BOARD_COLUMN_STATES"
      by (fastforce simp: BOARD_COLUMN_STATES_def column_states_def)
    then have "s \<in> sts" using column_states_mem assms(1) a c unfolding BOARD_COLUMN_STATES_def by blast
    with sts show "bucket_of BOARD_COLUMN_STATES (Some s) = Some c"
      using bucket_of_iff [OF shipped_disjoint] by blast
  qed
  then have "bucket_of BOARD_COLUMN_STATES (Some s) = a" by (metis not_None_eq)
  with col show ?thesis by simp
qed

theorem board_bucket_agrees_witness:
  "board_column (Some LIQUIDATION_KIND) (Some CERTIFY_B) = Inr (Some IN_BUREAU)"
proof -
  have "(LIQUIDATION_KIND, LIQUIDATION) \<in> set VOCABULARIES" "CERTIFY_B \<in> set (vc_all_states LIQUIDATION)"
    by (simp_all add: VOCABULARIES_def LIQUIDATION_def)
  note board_bucket_agrees [OF this]
  moreover have "bucket_of BOARD_COLUMN_STATES (Some CERTIFY_B) = Some IN_BUREAU" by code_simp
  ultimately show ?thesis by simp
qed

text \<open>
  The cross-kind check does not look at its argument: vocabularies in which one kind calls a code
  In Bureau and another calls it Done are accepted, although their own derived columns overlap.
\<close>

theorem torn_board_accepted:
  "assert_board_columns torn_vocabularies = Inr () \<and>
   assert_disjoint (column_states torn_vocabularies) (\<lambda>_. None) = Inl RuntimeError"
proof
  show "assert_board_columns torn_vocabularies = Inr ()" by code_simp
  show "assert_disjoint (column_states torn_vocabularies) (\<lambda>_. None) = Inl RuntimeError" by code_simp
qed

end
