(* ===== verification/Claim_Chains.thy ===== *)
theory Claim_Chains
  imports Claim_Status Workflow_Guarantees
begin

text \<open>
  The two approval chains of the reimbursement module,
  \<open>src/office_connect/modules/reimbursement/workflow.py\<close>, authored on the workflow engine by the
  calls of \<open>Workflow_Definitions\<close>. The dictionary \<open>s\<close> of the source, from state code to state row,
  is the list of the rows added so far.
\<close>

section \<open>Codes and permissions\<close>

definition DEFINITION_CODE :: string where "DEFINITION_CODE = ''reimbursement.claim''"
definition LIQUIDATION_DEFINITION_CODE :: string where
  "LIQUIDATION_DEFINITION_CODE = ''reimbursement.liquidation''"
definition FEATURE_FLAG_KEY :: string where "FEATURE_FLAG_KEY = ''module.reimbursement''"
definition SUBJECT_KIND :: string where "SUBJECT_KIND = ''reimb.claim''"

definition DEFINITION_CODES :: "(string \<times> string) list" where
  "DEFINITION_CODES = [(''reimbursement'', DEFINITION_CODE), (''liquidation'', LIQUIDATION_DEFINITION_CODE)]"

definition definition_code :: "string option \<Rightarrow> string res" where
  "definition_code kind =
     (case map_of DEFINITION_CODES (if truthy kind then the kind else ''reimbursement'') of
        Some c \<Rightarrow> Inr c
      | None \<Rightarrow> Inl RuntimeError)"

definition APPROVE_PERM :: string where "APPROVE_PERM = ''reimb.claim.approve''"
definition REVIEW_PERM :: string where "REVIEW_PERM = ''reimb.claim.review''"
definition FMS_PERM :: string where "FMS_PERM = ''reimb.claim.fms_update''"
definition CERTIFY_PERM :: string where "CERTIFY_PERM = ''reimb.liquidation.certify''"

definition AUTHORED_ACTIONS :: "transition_action set" where
  "AUTHORED_ACTIONS = {Submit, Approve, Return, Cancel, Resubmit}"

section \<open>Authoring a chain\<close>

definition assert_graph_invariants :: "wf_state list \<Rightarrow> wf_transition list \<Rightarrow> vocab \<Rightarrow> unit res" where
  "assert_graph_invariants sts ts v =
     (if \<exists>s \<in> set sts. st_gate s \<and> \<not> truthy (st_perm s) then Inl RuntimeError
      else if \<exists>t \<in> set ts. tr_action t \<notin> AUTHORED_ACTIONS then Inl RuntimeError
      else if set (map st_code sts) \<noteq> set (vc_all_states v) then Inl RuntimeError
      else Inr ())"

text \<open>
  The arguments of one \<open>add_state\<close> call: the code, the kind, the permission of an approval gate and
  whether it is segregated. The name is the label of the code, the sort order the position.
\<close>

definition state_row :: "vocab \<Rightarrow> nat \<Rightarrow> string \<times> state_kind \<times> string option \<times> bool \<Rightarrow> wf_state" where
  "state_row v n spec =
     (case spec of (code, kind, perm, seg) \<Rightarrow>
        \<lparr>st_id = 0, st_version = 0, st_code = code, st_name = the (map_of (vc_labels v) code),
         st_kind = kind, st_sort = int n, st_gate = (perm \<noteq> None), st_perm = perm, st_join = JoinAll,
         st_step_count = 1, st_quorum = None, st_sla_hours = None, st_segregation = seg, st_comment = False\<rparr>)"

definition chain_rows :: "vocab \<Rightarrow> (string \<times> state_kind \<times> string option \<times> bool) list \<Rightarrow> wf_state list" where
  "chain_rows v specs = map (\<lambda>(n, s). state_row v n s) (enumerate 0 specs)"

fun add_states :: "wf_db \<Rightarrow> wf_version \<Rightarrow> wf_state list \<Rightarrow> (wf_state list \<times> wf_db) res" where
  "add_states db v [] = Inr ([], db)"
| "add_states db v (r # rows) =
     rbind (add_state db v r) (\<lambda>(s, db1).
     rbind (add_states db1 v rows) (\<lambda>(ss, db2). Inr (s # ss, db2)))"

text \<open>The arguments of one \<open>add_transition\<close> call.\<close>

record edge =
  eg_from :: string
  eg_to :: string
  eg_action :: transition_action
  eg_perm :: "string option"
  eg_comment :: bool

definition edge_row :: "wf_state list \<Rightarrow> edge \<Rightarrow> wf_transition res" where
  "edge_row ss e =
     (case (find (\<lambda>s. st_code s = eg_from e) ss, find (\<lambda>s. st_code s = eg_to e) ss) of
        (Some a, Some b) \<Rightarrow>
          Inr \<lparr>tr_id = 0, tr_version = 0, tr_from = st_id a, tr_to = st_id b, tr_action = eg_action e,
            tr_sort = 0, tr_perm = eg_perm e, tr_min = None, tr_max = None, tr_comment = eg_comment e\<rparr>
      | _ \<Rightarrow> Inl KeyError)"

fun add_transitions :: "wf_db \<Rightarrow> wf_version \<Rightarrow> wf_state list \<Rightarrow> edge list \<Rightarrow> (wf_transition list \<times> wf_db) res" where
  "add_transitions db v ss [] = Inr ([], db)"
| "add_transitions db v ss (e # es) =
     rbind (edge_row ss e) (\<lambda>row.
     rbind (add_transition db v row) (\<lambda>(t, db1).
     rbind (add_transitions db1 v ss es) (\<lambda>(ts, db2). Inr (t # ts, db2))))"

definition claim_states :: "(string \<times> state_kind \<times> string option \<times> bool) list" where
  "claim_states =
     [(DRAFT, Initial, None, False), (DIVISION_APPROVAL, Normal, Some APPROVE_PERM, True),
      (ADMIN_REVIEW, Normal, Some REVIEW_PERM, True), (HANDED_TO_FMS, Normal, Some FMS_PERM, False),
      (FMS_RETURNED, Normal, Some REVIEW_PERM, False), (RETURNED, Normal, None, False),
      (PAID_CLOSED, Terminal, None, False), (CANCELLED, Terminal, None, False)]"

abbreviation edge_of :: "string \<Rightarrow> string \<Rightarrow> transition_action \<Rightarrow> string option \<Rightarrow> bool \<Rightarrow> edge" where
  "edge_of a b act perm c \<equiv> \<lparr>eg_from = a, eg_to = b, eg_action = act, eg_perm = perm, eg_comment = c\<rparr>"

definition claim_edges :: "edge list" where
  "claim_edges =
     [edge_of DRAFT DIVISION_APPROVAL Submit (Some REVIEW_PERM) False,
      edge_of DRAFT CANCELLED Cancel (Some REVIEW_PERM) True,
      edge_of DIVISION_APPROVAL ADMIN_REVIEW Approve None False,
      edge_of DIVISION_APPROVAL RETURNED Return None True,
      edge_of ADMIN_REVIEW HANDED_TO_FMS Approve None False,
      edge_of ADMIN_REVIEW RETURNED Return None True,
      edge_of HANDED_TO_FMS PAID_CLOSED Approve None False,
      edge_of HANDED_TO_FMS FMS_RETURNED Return None True,
      edge_of FMS_RETURNED RETURNED Return None True,
      edge_of RETURNED DIVISION_APPROVAL Resubmit (Some REVIEW_PERM) False,
      edge_of RETURNED CANCELLED Cancel (Some REVIEW_PERM) True]"

definition liquidation_states :: "(string \<times> state_kind \<times> string option \<times> bool) list" where
  "liquidation_states =
     [(DRAFT, Initial, None, False), (CERTIFY_B, Normal, Some CERTIFY_PERM, True),
      (CERTIFY_C, Normal, Some REVIEW_PERM, True), (HANDED_TO_FMS, Normal, Some FMS_PERM, False),
      (RETURNED, Normal, None, False), (SETTLED, Terminal, None, False), (CANCELLED, Terminal, None, False)]"

definition liquidation_edges :: "edge list" where
  "liquidation_edges =
     [edge_of DRAFT CERTIFY_B Submit (Some REVIEW_PERM) False,
      edge_of DRAFT CANCELLED Cancel (Some REVIEW_PERM) True,
      edge_of CERTIFY_B CERTIFY_C Approve None False,
      edge_of CERTIFY_B RETURNED Return None True,
      edge_of CERTIFY_C HANDED_TO_FMS Approve None True,
      edge_of CERTIFY_C RETURNED Return None True,
      edge_of HANDED_TO_FMS SETTLED Approve None False,
      edge_of HANDED_TO_FMS RETURNED Return None True,
      edge_of RETURNED CERTIFY_B Resubmit (Some REVIEW_PERM) False,
      edge_of RETURNED CANCELLED Cancel (Some REVIEW_PERM) True]"

definition author_chain ::
  "wf_db \<Rightarrow> string \<Rightarrow> string \<Rightarrow> vocab \<Rightarrow> (string \<times> state_kind \<times> string option \<times> bool) list \<Rightarrow> edge list \<Rightarrow>
     (wf_version \<times> wf_db) res" where
  "author_chain db code name v specs es =
     (case get_published_version db code of
        Some ver \<Rightarrow> Inr (ver, db)
      | None \<Rightarrow>
          rbind (case find (\<lambda>d. def_code d = code) (definitions db) of
                   Some d \<Rightarrow> Inr (d, db)
                 | None \<Rightarrow> create_definition db code name (Some FEATURE_FLAG_KEY)) (\<lambda>(d, db1).
          let (ver, db2) = create_version db1 (def_id d) Restart in
          rbind (add_states db2 ver (chain_rows v specs)) (\<lambda>(ss, db3).
          rbind (add_transitions db3 ver ss es) (\<lambda>(ts, db4).
          rbind (assert_graph_invariants ss ts v) (\<lambda>_. publish_version db4 ver)))))"

definition ensure_claim_definition :: "wf_db \<Rightarrow> (wf_version \<times> wf_db) res" where
  "ensure_claim_definition db =
     author_chain db DEFINITION_CODE (''Local Travel Reimbursement '' @ em_dash @ '' claim'') REIMBURSEMENT claim_states claim_edges"

definition ensure_liquidation_definition :: "wf_db \<Rightarrow> (wf_version \<times> wf_db) res" where
  "ensure_liquidation_definition db =
     author_chain db LIQUIDATION_DEFINITION_CODE (''Local Travel Reimbursement '' @ em_dash @ '' liquidation'')
       LIQUIDATION liquidation_states liquidation_edges"

definition ensure_definitions :: "wf_db \<Rightarrow> ((string \<times> int) list \<times> wf_db) res" where
  "ensure_definitions db =
     rbind (ensure_claim_definition db) (\<lambda>(c, db1).
     rbind (ensure_liquidation_definition db1) (\<lambda>(l, db2).
     Inr ([(DEFINITION_CODE, ver_id c), (LIQUIDATION_DEFINITION_CODE, ver_id l)], db2)))"

section \<open>Authoring always succeeds\<close>

text \<open>
  The foreign keys of the tables hold: no row refers to a definition, version or state that does not
  exist yet.
\<close>

definition rows_grounded :: "wf_db \<Rightarrow> bool" where
  "rows_grounded db \<longleftrightarrow> version_keys db \<and>
     (\<forall>s \<in> set (states db). st_version s \<le> ver_seq db \<and> st_id s \<le> st_seq db) \<and>
     (\<forall>t \<in> set (transitions db). tr_version t \<le> ver_seq db \<and> tr_from t \<le> st_seq db) \<and>
     (\<forall>i \<in> set (instances db). in_version i \<le> ver_seq db) \<and>
     (\<forall>v \<in> set (versions db). ver_definition v \<le> def_seq db) \<and>
     (\<forall>d \<in> set (definitions db). def_id d \<le> def_seq db) \<and> distinct (map def_id (definitions db))"

definition numbered :: "int \<Rightarrow> int \<Rightarrow> wf_state list \<Rightarrow> wf_state list" where
  "numbered k vid rows = map (\<lambda>(n, r). r\<lparr>st_id := k + int n + 1, st_version := vid\<rparr>) (enumerate 0 rows)"

lemma enumerate_Suc_map: "enumerate (Suc n) xs = map (\<lambda>(i, x). (Suc i, x)) (enumerate n xs)"
  by (induction xs arbitrary: n) auto

lemma numbered_Cons:
  "numbered k vid (r # rows) = r\<lparr>st_id := k + 1, st_version := vid\<rparr> # numbered (k + 1) vid rows"
  by (auto simp: numbered_def enumerate_Suc_map algebra_simps)

lemma numbered_Nil [simp]: "numbered k vid [] = []"
  by (simp add: numbered_def)

definition compatible :: "wf_state list \<Rightarrow> wf_state \<Rightarrow> bool" where
  "compatible rows s \<longleftrightarrow>
     (\<forall>r \<in> set rows. st_code s \<noteq> st_code r \<and> \<not> (st_kind s = Initial \<and> st_kind r = Initial))"

lemma add_states_fresh:
  assumes "\<not> ver_published v" "\<forall>s \<in> set (states db). st_version s = ver_id v \<longrightarrow> compatible rows s"
    "sorted_wrt (\<lambda>r s. compatible [s] r) rows"
  shows "add_states db v rows = Inr (numbered (st_seq db) (ver_id v) rows,
    db\<lparr>states := states db @ numbered (st_seq db) (ver_id v) rows, st_seq := st_seq db + int (length rows)\<rparr>)"
  using assms
proof (induction rows arbitrary: db)
  case (Cons r rows)
  let ?s = "r\<lparr>st_id := st_seq db + 1, st_version := ver_id v\<rparr>"
  let ?db = "db\<lparr>states := states db @ [?s], st_seq := st_seq db + 1\<rparr>"
  have "add_state db v r = Inr (?s, ?db)"
    using Cons.prems(1,2) by (auto simp: add_state_def Let_def compatible_def)
  moreover have "compatible rows ?s"
    using Cons.prems(3) by (auto simp: compatible_def)
  moreover have "\<forall>s \<in> set (states db). st_version s = ver_id v \<longrightarrow> compatible rows s"
    using Cons.prems(2) by (auto simp: compatible_def)
  ultimately show ?case
    using Cons.IH [of ?db] Cons.prems(1,3) by (simp add: numbered_Cons algebra_simps)
qed simp

definition numbered_edges :: "int \<Rightarrow> int \<Rightarrow> wf_transition list \<Rightarrow> wf_transition list" where
  "numbered_edges k vid rows = map (\<lambda>(n, r). r\<lparr>tr_id := k + int n + 1, tr_version := vid\<rparr>) (enumerate 0 rows)"

lemma numbered_edges_Cons:
  "numbered_edges k vid (r # rows) = r\<lparr>tr_id := k + 1, tr_version := vid\<rparr> # numbered_edges (k + 1) vid rows"
  by (auto simp: numbered_edges_def enumerate_Suc_map algebra_simps)

lemma add_transitions_fresh:
  assumes "\<not> ver_published v" "rmap (edge_row ss) es = Inr rows"
  shows "add_transitions db v ss es = Inr (numbered_edges (tr_seq db) (ver_id v) rows,
    db\<lparr>transitions := transitions db @ numbered_edges (tr_seq db) (ver_id v) rows,
       tr_seq := tr_seq db + int (length rows)\<rparr>)"
  using assms(2)
proof (induction es arbitrary: db rows)
  case Nil
  then show ?case by (simp add: numbered_edges_def)
next
  case (Cons e es)
  then obtain r rs where r: "rows = r # rs" "edge_row ss e = Inr r" "rmap (edge_row ss) es = Inr rs"
    by (auto simp: rbind_eq_Inr)
  then show ?case
    using Cons.IH [OF r(3)] assms(1) by (simp add: add_transition_def Let_def numbered_edges_Cons algebra_simps)
qed

lemma latest_version_None: "latest_version vs = None \<longleftrightarrow> vs = []"
proof -
  have "fold (\<lambda>v best. case best of None \<Rightarrow> Some v | Some b \<Rightarrow> if ver_no v > ver_no b then Some v else best)
      ws (Some b) \<noteq> None" for ws b
    by (induction ws arbitrary: b) auto
  then show ?thesis by (cases vs) (auto simp: latest_version_def)
qed

lemma get_published_None:
  "get_published_version db code = None \<longleftrightarrow>
     (\<forall>v \<in> set (versions db). ver_published v \<longrightarrow>
        \<not> (\<exists>d \<in> set (definitions db). def_id d = ver_definition v \<and> def_code d = code))"
  by (auto simp: get_published_version_def latest_version_None filter_empty_conv)

lemma get_published_single:
  assumes "filter (\<lambda>v. ver_published v \<and>
      (\<exists>d \<in> set (definitions db). def_id d = ver_definition v \<and> def_code d = code)) (versions db) = [v]"
  shows "get_published_version db code = Some v"
  using assms by (simp add: get_published_version_def latest_version_def)

text \<open>What makes a chain description publishable, whatever ids the tables hand out.\<close>

definition publishable ::
  "vocab \<Rightarrow> (string \<times> state_kind \<times> string option \<times> bool) list \<Rightarrow> edge list \<Rightarrow> bool" where
  "publishable v specs es \<longleftrightarrow>
     sorted_wrt (\<lambda>r s. compatible [s] r) (chain_rows v specs) \<and>
     (\<forall>k vid tk. \<exists>rows. rmap (edge_row (numbered k vid (chain_rows v specs))) es = Inr rows \<and>
        assert_graph_invariants (numbered k vid (chain_rows v specs)) (numbered_edges tk vid rows) v = Inr () \<and>
        well_formed_graph (numbered k vid (chain_rows v specs)) (numbered_edges tk vid rows))"

lemma numbered_version: "s \<in> set (numbered k vid rows) \<Longrightarrow> st_version s = vid"
  by (auto simp: numbered_def)

lemma numbered_edges_version: "t \<in> set (numbered_edges k vid rows) \<Longrightarrow> tr_version t = vid"
  by (auto simp: numbered_edges_def)

lemma numbered_ids: "s \<in> set (numbered k vid rows) \<Longrightarrow> k < st_id s \<and> st_id s \<le> k + int (length rows)"
  by (auto simp: numbered_def in_set_enumerate_eq)

lemma edge_rows_from: "rmap (edge_row ss) es = Inr rows \<Longrightarrow> r \<in> set rows \<Longrightarrow> tr_from r \<in> st_id ` set ss"
proof (induction es arbitrary: rows)
  case (Cons e es)
  then show ?case
    by (auto simp: rbind_eq_Inr edge_row_def split: option.splits prod.splits dest!: find_Some_in)
qed simp

lemma filter_own:
  assumes "\<forall>x \<in> set xs. f x \<noteq> k" "\<forall>x \<in> set ys. f x = k"
  shows "filter (\<lambda>x. f x = k) (xs @ ys) = ys"
  using assms by (simp add: filter_empty_conv)

definition same_graph :: "wf_db \<Rightarrow> wf_db \<Rightarrow> bool" where
  "same_graph db db' \<longleftrightarrow> states db' = states db \<and> transitions db' = transitions db \<and> instances db' = instances db \<and>
     st_seq db' = st_seq db \<and> tr_seq db' = tr_seq db"

text \<open>The definition the chain is filed under: the existing one, or a new one.\<close>

lemma chain_definition:
  assumes g: "rows_grounded db" and none: "get_published_version db code = None"
  obtains d db1 where
    "(case find (\<lambda>d. def_code d = code) (definitions db) of
        Some d \<Rightarrow> Inr (d, db) | None \<Rightarrow> create_definition db code name m) = Inr (d, db1)"
    "rows_grounded db1" "get_published_version db1 code = None" "d \<in> set (definitions db1)" "def_code d = code"
    "ver_seq db1 = ver_seq db" "same_graph db db1"
    "\<And>other. other \<noteq> code \<Longrightarrow> get_published_version db1 other = get_published_version db other"
proof (cases "find (\<lambda>d. def_code d = code) (definitions db)")
  case None
  let ?d = "\<lparr>def_id = def_seq db + 1, def_code = code, def_name = name, def_module = m\<rparr>"
  let ?db = "db\<lparr>definitions := definitions db @ [?d], def_seq := def_seq db + 1\<rparr>"
  have create: "create_definition db code name m = Inr (?d, ?db)"
    using None by (auto simp: create_definition_def find_None_iff Let_def)
  have "rows_grounded ?db" using g by (force simp: rows_grounded_def version_keys_def)
  moreover have "get_published_version ?db code = None"
    unfolding get_published_None
  proof (intro ballI impI notI, elim bexE conjE)
    fix v d assume v: "v \<in> set (versions ?db)" "ver_published v" "d \<in> set (definitions ?db)"
      "def_id d = ver_definition v" "def_code d = code"
    have "ver_definition v \<le> def_seq db" using v(1) g by (simp add: rows_grounded_def)
    then have "d \<in> set (definitions db)" using v(3,4) by auto
    then show False using none v unfolding get_published_None by auto
  qed
  moreover have "get_published_version ?db other = get_published_version db other" if "other \<noteq> code" for other
  proof -
    have "filter (\<lambda>v. ver_published v \<and> (\<exists>d \<in> set (definitions ?db). def_id d = ver_definition v \<and> def_code d = other))
        (versions db) =
      filter (\<lambda>v. ver_published v \<and> (\<exists>d \<in> set (definitions db). def_id d = ver_definition v \<and> def_code d = other))
        (versions db)"
      using that by (intro filter_cong) auto
    then show ?thesis by (simp add: get_published_version_def)
  qed
  ultimately show thesis using that [of ?d ?db] None create by (simp add: same_graph_def)
next
  case (Some d)
  then show thesis using that [of d db] g none find_Some_in [OF Some] by (simp add: same_graph_def)
qed

text \<open>Filling an empty draft version and publishing it.\<close>

lemma fill_and_publish:
  assumes pub: "publishable v specs es" and draft: "\<not> ver_published ver"
    and old: "\<forall>s \<in> set (states db). st_version s \<noteq> ver_id ver" "\<forall>t \<in> set (transitions db). tr_version t \<noteq> ver_id ver"
  obtains ss rows ts db1 db2 where "ss = numbered (st_seq db) (ver_id ver) (chain_rows v specs)"
    "rmap (edge_row ss) es = Inr rows" "ts = numbered_edges (tr_seq db) (ver_id ver) rows"
    "add_states db ver (chain_rows v specs) = Inr (ss, db1)" "add_transitions db1 ver ss es = Inr (ts, db2)"
    "assert_graph_invariants ss ts v = Inr ()" "well_formed_graph ss ts"
    "states_and_transitions db2 (ver_id ver) = (ss, ts)"
    "db2 = db\<lparr>states := states db @ ss, st_seq := st_seq db + int (length (chain_rows v specs)),
       transitions := transitions db @ ts, tr_seq := tr_seq db + int (length rows)\<rparr>"
proof -
  define ss where ss: "ss = numbered (st_seq db) (ver_id ver) (chain_rows v specs)"
  obtain rows where rows: "rmap (edge_row ss) es = Inr rows"
    "assert_graph_invariants ss (numbered_edges (tr_seq db) (ver_id ver) rows) v = Inr ()"
    "well_formed_graph ss (numbered_edges (tr_seq db) (ver_id ver) rows)"
    using pub unfolding publishable_def ss by blast
  define ts where ts: "ts = numbered_edges (tr_seq db) (ver_id ver) rows"
  define db1 where db1: "db1 = db\<lparr>states := states db @ ss, st_seq := st_seq db + int (length (chain_rows v specs))\<rparr>"
  define db2 where db2: "db2 = db1\<lparr>transitions := transitions db @ ts, tr_seq := tr_seq db + int (length rows)\<rparr>"
  have "add_states db ver (chain_rows v specs) = Inr (ss, db1)"
    unfolding ss db1 by (rule add_states_fresh) (use draft old pub in \<open>auto simp: publishable_def\<close>)
  moreover have "add_transitions db1 ver ss es = Inr (ts, db2)"
    by (subst add_transitions_fresh [OF draft rows(1)]) (simp add: ts db1 db2)
  moreover have "states_and_transitions db2 (ver_id ver) = (ss, ts)"
    unfolding states_and_transitions_def
    using filter_own [OF old(1), of ss] filter_own [OF old(2), of ts] numbered_version numbered_edges_version
    by (simp add: ss ts db1 db2)
  ultimately show thesis using rows ts by (intro that [OF ss rows(1) ts]) (simp_all add: db1 db2)
qed

lemma create_version_fresh:
  assumes "rows_grounded db" "create_version db did policy = (ver, db')" "did \<le> def_seq db"
  shows "ver_id ver = ver_seq db + 1" "\<not> ver_published ver" "ver_definition ver = did"
    "versions db' = versions db @ [ver]" "definitions db' = definitions db" "rows_grounded db'"
    "\<forall>s \<in> set (states db'). st_version s \<noteq> ver_id ver" "\<forall>t \<in> set (transitions db'). tr_version t \<noteq> ver_id ver"
    "ver_seq db' = ver_seq db + 1" "same_graph db db'"
proof -
  have ver: "ver = \<lparr>ver_id = ver_seq db + 1, ver_definition = did, ver_no = max_version_no db did + 1,
               ver_published = False, ver_published_at = None, ver_resubmit = policy\<rparr>"
    and db': "db' = db\<lparr>versions := versions db @ [ver], ver_seq := ver_seq db + 1\<rparr>"
    using assms(2) by (auto simp: create_version_def Let_def)
  show "ver_id ver = ver_seq db + 1" "\<not> ver_published ver" "ver_definition ver = did"
    "versions db' = versions db @ [ver]" "definitions db' = definitions db" "ver_seq db' = ver_seq db + 1" "same_graph db db'"
    unfolding db' by (simp_all add: ver same_graph_def)
  show "rows_grounded db'" using assms(1,3) unfolding rows_grounded_def version_keys_def db' by (force simp: ver)
  show "\<forall>s \<in> set (states db'). st_version s \<noteq> ver_id ver" "\<forall>t \<in> set (transitions db'). tr_version t \<noteq> ver_id ver"
    using assms(1) unfolding rows_grounded_def db' by (force simp: ver)+
qed

lemma grounded_fill:
  assumes "rows_grounded db" "vid \<le> ver_seq db" "\<forall>e \<in> set es. tr_from e \<le> st_seq db + int (length rs)"
  shows "rows_grounded (db\<lparr>states := states db @ numbered (st_seq db) vid rs, st_seq := st_seq db + int (length rs),
     transitions := transitions db @ numbered_edges (tr_seq db) vid es, tr_seq := n,
     versions := row_upd ver_id vid (\<lambda>v. v\<lparr>ver_published := True, ver_published_at := w\<rparr>) (versions db)\<rparr>)"
proof -
  have "st_id s \<le> st_seq db + int (length rs)" if "s \<in> set (numbered (st_seq db) vid rs)" for s
    using numbered_ids [OF that] by simp
  moreover have "tr_from t \<le> st_seq db + int (length rs)" if "t \<in> set (transitions db)" for t
    using that assms(1) by (force simp: rows_grounded_def)
  moreover have "tr_from t \<le> st_seq db + int (length rs)" if "t \<in> set (numbered_edges (tr_seq db) vid es)" for t
  proof -
    from that obtain e where "e \<in> set es" "tr_from t = tr_from e"
      by (auto simp: numbered_edges_def in_set_enumerate_eq) (metis nth_mem)
    then show ?thesis using assms(3) by simp
  qed
  moreover have "st_id s \<le> st_seq db + int (length rs)" if "s \<in> set (states db)" for s
    using that assms(1) by (force simp: rows_grounded_def)
  ultimately show ?thesis
    using assms numbered_version numbered_edges_version
    by (auto simp: rows_grounded_def version_keys_def set_row_upd)
qed

lemma author_chain_publishes:
  assumes g: "rows_grounded db" and none: "get_published_version db code = None"
    and pub: "publishable v specs es"
  obtains ver db' ss rows where "author_chain db code name v specs es = Inr (ver, db')"
    "get_published_version db' code = Some ver" "rows_grounded db'" "ver_id ver = ver_seq db + 1"
    "ss = numbered (st_seq db) (ver_id ver) (chain_rows v specs)" "rmap (edge_row ss) es = Inr rows"
    "states db' = states db @ ss" "transitions db' = transitions db @ numbered_edges (tr_seq db) (ver_id ver) rows"
    "instances db' = instances db"
    "\<And>other. other \<noteq> code \<Longrightarrow> get_published_version db' other = get_published_version db other"
proof -
  obtain d db1 where d: "(case find (\<lambda>d. def_code d = code) (definitions db) of
        Some d \<Rightarrow> Inr (d, db) | None \<Rightarrow> create_definition db code name (Some FEATURE_FLAG_KEY)) = Inr (d, db1)"
    "rows_grounded db1" "get_published_version db1 code = None" "d \<in> set (definitions db1)" "def_code d = code"
    "ver_seq db1 = ver_seq db" "same_graph db db1"
    "\<And>other. other \<noteq> code \<Longrightarrow> get_published_version db1 other = get_published_version db other"
    by (rule chain_definition [OF g none, where name = name and m = "Some FEATURE_FLAG_KEY"]) metis
  obtain ver db2 where cv: "create_version db1 (def_id d) Restart = (ver, db2)" by fastforce
  note v2 = create_version_fresh [OF d(2) cv]
  have did: "def_id d \<le> def_seq db1" using d(2,4) by (simp add: rows_grounded_def)
  note v2 = v2 [OF did]
  obtain ss rows ts db3 db4 where f: "ss = numbered (st_seq db2) (ver_id ver) (chain_rows v specs)"
    "rmap (edge_row ss) es = Inr rows" "ts = numbered_edges (tr_seq db2) (ver_id ver) rows"
    "add_states db2 ver (chain_rows v specs) = Inr (ss, db3)" "add_transitions db3 ver ss es = Inr (ts, db4)"
    "assert_graph_invariants ss ts v = Inr ()" "well_formed_graph ss ts"
    "states_and_transitions db4 (ver_id ver) = (ss, ts)"
    "db4 = db2\<lparr>states := states db2 @ ss, st_seq := st_seq db2 + int (length (chain_rows v specs)),
       transitions := transitions db2 @ ts, tr_seq := tr_seq db2 + int (length rows)\<rparr>"
    by (rule fill_and_publish [OF pub v2(2,7,8)])
  define pubv where pubv: "pubv = (\<lambda>v :: wf_version. v\<lparr>ver_published := True, ver_published_at := Some (wall (auth db4))\<rparr>)"
  define db5 where db5: "db5 = db4\<lparr>versions := row_upd ver_id (ver_id ver) pubv (versions db4)\<rparr>"
  have run: "author_chain db code name v specs es = Inr (pubv ver, db5)"
    unfolding author_chain_def none option.case d(1) rbind.simps prod.case cv Let_def f(4,5,6) publish_version_def
      f(8) f(7) [folded validate_graph_spec]
    using v2(2) by (simp add: pubv db5)
  have vs: "versions db5 = versions db1 @ [pubv ver]"
  proof -
    have "row_upd ver_id (ver_id ver) pubv (versions db1) = versions db1"
      using d(2) v2(1) unfolding rows_grounded_def version_keys_def row_upd_def by (force intro: map_idI)
    then show ?thesis by (simp add: db5 f(9) v2(4) row_upd_def)
  qed
  have defs: "definitions db5 = definitions db1" by (simp add: db5 f(9) v2(5))
  have "get_published_version db5 code = Some (pubv ver)"
  proof (rule get_published_single)
    show "filter (\<lambda>v. ver_published v \<and>
      (\<exists>d \<in> set (definitions db5). def_id d = ver_definition v \<and> def_code d = code)) (versions db5) = [pubv ver]"
      using d(3,4,5) v2(3) unfolding vs defs get_published_None by (auto simp: filter_empty_conv pubv)
  qed
  moreover have "get_published_version db5 other = get_published_version db other" if "other \<noteq> code" for other
  proof -
    have "def_code e = code" if "e \<in> set (definitions db1)" "def_id e = def_id d" for e
      using that d(2,4,5) by (auto simp: rows_grounded_def distinct_map inj_on_def)
    then have "get_published_version db5 other = get_published_version db1 other"
      using \<open>other \<noteq> code\<close> v2(3) unfolding get_published_version_def vs defs by (auto simp: pubv)
    then show ?thesis using d(8) [OF that] by simp
  qed
  moreover have "rows_grounded db5"
    using grounded_fill [OF v2(6), of "ver_id ver" rows "chain_rows v specs"] v2(1,9) edge_rows_from [OF f(2)]
      numbered_ids [of _ "st_seq db2" "ver_id ver" "chain_rows v specs", folded f(1)]
    unfolding db5 f(9) f(1,3) pubv by fastforce
  ultimately show thesis
    using that [OF run, of ss rows] f(1,2,3) v2(1,10) d(6,7) by (simp add: pubv db5 f(9) same_graph_def)
qed

lemma author_chain_total:
  assumes g: "rows_grounded db" and pub: "publishable v specs es"
  obtains ver db' where "author_chain db code name v specs es = Inr (ver, db')"
    "get_published_version db' code = Some ver" "rows_grounded db'"
    "\<forall>other. other \<noteq> code \<longrightarrow> get_published_version db' other = get_published_version db other"
proof (cases "get_published_version db code")
  case None
  then show thesis
    by (rule author_chain_publishes [OF g _ pub, where name = name]) (rule that, assumption+, blast)
next
  case (Some ver)
  then show thesis using that [of ver db] g by (simp add: author_chain_def)
qed

section \<open>The two chains are publishable\<close>

lemma enumerate_unfold: "enumerate n [] = []" "enumerate n (x # xs) = (n, x) # enumerate (Suc n) xs"
  by simp_all

lemmas perm_defs = APPROVE_PERM_def REVIEW_PERM_def FMS_PERM_def CERTIFY_PERM_def

lemma numbered_edges_Nil [simp]: "numbered_edges k vid [] = []"
  by (simp add: numbered_edges_def)

lemmas chain_simps = chain_rows_def state_row_def edge_row_def numbered_Cons numbered_edges_Cons code_defs

lemmas graph_simps = assert_graph_invariants_def AUTHORED_ACTIONS_def validate_graph_def out_edges_def reach_loop.simps

lemma claim_publishable: "publishable REIMBURSEMENT claim_states claim_edges"
  unfolding publishable_def validate_graph_spec [symmetric]
proof (intro conjI allI)
  show "sorted_wrt (\<lambda>r s. compatible [s] r) (chain_rows REIMBURSEMENT claim_states)"
    by code_simp
next
  fix k vid tk :: int
  show "\<exists>rows. rmap (edge_row (numbered k vid (chain_rows REIMBURSEMENT claim_states))) claim_edges = Inr rows \<and>
    assert_graph_invariants (numbered k vid (chain_rows REIMBURSEMENT claim_states)) (numbered_edges tk vid rows)
      REIMBURSEMENT = Inr () \<and>
    validate_graph (numbered k vid (chain_rows REIMBURSEMENT claim_states)) (numbered_edges tk vid rows) = Inr ()"
    by (simp add: claim_states_def claim_edges_def chain_simps, intro conjI)
      (simp add: graph_simps perm_defs REIMBURSEMENT_def code_defs, simp add: graph_simps)
qed

lemma liquidation_publishable: "publishable LIQUIDATION liquidation_states liquidation_edges"
  unfolding publishable_def validate_graph_spec [symmetric]
proof (intro conjI allI)
  show "sorted_wrt (\<lambda>r s. compatible [s] r) (chain_rows LIQUIDATION liquidation_states)"
    by code_simp
next
  fix k vid tk :: int
  show "\<exists>rows. rmap (edge_row (numbered k vid (chain_rows LIQUIDATION liquidation_states))) liquidation_edges = Inr rows \<and>
    assert_graph_invariants (numbered k vid (chain_rows LIQUIDATION liquidation_states)) (numbered_edges tk vid rows)
      LIQUIDATION = Inr () \<and>
    validate_graph (numbered k vid (chain_rows LIQUIDATION liquidation_states)) (numbered_edges tk vid rows) = Inr ()"
    by (simp add: liquidation_states_def liquidation_edges_def chain_simps, intro conjI)
      (simp add: graph_simps perm_defs LIQUIDATION_def code_defs, simp add: graph_simps)
qed

section \<open>Cutting a chain\<close>

text \<open>
  The engine at run time: instances are started, acted on and swept, a module writes its columns, roles,
  delegations and feature flags change; no definition is authored.
\<close>

inductive run_step :: "wf_db \<Rightarrow> wf_db \<Rightarrow> bool" where
  run_start: "start_instance db code actor org skind sid amount flag now = Inr (i, db') \<Longrightarrow> run_step db db'"
| run_act: "execute_action db iid act actor comment key expected now = Inr (e, db') \<Longrightarrow> run_step db db'"
| run_sweep: "sweep_due_steps db now limit = Inr (ids, db') \<Longrightarrow> run_step db db'"
| run_amount: "run_step db (set_amount db iid a)"
| run_due: "run_step db (set_due db P d)"
| run_remind: "s \<in> set (steps db) \<Longrightarrow> run_step db (add_reminder db s k)"
| run_admin: "run_step db (db\<lparr>auth := a, delegations := ds, flags := fs\<rparr>)"

text \<open>
  \<open>S\<close> is a set of states around the initial one that is left only by an approval of \<open>g\<close>.
\<close>

definition cut :: "wf_db \<Rightarrow> int \<Rightarrow> int \<Rightarrow> int set \<Rightarrow> bool" where
  "cut db vid g S \<longleftrightarrow>
     (\<forall>s \<in> set (states db). st_version s = vid \<and> st_kind s = Initial \<longrightarrow> st_id s \<in> S) \<and>
     (\<forall>t \<in> set (transitions db). tr_from t \<in> S \<and> \<not> (tr_from t = g \<and> tr_action t = Approve) \<longrightarrow> tr_to t \<in> S)"

text \<open>
  The log of instance \<open>i\<close> records an approval of state \<open>g\<close>, by someone else than the originator where
  the state is segregated.
\<close>

definition approved_at :: "wf_db \<Rightarrow> wf_instance \<Rightarrow> int \<Rightarrow> bool" where
  "approved_at db i g \<longleftrightarrow>
     (\<exists>e \<in> set (events db). ev_instance e = in_id i \<and> ev_action e = Some Approve \<and> ev_from e = Some g \<and>
        ev_actor e \<noteq> None \<and>
        (\<forall>s. get_state db g = Some s \<and> st_segregation s \<longrightarrow> ev_actor e \<noteq> in_originator i))"

definition cut_inv :: "int \<Rightarrow> int \<Rightarrow> int set \<Rightarrow> wf_db \<Rightarrow> bool" where
  "cut_inv vid g S db \<longleftrightarrow> engine_inv db \<and> cut db vid g S \<and>
     (\<forall>i \<in> set (instances db). in_version i = vid \<longrightarrow> in_state i \<in> S \<or> approved_at db i g)"

lemma approve_segregated:
  assumes "perform db i cur t Approve actor comment now = Inr eff" "distinct (map sp_id (steps db))" "st_segregation cur"
  shows "in_originator i \<noteq> Some actor"
proof -
  obtain obo target new_id j ss where eff: "eff = (obo, target, new_id, j, ss)" by (cases eff)
  have "approve_action db i cur t actor comment (definition_id db i) now = Inr (obo, target, new_id, j, ss)"
    using assms(1) by (simp add: eff perform_def GATE_ACTIONS_def Let_def)
  from approve_action_effect [OF this assms(2)] obtain sid where "approval_guards db i cur actor sid" by metis
  then show ?thesis using assms(3) by (simp add: approval_guards_def)
qed

lemma execute_edge:
  assumes ok: "execute_action db iid act actor comment key expected now = Inr (e, db')"
    and dist: "distinct (map sp_id (steps db))"
  obtains (replay) "db' = db"
    | (moved) i i' where "get_instance db iid = Some i" "in_version i' = in_version i" "in_id i' = iid"
        "instances db' = row_upd in_id iid (\<lambda>_. i') (instances db)" "events db' = events db @ [e]"
        "ev_instance e = iid" "ev_action e = Some act" "ev_from e = Some (in_state i)"
        "in_state i' = in_state i \<or>
          (\<exists>t \<in> set (transitions db). tr_from t = in_state i \<and> tr_action t = act \<and> tr_to t = in_state i')"
        "states db' = states db" "transitions db' = transitions db" "ev_actor e = Some actor"
        "in_originator i' = in_originator i"
        "\<And>s. act = Approve \<Longrightarrow> get_state db (in_state i) = Some s \<Longrightarrow> st_segregation s \<Longrightarrow> in_originator i \<noteq> Some actor"
  using ok
proof (cases rule: execute_action_cases)
  case replay
  with that(1) show thesis by blast
next
  case (acted i cur t eff)
  obtain obo target new_id j ss where eff: "eff = (obo, target, new_id, j, ss)" by (cases eff)
  from perform_effect [OF acted(8) [unfolded eff] dist] have
    p: "new_id = tr_to t \<or> new_id = st_id cur" "j = i\<lparr>in_revision := in_revision j\<rparr>" by blast+
  from advance_effect [OF acted(9) [unfolded eff]] obtain new i' where
    a: "i' = j\<lparr>in_state := new_id, in_row_version := in_row_version j + 1\<rparr>"
    "e = (emit i' act (st_id cur) new_id actor obo comment key target)\<lparr>ev_id := ev_seq db + 1\<rparr>"
    "db' = db\<lparr>instances := row_upd in_id (in_id j) (\<lambda>_. i') (instances db), steps := ss @ new,
       sp_seq := sp_seq db + int (length new), events := events db @ [e], ev_seq := ev_seq db + 1\<rparr>"
    by blast
  from p(2) obtain r where r: "j = i\<lparr>in_revision := r\<rparr>" by blast
  have ids: "in_id i = iid" "st_id cur = in_state i" using acted(1,4) by auto
  have seg: "st_segregation cur \<Longrightarrow> in_originator i \<noteq> Some actor" if "act = Approve"
    using approve_segregated [OF acted(8) [unfolded that] dist] .
  have edge: "in_state i' = in_state i \<or>
      (\<exists>t \<in> set (transitions db). tr_from t = in_state i \<and> tr_action t = act \<and> tr_to t = in_state i')"
    using p(1) select_transition_Some [OF acted(6)] ids by (auto simp: a r)
  show thesis
    by (rule that(2) [OF acted(1) _ _ _ _ _ _ _ edge]) (use ids acted(4) seg in \<open>auto simp: a r emit_def\<close>)
qed

lemma run_engine: "run_step db db' \<Longrightarrow> engine_step db db'"
  by (auto elim!: run_step.cases intro: engine_step.intros)

lemma escalate_all_frame:
  "escalate_all a ss = Inr b \<Longrightarrow> states b = states a \<and> transitions b = transitions a \<and> instances b = instances a \<and>
     set (events a) \<subseteq> set (events b)"
proof (induction ss arbitrary: a)
  case (Cons s ss)
  from Cons.prems obtain c where c: "escalate a s = Inr c" "escalate_all c ss = Inr b" by (auto simp: rbind_eq_Inr)
  have "states c = states a \<and> transitions c = transitions a \<and> instances c = instances a \<and> set (events a) \<subseteq> set (events c)"
    using c(1) by (auto simp: escalate_def Let_def split: if_splits)
  then show ?case using Cons.IH [OF c(2)] by auto
qed simp

lemma sweep_frame:
  "sweep_due_steps a now limit = Inr (ids, b) \<Longrightarrow> states b = states a \<and> transitions b = transitions a \<and>
     instances b = instances a \<and> set (events a) \<subseteq> set (events b)"
  by (auto simp: sweep_due_steps_def rbind_eq_Inr Let_def dest: escalate_all_frame)

lemma run_tables:
  assumes "run_step db db'" "engine_inv db"
  shows "states db' = states db" "transitions db' = transitions db"
proof -
  have dist: "distinct (map sp_id (steps db))" using assms(2) by (simp add: engine_inv_def engine_keys_def)
  have "states db' = states db \<and> transitions db' = transitions db"
    using assms(1)
  proof cases
    case (run_start code actor org skind sid amount flag now i)
    then show ?thesis by (auto elim!: start_effect simp: started_def)
  next
    case (run_act iid act actor comment key expected now e)
    then show ?thesis by (auto elim!: execute_edge [OF _ dist])
  next
    case (run_sweep now limit ids)
    then show ?thesis using sweep_frame by blast
  qed (simp_all add: set_amount_def set_due_def add_reminder_def)
  then show "states db' = states db" "transitions db' = transitions db" by simp_all
qed

lemma approved_later:
  assumes "approved_at db i g" "set (events db) \<subseteq> set (events db')" "states db' = states db"
    "in_id j = in_id i" "in_originator j = in_originator i"
  shows "approved_at db' j g"
  using assms unfolding approved_at_def by auto

lemma cut_act:
  assumes inv: "cut_inv vid g S db" and run: "execute_action db iid act actor comment key expected now = Inr (e, db')"
    and j: "j \<in> set (instances db')" "in_version j = vid"
  shows "in_state j \<in> S \<or> approved_at db' j g"
proof -
  have dist: "distinct (map sp_id (steps db))" and keys: "distinct (map in_id (instances db))"
    using inv by (simp_all add: cut_inv_def engine_inv_def engine_keys_def)
  have ok: "in_state i \<in> S \<or> approved_at db i g" if "i \<in> set (instances db)" "in_version i = vid" for i
    using inv that by (simp add: cut_inv_def)
  show ?thesis
    using run
  proof (cases rule: execute_edge [OF _ dist, consumes 1, case_names replay moved])
    case replay
    then show ?thesis using ok j by simp
  next
    case (moved i i')
    show ?thesis
    proof (cases "in_id j = iid")
      case False
      then have "j \<in> set (instances db)" using j(1) moved(3,4) by (auto simp: set_row_upd)
      with ok j(2) show ?thesis using approved_later [of db j g db' j] moved(5,10) by auto
    next
      case True
      then have jj: "j = i'" using j(1) moved(4) by (auto simp: set_row_upd)
      have i: "i \<in> set (instances db)" "in_id i = iid" "in_version i = vid" using moved(1,2) j(2) jj by auto
      show ?thesis
      proof (cases "approved_at db i g")
        case True
        then show ?thesis using approved_later [of db i g db' j] moved(3,5,10,13) i jj by auto
      next
        case no: False
        then have S: "in_state i \<in> S" using ok i by blast
        show ?thesis
        proof (cases "in_state i = g \<and> act = Approve")
          case True
          then have "approved_at db' j g"
            unfolding approved_at_def using moved(5-8,10,12,13,14) jj moved(3) by auto
          then show ?thesis ..
        next
          case False
          then show ?thesis using moved(9) S inv jj by (auto simp: cut_inv_def cut_def)
        qed
      qed
    qed
  qed
qed

lemma cut_step:
  assumes inv: "cut_inv vid g S db" and run: "run_step db db'"
  shows "cut_inv vid g S db'"
proof -
  have e: "engine_inv db" using inv by (simp add: cut_inv_def)
  note tabs = run_tables [OF run e]
  have "engine_inv db'" using engine.inv_step [OF e run_engine [OF run]] .
  moreover have "cut db' vid g S" using inv by (simp add: cut_inv_def cut_def tabs)
  moreover have "in_state j \<in> S \<or> approved_at db' j g" if j: "j \<in> set (instances db')" "in_version j = vid" for j
    using run
  proof cases
    case (run_act iid act actor comment key expected now e)
    then show ?thesis using cut_act [OF inv _ j] by blast
  next
    case (run_start code actor org skind sid amount flag now i)
    then obtain ini new ev where s: "started db db' i ini new ev" by (blast elim: start_effect)
    show ?thesis
    proof (cases "j \<in> set (instances db)")
      case True
      then show ?thesis using inv j(2) approved_later [of db j g db' j] started_tables [OF s] by (auto simp: cut_inv_def)
    next
      case False
      then have "j = i" using j(1) started_tables(4) [OF s] by simp
      then show ?thesis using inv s j(2) unfolding cut_inv_def cut_def started_def by auto
    qed
  next
    case (run_sweep now limit ids)
    then have "instances db' = instances db" "set (events db) \<subseteq> set (events db')" using sweep_frame by blast+
    then show ?thesis using inv j approved_later [of db j g db' j] tabs(1) by (auto simp: cut_inv_def)
  next
    case (run_amount iid a)
    then obtain i where i: "i \<in> set (instances db)" "in_id j = in_id i" "in_version i = vid" "in_originator j = in_originator i"
      "in_state j = in_state i" "events db' = events db"
      using j by (auto simp: set_amount_def row_upd_def split: if_splits)
    then show ?thesis using inv approved_later [of db i g db' j] tabs(1) by (auto simp: cut_inv_def)
  next
    case (run_due P d)
    then have "instances db' = instances db" "events db' = events db" by (simp_all add: set_due_def)
    then show ?thesis using inv j approved_later [of db j g db' j] tabs(1) by (auto simp: cut_inv_def)
  next
    case (run_admin a ds fs)
    then have "instances db' = instances db" "events db' = events db" by simp_all
    then show ?thesis using inv j approved_later [of db j g db' j] tabs(1) by (auto simp: cut_inv_def)
  next
    case (run_remind s k)
    then have "instances db' = instances db" "set (events db) \<subseteq> set (events db')" by (auto simp: add_reminder_def)
    then show ?thesis using inv j approved_later [of db j g db' j] tabs(1) by (auto simp: cut_inv_def)
  qed
  ultimately show ?thesis by (simp add: cut_inv_def)
qed

lemma cut_run: "run_step\<^sup>*\<^sup>* db db' \<Longrightarrow> cut_inv vid g S db \<Longrightarrow> cut_inv vid g S db' \<and> states db' = states db"
proof (induction rule: rtranclp_induct)
  case (step y z)
  then show ?case using cut_step run_tables(1) by (metis cut_inv_def)
qed simp

section \<open>Authored chains\<close>

text \<open>A set of codes that is left only by an approval of gate \<open>g\<close>.\<close>

definition code_cut ::
  "(string \<times> state_kind \<times> string option \<times> bool) list \<Rightarrow> edge list \<Rightarrow> string \<Rightarrow> string list \<Rightarrow> bool" where
  "code_cut specs es g C \<longleftrightarrow>
     (\<forall>p \<in> set specs. fst (snd p) = Initial \<longrightarrow> fst p \<in> set C) \<and> g \<in> set (map fst specs) \<and>
     (\<forall>e \<in> set es. eg_from e \<in> set C \<and> \<not> (eg_from e = g \<and> eg_action e = Approve) \<longrightarrow> eg_to e \<in> set C)"

lemma numbered_row:
  assumes "s \<in> set (numbered k vid (chain_rows v specs))"
  obtains p where "p \<in> set specs" "st_code s = fst p" "st_kind s = fst (snd p)"
    "st_perm s = fst (snd (snd p))" "st_segregation s = snd (snd (snd p))"
proof -
  from assms obtain n r where r: "n < length (chain_rows v specs)" "r = chain_rows v specs ! n"
    "s = r\<lparr>st_id := k + int n + 1, st_version := vid\<rparr>"
    by (auto simp: numbered_def in_set_enumerate_eq)
  then have n: "n < length specs" "r = state_row v n (specs ! n)" by (auto simp: chain_rows_def nth_enumerate_eq)
  show thesis
    by (rule that [of "specs ! n"]) (use n r(3) in \<open>auto simp: state_row_def split: prod.splits\<close>)
qed

lemma numbered_code_list: "map st_code (numbered k vid rows) = map st_code rows"
  by (induction rows arbitrary: k) (simp_all add: numbered_Cons)

lemma compatible_codes: "sorted_wrt (\<lambda>r s. compatible [s] r) rows \<Longrightarrow> distinct (map st_code rows)"
  by (induction rows) (auto simp: compatible_def)

lemma numbered_codes: "st_code ` set (numbered k vid (chain_rows v specs)) = set (map fst specs)"
proof -
  have "map st_code (map (\<lambda>(n, s). state_row v n s) (enumerate m specs)) = map fst specs" for m
    by (induction specs arbitrary: m) (auto simp: state_row_def split: prod.splits)
  then show ?thesis by (metis chain_rows_def numbered_code_list set_map)
qed

lemma numbered_distinct: "distinct (map st_id (numbered k vid rows))"
proof (induction rows arbitrary: k)
  case (Cons r rows)
  then show ?case using numbered_ids [of _ "k + 1" vid rows] by (fastforce simp: numbered_Cons)
qed simp

lemma edge_rows_ends:
  "rmap (edge_row ss) es = Inr rows \<Longrightarrow> r \<in> set rows \<Longrightarrow>
     \<exists>e \<in> set es. \<exists>a \<in> set ss. \<exists>b \<in> set ss. st_code a = eg_from e \<and> st_code b = eg_to e \<and> tr_action r = eg_action e \<and>
       tr_from r = st_id a \<and> tr_to r = st_id b"
proof (induction es arbitrary: rows)
  case (Cons e es)
  from Cons.prems(1) obtain r0 rs where rs: "rows = r0 # rs" "edge_row ss e = Inr r0" "rmap (edge_row ss) es = Inr rs"
    by (auto simp: rbind_eq_Inr)
  show ?case
  proof (cases "r \<in> set rs")
    case True
    then show ?thesis using Cons.IH [OF rs(3)] by auto
  next
    case False
    then have "r = r0" using Cons.prems(2) rs(1) by simp
    then show ?thesis using rs(2) find_Some_in [of _ ss]
      unfolding edge_row_def by (auto split: option.splits prod.splits) blast
  qed
qed simp

lemma numbered_edges_row:
  "t \<in> set (numbered_edges k vid rows) \<Longrightarrow>
     \<exists>r \<in> set rows. tr_from t = tr_from r \<and> tr_to t = tr_to r \<and> tr_action t = tr_action r"
  by (auto simp: numbered_edges_def in_set_enumerate_eq)

lemma authored_cut:
  assumes g: "rows_grounded db" and none: "get_published_version db code = None" and pub: "publishable v specs es"
    and c: "code_cut specs es gc C" and run: "author_chain db code name v specs es = Inr (ver, db')"
  obtains G S where "cut db' (ver_id ver) (st_id G) S" "G \<in> set (states db')" "st_version G = ver_id ver" "st_code G = gc"
    "\<forall>i \<in> set (instances db'). in_version i \<noteq> ver_id ver"
    "\<forall>i \<in> S. \<exists>s \<in> set (states db'). st_id s = i \<and> st_code s \<in> set C"
proof -
  obtain ss rows where a: "ver_id ver = ver_seq db + 1" "ss = numbered (st_seq db) (ver_id ver) (chain_rows v specs)"
    "rmap (edge_row ss) es = Inr rows" "states db' = states db @ ss"
    "transitions db' = transitions db @ numbered_edges (tr_seq db) (ver_id ver) rows" "instances db' = instances db"
    by (rule author_chain_publishes [OF g none pub, where name = name]) (use run in auto)
  define S where S: "S = st_id ` {s \<in> set ss. st_code s \<in> set C}"
  have uniq: "x = y" if "x \<in> set ss" "y \<in> set ss" "st_id x = st_id y" for x y
    using that numbered_distinct [of "st_seq db" "ver_id ver" "chain_rows v specs"] unfolding a(2) [symmetric]
    by (auto simp: distinct_map inj_on_def)
  have "gc \<in> st_code ` set ss"
    using c numbered_codes [of "st_seq db" "ver_id ver" v specs, folded a(2)] by (simp only: code_cut_def)
  then obtain G where G: "G \<in> set ss" "st_code G = gc" by blast
  have "st_id s \<in> S" if "s \<in> set (states db')" "st_version s = ver_id ver" "st_kind s = Initial" for s
  proof -
    have "s \<in> set ss" using that(1,2) g a(1,4) by (auto simp: rows_grounded_def)
    moreover obtain p where "p \<in> set specs" "st_code s = fst p" "st_kind s = fst (snd p)"
      using \<open>s \<in> set ss\<close> unfolding a(2) by (rule numbered_row)
    then have "st_code s \<in> set C" using c that(3) unfolding code_cut_def by simp
    ultimately show ?thesis by (simp add: S)
  qed
  moreover have "tr_to t \<in> S"
    if t: "t \<in> set (transitions db')" "tr_from t \<in> S" "\<not> (tr_from t = st_id G \<and> tr_action t = Approve)" for t
  proof -
    obtain s where s: "s \<in> set ss" "st_code s \<in> set C" "tr_from t = st_id s" using t(2) by (auto simp: S)
    have "tr_from t > st_seq db" using s numbered_ids unfolding a(2) by metis
    then have "t \<notin> set (transitions db)" using g by (force simp: rows_grounded_def)
    then have "t \<in> set (numbered_edges (tr_seq db) (ver_id ver) rows)" using t(1) a(5) by simp
    then obtain r where r: "r \<in> set rows" "tr_from t = tr_from r" "tr_to t = tr_to r" "tr_action t = tr_action r"
      using numbered_edges_row by blast
    obtain e x y where e: "e \<in> set es" "x \<in> set ss" "y \<in> set ss" "st_code x = eg_from e" "st_code y = eg_to e"
      "tr_action r = eg_action e" "tr_from r = st_id x" "tr_to r = st_id y"
      using edge_rows_ends [OF a(3) r(1)] by blast
    have "x = s" using uniq e(2,7) s r(2) by metis
    moreover have "distinct (map st_code ss)"
      using pub compatible_codes unfolding publishable_def a(2) numbered_code_list by blast
    then have "eg_from e = gc \<Longrightarrow> x = G" using e(2,4) G by (auto simp: distinct_map inj_on_def)
    ultimately have "eg_to e \<in> set C" using c e(1,4,6) s t(3) r(4) unfolding code_cut_def by metis
    then show ?thesis using e(3,5,8) r(3) by (auto simp: S)
  qed
  ultimately have "cut db' (ver_id ver) (st_id G) S" unfolding cut_def by blast
  moreover have "\<forall>i \<in> set (instances db'). in_version i \<noteq> ver_id ver" using g a(1,6) by (auto simp: rows_grounded_def)
  ultimately show thesis
    using that [of G S] G numbered_version [of G] a(2,4) by (auto simp: S)
qed

text \<open>Authoring a chain is a sequence of authoring calls.\<close>

lemma add_states_steps:
  "v \<in> set (versions db) \<Longrightarrow> add_states db v rows = Inr (ss, db') \<Longrightarrow>
     authoring_step\<^sup>*\<^sup>* db db' \<and> versions db' = versions db"
proof (induction rows arbitrary: db ss)
  case (Cons r rows)
  from Cons.prems(2) obtain s db1 ss1 where s: "add_state db v r = Inr (s, db1)" "add_states db1 v rows = Inr (ss1, db')"
    by (auto simp: rbind_eq_Inr)
  have "authoring_step db db1" using author_state [OF Cons.prems(1) s(1)] .
  moreover have "versions db1 = versions db" using add_state_draft(2) [OF s(1)] .
  ultimately show ?case using Cons.IH [OF _ s(2)] Cons.prems(1) by (auto intro: converse_rtranclp_into_rtranclp)
qed simp

lemma add_transitions_steps:
  "v \<in> set (versions db) \<Longrightarrow> add_transitions db v ss es = Inr (ts, db') \<Longrightarrow>
     authoring_step\<^sup>*\<^sup>* db db' \<and> versions db' = versions db"
proof (induction es arbitrary: db ts)
  case (Cons e es)
  from Cons.prems(2) obtain r t db1 ts1 where t: "add_transition db v r = Inr (t, db1)"
    "add_transitions db1 v ss es = Inr (ts1, db')"
    by (auto simp: rbind_eq_Inr)
  have "authoring_step db db1" using author_transition [OF Cons.prems(1) t(1)] .
  moreover have "versions db1 = versions db" using add_transition_draft(2) [OF t(1)] .
  ultimately show ?case using Cons.IH [OF _ t(2)] Cons.prems(1) by (auto intro: converse_rtranclp_into_rtranclp)
qed simp

lemma author_chain_steps:
  assumes "author_chain db code name v specs es = Inr (ver, db')"
  shows "authoring_step\<^sup>*\<^sup>* db db'"
proof (cases "get_published_version db code")
  case (Some w)
  with assms show ?thesis by (simp add: author_chain_def)
next
  case None
  with assms obtain d db1 where d: "(case find (\<lambda>d. def_code d = code) (definitions db) of
        Some d \<Rightarrow> Inr (d, db) | None \<Rightarrow> create_definition db code name (Some FEATURE_FLAG_KEY)) = Inr (d, db1)"
    unfolding author_chain_def by (auto simp: rbind_eq_Inr)
  obtain w db2 where w: "create_version db1 (def_id d) Restart = (w, db2)" by fastforce
  from assms None d w obtain ss db3 ts db4 where r: "add_states db2 w (chain_rows v specs) = Inr (ss, db3)"
    "add_transitions db3 w ss es = Inr (ts, db4)" "publish_version db4 w = Inr (ver, db')"
    unfolding author_chain_def by (auto simp: rbind_eq_Inr)
  have "authoring_step\<^sup>*\<^sup>* db db1"
    using d by (auto split: option.splits intro: author_definition)
  moreover have "authoring_step db1 db2" using author_version [OF w] .
  moreover have mem: "w \<in> set (versions db2)" using w by (auto simp: create_version_def Let_def)
  note s3 = add_states_steps [OF mem r(1)]
  then have s4: "authoring_step\<^sup>*\<^sup>* db3 db4 \<and> versions db4 = versions db3"
    using add_transitions_steps [OF _ r(2)] mem by simp
  moreover have "authoring_step db4 db'" using author_publish [OF _ r(3)] s3 s4 mem by simp
  ultimately show ?thesis using s3 by (meson rtranclp.rtrancl_into_rtrancl rtranclp_trans)
qed

lemma author_chain_inv:
  assumes "engine_inv db" "author_chain db code name v specs es = Inr (ver, db')"
  shows "engine_inv db'"
  using engine.reach_steps_inv [OF assms(1)] rtranclp_mono [of authoring_step engine_step]
    author_chain_steps [OF assms(2)] engine_author by blast

lemma chain_gate_passed:
  assumes inv: "engine_inv db" and g: "rows_grounded db" and none: "get_published_version db code = None"
    and pub: "publishable v specs es" and run: "author_chain db code name v specs es = Inr (ver, db0)"
    and later: "run_step\<^sup>*\<^sup>* db0 db'" and i: "i \<in> set (instances db')" "in_version i = ver_id ver"
    and s: "get_state db' (in_state i) = Some s" "st_code s \<notin> set C" and c: "code_cut specs es gc C"
  shows "\<exists>G \<in> set (states db'). st_version G = ver_id ver \<and> st_code G = gc \<and> approved_at db' i (st_id G)"
proof -
  obtain G S where G: "cut db0 (ver_id ver) (st_id G) S" "G \<in> set (states db0)" "st_version G = ver_id ver"
    "st_code G = gc" "\<forall>i \<in> set (instances db0). in_version i \<noteq> ver_id ver"
    "\<forall>i \<in> S. \<exists>s \<in> set (states db0). st_id s = i \<and> st_code s \<in> set C"
    by (rule authored_cut [OF g none pub c run])
  have "cut_inv (ver_id ver) (st_id G) S db0"
    using G(1,5) author_chain_inv [OF inv run] by (auto simp: cut_inv_def)
  from cut_run [OF later this] have fin: "cut_inv (ver_id ver) (st_id G) S db'" "states db' = states db0" by auto
  have "in_state i \<notin> S"
  proof
    assume "in_state i \<in> S"
    then obtain x where x: "x \<in> set (states db')" "st_id x = in_state i" "st_code x \<in> set C" using G(6) fin(2) by auto
    have "distinct (map st_id (states db'))" using fin(1) by (simp add: cut_inv_def engine_inv_def state_keys_def)
    from row_get_distinct [OF this x(1)] x(2) s(1) have "x = s" by simp
    with x(3) s(2) show False by simp
  qed
  then have "approved_at db' i (st_id G)" using fin(1) i by (auto simp: cut_inv_def)
  then show ?thesis using G(2-4) fin(2) by auto
qed

lemma claim_cuts:
  "code_cut claim_states claim_edges DIVISION_APPROVAL [DRAFT, DIVISION_APPROVAL, RETURNED, CANCELLED]"
  "code_cut claim_states claim_edges ADMIN_REVIEW [DRAFT, DIVISION_APPROVAL, ADMIN_REVIEW, RETURNED, CANCELLED]"
  "code_cut claim_states claim_edges HANDED_TO_FMS
     [DRAFT, DIVISION_APPROVAL, ADMIN_REVIEW, HANDED_TO_FMS, FMS_RETURNED, RETURNED, CANCELLED]"
  by code_simp+

lemma liquidation_cuts:
  "code_cut liquidation_states liquidation_edges CERTIFY_B [DRAFT, CERTIFY_B, RETURNED, CANCELLED]"
  "code_cut liquidation_states liquidation_edges CERTIFY_C [DRAFT, CERTIFY_B, CERTIFY_C, RETURNED, CANCELLED]"
  "code_cut liquidation_states liquidation_edges HANDED_TO_FMS
     [DRAFT, CERTIFY_B, CERTIFY_C, HANDED_TO_FMS, RETURNED, CANCELLED]"
  by code_simp+

section \<open>A sample run\<close>

text \<open>
  The claim chain authored on an empty database, then one claim submitted by user 5 and approved by
  user 8 at the division, reviewed by user 9 and closed by user 9.
\<close>

definition chain_auth :: auth_db where
  "chain_auth = \<lparr>org_units = [\<lparr>ou_id = 1, ou_parent = None, ou_deleted = False\<rparr>],
     user_roles = [\<lparr>ur_user = 8, ur_role = 3, ur_org = Some 1, ur_valid_from = None, ur_valid_to = None\<rparr>,
       \<lparr>ur_user = 9, ur_role = 4, ur_org = Some 1, ur_valid_from = None, ur_valid_to = None\<rparr>],
     role_perms = [(3, APPROVE_PERM), (4, REVIEW_PERM), (4, FMS_PERM), (3, CERTIFY_PERM)], users = [], wall = 100\<rparr>"

text \<open>What authoring a chain of a new code leaves.\<close>

definition authored_db ::
  "wf_db \<Rightarrow> string \<Rightarrow> string \<Rightarrow> vocab \<Rightarrow> (string \<times> state_kind \<times> string option \<times> bool) list \<Rightarrow> edge list \<Rightarrow> wf_db" where
  "authored_db db code name v specs es =
     (let did = def_seq db + 1; vid = ver_seq db + 1; ss = numbered (st_seq db) vid (chain_rows v specs) in
      db\<lparr>definitions := definitions db @ [\<lparr>def_id = did, def_code = code, def_name = name, def_module = Some FEATURE_FLAG_KEY\<rparr>],
        versions := versions db @ [\<lparr>ver_id = vid, ver_definition = did, ver_no = 1, ver_published = True,
          ver_published_at = Some (wall (auth db)), ver_resubmit = Restart\<rparr>],
        states := states db @ ss, transitions := transitions db @ numbered_edges (tr_seq db) vid (projr (rmap (edge_row ss) es)),
        def_seq := did, ver_seq := vid, st_seq := st_seq db + int (length specs), tr_seq := tr_seq db + int (length es)\<rparr>)"

definition chain_authored :: wf_db where
  "chain_authored = authored_db (empty_wf_db chain_auth) DEFINITION_CODE (''Local Travel Reimbursement '' @ em_dash @ '' claim'')
     REIMBURSEMENT claim_states claim_edges"

definition chain_started :: wf_db where
  "chain_started = ok_db (start_instance chain_authored DEFINITION_CODE (Some 5) (Some 1) None None None None 100)"

definition liq_authored :: wf_db where
  "liq_authored = authored_db (empty_wf_db chain_auth) LIQUIDATION_DEFINITION_CODE (''Local Travel Reimbursement '' @ em_dash @ '' liquidation'')
     LIQUIDATION liquidation_states liquidation_edges"

definition liq_started :: wf_db where
  "liq_started = ok_db (start_instance liq_authored LIQUIDATION_DEFINITION_CODE (Some 5) (Some 1) None None None None 100)"

definition chain_acts :: "(transition_action \<times> int \<times> string option) list \<Rightarrow> wf_db \<Rightarrow> wf_db" where
  "chain_acts acts db = fold (\<lambda>(act, actor, note) d. ok_db (execute_action d 1 act actor note None None 100)) acts db"

abbreviation three_approvals :: "(transition_action \<times> int \<times> string option) list" where
  "three_approvals \<equiv> [(Submit, 5, None), (Approve, 8, None), (Approve, 9, Some ''signed''), (Approve, 9, None)]"

definition chain_paid :: wf_db where
  "chain_paid = chain_acts three_approvals chain_started"

definition liq_settled :: wf_db where
  "liq_settled = chain_acts three_approvals liq_started"

lemma authored_db_ok:
  assumes g: "rows_grounded db" and new: "\<forall>d \<in> set (definitions db). def_code d \<noteq> code" and pub: "publishable v specs es"
  shows "author_chain db code name v specs es =
    Inr (last (versions (authored_db db code name v specs es)), authored_db db code name v specs es)"
proof -
  let ?out = "authored_db db code name v specs es"
  have none: "get_published_version db code = None" using new by (auto simp: get_published_None)
  define d where "d = \<lparr>def_id = def_seq db + 1, def_code = code, def_name = name, def_module = Some FEATURE_FLAG_KEY\<rparr>"
  define ver where "ver = \<lparr>ver_id = ver_seq db + 1, ver_definition = def_seq db + 1, ver_no = 1, ver_published = False, ver_published_at = None,
     ver_resubmit = Restart\<rparr>"
  define db1 where "db1 = db\<lparr>definitions := definitions db @ [d], def_seq := def_seq db + 1\<rparr>"
  define db2 where "db2 = db1\<lparr>versions := versions db @ [ver], ver_seq := ver_seq db + 1\<rparr>"
  have cd: "create_definition db code name (Some FEATURE_FLAG_KEY) = Inr (d, db1)"
    using new by (auto simp: create_definition_def d_def db1_def Let_def)
  have old: "filter (\<lambda>v. ver_definition v = def_seq db + 1) (versions db) = []"
    using g by (auto simp: rows_grounded_def filter_empty_conv)
  have cv: "create_version db1 (def_id d) Restart = (ver, db2)"
    using old by (simp add: create_version_def Let_def ver_def db2_def db1_def d_def max_version_no_def)
  have fresh: "\<not> ver_published ver" "\<forall>s \<in> set (states db2). st_version s \<noteq> ver_id ver"
    "\<forall>t \<in> set (transitions db2). tr_version t \<noteq> ver_id ver"
    using g by (auto simp: ver_def db2_def db1_def rows_grounded_def)
  obtain ss rows ts db3 db4 where f: "ss = numbered (st_seq db2) (ver_id ver) (chain_rows v specs)"
    "rmap (edge_row ss) es = Inr rows" "ts = numbered_edges (tr_seq db2) (ver_id ver) rows"
    "add_states db2 ver (chain_rows v specs) = Inr (ss, db3)" "add_transitions db3 ver ss es = Inr (ts, db4)"
    "assert_graph_invariants ss ts v = Inr ()" "well_formed_graph ss ts"
    "states_and_transitions db4 (ver_id ver) = (ss, ts)"
    "db4 = db2\<lparr>states := states db2 @ ss, st_seq := st_seq db2 + int (length (chain_rows v specs)),
       transitions := transitions db2 @ ts, tr_seq := tr_seq db2 + int (length rows)\<rparr>"
    by (rule fill_and_publish [OF pub fresh])
  have "length es = length rows" using f(2) unfolding rmap_eq_Inr_iff by (rule list_all2_lengthD)
  then have len: "length (chain_rows v specs) = length specs" "length rows = length es"
    by (simp_all add: chain_rows_def)
  have nodef: "find (\<lambda>d. def_code d = code) (definitions db) = None" using new by (simp add: find_None_iff)
  have kept: "row_upd ver_id (ver_seq db + 1) f (versions db) = versions db" for f
    using g unfolding rows_grounded_def version_keys_def row_upd_def by (force intro: map_idI)
  have "author_chain db code name v specs es = publish_version db4 ver"
    unfolding author_chain_def none option.case nodef cd rbind.simps prod.case cv Let_def f(4,5,6) ..
  also have "\<dots> = Inr (last (versions ?out), ?out)"
    unfolding publish_version_def f(8) Let_def prod.case f(7) [folded validate_graph_spec] rbind.simps
    using f(1,2,3) len kept
    by (simp add: f(9) ver_def authored_db_def db2_def db1_def d_def Let_def row_upd_def)
  finally show ?thesis .
qed

lemma empty_grounded [simp]: "rows_grounded (empty_wf_db a)" "definitions (empty_wf_db a) = []"
  by (simp_all add: rows_grounded_def version_keys_def empty_wf_db_def)

lemma chain_authored_ok:
  "ensure_claim_definition (empty_wf_db chain_auth) = Inr (last (versions chain_authored), chain_authored)"
  unfolding ensure_claim_definition_def chain_authored_def by (rule authored_db_ok [OF _ _ claim_publishable]) simp_all

lemma liq_authored_ok:
  "ensure_liquidation_definition (empty_wf_db chain_auth) = Inr (last (versions liq_authored), liq_authored)"
  unfolding ensure_liquidation_definition_def liq_authored_def by (rule authored_db_ok [OF _ _ liquidation_publishable]) simp_all

text \<open>One successful call of the run, by its evaluation.\<close>

lemma run_ok:
  "is_ok (start_instance db code actor org skind sid amount flag now) \<Longrightarrow>
     run_step db (ok_db (start_instance db code actor org skind sid amount flag now))"
  "is_ok (execute_action db iid act who comment key expected now) \<Longrightarrow>
     run_step db (ok_db (execute_action db iid act who comment key expected now))"
  by (auto simp: is_ok_iff intro: run_step.intros)

lemma chain_acts_steps:
  "\<forall>n < length acts. is_ok (case acts ! n of (act, actor, note) \<Rightarrow>
       execute_action (chain_acts (take n acts) db) 1 act actor note None None 100) \<Longrightarrow>
     run_step\<^sup>*\<^sup>* db (chain_acts acts db)"
proof (induction acts rule: rev_induct)
  case (snoc a acts)
  obtain act actor msg where a: "a = (act, actor, msg)" by (cases a)
  have "\<forall>n < length acts. is_ok (case acts ! n of (act, actor, note) \<Rightarrow>
       execute_action (chain_acts (take n acts) db) 1 act actor note None None 100)"
    using snoc.prems by (auto simp: nth_append split: if_splits)
  then have "run_step\<^sup>*\<^sup>* db (chain_acts acts db)" by (rule snoc.IH)
  moreover have "run_step (chain_acts acts db) (chain_acts (acts @ [a]) db)"
    using run_ok(2) snoc.prems [rule_format, of "length acts"] by (simp add: a chain_acts_def)
  ultimately show ?case by (rule rtranclp.rtrancl_into_rtrancl)
qed (simp add: chain_acts_def)

lemma three_approvals_run:
  assumes "\<forall>n \<in> set [0, 1, 2, 3]. is_ok (case three_approvals ! n of (act, actor, note) \<Rightarrow>
    execute_action (chain_acts (take n three_approvals) db) 1 act actor note None None 100)"
  shows "run_step\<^sup>*\<^sup>* db (chain_acts three_approvals db)"
proof (rule chain_acts_steps, intro allI impI)
  fix n :: nat
  assume "n < length three_approvals"
  then have "n \<in> set [0, 1, 2, 3]" by auto
  then show "is_ok (case three_approvals ! n of (act, actor, note) \<Rightarrow>
    execute_action (chain_acts (take n three_approvals) db) 1 act actor note None None 100)" using assms by blast
qed

lemma chain_paid_run: "run_step\<^sup>*\<^sup>* chain_authored chain_paid"
proof (rule converse_rtranclp_into_rtranclp)
  show "run_step chain_authored chain_started" unfolding chain_started_def by (rule run_ok(1)) code_simp
  show "run_step\<^sup>*\<^sup>* chain_started chain_paid" unfolding chain_paid_def by (rule three_approvals_run) code_simp
qed

lemma liq_settled_run: "run_step\<^sup>*\<^sup>* liq_authored liq_settled"
proof (rule converse_rtranclp_into_rtranclp)
  show "run_step liq_authored liq_started" unfolding liq_started_def by (rule run_ok(1)) code_simp
  show "run_step\<^sup>*\<^sup>* liq_started liq_settled" unfolding liq_settled_def by (rule three_approvals_run) code_simp
qed

lemma sample_start:
  "reach engine_init engine_step (empty_wf_db chain_auth)" "rows_grounded (empty_wf_db chain_auth)"
  "get_published_version (empty_wf_db chain_auth) code = None"
  by (rule reach_init)
    (simp_all add: engine_init_def authoring_init_def rows_grounded_def version_keys_def empty_wf_db_def
      get_published_version_def latest_version_def)

section \<open>Properties\<close>

text \<open>
  No claim is paid past a gate: once the claim chain is authored, whatever instances are started,
  acted on and swept, a claim that stands at \<open>paid_closed\<close> has in its log an approval of the
  division, of the admin review and of the hand-over to FMS, and where the gate is segregated the
  approval is not the originator's.
\<close>

theorem paid_claim_was_approved:
  assumes "reach engine_init engine_step db" "rows_grounded db" "get_published_version db DEFINITION_CODE = None"
    "ensure_claim_definition db = Inr (ver, db0)" "run_step\<^sup>*\<^sup>* db0 db'"
    "i \<in> set (instances db')" "in_version i = ver_id ver" "get_state db' (in_state i) = Some s" "st_code s = PAID_CLOSED"
  shows "\<forall>gate \<in> {DIVISION_APPROVAL, ADMIN_REVIEW, HANDED_TO_FMS}.
    \<exists>G \<in> set (states db'). st_version G = ver_id ver \<and> st_code G = gate \<and> approved_at db' i (st_id G)"
proof -
  note passed = chain_gate_passed [OF engine.reach_inv [OF assms(1)] assms(2,3) claim_publishable
      assms(4) [unfolded ensure_claim_definition_def] assms(5-8)]
  show ?thesis
    using passed [OF _ claim_cuts(1)] passed [OF _ claim_cuts(2)] passed [OF _ claim_cuts(3)] assms(9)
    by (simp add: code_defs)
qed

theorem paid_claim_was_approved_witness:
  "\<exists>G \<in> set (states chain_paid). st_code G = ADMIN_REVIEW \<and> approved_at chain_paid (hd (instances chain_paid)) (st_id G)"
proof -
  have "map (\<lambda>i. (in_version i, in_state i)) (instances chain_paid) = [(1, 7)]" by code_simp
  then have i: "hd (instances chain_paid) \<in> set (instances chain_paid)"
    "in_version (hd (instances chain_paid)) = ver_id (last (versions chain_authored))"
    "in_state (hd (instances chain_paid)) = 7"
    by (auto simp: chain_authored_def authored_db_def empty_wf_db_def Let_def)
  have "map_option st_code (get_state chain_paid 7) = Some PAID_CLOSED" by code_simp
  then obtain s where s: "get_state chain_paid (in_state (hd (instances chain_paid))) = Some s" "st_code s = PAID_CLOSED"
    using i(3) by auto
  show ?thesis
    using paid_claim_was_approved [OF sample_start chain_authored_ok chain_paid_run i(1,2) s] by blast
qed

text \<open>
  No liquidation is settled past a certification: a liquidation that stands at \<open>settled\<close> has in its
  log the certifications B and C and the hand-over to FMS, B and C by someone else than the vc_claimant
  who submitted it.
\<close>

theorem settled_liquidation_was_certified:
  assumes "reach engine_init engine_step db" "rows_grounded db"
    "get_published_version db LIQUIDATION_DEFINITION_CODE = None"
    "ensure_liquidation_definition db = Inr (ver, db0)" "run_step\<^sup>*\<^sup>* db0 db'"
    "i \<in> set (instances db')" "in_version i = ver_id ver" "get_state db' (in_state i) = Some s" "st_code s = SETTLED"
  shows "\<forall>gate \<in> {CERTIFY_B, CERTIFY_C, HANDED_TO_FMS}.
    \<exists>G \<in> set (states db'). st_version G = ver_id ver \<and> st_code G = gate \<and> approved_at db' i (st_id G)"
proof -
  note passed = chain_gate_passed [OF engine.reach_inv [OF assms(1)] assms(2,3) liquidation_publishable
      assms(4) [unfolded ensure_liquidation_definition_def] assms(5-8)]
  show ?thesis
    using passed [OF _ liquidation_cuts(1)] passed [OF _ liquidation_cuts(2)] passed [OF _ liquidation_cuts(3)] assms(9)
    by (simp add: code_defs)
qed

theorem settled_liquidation_was_certified_witness:
  "\<exists>G \<in> set (states liq_settled). st_code G = CERTIFY_C \<and> approved_at liq_settled (hd (instances liq_settled)) (st_id G)"
proof -
  have "map (\<lambda>i. (in_version i, in_state i)) (instances liq_settled) = [(1, 6)]" by code_simp
  then have i: "hd (instances liq_settled) \<in> set (instances liq_settled)"
    "in_version (hd (instances liq_settled)) = ver_id (last (versions liq_authored))"
    "in_state (hd (instances liq_settled)) = 6"
    by (auto simp: liq_authored_def authored_db_def empty_wf_db_def Let_def)
  have "map_option st_code (get_state liq_settled 6) = Some SETTLED" by code_simp
  then obtain s where s: "get_state liq_settled (in_state (hd (instances liq_settled))) = Some s" "st_code s = SETTLED"
    using i(3) by auto
  show ?thesis
    using settled_liquidation_was_certified [OF sample_start liq_authored_ok liq_settled_run i(1,2) s] by blast
qed

text \<open>
  C38. Seeding is total and idempotent: on a database whose foreign keys hold, both chains end up
  published, every known claim kind has a chain to run on, and a second seeding returns the same
  versions and changes nothing.
\<close>

theorem ensure_definitions_idempotent:
  assumes "rows_grounded db"
  shows "\<exists>ids db'. ensure_definitions db = Inr (ids, db') \<and>
    (\<forall>(kind, v) \<in> set VOCABULARIES. \<exists>code ver. definition_code (Some kind) = Inr code \<and>
       get_published_version db' code = Some ver \<and> (code, ver_id ver) \<in> set ids) \<and>
    ensure_definitions db' = Inr (ids, db')"
proof -
  obtain c db1 where c: "ensure_claim_definition db = Inr (c, db1)" "get_published_version db1 DEFINITION_CODE = Some c"
    "rows_grounded db1"
    unfolding ensure_claim_definition_def by (rule author_chain_total [OF assms claim_publishable])
  obtain l db2 where l: "ensure_liquidation_definition db1 = Inr (l, db2)"
    "get_published_version db2 LIQUIDATION_DEFINITION_CODE = Some l" "rows_grounded db2"
    "\<forall>other. other \<noteq> LIQUIDATION_DEFINITION_CODE \<longrightarrow> get_published_version db2 other = get_published_version db1 other"
    unfolding ensure_liquidation_definition_def
    by (rule author_chain_total [OF c(3) liquidation_publishable,
          where code = LIQUIDATION_DEFINITION_CODE and name = "''Local Travel Reimbursement '' @ em_dash @ '' liquidation''"])
  have keep: "get_published_version db2 DEFINITION_CODE = Some c"
    using l(4) c(2) by (simp add: DEFINITION_CODE_def LIQUIDATION_DEFINITION_CODE_def)
  have "ensure_claim_definition db2 = Inr (c, db2)" "ensure_liquidation_definition db2 = Inr (l, db2)"
    using keep l(2) by (simp_all add: ensure_claim_definition_def ensure_liquidation_definition_def author_chain_def)
  moreover have "definition_code (Some REIMBURSEMENT_KIND) = Inr DEFINITION_CODE"
    "definition_code (Some LIQUIDATION_KIND) = Inr LIQUIDATION_DEFINITION_CODE"
    by (simp_all add: definition_code_def DEFINITION_CODES_def code_defs)
  ultimately show ?thesis
    using c(1) l(1,2) keep by (auto simp: ensure_definitions_def VOCABULARIES_def)
qed

theorem ensure_definitions_idempotent_witness:
  "\<exists>ids db'. ensure_definitions (empty_wf_db chain_auth) = Inr (ids, db') \<and> ensure_definitions db' = Inr (ids, db')"
  using ensure_definitions_idempotent [OF sample_start(2)] by blast

end
