(* ===== verification/Money.thy ===== *)
theory Money
  imports OC_Prelude
begin

text \<open>
  Money, \<open>src/office_connect/core/money.py\<close>, and the part of Python's \<open>decimal\<close> the modelled code
  uses. A finite \<open>Decimal\<close> is a signed coefficient and an exponent, \<open>Fin c e\<close> for \<open>c * 10 ^ e\<close>; the
  sign of zero is not kept; \<open>NaN True\<close> is the signalling one. An amount of a \<open>numeric(12, 2)\<close> column is an \<open>int\<close> of centavos. The
  28-digit context precision is never reached by such amounts, so the arithmetic is exact.
\<close>

section \<open>Decimals\<close>

datatype decimal = Fin int int | Infinity bool | NaN bool

definition digit_val :: "char \<Rightarrow> nat option" where
  "digit_val c = (let n = of_char c :: nat in if 48 \<le> n \<and> n \<le> 57 then Some (n - 48) else None)"

definition is_digit :: "char \<Rightarrow> bool" where
  "is_digit c \<longleftrightarrow> digit_val c \<noteq> None"

definition digits_val :: "string \<Rightarrow> nat" where
  "digits_val s = fold (\<lambda>c n. 10 * n + the (digit_val c)) s 0"

definition is_space :: "char \<Rightarrow> bool" where
  "is_space c \<longleftrightarrow> (of_char c :: nat) \<in> {9, 10, 11, 12, 13, 28, 29, 30, 31, 32}"

definition strip :: "string \<Rightarrow> string" where
  "strip s = rev (dropWhile is_space (rev (dropWhile is_space s)))"

definition lower :: "string \<Rightarrow> string" where
  "lower = map (\<lambda>c. let n = of_char c :: nat in if 65 \<le> n \<and> n \<le> 90 then char_of (n + 32) else c)"

fun take_sign :: "string \<Rightarrow> bool \<times> string" where
  "take_sign (c # s) = (if c = CHR ''-'' then (True, s) else if c = CHR ''+'' then (False, s) else (False, c # s))"
| "take_sign [] = (False, [])"

fun parse_exponent :: "string \<Rightarrow> int option" where
  "parse_exponent [] = Some 0"
| "parse_exponent (c # s) =
     (if c = CHR ''e'' \<or> c = CHR ''E'' then
        (let (neg, ds) = take_sign s in
         if ds \<noteq> [] \<and> list_all is_digit ds
         then Some (if neg then - int (digits_val ds) else int (digits_val ds)) else None)
      else None)"

definition signed :: "bool \<Rightarrow> nat \<Rightarrow> int" where
  "signed neg n = (if neg then - int n else int n)"

definition parse_number :: "bool \<Rightarrow> string \<Rightarrow> decimal option" where
  "parse_number neg body =
     (let ip = takeWhile is_digit body; r = dropWhile is_digit body;
          (fp, r2) = (case r of
             c # r' \<Rightarrow> if c = CHR ''.'' then (takeWhile is_digit r', dropWhile is_digit r') else ([], r)
           | [] \<Rightarrow> ([], r))
      in if ip = [] \<and> fp = [] then None
         else map_option (\<lambda>e. Fin (signed neg (digits_val (ip @ fp))) (e - int (length fp)))
                (parse_exponent r2))"

text \<open>The string constructor \<open>Decimal(s)\<close>, \<open>None\<close> where it raises \<open>InvalidOperation\<close>.\<close>

definition parse_decimal :: "string \<Rightarrow> decimal option" where
  "parse_decimal s =
     (let (neg, body) = take_sign (filter (\<lambda>c. c \<noteq> CHR ''_'') (strip s)); l = lower body in
      if l = ''inf'' \<or> l = ''infinity'' then Some (Infinity neg)
      else if take 3 l = ''nan'' \<and> list_all is_digit (drop 3 l) then Some (NaN False)
      else if take 4 l = ''snan'' \<and> list_all is_digit (drop 4 l) then Some (NaN True)
      else parse_number neg body)"

section \<open>Comparison and addition\<close>

fun is_nan :: "decimal \<Rightarrow> bool" where
  "is_nan (NaN s) = True"
| "is_nan _ = False"

text \<open>The order on the numbers that are no \<open>NaN\<close>, on coefficients of a common exponent.\<close>

fun dec_less :: "decimal \<Rightarrow> decimal \<Rightarrow> bool" where
  "dec_less (Fin c e) (Fin c' e') =
     (c * 10 ^ nat (e - min e e') < c' * 10 ^ nat (e' - min e e'))"
| "dec_less (Infinity n) (Infinity n') = (n \<and> \<not> n')"
| "dec_less (Infinity n) d = n"
| "dec_less d (Infinity n) = (\<not> n)"
| "dec_less _ _ = False"

text \<open>\<open>a < b\<close> raises on any \<open>NaN\<close>, \<open>a == b\<close> only on a signalling one.\<close>

definition dec_lt :: "decimal \<Rightarrow> decimal \<Rightarrow> bool res" where
  "dec_lt a b = (if is_nan a \<or> is_nan b then Inl InvalidOperation else Inr (dec_less a b))"

definition dec_eq :: "decimal \<Rightarrow> decimal \<Rightarrow> bool res" where
  "dec_eq a b =
     (if a = NaN True \<or> b = NaN True then Inl InvalidOperation
      else Inr (\<not> is_nan a \<and> \<not> is_nan b \<and> \<not> dec_less a b \<and> \<not> dec_less b a))"

fun dec_add :: "decimal \<Rightarrow> decimal \<Rightarrow> decimal res" where
  "dec_add (NaN s) d = (if s \<or> d = NaN True then Inl InvalidOperation else Inr (NaN False))"
| "dec_add d (NaN s) = (if s then Inl InvalidOperation else Inr (NaN False))"
| "dec_add (Infinity n) (Infinity n') = (if n = n' then Inr (Infinity n) else Inl InvalidOperation)"
| "dec_add (Infinity n) d = Inr (Infinity n)"
| "dec_add d (Infinity n) = Inr (Infinity n)"
| "dec_add (Fin c e) (Fin c' e') =
     Inr (Fin (c * 10 ^ nat (e - min e e') + c' * 10 ^ nat (e' - min e e')) (min e e'))"

fun dec_neg :: "decimal \<Rightarrow> decimal" where
  "dec_neg (Fin c e) = Fin (- c) e"
| "dec_neg (Infinity n) = Infinity (\<not> n)"
| "dec_neg (NaN s) = NaN s"

fun dec_abs :: "decimal \<Rightarrow> decimal" where
  "dec_abs (Fin c e) = Fin \<bar>c\<bar> e"
| "dec_abs (Infinity n) = Infinity False"
| "dec_abs (NaN s) = NaN s"

fun dec_sum :: "decimal \<Rightarrow> decimal list \<Rightarrow> decimal res" where
  "dec_sum acc [] = Inr acc"
| "dec_sum acc (d # ds) = rbind (dec_add acc d) (\<lambda>s. dec_sum s ds)"

section \<open>Rounding and printing\<close>

definition div_half_up :: "int \<Rightarrow> int \<Rightarrow> int" where
  "div_half_up n d = sgn n * ((2 * \<bar>n\<bar> + d) div (2 * d))"

text \<open>\<open>to_money\<close> of a finite decimal, in centavos.\<close>

fun to_money :: "decimal \<Rightarrow> int res" where
  "to_money (Fin c e) =
     Inr (if e \<ge> -2 then c * 10 ^ nat (e + 2) else div_half_up c (10 ^ nat (-2 - e)))"
| "to_money (Infinity neg) = Inl InvalidOperation"
| "to_money (NaN s) = Inl InvalidOperation"

fun nat_digits :: "nat \<Rightarrow> string" where
  "nat_digits n = (if n < 10 then [char_of (48 + n)] else nat_digits (n div 10) @ [char_of (48 + n mod 10)])"

declare nat_digits.simps [simp del]

definition money_str :: "int \<Rightarrow> string" where
  "money_str c =
     (let n = nat \<bar>c\<bar> in
      (if c < 0 then ''-'' else []) @ nat_digits (n div 100) @ ''.'' @
      [char_of (48 + (n mod 100) div 10), char_of (48 + n mod 10)])"

section \<open>Lemmas\<close>

text \<open>The rules by which the simplifier parses a literal.\<close>

lemmas parse_defs = parse_decimal_def parse_number_def strip_def is_space_def is_digit_def digit_val_def
  lower_def digits_val_def signed_def Let_def

lemma digit_val_char [simp]: "n < 10 \<Longrightarrow> digit_val (char_of (48 + n :: nat)) = Some n"
  by (simp add: digit_val_def Let_def)

lemma is_digit_char [simp]: "n < 10 \<Longrightarrow> is_digit (char_of (48 + n :: nat))"
  by (simp add: is_digit_def)

lemma digits_val_snoc: "digits_val (s @ [c]) = 10 * digits_val s + the (digit_val c)"
  by (simp add: digits_val_def)

lemma nat_digits_val: "digits_val (nat_digits n) = n"
proof (induction n rule: nat_digits.induct)
  case (1 n)
  show ?case
  proof (cases "n < 10")
    case True
    then show ?thesis by (simp add: nat_digits.simps digits_val_def)
  next
    case False
    then show ?thesis using 1 by (subst nat_digits.simps) (simp add: digits_val_snoc)
  qed
qed

lemma nat_digits_all: "list_all is_digit (nat_digits n)"
proof (induction n rule: nat_digits.induct)
  case (1 n)
  then show ?case by (subst nat_digits.simps) simp
qed

lemma nat_digits_nonempty [simp]: "nat_digits n \<noteq> []"
  by (subst nat_digits.simps) simp

lemma span_digits:
  assumes "list_all is_digit ds" "\<not> is_digit c"
  shows "takeWhile is_digit (ds @ c # r) = ds" "dropWhile is_digit (ds @ c # r) = c # r"
  using assms by (induction ds) auto

lemma all_digits_span:
  assumes "list_all is_digit ds"
  shows "takeWhile is_digit ds = ds" "dropWhile is_digit ds = []"
  using assms by (induction ds) auto

text \<open>Rounding half up moves a value by at most half a unit, and leaves whole values alone.\<close>

lemma div_half_up_exact: "d > 0 \<Longrightarrow> div_half_up (k * d) d = k"
proof -
  assume d: "d > 0"
  have "(2 * (\<bar>k\<bar> * d) + d) div (2 * d) = \<bar>k\<bar>"
    using d by (intro int_div_pos_eq [where r = d]) (auto simp: algebra_simps)
  then show ?thesis using d by (simp add: div_half_up_def abs_mult sgn_mult sgn_mult_abs)
qed

lemma half_up_nonneg:
  fixes n d :: int
  assumes "d > 0" "n \<ge> 0"
  shows "2 * n - d < 2 * ((2 * n + d) div (2 * d)) * d" "2 * ((2 * n + d) div (2 * d)) * d \<le> 2 * n + d"
proof -
  have "(2 * n + d) div (2 * d) * (2 * d) + (2 * n + d) mod (2 * d) = 2 * n + d" by (rule div_mult_mod_eq)
  moreover have "0 \<le> (2 * n + d) mod (2 * d)" "(2 * n + d) mod (2 * d) < 2 * d" using assms by simp_all
  ultimately show "2 * n - d < 2 * ((2 * n + d) div (2 * d)) * d" "2 * ((2 * n + d) div (2 * d)) * d \<le> 2 * n + d"
    by (simp_all add: algebra_simps)
qed

lemma div_half_up_nearest: "d > 0 \<Longrightarrow> 2 * \<bar>div_half_up n d * d - n\<bar> \<le> d"
  using half_up_nonneg [of d "\<bar>n\<bar>"] by (auto simp: div_half_up_def sgn_if abs_if algebra_simps split: if_splits)

lemma div_half_up_mono_nonneg: "d > 0 \<Longrightarrow> 0 \<le> n \<Longrightarrow> 0 \<le> div_half_up n d"
  by (simp add: div_half_up_def sgn_if pos_imp_zdiv_nonneg_iff)

lemma strip_id:
  assumes "s \<noteq> []" "\<not> is_space (hd s)" "\<not> is_space (last s)"
  shows "strip s = s"
proof -
  have "dropWhile is_space s = s" using assms(1,2) by (cases s) auto
  moreover have "dropWhile is_space (rev s) = rev s"
    using assms(1,3) by (cases "rev s") (auto simp: hd_rev [symmetric])
  ultimately show ?thesis by (simp add: strip_def)
qed

lemma digit_plain:
  assumes "is_digit x"
  shows "\<not> is_space x" "x \<noteq> CHR ''_''" "x \<noteq> CHR ''-''" "x \<noteq> CHR ''+''" "x \<noteq> CHR ''.''"
    "lower [x] = [x]" "x \<notin> {CHR ''i'', CHR ''n'', CHR ''s''}"
  using assms by (auto simp: is_digit_def digit_val_def is_space_def lower_def Let_def split: if_splits)

lemma lower_Cons: "lower (c # s) = lower [c] @ lower s"
  by (simp add: lower_def)

text \<open>Parsing digits, a point and digits.\<close>

lemma parse_plain_number:
  assumes "list_all is_digit ip" "list_all is_digit fp" "ip \<noteq> []"
  shows "parse_number neg (ip @ ''.'' @ fp) = Some (Fin (signed neg (digits_val (ip @ fp))) (- int (length fp)))"
proof -
  have "\<not> is_digit CHR ''.''" by (simp add: is_digit_def digit_val_def)
  with assms show ?thesis
    by (simp add: parse_number_def span_digits all_digits_span)
qed

lemma parse_plain_decimal:
  assumes "list_all is_digit ip" "list_all is_digit fp" "ip \<noteq> []" "fp \<noteq> []"
  shows "parse_decimal ((if neg then ''-'' else []) @ ip @ ''.'' @ fp) =
    Some (Fin (signed neg (digits_val (ip @ fp))) (- int (length fp)))"
proof -
  let ?s = "(if neg then ''-'' else []) @ ip @ ''.'' @ fp"
  obtain a as where ip: "ip = a # as" "is_digit a" using assms by (cases ip) auto
  note a = digit_plain [OF ip(2)]
  have "is_digit (last fp)" using assms(2,4) by (auto simp: list_all_iff)
  then have "strip ?s = ?s"
    using a assms(4) digit_plain(1) [of "last fp"] by (intro strip_id) (auto simp: ip is_space_def)
  moreover have "\<forall>x \<in> set ?s. x \<noteq> CHR ''_''"
    using assms(1,2) digit_plain(2) by (auto simp: list_all_iff)
  then have "filter (\<lambda>c. c \<noteq> CHR ''_'') ?s = ?s" by (rule filter_True)
  moreover have "take_sign ?s = (neg, ip @ ''.'' @ fp)" using a by (simp add: ip)
  moreover have "lower (ip @ ''.'' @ fp) = a # lower (as @ ''.'' @ fp)"
    unfolding ip append_Cons using a(6) by (subst lower_Cons) simp
  ultimately show ?thesis
    using a parse_plain_number [OF assms(1-3), of neg] by (simp add: parse_decimal_def Let_def)
qed

lemma two_digit_split: "10 * (10 * (n div 100) + (n mod 100) div 10) + n mod 10 = n" for n :: nat
proof -
  have "n mod (10 * 10) = 10 * (n div 10 mod 10) + n mod 10" by (rule mod_mult2_eq)
  then have "(n mod 100) div 10 = n div 10 mod 10" by simp
  moreover have "n div 100 = n div 10 div 10" using div_mult2_eq [of n 10 10] by simp
  ultimately have "10 * (n div 100) + (n mod 100) div 10 = n div 10" by simp
  then show ?thesis by simp
qed

lemma money_str_decimal: "parse_decimal (money_str c) = Some (Fin c (-2))"
proof -
  define n where "n = nat \<bar>c\<bar>"
  define ip where "ip = nat_digits (n div 100)"
  define fp :: string where "fp = [char_of (48 + (n mod 100) div 10), char_of (48 + n mod 10)]"
  have body: "money_str c = (if c < 0 then ''-'' else []) @ ip @ ''.'' @ fp"
    by (simp add: money_str_def n_def ip_def fp_def Let_def)
  have dig: "list_all is_digit ip" "list_all is_digit fp" "ip \<noteq> []" "fp \<noteq> []"
    by (simp_all add: ip_def fp_def nat_digits_all)
  have "digits_val (ip @ fp) = 10 * (10 * (n div 100) + (n mod 100) div 10) + n mod 10"
    using nat_digits_val [of "n div 100"] by (simp add: ip_def fp_def digits_val_def)
  also have "\<dots> = n" by (rule two_digit_split)
  finally have "signed (c < 0) (digits_val (ip @ fp)) = c" by (simp add: signed_def n_def)
  moreover have "length fp = 2" by (simp add: fp_def)
  ultimately show ?thesis using parse_plain_decimal [OF dig, of "c < 0"] by (simp add: body)
qed


section \<open>Properties\<close>

text \<open>
  Rounding is to the nearest centavo with ties away from zero: the result is within half a
  centavo of the value, at a tie it is the larger in magnitude, and a value that already is a
  whole number of centavos is unchanged.
\<close>

theorem to_money_nearest:
  assumes "to_money (Fin c e) = Inr m" "e < -2"
  shows "2 * \<bar>m * 10 ^ nat (-2 - e) - c\<bar> \<le> 10 ^ nat (-2 - e) \<and>
    (2 * \<bar>m * 10 ^ nat (-2 - e) - c\<bar> = 10 ^ nat (-2 - e) \<longrightarrow> \<bar>m * 10 ^ nat (-2 - e)\<bar> > \<bar>c\<bar>) \<and>
    (\<forall>k. c = k * 10 ^ nat (-2 - e) \<longrightarrow> m = k)"
proof -
  define d :: int where "d = 10 ^ nat (-2 - e)"
  have d: "d > 0" by (simp add: d_def)
  have m: "m = div_half_up c d" using assms by (simp add: d_def)
  have "2 * \<bar>m * d - c\<bar> = d \<longrightarrow> \<bar>m * d\<bar> > \<bar>c\<bar>"
    using half_up_nonneg [OF d, of "\<bar>c\<bar>"] d unfolding m
    by (auto simp: div_half_up_def sgn_if abs_if algebra_simps split: if_splits)
  then show ?thesis using div_half_up_nearest [OF d] div_half_up_exact [OF d] m unfolding d_def by blast
qed

theorem to_money_nearest_witness:
  "to_money (Fin 12345 (-3)) = Inr 1235 \<and> to_money (Fin (-12345) (-3)) = Inr (-1235)"
proof -
  have m: "to_money (Fin 12345 (-3)) = Inr 1235" "to_money (Fin (-12345) (-3)) = Inr (-1235)"
    by (simp_all add: div_half_up_def)
  from to_money_nearest [OF m(1)] have "2 * \<bar>(1235::int) * 10 - 12345\<bar> \<le> 10" by simp
  with m show ?thesis by simp
qed

text \<open>
  The JSON form of an amount is lossless: parsing what \<open>money_str\<close> prints and rounding it to
  centavos gives the amount back, negative amounts included.
\<close>

theorem money_str_roundtrip:
  "\<exists>d. parse_decimal (money_str c) = Some d \<and> to_money d = Inr c"
  by (simp add: money_str_decimal)

end
