(* ===== verification/Json_Values.thy ===== *)
theory Json_Values
  imports Money
begin

text \<open>
  JSONB values as the Python driver decodes them, and the conversions the modelled code applies to
  them. A JSON number without fraction or exponent is a Python \<open>int\<close>; any other is a \<open>float\<close>, kept
  as the decimal its \<open>repr\<close> prints. A dict is an association list in insertion order.
\<close>

datatype json =
    JNull
  | JBool bool
  | JInt int
  | JFloat int int
  | JStr string
  | JList "json list"
  | JObj "(string \<times> json) list"

text \<open>\<open>value.get(k)\<close>; \<open>None\<close> also where the value is no dict, for callers that test that first.\<close>

fun obj_get :: "json \<Rightarrow> string \<Rightarrow> json option" where
  "obj_get (JObj kvs) k = map_of kvs k"
| "obj_get _ k = None"

fun is_obj :: "json \<Rightarrow> bool" where
  "is_obj (JObj kvs) = True"
| "is_obj _ = False"

text \<open>Lists and dicts cannot be members of a \<open>frozenset\<close>: \<open>in\<close> raises \<open>TypeError\<close> on them.\<close>

fun hashable :: "json \<Rightarrow> bool" where
  "hashable (JList xs) = False"
| "hashable (JObj kvs) = False"
| "hashable _ = True"

text \<open>
  The integer grammar of \<open>int(s)\<close>: whitespace around, a sign, digits with single underscores
  between them.
\<close>

fun us_digits :: "bool \<Rightarrow> string \<Rightarrow> bool" where
  "us_digits p [] = p"
| "us_digits p (c # s) =
     (if is_digit c then us_digits True s else if c = CHR ''_'' \<and> p then us_digits False s else False)"

definition parse_int :: "string \<Rightarrow> int option" where
  "parse_int s =
     (let (neg, body) = take_sign (strip s) in
      if us_digits False body then Some (signed neg (digits_val (filter is_digit body))) else None)"

definition trunc :: "int \<Rightarrow> int \<Rightarrow> int" where
  "trunc c e = (if e \<ge> 0 then c * 10 ^ nat e else sgn c * (\<bar>c\<bar> div 10 ^ nat (- e)))"

text \<open>\<open>int(v)\<close>, \<open>None\<close> where it raises \<open>TypeError\<close> or \<open>ValueError\<close>.\<close>

fun py_int :: "json \<Rightarrow> int option" where
  "py_int (JInt n) = Some n"
| "py_int (JBool b) = Some (if b then 1 else 0)"
| "py_int (JFloat c e) = Some (trunc c e)"
| "py_int (JStr s) = parse_int s"
| "py_int _ = None"

text \<open>
  \<open>int(value[k])\<close> inside a handler of \<open>KeyError\<close>, \<open>TypeError\<close> and \<open>ValueError\<close>: \<open>None\<close> where the
  handler runs, which includes a \<open>value\<close> that is no dict.
\<close>

definition int_field :: "json \<Rightarrow> string \<Rightarrow> int option" where
  "int_field v k = (case obj_get v k of None \<Rightarrow> None | Some x \<Rightarrow> py_int x)"

text \<open>Python truth of a value.\<close>

fun json_truthy :: "json \<Rightarrow> bool" where
  "json_truthy JNull = False"
| "json_truthy (JBool b) = b"
| "json_truthy (JInt n) = (n \<noteq> 0)"
| "json_truthy (JFloat c e) = (c \<noteq> 0)"
| "json_truthy (JStr s) = (s \<noteq> [])"
| "json_truthy (JList xs) = (xs \<noteq> [])"
| "json_truthy (JObj kvs) = (kvs \<noteq> [])"

lemma int_field_obj [simp]: "int_field (JObj kvs) k = Option.bind (map_of kvs k) py_int"
  by (simp add: int_field_def split: option.splits)

lemma int_field_non_obj: "\<not> is_obj v \<Longrightarrow> int_field v k = None"
  by (cases v) (simp_all add: int_field_def)

end
