(* ===== verification/Reimb_Model.thy ===== *)
theory Reimb_Model
  imports Json_Values Workflow_Model Workdays
begin

text \<open>
  Tables of the reimbursement module, \<open>src/office_connect/modules/reimbursement/models/\<close>: claims,
  itinerary legs, cash advances, the effective-dated configuration, the checklist with its evidence,
  and the append-only histories, as records in a database;
  and the errors of \<open>services/errors.py\<close>, by status and code. Dates are ordinals, amounts
  centavos, instants microseconds from 0001-01-01 UTC; Manila is eight hours ahead.
\<close>

section \<open>Configuration rows\<close>

record config_row =
  cf_key :: string
  cf_value :: json
  cf_from :: date
  cf_tenant :: "int option"
  cf_active :: bool

record rate_row =
  rt_cluster :: string
  rt_daily :: int
  rt_from :: date
  rt_active :: bool

record region_row =
  rg_code :: string
  rg_cluster :: string
  rg_from :: date
  rg_active :: bool

section \<open>Claims, legs, advances\<close>

datatype ca_status = CaOpen | CaLiquidationStarted | CaSettled | CaOverdue

record cash_advance =
  ca_id :: int
  ca_claimant :: int
  ca_dv_no :: "string option"
  ca_dv_date :: "date option"
  ca_amount :: int
  ca_dpo_no :: "string option"
  ca_date_return :: "date option"
  ca_deadline :: "date option"
  ca_basis :: "string option"
  ca_st :: ca_status
  ca_settled_at :: "instant option"
  ca_settled_by :: "int option"
  ca_mode :: "string option"
  ca_refund_or_no :: "string option"
  ca_refund_or_date :: "date option"
  ca_refund_amount :: "int option"

record claim =
  cl_id :: int
  cl_ref_no :: "string option"
  cl_kind :: string
  cl_claimant :: int
  cl_activity :: "int option"
  cl_instance :: "int option"
  cl_dpo_no :: "string option"
  cl_dpo_date :: "date option"
  cl_dpo_document :: "int option"
  cl_purpose :: "string option"
  cl_destination :: "string option"
  cl_region :: "string option"
  cl_date_depart :: "date option"
  cl_date_return :: "date option"
  cl_within_50km :: bool
  cl_overnight :: bool
  cl_fund_source :: "string option"
  cl_jo_cos :: bool
  cl_cash_advance :: "int option"
  cl_spawned_from :: "int option"
  cl_other_total :: int
  cl_payout_ref :: "string option"
  cl_paid_on :: "date option"
  cl_paid_by :: "int option"
  cl_status :: "string option"
  cl_holder_kind :: "string option"
  cl_holder :: "int option"
  cl_holder_since :: "instant option"
  cl_next_action :: "string option"
  cl_liq_deadline :: "date option"
  cl_totals :: json

record leg =
  lg_id :: int
  lg_claim :: int
  lg_seq :: int
  lg_date :: "date option"
  lg_place :: "string option"
  lg_region :: "string option"
  lg_depart :: "string option"
  lg_arrive :: "string option"
  lg_mode :: "string option"
  lg_fare :: "int option"
  lg_lodging :: bool
  lg_meals :: bool
  lg_pct :: "int option"
  lg_amount :: "int option"
  lg_total :: "int option"

section \<open>Checklist, evidence and histories\<close>

text \<open>
  The checklist items include the dormant, soft-deleted ones, with the instant they were put away;
  every other table holds its live rows. \<open>core_staff\<close> rows carry what the module reads.
\<close>

record catalog_row =
  ct_id :: int
  ct_kind :: "string option"
  ct_code :: string
  ct_label :: string
  ct_group :: string
  ct_rule :: json
  ct_checks :: json
  ct_evidence :: string
  ct_circular :: "string option"
  ct_sort :: int
  ct_active :: bool

record item_row =
  it_id :: int
  it_claim :: int
  it_catalog :: int
  it_status :: string
  it_circular :: "string option"
  it_attachments :: "int list"
  it_waiver :: "string option"
  it_deleted :: "instant option"

record claim_attachment =
  ja_id :: int
  ja_claim :: int
  ja_attachment :: int
  ja_item :: "int option"

record status_history =
  hs_claim :: int
  hs_from :: "string option"
  hs_to :: string
  hs_actor :: "int option"
  hs_note :: "string option"

record return_reason =
  rr_id :: int
  rr_active :: bool

record return_event =
  re_claim :: int
  re_step :: "int option"
  re_reasons :: "int list"
  re_comment :: "string option"
  re_returned_to :: string

record external_event =
  xe_id :: int
  xe_claim :: int
  xe_status :: string
  xe_noted_by :: "string option"
  xe_note :: "string option"
  xe_date :: "date option"
  xe_created_by :: "int option"

record staff =
  sf_id :: int
  sf_section :: "int option"
  sf_division :: "int option"
  sf_employment :: "string option"
  sf_email :: "string option"
  sf_deleted :: bool

record reimb_db =
  claims :: "claim list"
  legs :: "leg list"
  advances :: "cash_advance list"
  configs :: "config_row list"
  rates :: "rate_row list"
  regions :: "region_row list"
  holidays :: "holiday list"
  catalog :: "catalog_row list"
  items :: "item_row list"
  joins :: "claim_attachment list"
  histories :: "status_history list"
  return_reasons :: "return_reason list"
  return_events :: "return_event list"
  external_events :: "external_event list"
  staffs :: "staff list"
  activities :: "int list"
  cl_seq :: int
  lg_seq_id :: int
  ca_seq :: int
  it_seq :: int
  ja_seq :: int
  xe_seq :: int

abbreviation get_claim :: "reimb_db \<Rightarrow> int \<Rightarrow> claim option" where
  "get_claim db \<equiv> row_get cl_id (claims db)"

abbreviation get_staff :: "reimb_db \<Rightarrow> int \<Rightarrow> staff option" where
  "get_staff db \<equiv> row_get sf_id (staffs db)"

abbreviation find_advance :: "reimb_db \<Rightarrow> int \<Rightarrow> cash_advance option" where
  "find_advance db \<equiv> row_get ca_id (advances db)"

text \<open>\<open>to_manila(now).date()\<close>.\<close>

definition manila_date :: "instant \<Rightarrow> date" where
  "manila_date now = (now + 8 * 3600000000) div 86400000000 + 1"

section \<open>Errors\<close>

definition no_computable_days :: exn where
  "no_computable_days = APIError 422 ''reimb_no_computable_days''"

definition leg_date_required :: exn where
  "leg_date_required = APIError 422 ''reimb_leg_date_required''"

definition leg_outside_trip_dates :: exn where
  "leg_outside_trip_dates = APIError 422 ''reimb_leg_outside_trip_dates''"

definition missing_region_cluster :: exn where
  "missing_region_cluster = APIError 422 ''reimb_missing_region_cluster''"

definition missing_dte_rate :: exn where
  "missing_dte_rate = APIError 422 ''reimb_missing_dte_rate''"

definition config_missing :: exn where
  "config_missing = APIError 422 ''reimb_config_missing''"

definition config_invalid :: exn where
  "config_invalid = APIError 422 ''reimb_config_invalid''"

definition gov_vehicle_fare :: exn where
  "gov_vehicle_fare = APIError 422 ''reimb_gov_vehicle_fare''"

definition claim_not_found :: exn where
  "claim_not_found = APIError 404 ''reimb_claim_not_found''"

definition cash_advance_not_found :: exn where
  "cash_advance_not_found = APIError 404 ''reimb_cash_advance_not_found''"

definition cash_advance_unliquidated :: exn where
  "cash_advance_unliquidated = APIError 409 ''reimb_cash_advance_unliquidated''"

definition cash_advance_settled :: exn where
  "cash_advance_settled = APIError 409 ''reimb_cash_advance_settled''"

definition cash_advance_amount_invalid :: exn where
  "cash_advance_amount_invalid = APIError 422 ''reimb_cash_advance_amount_invalid''"

definition cash_advance_dates_invalid :: exn where
  "cash_advance_dates_invalid = APIError 422 ''reimb_cash_advance_dates_invalid''"

definition claim_already_submitted :: exn where
  "claim_already_submitted = APIError 409 ''reimb_claim_already_submitted''"

definition claim_not_reimbursement :: exn where
  "claim_not_reimbursement = APIError 422 ''reimb_claim_not_reimbursement''"

definition claimant_no_org_unit :: exn where
  "claimant_no_org_unit = APIError 422 ''reimb_claimant_no_org_unit''"

definition no_eligible_holder :: exn where
  "no_eligible_holder = APIError 422 ''reimb_no_eligible_holder''"

definition not_claim_owner :: exn where
  "not_claim_owner = APIError 403 ''reimb_not_claim_owner''"

definition claim_not_in_workflow :: exn where
  "claim_not_in_workflow = APIError 409 ''reimb_claim_not_in_workflow''"

definition return_reason_required :: exn where
  "return_reason_required = APIError 422 ''reimb_return_reason_required''"

definition unknown_return_reason :: exn where
  "unknown_return_reason = APIError 422 ''reimb_unknown_return_reason''"

definition unsupported_claim_action :: exn where
  "unsupported_claim_action = APIError 422 ''reimb_unsupported_claim_action''"

definition packet_incomplete :: exn where
  "packet_incomplete = APIError 422 ''reimb_packet_incomplete''"

definition unknown_catalog_item :: exn where
  "unknown_catalog_item = APIError 422 ''reimb_unknown_catalog_item''"

definition evidence_not_uploadable :: exn where
  "evidence_not_uploadable = APIError 422 ''reimb_evidence_not_uploadable''"

definition evidence_not_on_item :: exn where
  "evidence_not_on_item = APIError 422 ''reimb_evidence_not_on_item''"

definition totals_missing :: exn where
  "totals_missing = APIError 422 ''reimb_totals_missing''"

definition unknown_catalog_code :: exn where
  "unknown_catalog_code = APIError 422 ''reimb_unknown_catalog_code''"

definition document_not_generatable :: exn where
  "document_not_generatable = APIError 422 ''reimb_document_not_generatable''"

definition no_staff_link :: exn where
  "no_staff_link = APIError 422 ''reimb_no_staff_link''"

definition claim_not_editable :: exn where
  "claim_not_editable = APIError 409 ''reimb_claim_not_editable''"

definition leg_unknown :: exn where
  "leg_unknown = APIError 422 ''reimb_leg_unknown''"

definition unknown_activity :: exn where
  "unknown_activity = APIError 422 ''reimb_unknown_activity''"

definition invalid_trip_dates :: exn where
  "invalid_trip_dates = APIError 422 ''reimb_invalid_trip_dates''"

definition claim_cancelled :: exn where
  "claim_cancelled = APIError 409 ''reimb_claim_cancelled''"

definition liquidation_exists :: exn where
  "liquidation_exists = APIError 409 ''reimb_liquidation_exists''"

definition cash_advance_already_settled_for_liquidation :: exn where
  "cash_advance_already_settled_for_liquidation = APIError 409 ''reimb_cash_advance_settled''"

definition not_advance_holder :: exn where
  "not_advance_holder = APIError 403 ''reimb_not_advance_holder''"

definition settlement_required :: exn where
  "settlement_required = APIError 409 ''reimb_settlement_required''"

definition liquidation_without_advance :: exn where
  "liquidation_without_advance = APIError 409 ''reimb_liquidation_without_advance''"

definition not_a_liquidation :: exn where
  "not_a_liquidation = APIError 422 ''reimb_not_a_liquidation''"

definition settlement_wrong_state :: exn where
  "settlement_wrong_state = APIError 409 ''reimb_settlement_wrong_state''"

definition settlement_already_recorded :: exn where
  "settlement_already_recorded = APIError 409 ''reimb_settlement_already_recorded''"

definition settlement_totals_missing :: exn where
  "settlement_totals_missing = APIError 422 ''reimb_settlement_totals_missing''"

definition refund_receipt_required :: exn where
  "refund_receipt_required = APIError 422 ''reimb_refund_receipt_required''"

definition refund_receipt_not_applicable :: exn where
  "refund_receipt_not_applicable = APIError 422 ''reimb_refund_receipt_not_applicable''"

definition refund_amount_mismatch :: exn where
  "refund_amount_mismatch = APIError 422 ''reimb_refund_amount_mismatch''"

definition spawn_not_over_advance :: exn where
  "spawn_not_over_advance = APIError 409 ''reimb_spawn_not_over_advance''"

definition spawn_exists :: exn where
  "spawn_exists = APIError 409 ''reimb_spawn_exists''"

definition spawn_below_advance :: exn where
  "spawn_below_advance = APIError 422 ''reimb_spawn_below_advance''"

definition unknown_external_status :: exn where
  "unknown_external_status = APIError 422 ''reimb_unknown_external_status''"

definition external_status_is_terminal :: exn where
  "external_status_is_terminal = APIError 422 ''reimb_external_status_is_terminal''"

definition external_event_wrong_state :: exn where
  "external_event_wrong_state = APIError 409 ''reimb_external_event_wrong_state''"

definition external_event_future_date :: exn where
  "external_event_future_date = APIError 422 ''reimb_external_event_future_date''"

definition payout_required :: exn where
  "payout_required = APIError 409 ''reimb_payout_required''"

definition payout_ref_required :: exn where
  "payout_ref_required = APIError 422 ''reimb_payout_ref_required''"

definition payout_date_required :: exn where
  "payout_date_required = APIError 422 ''reimb_payout_date_required''"

definition payout_already_recorded :: exn where
  "payout_already_recorded = APIError 409 ''reimb_payout_already_recorded''"

definition payout_wrong_state :: exn where
  "payout_wrong_state = APIError 409 ''reimb_payout_wrong_state''"

definition payout_not_a_reimbursement :: exn where
  "payout_not_a_reimbursement = APIError 422 ''reimb_payout_not_a_reimbursement''"

definition external_update_not_permitted :: exn where
  "external_update_not_permitted = APIError 403 ''reimb_external_update_not_permitted''"

definition queue_not_permitted :: exn where
  "queue_not_permitted = APIError 403 ''reimb_queue_not_permitted''"

definition insights_not_permitted :: exn where
  "insights_not_permitted = APIError 403 ''reimb_insights_not_permitted''"

definition promotion_not_permitted :: exn where
  "promotion_not_permitted = APIError 403 ''reimb_promotion_not_permitted''"

definition reason_not_promotable :: exn where
  "reason_not_promotable = APIError 422 ''reimb_reason_not_promotable''"

end
