(* ===== verification/Effective_Dating.thy ===== *)
theory Effective_Dating
  imports Reimb_Model
begin

text \<open>
  Effective-dated lookups: \<open>_as_of\<close> of \<open>services/per_diem.py\<close>, used for regions, rates and
  percentages, and \<open>effective_config\<close> of \<open>services/checklist_facts.py\<close>, the configuration pack
  of a day. The contract they share is a locale; each lookup interprets it.
\<close>

section \<open>Model\<close>

definition as_of :: "('r \<Rightarrow> string) \<Rightarrow> ('r \<Rightarrow> date) \<Rightarrow> 'r list \<Rightarrow> date \<Rightarrow> string \<Rightarrow> 'r option" where
  "as_of key eff rows day k =
     fold (\<lambda>row best.
        if key row \<noteq> k \<or> eff row > day then best
        else (case best of
                None \<Rightarrow> Some row
              | Some b \<Rightarrow> if eff row > eff b then Some row else best)) rows None"

text \<open>
  The row \<open>effective_config\<close> keeps for a key: the later date wins, on a tie a tenant row beats the
  platform default.
\<close>

definition newer_config :: "config_row \<Rightarrow> config_row \<Rightarrow> bool" where
  "newer_config row current \<longleftrightarrow>
     cf_from row > cf_from current \<or>
     (cf_from row = cf_from current \<and> cf_tenant row \<noteq> None \<and> cf_tenant current = None)"

definition effective_row :: "config_row list \<Rightarrow> date \<Rightarrow> string \<Rightarrow> config_row option" where
  "effective_row rows today k =
     fold (\<lambda>row best.
        if cf_key row \<noteq> k then best
        else (case best of
                None \<Rightarrow> Some row
              | Some current \<Rightarrow> if newer_config row current then Some row else best))
       (filter (\<lambda>r. cf_active r \<and> cf_from r \<le> today) rows) None"

definition effective_config :: "config_row list \<Rightarrow> date \<Rightarrow> string \<Rightarrow> json option" where
  "effective_config rows today k = map_option cf_value (effective_row rows today k)"

section \<open>The contract\<close>

locale effective_dated =
  fixes lookup :: "'r list \<Rightarrow> date \<Rightarrow> string \<Rightarrow> 'r option"
    and visible :: "'r \<Rightarrow> bool"
    and key :: "'r \<Rightarrow> string"
    and eff :: "'r \<Rightarrow> date"
  assumes lookup_Some: "lookup rows day k = Some r \<Longrightarrow>
      r \<in> set rows \<and> visible r \<and> key r = k \<and> eff r \<le> day \<and>
      (\<forall>s \<in> set rows. visible s \<and> key s = k \<and> eff s \<le> day \<longrightarrow> eff s \<le> eff r)"
    and lookup_None: "lookup rows day k = None \<Longrightarrow> (\<forall>s \<in> set rows. visible s \<and> key s = k \<longrightarrow> day < eff s)"
begin

lemma found_iff: "(\<exists>r. lookup rows day k = Some r) \<longleftrightarrow> (\<exists>s \<in> set rows. visible s \<and> key s = k \<and> eff s \<le> day)"
proof (cases "lookup rows day k")
  case None
  then show ?thesis using lookup_None [OF None] by force
next
  case (Some r)
  then show ?thesis using lookup_Some [OF Some] by blast
qed

text \<open>A later day never falls back to an older row.\<close>

lemma lookup_mono:
  assumes "lookup rows day k = Some r" "day \<le> day'"
  shows "\<exists>r'. lookup rows day' k = Some r' \<and> eff r \<le> eff r'"
proof -
  note r = lookup_Some [OF assms(1)]
  then have "\<exists>s \<in> set rows. visible s \<and> key s = k \<and> eff s \<le> day'" using assms(2) by force
  then obtain r' where r': "lookup rows day' k = Some r'" using found_iff by blast
  with lookup_Some [OF r'] r assms(2) show ?thesis by auto
qed

text \<open>
  Where key and date identify a visible row, as the unique indexes make sure, the answer does not
  depend on the order of the query, and rows effective later are irrelevant.
\<close>

lemma lookup_same_rows:
  assumes "inj_on (\<lambda>r. (key r, eff r)) {r \<in> set rows. visible r}"
    and "\<And>r. eff r \<le> day \<Longrightarrow> visible r \<Longrightarrow> r \<in> set rows' \<longleftrightarrow> r \<in> set rows"
  shows "lookup rows' day k = lookup rows day k"
proof (cases "lookup rows day k")
  case None
  then have "\<not> (\<exists>s \<in> set rows'. visible s \<and> key s = k \<and> eff s \<le> day)"
    using lookup_None [OF None] assms(2) by force
  then have "lookup rows' day k = None" using found_iff by (metis not_None_eq)
  with None show ?thesis by simp
next
  case (Some r)
  note r = lookup_Some [OF Some]
  then have "\<exists>s \<in> set rows'. visible s \<and> key s = k \<and> eff s \<le> day" using assms(2) by blast
  then obtain r' where r': "lookup rows' day k = Some r'" using found_iff by blast
  note r'' = lookup_Some [OF r']
  have "r' \<in> set rows" "r \<in> set rows'" using r r'' assms(2) by blast+
  then have "eff r = eff r'" using r r'' by (intro order_antisym) auto
  then have "r = r'" using r r'' \<open>r' \<in> set rows\<close> assms(1) by (auto simp: inj_on_def)
  with Some r' show ?thesis by simp
qed

end

section \<open>Interpretations\<close>

text \<open>Both lookups are one scan: keep the first row of the best rank.\<close>

definition pick :: "('r \<Rightarrow> bool) \<Rightarrow> ('r \<Rightarrow> 'r \<Rightarrow> bool) \<Rightarrow> 'r list \<Rightarrow> 'r option" where
  "pick keep better rows =
     fold (\<lambda>row best. if \<not> keep row then best
        else (case best of None \<Rightarrow> Some row | Some b \<Rightarrow> if better row b then Some row else best)) rows None"

lemma pick_Nil [simp]: "pick keep better [] = None"
  by (simp add: pick_def)

lemma pick_snoc:
  "pick keep better (rows @ [row]) =
     (if \<not> keep row then pick keep better rows
      else (case pick keep better rows of
              None \<Rightarrow> Some row
            | Some b \<Rightarrow> if better row b then Some row else Some b))"
  by (cases "pick keep better rows") (simp_all add: pick_def)

lemma pick_None: "pick keep better rows = None \<longleftrightarrow> (\<forall>s \<in> set rows. \<not> keep s)"
  by (induction rows rule: rev_induct) (auto simp: pick_snoc split: option.splits)

lemma pick_Some:
  assumes irrefl: "\<And>a. \<not> better a a" and trans: "\<And>a b c. \<not> better a b \<Longrightarrow> better c b \<Longrightarrow> \<not> better a c"
    and "pick keep better rows = Some r"
  shows "r \<in> set rows \<and> keep r \<and> (\<forall>s \<in> set rows. keep s \<longrightarrow> \<not> better s r)"
  using assms(3)
proof (induction rows arbitrary: r rule: rev_induct)
  case (snoc row rows)
  consider "\<not> keep row" "pick keep better rows = Some r" | "keep row" "pick keep better rows = None" "r = row"
    | b where "keep row" "pick keep better rows = Some b" "r = (if better row b then row else b)"
    using snoc.prems by (auto simp: pick_snoc split: option.splits if_splits)
  then show ?case
  proof cases
    case 1
    with snoc.IH show ?thesis by simp
  next
    case 2
    then show ?thesis using irrefl by (auto simp: pick_None)
  next
    case 3
    from snoc.IH [OF 3(2)] have b: "b \<in> set rows" "keep b" "\<forall>s \<in> set rows. keep s \<longrightarrow> \<not> better s b" by auto
    show ?thesis
    proof (cases "better row b")
      case True
      with 3 b irrefl trans [OF _ True] show ?thesis by auto
    next
      case False
      with 3 b show ?thesis by auto
    qed
  qed
qed simp

lemma as_of_pick: "as_of key eff rows day k = pick (\<lambda>r. key r = k \<and> eff r \<le> day) (\<lambda>r b. eff r > eff b) rows"
  unfolding as_of_def pick_def
  by (rule arg_cong [where f = "\<lambda>f. fold f rows None"]) (auto simp: fun_eq_iff not_less)

lemma effective_row_pick:
  "effective_row rows today k =
     pick (\<lambda>r. cf_key r = k) newer_config (filter (\<lambda>r. cf_active r \<and> cf_from r \<le> today) rows)"
  unfolding effective_row_def pick_def by simp

lemma as_of_dated: "effective_dated (as_of key eff) (\<lambda>_. True) key eff"
proof
  fix rows day k r
  show "r \<in> set rows \<and> True \<and> key r = k \<and> eff r \<le> day \<and>
      (\<forall>s \<in> set rows. True \<and> key s = k \<and> eff s \<le> day \<longrightarrow> eff s \<le> eff r)"
    if "as_of key eff rows day k = Some r"
    using pick_Some [OF _ _ that [unfolded as_of_pick]] by fastforce
  show "\<forall>s \<in> set rows. True \<and> key s = k \<longrightarrow> day < eff s" if "as_of key eff rows day k = None"
    using that by (auto simp: as_of_pick pick_None)
qed

interpretation region_as_of: effective_dated "as_of rg_code rg_from" "\<lambda>_. True" rg_code rg_from
  by (rule as_of_dated)

interpretation rate_as_of: effective_dated "as_of rt_cluster rt_from" "\<lambda>_. True" rt_cluster rt_from
  by (rule as_of_dated)

interpretation config_as_of: effective_dated "as_of cf_key cf_from" "\<lambda>_. True" cf_key cf_from
  by (rule as_of_dated)

text \<open>A tenant row of the same date is never passed over for the platform default.\<close>

lemma effective_row_Some:
  assumes "effective_row rows today k = Some r"
  shows "r \<in> set rows \<and> cf_active r \<and> cf_key r = k \<and> cf_from r \<le> today \<and>
    (\<forall>s \<in> set rows. cf_active s \<and> cf_key s = k \<and> cf_from s \<le> today \<longrightarrow> \<not> newer_config s r)"
proof -
  have "\<not> newer_config a a" "\<not> newer_config a b \<Longrightarrow> newer_config c b \<Longrightarrow> \<not> newer_config a c" for a b c
    by (auto simp: newer_config_def)
  from pick_Some [OF this assms [unfolded effective_row_pick]] show ?thesis by auto
qed

lemma effective_row_None:
  assumes "effective_row rows today k = None"
  shows "\<forall>s \<in> set rows. cf_active s \<and> cf_key s = k \<longrightarrow> today < cf_from s"
  using assms by (force simp: effective_row_pick pick_None)

interpretation config_pack: effective_dated effective_row cf_active cf_key cf_from
proof
  show "effective_row rows day k = Some r \<Longrightarrow>
      r \<in> set rows \<and> cf_active r \<and> cf_key r = k \<and> cf_from r \<le> day \<and>
      (\<forall>s \<in> set rows. cf_active s \<and> cf_key s = k \<and> cf_from s \<le> day \<longrightarrow> cf_from s \<le> cf_from r)" for rows day k r
    using effective_row_Some [of rows day k r] by (auto simp: newer_config_def)
  show "effective_row rows day k = None \<Longrightarrow> (\<forall>s \<in> set rows. cf_active s \<and> cf_key s = k \<longrightarrow> day < cf_from s)"
    for rows day k by (rule effective_row_None)
qed

section \<open>Properties\<close>

text \<open>
  The configuration pack of a day takes, for every key, an active row in force on that day such
  that no other such row is later, nor a tenant row of the same date where it took the default.
\<close>

theorem effective_config_latest:
  assumes "effective_config rows today k = Some v"
  shows "\<exists>r \<in> set rows. cf_value r = v \<and> cf_active r \<and> cf_key r = k \<and> cf_from r \<le> today \<and>
    (\<forall>s \<in> set rows. cf_active s \<and> cf_key s = k \<and> cf_from s \<le> today \<longrightarrow>
       cf_from s \<le> cf_from r \<and> (cf_from s = cf_from r \<and> cf_tenant s \<noteq> None \<longrightarrow> cf_tenant r \<noteq> None))"
proof -
  from assms obtain r where r: "effective_row rows today k = Some r" "cf_value r = v"
    by (auto simp: effective_config_def)
  with effective_row_Some [OF r(1)] show ?thesis
    by (intro bexI [of _ r]) (auto simp: newer_config_def)
qed

definition config_sample :: "config_row list" where
  "config_sample =
     [\<lparr>cf_key = ''k'', cf_value = JInt 1, cf_from = 10, cf_tenant = None, cf_active = True\<rparr>,
      \<lparr>cf_key = ''k'', cf_value = JInt 2, cf_from = 10, cf_tenant = Some 1, cf_active = True\<rparr>,
      \<lparr>cf_key = ''k'', cf_value = JInt 3, cf_from = 20, cf_tenant = None, cf_active = True\<rparr>]"

theorem effective_config_latest_witness:
  "\<exists>r \<in> set config_sample. cf_value r = JInt 2 \<and> cf_from r \<le> 15"
proof -
  have "effective_config config_sample 15 ''k'' = Some (JInt 2)" by code_simp
  from effective_config_latest [OF this] show ?thesis by blast
qed

text \<open>
  The two readers of the configuration disagree on a tenant override: with a platform default
  and a tenant row of one date, the configuration pack takes the tenant row and the per-diem
  lookup \<open>_as_of\<close> whichever row the query returned first.
\<close>

theorem as_of_ignores_tenant:
  "effective_config config_sample 15 ''k'' = Some (JInt 2) \<and>
   map_option cf_value (as_of cf_key cf_from config_sample 15 ''k'') = Some (JInt 1)"
  by (rule conjI) code_simp+

end
