(* ===== verification/Per_Diem.thy ===== *)
theory Per_Diem
  imports Effective_Dating
begin

text \<open>
  The per-diem computation, \<open>src/office_connect/modules/reimbursement/services/per_diem.py\<close>.
  Percentages are the integers of the configuration; a component is the rate times its percentage,
  rounded to the centavo. A dict of components is an association list in insertion order.
\<close>

section \<open>Inputs and results\<close>

definition GOV_VEHICLE :: string where "GOV_VEHICLE = ''gov_vehicle''"
definition APPORTIONMENT_KEY :: string where "APPORTIONMENT_KEY = ''per_diem.apportionment''"
definition DEPARTURE_RATE_KEY :: string where "DEPARTURE_RATE_KEY = ''per_diem.departure_day_rate''"

record leg_input =
  li_id :: "int option"
  li_seq :: int
  li_date :: "date option"
  li_region :: "string option"
  li_mode :: "string option"
  li_fare :: "int option"
  li_lodging :: bool
  li_meals :: bool

text \<open>The keyword arguments of \<open>compute_per_diem\<close>.\<close>

record pd_input =
  pi_legs :: "leg_input list"
  pi_depart :: "date option"
  pi_return :: "date option"
  pi_region :: "string option"
  pi_within_50km :: bool
  pi_overnight :: bool
  pi_regions :: "region_row list"
  pi_rates :: "rate_row list"
  pi_configs :: "config_row list"

record day_breakdown =
  bd_day :: date
  bd_type :: string
  bd_leg :: "int option"
  bd_region :: string
  bd_cluster :: string
  bd_rate :: int
  bd_pct :: int
  bd_components :: "(string \<times> int) list"
  bd_deductions :: "(string \<times> int) list"
  bd_amount :: int
  bd_gated :: bool

record pd_result =
  pr_days :: "day_breakdown list"
  pr_leg_values :: "int \<rightharpoonup> int \<times> int"
  pr_per_diem :: int
  pr_transport :: int

section \<open>The computation\<close>

text \<open>\<open>to_money(rate * pct / 100)\<close> for a rate in centavos.\<close>

definition pct_of :: "int \<Rightarrow> int \<Rightarrow> int" where
  "pct_of rate pct = div_half_up (rate * pct) 100"

definition apportionment :: "config_row list \<Rightarrow> date \<Rightarrow> (int \<times> int \<times> int) res" where
  "apportionment cfgs day =
     (case as_of cf_key cf_from cfgs day APPORTIONMENT_KEY of
        None \<Rightarrow> Inl config_missing
      | Some row \<Rightarrow>
          (case (int_field (cf_value row) ''lodging'', int_field (cf_value row) ''meals'',
                 int_field (cf_value row) ''incidentals'') of
             (Some l, Some m, Some i) \<Rightarrow> if l + m + i \<noteq> 100 then Inl config_invalid else Inr (l, m, i)
           | _ \<Rightarrow> Inl config_invalid))"

definition departure_pct :: "config_row list \<Rightarrow> date \<Rightarrow> int \<times> int \<times> int \<Rightarrow> int res" where
  "departure_pct cfgs day parts =
     (case as_of cf_key cf_from cfgs day DEPARTURE_RATE_KEY of
        None \<Rightarrow> Inl config_missing
      | Some row \<Rightarrow>
          (case int_field (cf_value row) ''pct'' of
             None \<Rightarrow> Inl config_invalid
           | Some pct \<Rightarrow> (case parts of (l, m, i) \<Rightarrow> if pct \<noteq> m + i then Inl config_invalid else Inr pct)))"

definition check_leg :: "leg_input \<Rightarrow> unit res" where
  "check_leg l =
     (if li_date l = None then Inl leg_date_required
      else if li_mode l = Some GOV_VEHICLE \<and> li_fare l \<noteq> None \<and> li_fare l \<noteq> Some 0 then Inl gov_vehicle_fare
      else Inr ())"

definition leg_dates :: "leg_input list \<Rightarrow> date list" where
  "leg_dates ls = List.map_filter li_date ls"

definition trip_span :: "pd_input \<Rightarrow> date \<times> date" where
  "trip_span inp =
     (case (pi_depart inp, pi_return inp) of
        (Some a, Some b) \<Rightarrow> (a, b)
      | _ \<Rightarrow> (let ds = leg_dates (pi_legs inp) in (fold min ds (hd ds), fold max ds (hd ds))))"

text \<open>The last leg of the day: the greatest \<open>(seq, id or 0)\<close>, the first of equals.\<close>

definition leg_rank :: "leg_input \<Rightarrow> int \<times> int" where
  "leg_rank l = (li_seq l, case li_id l of None \<Rightarrow> 0 | Some i \<Rightarrow> i)"

definition controlling_leg :: "leg_input list \<Rightarrow> date \<Rightarrow> leg_input option" where
  "controlling_leg ls day =
     pick (\<lambda>_. True) (\<lambda>l b. leg_rank b < leg_rank l) (filter (\<lambda>l. li_date l = Some day) ls)"

definition day_region :: "pd_input \<Rightarrow> leg_input option \<Rightarrow> string option \<Rightarrow> string option" where
  "day_region inp ctrl prev =
     (case ctrl of
        Some l \<Rightarrow> if truthy (li_region l) then li_region l else pi_region inp
      | None \<Rightarrow> if prev \<noteq> None then prev else pi_region inp)"

definition day_kind :: "date \<Rightarrow> date \<Rightarrow> date \<Rightarrow> int \<Rightarrow> string \<times> int" where
  "day_kind first last_d day dep =
     (if last_d - first + 1 = 1 then (''same_day'', dep)
      else if day = first then (''arrival'', 100)
      else if day = last_d then (''return'', dep)
      else (''full'', 100))"

definition day_components :: "string \<Rightarrow> int \<Rightarrow> int \<times> int \<times> int \<Rightarrow> (string \<times> int) list" where
  "day_components kind rate parts =
     (case parts of (l, m, i) \<Rightarrow>
        (if kind = ''arrival'' \<or> kind = ''full'' then [(''lodging'', pct_of rate l)] else []) @
        [(''meals'', pct_of rate m), (''incidentals'', pct_of rate i)])"

text \<open>\<open>deductions[name] = components.pop(name)\<close>, when the host provided it and it is present.\<close>

definition strip_component ::
  "bool \<Rightarrow> string \<Rightarrow> (string \<times> int) list \<times> (string \<times> int) list \<Rightarrow> (string \<times> int) list \<times> (string \<times> int) list" where
  "strip_component provided name cd =
     (case cd of (comps, deds) \<Rightarrow>
        (case map_of comps name of
           Some v \<Rightarrow> if provided then (filter (\<lambda>kv. fst kv \<noteq> name) comps, deds @ [(name, v)]) else (comps, deds)
         | None \<Rightarrow> (comps, deds)))"

definition strip_host ::
  "leg_input option \<Rightarrow> (string \<times> int) list \<Rightarrow> (string \<times> int) list \<times> (string \<times> int) list" where
  "strip_host ctrl comps =
     (case ctrl of
        None \<Rightarrow> (comps, [])
      | Some l \<Rightarrow> strip_component (li_meals l) ''meals'' (strip_component (li_lodging l) ''lodging'' (comps, [])))"

definition gated :: "pd_input \<Rightarrow> bool" where
  "gated inp \<longleftrightarrow> pi_within_50km inp \<and> \<not> pi_overnight inp"

definition build_day ::
  "pd_input \<Rightarrow> date \<Rightarrow> date \<Rightarrow> date \<Rightarrow> string \<Rightarrow> string \<Rightarrow> int \<Rightarrow> int \<times> int \<times> int \<Rightarrow> int \<Rightarrow> day_breakdown" where
  "build_day inp first last_d day region cluster rate parts dep =
     (let ctrl = controlling_leg (pi_legs inp) day;
          kind = day_kind first last_d day dep;
          cd = strip_host ctrl (day_components (fst kind) rate parts);
          comps = (if gated inp then [] else fst cd)
      in \<lparr>bd_day = day, bd_type = fst kind, bd_leg = Option.bind ctrl li_id, bd_region = region,
          bd_cluster = cluster, bd_rate = rate, bd_pct = (if gated inp then 0 else snd kind),
          bd_components = comps, bd_deductions = (if gated inp then [] else snd cd),
          bd_amount = sum_list (map snd comps), bd_gated = gated inp\<rparr>)"

definition day_entry :: "pd_input \<Rightarrow> date \<Rightarrow> date \<Rightarrow> string option \<Rightarrow> date \<Rightarrow> day_breakdown res" where
  "day_entry inp first last_d prev day =
     (case day_region inp (controlling_leg (pi_legs inp) day) prev of
        None \<Rightarrow> Inl missing_region_cluster
      | Some region \<Rightarrow>
     (case as_of rg_code rg_from (pi_regions inp) day region of
        None \<Rightarrow> Inl missing_region_cluster
      | Some rg \<Rightarrow>
     (case as_of rt_cluster rt_from (pi_rates inp) day (rg_cluster rg) of
        None \<Rightarrow> Inl missing_dte_rate
      | Some rt \<Rightarrow>
     rbind (apportionment (pi_configs inp) day) (\<lambda>parts.
     rbind (departure_pct (pi_configs inp) day parts) (\<lambda>dep.
     Inr (build_day inp first last_d day region (rg_cluster rg) (rt_daily rt) parts dep))))))"

fun day_loop :: "pd_input \<Rightarrow> date \<Rightarrow> date \<Rightarrow> string option \<Rightarrow> date list \<Rightarrow> day_breakdown list res" where
  "day_loop inp first last_d prev [] = Inr []"
| "day_loop inp first last_d prev (d # ds) =
     rbind (day_entry inp first last_d prev d) (\<lambda>b.
     rbind (day_loop inp first last_d (Some (bd_region b)) ds) (\<lambda>bs. Inr (b # bs)))"

definition no_leg_values :: "leg_input list \<Rightarrow> (int \<rightharpoonup> int \<times> int)" where
  "no_leg_values ls = (\<lambda>i. if \<exists>l \<in> set ls. li_id l = Some i then Some (0, 0) else None)"

definition credit_day :: "(int \<rightharpoonup> int \<times> int) \<Rightarrow> day_breakdown \<Rightarrow> (int \<rightharpoonup> int \<times> int)" where
  "credit_day vals b = (case bd_leg b of None \<Rightarrow> vals | Some i \<Rightarrow> vals(i \<mapsto> (bd_pct b, bd_amount b)))"

definition counted_fare :: "leg_input \<Rightarrow> int" where
  "counted_fare l =
     (if li_mode l \<noteq> Some GOV_VEHICLE then (case li_fare l of None \<Rightarrow> 0 | Some f \<Rightarrow> f) else 0)"

definition compute_per_diem :: "pd_input \<Rightarrow> pd_result res" where
  "compute_per_diem inp =
     (if pi_legs inp = [] then Inl no_computable_days
      else rbind (rmap check_leg (pi_legs inp)) (\<lambda>_.
        let (first, last_d) = trip_span inp in
        if last_d < first then Inl no_computable_days
        else if \<exists>d \<in> set (leg_dates (pi_legs inp)). \<not> (first \<le> d \<and> d \<le> last_d)
        then Inl leg_outside_trip_dates
        else rbind (day_loop inp first last_d None [first..last_d]) (\<lambda>days.
          Inr \<lparr>pr_days = days,
               pr_leg_values = foldl credit_day (no_leg_values (pi_legs inp)) days,
               pr_per_diem = sum_list (map bd_amount days),
               pr_transport = sum_list (map counted_fare (pi_legs inp))\<rparr>)))"

text \<open>\<open>settle\<close>: what is still owed to the traveller, and what the traveller refunds.\<close>

definition settle :: "int \<Rightarrow> int \<Rightarrow> int \<times> int" where
  "settle grand advance = (let diff = advance - grand in (max (- diff) 0, max diff 0))"

section \<open>Lemmas\<close>

lemma pct_of_to_money: "to_money (Fin (rate * pct) (-4)) = Inr (pct_of rate pct)"
  by (simp add: pct_of_def)

lemma pct_of_near: "200 * pct_of rate pct \<le> 2 * rate * pct + 100" "2 * rate * pct - 100 \<le> 200 * pct_of rate pct"
  using div_half_up_nearest [of 100 "rate * pct"] by (auto simp: pct_of_def)

lemma pct_of_nonneg: "0 \<le> rate \<Longrightarrow> 0 \<le> pct \<Longrightarrow> 0 \<le> pct_of rate pct"
  by (simp add: pct_of_def div_half_up_mono_nonneg)

lemma day_entry_cases:
  assumes "day_entry inp first last_d prev day = Inr b"
  obtains region cluster rate parts dep where
    "b = build_day inp first last_d day region cluster rate parts dep"
    "apportionment (pi_configs inp) day = Inr parts" "departure_pct (pi_configs inp) day parts = Inr dep"
  using assms by (auto simp: day_entry_def rbind_eq_Inr split: option.splits)

lemma build_day_simps [simp]:
  "bd_day (build_day inp first last_d day region cluster rate parts dep) = day"
  "bd_leg (build_day inp first last_d day region cluster rate parts dep) =
     Option.bind (controlling_leg (pi_legs inp) day) li_id"
  "bd_rate (build_day inp first last_d day region cluster rate parts dep) = rate"
  "bd_amount (build_day inp first last_d day region cluster rate parts dep) =
     sum_list (map snd (bd_components (build_day inp first last_d day region cluster rate parts dep)))"
  by (simp_all add: build_day_def Let_def)

lemma day_entry_day: "day_entry inp first last_d prev day = Inr b \<Longrightarrow> bd_day b = day"
  by (erule day_entry_cases) simp

lemma day_loop_days:
  "day_loop inp first last_d prev ds = Inr bs \<Longrightarrow> map bd_day bs = ds"
  by (induction ds arbitrary: prev bs) (auto simp: rbind_eq_Inr day_entry_day)

lemma day_loop_entry:
  "day_loop inp first last_d prev ds = Inr bs \<Longrightarrow> b \<in> set bs \<Longrightarrow>
     \<exists>p. day_entry inp first last_d p (bd_day b) = Inr b"
proof (induction ds arbitrary: prev bs)
  case (Cons d ds)
  from Cons.prems(1) obtain b' bs' where b': "day_entry inp first last_d prev d = Inr b'"
    "day_loop inp first last_d (Some (bd_region b')) ds = Inr bs'" "bs = b' # bs'"
    by (auto simp: rbind_eq_Inr)
  show ?case
  proof (cases "b = b'")
    case True
    then show ?thesis using b'(1) day_entry_day [OF b'(1)] by blast
  next
    case False
    then show ?thesis using Cons.IH [OF b'(2)] Cons.prems(2) b'(3) by simp
  qed
qed simp

lemma compute_cases:
  assumes "compute_per_diem inp = Inr r"
  obtains first last_d where "trip_span inp = (first, last_d)" "first \<le> last_d"
    "day_loop inp first last_d None [first..last_d] = Inr (pr_days r)"
    "pr_leg_values r = foldl credit_day (no_leg_values (pi_legs inp)) (pr_days r)"
    "pr_per_diem r = sum_list (map bd_amount (pr_days r))"
    "pr_transport r = sum_list (map counted_fare (pi_legs inp))"
  using assms by (auto simp: compute_per_diem_def rbind_eq_Inr Let_def split: if_splits prod.splits)

text \<open>Stripping moves a component to the deductions: together they are what was there before.\<close>

lemma strip_component_sum:
  assumes "distinct (map fst (fst cd))"
  shows "sum_list (map snd (fst (strip_component p name cd))) + sum_list (map snd (snd (strip_component p name cd)))
      = sum_list (map snd (fst cd)) + sum_list (map snd (snd cd))"
    "distinct (map fst (fst (strip_component p name cd)))"
proof -
  obtain comps deds where cd: "cd = (comps, deds)" by (cases cd)
  have "sum_list (map snd (filter (\<lambda>kv. fst kv \<noteq> name) xs)) + v = sum_list (map snd xs)"
    if "map_of xs name = Some v" "distinct (map fst xs)" for xs :: "(string \<times> int) list" and v
    using that
  proof (induction xs)
    case (Cons x xs)
    show ?case
    proof (cases "fst x = name")
      case True
      with Cons.prems(2) have "\<forall>kv \<in> set xs. fst kv \<noteq> name" by (auto simp: image_iff)
      then have "filter (\<lambda>kv. fst kv \<noteq> name) xs = xs" by (simp add: filter_id_conv)
      with True Cons.prems show ?thesis by auto
    next
      case False
      with Cons show ?thesis by auto
    qed
  qed simp
  with assms cd show "sum_list (map snd (fst (strip_component p name cd))) + sum_list (map snd (snd (strip_component p name cd)))
      = sum_list (map snd (fst cd)) + sum_list (map snd (snd cd))"
    by (auto simp: strip_component_def split: option.splits)
  show "distinct (map fst (fst (strip_component p name cd)))"
    using assms by (auto simp: cd strip_component_def distinct_map_filter split: option.splits)
qed

lemma strip_host_sum:
  assumes "distinct (map fst comps)"
  shows "sum_list (map snd (fst (strip_host ctrl comps))) + sum_list (map snd (snd (strip_host ctrl comps))) =
    sum_list (map snd comps)"
  using assms strip_component_sum [of "(comps, [])"]
  by (cases ctrl) (simp_all add: strip_host_def strip_component_sum)

lemma day_components_distinct: "distinct (map fst (day_components kind rate parts))"
  by (auto simp: day_components_def split: prod.splits)

text \<open>Three rounded components are off by at most a centavo and a half together.\<close>

lemma day_components_near:
  assumes "l + m + i = 100" "dep = m + i" "(kind, pct) = day_kind first last_d day dep"
  shows "\<bar>100 * sum_list (map snd (day_components kind rate (l, m, i))) - rate * pct\<bar> \<le> 150"
proof -
  have r: "rate * (m + i) = rate * m + rate * i" "rate * 100 = rate * l + rate * m + rate * i"
    using arg_cong [OF assms(1), of "\<lambda>x. rate * x"] by (simp_all add: distrib_left)
  show ?thesis
    using pct_of_near [of rate l] pct_of_near [of rate m] pct_of_near [of rate i] r assms(2,3)
    by (auto simp: day_components_def day_kind_def split: if_splits)
qed

lemma apportionment_100: "apportionment cfgs day = Inr (l, m, i) \<Longrightarrow> l + m + i = 100"
  by (auto simp: apportionment_def split: option.splits if_splits)

lemma departure_pct_eq: "departure_pct cfgs day (l, m, i) = Inr dep \<Longrightarrow> dep = m + i"
  by (auto simp: departure_pct_def split: option.splits if_splits)

lemma entry_gross:
  assumes "day_entry inp first last_d prev day = Inr b" "\<not> gated inp"
  shows "\<bar>100 * (bd_amount b + sum_list (map snd (bd_deductions b))) - bd_rate b * bd_pct b\<bar> \<le> 150"
proof -
  obtain region cluster rate l m i dep where
    b: "b = build_day inp first last_d day region cluster rate (l, m, i) dep"
    "apportionment (pi_configs inp) day = Inr (l, m, i)" "departure_pct (pi_configs inp) day (l, m, i) = Inr dep"
    using day_entry_cases [OF assms(1)] by (metis prod_cases3)
  obtain kind pct where k: "(kind, pct) = day_kind first last_d day dep" by (metis prod.collapse)
  have "bd_amount b + sum_list (map snd (bd_deductions b)) = sum_list (map snd (day_components kind rate (l, m, i)))"
    using strip_host_sum [OF day_components_distinct] assms(2) k [symmetric]
    by (simp add: b(1) build_day_def Let_def)
  moreover have "bd_rate b = rate" "bd_pct b = pct" using assms(2) k [symmetric] by (simp_all add: b(1) build_day_def Let_def)
  ultimately show ?thesis
    using day_components_near [OF apportionment_100 [OF b(2)] departure_pct_eq [OF b(3)] k, of rate] by simp
qed

text \<open>Crediting days to their controlling legs conserves the money.\<close>

definition leg_amount :: "(int \<rightharpoonup> int \<times> int) \<Rightarrow> int \<Rightarrow> int" where
  "leg_amount vals i = (case vals i of None \<Rightarrow> 0 | Some (p, a) \<Rightarrow> a)"

lemma credit_days_sum:
  assumes "finite L" "distinct (List.map_filter bd_leg days)" "set (List.map_filter bd_leg days) \<subseteq> L"
    "\<And>i. i \<in> set (List.map_filter bd_leg days) \<Longrightarrow> leg_amount vals i = 0"
  shows "(\<Sum>i\<in>L. leg_amount (foldl credit_day vals days) i) =
    (\<Sum>i\<in>L. leg_amount vals i) + sum_list (map bd_amount (filter (\<lambda>b. bd_leg b \<noteq> None) days))"
  using assms(2-)
proof (induction days arbitrary: vals)
  case (Cons b days)
  show ?case
  proof (cases "bd_leg b")
    case None
    with Cons show ?thesis by (simp add: credit_day_def)
  next
    case (Some i)
    have i: "i \<in> L" "leg_amount vals i = 0" "i \<notin> set (List.map_filter bd_leg days)"
      using Cons.prems Some by auto
    have "(\<Sum>j\<in>L. leg_amount (credit_day vals b) j) = (\<Sum>j\<in>L. leg_amount vals j) + bd_amount b"
    proof -
      have "(\<Sum>j\<in>L. leg_amount (credit_day vals b) j) = (\<Sum>j\<in>L. leg_amount vals j + (if j = i then bd_amount b else 0))"
        using i(2) Some by (intro sum.cong) (auto simp: leg_amount_def credit_day_def)
      then show ?thesis using assms(1) i(1) by (simp add: sum.distrib)
    qed
    moreover have "leg_amount (credit_day vals b) j = 0" if "j \<in> set (List.map_filter bd_leg days)" for j
      using Cons.prems(3) [of j] that i(3) Some by (auto simp: leg_amount_def credit_day_def)
    ultimately show ?thesis
      using Cons.IH [of "credit_day vals b"] Cons.prems(1,2) Some by simp
  qed
qed simp

lemma controlling_in:
  "controlling_leg ls day = Some l \<Longrightarrow> l \<in> set ls \<and> li_date l = Some day"
proof -
  assume "controlling_leg ls day = Some l"
  then have "l \<in> set (filter (\<lambda>l. li_date l = Some day) ls)"
    unfolding controlling_leg_def by (induction ls rule: rev_induct)
      (auto simp: pick_snoc split: option.splits if_splits)
  then show ?thesis by simp
qed

lemma controlled_days_distinct:
  assumes "\<forall>b \<in> set bs. bd_leg b = Option.bind (controlling_leg ls (bd_day b)) li_id"
    "distinct (map bd_day bs)" "distinct (map li_id ls)"
  shows "distinct (List.map_filter bd_leg bs)"
  using assms(1,2)
proof (induction bs)
  case (Cons b bs)
  have "i \<notin> set (List.map_filter bd_leg bs)" if i: "bd_leg b = Some i" for i
  proof
    assume "i \<in> set (List.map_filter bd_leg bs)"
    then obtain c where c: "c \<in> set bs" "bd_leg c = Some i" by (auto simp: List.map_filter_def)
    obtain l l' where l: "controlling_leg ls (bd_day b) = Some l" "li_id l = Some i"
      "controlling_leg ls (bd_day c) = Some l'" "li_id l' = Some i"
    proof -
      have "Option.bind (controlling_leg ls (bd_day b)) li_id = Some i"
        "Option.bind (controlling_leg ls (bd_day c)) li_id = Some i"
        using Cons.prems(1) i c by auto
      then show thesis using that by (auto simp: bind_eq_Some_conv)
    qed
    have "l = l'" using l controlling_in [OF l(1)] controlling_in [OF l(3)] assms(3)
      by (auto simp: distinct_map inj_on_def)
    then have "bd_day b = bd_day c" using controlling_in [OF l(1)] controlling_in [OF l(3)] by simp
    with Cons.prems(2) c(1) show False by auto
  qed
  with Cons show ?case by (auto split: option.splits)
qed simp

text \<open>Rows in force only after the trip do not enter a lookup on a day of the trip.\<close>

lemma as_of_later_rows:
  assumes "\<forall>r \<in> set new. eff r > day"
  shows "as_of key eff (rows @ new) day k = as_of key eff rows day k"
  using assms by (induction new rule: rev_induct) (auto simp: as_of_pick pick_snoc append_assoc [symmetric] simp del: append_assoc)

definition extend_tables ::
  "pd_input \<Rightarrow> region_row list \<Rightarrow> rate_row list \<Rightarrow> config_row list \<Rightarrow> pd_input" where
  "extend_tables inp rgs rts cfs = inp\<lparr>pi_regions := pi_regions inp @ rgs, pi_rates := pi_rates inp @ rts,
     pi_configs := pi_configs inp @ cfs\<rparr>"

lemma extend_fields [simp]:
  "pi_legs (extend_tables inp rgs rts cfs) = pi_legs inp"
  "pi_depart (extend_tables inp rgs rts cfs) = pi_depart inp"
  "pi_return (extend_tables inp rgs rts cfs) = pi_return inp"
  "pi_region (extend_tables inp rgs rts cfs) = pi_region inp"
  "pi_within_50km (extend_tables inp rgs rts cfs) = pi_within_50km inp"
  "pi_overnight (extend_tables inp rgs rts cfs) = pi_overnight inp"
  by (simp_all add: extend_tables_def)

lemma extend_same [simp]:
  "trip_span (extend_tables inp rgs rts cfs) = trip_span inp"
  "gated (extend_tables inp rgs rts cfs) = gated inp"
  "day_region (extend_tables inp rgs rts cfs) = day_region inp"
  unfolding trip_span_def gated_def day_region_def fun_eq_iff extend_fields by simp_all

lemma extend_day_entry:
  assumes "\<forall>r \<in> set rgs. rg_from r > day" "\<forall>r \<in> set rts. rt_from r > day" "\<forall>r \<in> set cfs. cf_from r > day"
  shows "day_entry (extend_tables inp rgs rts cfs) first last_d prev day = day_entry inp first last_d prev day"
proof -
  have t: "as_of rg_code rg_from (pi_regions (extend_tables inp rgs rts cfs)) day k = as_of rg_code rg_from (pi_regions inp) day k"
    "as_of rt_cluster rt_from (pi_rates (extend_tables inp rgs rts cfs)) day k = as_of rt_cluster rt_from (pi_rates inp) day k"
    "as_of cf_key cf_from (pi_configs (extend_tables inp rgs rts cfs)) day k = as_of cf_key cf_from (pi_configs inp) day k"
    for k using assms by (simp_all add: extend_tables_def as_of_later_rows)
  then have c: "apportionment (pi_configs (extend_tables inp rgs rts cfs)) day = apportionment (pi_configs inp) day"
    "departure_pct (pi_configs (extend_tables inp rgs rts cfs)) day = departure_pct (pi_configs inp) day"
    by (simp_all add: apportionment_def departure_pct_def fun_eq_iff)
  show ?thesis unfolding day_entry_def build_day_def extend_fields extend_same t c by (rule refl)
qed

lemma extend_day_loop:
  assumes "\<forall>d \<in> set ds. (\<forall>r \<in> set rgs. rg_from r > d) \<and> (\<forall>r \<in> set rts. rt_from r > d) \<and> (\<forall>r \<in> set cfs. cf_from r > d)"
  shows "day_loop (extend_tables inp rgs rts cfs) first last_d prev ds = day_loop inp first last_d prev ds"
  using assms by (induction ds arbitrary: prev) (simp_all add: extend_day_entry)

section \<open>A sample trip\<close>

definition sample_trip :: pd_input where
  "sample_trip = \<lparr>pi_legs =
      [\<lparr>li_id = Some 1, li_seq = 1, li_date = Some 100, li_region = Some ''13'', li_mode = Some ''plane'',
        li_fare = Some 500000, li_lodging = False, li_meals = False\<rparr>,
       \<lparr>li_id = Some 2, li_seq = 2, li_date = Some 102, li_region = None, li_mode = Some ''bus'',
        li_fare = Some 30000, li_lodging = True, li_meals = True\<rparr>],
     pi_depart = Some 100, pi_return = Some 102, pi_region = Some ''13'', pi_within_50km = False,
     pi_overnight = True,
     pi_regions = [\<lparr>rg_code = ''13'', rg_cluster = ''I'', rg_from = 1, rg_active = True\<rparr>],
     pi_rates = [\<lparr>rt_cluster = ''I'', rt_daily = 220005, rt_from = 1, rt_active = True\<rparr>],
     pi_configs =
      [\<lparr>cf_key = APPORTIONMENT_KEY, cf_value = JObj [(''lodging'', JInt 50), (''meals'', JInt 30), (''incidentals'', JInt 20)],
        cf_from = 1, cf_tenant = None, cf_active = True\<rparr>,
       \<lparr>cf_key = DEPARTURE_RATE_KEY, cf_value = JObj [(''pct'', JInt 50)], cf_from = 1, cf_tenant = None,
        cf_active = True\<rparr>]\<rparr>"

definition sample_pd :: pd_result where
  "sample_pd = projr (compute_per_diem sample_trip)"

lemma sample_pd_ok: "compute_per_diem sample_trip = Inr sample_pd"
proof -
  have "is_ok (compute_per_diem sample_trip)" by code_simp
  then obtain r where r: "compute_per_diem sample_trip = Inr r" by (auto simp: is_ok_iff)
  then show ?thesis by (simp add: sample_pd_def)
qed

section \<open>Properties\<close>

text \<open>
  C13. The breakdown re-performs: it has one row per day of the trip, in order; a row's amount is the
  sum of its components, the total the sum of the rows; and unless the 50-km gate applies, what a
  row pays plus what the host provided is its percentage of the daily rate, up to the rounding of
  its components.
\<close>

theorem breakdown_reperforms:
  assumes "compute_per_diem inp = Inr r"
  shows "map bd_day (pr_days r) = [fst (trip_span inp)..snd (trip_span inp)] \<and>
    pr_per_diem r = sum_list (map bd_amount (pr_days r)) \<and>
    (\<forall>b \<in> set (pr_days r). bd_amount b = sum_list (map snd (bd_components b)) \<and>
       (if gated inp then bd_amount b = 0
        else \<bar>100 * (bd_amount b + sum_list (map snd (bd_deductions b))) - bd_rate b * bd_pct b\<bar> \<le> 150))"
proof -
  obtain first last_d where c: "trip_span inp = (first, last_d)"
    "day_loop inp first last_d None [first..last_d] = Inr (pr_days r)"
    "pr_per_diem r = sum_list (map bd_amount (pr_days r))" using compute_cases [OF assms] by metis
  have rows: "bd_amount b = sum_list (map snd (bd_components b)) \<and>
      (if gated inp then bd_amount b = 0
       else \<bar>100 * (bd_amount b + sum_list (map snd (bd_deductions b))) - bd_rate b * bd_pct b\<bar> \<le> 150)"
    if "b \<in> set (pr_days r)" for b
  proof -
    from day_loop_entry [OF c(2) that] obtain p where e: "day_entry inp first last_d p (bd_day b) = Inr b" by blast
    then obtain region cluster rate parts dep where
      b: "b = build_day inp first last_d (bd_day b) region cluster rate parts dep" by (rule day_entry_cases)
    have "bd_amount b = sum_list (map snd (bd_components b))" by (subst (1 2) b) (rule build_day_simps(4))
    moreover have "gated inp \<longrightarrow> bd_components b = []" by (subst b) (simp add: build_day_def Let_def)
    ultimately show ?thesis using entry_gross [OF e] by simp
  qed
  have "\<forall>b \<in> set (pr_days r). bd_amount b = sum_list (map snd (bd_components b)) \<and>
      (if gated inp then bd_amount b = 0
       else \<bar>100 * (bd_amount b + sum_list (map snd (bd_deductions b))) - bd_rate b * bd_pct b\<bar> \<le> 150)"
    using rows by (rule ballI)
  with c(1,3) day_loop_days [OF c(2)] show ?thesis by (simp only: fst_conv snd_conv)
qed

theorem breakdown_reperforms_witness:
  "map bd_amount (pr_days sample_pd) = [220006, 220006, 44001] \<and> pr_per_diem sample_pd = 484013"
proof -
  have "map bd_amount (pr_days sample_pd) = [220006, 220006, 44001]" by code_simp
  with breakdown_reperforms [OF sample_pd_ok] show ?thesis by simp
qed

text \<open>
  No day is claimed twice: with distinct leg ids, the amounts credited to the legs plus the days
  no leg controls add up to the per-diem total, so each day's money is credited exactly once.
\<close>

theorem days_credited_once:
  assumes "compute_per_diem inp = Inr r" "distinct (map li_id (pi_legs inp))" "\<forall>l \<in> set (pi_legs inp). li_id l \<noteq> None"
  shows "(\<Sum>i \<in> the ` li_id ` set (pi_legs inp). leg_amount (pr_leg_values r) i) +
    sum_list (map bd_amount (filter (\<lambda>b. bd_leg b = None) (pr_days r))) = pr_per_diem r"
proof -
  obtain first last_d where c:
    "day_loop inp first last_d None [first..last_d] = Inr (pr_days r)"
    "pr_leg_values r = foldl credit_day (no_leg_values (pi_legs inp)) (pr_days r)"
    "pr_per_diem r = sum_list (map bd_amount (pr_days r))" using compute_cases [OF assms(1)] by metis
  let ?L = "the ` li_id ` set (pi_legs inp)"
  have leg: "bd_leg b = Option.bind (controlling_leg (pi_legs inp) (bd_day b)) li_id" if "b \<in> set (pr_days r)" for b
  proof -
    from day_loop_entry [OF c(1) that] obtain p where "day_entry inp first last_d p (bd_day b) = Inr b" by blast
    then obtain region cluster rate parts dep where
      b: "b = build_day inp first last_d (bd_day b) region cluster rate parts dep" by (rule day_entry_cases)
    show ?thesis by (subst b) simp
  qed
  have "distinct (List.map_filter bd_leg (pr_days r))"
    by (rule controlled_days_distinct [OF _ _ assms(2)]) (use leg day_loop_days [OF c(1)] in auto)
  moreover have "set (List.map_filter bd_leg (pr_days r)) \<subseteq> ?L"
    using leg controlling_in by (force simp: List.map_filter_def bind_eq_Some_conv image_iff)
  moreover have zero: "leg_amount (no_leg_values (pi_legs inp)) i = 0" for i
    by (simp add: leg_amount_def no_leg_values_def)
  ultimately have "(\<Sum>i\<in>?L. leg_amount (pr_leg_values r) i) =
      sum_list (map bd_amount (filter (\<lambda>b. bd_leg b \<noteq> None) (pr_days r)))"
    using credit_days_sum [of ?L "pr_days r" "no_leg_values (pi_legs inp)"] by (simp add: c(2))
  moreover have "sum_list (map bd_amount (filter (\<lambda>b. bd_leg b \<noteq> None) bs)) +
      sum_list (map bd_amount (filter (\<lambda>b. bd_leg b = None) bs)) = sum_list (map bd_amount bs)" for bs
    by (induction bs) auto
  ultimately show ?thesis by (simp add: c(3))
qed

theorem days_credited_once_witness:
  "(\<Sum>i \<in> {1, 2}. leg_amount (pr_leg_values sample_pd) i) + 220006 = pr_per_diem sample_pd"
proof -
  have "distinct (map li_id (pi_legs sample_trip))" "\<forall>l \<in> set (pi_legs sample_trip). li_id l \<noteq> None"
    "sum_list (map bd_amount (filter (\<lambda>b. bd_leg b = None) (pr_days sample_pd))) = 220006"
    "the ` li_id ` set (pi_legs sample_trip) = {1, 2}"
    by code_simp+
  with days_credited_once [OF sample_pd_ok this(1,2)] show ?thesis by simp
qed

text \<open>
  A rate change is a new row: adding region, rate or percentage rows that take effect after the
  last day of a trip leaves its computation unchanged, errors included.
\<close>

theorem later_rates_irrelevant:
  assumes "\<forall>r \<in> set rgs. rg_from r > snd (trip_span inp)" "\<forall>r \<in> set rts. rt_from r > snd (trip_span inp)"
    "\<forall>r \<in> set cfs. cf_from r > snd (trip_span inp)"
  shows "compute_per_diem (extend_tables inp rgs rts cfs) = compute_per_diem inp"
proof -
  obtain first last_d where s: "trip_span inp = (first, last_d)" by (cases "trip_span inp")
  have "day_loop (extend_tables inp rgs rts cfs) first last_d None [first..last_d] =
      day_loop inp first last_d None [first..last_d]"
    by (rule extend_day_loop) (use assms s in auto)
  then show ?thesis unfolding compute_per_diem_def extend_fields extend_same s prod.case Let_def by simp
qed

theorem later_rates_irrelevant_witness:
  "compute_per_diem (extend_tables sample_trip [] [\<lparr>rt_cluster = ''I'', rt_daily = 1, rt_from = 103, rt_active = True\<rparr>] [])
    = Inr sample_pd"
proof -
  have "snd (trip_span sample_trip) = 102" by code_simp
  then show ?thesis
    using later_rates_irrelevant [of "[]" sample_trip "[\<lparr>rt_cluster = ''I'', rt_daily = 1, rt_from = 103, rt_active = True\<rparr>]" "[]"]
      sample_pd_ok by simp
qed

text \<open>
  Settlement is exact and one-sided: what is owed to the traveller and what is refunded are both
  non-negative, at most one is not zero, and their difference is the claim less the advance.
\<close>

theorem settle_exact:
  "case settle grand advance of (to_reimburse, to_refund) \<Rightarrow>
     to_reimburse \<ge> 0 \<and> to_refund \<ge> 0 \<and> (to_reimburse = 0 \<or> to_refund = 0) \<and>
     to_reimburse - to_refund = grand - advance"
  by (auto simp: settle_def Let_def max_def)

end
