(* ===== verification/Deadline.thy ===== *)
theory Deadline
  imports Effective_Dating
begin

text \<open>
  The liquidation deadline, \<open>src/office_connect/modules/reimbursement/services/deadline.py\<close>. The
  configuration pack is the mapping \<open>effective_config\<close> returns.
\<close>

section \<open>Model\<close>

definition DEADLINE_KEY :: string where "DEADLINE_KEY = ''liquidation.deadline''"
definition CALENDAR :: string where "CALENDAR = ''calendar''"
definition WORKING :: string where "WORKING = ''working''"
definition BASES :: "string set" where "BASES = {CALENDAR, WORKING}"
definition DEFAULT_DAYS :: int where "DEFAULT_DAYS = 30"
definition DEFAULT_BASIS :: string where "DEFAULT_BASIS = CALENDAR"
definition DUE_SOON_DAYS :: int where "DUE_SOON_DAYS = 7"
definition ON_TRACK :: string where "ON_TRACK = ''on_track''"
definition DUE_SOON :: string where "DUE_SOON = ''due_soon''"
definition DL_OVERDUE :: string where "DL_OVERDUE = ''overdue''"

record deadline_rule =
  dr_days :: int
  dr_basis :: string
  dr_reason :: string

text \<open>
  The membership test \<open>basis not in BASES\<close> raises \<open>TypeError\<close> on a list or a dict, and is outside
  the \<open>try\<close> of the source.
\<close>

definition read_rule :: "(string \<Rightarrow> json option) \<Rightarrow> deadline_rule res" where
  "read_rule config =
     (case config DEADLINE_KEY of
        Some (JObj kvs) \<Rightarrow>
          (case int_field (JObj kvs) ''days'' of
             None \<Rightarrow> Inr \<lparr>dr_days = DEFAULT_DAYS, dr_basis = DEFAULT_BASIS, dr_reason = ''unreadable_days''\<rparr>
           | Some days \<Rightarrow>
               if days \<le> 0
               then Inr \<lparr>dr_days = DEFAULT_DAYS, dr_basis = DEFAULT_BASIS, dr_reason = ''non_positive_days''\<rparr>
               else
                 (let basis = (case map_of kvs ''basis'' of None \<Rightarrow> JStr DEFAULT_BASIS | Some b \<Rightarrow> b) in
                  if \<not> hashable basis then Inl TypeError
                  else (case basis of
                          JStr b \<Rightarrow>
                            if b \<in> BASES then Inr \<lparr>dr_days = days, dr_basis = b, dr_reason = ''configured''\<rparr>
                            else Inr \<lparr>dr_days = days, dr_basis = DEFAULT_BASIS, dr_reason = ''unknown_basis''\<rparr>
                        | _ \<Rightarrow> Inr \<lparr>dr_days = days, dr_basis = DEFAULT_BASIS, dr_reason = ''unknown_basis''\<rparr>)))
      | _ \<Rightarrow> Inr \<lparr>dr_days = DEFAULT_DAYS, dr_basis = DEFAULT_BASIS, dr_reason = ''no_config_row''\<rparr>)"

definition liquidation_deadline ::
  "date option \<Rightarrow> deadline_rule \<Rightarrow> date set option \<Rightarrow> date option res" where
  "liquidation_deadline date_return rule nonworking =
     (case date_return of
        None \<Rightarrow> Inr None
      | Some d \<Rightarrow>
          if dr_basis rule = WORKING
          then rbind (add_working_days d (dr_days rule) (case nonworking of None \<Rightarrow> {} | Some N \<Rightarrow> N))
                 (\<lambda>x. Inr (Some x))
          else rbind (date_add d (dr_days rule)) (\<lambda>x. Inr (Some x)))"

definition days_remaining :: "date option \<Rightarrow> date \<Rightarrow> int option" where
  "days_remaining deadline today = map_option (\<lambda>d. d - today) deadline"

definition deadline_state :: "date option \<Rightarrow> date \<Rightarrow> string option" where
  "deadline_state deadline today =
     (case days_remaining deadline today of
        None \<Rightarrow> None
      | Some r \<Rightarrow> if r < 0 then Some DL_OVERDUE
                  else if r \<le> DUE_SOON_DAYS then Some DUE_SOON else Some ON_TRACK)"

section \<open>Lemmas\<close>

lemma read_rule_sound:
  assumes "read_rule config = Inr rule"
  shows "dr_days rule > 0 \<and> dr_basis rule \<in> BASES"
  using assms
  by (auto simp: read_rule_def Let_def BASES_def DEFAULT_DAYS_def DEFAULT_BASIS_def
      split: option.splits json.splits if_splits)

lemma wd_count_le: "lo \<le> hi \<Longrightarrow> int (wd_count N lo hi) \<le> hi - lo"
proof -
  assume "lo \<le> hi"
  have "wd_count N lo hi \<le> card {lo<..hi}"
    unfolding wd_count_def by (intro card_mono) auto
  with \<open>lo \<le> hi\<close> show ?thesis by simp
qed

lemma add_working_days_at_least:
  assumes "add_working_days d n N = Inr e" "0 \<le> n" "0 \<le> d"
  shows "d + n \<le> e"
proof -
  from assms(1,2) have "add_loop True (nat n) d N = Inr e \<or> n = 0 \<and> e = d"
    by (auto simp: add_working_days_def split: if_splits)
  then show ?thesis
  proof
    assume "add_loop True (nat n) d N = Inr e"
    from add_loop_forward [OF this assms(3)] have "d \<le> e" "wd_count N d e = nat n" by auto
    with wd_count_le [of d e N] assms(2) show ?thesis by simp
  qed (use assms in simp)
qed

section \<open>Properties\<close>

text \<open>
  Whatever the stored configuration, a rule that is read has a positive day count and a known
  basis; and reading fails only for a basis that is a list or a dict.
\<close>

theorem read_rule_total:
  "case read_rule config of
     Inr rule \<Rightarrow> dr_days rule > 0 \<and> dr_basis rule \<in> BASES
   | Inl e \<Rightarrow> e = TypeError \<and>
       (\<exists>v b. config DEADLINE_KEY = Some v \<and> obj_get v ''basis'' = Some b \<and> \<not> hashable b)"
proof (cases "read_rule config")
  case (Inr rule)
  then show ?thesis using read_rule_sound by simp
next
  case (Inl e)
  then show ?thesis
    by (auto simp: read_rule_def Let_def split: option.splits json.splits if_splits)
qed

text \<open>
  The reader is documented as total, never raising; a basis stored as a JSON list makes it raise
  \<open>TypeError\<close>.
\<close>

theorem read_rule_raises:
  "read_rule [DEADLINE_KEY \<mapsto> JObj [(''days'', JInt 30), (''basis'', JList [JStr ''working''])]] = Inl TypeError"
  by (simp add: read_rule_def)

text \<open>
  The clock fails short: for one return date and one day count the calendar deadline, the
  fallback for an unreadable basis, is never later than the working-day deadline, whatever the
  holidays.
\<close>

theorem calendar_is_the_shorter:
  assumes "valid_date d" "dr_days rule > 0"
    "liquidation_deadline (Some d) (rule\<lparr>dr_basis := WORKING\<rparr>) N = Inr (Some w)"
  shows "\<exists>c. liquidation_deadline (Some d) (rule\<lparr>dr_basis := CALENDAR\<rparr>) None = Inr (Some c) \<and> c \<le> w"
proof -
  obtain H where w: "add_working_days d (dr_days rule) H = Inr w"
    using assms(3) by (auto simp: liquidation_deadline_def rbind_eq_Inr)
  have d: "0 \<le> d" using assms(1) by (simp add: valid_date_def)
  have le: "d + dr_days rule \<le> w" using add_working_days_at_least [OF w _ d] assms(2) by simp
  have "add_loop True (nat (dr_days rule)) d H = Inr w"
    using w assms(2) by (auto simp: add_working_days_def split: if_splits)
  from add_loop_forward [OF this d] assms(2) have "valid_date w" by auto
  with le assms(1,2) have "valid_date (d + dr_days rule)" by (simp add: valid_date_def)
  with le show ?thesis by (simp add: liquidation_deadline_def date_add_def WORKING_def CALENDAR_def)
qed

theorem calendar_is_the_shorter_witness:
  "\<exists>c. liquidation_deadline (Some 738000) \<lparr>dr_days = 3, dr_basis = CALENDAR, dr_reason = []\<rparr> None
     = Inr (Some c) \<and> c \<le> 738006"
proof -
  have w: "liquidation_deadline (Some 738000)
      (\<lparr>dr_days = 3, dr_basis = [], dr_reason = []\<rparr>\<lparr>dr_basis := WORKING\<rparr>) (Some {738001}) = Inr (Some 738006)"
    by (simp add: liquidation_deadline_def add_working_days_def add_loop.simps Let_def is_working_day_def
        weekday_def WEEKEND_def valid_date_def max_ordinal_def)
  from calendar_is_the_shorter [OF _ _ w] show ?thesis by (simp add: valid_date_def max_ordinal_def)
qed

end
