(* ===== verification/Cash_Advance.thy ===== *)
theory Cash_Advance
  imports Deadline Claim_Status
begin

text \<open>
  Cash advances, \<open>src/office_connect/modules/reimbursement/services/cash_advance.py\<close>: the only
  writer of the table and of the claim's mirrored deadline. An amount argument is a \<open>Decimal\<close>; the
  audit context and the messages are left out. The partial unique indexes of the two tables are
  checked where a row is written, so a pre-flight check that read a stale table changes nothing.
\<close>

section \<open>Reads\<close>

definition UNLIQUIDATED_STATUSES :: "ca_status set" where
  "UNLIQUIDATED_STATUSES = {CaOpen, CaLiquidationStarted, CaOverdue}"

definition REFUND :: string where "REFUND = ''refund''"
definition EXACT :: string where "EXACT = ''exact''"
definition OVER_ADVANCE :: string where "OVER_ADVANCE = ''over_advance''"
definition SETTLEMENT_MODES :: "string set" where "SETTLEMENT_MODES = {REFUND, EXACT, OVER_ADVANCE}"
definition OVERDUE_NOTE_KEY :: string where "OVERDUE_NOTE_KEY = ''liquidation.overdue_note''"

definition overdue_note :: "reimb_db \<Rightarrow> date \<Rightarrow> string option" where
  "overdue_note db today =
     (case effective_config (configs db) today OVERDUE_NOTE_KEY of
        Some (JObj kvs) \<Rightarrow>
          (case map_of kvs ''text'' of Some (JStr t) \<Rightarrow> if t \<noteq> [] then Some t else None | _ \<Rightarrow> None)
      | _ \<Rightarrow> None)"

definition HOLIDAY_WINDOW_FACTOR :: int where "HOLIDAY_WINDOW_FACTOR = 4"
definition HOLIDAY_WINDOW_PAD :: int where "HOLIDAY_WINDOW_PAD = 14"

definition resolve_deadline ::
  "reimb_db \<Rightarrow> date option \<Rightarrow> date \<Rightarrow> (date option \<times> string option) res" where
  "resolve_deadline db date_return today =
     (case date_return of
        None \<Rightarrow> Inr (None, None)
      | Some d \<Rightarrow>
          rbind (read_rule (effective_config (configs db) today)) (\<lambda>rule.
          rbind (if dr_basis rule = WORKING
                 then rbind (date_add d (dr_days rule * HOLIDAY_WINDOW_FACTOR + HOLIDAY_WINDOW_PAD))
                        (\<lambda>e. Inr (Some (load_nonworking_dates (holidays db) d e)))
                 else Inr None) (\<lambda>nonworking.
          rbind (liquidation_deadline (Some d) rule nonworking) (\<lambda>computed.
          Inr (computed, Some (dr_basis rule))))))"

definition get_cash_advance :: "reimb_db \<Rightarrow> int \<Rightarrow> cash_advance res" where
  "get_cash_advance db k =
     (case find_advance db k of None \<Rightarrow> Inl cash_advance_not_found | Some a \<Rightarrow> Inr a)"

definition open_cash_advance_for :: "reimb_db \<Rightarrow> int \<Rightarrow> cash_advance option" where
  "open_cash_advance_for db claimant =
     find (\<lambda>a. ca_claimant a = claimant \<and> ca_st a \<in> UNLIQUIDATED_STATUSES) (advances db)"

definition list_cash_advances ::
  "reimb_db \<Rightarrow> int option \<Rightarrow> ca_status set option \<Rightarrow> cash_advance list" where
  "list_cash_advances db claimant statuses =
     sort_key (\<lambda>a. (case ca_dv_date a of None \<Rightarrow> (1, 0) | Some d \<Rightarrow> (0 :: int, - d), - ca_id a))
       (filter (\<lambda>a. (claimant = None \<or> claimant = Some (ca_claimant a)) \<and>
                    (case statuses of None \<Rightarrow> True | Some S \<Rightarrow> S = {} \<or> ca_st a \<in> S)) (advances db))"

section \<open>Writes\<close>

definition validate_advance :: "decimal \<Rightarrow> date option \<Rightarrow> date option \<Rightarrow> unit res" where
  "validate_advance amount dv_date date_return =
     rbind (to_money amount) (\<lambda>m.
       if m \<le> 0 then Inl cash_advance_amount_invalid
       else (case (dv_date, date_return) of
               (Some v, Some r) \<Rightarrow> if r < v then Inl cash_advance_dates_invalid else Inr ()
             | _ \<Rightarrow> Inr ()))"

definition guard_section_89 :: "reimb_db \<Rightarrow> int \<Rightarrow> unit res" where
  "guard_section_89 db claimant =
     (case open_cash_advance_for db claimant of
        None \<Rightarrow> Inr ()
      | Some _ \<Rightarrow> Inl cash_advance_unliquidated)"

text \<open>
  The flush of a new row, with \<open>uq_reimb_cash_advances_open_per_claimant\<close> turned into the same error.
\<close>

definition insert_advance :: "reimb_db \<Rightarrow> cash_advance \<Rightarrow> (cash_advance \<times> reimb_db) res" where
  "insert_advance db row =
     (if ca_st row \<in> UNLIQUIDATED_STATUSES \<and>
         (\<exists>a \<in> set (advances db). ca_claimant a = ca_claimant row \<and> ca_st a \<in> UNLIQUIDATED_STATUSES)
      then Inl cash_advance_unliquidated
      else (let a = row\<lparr>ca_id := ca_seq db + 1\<rparr>
            in Inr (a, db\<lparr>advances := advances db @ [a], ca_seq := ca_seq db + 1\<rparr>)))"

text \<open>
  \<open>seen\<close> is the table the pre-flight guard read; a concurrent create may have committed since.
\<close>

definition create_cash_advance_seeing ::
  "reimb_db \<Rightarrow> reimb_db \<Rightarrow> int \<Rightarrow> decimal \<Rightarrow> string option \<Rightarrow> date option \<Rightarrow> string option \<Rightarrow>
     date option \<Rightarrow> instant \<Rightarrow> (cash_advance \<times> reimb_db) res" where
  "create_cash_advance_seeing seen db claimant amount dv_no dv_date dpo_no date_return now =
     rbind (validate_advance amount dv_date date_return) (\<lambda>_.
     rbind (guard_section_89 seen claimant) (\<lambda>_.
     rbind (resolve_deadline db date_return (manila_date now)) (\<lambda>(deadline, basis).
     rbind (to_money amount) (\<lambda>m.
     insert_advance db
       \<lparr>ca_id = 0, ca_claimant = claimant, ca_dv_no = dv_no, ca_dv_date = dv_date, ca_amount = m,
        ca_dpo_no = dpo_no, ca_date_return = date_return, ca_deadline = deadline, ca_basis = basis,
        ca_st = CaOpen, ca_settled_at = None, ca_settled_by = None, ca_mode = None,
        ca_refund_or_no = None, ca_refund_or_date = None, ca_refund_amount = None\<rparr>))))"

definition create_cash_advance ::
  "reimb_db \<Rightarrow> int \<Rightarrow> decimal \<Rightarrow> string option \<Rightarrow> date option \<Rightarrow> string option \<Rightarrow> date option \<Rightarrow>
     instant \<Rightarrow> (cash_advance \<times> reimb_db) res" where
  "create_cash_advance db = create_cash_advance_seeing db db"

text \<open>The keys of \<open>fields\<close> a caller may send; \<open>None\<close> is a key not sent.\<close>

record advance_changes =
  ch_dv_no :: "string option option"
  ch_dv_date :: "date option option"
  ch_dpo_no :: "string option option"
  ch_amount :: "decimal option"
  ch_date_return :: "date option option"

definition sent :: "'a option \<Rightarrow> 'a \<Rightarrow> 'a" where
  "sent change old = (case change of None \<Rightarrow> old | Some v \<Rightarrow> v)"

definition edit_row :: "cash_advance \<Rightarrow> advance_changes \<Rightarrow> int \<Rightarrow> cash_advance" where
  "edit_row row ch m =
     row\<lparr>ca_dv_no := sent (ch_dv_no ch) (ca_dv_no row), ca_dv_date := sent (ch_dv_date ch) (ca_dv_date row),
         ca_dpo_no := sent (ch_dpo_no ch) (ca_dpo_no row), ca_amount := m,
         ca_date_return := sent (ch_date_return ch) (ca_date_return row)\<rparr>"

definition restart_clock :: "reimb_db \<Rightarrow> cash_advance \<Rightarrow> date \<Rightarrow> cash_advance res" where
  "restart_clock db row today =
     rbind (resolve_deadline db (ca_date_return row) today) (\<lambda>(deadline, basis).
       Inr (row\<lparr>ca_deadline := deadline, ca_basis := basis,
                ca_st := (if ca_st row = CaOverdue then CaOpen else ca_st row)\<rparr>))"

definition update_cash_advance ::
  "reimb_db \<Rightarrow> int \<Rightarrow> advance_changes \<Rightarrow> instant \<Rightarrow> (cash_advance \<times> reimb_db) res" where
  "update_cash_advance db k ch now =
     rbind (get_cash_advance db k) (\<lambda>row.
     if ca_st row = CaSettled then Inl cash_advance_settled
     else
       (let amount = sent (ch_amount ch) (Fin (ca_amount row) (-2)) in
        rbind (validate_advance amount (sent (ch_dv_date ch) (ca_dv_date row))
                 (sent (ch_date_return ch) (ca_date_return row))) (\<lambda>_.
        rbind (to_money amount) (\<lambda>m.
        let row1 = edit_row row ch m in
        rbind (if ch_date_return ch \<noteq> None \<and> ch_date_return ch \<noteq> Some (ca_date_return row)
               then restart_clock db row1 (manila_date now) else Inr row1) (\<lambda>row2.
        Inr (row2, db\<lparr>advances := row_upd ca_id k (\<lambda>_. row2) (advances db)\<rparr>))))))"

definition put_advance :: "reimb_db \<Rightarrow> cash_advance \<Rightarrow> reimb_db" where
  "put_advance db a = db\<lparr>advances := row_upd ca_id (ca_id a) (\<lambda>_. a) (advances db)\<rparr>"

definition mark_overdue :: "reimb_db \<Rightarrow> cash_advance \<Rightarrow> bool \<times> reimb_db" where
  "mark_overdue db a =
     (if ca_st a \<notin> {CaOpen, CaLiquidationStarted} then (False, db)
      else (True, put_advance db (a\<lparr>ca_st := CaOverdue\<rparr>)))"

definition mark_liquidation_started :: "reimb_db \<Rightarrow> cash_advance \<Rightarrow> bool \<times> reimb_db" where
  "mark_liquidation_started db a =
     (if ca_st a \<noteq> CaOpen then (False, db)
      else (True, put_advance db (a\<lparr>ca_st := CaLiquidationStarted\<rparr>)))"

definition mark_settled ::
  "reimb_db \<Rightarrow> cash_advance \<Rightarrow> int \<Rightarrow> string \<Rightarrow> decimal option \<Rightarrow> string option \<Rightarrow> date option \<Rightarrow>
     instant \<Rightarrow> (bool \<times> reimb_db) res" where
  "mark_settled db a actor mode refund or_no or_date now =
     (if mode \<notin> SETTLEMENT_MODES then Inl ValueError
      else if ca_st a = CaSettled then Inr (False, db)
      else rbind (case refund of None \<Rightarrow> Inr None | Some r \<Rightarrow> rbind (to_money r) (\<lambda>m. Inr (Some m))) (\<lambda>m.
        Inr (True, put_advance db
          (a\<lparr>ca_st := CaSettled, ca_settled_at := Some now, ca_settled_by := Some actor,
             ca_mode := Some mode, ca_refund_amount := m, ca_refund_or_no := or_no,
             ca_refund_or_date := or_date\<rparr>))))"

section \<open>The mirror on claims\<close>

text \<open>The partial unique index \<open>uq_reimb_claims_live_liquidation_per_advance\<close>.\<close>

definition live_liquidation_of :: "int \<Rightarrow> claim \<Rightarrow> bool" where
  "live_liquidation_of k c \<longleftrightarrow>
     cl_kind c = LIQUIDATION_KIND \<and> cl_cash_advance c = Some k \<and> cl_status c \<noteq> Some CANCELLED"

definition link_claim :: "reimb_db \<Rightarrow> claim \<Rightarrow> cash_advance \<Rightarrow> (claim \<times> reimb_db) res" where
  "link_claim db c a =
     (let c' = c\<lparr>cl_cash_advance := Some (ca_id a), cl_liq_deadline := ca_deadline a\<rparr> in
      if live_liquidation_of (ca_id a) c' \<and>
         (\<exists>x \<in> set (claims db). cl_id x \<noteq> cl_id c \<and> live_liquidation_of (ca_id a) x)
      then Inl IntegrityError
      else Inr (c', db\<lparr>claims := row_upd cl_id (cl_id c) (\<lambda>_. c') (claims db)\<rparr>))"

definition remirror_deadline :: "reimb_db \<Rightarrow> cash_advance \<Rightarrow> nat \<times> reimb_db" where
  "remirror_deadline db a =
     (let linked = (\<lambda>c. cl_cash_advance c = Some (ca_id a) \<and> cl_kind c = LIQUIDATION_KIND) in
      (length (filter linked (claims db)),
       db\<lparr>claims := map (\<lambda>c. if linked c then c\<lparr>cl_liq_deadline := ca_deadline a\<rparr> else c) (claims db)\<rparr>))"

section \<open>The state machine\<close>

text \<open>
  One call on the advances, interleaved with arbitrary edits of the configuration and the holidays.
  A create may have pre-flighted against any earlier table.
\<close>

inductive ca_step :: "reimb_db \<Rightarrow> reimb_db \<Rightarrow> bool" where
  ca_create: "create_cash_advance_seeing seen db claimant amount dv_no dv_date dpo_no date_return now
      = Inr (a, db') \<Longrightarrow> ca_step db db'"
| ca_update: "update_cash_advance db k ch now = Inr (a, db') \<Longrightarrow> ca_step db db'"
| ca_overdue: "a \<in> set (advances db) \<Longrightarrow> mark_overdue db a = (b, db') \<Longrightarrow> ca_step db db'"
| ca_started: "a \<in> set (advances db) \<Longrightarrow> mark_liquidation_started db a = (b, db') \<Longrightarrow> ca_step db db'"
| ca_settle: "a \<in> set (advances db) \<Longrightarrow>
    mark_settled db a actor mode refund or_no or_date now = Inr (b, db') \<Longrightarrow> ca_step db db'"
| ca_link: "link_claim db c a = Inr (c', db') \<Longrightarrow> ca_step db db'"
| ca_remirror: "remirror_deadline db a = (n, db') \<Longrightarrow> ca_step db db'"
| ca_reconfigure: "ca_step db (db\<lparr>configs := cs, holidays := hs\<rparr>)"

definition ca_init :: "reimb_db \<Rightarrow> bool" where
  "ca_init db \<longleftrightarrow> advances db = []"

definition unliquidated :: "cash_advance \<Rightarrow> bool" where
  "unliquidated a \<longleftrightarrow> ca_st a \<in> UNLIQUIDATED_STATUSES"

lemma unliquidated_iff: "unliquidated a \<longleftrightarrow> ca_st a \<noteq> CaSettled"
  by (cases "ca_st a") (auto simp: unliquidated_def UNLIQUIDATED_STATUSES_def)

text \<open>
  A well-formed row: a positive amount, a deadline and its basis exactly when there is a return date,
  a settlement record exactly when settled.
\<close>

definition row_ok :: "cash_advance \<Rightarrow> bool" where
  "row_ok a \<longleftrightarrow> ca_amount a > 0 \<and>
     (ca_deadline a = None \<longleftrightarrow> ca_date_return a = None) \<and>
     (ca_basis a = None \<longleftrightarrow> ca_date_return a = None) \<and>
     (ca_st a = CaSettled \<longleftrightarrow> ca_settled_at a \<noteq> None) \<and>
     (ca_st a = CaSettled \<longleftrightarrow> (\<exists>m \<in> SETTLEMENT_MODES. ca_mode a = Some m))"

definition ca_inv :: "reimb_db \<Rightarrow> bool" where
  "ca_inv db \<longleftrightarrow>
     distinct (map ca_id (advances db)) \<and>
     (\<forall>a \<in> set (advances db). ca_id a \<le> ca_seq db \<and> row_ok a) \<and>
     (\<forall>a \<in> set (advances db). \<forall>b \<in> set (advances db).
        unliquidated a \<and> unliquidated b \<and> ca_claimant a = ca_claimant b \<longrightarrow> ca_id a = ca_id b)"

lemma resolve_deadline_shape:
  assumes "resolve_deadline db date_return today = Inr (deadline, basis)"
  shows "(deadline = None \<longleftrightarrow> date_return = None) \<and> (basis = None \<longleftrightarrow> date_return = None)"
  using assms
  by (auto simp: resolve_deadline_def rbind_eq_Inr liquidation_deadline_def split: option.splits if_splits)

lemma validate_advance_pos:
  "validate_advance amount dv r = Inr () \<Longrightarrow> to_money amount = Inr m \<Longrightarrow> m > 0"
  by (auto simp: validate_advance_def split: if_splits)

text \<open>Every call either keeps the advances, appends one or replaces one by a successor.\<close>

definition succeeds :: "cash_advance \<Rightarrow> cash_advance \<Rightarrow> bool" where
  "succeeds a a' \<longleftrightarrow> ca_id a' = ca_id a \<and> ca_claimant a' = ca_claimant a \<and> ca_st a \<noteq> CaSettled \<and>
     (row_ok a \<longrightarrow> row_ok a') \<and>
     (ca_date_return a' = ca_date_return a \<longrightarrow> ca_deadline a' = ca_deadline a \<and> ca_basis a' = ca_basis a)"

definition ca_change :: "reimb_db \<Rightarrow> reimb_db \<Rightarrow> bool" where
  "ca_change db db' \<longleftrightarrow>
     (advances db' = advances db \<and> ca_seq db' = ca_seq db) \<or>
     (\<exists>a. advances db' = advances db @ [a] \<and> ca_seq db' = ca_seq db + 1 \<and> ca_id a = ca_seq db + 1 \<and>
        row_ok a \<and>
        (\<forall>b \<in> set (advances db). unliquidated b \<longrightarrow> ca_claimant b \<noteq> ca_claimant a)) \<or>
     (\<exists>a a'. a \<in> set (advances db) \<and> succeeds a a' \<and> ca_seq db' = ca_seq db \<and>
        advances db' = row_upd ca_id (ca_id a) (\<lambda>_. a') (advances db))"

lemma create_change:
  assumes "create_cash_advance_seeing seen db claimant amount dv_no dv_date dpo_no date_return now = Inr (a, db')"
  shows "ca_change db db'"
proof -
  from assms obtain deadline basis m where
    v: "validate_advance amount dv_date date_return = Inr ()"
    and d: "resolve_deadline db date_return (manila_date now) = Inr (deadline, basis)"
    and m: "to_money amount = Inr m"
    and ins: "insert_advance db
       \<lparr>ca_id = 0, ca_claimant = claimant, ca_dv_no = dv_no, ca_dv_date = dv_date, ca_amount = m,
        ca_dpo_no = dpo_no, ca_date_return = date_return, ca_deadline = deadline, ca_basis = basis,
        ca_st = CaOpen, ca_settled_at = None, ca_settled_by = None, ca_mode = None,
        ca_refund_or_no = None, ca_refund_or_date = None, ca_refund_amount = None\<rparr> = Inr (a, db')"
    unfolding create_cash_advance_seeing_def by (auto simp: rbind_eq_Inr)
  have "row_ok a" "ca_id a = ca_seq db + 1" "ca_st a = CaOpen" "ca_claimant a = claimant"
    using ins validate_advance_pos [OF v m] resolve_deadline_shape [OF d]
    by (auto simp: insert_advance_def row_ok_def Let_def split: if_splits)
  moreover have "advances db' = advances db @ [a]" "ca_seq db' = ca_seq db + 1"
    "\<forall>b \<in> set (advances db). unliquidated b \<longrightarrow> ca_claimant b \<noteq> claimant"
    using ins by (auto simp: insert_advance_def Let_def unliquidated_def UNLIQUIDATED_STATUSES_def split: if_splits)
  ultimately show ?thesis unfolding ca_change_def by blast
qed

lemma edit_row_succeeds:
  assumes "ca_st a \<noteq> CaSettled" "m > 0" "ch_date_return ch = None \<or> ch_date_return ch = Some (ca_date_return a)"
  shows "succeeds a (edit_row a ch m)"
  using assms by (auto simp: succeeds_def row_ok_def edit_row_def sent_def)

lemma restart_clock_succeeds:
  assumes "restart_clock db (edit_row a ch m) today = Inr a'" "ca_st a \<noteq> CaSettled" "m > 0"
    "ch_date_return ch = Some d" "d \<noteq> ca_date_return a"
  shows "succeeds a a'"
proof -
  from assms(1) obtain deadline basis where
    d: "resolve_deadline db (ca_date_return (edit_row a ch m)) today = Inr (deadline, basis)"
    and a': "a' = (edit_row a ch m)\<lparr>ca_deadline := deadline, ca_basis := basis,
      ca_st := (if ca_st (edit_row a ch m) = CaOverdue then CaOpen else ca_st (edit_row a ch m))\<rparr>"
    by (auto simp: restart_clock_def rbind_eq_Inr)
  from resolve_deadline_shape [OF d] assms(2-) show ?thesis
    unfolding a' by (auto simp: succeeds_def row_ok_def edit_row_def sent_def)
qed

lemma update_change:
  assumes "update_cash_advance db k ch now = Inr (a', db')"
  shows "ca_change db db'"
proof -
  from assms obtain a where a: "find_advance db k = Some a" "ca_st a \<noteq> CaSettled"
    by (auto simp: update_cash_advance_def get_cash_advance_def rbind_eq_Inr split: option.splits if_splits)
  then have mem: "a \<in> set (advances db)" "ca_id a = k" by auto
  from assms a obtain m where
    m: "validate_advance (sent (ch_amount ch) (Fin (ca_amount a) (-2))) (sent (ch_dv_date ch) (ca_dv_date a))
         (sent (ch_date_return ch) (ca_date_return a)) = Inr ()"
      "to_money (sent (ch_amount ch) (Fin (ca_amount a) (-2))) = Inr m"
    and row: "(if ch_date_return ch \<noteq> None \<and> ch_date_return ch \<noteq> Some (ca_date_return a)
        then restart_clock db (edit_row a ch m) (manila_date now) else Inr (edit_row a ch m)) = Inr a'"
    and db': "db' = db\<lparr>advances := row_upd ca_id k (\<lambda>_. a') (advances db)\<rparr>"
    unfolding update_cash_advance_def get_cash_advance_def Let_def by (clarsimp simp: rbind_eq_Inr)
  note pos = validate_advance_pos [OF m]
  have "succeeds a a'"
  proof (cases "ch_date_return ch \<noteq> None \<and> ch_date_return ch \<noteq> Some (ca_date_return a)")
    case True
    with row a(2) pos show ?thesis by (auto intro!: restart_clock_succeeds)
  next
    case False
    with row a(2) pos show ?thesis by (auto intro!: edit_row_succeeds)
  qed
  with mem db' show ?thesis unfolding ca_change_def by auto
qed

lemma put_change: "a \<in> set (advances db) \<Longrightarrow> succeeds a a' \<Longrightarrow> ca_change db (put_advance db a')"
  unfolding ca_change_def put_advance_def by (auto simp: succeeds_def)

lemma ca_step_change: "ca_step db db' \<Longrightarrow> ca_change db db'"
proof (induction rule: ca_step.induct)
  case (ca_overdue a db b db')
  then show ?case
    using put_change [of a db "a\<lparr>ca_st := CaOverdue\<rparr>"]
    by (auto simp: mark_overdue_def succeeds_def row_ok_def ca_change_def split: if_splits)
next
  case (ca_started a db b db')
  then show ?case
    using put_change [of a db "a\<lparr>ca_st := CaLiquidationStarted\<rparr>"]
    by (auto simp: mark_liquidation_started_def succeeds_def row_ok_def ca_change_def split: if_splits)
next
  case (ca_settle a db actor mode refund or_no or_date now b db')
  show ?case
  proof (cases "ca_st a = CaSettled")
    case True
    with ca_settle show ?thesis by (auto simp: mark_settled_def ca_change_def split: if_splits)
  next
    case False
    from False ca_settle obtain m where db': "db' = put_advance db
        (a\<lparr>ca_st := CaSettled, ca_settled_at := Some now, ca_settled_by := Some actor,
           ca_mode := Some mode, ca_refund_amount := m, ca_refund_or_no := or_no, ca_refund_or_date := or_date\<rparr>)"
      "mode \<in> SETTLEMENT_MODES"
      by (auto simp: mark_settled_def rbind_eq_Inr split: if_splits)
    show ?thesis unfolding db' using False db'(2) ca_settle(1)
      by (intro put_change) (auto simp: succeeds_def row_ok_def)
  qed
next
  case (ca_create seen db claimant amount dv_no dv_date dpo_no date_return now a db')
  then show ?case by (rule create_change)
next
  case (ca_update db k ch now a db')
  then show ?case by (rule update_change)
next
  case (ca_link db c a c' db')
  then show ?case by (auto simp: link_claim_def ca_change_def Let_def split: if_splits)
next
  case (ca_remirror db a n db')
  then show ?case by (auto simp: remirror_deadline_def ca_change_def Let_def)
next
  case (ca_reconfigure db cs hs)
  then show ?case by (simp add: ca_change_def)
qed

lemma ca_inv_step:
  assumes "ca_inv db" "ca_step db db'"
  shows "ca_inv db'"
  using ca_step_change [OF assms(2)] unfolding ca_change_def
proof (elim disjE exE conjE)
  show "ca_inv db'" if "advances db' = advances db" "ca_seq db' = ca_seq db"
    using assms(1) unfolding ca_inv_def that .
next
  fix a assume a: "advances db' = advances db @ [a]" "ca_seq db' = ca_seq db + 1" "ca_id a = ca_seq db + 1"
    "row_ok a" "\<forall>b \<in> set (advances db). unliquidated b \<longrightarrow> ca_claimant b \<noteq> ca_claimant a"
  have old: "ca_id b \<le> ca_seq db" "row_ok b" if "b \<in> set (advances db)" for b
    using assms(1) that unfolding ca_inv_def by blast+
  have "distinct (map ca_id (advances db))" using assms(1) unfolding ca_inv_def by blast
  then have "distinct (map ca_id (advances db'))" using old(1) a(3) unfolding a(1) by fastforce
  moreover have "\<forall>b \<in> set (advances db'). ca_id b \<le> ca_seq db' \<and> row_ok b"
    using old a(3,4) unfolding a(1,2) by fastforce
  moreover have "ca_id x = ca_id y" if "x \<in> set (advances db')" "y \<in> set (advances db')"
    "unliquidated x" "unliquidated y" "ca_claimant x = ca_claimant y" for x y
  proof -
    from that(1,2) consider "x \<in> set (advances db)" "y \<in> set (advances db)" | "x = a" "y = a"
      | "x = a" "y \<in> set (advances db)" | "x \<in> set (advances db)" "y = a" unfolding a(1) by auto
    then show ?thesis
    proof cases
      case 1
      with assms(1) that show ?thesis unfolding ca_inv_def by blast
    qed (use a(5) that in auto)
  qed
  ultimately show "ca_inv db'" unfolding ca_inv_def by blast
next
  fix a a' assume a: "a \<in> set (advances db)" "succeeds a a'" "ca_seq db' = ca_seq db"
    "advances db' = row_upd ca_id (ca_id a) (\<lambda>_. a') (advances db)"
  have ids: "ca_id a' = ca_id a" "ca_claimant a' = ca_claimant a" "unliquidated a" "row_ok a'"
  proof -
    have "row_ok a" using assms(1) a(1) unfolding ca_inv_def by blast
    with a(2) show "ca_id a' = ca_id a" "ca_claimant a' = ca_claimant a" "unliquidated a" "row_ok a'"
      by (auto simp: succeeds_def unliquidated_iff)
  qed
  have mem: "b \<in> set (advances db') \<Longrightarrow> b = a' \<or> (b \<in> set (advances db) \<and> ca_id b \<noteq> ca_id a)" for b
    unfolding a(4) by (auto simp: set_row_upd)
  have "distinct (map ca_id (advances db'))" using assms(1) ids(1) unfolding a(4) ca_inv_def by simp
  moreover have "\<forall>b \<in> set (advances db'). ca_id b \<le> ca_seq db' \<and> row_ok b"
  proof
    fix b assume "b \<in> set (advances db')"
    moreover have "ca_id x \<le> ca_seq db \<and> row_ok x" if "x \<in> set (advances db)" for x
      using assms(1) that unfolding ca_inv_def by blast
    ultimately show "ca_id b \<le> ca_seq db' \<and> row_ok b" using mem [of b] a(1,3) ids by auto
  qed
  moreover have "\<forall>x \<in> set (advances db'). \<forall>y \<in> set (advances db').
      unliquidated x \<and> unliquidated y \<and> ca_claimant x = ca_claimant y \<longrightarrow> ca_id x = ca_id y"
  proof (intro ballI impI)
    fix x y assume "x \<in> set (advances db')" "y \<in> set (advances db')"
      "unliquidated x \<and> unliquidated y \<and> ca_claimant x = ca_claimant y"
    moreover have "ca_id x = ca_id y" if "x \<in> set (advances db)" "y \<in> set (advances db)"
      "unliquidated x" "unliquidated y" "ca_claimant x = ca_claimant y" for x y
      using assms(1) that unfolding ca_inv_def by blast
    ultimately show "ca_id x = ca_id y" using mem [of x] mem [of y] a(1) ids by metis
  qed
  ultimately show "ca_inv db'" unfolding ca_inv_def by blast
qed

interpretation cash_advances: invariant_system ca_init ca_step ca_inv
proof unfold_locales
  show "ca_inv db" if "ca_init db" for db using that by (simp add: ca_init_def ca_inv_def)
qed (rule ca_inv_step)

lemma change_row:
  assumes "ca_inv db" "ca_change db db'" "a \<in> set (advances db)"
  shows "\<exists>a' \<in> set (advances db'). a' = a \<or> succeeds a a'"
  using assms(2) unfolding ca_change_def
proof (elim disjE exE conjE)
  fix b b' assume b: "b \<in> set (advances db)" "succeeds b b'"
    "advances db' = row_upd ca_id (ca_id b) (\<lambda>_. b') (advances db)"
  show ?thesis
  proof (cases "ca_id a = ca_id b")
    case True
    have "distinct (map ca_id (advances db))" using assms(1) unfolding ca_inv_def by blast
    with True b(1) assms(3) have "a = b" by (auto simp: distinct_map inj_on_def)
    with b show ?thesis by (auto simp: set_row_upd)
  next
    case False
    with b(3) assms(3) show ?thesis by (auto simp: set_row_upd)
  qed
qed (use assms(3) in auto)

section \<open>The holiday window\<close>

definition all_nonworking :: "reimb_db \<Rightarrow> date set" where
  "all_nonworking db = load_nonworking_dates (holidays db) 1 max_ordinal"

lemma window_dates:
  assumes "valid_date d" "valid_date e"
  shows "load_nonworking_dates (holidays db) d e = all_nonworking db \<inter> {d..e}"
  using assms by (auto simp: load_nonworking_dates_def all_nonworking_def holiday_counts_def valid_date_def)

section \<open>A sample\<close>

definition sample_reimb :: reimb_db where
  "sample_reimb = \<lparr>claims = [], legs = [], advances = [], configs =
      [\<lparr>cf_key = DEADLINE_KEY, cf_value = JObj [(''days'', JInt 3), (''basis'', JStr ''working'')],
        cf_from = 1, cf_tenant = None, cf_active = True\<rparr>],
     rates = [], regions = [], holidays =
      [\<lparr>calendar_date = 738001, holiday_name = ''H'', holiday_type = ''regular'', holiday_is_active = True\<rparr>],
     catalog = [], items = [], joins = [], histories = [], return_reasons = [], return_events = [],
     external_events = [], staffs = [], activities = [],
     cl_seq = 0, lg_seq_id = 0, ca_seq = 0, it_seq = 0, ja_seq = 0, xe_seq = 0\<rparr>"

definition sample_ca_run :: "(cash_advance \<times> reimb_db) res" where
  "sample_ca_run = create_cash_advance sample_reimb 5 (Fin 150000 (-2)) None None None (Some 738000) 63763200000000000"

definition sample_ca :: reimb_db where
  "sample_ca = snd (projr sample_ca_run)"

lemma sample_ca_ok: "is_ok sample_ca_run"
  by code_simp

lemma sample_ca_step: "ca_step sample_reimb sample_ca"
proof -
  obtain a db where r: "sample_ca_run = Inr (a, db)" using sample_ca_ok by (auto simp: is_ok_iff)
  have "sample_ca_run = Inr (a, sample_ca)" unfolding sample_ca_def r by simp
  then show ?thesis unfolding sample_ca_run_def create_cash_advance_def by (rule ca_create)
qed

lemma sample_ca_reach: "reach ca_init ca_step sample_ca"
proof (rule reach_steps)
  show "ca_init sample_reimb" by (simp add: ca_init_def sample_reimb_def)
  show "ca_step\<^sup>*\<^sup>* sample_reimb sample_ca" using sample_ca_step by (rule r_into_rtranclp)
qed

section \<open>Properties\<close>

text \<open>
  C4. PD 1445 section 89: whatever calls run, with pre-flight checks on stale tables and edits of
  the configuration in between, a claimant never has two unliquidated advances; an overdue advance
  keeps blocking.
\<close>

theorem one_unliquidated_advance:
  assumes "reach ca_init ca_step db" "a \<in> set (advances db)" "b \<in> set (advances db)"
    "ca_st a \<in> UNLIQUIDATED_STATUSES" "ca_st b \<in> UNLIQUIDATED_STATUSES" "ca_claimant a = ca_claimant b"
  shows "a = b"
proof -
  note inv = cash_advances.reach_inv [OF assms(1)]
  then have "ca_id a = ca_id b" using assms unfolding ca_inv_def unliquidated_def by blast
  moreover have "distinct (map ca_id (advances db))" using inv unfolding ca_inv_def by blast
  ultimately show ?thesis using assms(2,3) by (auto simp: distinct_map inj_on_def)
qed

theorem one_unliquidated_advance_witness:
  "hd (advances sample_ca) = advances sample_ca ! 0 \<and>
   create_cash_advance sample_ca 5 (Fin 1 0) None None None None 0 = Inl cash_advance_unliquidated"
proof -
  have m: "hd (advances sample_ca) \<in> set (advances sample_ca)" "advances sample_ca ! 0 \<in> set (advances sample_ca)"
    "ca_st (hd (advances sample_ca)) \<in> UNLIQUIDATED_STATUSES" "ca_st (advances sample_ca ! 0) \<in> UNLIQUIDATED_STATUSES"
    "ca_claimant (hd (advances sample_ca)) = ca_claimant (advances sample_ca ! 0)"
    "create_cash_advance sample_ca 5 (Fin 1 0) None None None None 0 = Inl cash_advance_unliquidated"
    by code_simp+
  from one_unliquidated_advance [OF sample_ca_reach m(1-5)] m(6) show ?thesis by blast
qed

text \<open>
  A settled advance is a closed record: no call changes its row. An unsettled one keeps its id and
  claimant, and its pinned deadline and basis unless its return date moved, whatever happened to
  the configuration and the holidays meanwhile.
\<close>

theorem settled_closed_deadline_pinned:
  assumes "reach ca_init ca_step db" "ca_step db db'" "a \<in> set (advances db)"
  shows "\<exists>a' \<in> set (advances db'). ca_id a' = ca_id a \<and> ca_claimant a' = ca_claimant a \<and>
    (ca_st a = CaSettled \<longrightarrow> a' = a) \<and>
    (ca_date_return a' = ca_date_return a \<longrightarrow> ca_deadline a' = ca_deadline a \<and> ca_basis a' = ca_basis a)"
  using change_row [OF cash_advances.reach_inv [OF assms(1)] ca_step_change [OF assms(2)] assms(3)]
  by (auto simp: succeeds_def)

theorem settled_closed_deadline_pinned_witness:
  "\<exists>a' \<in> set (advances (sample_ca\<lparr>configs := [], holidays := []\<rparr>)).
     ca_date_return a' = Some 738000 \<and> ca_deadline a' = Some 738006"
proof -
  have m: "hd (advances sample_ca) \<in> set (advances sample_ca)"
    "ca_date_return (hd (advances sample_ca)) = Some 738000" "ca_deadline (hd (advances sample_ca)) = Some 738006"
    by code_simp+
  have "\<forall>a \<in> set (advances (sample_ca\<lparr>configs := [], holidays := []\<rparr>)). ca_date_return a = Some 738000" by code_simp
  with settled_closed_deadline_pinned [OF sample_ca_reach ca_reconfigure m(1)] m(2,3) show ?thesis by metis
qed

text \<open>
  The holiday window \<open>4 n + 14\<close> is wide enough: unless the holidays in it are so dense that they
  leave fewer than \<open>n\<close> working days in its whole weeks, the deadline computed from the window is
  the deadline under the whole calendar.
\<close>

theorem holiday_window_adequate:
  assumes "read_rule (effective_config (configs db) today) = Inr rule" "dr_basis rule = WORKING"
    "valid_date d" "valid_date (d + 4 * dr_days rule + 14)"
    "nat (dr_days rule) + card (all_nonworking db \<inter> {d<..d + 4 * dr_days rule + 14})
       \<le> 5 * nat ((4 * dr_days rule + 14) div 7)"
  shows "\<exists>e. resolve_deadline db (Some d) today = Inr (Some e, Some WORKING) \<and>
    add_working_days d (dr_days rule) (all_nonworking db) = Inr e"
proof -
  define n where "n = dr_days rule"
  define w where "w = nat ((4 * n + 14) div 7)"
  define N where "N = load_nonworking_dates (holidays db) d (d + 4 * n + 14)"
  have n: "n > 0" using read_rule_sound [OF assms(1)] by (simp add: n_def)
  have N: "N = all_nonworking db \<inter> {d..d + 4 * n + 14}"
    unfolding N_def using assms(3,4) by (intro window_dates) (simp_all add: n_def)
  have w: "7 * int w \<le> 4 * n + 14" using n by (simp add: w_def) presburger
  have "card (all_nonworking db \<inter> {d<..d + 7 * int w}) \<le> card (all_nonworking db \<inter> {d<..d + 4 * n + 14})"
    using w by (intro card_mono) (auto simp: all_nonworking_def load_nonworking_dates_def)
  with assms(5) have c: "nat n + card (all_nonworking db \<inter> {d<..d + 7 * int w}) \<le> 5 * w"
    by (simp add: n_def w_def)
  have "d + 7 * int w \<le> max_ordinal" "1 \<le> d" using w assms(3,4) by (simp_all add: valid_date_def n_def)
  then obtain e where e: "add_working_days d n (all_nonworking db) = Inr e" "d \<le> e" "e \<le> d + 7 * int w"
    using add_working_days_reach [of n d w "all_nonworking db"] n c by auto
  have "add_working_days d n N = Inr e"
  proof (rule add_working_days_local [OF e(1)])
    show "all_nonworking db \<inter> {d<..e} = N \<inter> {d<..e}" using e(3) w unfolding N by auto
  qed (use n \<open>1 \<le> d\<close> in auto)
  then have "resolve_deadline db (Some d) today = Inr (Some e, Some WORKING)"
    using assms(1,2,4) unfolding resolve_deadline_def N_def n_def
    by (simp add: liquidation_deadline_def date_add_def HOLIDAY_WINDOW_FACTOR_def HOLIDAY_WINDOW_PAD_def
        algebra_simps)
  with e(1) show ?thesis by (auto simp: n_def)
qed

theorem holiday_window_adequate_witness:
  "\<exists>e. resolve_deadline sample_reimb (Some 738000) 738000 = Inr (Some e, Some WORKING)"
proof -
  let ?rule = "\<lparr>dr_days = 3, dr_basis = WORKING, dr_reason = ''configured''\<rparr>"
  have r: "read_rule (effective_config (configs sample_reimb) 738000) = Inr ?rule" by code_simp
  have "all_nonworking sample_reimb = {738001}"
    by (simp add: all_nonworking_def load_nonworking_dates_def sample_reimb_def holiday_counts_def
        NON_WORKING_HOLIDAY_TYPES_def max_ordinal_def)
  then have "all_nonworking sample_reimb \<inter> {738000<..738000 + 4 * 3 + 14} = {738001}" by auto
  then have "card (all_nonworking sample_reimb \<inter> {738000<..738000 + 4 * 3 + 14}) = 1" by simp
  with holiday_window_adequate [OF r, of 738000] show ?thesis
    by (auto simp: valid_date_def max_ordinal_def)
qed

text \<open>
  A re-dated overdue advance always returns to \<open>open\<close>: an advance whose liquidation had been
  filed before it went overdue loses its \<open>liquidation_started\<close> status by the edit.
\<close>

theorem redating_forgets_liquidation:
  "case snd (mark_liquidation_started sample_ca (hd (advances sample_ca))) of db1 \<Rightarrow>
   case snd (mark_overdue db1 (hd (advances db1))) of db2 \<Rightarrow>
   case update_cash_advance db2 1 \<lparr>ch_dv_no = None, ch_dv_date = None, ch_dpo_no = None, ch_amount = None,
     ch_date_return = Some (Some 738030)\<rparr> 0 of
     Inr (a, db3) \<Rightarrow> map ca_st (advances db1) = [CaLiquidationStarted] \<and> ca_st a = CaOpen
   | Inl e \<Rightarrow> False"
  by code_simp

end
