(* ===== verification/Iso_Dates.thy ===== *)
theory Iso_Dates
  imports Workdays Money
begin

text \<open>
  Dates as ISO text, the part of Python's \<open>datetime\<close> the modelled code uses: \<open>date.isoformat\<close> and
  \<open>date.fromisoformat\<close> (Python 3.12: calendar and week dates, extended and basic form), by the
  algorithms of the standard library over date ordinals.
\<close>

section \<open>Dates as text\<close>

definition DAYS_BEFORE_MONTH :: "nat list" where
  "DAYS_BEFORE_MONTH = [0, 0, 31, 59, 90, 120, 151, 181, 212, 243, 273, 304, 334]"

definition DAYS_IN_MONTH :: "nat list" where
  "DAYS_IN_MONTH = [0, 31, 28, 31, 30, 31, 30, 31, 31, 30, 31, 30, 31]"

text \<open>Month and day of the \<open>n\<close>-th day of a year, counted from 0: a guess that is at most one too large.\<close>

definition month_day :: "bool \<Rightarrow> nat \<Rightarrow> nat \<times> nat" where
  "month_day leap n =
     (let month = (n + 50) div 32;
          preceding = DAYS_BEFORE_MONTH ! month + (if month > 2 \<and> leap then 1 else 0) in
      if preceding > n
      then (let month' = month - 1;
                preceding' = preceding - (DAYS_IN_MONTH ! month' + (if month' = 2 \<and> leap then 1 else 0))
            in (month', n - preceding' + 1))
      else (month, n - preceding + 1))"

definition ord2ymd :: "nat \<Rightarrow> nat \<times> nat \<times> nat" where
  "ord2ymd ordinal =
     (let n = ordinal - 1;
          n400 = n div 146097; n = n mod 146097;
          n100 = n div 36524; n = n mod 36524;
          n4 = n div 1461; n = n mod 1461;
          n1 = n div 365; n = n mod 365;
          year = n400 * 400 + 1 + n100 * 100 + n4 * 4 + n1 in
      if n1 = 4 \<or> n100 = 4 then (year - 1, 12, 31)
      else (year, month_day (n1 = 3 \<and> (n4 \<noteq> 24 \<or> n100 = 3)) n))"

text \<open>The same over the integers, which is how it is evaluated.\<close>

lemma ord2ymd_int [code]:
  "ord2ymd k =
     (let n = max 0 (int k - 1);
          n400 = n div 146097; n = n mod 146097;
          n100 = n div 36524; n = n mod 36524;
          n4 = n div 1461; n = n mod 1461;
          n1 = n div 365; n = n mod 365;
          year = n400 * 400 + 1 + n100 * 100 + n4 * 4 + n1 in
      if n1 = 4 \<or> n100 = 4 then (nat (year - 1), 12, 31)
      else (nat year, month_day (n1 = 3 \<and> (n4 \<noteq> 24 \<or> n100 = 3)) (nat n)))"
proof -
  have k: "max 0 (int k - 1) = int (k - 1)" by simp
  have a: "int x div numeral v = int (x div numeral v)" "int x mod numeral v = int (x mod numeral v)"
    "(int x = numeral v) = (x = numeral v)" "nat (int x - 1) = x - 1" for x v
    by (simp_all add: zdiv_int zmod_int)
  have y: "int a * 400 + 1 + int b * 100 + int c * 4 + int d = int (a * 400 + 1 + b * 100 + c * 4 + d)" for a b c d by simp
  show ?thesis
    unfolding ord2ymd_def Let_def k a y nat_int ..
qed

definition pad :: "nat \<Rightarrow> nat \<Rightarrow> string" where
  "pad w n = (let s = nat_digits n in replicate (w - length s) (CHR ''0'') @ s)"

definition isoformat :: "date \<Rightarrow> string" where
  "isoformat d = (case ord2ymd (nat d) of (y, m, dd) \<Rightarrow> pad 4 y @ ''-'' @ pad 2 m @ ''-'' @ pad 2 dd)"

section \<open>Dates from text\<close>

definition is_leap :: "nat \<Rightarrow> bool" where
  "is_leap y \<longleftrightarrow> y mod 4 = 0 \<and> (y mod 100 \<noteq> 0 \<or> y mod 400 = 0)"

definition days_in_month :: "nat \<Rightarrow> nat \<Rightarrow> nat" where
  "days_in_month y m = (if m = 2 \<and> is_leap y then 29 else DAYS_IN_MONTH ! m)"

definition days_before_year :: "nat \<Rightarrow> nat" where
  "days_before_year y = (let p = y - 1 in p * 365 + p div 4 - p div 100 + p div 400)"

definition ymd2ord :: "nat \<Rightarrow> nat \<Rightarrow> nat \<Rightarrow> nat" where
  "ymd2ord y m d = days_before_year y + DAYS_BEFORE_MONTH ! m + (if m > 2 \<and> is_leap y then 1 else 0) + d"

text \<open>\<open>date(y, m, d)\<close>, \<open>None\<close> where it raises \<open>ValueError\<close>.\<close>

definition make_date :: "nat \<Rightarrow> nat \<Rightarrow> nat \<Rightarrow> date option" where
  "make_date y m d =
     (if 1 \<le> y \<and> y \<le> 9999 \<and> 1 \<le> m \<and> m \<le> 12 \<and> 1 \<le> d \<and> d \<le> days_in_month y m
      then Some (int (ymd2ord y m d)) else None)"

text \<open>Ordinal of the Monday that starts ISO week 1, and a date by week and weekday.\<close>

definition iso_week1_monday :: "nat \<Rightarrow> int" where
  "iso_week1_monday y =
     (let firstday = int (ymd2ord y 1 1); firstweekday = (firstday + 6) mod 7;
          week1 = firstday - firstweekday
      in if firstweekday > 3 then week1 + 7 else week1)"

definition make_week_date :: "nat \<Rightarrow> nat \<Rightarrow> nat \<Rightarrow> date option" where
  "make_week_date y w d =
     (if 1 \<le> y \<and> y \<le> 9999 \<and> 1 \<le> w \<and> w \<le> 53 \<and> 1 \<le> d \<and> d \<le> 7 \<and>
         (w = 53 \<longrightarrow> (let fw = int (ymd2ord y 1 1) mod 7 in fw = 4 \<or> (fw = 3 \<and> is_leap y)))
      then (let n = iso_week1_monday y + (int w - 1) * 7 + (int d - 1) in
            if 1 \<le> n \<and> n \<le> max_ordinal then Some n else None)
      else None)"

definition digits_at :: "string \<Rightarrow> nat \<Rightarrow> nat \<Rightarrow> nat option" where
  "digits_at s i n =
     (let ds = take n (drop i s) in
      if length ds = n \<and> list_all is_digit ds then Some (digits_val ds) else None)"

definition char_at :: "string \<Rightarrow> nat \<Rightarrow> char option" where
  "char_at s i = (if i < length s then Some (s ! i) else None)"

definition read_calendar_date :: "string \<Rightarrow> nat \<Rightarrow> nat \<Rightarrow> date option" where
  "read_calendar_date s mi di =
     (case (digits_at s 0 4, digits_at s mi 2, digits_at s di 2) of
        (Some y, Some m, Some d) \<Rightarrow> make_date y m d
      | _ \<Rightarrow> None)"

definition read_week_date :: "string \<Rightarrow> nat \<Rightarrow> nat option \<Rightarrow> date option" where
  "read_week_date s wi di =
     (case (digits_at s 0 4, digits_at s wi 2, (case di of None \<Rightarrow> Some 1 | Some i \<Rightarrow> digits_at s i 1)) of
        (Some y, Some w, Some d) \<Rightarrow> make_week_date y w d
      | _ \<Rightarrow> None)"

text \<open>The forms by length: \<open>YYYYMMDD\<close>, \<open>YYYY-MM-DD\<close>, \<open>YYYYWww\<close>, \<open>YYYYWwwD\<close>, \<open>YYYY-Www\<close>, \<open>YYYY-Www-D\<close>.\<close>

definition fromisoformat :: "string \<Rightarrow> date option" where
  "fromisoformat s =
     (if length s \<notin> {7, 8, 10} then None
      else if char_at s 4 = Some (CHR ''-'')
      then (if char_at s 5 = Some (CHR ''W'')
            then (if length s = 8 then read_week_date s 6 None
                  else if length s = 10 \<and> char_at s 8 = Some (CHR ''-'') then read_week_date s 6 (Some 9)
                  else None)
            else if length s = 10 \<and> char_at s 7 = Some (CHR ''-'') then read_calendar_date s 5 8
            else None)
      else if char_at s 4 = Some (CHR ''W'')
      then (if length s = 7 then read_week_date s 5 None
            else if length s = 8 then read_week_date s 5 (Some 7)
            else None)
      else if length s = 8 then read_calendar_date s 4 6
      else None)"

section \<open>Ordinals and calendar dates\<close>

definition month_day_ok :: "bool \<Rightarrow> nat \<Rightarrow> bool" where
  "month_day_ok leap n =
     (case month_day leap n of (m, d) \<Rightarrow>
        1 \<le> m \<and> m \<le> 12 \<and> 1 \<le> d \<and> d \<le> (if m = 2 \<and> leap then 29 else DAYS_IN_MONTH ! m) \<and>
        DAYS_BEFORE_MONTH ! m + (if m > 2 \<and> leap then 1 else 0) + d = n + 1)"

lemma month_day_correct:
  assumes "n < 365"
  shows "month_day_ok leap n"
proof -
  define m where "m = (n + 50) div 32"
  have b: "32 * m \<le> n + 50" "n + 50 < 32 * m + 32" by (simp_all add: m_def)
  have "m \<in> set [1..<13]" using b assms unfolding set_upt atLeastLessThan_iff by linarith
  then have "m = 1 \<or> m = 2 \<or> m = 3 \<or> m = 4 \<or> m = 5 \<or> m = 6 \<or> m = 7 \<or> m = 8 \<or> m = 9 \<or> m = 10 \<or> m = 11 \<or> m = 12"
    by (simp add: upt_rec eval_nat_numeral)
  then show ?thesis using b assms
    unfolding month_day_ok_def month_day_def m_def [symmetric] Let_def
    by (elim disjE) (auto simp: DAYS_BEFORE_MONTH_def DAYS_IN_MONTH_def)
qed

lemma mod_zero_once: "0 < x \<Longrightarrow> x \<le> k \<Longrightarrow> x mod k = 0 \<longleftrightarrow> x = k" for x k :: nat
  by (cases "x = k") auto

text \<open>Days before and leapness of the year with \<open>p = 400 a + 100 b + 4 c + d\<close> years before it.\<close>

lemma year_split:
  fixes a b c d :: nat
  assumes "b \<le> 3" "c \<le> 24" "d \<le> 3" "y = 400 * a + 100 * b + 4 * c + d + 1"
  shows "days_before_year y = 146097 * a + 36524 * b + 1461 * c + 365 * d"
    "is_leap y \<longleftrightarrow> d = 3 \<and> (c \<noteq> 24 \<or> b = 3)"
proof -
  let ?p = "400 * a + 100 * b + 4 * c + d"
  have "?p div 4 = 100 * a + 25 * b + c" "?p div 100 = 4 * a + b" "?p div 400 = a"
    using assms(1-3) by (simp_all add: div_nat_eqI)
  then show "days_before_year y = 146097 * a + 36524 * b + 1461 * c + 365 * d"
    using assms(4) by (simp add: days_before_year_def Let_def)
  have y: "y = 4 * (100 * a + 25 * b + c) + (d + 1)" "y = 100 * (4 * a + b) + (4 * c + d + 1)"
    "y = 400 * a + (100 * b + 4 * c + d + 1)"
    using assms(4) by simp_all
  have "y mod 4 = 0 \<longleftrightarrow> d + 1 = 4"
    using assms(3) by (subst y(1), subst mod_mult_self4) (intro mod_zero_once; simp)
  moreover have "y mod 100 = 0 \<longleftrightarrow> 4 * c + d + 1 = 100"
    using assms(2,3) by (subst y(2), subst mod_mult_self4) (intro mod_zero_once; simp)
  moreover have "y mod 400 = 0 \<longleftrightarrow> 100 * b + 4 * c + d + 1 = 400"
    using assms(1-3) by (subst y(3), subst mod_mult_self4) (intro mod_zero_once; simp)
  ultimately show "is_leap y \<longleftrightarrow> d = 3 \<and> (c \<noteq> 24 \<or> b = 3)"
    unfolding is_leap_def using assms(1-3) by auto
qed

lemma ord2ymd_correct:
  assumes "1 \<le> n" "n \<le> 3652059" "ord2ymd n = (y, m, d)"
  shows "1 \<le> y" "y \<le> 9999" "1 \<le> m" "m \<le> 12" "1 \<le> d" "d \<le> days_in_month y m" "ymd2ord y m d = n"
proof -
  define a where "a = (n - 1) div 146097"
  define r1 where "r1 = (n - 1) mod 146097"
  define b where "b = r1 div 36524"
  define r2 where "r2 = r1 mod 36524"
  define c where "c = r2 div 1461"
  define r3 where "r3 = r2 mod 1461"
  define e where "e = r3 div 365"
  define r4 where "r4 = r3 mod 365"
  note defs = a_def r1_def b_def r2_def c_def r3_def e_def r4_def
  have eq: "ord2ymd n = (if e = 4 \<or> b = 4 then (a * 400 + 1 + b * 100 + c * 4 + e - 1, 12, 31)
      else (a * 400 + 1 + b * 100 + c * 4 + e, month_day (e = 3 \<and> (c \<noteq> 24 \<or> b = 3)) r4))"
    unfolding ord2ymd_def Let_def defs by (rule refl)
  have n: "n = 146097 * a + 36524 * b + 1461 * c + 365 * e + r4 + 1"
    using assms(1) by (simp add: defs)
  have r: "r1 < 146097" "r2 < 36524" "r3 < 1461" "r4 < 365" by (simp_all add: defs)
  have r1: "r1 = 36524 * b + r2" and r2: "r2 = 1461 * c + r3" and r3: "r3 = 365 * e + r4"
    by (simp_all add: defs)
  have le: "b \<le> 4" "c \<le> 24" "e \<le> 4" using r r1 r2 r3 by linarith+
  have "1 \<le> y \<and> y \<le> 9999 \<and> 1 \<le> m \<and> m \<le> 12 \<and> 1 \<le> d \<and> d \<le> days_in_month y m \<and> ymd2ord y m d = n"
  proof (cases "e = 4 \<or> b = 4")
    case True
    then have ymd: "y = 400 * a + 100 * b + 4 * c + e" "m = 12" "d = 31"
      using assms(3) by (auto simp: eq)
    have "\<exists>b' c'. b' \<le> 3 \<and> c' \<le> 24 \<and> (c' \<noteq> 24 \<or> b' = 3) \<and> y = 400 * a + 100 * b' + 4 * c' + 3 + 1 \<and>
        n = 146097 * a + 36524 * b' + 1461 * c' + 365 * 3 + 366"
    proof (cases "b = 4")
      case True
      then have "r2 = 0" "c = 0" "e = 0" "r4 = 0" using r r1 r2 r3 by linarith+
      with True show ?thesis using n ymd(1) by (intro exI [of _ 3] exI [of _ 24]) simp
    next
      case False
      with True have "e = 4" "r4 = 0" "c \<noteq> 24" using r r2 r3 by linarith+
      with False show ?thesis using n ymd(1) le by (intro exI [of _ b] exI [of _ c]) simp
    qed
    then obtain b' c' where bc: "b' \<le> 3" "c' \<le> 24" "c' \<noteq> 24 \<or> b' = 3"
      "y = 400 * a + 100 * b' + 4 * c' + 3 + 1" "n = 146097 * a + 36524 * b' + 1461 * c' + 365 * 3 + 366" by blast
    have "y \<le> 9999" using bc assms(2) by linarith
    then show ?thesis
      using year_split [OF bc(1,2) _ bc(4)] bc ymd(2,3)
      by (simp add: ymd2ord_def days_in_month_def DAYS_BEFORE_MONTH_def DAYS_IN_MONTH_def)
  next
    case False
    then have bc: "b \<le> 3" "c \<le> 24" "e \<le> 3" using le by auto
    have y: "y = 400 * a + 100 * b + 4 * c + e + 1" and md: "month_day (is_leap y) r4 = (m, d)"
      using assms(3) False year_split(2) [OF bc refl, of a]
      by (auto simp: eq ac_simps)
    have "y \<le> 9999" using bc assms(2) n y by linarith
    moreover have "1 \<le> m" "m \<le> 12" "1 \<le> d" "d \<le> days_in_month y m"
      "DAYS_BEFORE_MONTH ! m + (if m > 2 \<and> is_leap y then 1 else 0) + d = r4 + 1"
      using month_day_correct [OF r(4), of "is_leap y"] by (simp_all add: month_day_ok_def md days_in_month_def)
    moreover have "days_before_year y + r4 + 1 = n" using year_split(1) [OF bc y] n by simp
    moreover have "1 \<le> y" using y by simp
    ultimately show ?thesis by (simp add: ymd2ord_def)
  qed
  then show "1 \<le> y" "y \<le> 9999" "1 \<le> m" "m \<le> 12" "1 \<le> d" "d \<le> days_in_month y m" "ymd2ord y m d = n" by auto
qed

section \<open>Printing and reading\<close>

lemma nat_digits_length: "0 < w \<Longrightarrow> n < 10 ^ w \<Longrightarrow> length (nat_digits n) \<le> w"
proof (induction n arbitrary: w rule: nat_digits.induct)
  case (1 n)
  show ?case
  proof (cases "n < 10")
    case False
    then obtain v where w: "w = Suc v" "v \<noteq> 0" using "1.prems" by (cases w; cases "w - 1") auto
    then have "n div 10 < 10 ^ v" using "1.prems"(2) by (simp add: div_less_iff_less_mult mult.commute)
    then have "length (nat_digits (n div 10)) \<le> v" using "1.IH" [OF False, of v] w by simp
    then show ?thesis using False w by (subst nat_digits.simps) simp
  qed (use "1.prems" in \<open>subst nat_digits.simps; simp\<close>)
qed

lemma fold_zeros: "fold (\<lambda>c n. 10 * n + the (digit_val c)) (replicate k (CHR ''0'')) 0 = 0"
  by (induction k) (simp_all add: digit_val_def)

lemma pad_reads:
  assumes "0 < w" "n < 10 ^ w"
  shows "length (pad w n) = w" "list_all is_digit (pad w n)" "digits_val (pad w n) = n"
proof -
  have "is_digit CHR ''0''" by (simp add: is_digit_def digit_val_def)
  then show "length (pad w n) = w" "list_all is_digit (pad w n)" "digits_val (pad w n) = n"
    using nat_digits_length [OF assms] nat_digits_all [of n] nat_digits_val [of n] fold_zeros
    by (auto simp: pad_def Let_def digits_val_def list_all_iff)
qed

lemma fromisoformat_fields:
  assumes "length a = 4" "length b = 2" "length c = 2"
    "list_all is_digit a" "list_all is_digit b" "list_all is_digit c"
  shows "fromisoformat (a @ ''-'' @ b @ ''-'' @ c) = make_date (digits_val a) (digits_val b) (digits_val c)"
proof -
  obtain b0 b1 where b: "b = [b0, b1]" using assms(2) by (auto simp: length_Suc_conv numeral_2_eq_2)
  have "b0 \<noteq> CHR ''W''" using assms(5) by (auto simp: b is_digit_def digit_val_def)
  then show ?thesis using assms
    by (simp add: fromisoformat_def char_at_def nth_append b read_calendar_date_def digits_at_def)
qed

lemma isoformat_reads:
  assumes "1 \<le> d" "d \<le> max_ordinal"
  shows "length (isoformat d) = 10 \<and> fromisoformat (isoformat d) = Some d"
proof -
  obtain y m dd where ymd: "ord2ymd (nat d) = (y, m, dd)" by (cases "ord2ymd (nat d)") auto
  have n: "1 \<le> nat d" "nat d \<le> 3652059" using assms by (simp_all add: max_ordinal_def)
  note ok = ord2ymd_correct [OF n ymd]
  have "days_in_month y m \<le> 31"
  proof -
    have "m \<in> set [1..<13]" using ok(3,4) unfolding set_upt atLeastLessThan_iff by linarith
    then show ?thesis by (auto simp: upt_rec days_in_month_def DAYS_IN_MONTH_def)
  qed
  then have b: "y < 10 ^ 4" "m < 10 ^ 2" "dd < 10 ^ 2" using ok by auto
  note pads = pad_reads [OF _ b(1)] pad_reads [OF _ b(2)] pad_reads [OF _ b(3)]
  have "fromisoformat (isoformat d) = make_date y m dd"
    using pads by (simp only: isoformat_def ymd prod.case) (subst fromisoformat_fields; simp)
  moreover have "length (isoformat d) = 10" using pads by (simp add: isoformat_def ymd)
  ultimately show ?thesis using ok n by (simp add: make_date_def)
qed

text \<open>
  Every date from 0001-01-01 to 9999-12-31 survives its ISO text, leap days and century years included.
\<close>

lemma isoformat_roundtrip: "1 \<le> d \<Longrightarrow> d \<le> max_ordinal \<Longrightarrow> fromisoformat (take 10 (isoformat d)) = Some d"
  using isoformat_reads by simp

end
