(* ===== verification/Claim_Totals.thy ===== *)
theory Claim_Totals
  imports Per_Diem Cash_Advance Iso_Dates
begin

text \<open>
  Persisting the computation, \<open>src/office_connect/modules/reimbursement/services/compute.py\<close>: the
  computed columns of the legs and the \<open>totals\<close> snapshot of the claim. \<open>stamp\<close> is the text of
  \<open>utc_now().isoformat()\<close>.
\<close>

section \<open>Model\<close>

definition TOTALS_VERSION :: int where "TOTALS_VERSION = 1"

definition money_obj :: "(string \<times> int) list \<Rightarrow> json" where
  "money_obj kvs = JObj (map (\<lambda>(k, v). (k, JStr (money_str v))) kvs)"

definition day_json :: "day_breakdown \<Rightarrow> json" where
  "day_json d = JObj
     [(''date'', JStr (isoformat (bd_day d))), (''day_type'', JStr (bd_type d)),
      (''leg_id'', case bd_leg d of None \<Rightarrow> JNull | Some i \<Rightarrow> JInt i),
      (''region_code'', JStr (bd_region d)), (''cluster'', JStr (bd_cluster d)),
      (''daily_rate'', JStr (money_str (bd_rate d))), (''pct'', JInt (bd_pct d)),
      (''components'', money_obj (bd_components d)), (''deductions'', money_obj (bd_deductions d)),
      (''amount'', JStr (money_str (bd_amount d))), (''gated_50km'', JBool (bd_gated d))]"

definition totals_json :: "pd_result \<Rightarrow> int \<Rightarrow> int \<Rightarrow> int \<Rightarrow> int \<Rightarrow> int \<Rightarrow> string \<Rightarrow> json" where
  "totals_json r other grand advance to_reimburse to_refund stamp = JObj
     [(''version'', JInt TOTALS_VERSION), (''per_diem'', JStr (money_str (pr_per_diem r))),
      (''transport'', JStr (money_str (pr_transport r))), (''other'', JStr (money_str other)),
      (''grand'', JStr (money_str grand)), (''advance'', JStr (money_str advance)),
      (''to_reimburse'', JStr (money_str to_reimburse)), (''to_refund'', JStr (money_str to_refund)),
      (''computed_at'', JStr stamp), (''days'', JList (map day_json (pr_days r)))]"

definition leg_input_of :: "leg \<Rightarrow> leg_input" where
  "leg_input_of l = \<lparr>li_id = Some (lg_id l), li_seq = lg_seq l, li_date = lg_date l, li_region = lg_region l,
     li_mode = lg_mode l, li_fare = lg_fare l, li_lodging = lg_lodging l, li_meals = lg_meals l\<rparr>"

definition claim_legs :: "reimb_db \<Rightarrow> int \<Rightarrow> leg list" where
  "claim_legs db k = sort_key (\<lambda>l. (lg_seq l, lg_id l)) (filter (\<lambda>l. lg_claim l = k) (legs db))"

definition claim_input :: "reimb_db \<Rightarrow> claim \<Rightarrow> pd_input" where
  "claim_input db c = \<lparr>pi_legs = map leg_input_of (claim_legs db (cl_id c)),
     pi_depart = cl_date_depart c, pi_return = cl_date_return c, pi_region = cl_region c,
     pi_within_50km = cl_within_50km c, pi_overnight = cl_overnight c,
     pi_regions = filter rg_active (regions db), pi_rates = filter rt_active (rates db),
     pi_configs = filter (\<lambda>r. cf_key r \<in> {APPORTIONMENT_KEY, DEPARTURE_RATE_KEY} \<and> cf_active r) (configs db)\<rparr>"

definition write_leg :: "pd_result \<Rightarrow> leg \<Rightarrow> leg" where
  "write_leg r l =
     (let (pct, amount) = (case pr_leg_values r (lg_id l) of None \<Rightarrow> (0, 0) | Some v \<Rightarrow> v) in
      l\<lparr>lg_pct := Some pct, lg_amount := Some amount,
        lg_total := Some (counted_fare (leg_input_of l) + amount)\<rparr>)"

definition claim_advance :: "reimb_db \<Rightarrow> claim \<Rightarrow> int" where
  "claim_advance db c =
     (case cl_cash_advance c of
        None \<Rightarrow> 0
      | Some k \<Rightarrow> (case find_advance db k of None \<Rightarrow> 0 | Some a \<Rightarrow> ca_amount a))"

fun negative :: "decimal \<Rightarrow> bool" where
  "negative (Fin c e) = (c < 0)"
| "negative (Infinity neg) = neg"
| "negative (NaN s) = False"

definition priced_claim :: "claim \<Rightarrow> pd_result \<Rightarrow> int \<Rightarrow> int \<Rightarrow> string \<Rightarrow> claim" where
  "priced_claim c r other advance stamp =
     (let grand = pr_per_diem r + pr_transport r + other in
      c\<lparr>cl_other_total := other,
        cl_totals := totals_json r other grand advance (fst (settle grand advance))
          (snd (settle grand advance)) stamp\<rparr>)"

definition compute_claim_totals ::
  "reimb_db \<Rightarrow> int \<Rightarrow> decimal option \<Rightarrow> string \<Rightarrow> (pd_result \<times> reimb_db) res" where
  "compute_claim_totals db k other_total stamp =
     (if (case other_total of Some d \<Rightarrow> is_nan d | None \<Rightarrow> False) then Inl InvalidOperation
      else if (case other_total of None \<Rightarrow> False | Some d \<Rightarrow> negative d) then Inl ValueError
      else (case get_claim db k of
        None \<Rightarrow> Inl claim_not_found
      | Some c \<Rightarrow>
          rbind (compute_per_diem (claim_input db c)) (\<lambda>r.
          rbind (case other_total of None \<Rightarrow> Inr (cl_other_total c) | Some d \<Rightarrow> to_money d) (\<lambda>other.
          Inr (r, db\<lparr>
            legs := map (\<lambda>l. if lg_claim l = k then write_leg r l else l) (legs db),
            claims := row_upd cl_id k (\<lambda>_. priced_claim c r other (claim_advance db c) stamp) (claims db)\<rparr>)))))"

section \<open>Lemmas\<close>

lemma compute_claim_totals_cases:
  assumes "compute_claim_totals db k other_total stamp = Inr (r, db')"
  obtains c other where "get_claim db k = Some c" "compute_per_diem (claim_input db c) = Inr r"
    "db' = db\<lparr>legs := map (\<lambda>l. if lg_claim l = k then write_leg r l else l) (legs db),
       claims := row_upd cl_id k (\<lambda>_. priced_claim c r other (claim_advance db c) stamp) (claims db)\<rparr>"
  using assms unfolding compute_claim_totals_def
  by (clarsimp simp: rbind_eq_Inr split: option.splits if_splits)

lemma priced_claim_id [simp]: "cl_id (priced_claim c r other advance stamp) = cl_id c"
  by (simp add: priced_claim_def Let_def)

lemma priced_claim_stored:
  assumes "compute_claim_totals db k other_total stamp = Inr (r, db')"
  shows "\<exists>c other. get_claim db k = Some c \<and> get_claim db' k = Some (priced_claim c r other (claim_advance db c) stamp)"
proof -
  obtain c other where c: "get_claim db k = Some c"
    "db' = db\<lparr>legs := map (\<lambda>l. if lg_claim l = k then write_leg r l else l) (legs db),
       claims := row_upd cl_id k (\<lambda>_. priced_claim c r other (claim_advance db c) stamp) (claims db)\<rparr>"
    by (rule compute_claim_totals_cases [OF assms])
  moreover have "cl_id c = k" using c(1) by auto
  ultimately show ?thesis by (auto simp: row_get_upd)
qed

lemma priced_claim_again:
  "priced_claim (priced_claim c r other advance stamp) r other advance stamp = priced_claim c r other advance stamp"
  "cl_other_total (priced_claim c r other advance stamp) = other"
  "cl_cash_advance (priced_claim c r other advance stamp) = cl_cash_advance c"
  by (simp_all add: priced_claim_def Let_def)

text \<open>A money field of the snapshot, read back.\<close>

definition totals_money :: "json \<Rightarrow> string \<Rightarrow> int option" where
  "totals_money t k =
     (case obj_get t k of
        Some (JStr s) \<Rightarrow> (case parse_decimal s of
                            Some d \<Rightarrow> (case to_money d of Inr m \<Rightarrow> Some m | Inl _ \<Rightarrow> None)
                          | None \<Rightarrow> None)
      | _ \<Rightarrow> None)"

lemma totals_money_str: "obj_get t k = Some (JStr (money_str m)) \<Longrightarrow> totals_money t k = Some m"
  by (simp add: totals_money_def money_str_decimal)

lemma totals_fields:
  "totals_money (totals_json r other grand advance a b stamp) ''per_diem'' = Some (pr_per_diem r)"
  "totals_money (totals_json r other grand advance a b stamp) ''transport'' = Some (pr_transport r)"
  "totals_money (totals_json r other grand advance a b stamp) ''other'' = Some other"
  "totals_money (totals_json r other grand advance a b stamp) ''grand'' = Some grand"
  "totals_money (totals_json r other grand advance a b stamp) ''advance'' = Some advance"
  "totals_money (totals_json r other grand advance a b stamp) ''to_reimburse'' = Some a"
  "totals_money (totals_json r other grand advance a b stamp) ''to_refund'' = Some b"
  by (rule totals_money_str, simp add: totals_json_def)+

text \<open>Writing the computed columns does not change what the computation reads.\<close>

lemma write_leg_same [simp]:
  "leg_input_of (write_leg r l) = leg_input_of l" "lg_claim (write_leg r l) = lg_claim l"
  "lg_seq (write_leg r l) = lg_seq l" "lg_id (write_leg r l) = lg_id l"
  by (simp_all add: write_leg_def leg_input_of_def split: prod.splits)

lemma sort_key_map_same:
  assumes "\<And>x. f (g x) = f x"
  shows "sort_key f (map g xs) = map g (sort_key f xs)"
proof -
  have "insort_key f (g x) (map g ys) = map g (insort_key f x ys)" for x ys
    by (induction ys) (simp_all add: assms)
  then show ?thesis by (induction xs) simp_all
qed

lemma claim_legs_written:
  "map leg_input_of (claim_legs (db\<lparr>legs := map (\<lambda>l. if lg_claim l = k then write_leg r l else l) (legs db), claims := cs\<rparr>) j)
    = map leg_input_of (claim_legs db j)"
proof -
  let ?g = "\<lambda>l. if lg_claim l = k then write_leg r l else l"
  have "filter (\<lambda>l. lg_claim l = j) (map ?g ls) = map ?g (filter (\<lambda>l. lg_claim l = j) ls)" for ls
    by (induction ls) auto
  then show ?thesis
    by (simp add: claim_legs_def sort_key_map_same comp_def if_distrib [of leg_input_of] cong: if_cong)
qed

section \<open>A sample claim\<close>

definition sample_claim :: claim where
  "sample_claim = \<lparr>cl_id = 1, cl_ref_no = None, cl_kind = ''reimbursement'', cl_claimant = 5,
     cl_activity = None, cl_instance = None, cl_dpo_no = None, cl_dpo_date = None, cl_dpo_document = None,
     cl_purpose = None, cl_destination = None, cl_region = Some ''13'', cl_date_depart = Some 100, cl_date_return = Some 102,
     cl_within_50km = False, cl_overnight = True, cl_fund_source = None, cl_jo_cos = False, cl_cash_advance = None, cl_spawned_from = None,
     cl_other_total = 0, cl_payout_ref = None, cl_paid_on = None, cl_paid_by = None, cl_status = Some ''draft'', cl_holder_kind = None,
     cl_holder = None, cl_holder_since = None, cl_next_action = None, cl_liq_deadline = None,
     cl_totals = JObj []\<rparr>"

definition sample_leg :: "leg_input \<Rightarrow> leg" where
  "sample_leg l = \<lparr>lg_id = the (li_id l), lg_claim = 1, lg_seq = li_seq l, lg_date = li_date l,
     lg_place = None, lg_region = li_region l, lg_depart = None, lg_arrive = None, lg_mode = li_mode l, lg_fare = li_fare l, lg_lodging = li_lodging l,
     lg_meals = li_meals l, lg_pct = None, lg_amount = None, lg_total = None\<rparr>"

definition sample_unpriced :: reimb_db where
  "sample_unpriced = sample_reimb\<lparr>claims := [sample_claim], legs := map sample_leg (pi_legs sample_trip),
     configs := pi_configs sample_trip, rates := pi_rates sample_trip, regions := pi_regions sample_trip\<rparr>"

definition sample_totals :: "(pd_result \<times> reimb_db) res" where
  "sample_totals = compute_claim_totals sample_unpriced 1 (Some (Fin 12 1)) ''t''"

definition sample_priced :: reimb_db where
  "sample_priced = snd (projr sample_totals)"

lemma sample_totals_run: "\<exists>db'. sample_totals = Inr (sample_pd, db')"
proof -
  have inp: "claim_input sample_unpriced sample_claim = sample_trip" by code_simp
  have get: "get_claim sample_unpriced 1 = Some sample_claim" by code_simp
  have other: "to_money (Fin 12 1) = Inr 12000" by code_simp
  show ?thesis
    unfolding sample_totals_def compute_claim_totals_def get option.case inp sample_pd_ok rbind.simps other
    by simp
qed

lemma sample_totals_ok: "sample_totals = Inr (sample_pd, sample_priced)"
  using sample_totals_run unfolding sample_priced_def by (metis snd_conv sum.sel(2))

section \<open>Properties\<close>

text \<open>
  C14. The stored snapshot balances and is lossless: reading its money strings back, the grand total is
  the per diem plus the transport plus the other expenses, and what is still owed less what is to be
  refunded is the grand total less the advance, with at most one of the two not zero.
\<close>

theorem totals_snapshot_balances:
  assumes "compute_claim_totals db k other_total stamp = Inr (r, db')"
  shows "\<exists>c. get_claim db' k = Some c \<and>
    totals_money (cl_totals c) ''per_diem'' = Some (pr_per_diem r) \<and>
    totals_money (cl_totals c) ''transport'' = Some (pr_transport r) \<and>
    totals_money (cl_totals c) ''other'' = Some (cl_other_total c) \<and>
    (\<exists>grand advance rb rf. totals_money (cl_totals c) ''grand'' = Some grand \<and>
       totals_money (cl_totals c) ''advance'' = Some advance \<and>
       totals_money (cl_totals c) ''to_reimburse'' = Some rb \<and>
       totals_money (cl_totals c) ''to_refund'' = Some rf \<and>
       grand = pr_per_diem r + pr_transport r + cl_other_total c \<and>
       rb - rf = grand - advance \<and> rb \<ge> 0 \<and> rf \<ge> 0 \<and> (rb = 0 \<or> rf = 0))"
  using priced_claim_stored [OF assms]
  by (auto simp: priced_claim_def Let_def totals_fields settle_def max_def)

theorem totals_snapshot_balances_witness:
  "\<exists>c. get_claim sample_priced 1 = Some c \<and> totals_money (cl_totals c) ''per_diem'' = Some 484013"
proof -
  have "pr_per_diem sample_pd = 484013" by code_simp
  with totals_snapshot_balances [OF sample_totals_ok [unfolded sample_totals_def]] show ?thesis by auto
qed

text \<open>
  Recomputing is idempotent: a second computation on the result, with the stored other expenses,
  returns the same breakdown and the same database.
\<close>

theorem recompute_idempotent:
  assumes "compute_claim_totals db k other_total stamp = Inr (r, db')"
  shows "compute_claim_totals db' k None stamp = Inr (r, db')"
proof -
  obtain c other where c: "get_claim db k = Some c" "compute_per_diem (claim_input db c) = Inr r"
    and db': "db' = db\<lparr>legs := map (\<lambda>l. if lg_claim l = k then write_leg r l else l) (legs db),
       claims := row_upd cl_id k (\<lambda>_. priced_claim c r other (claim_advance db c) stamp) (claims db)\<rparr>"
    by (rule compute_claim_totals_cases [OF assms])
  define c' where "c' = priced_claim c r other (claim_advance db c) stamp"
  have ids: "cl_id c = k" "cl_id c' = k" using c(1) by (auto simp: c'_def)
  then have get: "get_claim db' k = Some c'" using c(1) by (simp add: db' c'_def row_get_upd)
  have inp: "claim_input db' c' = claim_input db c"
    unfolding claim_input_def db' using claim_legs_written by (simp add: c'_def priced_claim_def Let_def)
  have advs: "advances db' = advances db" by (simp add: db')
  have adv: "claim_advance db' c' = claim_advance db c"
    unfolding claim_advance_def advs by (simp add: c'_def priced_claim_again)
  have again: "priced_claim c' r (cl_other_total c') (claim_advance db c) stamp = c'"
    by (simp add: c'_def priced_claim_again)
  have "map (\<lambda>l. if lg_claim l = k then write_leg r l else l) (legs db') = legs db'"
    by (simp add: db' write_leg_def leg_input_of_def split: prod.splits)
  moreover have "row_upd cl_id k (\<lambda>_. c') (claims db') = claims db'"
    by (simp add: db' c'_def [symmetric] row_upd_def ids)
  ultimately show ?thesis
    unfolding compute_claim_totals_def get option.case inp c(2) rbind.simps adv again by simp
qed

theorem recompute_idempotent_witness:
  "snd (projr (compute_claim_totals sample_priced 1 None ''t'')) = sample_priced"
  using recompute_idempotent [OF sample_totals_ok [unfolded sample_totals_def]] by simp

end
