(* ===== verification/Checklist_Rules.thy ===== *)
theory Checklist_Rules
  imports Json_Values "HOL-Library.Sublist"
begin

text \<open>
  The requirement grammar of the checklist engine, \<open>src/office_connect/core/checklist/grammar.py\<close> and
  \<open>errors.py\<close>. Rules and facts are the JSON values of the catalog and of the fact builder, which
  emits no \<open>Decimal\<close>, \<open>date\<close> or set, so the branches for those are absent. \<open>None\<close> of a
  \<open>json option\<close> is the sentinel \<open>MISSING\<close>. A comparison that Python's \<open>decimal\<close> refuses is the
  exception \<open>InvalidOperation\<close>.
\<close>

section \<open>Python equality and membership\<close>

lemma size_element: "x \<in> set xs \<Longrightarrow> size x < size (JList xs)"
  using size_list_estimation' [of x xs "size x" size] by simp

lemma size_value: "kv \<in> set kvs \<Longrightarrow> size (snd kv) < size (JObj kvs)"
  using size_list_estimation' [of kv kvs "size (snd kv)" "size_prod (\<lambda>x. 0) size"] by (cases kv) auto

text \<open>
  \<open>==\<close> on decoded values: a \<open>bool\<close> is the number 0 or 1, numbers compare by value, dicts without
  regard to order.
\<close>

fun num_of :: "json \<Rightarrow> decimal option" where
  "num_of (JBool b) = Some (Fin (if b then 1 else 0) 0)"
| "num_of (JInt n) = Some (Fin n 0)"
| "num_of (JFloat c e) = Some (Fin c e)"
| "num_of _ = None"

definition same_number :: "decimal \<Rightarrow> decimal \<Rightarrow> bool" where
  "same_number a b \<longleftrightarrow> \<not> dec_less a b \<and> \<not> dec_less b a"

function (sequential) py_eq :: "json \<Rightarrow> json \<Rightarrow> bool" where
  "py_eq JNull JNull = True"
| "py_eq (JStr a) (JStr b) = (a = b)"
| "py_eq (JList xs) (JList ys) = (length xs = length ys \<and> (\<forall>p \<in> set (zip xs ys). py_eq (fst p) (snd p)))"
| "py_eq (JObj xs) (JObj ys) =
     (length xs = length ys \<and>
      (\<forall>p \<in> set xs. case map_of ys (fst p) of None \<Rightarrow> False | Some w \<Rightarrow> py_eq (snd p) w))"
| "py_eq a b = (case (num_of a, num_of b) of (Some x, Some y) \<Rightarrow> same_number x y | _ \<Rightarrow> False)"
  by pat_completeness auto

termination
  by (relation "measure (\<lambda>p. size (fst p))")
    (auto simp: size_value simp del: json.size intro!: size_element elim: in_set_zipE)

text \<open>\<open>p in s\<close> on strings, \<open>x in xs\<close> on lists.\<close>

fun substring :: "string \<Rightarrow> string \<Rightarrow> bool" where
  "substring p [] = (p = [])"
| "substring p (c # s) = (prefix p (c # s) \<or> substring p s)"

section \<open>Field resolution\<close>

fun split_dots :: "string \<Rightarrow> string list" where
  "split_dots [] = [[]]"
| "split_dots (c # s) =
     (if c = CHR ''.'' then [] # split_dots s
      else (case split_dots s of [] \<Rightarrow> [[c]] | w # ws \<Rightarrow> (c # w) # ws))"

definition project :: "json list \<Rightarrow> string \<Rightarrow> json list" where
  "project xs segment = List.map_filter (\<lambda>item. obj_get item segment) xs"

fun resolve_segments :: "json \<Rightarrow> string list \<Rightarrow> json option" where
  "resolve_segments current [] = Some current"
| "resolve_segments (JObj kvs) (segment # segments) =
     (case map_of kvs segment of None \<Rightarrow> None | Some v \<Rightarrow> resolve_segments v segments)"
| "resolve_segments (JList xs) (segment # segments) =
     (if project xs segment = [] then None else resolve_segments (JList (project xs segment)) segments)"
| "resolve_segments _ (segment # segments) = None"

fun resolve_field :: "json \<Rightarrow> json \<Rightarrow> json option" where
  "resolve_field facts (JStr path) = (if path = [] then None else resolve_segments facts (split_dots path))"
| "resolve_field facts _ = None"

section \<open>Comparators\<close>

fun as_decimal :: "json \<Rightarrow> decimal option" where
  "as_decimal (JInt n) = Some (Fin n 0)"
| "as_decimal (JFloat c e) = Some (Fin c e)"
| "as_decimal (JStr s) = parse_decimal s"
| "as_decimal _ = None"

fun is_bool :: "json \<Rightarrow> bool" where
  "is_bool (JBool b) = True"
| "is_bool _ = False"

definition cmp_eq :: "json option \<Rightarrow> json \<Rightarrow> bool res" where
  "cmp_eq actual expected =
     (case actual of
        None \<Rightarrow> Inr False
      | Some a \<Rightarrow>
          if is_bool a \<or> is_bool expected then Inr (a = expected)
          else (case (as_decimal a, as_decimal expected) of
                  (Some l, Some r) \<Rightarrow> dec_eq l r
                | _ \<Rightarrow> Inr (py_eq a expected)))"

fun cmp_contains :: "json option \<Rightarrow> json \<Rightarrow> bool res" where
  "cmp_contains (Some (JStr s)) (JStr p) = Inr (substring p s)"
| "cmp_contains (Some (JList xs)) expected = Inr (\<exists>x \<in> set xs. py_eq x expected)"
| "cmp_contains _ expected = Inr False"

definition cmp_gt :: "json option \<Rightarrow> json \<Rightarrow> bool res" where
  "cmp_gt actual expected =
     (case (Option.bind actual as_decimal, as_decimal expected) of
        (Some l, Some r) \<Rightarrow> dec_lt r l
      | _ \<Rightarrow> Inr False)"

definition COMPARATORS :: "string list" where
  "COMPARATORS = [''eq'', ''contains'', ''gt'']"

definition RULE_OPERATORS :: "string list" where
  "RULE_OPERATORS = [''always'', ''if'', ''any'', ''all'']"

text \<open>The dispatch table \<open>_COMPARATORS\<close>, on its three keys.\<close>

definition run_comparator :: "string \<Rightarrow> json option \<Rightarrow> json \<Rightarrow> bool res" where
  "run_comparator c actual expected =
     (if c = ''eq'' then cmp_eq actual expected
      else if c = ''contains'' then cmp_contains actual expected
      else cmp_gt actual expected)"

definition MAX_RULE_DEPTH :: nat where
  "MAX_RULE_DEPTH = 8"

section \<open>Evaluation\<close>

record rule_outcome =
  oc_required :: bool
  oc_reason :: string
  oc_unparseable :: bool

definition UNPARSEABLE :: rule_outcome where
  "UNPARSEABLE = \<lparr>oc_required = False, oc_reason = ''unparseable_rule'', oc_unparseable = True\<rparr>"

definition outcome :: "bool \<Rightarrow> string \<Rightarrow> rule_outcome" where
  "outcome required reason = \<lparr>oc_required = required, oc_reason = reason, oc_unparseable = False\<rparr>"

definition evaluate_condition :: "json \<Rightarrow> json \<Rightarrow> rule_outcome res" where
  "evaluate_condition operand facts =
     (case operand of
        JObj kvs \<Rightarrow>
          (case map_of kvs ''field'' of
             None \<Rightarrow> Inr UNPARSEABLE
           | Some fld \<Rightarrow>
               (case filter (\<lambda>kv. fst kv \<noteq> ''field'') kvs of
                  [(comparator, expected)] \<Rightarrow>
                    if comparator \<notin> set COMPARATORS then Inr UNPARSEABLE
                    else rbind (run_comparator comparator (resolve_field facts fld) expected) (\<lambda>matched.
                      Inr (outcome matched (if matched then ''condition_met'' else ''condition_unmet'')))
                | _ \<Rightarrow> Inr UNPARSEABLE))
      | _ \<Rightarrow> Inr UNPARSEABLE)"

definition fold_junction :: "string \<Rightarrow> rule_outcome list \<Rightarrow> rule_outcome" where
  "fold_junction operator outcomes =
     (if \<exists>oc \<in> set outcomes. oc_unparseable oc then UNPARSEABLE
      else if operator = ''any''
      then (let matched = (\<exists>oc \<in> set outcomes. oc_required oc) in
            outcome matched (if matched then ''any_satisfied'' else ''any_unsatisfied''))
      else (let matched = (\<forall>oc \<in> set outcomes. oc_required oc) in
            outcome matched (if matched then ''all_satisfied'' else ''all_unsatisfied'')))"

lemma size_branch:
  assumes "b \<in> set bs"
  shows "size b < size (JObj [(k, JList bs)])"
  using size_element [OF assms] size_value [of "(k, JList bs)" "[(k, JList bs)]"] by simp

function evaluate :: "nat \<Rightarrow> json \<Rightarrow> json \<Rightarrow> rule_outcome res" where
  "evaluate depth rule facts =
     (if depth > MAX_RULE_DEPTH then Inr UNPARSEABLE
      else (case rule of
        JObj [] \<Rightarrow> Inr (outcome False ''empty_rule'')
      | JObj [(operator, operand)] \<Rightarrow>
          if operator = ''always'' then
            (case operand of
               JBool b \<Rightarrow> Inr (outcome b (if b then ''always'' else ''empty_rule''))
             | _ \<Rightarrow> Inr UNPARSEABLE)
          else if operator = ''if'' then evaluate_condition operand facts
          else if operator = ''any'' \<or> operator = ''all'' then
            (case operand of
               JList branches \<Rightarrow>
                 rbind (rmap (\<lambda>branch. evaluate (depth + 1) branch facts) branches) (\<lambda>outcomes.
                   Inr (fold_junction operator outcomes))
             | _ \<Rightarrow> Inr UNPARSEABLE)
          else Inr UNPARSEABLE
      | _ \<Rightarrow> Inr UNPARSEABLE))"
  by pat_completeness auto
termination
  by (relation "measure (\<lambda>(d, r, f). size r)") (auto simp: size_branch simp del: json.size)

declare evaluate.simps [simp del]

definition evaluate_required_rule :: "json \<Rightarrow> json \<Rightarrow> rule_outcome res" where
  "evaluate_required_rule rule facts = evaluate 0 rule facts"

definition required_rule_applies :: "json \<Rightarrow> json \<Rightarrow> bool res" where
  "required_rule_applies rule facts = rbind (evaluate_required_rule rule facts) (\<lambda>oc. Inr (oc_required oc))"

section \<open>Validation\<close>

definition invalid_rule :: exn where
  "invalid_rule = APIError 422 ''checklist_invalid_rule''"

definition unknown_rule_operator :: exn where
  "unknown_rule_operator = APIError 422 ''checklist_unknown_rule_operator''"

definition unknown_comparator :: exn where
  "unknown_comparator = APIError 422 ''checklist_unknown_comparator''"

definition validate_condition :: "json \<Rightarrow> unit res" where
  "validate_condition operand =
     (case operand of
        JObj kvs \<Rightarrow>
          (case map_of kvs ''field'' of
             Some (JStr f) \<Rightarrow>
               (case filter (\<lambda>kv. fst kv \<noteq> ''field'') kvs of
                  [(comparator, expected)] \<Rightarrow>
                    if comparator \<in> set COMPARATORS then Inr () else Inl unknown_comparator
                | _ \<Rightarrow> Inl invalid_rule)
           | _ \<Rightarrow> Inl invalid_rule)
      | _ \<Rightarrow> Inl invalid_rule)"

function validate :: "nat \<Rightarrow> json \<Rightarrow> unit res" where
  "validate depth rule =
     (if depth > MAX_RULE_DEPTH then Inl invalid_rule
      else (case rule of
        JObj [(operator, operand)] \<Rightarrow>
          if operator \<notin> set RULE_OPERATORS then Inl unknown_rule_operator
          else if operator = ''always'' then (if is_bool operand then Inr () else Inl invalid_rule)
          else if operator = ''if'' then validate_condition operand
          else (case operand of
                  JList branches \<Rightarrow>
                    if branches = [] then Inl invalid_rule
                    else rbind (rmap (validate (depth + 1)) branches) (\<lambda>us. Inr ())
                | _ \<Rightarrow> Inl invalid_rule)
      | _ \<Rightarrow> Inl invalid_rule))"
  by pat_completeness auto
termination
  by (relation "measure (\<lambda>(d, r). size r)") (auto simp: size_branch simp del: json.size)

declare validate.simps [simp del]

definition validate_required_rule :: "json \<Rightarrow> unit res" where
  "validate_required_rule rule = validate 0 rule"

section \<open>The grammar\<close>

text \<open>
  The rules an author can write, as a datatype, with their JSON form and their meaning. In a
  condition the key \<open>field\<close> may come before or after the comparator.
\<close>

datatype requirement =
    Always bool
  | Condition bool string string json
  | AnyOf "requirement list"
  | AllOf "requirement list"

fun rule_json :: "requirement \<Rightarrow> json" where
  "rule_json (Always b) = JObj [(''always'', JBool b)]"
| "rule_json (Condition field_first f c v) =
     JObj [(''if'', JObj (if field_first then [(''field'', JStr f), (c, v)] else [(c, v), (''field'', JStr f)]))]"
| "rule_json (AnyOf qs) = JObj [(''any'', JList (map rule_json qs))]"
| "rule_json (AllOf qs) = JObj [(''all'', JList (map rule_json qs))]"

fun height :: "requirement \<Rightarrow> nat" where
  "height (AnyOf qs) = Suc (fold max (map height qs) 0)"
| "height (AllOf qs) = Suc (fold max (map height qs) 0)"
| "height _ = 0"

fun proper :: "requirement \<Rightarrow> bool" where
  "proper (Always b) = True"
| "proper (Condition ff f c v) = (c \<in> set COMPARATORS)"
| "proper (AnyOf qs) = (qs \<noteq> [] \<and> (\<forall>q \<in> set qs. proper q))"
| "proper (AllOf qs) = (qs \<noteq> [] \<and> (\<forall>q \<in> set qs. proper q))"

fun requires :: "requirement \<Rightarrow> json \<Rightarrow> bool" where
  "requires (Always b) facts = b"
| "requires (Condition ff f c v) facts = (run_comparator c (resolve_field facts (JStr f)) v = Inr True)"
| "requires (AnyOf qs) facts = (\<exists>q \<in> set qs. requires q facts)"
| "requires (AllOf qs) facts = (\<forall>q \<in> set qs. requires q facts)"

text \<open>A dict has distinct keys, at every level.\<close>

function (sequential) dict_keys_distinct :: "json \<Rightarrow> bool" where
  "dict_keys_distinct (JList xs) = (\<forall>x \<in> set xs. dict_keys_distinct x)"
| "dict_keys_distinct (JObj kvs) = (distinct (map fst kvs) \<and> (\<forall>kv \<in> set kvs. dict_keys_distinct (snd kv)))"
| "dict_keys_distinct _ = True"
  by pat_completeness auto
termination
  by (relation "measure size") (auto simp: size_element size_value simp del: json.size)

text \<open>No string in the value reads as the decimal \<open>NaN\<close>.\<close>

function (sequential) nan_free :: "json \<Rightarrow> bool" where
  "nan_free (JStr s) = (case parse_decimal s of Some d \<Rightarrow> \<not> is_nan d | None \<Rightarrow> True)"
| "nan_free (JList xs) = (\<forall>x \<in> set xs. nan_free x)"
| "nan_free (JObj kvs) = (\<forall>kv \<in> set kvs. nan_free (snd kv))"
| "nan_free _ = True"
  by pat_completeness auto
termination
  by (relation "measure size") (auto simp: size_element size_value simp del: json.size)

section \<open>Evaluation never raises without a NaN\<close>

lemma nan_free_as_decimal: "nan_free v \<Longrightarrow> as_decimal v = Some d \<Longrightarrow> \<not> is_nan d"
  by (cases v) auto

lemma nan_free_get: "nan_free v \<Longrightarrow> obj_get v k = Some w \<Longrightarrow> nan_free w"
  by (cases v) (force dest: map_of_SomeD)+

lemma nan_free_project: "nan_free (JList xs) \<Longrightarrow> nan_free (JList (project xs k))"
  by (auto simp: project_def map_filter_def intro: nan_free_get)

lemma nan_free_segments: "nan_free v \<Longrightarrow> resolve_segments v ss = Some w \<Longrightarrow> nan_free w"
proof (induction v ss rule: resolve_segments.induct)
  case (2 kvs s ss)
  then show ?case using nan_free_get [of "JObj kvs" s] by (auto split: option.splits)
next
  case (3 xs s ss)
  then show ?case using nan_free_project [of xs s] by (auto split: if_splits)
qed simp_all

lemma nan_free_field: "nan_free facts \<Longrightarrow> resolve_field facts p = Some w \<Longrightarrow> nan_free w"
  by (cases p) (auto split: if_splits dest: nan_free_segments)

lemma run_comparator_ok:
  assumes "nan_free facts" "nan_free v"
  shows "is_ok (run_comparator c (resolve_field facts p) v)"
proof -
  have nan: "\<not> is_nan d" if "resolve_field facts p = Some w" "as_decimal w = Some d" for w d
    using nan_free_field [OF assms(1) that(1)] that(2) by (rule nan_free_as_decimal)
  have nan': "\<not> is_nan d" if "as_decimal v = Some d" for d
    using assms(2) that by (rule nan_free_as_decimal)
  have "is_ok (cmp_eq (resolve_field facts p) v)"
    by (auto simp: cmp_eq_def dec_eq_def split: option.splits dest!: nan nan')
  moreover have "is_ok (cmp_contains (resolve_field facts p) v)"
    by (cases "(resolve_field facts p, v)" rule: cmp_contains.cases) simp_all
  moreover have "is_ok (cmp_gt (resolve_field facts p) v)"
    by (auto simp: cmp_gt_def dec_lt_def bind_eq_Some_conv split: option.splits dest: nan nan')
  ultimately show ?thesis by (simp add: run_comparator_def)
qed

lemma evaluate_condition_ok:
  assumes "nan_free operand" "nan_free facts"
  shows "is_ok (evaluate_condition operand facts)"
proof -
  have "is_ok (rbind (run_comparator c (resolve_field facts p) v) (\<lambda>m. Inr (h m)))"
    if "(c, v) \<in> set kvs" "operand = JObj kvs" for kvs c v p and h :: "bool \<Rightarrow> rule_outcome"
    using that assms run_comparator_ok [of facts v c p]
    by (auto simp: is_ok_iff rbind_eq_Inr)
  then show ?thesis
    by (fastforce simp: evaluate_condition_def split: json.splits option.splits list.splits
        dest!: filter_eq_ConsD)
qed

lemma evaluate_ok:
  assumes "nan_free rule" "nan_free facts"
  shows "is_ok (evaluate depth rule facts)"
  using assms
proof (induction depth rule facts rule: evaluate.induct)
  case (1 depth rule facts)
  show ?case
  proof (cases "\<exists>k v. rule = JObj [(k, v)] \<and> \<not> depth > MAX_RULE_DEPTH \<and> k \<noteq> ''always''")
    case True
    then obtain k v where r: "rule = JObj [(k, v)]" "\<not> depth > MAX_RULE_DEPTH" "k \<noteq> ''always''" by auto
    have "is_ok (evaluate (depth + 1) b facts)" if "v = JList bs" "b \<in> set bs" "k = ''any'' \<or> k = ''all''" "k \<noteq> ''if''" for bs b
      using 1(1) [of "[(k, v)]" "(k, v)" "[]" k v bs b] 1(2,3) r that by auto
    then have "is_ok (rmap (\<lambda>b. evaluate (depth + 1) b facts) bs)" if "v = JList bs" "k = ''any'' \<or> k = ''all''" "k \<noteq> ''if''" for bs
      using that by (intro rmap_ok) simp
    moreover have "is_ok (evaluate_condition v facts)" using 1(2,3) r by (intro evaluate_condition_ok) auto
    ultimately show ?thesis using r
      by (subst evaluate.simps) (auto simp: is_ok_iff rbind_eq_Inr split: json.splits)
  qed (subst evaluate.simps; auto split: json.splits list.splits)
qed

section \<open>The grammar is what validation accepts\<close>

lemma fold_max_le: "fold max ns m \<le> (k :: nat) \<longleftrightarrow> m \<le> k \<and> (\<forall>n \<in> set ns. n \<le> k)"
  by (induction ns arbitrary: m) auto

lemma height_any: "Suc (fold max (map height qs) 0 + d) \<le> m \<longleftrightarrow>
    Suc d \<le> m \<and> (\<forall>q \<in> set qs. Suc (height q + d) \<le> m)"
  using fold_max_le [of "map height qs" 0 "m - Suc d"] by (cases "Suc d \<le> m") (auto simp: le_diff_conv2)

lemmas eval_simps = evaluate.simps [of _ "JObj _"] validate.simps [of _ "JObj _"] height_any

lemma rmap_unit_ok: "rmap f xs = Inr us \<Longrightarrow> x \<in> set xs \<Longrightarrow> f x = Inr (() :: unit)"
  by (induction xs arbitrary: us) (auto simp: rbind_eq_Inr)

lemma validate_rule_json:
  assumes "proper q" "height q + d \<le> MAX_RULE_DEPTH"
  shows "validate d (rule_json q) = Inr ()"
  using assms
proof (induction q arbitrary: d)
  case (AnyOf qs)
  then have "rmap (validate (d + 1)) (map rule_json qs) = Inr (map (\<lambda>j. ()) (map rule_json qs))"
    by (intro rmap_Inr_map) (auto simp: height_any)
  with AnyOf(2,3) show ?case by (simp add: eval_simps RULE_OPERATORS_def)
next
  case (AllOf qs)
  then have "rmap (validate (d + 1)) (map rule_json qs) = Inr (map (\<lambda>j. ()) (map rule_json qs))"
    by (intro rmap_Inr_map) (auto simp: height_any)
  with AllOf(2,3) show ?case by (simp add: eval_simps RULE_OPERATORS_def)
qed (auto simp: eval_simps RULE_OPERATORS_def validate_condition_def COMPARATORS_def)

lemma validate_condition_shape:
  assumes "validate_condition v = Inr ()" "dict_keys_distinct v"
  shows "\<exists>q. proper q \<and> height q = 0 \<and> rule_json q = JObj [(''if'', v)]"
proof -
  obtain kvs f c e where v: "v = JObj kvs" "map_of kvs ''field'' = Some (JStr f)"
    "filter (\<lambda>kv. fst kv \<noteq> ''field'') kvs = [(c, e)]" "c \<in> set COMPARATORS"
    using assms(1) by (auto simp: validate_condition_def split: json.splits option.splits list.splits if_splits)
  have d: "distinct (map fst kvs)" using assms(2) v(1) by simp
  have c: "c \<noteq> ''field''" using v(4) by (auto simp: COMPARATORS_def)
  have "filter (\<lambda>kv. fst kv = ''field'') kvs = [(''field'', JStr f)]"
    using v(2) d by (induction kvs) (auto split: if_splits simp: filter_empty_conv image_iff)
  then have "length kvs = 2" using v(3) sum_length_filter_compl [of "\<lambda>kv. fst kv = ''field''" kvs] by simp
  then obtain p q where kvs: "kvs = [p, q]" by (auto simp: numeral_2_eq_2 length_Suc_conv)
  have "kvs = [(''field'', JStr f), (c, e)] \<or> kvs = [(c, e), (''field'', JStr f)]"
    using v(2,3) c unfolding kvs by (cases p; cases q) (auto split: if_splits)
  then show ?thesis
  proof
    assume "kvs = [(''field'', JStr f), (c, e)]"
    then show ?thesis using v by (intro exI [of _ "Condition True f c e"]) simp
  next
    assume "kvs = [(c, e), (''field'', JStr f)]"
    then show ?thesis using v by (intro exI [of _ "Condition False f c e"]) simp
  qed
qed

lemma validate_shape:
  assumes "validate d rule = Inr ()" "dict_keys_distinct rule"
  shows "\<exists>q. proper q \<and> height q + d \<le> MAX_RULE_DEPTH \<and> rule_json q = rule"
  using assms
proof (induction d rule rule: validate.induct)
  case (1 d rule)
  obtain k v where r: "rule = JObj [(k, v)]" "d \<le> MAX_RULE_DEPTH" "k \<in> set RULE_OPERATORS"
    using 1(2) by (subst (asm) validate.simps) (auto split: if_splits json.splits list.splits)
  have dv: "dict_keys_distinct v" using 1(3) r(1) by simp
  consider "k = ''always''" | "k = ''if''" | "k = ''any'' \<or> k = ''all''"
    using r(3) by (auto simp: RULE_OPERATORS_def)
  then show ?case
  proof cases
    case 1
    then obtain b where "v = JBool b"
      using \<open>validate d rule = Inr ()\<close> r(1) by (cases v) (auto simp: eval_simps split: if_splits)
    then show ?thesis using 1 r by (intro exI [of _ "Always b"]) simp
  next
    case 2
    then have "validate_condition v = Inr ()"
      using \<open>validate d rule = Inr ()\<close> r by (auto simp: eval_simps)
    from validate_condition_shape [OF this dv] show ?thesis using 2 r by auto
  next
    case 3
    then obtain bs where bs: "v = JList bs" "bs \<noteq> []" "is_ok (rmap (validate (d + 1)) bs)"
      using \<open>validate d rule = Inr ()\<close> r
      by (cases v) (auto simp: eval_simps is_ok_iff rbind_eq_Inr split: if_splits)
    have "\<exists>q. proper q \<and> height q + (d + 1) \<le> MAX_RULE_DEPTH \<and> rule_json q = b" if "b \<in> set bs" for b
      using "1.IH" [of "[(k, v)]" "(k, v)" "[]" k v bs b] r 3 bs dv that
      by (auto simp: is_ok_iff dest: rmap_unit_ok)
    then obtain f where f: "\<forall>b \<in> set bs. proper (f b) \<and> height (f b) + (d + 1) \<le> MAX_RULE_DEPTH \<and> rule_json (f b) = b"
      by metis
    then have "map rule_json (map f bs) = bs" by (simp add: map_idI)
    moreover have "Suc d \<le> MAX_RULE_DEPTH" using f bs(2) by (cases bs) auto
    ultimately show ?thesis
      using 3 r bs f height_any [of "map f bs" d MAX_RULE_DEPTH]
      by (intro exI [of _ "if k = ''any'' then AnyOf (map f bs) else AllOf (map f bs)"]) auto
  qed
qed

section \<open>The meaning of a rule\<close>

text \<open>The result of evaluating a readable rule: the outcome, with its meaning as \<open>required\<close>.\<close>

definition means :: "rule_outcome res \<Rightarrow> bool \<Rightarrow> bool" where
  "means r b \<longleftrightarrow> (\<exists>oc. r = Inr oc \<and> oc_required oc = b \<and> \<not> oc_unparseable oc)"

lemma means_condition:
  assumes "c \<in> set COMPARATORS" "is_ok (run_comparator c (resolve_field facts (JStr f)) v)" "d \<le> MAX_RULE_DEPTH"
  shows "means (evaluate d (rule_json (Condition ff f c v)) facts) (requires (Condition ff f c v) facts)"
  using assms
  by (auto simp: eval_simps means_def evaluate_condition_def COMPARATORS_def outcome_def is_ok_iff)

lemma means_branches:
  assumes "\<forall>q \<in> set qs. means (evaluate (d + 1) (rule_json q) facts) (requires q facts)"
  shows "\<exists>ocs. rmap (\<lambda>b. evaluate (d + 1) b facts) (map rule_json qs) = Inr ocs \<and>
    map oc_required ocs = map (\<lambda>q. requires q facts) qs \<and> (\<forall>oc \<in> set ocs. \<not> oc_unparseable oc)"
  using assms by (induction qs) (auto simp: means_def)

lemma map_eq_quantifiers:
  assumes "map f xs = map g ys"
  shows "(\<exists>x \<in> set xs. f x) \<longleftrightarrow> (\<exists>y \<in> set ys. g y)" "(\<forall>x \<in> set xs. f x) \<longleftrightarrow> (\<forall>y \<in> set ys. g y)"
proof -
  have "f ` set xs = g ` set ys" using assms by (metis list.set_map)
  then show "(\<exists>x \<in> set xs. f x) \<longleftrightarrow> (\<exists>y \<in> set ys. g y)" "(\<forall>x \<in> set xs. f x) \<longleftrightarrow> (\<forall>y \<in> set ys. g y)"
    by (metis image_iff)+
qed

lemma means_junction:
  assumes "\<forall>q \<in> set qs. means (evaluate (d + 1) (rule_json q) facts) (requires q facts)" "d \<le> MAX_RULE_DEPTH"
  shows "means (evaluate d (rule_json (AnyOf qs)) facts) (requires (AnyOf qs) facts)"
    "means (evaluate d (rule_json (AllOf qs)) facts) (requires (AllOf qs) facts)"
proof -
  obtain ocs where ocs: "rmap (\<lambda>b. evaluate (d + 1) b facts) (map rule_json qs) = Inr ocs"
    "map oc_required ocs = map (\<lambda>q. requires q facts) qs" "\<forall>oc \<in> set ocs. \<not> oc_unparseable oc"
    using means_branches [OF assms(1)] by blast
  then show "means (evaluate d (rule_json (AnyOf qs)) facts) (requires (AnyOf qs) facts)"
    "means (evaluate d (rule_json (AllOf qs)) facts) (requires (AllOf qs) facts)"
    using assms(2) map_eq_quantifiers [OF ocs(2)]
    by (simp_all add: eval_simps means_def fold_junction_def outcome_def Let_def)
qed

lemma means_rule:
  assumes "proper q" "height q + d \<le> MAX_RULE_DEPTH" "nan_free (rule_json q)" "nan_free facts"
  shows "means (evaluate d (rule_json q) facts) (requires q facts)"
  using assms(1-3)
proof (induction q arbitrary: d)
  case (Always b)
  then show ?case by (simp add: eval_simps means_def outcome_def)
next
  case (Condition ff f c v)
  have "nan_free v" using Condition(3) by (cases ff) auto
  from run_comparator_ok [OF assms(4) this] have "is_ok (run_comparator c (resolve_field facts (JStr f)) v)" .
  with Condition show ?case by (intro means_condition) (simp_all del: resolve_field.simps)
next
  case (AnyOf qs)
  then show ?case by (intro means_junction) (auto simp: height_any)
next
  case (AllOf qs)
  then show ?case by (intro means_junction) (auto simp: height_any)
qed

section \<open>Properties\<close>

text \<open>
  C30. Validation accepts exactly the grammar: a rule passes \<open>validate_required_rule\<close> if and only if it is
  the JSON form of a requirement built from \<open>always\<close>, a condition with a known comparator and
  non-empty \<open>any\<close> and \<open>all\<close>, nested at most eight deep.
\<close>

theorem validation_accepts_the_grammar:
  assumes "dict_keys_distinct rule"
  shows "validate_required_rule rule = Inr () \<longleftrightarrow>
    (\<exists>q. proper q \<and> height q \<le> MAX_RULE_DEPTH \<and> rule_json q = rule)"
  using validate_shape [of 0 rule] validate_rule_json [of _ 0] assms
  by (auto simp: validate_required_rule_def)

definition taxi_rule :: json where
  "taxi_rule = JObj [(''any'', JList [
     JObj [(''if'', JObj [(''field'', JStr ''transport_modes''), (''contains'', JStr ''taxi'')])],
     JObj [(''if'', JObj [(''gt'', JInt 0), (''field'', JStr ''totals.other'')])]])]"

theorem validation_accepts_the_grammar_witness:
  "validate_required_rule taxi_rule = Inr () \<and>
   (\<exists>q. proper q \<and> height q \<le> MAX_RULE_DEPTH \<and> rule_json q = taxi_rule)"
proof -
  have "dict_keys_distinct taxi_rule" by (simp add: taxi_rule_def)
  moreover have "validate_required_rule taxi_rule = Inr ()" by code_simp
  ultimately show ?thesis using validation_accepts_the_grammar [of taxi_rule] by blast
qed

text \<open>
  C29. Evaluation computes the meaning of a rule of the grammar of at most the permitted depth: the result is
  readable and says required exactly when the requirement holds of the facts, with \<open>any\<close> as disjunction and
  \<open>all\<close> as conjunction, provided no text in the rule or the facts reads as \<open>NaN\<close> (a comparison with such a
  text raises, see \<open>nan_text_raises\<close>).
\<close>

theorem evaluation_is_the_meaning:
  assumes "proper q" "height q \<le> MAX_RULE_DEPTH" "nan_free (rule_json q)" "nan_free facts"
  shows "\<exists>oc. evaluate_required_rule (rule_json q) facts = Inr oc \<and>
    oc_required oc = requires q facts \<and> \<not> oc_unparseable oc"
  using means_rule [of q 0 facts] assms by (simp add: means_def evaluate_required_rule_def)

definition taxi_requirement :: requirement where
  "taxi_requirement = AnyOf [Condition True ''transport_modes'' ''contains'' (JStr ''taxi''),
     Condition False ''totals.other'' ''gt'' (JInt 0)]"

theorem evaluation_is_the_meaning_witness:
  "\<exists>facts oc. requires taxi_requirement facts \<and> rule_json taxi_requirement = taxi_rule \<and>
     evaluate_required_rule taxi_rule facts = Inr oc \<and> oc_required oc"
proof -
  define facts where "facts = JObj [(''transport_modes'', JList [JStr ''bus'']),
    (''totals'', JObj [(''other'', JStr ''250.00'')])]"
  have rule: "rule_json taxi_requirement = taxi_rule" by (simp add: taxi_requirement_def taxi_rule_def)
  moreover have "proper taxi_requirement" "height taxi_requirement \<le> MAX_RULE_DEPTH"
    by (simp_all add: taxi_requirement_def COMPARATORS_def MAX_RULE_DEPTH_def)
  moreover have "nan_free (rule_json taxi_requirement)" "nan_free facts"
    by (simp_all add: rule taxi_rule_def facts_def parse_defs)
  moreover have "requires taxi_requirement facts"
    by (simp add: taxi_requirement_def facts_def run_comparator_def cmp_gt_def dec_lt_def parse_defs)
  ultimately show ?thesis using evaluation_is_the_meaning [of taxi_requirement facts] by auto
qed

text \<open>
  Evaluation never raises on facts and rules in which no text reads as \<open>NaN\<close>, however malformed the
  rule is.
\<close>

theorem rule_evaluation_never_raises:
  assumes "nan_free rule" "nan_free facts"
  shows "\<exists>oc. evaluate_required_rule rule facts = Inr oc"
  using evaluate_ok [OF assms, of 0] by (simp add: is_ok_iff evaluate_required_rule_def)

theorem rule_evaluation_never_raises_witness:
  "\<exists>oc. evaluate_required_rule (JObj [(''if'', JList [JNull])]) (JObj []) = Inr oc"
  by (rule rule_evaluation_never_raises) simp_all

text \<open>The condition is needed: a traveller's text \<open>nan\<close> under a \<open>gt\<close> rule raises.\<close>

lemma nan_text_raises:
  "evaluate_required_rule (JObj [(''if'', JObj [(''field'', JStr ''purpose''), (''gt'', JInt 0)])])
     (JObj [(''purpose'', JStr ''nan'')]) = Inl InvalidOperation"
  by (simp add: evaluate_required_rule_def evaluate.simps MAX_RULE_DEPTH_def evaluate_condition_def COMPARATORS_def
      run_comparator_def cmp_gt_def dec_lt_def parse_defs)

end
