(* ===== verification/Checklist_Checks.thy ===== *)
theory Checklist_Checks
  imports Checklist_Rules Iso_Dates
begin

text \<open>
  The automatic checks of the checklist engine, \<open>src/office_connect/core/checklist/checks.py\<close>. A result
  keeps the machine part: type, outcome, reason slug and remedy. The sentence for the reviewer and
  its detail are left out; they are computed from the same values and do not raise where the verdict
  did not. For a check whose type is not known \<open>ck_type\<close> holds the value of which the source stores
  \<open>str\<close>.
\<close>

section \<open>Results\<close>

datatype check_outcome = Passed | Flagged | Skipped

record check_result =
  ck_type :: json
  ck_outcome :: check_outcome
  ck_reason :: string
  ck_remedy :: "string option"

definition flagged :: "check_result \<Rightarrow> bool" where
  "flagged r \<longleftrightarrow> ck_outcome r = Flagged"

definition verdict :: "string \<Rightarrow> check_outcome \<Rightarrow> string \<Rightarrow> check_result" where
  "verdict t oc reason = \<lparr>ck_type = JStr t, ck_outcome = oc, ck_reason = reason, ck_remedy = None\<rparr>"

definition skip :: "string \<Rightarrow> string \<Rightarrow> check_result" where
  "skip t reason = verdict t Skipped reason"

section \<open>The six checks\<close>

text \<open>\<open>int(x or 0)\<close> of a looked-up value.\<close>

fun int_or_zero :: "json option \<Rightarrow> int res" where
  "int_or_zero None = Inr 0"
| "int_or_zero (Some v) =
     (if \<not> json_truthy v then Inr 0
      else (case py_int v of
              Some n \<Rightarrow> Inr n
            | None \<Rightarrow> Inl (case v of JStr s \<Rightarrow> ValueError | _ \<Rightarrow> TypeError)))"

definition check_file_present :: "json \<Rightarrow> json \<Rightarrow> check_result res" where
  "check_file_present spec facts =
     (case obj_get facts ''item'' of
        Some (JObj kvs) \<Rightarrow>
          rbind (int_or_zero (map_of kvs ''evidence_infected'')) (\<lambda>infected.
          rbind (int_or_zero (map_of kvs ''evidence_count'')) (\<lambda>usable.
          rbind (int_or_zero (map_of kvs ''evidence_pending'')) (\<lambda>pending.
            Inr (if infected \<noteq> 0 then verdict ''file_present'' Flagged ''evidence_infected''
                 else if usable = 0 then verdict ''file_present'' Flagged ''no_evidence''
                 else if pending \<noteq> 0 then verdict ''file_present'' Passed ''evidence_scan_pending''
                 else verdict ''file_present'' Passed ''evidence_present''))))
      | _ \<Rightarrow> Inr (skip ''file_present'' ''no_item_context''))"

definition config_amount :: "json \<Rightarrow> json option \<Rightarrow> decimal option" where
  "config_amount facts max_key =
     (case (obj_get facts ''config'', max_key) of
        (Some (JObj config), Some (JStr key)) \<Rightarrow>
          (case map_of config key of
             None \<Rightarrow> None
           | Some (JObj value) \<Rightarrow> Option.bind (map_of value ''amount'') as_decimal
           | Some value \<Rightarrow> as_decimal value)
      | _ \<Rightarrow> None)"

text \<open>The numbers in a resolved field: the elements of a list, or the value itself.\<close>

fun field_values :: "json option \<Rightarrow> json list" where
  "field_values None = []"
| "field_values (Some (JList xs)) = xs"
| "field_values (Some v) = [v]"

definition amounts_of :: "json \<Rightarrow> json option \<Rightarrow> decimal list" where
  "amounts_of facts path =
     List.map_filter as_decimal
       (field_values (resolve_field facts (case path of None \<Rightarrow> JStr [] | Some p \<Rightarrow> p)))"

fun amounts_over :: "decimal \<Rightarrow> decimal list \<Rightarrow> decimal list res" where
  "amounts_over ceiling [] = Inr []"
| "amounts_over ceiling (a # as) =
     rbind (dec_lt ceiling a) (\<lambda>gt. rbind (amounts_over ceiling as) (\<lambda>over. Inr (if gt then a # over else over)))"

definition check_amount_threshold :: "json \<Rightarrow> json \<Rightarrow> check_result res" where
  "check_amount_threshold spec facts =
     (case config_amount facts (obj_get spec ''max_key'') of
        None \<Rightarrow> Inr (skip ''amount_threshold'' ''config_unavailable'')
      | Some ceiling \<Rightarrow>
          (let amounts = amounts_of facts (obj_get spec ''field'') in
           if amounts = [] then Inr (skip ''amount_threshold'' ''no_amount'')
           else rbind (amounts_over ceiling amounts) (\<lambda>over.
             Inr (if over = [] then verdict ''amount_threshold'' Passed ''within_threshold''
                  else (verdict ''amount_threshold'' Flagged ''amount_over_threshold'')
                    \<lparr>ck_remedy := (case obj_get spec ''on_exceed'' of Some (JStr r) \<Rightarrow> Some r | _ \<Rightarrow> None)\<rparr>))))"

fun as_date :: "json option \<Rightarrow> date option" where
  "as_date (Some (JStr s)) = fromisoformat (take 10 s)"
| "as_date _ = None"

fun list_items :: "json option \<Rightarrow> json list" where
  "list_items (Some (JList xs)) = xs"
| "list_items _ = []"

definition trip_candidates :: "json \<Rightarrow> date list" where
  "trip_candidates facts =
     List.map_filter (\<lambda>leg. as_date (obj_get leg ''leg_date'')) (list_items (obj_get facts ''legs'')) @
     List.map_filter (\<lambda>raw. as_date (Some raw)) (list_items (obj_get facts ''evidence_dates''))"

definition check_date_within_trip :: "json \<Rightarrow> json \<Rightarrow> check_result res" where
  "check_date_within_trip spec facts =
     Inr (case obj_get facts ''trip'' of
        Some (JObj trip) \<Rightarrow>
          (case (as_date (map_of trip ''depart''), as_date (map_of trip ''return'')) of
             (Some depart, Some ret) \<Rightarrow>
               (let candidates = trip_candidates facts in
                if candidates = [] then skip ''date_within_trip'' ''no_dates''
                else if \<forall>d \<in> set candidates. depart \<le> d \<and> d \<le> ret
                then verdict ''date_within_trip'' Passed ''dates_within_trip''
                else verdict ''date_within_trip'' Flagged ''date_outside_trip'')
           | _ \<Rightarrow> skip ''date_within_trip'' ''no_trip'')
      | _ \<Rightarrow> skip ''date_within_trip'' ''no_trip'')"

definition check_sum_matches :: "json \<Rightarrow> json \<Rightarrow> check_result res" where
  "check_sum_matches spec facts =
     (let parts = amounts_of facts (obj_get spec ''of'') in
      case Option.bind (resolve_field facts (case obj_get spec ''vs'' of None \<Rightarrow> JStr [] | Some p \<Rightarrow> p)) as_decimal of
        None \<Rightarrow> Inr (skip ''sum_matches'' ''no_total'')
      | Some stated \<Rightarrow>
          (let tolerance = (case as_decimal (case obj_get spec ''tolerance'' of None \<Rightarrow> JInt 0 | Some t \<Rightarrow> t) of
                              None \<Rightarrow> Fin 0 0 | Some t \<Rightarrow> t) in
           rbind (dec_sum (Fin 0 0) parts) (\<lambda>summed.
           rbind (dec_add summed (dec_neg stated)) (\<lambda>diff.
           rbind (dec_lt tolerance (dec_abs diff)) (\<lambda>exceeds.
             Inr (if exceeds then verdict ''sum_matches'' Flagged ''sum_mismatch''
                  else verdict ''sum_matches'' Passed ''sum_matches''))))))"

definition check_keyword_absent :: "json \<Rightarrow> json \<Rightarrow> check_result res" where
  "check_keyword_absent spec facts =
     Inr (case obj_get facts ''ocr_text'' of
        Some (JStr txt) \<Rightarrow>
          if strip txt = [] then skip ''keyword_absent'' ''ocr_unavailable''
          else (case obj_get spec ''keywords'' of
             Some (JList keywords) \<Rightarrow>
               if \<exists>k \<in> set keywords. (case k of JStr w \<Rightarrow> substring (lower w) (lower txt) | _ \<Rightarrow> False)
               then verdict ''keyword_absent'' Flagged ''keyword_found''
               else verdict ''keyword_absent'' Passed ''keywords_absent''
           | _ \<Rightarrow> skip ''keyword_absent'' ''no_keywords'')
      | _ \<Rightarrow> skip ''keyword_absent'' ''ocr_unavailable'')"

text \<open>\<open>deadlines.get(key)\<close>: a list or dict as key raises \<open>TypeError\<close>, any other key that is no string is absent.\<close>

definition deadline_entry :: "json \<Rightarrow> json option \<Rightarrow> json option res" where
  "deadline_entry facts key =
     (case obj_get facts ''deadlines'' of
        Some (JObj deadlines) \<Rightarrow>
          (case key of
             Some (JStr k) \<Rightarrow> Inr (map_of deadlines k)
           | Some k \<Rightarrow> if hashable k then Inr None else Inl TypeError
           | None \<Rightarrow> Inr None)
      | _ \<Rightarrow> Inr None)"

definition check_deadline_check :: "json \<Rightarrow> json \<Rightarrow> check_result res" where
  "check_deadline_check spec facts =
     rbind (deadline_entry facts (obj_get spec ''key'')) (\<lambda>entry.
       Inr (case as_date entry of
          None \<Rightarrow> skip ''deadline_check'' ''deadline_clock_unavailable''
        | Some due \<Rightarrow>
            (case as_date (obj_get facts ''today'') of
               None \<Rightarrow> skip ''deadline_check'' ''no_today''
             | Some today \<Rightarrow>
                 if today \<le> due then verdict ''deadline_check'' Passed ''within_deadline''
                 else verdict ''deadline_check'' Flagged ''deadline_passed'')))"

section \<open>Running and validating\<close>

definition CHECK_TYPES :: "string list" where
  "CHECK_TYPES = [''file_present'', ''amount_threshold'', ''date_within_trip'', ''sum_matches'',
     ''keyword_absent'', ''deadline_check'']"

text \<open>The dispatch table \<open>_RUNNERS\<close>.\<close>

definition runner :: "string \<Rightarrow> (json \<Rightarrow> json \<Rightarrow> check_result res) option" where
  "runner t = map_of
     [(''file_present'', check_file_present), (''amount_threshold'', check_amount_threshold),
      (''date_within_trip'', check_date_within_trip), (''sum_matches'', check_sum_matches),
      (''keyword_absent'', check_keyword_absent), (''deadline_check'', check_deadline_check)] t"

definition run_check :: "json \<Rightarrow> json \<Rightarrow> check_result res" where
  "run_check spec facts =
     (if \<not> is_obj spec then Inr (skip ''unknown'' ''malformed_check'')
      else
        (let check_type = (case obj_get spec ''type'' of None \<Rightarrow> JNull | Some t \<Rightarrow> t);
             unknown = \<lparr>ck_type = check_type, ck_outcome = Skipped, ck_reason = ''unknown_check_type'', ck_remedy = None\<rparr>
         in case check_type of
              JStr t \<Rightarrow> (case runner t of None \<Rightarrow> Inr unknown | Some run \<Rightarrow> run spec facts)
            | _ \<Rightarrow> Inr unknown))"

fun run_auto_checks :: "json \<Rightarrow> json \<Rightarrow> check_result list res" where
  "run_auto_checks (JList checks) facts = rmap (\<lambda>spec. run_check spec facts) checks"
| "run_auto_checks _ facts = Inr []"

definition checks_outcome :: "check_result list \<Rightarrow> check_outcome" where
  "checks_outcome results =
     (if \<exists>r \<in> set results. ck_outcome r = Flagged then Flagged
      else if \<exists>r \<in> set results. ck_outcome r = Passed then Passed
      else Skipped)"

definition invalid_auto_check :: exn where
  "invalid_auto_check = APIError 422 ''checklist_invalid_auto_check''"

definition unknown_check_type :: exn where
  "unknown_check_type = APIError 422 ''checklist_unknown_check_type''"

definition REQUIRED_KEYS :: "string \<Rightarrow> string list" where
  "REQUIRED_KEYS t =
     (if t = ''amount_threshold'' then [''field'', ''max_key'']
      else if t = ''sum_matches'' then [''of'', ''vs'']
      else if t = ''keyword_absent'' then [''keywords'']
      else if t = ''deadline_check'' then [''key'']
      else [])"

definition validate_check :: "json \<Rightarrow> unit res" where
  "validate_check spec =
     (if \<not> is_obj spec then Inl invalid_auto_check
      else (case obj_get spec ''type'' of
        Some (JStr t) \<Rightarrow>
          if t \<notin> set CHECK_TYPES then Inl unknown_check_type
          else if \<forall>k \<in> set (REQUIRED_KEYS t). obj_get spec k \<noteq> None then Inr ()
          else Inl invalid_auto_check
      | _ \<Rightarrow> Inl invalid_auto_check))"

fun validate_auto_checks :: "json \<Rightarrow> unit res" where
  "validate_auto_checks JNull = Inr ()"
| "validate_auto_checks (JList checks) = rbind (rmap validate_check checks) (\<lambda>us. Inr ())"
| "validate_auto_checks _ = Inl invalid_auto_check"

section \<open>Checks do not raise on readable values\<close>

text \<open>No string in the value reads as \<open>NaN\<close> or as an infinity.\<close>

function (sequential) finite_text :: "json \<Rightarrow> bool" where
  "finite_text (JStr s) = (case parse_decimal s of Some (Fin c e) \<Rightarrow> True | Some d \<Rightarrow> False | None \<Rightarrow> True)"
| "finite_text (JList xs) = (\<forall>x \<in> set xs. finite_text x)"
| "finite_text (JObj kvs) = (\<forall>kv \<in> set kvs. finite_text (snd kv))"
| "finite_text _ = True"
  by pat_completeness auto
termination
  by (relation "measure size") (auto simp: size_element size_value simp del: json.size)

definition finite_dec :: "decimal \<Rightarrow> bool" where
  "finite_dec d = (case d of Fin c e \<Rightarrow> True | _ \<Rightarrow> False)"

lemma finite_dec_simps [simp]:
  "finite_dec (Fin c e)" "\<not> finite_dec (Infinity n)" "\<not> finite_dec (NaN q)"
  by (simp_all add: finite_dec_def)

lemma finite_decE: "finite_dec d \<Longrightarrow> (\<And>c e. d = Fin c e \<Longrightarrow> P) \<Longrightarrow> P"
  by (cases d) auto

lemma finite_text_decimal: "finite_text v \<Longrightarrow> as_decimal v = Some d \<Longrightarrow> finite_dec d"
  by (cases v) (auto split: option.splits decimal.splits)

lemma finite_text_get: "finite_text v \<Longrightarrow> obj_get v k = Some w \<Longrightarrow> finite_text w"
  by (cases v) (force dest: map_of_SomeD)+

lemma finite_text_segments: "finite_text v \<Longrightarrow> resolve_segments v ss = Some w \<Longrightarrow> finite_text w"
proof (induction v ss rule: resolve_segments.induct)
  case (2 kvs s ss)
  then show ?case using finite_text_get [of "JObj kvs" s] by (auto split: option.splits)
next
  case (3 xs s ss)
  have "finite_text (JList (project xs s))" using 3(2)
    by (auto simp: project_def map_filter_def intro: finite_text_get)
  then show ?case using 3 by (auto split: if_splits)
qed simp_all

lemma finite_text_field: "finite_text facts \<Longrightarrow> resolve_field facts p = Some w \<Longrightarrow> finite_text w"
  by (cases p) (auto split: if_splits dest: finite_text_segments)

lemma amounts_finite:
  assumes "finite_text facts" "d \<in> set (amounts_of facts path)"
  shows "finite_dec d"
proof -
  let ?r = "resolve_field facts (case path of None \<Rightarrow> JStr [] | Some p \<Rightarrow> p)"
  obtain v where v: "v \<in> set (field_values ?r)" "as_decimal v = Some d"
    using assms(2) by (auto simp: amounts_of_def map_filter_def)
  then have "finite_text v"
    by (cases ?r rule: field_values.cases) (auto dest: finite_text_field [OF assms(1)])
  then show ?thesis using v(2) by (rule finite_text_decimal)
qed

lemma dec_lt_finite: "finite_dec a \<Longrightarrow> finite_dec b \<Longrightarrow> is_ok (dec_lt a b)"
  by (auto simp: dec_lt_def elim!: finite_decE)

lemma amounts_over_ok: "finite_dec c \<Longrightarrow> \<forall>d \<in> set ds. finite_dec d \<Longrightarrow> is_ok (amounts_over c ds)"
  by (induction ds) (auto simp: dec_lt_def is_ok_iff rbind_eq_Inr elim!: finite_decE)

lemma dec_sum_finite: "finite_dec a \<Longrightarrow> \<forall>d \<in> set ds. finite_dec d \<Longrightarrow> \<exists>s. dec_sum a ds = Inr s \<and> finite_dec s"
  by (induction ds arbitrary: a) (auto elim!: finite_decE)

lemma config_amount_finite:
  assumes "finite_text facts" "config_amount facts k = Some d"
  shows "finite_dec d"
proof -
  obtain config key v where v: "obj_get facts ''config'' = Some (JObj config)" "map_of config key = Some v"
    "as_decimal v = Some d \<or> (\<exists>value w. v = JObj value \<and> map_of value ''amount'' = Some w \<and> as_decimal w = Some d)"
    using assms(2) by (auto simp: config_amount_def bind_eq_Some_conv split: option.splits json.splits)
  have "finite_text v"
    using finite_text_get [OF finite_text_get [OF assms(1) v(1)], of key v] v(2) by simp
  then show ?thesis using v(3) finite_text_get [of v "''amount''"] by (auto intro: finite_text_decimal)
qed

lemma check_amount_threshold_ok: "finite_text facts \<Longrightarrow> is_ok (check_amount_threshold spec facts)"
  using amounts_over_ok amounts_finite config_amount_finite
  by (fastforce simp: check_amount_threshold_def Let_def is_ok_iff rbind_eq_Inr split: option.splits)

lemma check_sum_matches_ok:
  assumes "finite_text facts" "finite_text spec"
  shows "is_ok (check_sum_matches spec facts)"
proof (cases "Option.bind (resolve_field facts (case obj_get spec ''vs'' of None \<Rightarrow> JStr [] | Some p \<Rightarrow> p)) as_decimal")
  case (Some stated)
  define t where "t = (case as_decimal (case obj_get spec ''tolerance'' of None \<Rightarrow> JInt 0 | Some t \<Rightarrow> t) of
    None \<Rightarrow> Fin 0 0 | Some t \<Rightarrow> t)"
  have "finite_text (case obj_get spec ''tolerance'' of None \<Rightarrow> JInt 0 | Some t \<Rightarrow> t)"
    using finite_text_get [OF assms(2)] by (auto split: option.splits)
  then have t: "finite_dec t" by (auto simp: t_def split: option.splits dest: finite_text_decimal)
  have s: "finite_dec stated" using Some assms(1)
    by (auto simp: bind_eq_Some_conv dest: finite_text_field finite_text_decimal)
  obtain total where "dec_sum (Fin 0 0) (amounts_of facts (obj_get spec ''of'')) = Inr total" "finite_dec total"
    using dec_sum_finite [of "Fin 0 0"] amounts_finite [OF assms(1)] by fastforce
  then show ?thesis using s t
    by (auto simp: check_sum_matches_def Some t_def [symmetric] Let_def dec_lt_def elim!: finite_decE)
qed (simp add: check_sum_matches_def)

text \<open>The tally of an item holds numbers, and a deadline check names its deadline by a plain value.\<close>

definition item_tallied :: "json \<Rightarrow> bool" where
  "item_tallied facts \<longleftrightarrow>
     (case obj_get facts ''item'' of
        Some (JObj kvs) \<Rightarrow> (\<forall>kv \<in> set kvs. py_int (snd kv) \<noteq> None) | _ \<Rightarrow> True)"

definition plain_key :: "json \<Rightarrow> bool" where
  "plain_key spec \<longleftrightarrow> (case obj_get spec ''key'' of None \<Rightarrow> True | Some k \<Rightarrow> hashable k)"

lemma int_or_zero_ok: "(\<And>v. x = Some v \<Longrightarrow> py_int v \<noteq> None) \<Longrightarrow> \<exists>n. int_or_zero x = Inr n"
  by (cases x) (auto split: option.splits)

lemma check_file_present_ok: "item_tallied facts \<Longrightarrow> is_ok (check_file_present spec facts)"
proof (cases "\<exists>kvs. obj_get facts ''item'' = Some (JObj kvs)")
  case True
  then obtain kvs where kvs: "obj_get facts ''item'' = Some (JObj kvs)" by auto
  assume "item_tallied facts"
  then have "\<exists>n. int_or_zero (map_of kvs k) = Inr n" for k
    using kvs by (intro int_or_zero_ok) (force simp: item_tallied_def dest: map_of_SomeD)
  then obtain f where "\<And>k. int_or_zero (map_of kvs k) = Inr (f k)" by metis
  then show ?thesis using kvs by (simp add: check_file_present_def)
qed (auto simp: check_file_present_def split: option.splits json.splits)

lemma run_check_ok:
  assumes "finite_text facts" "finite_text spec" "item_tallied facts" "plain_key spec"
  shows "is_ok (run_check spec facts)"
proof -
  have "is_ok (check_deadline_check spec facts)" using assms(4)
    by (auto simp: check_deadline_check_def deadline_entry_def plain_key_def is_ok_iff rbind_eq_Inr
        split: option.splits json.splits)
  then have "is_ok (r spec facts)" if "runner t = Some r" for t r
    using that assms check_file_present_ok check_amount_threshold_ok check_sum_matches_ok
    by (auto simp: runner_def check_date_within_trip_def check_keyword_absent_def split: if_splits)
  then show ?thesis by (auto simp: run_check_def Let_def split: json.splits option.splits)
qed

section \<open>Properties\<close>

text \<open>
  The checks give one verdict per configured check, in order, and raise nothing, on facts and checks
  whose text reads as no special number, with a numeric item tally and plain deadline keys.
\<close>

theorem auto_checks_never_raise:
  assumes "finite_text facts" "finite_text (JList checks)" "item_tallied facts" "list_all plain_key checks"
  shows "\<exists>rs. run_auto_checks (JList checks) facts = Inr rs \<and> length rs = length checks"
proof -
  have "is_ok (run_auto_checks (JList checks) facts)"
    using assms by (auto simp: list_all_iff intro!: rmap_ok run_check_ok)
  then obtain rs where "rmap (\<lambda>spec. run_check spec facts) checks = Inr rs" by (auto simp: is_ok_iff)
  moreover from this have "length rs = length checks" by (simp add: rmap_eq_Inr_iff list_all2_lengthD [THEN sym])
  ultimately show ?thesis by simp
qed

definition sample_checks :: "json list" where
  "sample_checks = [JObj [(''type'', JStr ''file_present'')],
     JObj [(''type'', JStr ''amount_threshold''), (''field'', JStr ''fare''), (''max_key'', JStr ''receipts.cenrr_max'')],
     JObj [(''type'', JStr ''deadline_check''), (''key'', JStr ''liquidation.deadline'')],
     JNull]"

theorem auto_checks_never_raise_witness:
  "\<exists>facts rs. obj_get facts ''fare'' = Some (JList [JStr ''450.00'']) \<and>
     run_auto_checks (JList sample_checks) facts = Inr rs \<and> length rs = 4"
proof -
  define facts where "facts = JObj [(''fare'', JList [JStr ''450.00'']),
    (''config'', JObj [(''receipts.cenrr_max'', JObj [(''amount'', JStr ''300.00'')])]),
    (''item'', JObj [(''evidence_count'', JInt 1)])]"
  have "finite_text facts" "finite_text (JList sample_checks)"
    by (simp_all add: facts_def sample_checks_def parse_defs)
  moreover have "item_tallied facts" "list_all plain_key sample_checks"
    by (simp_all add: facts_def item_tallied_def plain_key_def sample_checks_def)
  ultimately obtain rs where "run_auto_checks (JList sample_checks) facts = Inr rs" "length rs = 4"
    using auto_checks_never_raise [of facts sample_checks] by (auto simp: sample_checks_def)
  then show ?thesis by (intro exI [of _ facts] exI [of _ rs]) (simp add: facts_def)
qed

lemma deadline_check_stamp:
  assumes "check_deadline_check spec facts = Inr r"
  shows "ck_type r = JStr ''deadline_check'' \<and> ck_reason r \<notin> {''malformed_check'', ''unknown_check_type''}"
  using assms
  by (cases "deadline_entry facts (obj_get spec ''key'')")
    (auto simp: check_deadline_check_def skip_def verdict_def split: option.splits if_splits)

text \<open>
  Checks that passed validation are all understood: every verdict carries the type of its check, and
  none is skipped as malformed or unknown.
\<close>

theorem validated_checks_are_understood:
  assumes "validate_auto_checks (JList checks) = Inr ()" "run_auto_checks (JList checks) facts = Inr rs"
  shows "list_all2 (\<lambda>spec r. obj_get spec ''type'' = Some (ck_type r) \<and>
    ck_reason r \<notin> {''malformed_check'', ''unknown_check_type''}) checks rs"
proof -
  have v: "is_ok (rmap validate_check checks)" using assms(1) by (auto simp: is_ok_iff rbind_eq_Inr)
  then have "\<forall>spec \<in> set checks. validate_check spec = Inr ()"
    by (auto simp: is_ok_iff dest: rmap_unit_ok)
  moreover have "obj_get spec ''type'' = Some (ck_type r) \<and> ck_reason r \<notin> {''malformed_check'', ''unknown_check_type''}"
    if "validate_check spec = Inr ()" "run_check spec facts = Inr r" for spec r
  proof -
    note ran = that
    obtain t where t: "is_obj spec" "obj_get spec ''type'' = Some (JStr t)" "t \<in> set CHECK_TYPES"
      using ran(1) by (auto simp: validate_check_def split: if_splits option.splits json.splits)
    then obtain run where run: "runner t = Some run" "run spec facts = Inr r"
      using ran(2) by (auto simp: run_check_def CHECK_TYPES_def runner_def Let_def)
    then have "ck_type r = JStr t \<and> ck_reason r \<notin> {''malformed_check'', ''unknown_check_type''}"
      by (auto simp: runner_def check_file_present_def check_amount_threshold_def check_date_within_trip_def
          check_sum_matches_def check_keyword_absent_def skip_def verdict_def Let_def rbind_eq_Inr
          dest: deadline_check_stamp split: if_splits option.splits json.splits)
    then show ?thesis using t by simp
  qed
  moreover have "list_all2 (\<lambda>spec r. run_check spec facts = Inr r) checks rs"
    using assms(2) by (simp add: rmap_eq_Inr_iff)
  ultimately show ?thesis by (blast intro: list.rel_mono_strong)
qed

theorem validated_checks_are_understood_witness:
  "\<exists>r. run_auto_checks (JList [JObj [(''type'', JStr ''file_present'')]]) (JObj []) = Inr [r] \<and>
     ck_reason r = ''no_item_context'' \<and> ck_type r = JStr ''file_present''"
proof -
  let ?cs = "[JObj [(''type'', JStr ''file_present'')]]"
  have run: "run_auto_checks (JList ?cs) (JObj []) = Inr [skip ''file_present'' ''no_item_context'']"
    by (simp add: run_check_def runner_def check_file_present_def)
  have "validate_auto_checks (JList ?cs) = Inr ()"
    by (simp add: validate_check_def CHECK_TYPES_def REQUIRED_KEYS_def)
  from validated_checks_are_understood [OF this run] run show ?thesis by (simp add: skip_def verdict_def)
qed

end
