(* ===== verification/Checklist_Engine.thy ===== *)
theory Checklist_Engine
  imports Checklist_Checks "HOL-Library.Char_ord" "HOL-Library.List_Lexorder" "HOL-Library.Product_Lexorder"
begin

text \<open>
  Reconciliation of a catalog with the items a subject has, and the completeness rule,
  \<open>src/office_connect/core/checklist/engine.py\<close>. Records in, records out. An exception of a rule or a
  check reaches the caller, so a plan is a result.
\<close>

section \<open>Vocabulary\<close>

definition ITEM_STATUSES :: "string list" where
  "ITEM_STATUSES = [''missing'', ''attached'', ''generated'', ''auto_passed'', ''auto_flagged'', ''waived'']"

definition SATISFIED_STATUSES :: "string list" where
  "SATISFIED_STATUSES = [''attached'', ''generated'', ''auto_passed'', ''auto_flagged'', ''waived'']"

definition BLOCKING_EVIDENCE :: "string list" where
  "BLOCKING_EVIDENCE = [''upload'', ''external_wet_sign'']"

datatype plan_action = Create | Keep | Restore | MakeDormant

record catalog_spec =
  cs_id :: int
  cs_code :: string
  cs_label :: string
  cs_group :: string
  cs_evidence :: string
  cs_rule :: json
  cs_checks :: json
  cs_sort :: int
  cs_circular :: "string option"

record item_state =
  is_item :: int
  is_catalog :: int
  is_status :: string
  is_count :: int
  is_pending :: int
  is_infected :: int
  is_generated :: bool
  is_waived :: bool
  is_dormant :: bool

definition holds_something :: "item_state \<Rightarrow> bool" where
  "holds_something s \<longleftrightarrow> is_count s \<noteq> 0 \<or> is_waived s \<or> is_generated s"

record item_plan =
  pl_catalog :: catalog_spec
  pl_item :: "int option"
  pl_action :: plan_action
  pl_required :: bool
  pl_reason :: string
  pl_unparseable :: bool
  pl_evidence :: string
  pl_status :: string
  pl_checks :: "check_result list"

definition blocking :: "item_plan \<Rightarrow> bool" where
  "blocking p \<longleftrightarrow> pl_required p \<and> pl_evidence p = ''missing'' \<and> cs_evidence (pl_catalog p) \<in> set BLOCKING_EVIDENCE"

definition plan_flags :: "item_plan \<Rightarrow> check_result list" where
  "plan_flags p = filter flagged (pl_checks p)"

record blocking_item =
  bi_catalog :: int
  bi_item :: "int option"
  bi_code :: string
  bi_label :: string
  bi_group :: string
  bi_evidence :: string
  bi_reason :: string

record packet_status =
  pk_required_total :: nat
  pk_required_done :: int
  pk_blocking :: "blocking_item list"
  pk_flags :: "(int \<times> check_result) list"
  pk_unparseable :: "int list"

definition complete :: "packet_status \<Rightarrow> bool" where
  "complete st \<longleftrightarrow> pk_blocking st = []"

section \<open>Planning\<close>

definition derive :: "catalog_spec \<Rightarrow> item_state option \<Rightarrow> check_result list \<Rightarrow> string \<times> string" where
  "derive spec state checks =
     (let flag = (\<exists>c \<in> set checks. flagged c); pass = (\<exists>c \<in> set checks. ck_outcome c = Passed) in
      if (case state of None \<Rightarrow> False | Some s \<Rightarrow> is_waived s) then (''waived'', ''waived'')
      else if (case state of None \<Rightarrow> False | Some s \<Rightarrow> is_generated s) then (''generated'', ''generated'')
      else if cs_evidence spec = ''data_only''
      then (''attached'', if flag then ''auto_flagged'' else ''auto_passed'')
      else if (case state of None \<Rightarrow> False | Some s \<Rightarrow> is_count s > 0)
      then (''attached'', if flag then ''auto_flagged'' else if pass then ''auto_passed'' else ''attached'')
      else (''missing'', ''missing''))"

text \<open>\<open>{**facts, k: v}\<close>: a key that is present keeps its place.\<close>

fun dict_put :: "(string \<times> json) list \<Rightarrow> string \<Rightarrow> json \<Rightarrow> (string \<times> json) list" where
  "dict_put [] k v = [(k, v)]"
| "dict_put (kv # kvs) k v = (if fst kv = k then (k, v) # kvs else kv # dict_put kvs k v)"

definition item_tally :: "item_state option \<Rightarrow> json" where
  "item_tally state =
     (case state of
        None \<Rightarrow> JObj [(''evidence_count'', JInt 0), (''evidence_pending'', JInt 0), (''evidence_infected'', JInt 0),
                  (''waived'', JBool False), (''generated'', JBool False)]
      | Some s \<Rightarrow> JObj [(''evidence_count'', JInt (is_count s)), (''evidence_pending'', JInt (is_pending s)),
                  (''evidence_infected'', JInt (is_infected s)),
                  (''waived'', JBool (is_waived s)), (''generated'', JBool (is_generated s))])"

fun item_facts :: "json \<Rightarrow> item_state option \<Rightarrow> json" where
  "item_facts (JObj facts) state = JObj (dict_put facts ''item'' (item_tally state))"
| "item_facts facts state = facts"

definition by_catalog :: "item_state list \<Rightarrow> int \<Rightarrow> item_state option" where
  "by_catalog existing = map_of (rev (map (\<lambda>s. (is_catalog s, s)) existing))"

definition plan_action_for :: "bool \<Rightarrow> item_state option \<Rightarrow> plan_action" where
  "plan_action_for applies state =
     (case state of
        None \<Rightarrow> Create
      | Some s \<Rightarrow>
          if applies \<and> is_dormant s then Restore
          else if applies then Keep
          else if holds_something s then Keep
          else MakeDormant)"

text \<open>The loop body: \<open>None\<close> for \<open>continue\<close>.\<close>

definition plan_row :: "json \<Rightarrow> catalog_spec \<Rightarrow> item_state option \<Rightarrow> item_plan option res" where
  "plan_row facts spec state =
     rbind (evaluate_required_rule (cs_rule spec) facts) (\<lambda>oc.
       if \<not> oc_required oc \<and> \<not> oc_unparseable oc \<and> (case state of None \<Rightarrow> True | Some s \<Rightarrow> is_dormant s)
       then Inr None
       else if oc_unparseable oc \<and> (case state of None \<Rightarrow> False | Some s \<Rightarrow> is_dormant s)
       then Inr None
       else rbind (run_auto_checks (cs_checks spec) (item_facts facts state)) (\<lambda>checks.
         Inr (Some \<lparr>pl_catalog = spec, pl_item = map_option is_item state,
                   pl_action = plan_action_for (oc_required oc) state,
                   pl_required = oc_required oc, pl_reason = oc_reason oc, pl_unparseable = oc_unparseable oc,
                   pl_evidence = fst (derive spec state checks), pl_status = snd (derive spec state checks),
                   pl_checks = checks\<rparr>)))"

definition sorted_catalog :: "catalog_spec list \<Rightarrow> catalog_spec list" where
  "sorted_catalog = sort_key (\<lambda>row. (cs_sort row, cs_code row))"

definition plan_checklist :: "catalog_spec list \<Rightarrow> item_state list \<Rightarrow> json \<Rightarrow> item_plan list res" where
  "plan_checklist catalog existing facts =
     rbind (rmap (\<lambda>spec. plan_row facts spec (by_catalog existing (cs_id spec))) (sorted_catalog catalog)) (\<lambda>ps.
       Inr (List.map_filter id ps))"

section \<open>Completeness\<close>

definition blocking_item_of :: "item_plan \<Rightarrow> blocking_item" where
  "blocking_item_of p =
     \<lparr>bi_catalog = cs_id (pl_catalog p), bi_item = pl_item p, bi_code = cs_code (pl_catalog p),
      bi_label = cs_label (pl_catalog p), bi_group = cs_group (pl_catalog p),
      bi_evidence = cs_evidence (pl_catalog p), bi_reason = ''missing''\<rparr>"

definition packet_status :: "string list \<Rightarrow> item_plan list \<Rightarrow> packet_status" where
  "packet_status blocking_evidence plan =
     (let countable = filter (\<lambda>p. pl_required p \<and> cs_evidence (pl_catalog p) \<in> set blocking_evidence) plan;
          blocked = map blocking_item_of (filter (\<lambda>p. pl_evidence p = ''missing'') countable) in
      \<lparr>pk_required_total = length countable,
       pk_required_done = int (length countable) - int (length blocked),
       pk_blocking = blocked,
       pk_flags = concat (map (\<lambda>p. map (Pair (cs_id (pl_catalog p))) (plan_flags p)) plan),
       pk_unparseable = map (\<lambda>p. cs_id (pl_catalog p)) (filter pl_unparseable plan)\<rparr>)"

definition status_is_satisfied :: "string \<Rightarrow> bool" where
  "status_is_satisfied st \<longleftrightarrow> st \<in> set SATISFIED_STATUSES"

definition validate_status_vocabulary :: "string list \<Rightarrow> unit res" where
  "validate_status_vocabulary statuses = (if set statuses \<subseteq> set ITEM_STATUSES then Inr () else Inl ValueError)"

section \<open>Lemmas\<close>

text \<open>Nothing a human or the system supplied stands behind the item.\<close>

definition empty_handed :: "item_state option \<Rightarrow> bool" where
  "empty_handed state =
     (case state of None \<Rightarrow> True | Some s \<Rightarrow> \<not> is_waived s \<and> \<not> is_generated s \<and> \<not> is_count s > 0)"

lemma derive_missing:
  "fst (derive spec state checks) = ''missing'' \<longleftrightarrow> empty_handed state \<and> cs_evidence spec \<noteq> ''data_only''"
  by (auto simp: derive_def empty_handed_def Let_def split: option.splits)

lemma derive_satisfied:
  "status_is_satisfied (snd (derive spec state checks)) \<longleftrightarrow> fst (derive spec state checks) \<noteq> ''missing''"
  by (auto simp: derive_def status_is_satisfied_def SATISFIED_STATUSES_def Let_def split: option.splits)

lemma derive_known: "snd (derive spec state checks) \<in> set ITEM_STATUSES"
  by (auto simp: derive_def ITEM_STATUSES_def Let_def split: option.splits)

lemma unparseable_not_required:
  assumes "evaluate_required_rule rule facts = Inr oc" "oc_unparseable oc"
  shows "\<not> oc_required oc"
proof -
  have "oc = UNPARSEABLE" using assms
    by (subst (asm) evaluate_required_rule_def, subst (asm) evaluate.simps)
      (auto simp: evaluate_condition_def outcome_def fold_junction_def rbind_eq_Inr Let_def
        split: json.splits list.splits if_splits option.splits)
  then show ?thesis by (simp add: UNPARSEABLE_def)
qed

lemma plan_row_Some:
  assumes "plan_row facts spec state = Inr (Some p)"
  shows "\<exists>oc checks. evaluate_required_rule (cs_rule spec) facts = Inr oc \<and>
    run_auto_checks (cs_checks spec) (item_facts facts state) = Inr checks \<and>
    (oc_required oc \<or> (\<exists>s. state = Some s \<and> \<not> is_dormant s) \<or> (oc_unparseable oc \<and> state = None)) \<and>
    p = \<lparr>pl_catalog = spec, pl_item = map_option is_item state,
         pl_action = plan_action_for (oc_required oc) state,
         pl_required = oc_required oc, pl_reason = oc_reason oc, pl_unparseable = oc_unparseable oc,
         pl_evidence = fst (derive spec state checks), pl_status = snd (derive spec state checks),
         pl_checks = checks\<rparr>"
  using assms by (auto simp: plan_row_def rbind_eq_Inr split: if_splits option.splits)

lemma plan_row_None:
  assumes "plan_row facts spec state = Inr None"
  shows "\<exists>oc. evaluate_required_rule (cs_rule spec) facts = Inr oc \<and> \<not> oc_required oc \<and>
    (case state of None \<Rightarrow> True | Some s \<Rightarrow> is_dormant s)"
  using assms unparseable_not_required [of "cs_rule spec" facts]
  by (auto simp: plan_row_def rbind_eq_Inr split: if_splits option.splits)

lemma plan_checklist_rows:
  assumes "plan_checklist catalog existing facts = Inr ps" "spec \<in> set catalog"
  shows "\<exists>r. plan_row facts spec (by_catalog existing (cs_id spec)) = Inr r"
proof -
  obtain rs where "rmap (\<lambda>spec. plan_row facts spec (by_catalog existing (cs_id spec))) (sorted_catalog catalog) = Inr rs"
    using assms(1) by (auto simp: plan_checklist_def rbind_eq_Inr)
  moreover have "spec \<in> set (sorted_catalog catalog)" using assms(2) by (simp add: sorted_catalog_def)
  ultimately show ?thesis by (auto simp: rmap_eq_Inr_iff list_all2_conv_all_nth in_set_conv_nth)
qed

lemma map_filter_id: "p \<in> set (List.map_filter id rs) \<longleftrightarrow> Some p \<in> set rs"
  by (force simp: map_filter_def image_iff)

lemma plan_checklist_member:
  assumes "plan_checklist catalog existing facts = Inr ps"
  shows "p \<in> set ps \<longleftrightarrow>
    (\<exists>spec \<in> set catalog. plan_row facts spec (by_catalog existing (cs_id spec)) = Inr (Some p))"
proof -
  let ?f = "\<lambda>spec. plan_row facts spec (by_catalog existing (cs_id spec))"
  obtain rs where rs: "rmap ?f (sorted_catalog catalog) = Inr rs" "ps = List.map_filter id rs"
    using assms by (auto simp: plan_checklist_def rbind_eq_Inr)
  have "Some p \<in> set rs \<longleftrightarrow> (\<exists>spec \<in> set (sorted_catalog catalog). ?f spec = Inr (Some p))"
    using rs(1) unfolding rmap_eq_Inr_iff list_all2_conv_all_nth in_set_conv_nth Bex_def by force
  then show ?thesis by (simp add: rs(2) map_filter_id sorted_catalog_def)
qed

lemma plan_of_required:
  assumes "plan_checklist catalog existing facts = Inr ps" "spec \<in> set catalog"
    "required_rule_applies (cs_rule spec) facts = Inr True"
  shows "\<exists>p \<in> set ps. pl_catalog p = spec \<and> pl_required p \<and>
    (pl_evidence p = ''missing'' \<longleftrightarrow> empty_handed (by_catalog existing (cs_id spec)) \<and> cs_evidence spec \<noteq> ''data_only'')"
proof -
  obtain r where r: "plan_row facts spec (by_catalog existing (cs_id spec)) = Inr r"
    using plan_checklist_rows [OF assms(1,2)] by blast
  then obtain p where p: "r = Some p"
    using assms(3)
    by (cases r) (auto simp: required_rule_applies_def rbind_eq_Inr dest: plan_row_None)
  have "p \<in> set ps" using plan_checklist_member [OF assms(1)] assms(2) r p by auto
  moreover have "pl_catalog p = spec \<and> pl_required p \<and>
      (pl_evidence p = ''missing'' \<longleftrightarrow> empty_handed (by_catalog existing (cs_id spec)) \<and> cs_evidence spec \<noteq> ''data_only'')"
    using plan_row_Some [OF r [unfolded p]] assms(3)
    by (auto simp: required_rule_applies_def derive_missing)
  ultimately show ?thesis by blast
qed

lemma plan_member_facts:
  assumes "plan_checklist catalog existing facts = Inr ps" "p \<in> set ps"
  shows "pl_catalog p \<in> set catalog"
    "required_rule_applies (cs_rule (pl_catalog p)) facts = Inr (pl_required p)"
    "pl_evidence p = ''missing'' \<longleftrightarrow>
       empty_handed (by_catalog existing (cs_id (pl_catalog p))) \<and> cs_evidence (pl_catalog p) \<noteq> ''data_only''"
    "status_is_satisfied (pl_status p) \<longleftrightarrow> pl_evidence p \<noteq> ''missing''"
    "pl_action p = plan_action_for (pl_required p) (by_catalog existing (cs_id (pl_catalog p)))"
    "by_catalog existing (cs_id (pl_catalog p)) = Some s \<Longrightarrow> is_dormant s \<Longrightarrow> pl_required p"
proof -
  obtain spec where spec: "spec \<in> set catalog" "plan_row facts spec (by_catalog existing (cs_id spec)) = Inr (Some p)"
    using plan_checklist_member [OF assms(1)] assms(2) by blast
  from plan_row_Some [OF spec(2)] obtain oc checks where row:
    "evaluate_required_rule (cs_rule spec) facts = Inr oc"
    "oc_required oc \<or> (\<exists>s. by_catalog existing (cs_id spec) = Some s \<and> \<not> is_dormant s) \<or>
      (oc_unparseable oc \<and> by_catalog existing (cs_id spec) = None)"
    and c: "pl_catalog p = spec" and f: "pl_required p = oc_required oc"
      "pl_action p = plan_action_for (oc_required oc) (by_catalog existing (cs_id spec))"
      "pl_evidence p = fst (derive spec (by_catalog existing (cs_id spec)) checks)"
      "pl_status p = snd (derive spec (by_catalog existing (cs_id spec)) checks)"
    by auto
  show "pl_catalog p \<in> set catalog" using spec(1) c by simp
  show "required_rule_applies (cs_rule (pl_catalog p)) facts = Inr (pl_required p)"
    using row(1) by (simp add: c f required_rule_applies_def)
  show "pl_evidence p = ''missing'' \<longleftrightarrow>
       empty_handed (by_catalog existing (cs_id (pl_catalog p))) \<and> cs_evidence (pl_catalog p) \<noteq> ''data_only''"
    "status_is_satisfied (pl_status p) \<longleftrightarrow> pl_evidence p \<noteq> ''missing''"
    "pl_action p = plan_action_for (pl_required p) (by_catalog existing (cs_id (pl_catalog p)))"
    by (simp_all add: c f derive_missing derive_satisfied)
  show "by_catalog existing (cs_id (pl_catalog p)) = Some s \<Longrightarrow> is_dormant s \<Longrightarrow> pl_required p"
    using row(2) by (auto simp: c f)
qed

section \<open>Properties\<close>

text \<open>
  The gate is the documentary rule and nothing else: a packet is complete exactly when every catalog
  row that is required of these facts and asks a human for evidence has something behind it: a usable
  file, a waiver or a generated document. Neither the stored status nor any flag takes part.
\<close>

theorem packet_complete_iff:
  assumes "plan_checklist catalog existing facts = Inr ps"
  shows "complete (packet_status BLOCKING_EVIDENCE ps) \<longleftrightarrow>
    (\<forall>spec \<in> set catalog. required_rule_applies (cs_rule spec) facts = Inr True \<and>
       cs_evidence spec \<in> set BLOCKING_EVIDENCE \<longrightarrow> \<not> empty_handed (by_catalog existing (cs_id spec)))"
proof -
  have human: "cs_evidence spec \<noteq> ''data_only''" if "cs_evidence spec \<in> set BLOCKING_EVIDENCE" for spec
    using that by (auto simp: BLOCKING_EVIDENCE_def)
  have "complete (packet_status BLOCKING_EVIDENCE ps) \<longleftrightarrow> (\<forall>p \<in> set ps. \<not> blocking p)"
    by (auto simp: complete_def packet_status_def Let_def blocking_def filter_empty_conv)
  also have "\<dots> \<longleftrightarrow> (\<forall>spec \<in> set catalog. required_rule_applies (cs_rule spec) facts = Inr True \<and>
       cs_evidence spec \<in> set BLOCKING_EVIDENCE \<longrightarrow> \<not> empty_handed (by_catalog existing (cs_id spec)))"
  proof safe
    fix spec assume "\<forall>p \<in> set ps. \<not> blocking p" "spec \<in> set catalog"
      "required_rule_applies (cs_rule spec) facts = Inr True" "cs_evidence spec \<in> set BLOCKING_EVIDENCE"
      "empty_handed (by_catalog existing (cs_id spec))"
    with plan_of_required [OF assms] human show False by (fastforce simp: blocking_def)
  next
    fix p assume "p \<in> set ps" "blocking p" and all: "\<forall>spec \<in> set catalog.
      required_rule_applies (cs_rule spec) facts = Inr True \<and> cs_evidence spec \<in> set BLOCKING_EVIDENCE \<longrightarrow>
      \<not> empty_handed (by_catalog existing (cs_id spec))"
    with plan_member_facts(1-3) [OF assms \<open>p \<in> set ps\<close>] show False by (auto simp: blocking_def)
  qed
  finally show ?thesis .
qed

definition order_row :: catalog_spec where
  "order_row = \<lparr>cs_id = 1, cs_code = ''TO-01'', cs_label = ''Travel order'', cs_group = ''core'', cs_evidence = ''upload'',
     cs_rule = JObj [(''always'', JBool True)], cs_checks = JList [JObj [(''type'', JStr ''file_present'')]],
     cs_sort = 10, cs_circular = None\<rparr>"

definition taxi_row :: catalog_spec where
  "taxi_row = order_row\<lparr>cs_id := 2, cs_code := ''RER-46'', cs_sort := 5, cs_checks := JNull,
     cs_rule := JObj [(''if'', JObj [(''field'', JStr ''transport_modes''), (''contains'', JStr ''taxi'')])]\<rparr>"

definition infected_state :: item_state where
  "infected_state = \<lparr>is_item = 7, is_catalog = 1, is_status = ''auto_flagged'', is_count = 1, is_pending = 0, is_infected = 1,
     is_generated = False, is_waived = False, is_dormant = False\<rparr>"

definition idle_state :: item_state where
  "idle_state = infected_state\<lparr>is_item := 8, is_catalog := 2, is_count := 0, is_infected := 0\<rparr>"

definition bus_facts :: json where
  "bus_facts = JObj [(''transport_modes'', JList [JStr ''bus''])]"

lemmas sample_plan_simps = order_row_def taxi_row_def infected_state_def idle_state_def bus_facts_def
  plan_checklist_def sorted_catalog_def sort_key_def plan_row_def by_catalog_def evaluate_required_rule_def evaluate.simps
  MAX_RULE_DEPTH_def evaluate_condition_def COMPARATORS_def run_comparator_def outcome_def run_check_def runner_def
  check_file_present_def item_tally_def verdict_def skip_def derive_def flagged_def plan_action_for_def holds_something_def
  map_filter_def required_rule_applies_def Let_def

lemma sample_plan:
  "\<exists>p q. plan_checklist [order_row, taxi_row] [infected_state, idle_state] bus_facts = Inr [q, p] \<and>
     pl_catalog p = order_row \<and> pl_action p = Keep \<and> pl_status p = ''auto_flagged'' \<and>
     pl_catalog q = taxi_row \<and> pl_action q = MakeDormant"
  by (simp add: sample_plan_simps)

theorem packet_complete_iff_witness:
  "\<exists>ps. plan_checklist [order_row, taxi_row] [infected_state, idle_state] bus_facts = Inr ps \<and>
     (\<exists>p \<in> set ps. plan_flags p \<noteq> []) \<and> complete (packet_status BLOCKING_EVIDENCE ps)"
proof -
  obtain ps where ps: "plan_checklist [order_row, taxi_row] [infected_state, idle_state] bus_facts = Inr ps"
    "\<exists>p \<in> set ps. plan_flags p \<noteq> []"
    by (simp add: sample_plan_simps plan_flags_def)
  have "\<not> empty_handed (by_catalog [infected_state, idle_state] (cs_id order_row))"
    "required_rule_applies (cs_rule taxi_row) bus_facts = Inr False"
    by (simp_all add: sample_plan_simps empty_handed_def)
  with packet_complete_iff [OF ps(1)] ps show ?thesis by auto
qed

text \<open>
  The progress line adds up: done and blocking items together are the required ones, and the packet
  is complete exactly when done equals required.
\<close>

theorem progress_line_adds_up:
  "pk_required_done (packet_status ev ps) + int (length (pk_blocking (packet_status ev ps))) =
     int (pk_required_total (packet_status ev ps)) \<and>
   0 \<le> pk_required_done (packet_status ev ps) \<and>
   (complete (packet_status ev ps) \<longleftrightarrow>
     pk_required_done (packet_status ev ps) = int (pk_required_total (packet_status ev ps)))"
  using length_filter_le by (auto simp: packet_status_def Let_def complete_def length_0_conv [symmetric]
    simp del: length_0_conv filter_filter)

text \<open>
  Work is never put away: an item is made dormant only when it is live, no longer required and holds
  neither evidence nor a waiver nor a generated document; and a live item that holds something stays
  in the plan and is kept.
\<close>

theorem evidence_is_never_put_away:
  assumes "plan_checklist catalog existing facts = Inr ps"
  shows "(\<forall>p \<in> set ps. pl_action p = MakeDormant \<longrightarrow>
      (\<exists>s. by_catalog existing (cs_id (pl_catalog p)) = Some s \<and> \<not> is_dormant s \<and> \<not> holds_something s) \<and>
      required_rule_applies (cs_rule (pl_catalog p)) facts = Inr False) \<and>
    (\<forall>spec \<in> set catalog. \<forall>s. by_catalog existing (cs_id spec) = Some s \<and> \<not> is_dormant s \<and> holds_something s \<longrightarrow>
      (\<exists>p \<in> set ps. pl_catalog p = spec \<and> pl_action p = Keep))"
proof (intro conjI ballI impI allI)
  fix p assume p: "p \<in> set ps" "pl_action p = MakeDormant"
  note facts = plan_member_facts [OF assms p(1)]
  from p(2) facts(5) have "\<exists>s. by_catalog existing (cs_id (pl_catalog p)) = Some s \<and> \<not> holds_something s" "\<not> pl_required p"
    by (auto simp: plan_action_for_def split: option.splits if_splits)
  with facts(2,6)
  show "\<exists>s. by_catalog existing (cs_id (pl_catalog p)) = Some s \<and> \<not> is_dormant s \<and> \<not> holds_something s"
    "required_rule_applies (cs_rule (pl_catalog p)) facts = Inr False" by auto
next
  fix spec s assume spec: "spec \<in> set catalog"
    and s: "by_catalog existing (cs_id spec) = Some s \<and> \<not> is_dormant s \<and> holds_something s"
  obtain r where r: "plan_row facts spec (by_catalog existing (cs_id spec)) = Inr r"
    using plan_checklist_rows [OF assms spec] by blast
  then obtain p where p: "r = Some p" using s by (cases r) (auto dest: plan_row_None)
  have "p \<in> set ps" using plan_checklist_member [OF assms] spec r p by auto
  moreover have "pl_catalog p = spec \<and> pl_action p = Keep"
    using plan_row_Some [OF r [unfolded p]] s by (auto simp: plan_action_for_def)
  ultimately show "\<exists>p \<in> set ps. pl_catalog p = spec \<and> pl_action p = Keep" by blast
qed

theorem evidence_is_never_put_away_witness:
  "\<exists>ps. plan_checklist [order_row, taxi_row] [infected_state, idle_state] bus_facts = Inr ps \<and>
     (\<exists>p \<in> set ps. pl_action p = MakeDormant \<and> required_rule_applies (cs_rule (pl_catalog p)) bus_facts = Inr False) \<and>
     (\<exists>p \<in> set ps. pl_catalog p = order_row \<and> pl_action p = Keep)"
proof -
  obtain p q where "plan_checklist [order_row, taxi_row] [infected_state, idle_state] bus_facts = Inr [q, p]"
    "pl_catalog p = order_row" "pl_action p = Keep" "pl_action q = MakeDormant"
    using sample_plan by blast
  with evidence_is_never_put_away [OF this(1)] show ?thesis by auto
qed

end
