(* ===== verification/Claim_Facts.thy ===== *)
theory Claim_Facts
  imports Claim_Totals Checklist_Engine
begin

text \<open>
  The facts a claim's checklist is evaluated against, \<open>services/checklist_facts.py\<close>, and the
  documentary catalog shipped with the module, \<open>REIMB_CHECKLIST\<close> of \<open>modules/reimbursement/seeds.py\<close>.
\<close>

section \<open>Facts\<close>

definition opt_str :: "string option \<Rightarrow> json" where
  "opt_str s = (case s of None \<Rightarrow> JNull | Some t \<Rightarrow> JStr t)"

definition opt_int :: "int option \<Rightarrow> json" where
  "opt_int n = (case n of None \<Rightarrow> JNull | Some i \<Rightarrow> JInt i)"

definition opt_date :: "date option \<Rightarrow> json" where
  "opt_date d = (case d of None \<Rightarrow> JNull | Some i \<Rightarrow> JStr (isoformat i))"

definition opt_money :: "int option \<Rightarrow> json" where
  "opt_money m = (case m of None \<Rightarrow> JNull | Some c \<Rightarrow> JStr (money_str c))"

definition FACTS_VERSION :: int where "FACTS_VERSION = 2"

text \<open>The dict of \<open>effective_config\<close>: one entry per key that has a row effective today.\<close>

definition config_dict :: "config_row list \<Rightarrow> date \<Rightarrow> (string \<times> json) list" where
  "config_dict rows today =
     List.map_filter (\<lambda>k. map_option (Pair k) (effective_config rows today k))
       (rev (remdups (rev (map cf_key (filter (\<lambda>r. cf_active r \<and> cf_from r \<le> today) rows)))))"

definition deadline_facts :: "reimb_db \<Rightarrow> claim \<Rightarrow> json" where
  "deadline_facts db c =
     JObj (if cl_kind c \<noteq> LIQUIDATION_KIND then []
           else (case cl_cash_advance c of
              None \<Rightarrow> []
            | Some k \<Rightarrow> (case find_advance db k of
                 None \<Rightarrow> []
               | Some a \<Rightarrow> (case ca_deadline a of
                    None \<Rightarrow> []
                  | Some d \<Rightarrow> [(DEADLINE_KEY, JStr (isoformat d))]))))"

definition leg_facts :: "leg \<Rightarrow> json" where
  "leg_facts l = JObj
     [(''seq'', JInt (lg_seq l)), (''leg_date'', opt_date (lg_date l)), (''place'', opt_str (lg_place l)),
      (''destination_region_code'', opt_str (lg_region l)), (''transport_mode'', opt_str (lg_mode l)),
      (''fare'', opt_money (lg_fare l))]"

definition transport_modes :: "leg list \<Rightarrow> string list" where
  "transport_modes ls = sort (remdups (List.map_filter (\<lambda>l. if truthy (lg_mode l) then lg_mode l else None) ls))"

definition totals_facts :: "claim \<Rightarrow> (string \<times> json) list" where
  "totals_facts c =
     dict_put (case cl_totals c of JObj kvs \<Rightarrow> kvs | _ \<Rightarrow> []) ''other'' (JStr (money_str (cl_other_total c)))"

definition build_claim_facts :: "reimb_db \<Rightarrow> claim \<Rightarrow> instant \<Rightarrow> json" where
  "build_claim_facts db c now =
     (let today = manila_date now; ls = claim_legs db (cl_id c) in
      JObj
       [(''kind'', JStr (cl_kind c)), (''is_jo_cos'', JBool (cl_jo_cos c)), (''fund_source'', opt_str (cl_fund_source c)),
        (''is_within_50km'', JBool (cl_within_50km c)), (''overnight_stay'', JBool (cl_overnight c)),
        (''activity_id'', opt_int (cl_activity c)), (''purpose'', opt_str (cl_purpose c)),
        (''destination'', opt_str (cl_destination c)), (''destination_region_code'', opt_str (cl_region c)),
        (''transport_modes'', JList (map JStr (transport_modes ls))),
        (''fare'', JList (List.map_filter (\<lambda>l. map_option (\<lambda>f. JStr (money_str f)) (lg_fare l)) ls)),
        (''legs'', JList (map leg_facts ls)), (''leg_count'', JInt (int (length ls))),
        (''trip'', JObj [(''depart'', opt_date (cl_date_depart c)), (''return'', opt_date (cl_date_return c)),
           (''days'', case (cl_date_depart c, cl_date_return c) of
              (Some d, Some r) \<Rightarrow> JInt (r - d + 1) | _ \<Rightarrow> JNull)]),
        (''totals'', JObj (totals_facts c)), (''config'', JObj (config_dict (configs db) today)),
        (''deadlines'', deadline_facts db c), (''evidence_dates'', JList []), (''ocr_text'', JNull),
        (''today'', JStr (isoformat today)), (''facts_version'', JInt FACTS_VERSION)])"

section \<open>The shipped catalog\<close>

definition always :: "bool \<Rightarrow> json" where
  "always b = JObj [(''always'', JBool b)]"

definition on_field :: "string \<Rightarrow> string \<Rightarrow> json \<Rightarrow> json" where
  "on_field f comparator v = JObj [(''if'', JObj [(''field'', JStr f), (comparator, v)])]"

definition seed_check :: "string \<Rightarrow> string \<Rightarrow> string \<Rightarrow> string \<Rightarrow> string \<Rightarrow> json \<Rightarrow> json list \<Rightarrow> int \<Rightarrow> catalog_row" where
  "seed_check kind code label grp evidence rule checks srt =
     \<lparr>ct_id = 0, ct_kind = Some kind, ct_code = code, ct_label = label, ct_group = grp, ct_rule = rule,
      ct_checks = JList checks, ct_evidence = evidence, ct_circular = Some ''COA Circular 2023-004'',
      ct_sort = srt, ct_active = True\<rparr>"

definition threshold_check :: json where
  "threshold_check = JObj [(''type'', JStr ''amount_threshold''), (''field'', JStr ''fare''),
     (''max_key'', JStr ''receipts.cenrr_max''), (''on_exceed'', JStr ''require_item:RER'')]"

definition deadline_spec :: json where
  "deadline_spec = JObj [(''type'', JStr ''deadline_check''), (''key'', JStr ''liquidation.deadline'')]"

definition REIMB_CHECKLIST :: "catalog_row list" where
  "REIMB_CHECKLIST =
     (let rb = seed_check REIMBURSEMENT_KIND; lq = seed_check LIQUIDATION_KIND in
      [rb ''TO-01'' ''Approved Travel Order / Authority to Travel'' ''authority'' ''upload'' (always True) [] 1,
       rb ''JO-01'' ''Head-of-Office certification (JO/COS claimant)'' ''authority'' ''upload''
         (on_field ''is_jo_cos'' ''eq'' (JBool True)) [] 2,
       rb ''IOT-45'' ''Itinerary of Travel (GAM App 45)'' ''itinerary'' ''generated_doc'' (always True) [] 3,
       rb ''CTC-47'' ''Certificate of Travel Completed (GAM App 47)'' ''proof_of_travel'' ''external_wet_sign'' (always True) [] 4,
       rb ''RER-46'' ''Reimbursement Expense Receipt for taxi/no-receipt fares'' ''transport'' ''upload''
         (on_field ''transport_modes'' ''contains'' (JStr ''taxi'')) [threshold_check] 5,
       rb ''LOD-01'' ''Hotel official receipt / lodging certificate'' ''lodging_meals'' ''upload''
         (on_field ''totals.other'' ''gt'' (JInt 0)) [] 6,
       rb ''AR-01'' ''Accomplishment / after-travel report'' ''report'' ''generated_doc'' (always True) [] 7,
       rb ''DV-32'' ''Disbursement Voucher (GAM App 32)'' ''financial'' ''generated_doc'' (always True) [] 8,
       lq ''TO-01'' ''Approved Travel Order / Authority to Travel'' ''authority'' ''upload'' (always True) [] 1,
       lq ''CTC-47'' ''Certificate of Travel Completed (GAM App 47)'' ''proof_of_travel'' ''external_wet_sign'' (always True) [] 2,
       lq ''OR-01'' ''Official receipts / RERs for the actual expenses'' ''financial'' ''upload'' (always True) [] 3,
       lq ''LIQ-30'' ''Filed within the 30-day liquidation deadline'' ''financial'' ''data_only'' (always True) [deadline_spec] 4,
       lq ''LR-44'' ''Liquidation Report (GAM App 44)'' ''financial'' ''generated_doc'' (always True) [] 5,
       lq ''CRT-C'' (''Certification C '' @ em_dash @ '' signed page (Head, Accounting Unit)'') ''financial'' ''external_wet_sign''
         (always False) [] 6])"

section \<open>Reading the facts\<close>

lemma facts_fields:
  "obj_get (build_claim_facts db c now) ''is_jo_cos'' = Some (JBool (cl_jo_cos c))"
  "obj_get (build_claim_facts db c now) ''transport_modes'' =
     Some (JList (map JStr (transport_modes (claim_legs db (cl_id c)))))"
  "obj_get (build_claim_facts db c now) ''fare'' =
     Some (JList (List.map_filter (\<lambda>l. map_option (\<lambda>f. JStr (money_str f)) (lg_fare l)) (claim_legs db (cl_id c))))"
  "obj_get (build_claim_facts db c now) ''legs'' = Some (JList (map leg_facts (claim_legs db (cl_id c))))"
  "obj_get (build_claim_facts db c now) ''totals'' = Some (JObj (totals_facts c))"
  "obj_get (build_claim_facts db c now) ''config'' = Some (JObj (config_dict (configs db) (manila_date now)))"
  "obj_get (build_claim_facts db c now) ''deadlines'' = Some (deadline_facts db c)"
  "obj_get (build_claim_facts db c now) ''today'' = Some (JStr (isoformat (manila_date now)))"
  by (simp_all add: build_claim_facts_def Let_def)

lemma resolve_one: "obj_get facts k = Some v \<Longrightarrow> resolve_segments facts (k # ks) = resolve_segments v ks"
  by (cases facts) auto

lemma dict_put_get: "map_of (dict_put kvs k v) j = (if j = k then Some v else map_of kvs j)"
  by (induction kvs) auto

lemma facts_resolve:
  "resolve_field (build_claim_facts db c now) (JStr ''is_jo_cos'') = Some (JBool (cl_jo_cos c))"
  "resolve_field (build_claim_facts db c now) (JStr ''transport_modes'') =
     Some (JList (map JStr (transport_modes (claim_legs db (cl_id c)))))"
  "resolve_field (build_claim_facts db c now) (JStr ''totals.other'') = Some (JStr (money_str (cl_other_total c)))"
  "resolve_field (build_claim_facts db c now) (JStr ''fare'') =
     Some (JList (List.map_filter (\<lambda>l. map_option (\<lambda>f. JStr (money_str f)) (lg_fare l)) (claim_legs db (cl_id c))))"
  by (simp_all add: facts_fields resolve_one totals_facts_def dict_put_get)

lemma transport_modes_iff:
  assumes "m \<noteq> []"
  shows "m \<in> set (transport_modes ls) \<longleftrightarrow> (\<exists>l \<in> set ls. lg_mode l = Some m)"
  using assms by (force simp: transport_modes_def map_filter_def image_iff split: if_splits)

lemma applies_always: "required_rule_applies (always b) facts = Inr b"
  by (simp add: always_def required_rule_applies_def evaluate_required_rule_def evaluate.simps MAX_RULE_DEPTH_def outcome_def)

lemma applies_on_field:
  assumes "k \<in> set COMPARATORS"
  shows "required_rule_applies (on_field f k v) facts = run_comparator k (resolve_field facts (JStr f)) v"
  using assms
  by (cases "run_comparator k (resolve_field facts (JStr f)) v")
    (auto simp: on_field_def required_rule_applies_def evaluate_required_rule_def evaluate.simps MAX_RULE_DEPTH_def
      evaluate_condition_def outcome_def COMPARATORS_def)

lemma seeded_conditions:
  "required_rule_applies (on_field ''is_jo_cos'' ''eq'' (JBool True)) (build_claim_facts db c now) = Inr (cl_jo_cos c)"
  "required_rule_applies (on_field ''transport_modes'' ''contains'' (JStr ''taxi'')) (build_claim_facts db c now) =
     Inr (\<exists>l \<in> set (claim_legs db (cl_id c)). lg_mode l = Some ''taxi'')"
  "required_rule_applies (on_field ''totals.other'' ''gt'' (JInt 0)) (build_claim_facts db c now) =
     Inr (cl_other_total c > 0)"
  using transport_modes_iff [of "''taxi''" "claim_legs db (cl_id c)"]
  by (simp_all add: applies_on_field COMPARATORS_def run_comparator_def facts_resolve cmp_eq_def cmp_gt_def
      money_str_decimal dec_lt_def del: resolve_field.simps)

lemma validate_always: "validate_required_rule (always b) = Inr ()"
  by (simp add: always_def validate_required_rule_def validate.simps RULE_OPERATORS_def MAX_RULE_DEPTH_def)

lemma validate_on_field: "k \<in> set COMPARATORS \<Longrightarrow> validate_required_rule (on_field f k v) = Inr ()"
  by (auto simp: on_field_def validate_required_rule_def validate.simps RULE_OPERATORS_def MAX_RULE_DEPTH_def
      validate_condition_def COMPARATORS_def)

lemma item_facts_get: "k \<noteq> ''item'' \<Longrightarrow> obj_get (item_facts facts state) k = obj_get facts k"
  by (cases facts) (simp_all add: dict_put_get)

lemma split_dots_nonempty: "split_dots p \<noteq> []"
  by (cases p) (auto split: list.splits)

lemma item_facts_resolve:
  assumes "hd (split_dots p) \<noteq> ''item''"
  shows "resolve_field (item_facts facts state) (JStr p) = resolve_field facts (JStr p)"
proof -
  obtain k ks where "split_dots p = k # ks" using split_dots_nonempty [of p] by (cases "split_dots p") auto
  then show ?thesis using assms by (cases facts) (simp_all add: dict_put_get)
qed

lemma map_of_pairs:
  "map_of (List.map_filter (\<lambda>k. map_option (Pair k) (f k)) ks) j = (if j \<in> set ks then f j else None)"
  by (induction ks) (auto simp: map_filter_simps split: option.splits)

lemma config_dict_get: "map_of (config_dict rows today) k = effective_config rows today k"
proof -
  have "k \<in> set (map cf_key (filter (\<lambda>r. cf_active r \<and> cf_from r \<le> today) rows))"
    if "effective_config rows today k = Some v" for v
    using that config_pack.lookup_Some [of rows today k] by (auto simp: effective_config_def)
  then show ?thesis by (cases "effective_config rows today k") (auto simp: config_dict_def map_of_pairs)
qed

lemma fold_amounts_over:
  "amounts_over (Fin m (-2)) (map (\<lambda>c. Fin c (-2)) cs) = Inr (map (\<lambda>c. Fin c (-2)) (filter (\<lambda>c. m < c) cs))"
  by (induction cs) (simp_all add: dec_lt_def)

lemma money_amounts: "List.map_filter as_decimal (map (\<lambda>c. JStr (money_str c)) cs) = map (\<lambda>c. Fin c (-2)) cs"
  by (induction cs) (simp_all add: map_filter_simps money_str_decimal)

lemma map_filter_map_option: "List.map_filter (\<lambda>x. map_option g (f x)) xs = map g (List.map_filter f xs)"
  by (induction xs) (auto simp: map_filter_simps split: option.splits)

lemma map_filter_via_map: "List.map_filter f xs = List.map_filter id (map f xs)"
  by (induction xs) (auto simp: map_filter_simps split: option.splits)

lemma set_map_filter: "y \<in> set (List.map_filter f xs) \<longleftrightarrow> (\<exists>x \<in> set xs. f x = Some y)"
  by (force simp: map_filter_def image_iff)

lemma as_date_iso: "valid_date d \<Longrightarrow> as_date (Some (JStr (isoformat d))) = Some d"
  using isoformat_roundtrip [of d] by (simp add: valid_date_def)

section \<open>Properties\<close>

definition demanded :: "reimb_db \<Rightarrow> claim \<Rightarrow> catalog_row \<Rightarrow> bool" where
  "demanded db c row =
     (if ct_code row = ''JO-01'' then cl_jo_cos c
      else if ct_code row = ''RER-46'' then (\<exists>l \<in> set (claim_legs db (cl_id c)). lg_mode l = Some ''taxi'')
      else if ct_code row = ''LOD-01'' then cl_other_total c > 0
      else ct_code row \<noteq> ''CRT-C'')"

text \<open>
  What the shipped catalog demands of a claim, whatever its other fields hold: the certification
  of a job-order traveller exactly for those, the taxi receipt exactly when a leg went by taxi, the
  lodging receipt exactly when other expenses are claimed (read from the column, not from the
  snapshot an edit clears), the signed page of certification C never, every other row always.
\<close>

theorem shipped_catalog_demands:
  "list_all (\<lambda>row. required_rule_applies (ct_rule row) (build_claim_facts db c now) = Inr (demanded db c row) \<and>
     validate_required_rule (ct_rule row) = Inr () \<and> validate_auto_checks (ct_checks row) = Inr ()) REIMB_CHECKLIST"
  by (simp add: REIMB_CHECKLIST_def Let_def seed_check_def demanded_def applies_always seeded_conditions
      validate_always validate_on_field COMPARATORS_def threshold_check_def deadline_spec_def validate_check_def
      CHECK_TYPES_def REQUIRED_KEYS_def)

text \<open>
  The deadline check tells a reviewer the truth: on a liquidation whose advance has a deadline it
  passes up to and including that day, Manila time, and flags from the next; a claim that is no
  liquidation is never measured against a deadline, not even one that nets an advance.
\<close>

theorem deadline_check_verdict:
  assumes "valid_date (manila_date now)"
  shows "(cl_kind c = LIQUIDATION_KIND \<and> cl_cash_advance c = Some k \<and> find_advance db k = Some a \<and>
      ca_deadline a = Some d \<and> valid_date d \<longrightarrow>
      run_check deadline_spec (item_facts (build_claim_facts db c now) state) =
        Inr (if manila_date now \<le> d then verdict ''deadline_check'' Passed ''within_deadline''
             else verdict ''deadline_check'' Flagged ''deadline_passed'')) \<and>
    (cl_kind c \<noteq> LIQUIDATION_KIND \<longrightarrow>
      run_check deadline_spec (item_facts (build_claim_facts db c now) state) =
        Inr (skip ''deadline_check'' ''deadline_clock_unavailable''))"
proof -
  have run: "run_check deadline_spec facts = check_deadline_check deadline_spec facts" for facts
    by (simp add: run_check_def deadline_spec_def runner_def)
  have key: "obj_get deadline_spec ''key'' = Some (JStr DEADLINE_KEY)"
    by (simp add: deadline_spec_def DEADLINE_KEY_def)
  show ?thesis using assms as_date_iso [of d] as_date_iso [of "manila_date now"]
    by (simp add: run check_deadline_check_def key deadline_entry_def item_facts_get facts_fields deadline_facts_def
        del: as_date.simps(1))
qed

definition sample_advance :: cash_advance where
  "sample_advance = \<lparr>ca_id = 3, ca_claimant = 5, ca_dv_no = None, ca_dv_date = None, ca_amount = 100000, ca_dpo_no = None,
     ca_date_return = Some 738000, ca_deadline = Some 738030, ca_basis = Some CALENDAR, ca_st = CaOpen, ca_settled_at = None,
     ca_settled_by = None, ca_mode = None, ca_refund_or_no = None, ca_refund_or_date = None, ca_refund_amount = None\<rparr>"

definition sample_liquidation :: claim where
  "sample_liquidation = sample_claim\<lparr>cl_kind := LIQUIDATION_KIND, cl_cash_advance := Some 3\<rparr>"

theorem deadline_check_verdict_witness:
  "run_check deadline_spec
     (item_facts (build_claim_facts (sample_reimb\<lparr>advances := [sample_advance]\<rparr>) sample_liquidation (738030 * 86400000000)) None) =
   Inr (verdict ''deadline_check'' Flagged ''deadline_passed'')"
proof -
  let ?db = "sample_reimb\<lparr>advances := [sample_advance]\<rparr>"
  have now: "valid_date (manila_date (738030 * 86400000000))" "manila_date (738030 * 86400000000) = 738031"
    by (simp_all add: valid_date_def manila_date_def max_ordinal_def)
  have "cl_kind sample_liquidation = LIQUIDATION_KIND" "cl_cash_advance sample_liquidation = Some 3"
    "find_advance ?db 3 = Some sample_advance" "ca_deadline sample_advance = Some 738030" "valid_date 738030"
    by (simp_all add: sample_liquidation_def sample_claim_def sample_advance_def valid_date_def max_ordinal_def)
  with deadline_check_verdict [OF now(1), of sample_liquidation 3 ?db sample_advance 738030 None] now(2)
  show ?thesis by simp
qed

text \<open>
  The receipt threshold: with a peso ceiling configured, the check flags exactly the claims with a leg
  whose fare is above it, passes the others that have a fare, and is skipped when there is none.
\<close>

theorem receipt_threshold_verdict:
  assumes "effective_config (configs db) (manila_date now) ''receipts.cenrr_max'' = Some (JObj [(''amount'', JStr (money_str m))])"
  shows "\<exists>r. run_check threshold_check (item_facts (build_claim_facts db c now) state) = Inr r \<and>
    (ck_outcome r = Skipped \<longleftrightarrow> (\<forall>l \<in> set (claim_legs db (cl_id c)). lg_fare l = None)) \<and>
    (ck_outcome r = Flagged \<longleftrightarrow> (\<exists>l \<in> set (claim_legs db (cl_id c)). \<exists>f. lg_fare l = Some f \<and> m < f))"
proof -
  let ?facts = "item_facts (build_claim_facts db c now) state"
  let ?fares = "List.map_filter lg_fare (claim_legs db (cl_id c))"
  have "config_amount ?facts (obj_get threshold_check ''max_key'') = Some (Fin m (-2))"
    using assms by (simp add: threshold_check_def config_amount_def item_facts_get facts_fields config_dict_get money_str_decimal)
  moreover have "amounts_of ?facts (obj_get threshold_check ''field'') = map (\<lambda>f. Fin f (-2)) ?fares"
    by (simp add: threshold_check_def amounts_of_def item_facts_resolve facts_resolve map_filter_map_option money_amounts
        del: resolve_field.simps)
  ultimately have "check_amount_threshold threshold_check ?facts =
      (if ?fares = [] then Inr (skip ''amount_threshold'' ''no_amount'')
       else Inr (if filter (\<lambda>f. m < f) ?fares = [] then verdict ''amount_threshold'' Passed ''within_threshold''
            else (verdict ''amount_threshold'' Flagged ''amount_over_threshold'')\<lparr>ck_remedy := Some ''require_item:RER''\<rparr>))"
    by (simp add: check_amount_threshold_def fold_amounts_over) (simp add: threshold_check_def)
  moreover have "run_check threshold_check ?facts = check_amount_threshold threshold_check ?facts"
    by (simp add: run_check_def runner_def threshold_check_def)
  moreover have "?fares = [] \<longleftrightarrow> (\<forall>l \<in> set (claim_legs db (cl_id c)). lg_fare l = None)"
    by (auto simp: map_filter_def filter_empty_conv)
  moreover have "filter (\<lambda>f. m < f) ?fares \<noteq> [] \<longleftrightarrow> (\<exists>l \<in> set (claim_legs db (cl_id c)). \<exists>f. lg_fare l = Some f \<and> m < f)"
    unfolding filter_empty_conv by (metis set_map_filter)
  ultimately show ?thesis by (auto simp: skip_def verdict_def)
qed

theorem receipt_threshold_verdict_witness:
  "\<exists>db r. run_check threshold_check (item_facts (build_claim_facts db sample_claim 0) None) = Inr r \<and> ck_outcome r = Flagged \<and>
     effective_config (configs db) 1 ''receipts.cenrr_max'' = Some (JObj [(''amount'', JStr (money_str 100))])"
proof -
  define l :: leg where "l = (sample_leg (hd (pi_legs sample_trip)))\<lparr>lg_claim := 1, lg_fare := Some 45000\<rparr>"
  define db where "db = sample_reimb\<lparr>legs := [l], configs := [\<lparr>cf_key = ''receipts.cenrr_max'',
    cf_value = JObj [(''amount'', JStr (money_str 100))], cf_from = 1, cf_tenant = None, cf_active = True\<rparr>]\<rparr>"
  have cfg: "effective_config (configs db) (manila_date 0) ''receipts.cenrr_max'' = Some (JObj [(''amount'', JStr (money_str 100))])"
    by (simp add: db_def effective_config_def effective_row_def manila_date_def)
  have "claim_legs db (cl_id sample_claim) = [l]" by (simp add: claim_legs_def db_def l_def sample_claim_def)
  then have "\<exists>x \<in> set (claim_legs db (cl_id sample_claim)). \<exists>f. lg_fare x = Some f \<and> 100 < f" by (simp add: l_def)
  with receipt_threshold_verdict [OF cfg, of sample_claim None] cfg show ?thesis
    by (intro exI [of _ db]) (auto simp: manila_date_def)
qed

definition fares_spec :: json where
  "fares_spec = JObj [(''type'', JStr ''sum_matches''), (''of'', JStr ''legs.fare''), (''vs'', JStr ''totals.transport''),
     (''tolerance'', JInt 0)]"

lemma dec_sum_money: "dec_sum (Fin a (-2)) (map (\<lambda>c. Fin c (-2)) cs) = Inr (Fin (a + sum_list cs) (-2))"
  by (induction cs arbitrary: a) (simp_all add: add.assoc)

lemma dec_sum_money0: "\<exists>a e. dec_sum (Fin 0 0) (map (\<lambda>c. Fin c (-2)) cs) = Inr (Fin a e) \<and>
    a * 10 ^ nat (e + 2) = sum_list cs \<and> - 2 \<le> e \<and> e \<le> 0"
  by (cases cs) (auto simp: dec_sum_money)

lemma check_sum_money:
  assumes "amounts_of facts (obj_get spec ''of'') = map (\<lambda>c. Fin c (-2)) cs"
    "Option.bind (resolve_field facts (case obj_get spec ''vs'' of None \<Rightarrow> JStr [] | Some p \<Rightarrow> p)) as_decimal = Some (Fin t (-2))"
    "obj_get spec ''tolerance'' = Some (JInt 0)"
  shows "check_sum_matches spec facts =
    Inr (if sum_list cs = t then verdict ''sum_matches'' Passed ''sum_matches''
         else verdict ''sum_matches'' Flagged ''sum_mismatch'')"
proof -
  obtain a e where s: "dec_sum (Fin 0 0) (map (\<lambda>c. Fin c (-2)) cs) = Inr (Fin a e)"
    "a * 10 ^ nat (e + 2) = sum_list cs" "- 2 \<le> e" "e \<le> 0"
    using dec_sum_money0 [of cs] by blast
  have "min e (- 2) = - 2" using s(3) by simp
  then show ?thesis using s
    by (simp add: check_sum_matches_def assms dec_lt_def)
qed

lemma priced_leg_fare: "compute_per_diem inp = Inr r \<Longrightarrow> l \<in> set (pi_legs inp) \<Longrightarrow>
    counted_fare l = (case li_fare l of None \<Rightarrow> 0 | Some f \<Rightarrow> f)"
  by (auto simp: compute_per_diem_def rbind_eq_Inr check_leg_def counted_fare_def split: if_splits option.splits
      dest!: rmap_unit_ok)

lemma sum_fares: "sum_list (map (\<lambda>l. case f l of None \<Rightarrow> 0 | Some v \<Rightarrow> v) ls) = sum_list (List.map_filter f ls)" for f :: "'a \<Rightarrow> int option"
  by (induction ls) (auto simp: map_filter_simps split: option.splits)

lemma leg_fares_resolve:
  "field_values (resolve_field (build_claim_facts db c now) (JStr ''legs.fare'')) =
     map (\<lambda>l. opt_money (lg_fare l)) (claim_legs db (cl_id c))"
proof -
  have "project (map leg_facts ls) ''fare'' = map (\<lambda>l. opt_money (lg_fare l)) ls" for ls
    by (induction ls) (simp_all add: project_def map_filter_simps leg_facts_def)
  then show ?thesis by (simp add: facts_fields resolve_one)
qed

lemma money_decimals: "List.map_filter as_decimal (map (\<lambda>l. opt_money (f l)) ls) = map (\<lambda>c. Fin c (-2)) (List.map_filter f ls)"
  by (induction ls) (auto simp: map_filter_simps opt_money_def money_str_decimal split: option.splits)

text \<open>
  After pricing, the fares of the itinerary add up to the transport figure of the snapshot to the
  centavo: the check that compares them passes.
\<close>

theorem priced_fares_add_up:
  assumes "compute_claim_totals db k other_total stamp = Inr (r, db')" "get_claim db' k = Some c'"
  shows "run_check fares_spec (item_facts (build_claim_facts db' c' now) state) =
    Inr (verdict ''sum_matches'' Passed ''sum_matches'')"
proof -
  obtain c other where c: "get_claim db k = Some c" "compute_per_diem (claim_input db c) = Inr r"
    and db': "db' = db\<lparr>legs := map (\<lambda>l. if lg_claim l = k then write_leg r l else l) (legs db),
       claims := row_upd cl_id k (\<lambda>_. priced_claim c r other (claim_advance db c) stamp) (claims db)\<rparr>"
    by (rule compute_claim_totals_cases [OF assms(1)])
  have id: "cl_id c = k" using c(1) by auto
  have c': "c' = priced_claim c r other (claim_advance db c) stamp" "cl_id c' = k"
    using c(1) id assms(2) by (auto simp: db' row_get_upd)
  let ?f = "item_facts (build_claim_facts db' c' now) state"
  have "map lg_fare (claim_legs db' k) = map li_fare (map leg_input_of (claim_legs db k))"
    unfolding claim_legs_written [where k = k and r = r and cs = "claims db'", of db k, symmetric]
    by (simp add: leg_input_of_def db')
  then have fares: "List.map_filter lg_fare (claim_legs db' k) = List.map_filter li_fare (map leg_input_of (claim_legs db k))"
    by (metis map_filter_via_map)
  have "pr_transport r = sum_list (map counted_fare (pi_legs (claim_input db c)))" using compute_cases [OF c(2)] by metis
  also have "\<dots> = sum_list (map (\<lambda>l. case li_fare l of None \<Rightarrow> 0 | Some f \<Rightarrow> f) (pi_legs (claim_input db c)))"
    using priced_leg_fare [OF c(2)] by (metis (no_types, lifting) map_eq_conv)
  also have "\<dots> = sum_list (List.map_filter lg_fare (claim_legs db' k))"
    by (simp add: sum_fares claim_input_def id fares del: map_map)
  finally have total: "sum_list (List.map_filter lg_fare (claim_legs db' k)) = pr_transport r" ..
  have amounts: "amounts_of ?f (obj_get fares_spec ''of'') = map (\<lambda>c. Fin c (-2)) (List.map_filter lg_fare (claim_legs db' k))"
    by (simp add: fares_spec_def amounts_of_def item_facts_resolve leg_fares_resolve money_decimals c'(2) del: resolve_field.simps)
  have stated: "Option.bind (resolve_field ?f (case obj_get fares_spec ''vs'' of None \<Rightarrow> JStr [] | Some p \<Rightarrow> p)) as_decimal =
      Some (Fin (pr_transport r) (-2))"
    by (simp add: fares_spec_def item_facts_get facts_fields resolve_one totals_facts_def dict_put_get c'(1) priced_claim_def
        Let_def totals_json_def money_str_decimal)
  have "run_check fares_spec ?f = check_sum_matches fares_spec ?f"
    by (simp add: run_check_def runner_def fares_spec_def)
  with check_sum_money [OF amounts stated] total show ?thesis by (simp add: fares_spec_def)
qed

theorem priced_fares_add_up_witness:
  "\<exists>c. get_claim sample_priced 1 = Some c \<and>
     run_check fares_spec (item_facts (build_claim_facts sample_priced c 0) None) = Inr (verdict ''sum_matches'' Passed ''sum_matches'')"
proof -
  have run: "compute_claim_totals sample_unpriced 1 (Some (Fin 12 1)) ''t'' = Inr (sample_pd, sample_priced)"
    using sample_totals_ok by (simp add: sample_totals_def)
  obtain c where "get_claim sample_priced 1 = Some c"
    using priced_claim_stored [OF run] by blast
  with priced_fares_add_up [OF run this] show ?thesis by blast
qed

end
