(* ===== verification/Attachments.thy ===== *)
theory Attachments
  imports Workflow_Engine Money
begin

text \<open>
  The attachment service, \<open>src/office_connect/core/attachments/\<close> (\<open>pipeline.py\<close>, \<open>service.py\<close>,
  \<open>retention.py\<close>, \<open>authz.py\<close>) over the content-addressed store of \<open>core/storage/local.py\<close>. A byte
  string is a \<open>string\<close>. What is not in the repository is a parameter: \<open>hash\<close> for SHA-256,
  \<open>scan\<close> for the virus scanner's verdict, \<open>reencode\<close> for the image library (\<open>None\<close> where it refuses).
  The store is the map from keys to bytes the driver serves; a write that fails is not modelled.
  The table includes soft-deleted rows, because disposal reads them.
\<close>

section \<open>Validation\<close>

definition bytes_of :: "nat list \<Rightarrow> string" where
  "bytes_of = map char_of"

definition HEIF_BRANDS :: "string list" where
  "HEIF_BRANDS = [''heic'', ''heix'', ''hevc'', ''hevx'', ''mif1'', ''msf1'', ''heim'', ''heis'']"

definition ALLOWED :: "(string \<times> string) list" where
  "ALLOWED = [(''image/jpeg'', ''image''), (''image/png'', ''image''), (''image/webp'', ''image''),
     (''image/heic'', ''image''), (''application/pdf'', ''pdf'')]"

definition sniff_mime :: "string \<Rightarrow> string option" where
  "sniff_mime data =
     (if length data < 12 then None
      else if take 3 data = bytes_of [0xFF, 0xD8, 0xFF] then Some ''image/jpeg''
      else if take 8 data = bytes_of [0x89, 80, 78, 71, 13, 10, 0x1A, 10] then Some ''image/png''
      else if take 4 data = ''RIFF'' \<and> take 4 (drop 8 data) = ''WEBP'' then Some ''image/webp''
      else if take 5 data = ''%PDF-'' then Some ''application/pdf''
      else if take 4 (drop 4 data) = ''ftyp'' \<and> take 4 (drop 8 data) \<in> set HEIF_BRANDS then Some ''image/heic''
      else None)"

definition byte_space :: "char \<Rightarrow> bool" where
  "byte_space c \<longleftrightarrow> (of_char c :: nat) \<in> {9, 10, 11, 12, 13, 32}"

definition looks_like_xml :: "string \<Rightarrow> bool" where
  "looks_like_xml data =
     (let head = lower (take 6 (dropWhile byte_space data)) in
      take 5 head = ''<?xml'' \<or> take 4 head = ''<svg'')"

definition RejectedUpload :: exn where "RejectedUpload = ServiceError ''RejectedUpload''"
definition AttachmentNotFound :: exn where "AttachmentNotFound = ServiceError ''AttachmentNotFound''"
definition UnauthorizedDownload :: exn where "UnauthorizedDownload = ServiceError ''UnauthorizedDownload''"
definition DownloadNotReady :: exn where "DownloadNotReady = ServiceError ''DownloadNotReady''"
definition StorageError :: exn where "StorageError = ServiceError ''StorageError''"

text \<open>The sniffed type and the media kind.\<close>

definition validate_upload :: "string \<Rightarrow> nat \<Rightarrow> (string \<times> string) res" where
  "validate_upload data max_bytes =
     (if data = [] then Inl RejectedUpload
      else if length data > max_bytes then Inl RejectedUpload
      else if looks_like_xml data then Inl RejectedUpload
      else (case sniff_mime data of
              None \<Rightarrow> Inl RejectedUpload
            | Some m \<Rightarrow> (case map_of ALLOWED m of None \<Rightarrow> Inl RejectedUpload | Some k \<Rightarrow> Inr (m, k))))"

section \<open>Rows and store\<close>

datatype scan_status = ScanPending | ScanClean | ScanInfected | ScanError

record attachment =
  at_id :: int
  at_holder_kind :: "string option"
  at_holder :: "int option"
  at_filename :: string
  at_mime :: string
  at_size :: nat
  at_sha :: string
  at_media :: string
  at_generated :: bool
  at_clean_sha :: "string option"
  at_clean_mime :: "string option"
  at_clean_size :: "nat option"
  at_scan :: scan_status
  at_class :: string
  at_starts :: "instant option"
  at_hold :: bool
  at_disposed :: bool
  at_deleted :: bool

record att_db =
  attachments :: "attachment list"
  blobs :: "string \<rightharpoonup> string"
  at_seq :: int

definition live_attachment :: "att_db \<Rightarrow> int \<Rightarrow> attachment option" where
  "live_attachment db k = find (\<lambda>r. at_id r = k \<and> \<not> at_deleted r) (attachments db)"

text \<open>\<open>LocalVolumeStorageDriver.save\<close>: an object that is there is kept.\<close>

definition save_blob :: "(string \<Rightarrow> string) \<Rightarrow> (string \<rightharpoonup> string) \<Rightarrow> string \<Rightarrow> (string \<times> nat) \<times> (string \<rightharpoonup> string)" where
  "save_blob hash store data =
     (let key = hash data in
      case store key of
        Some old \<Rightarrow> ((key, length old), store)
      | None \<Rightarrow> ((key, length data), store(key \<mapsto> data)))"

definition put_attachment :: "att_db \<Rightarrow> attachment \<Rightarrow> att_db" where
  "put_attachment db r = db\<lparr>attachments := row_upd at_id (at_id r) (\<lambda>_. r) (attachments db)\<rparr>"

section \<open>Service\<close>

record upload_request =
  rq_data :: string
  rq_filename :: string
  rq_holder_kind :: "string option"
  rq_holder :: "int option"
  rq_class :: string
  rq_starts :: "instant option"
  rq_generated :: bool

definition upload_attachment ::
  "(string \<Rightarrow> string) \<Rightarrow> nat \<Rightarrow> att_db \<Rightarrow> upload_request \<Rightarrow> (attachment \<times> att_db) res" where
  "upload_attachment hash max_bytes db rq =
     rbind (validate_upload (rq_data rq) max_bytes) (\<lambda>(mime, media).
       let ((key, size), store) = save_blob hash (blobs db) (rq_data rq);
           row = \<lparr>at_id = at_seq db + 1, at_holder_kind = rq_holder_kind rq, at_holder = rq_holder rq,
                  at_filename = rq_filename rq, at_mime = mime, at_size = size, at_sha = key, at_media = media,
                  at_generated = rq_generated rq, at_clean_sha = None, at_clean_mime = None, at_clean_size = None,
                  at_scan = (if rq_generated rq then ScanClean else ScanPending),
                  at_class = rq_class rq, at_starts = rq_starts rq, at_hold = False, at_disposed = False, at_deleted = False\<rparr>
       in Inr (row, db\<lparr>attachments := attachments db @ [row], blobs := store, at_seq := at_seq db + 1\<rparr>))"

text \<open>A scanner answers clean, infected or error, never pending.\<close>

datatype scan_verdict = Clean | Infected | Failed

definition verdict_status :: "scan_verdict \<Rightarrow> scan_status" where
  "verdict_status v = (case v of Clean \<Rightarrow> ScanClean | Infected \<Rightarrow> ScanInfected | Failed \<Rightarrow> ScanError)"

definition process_attachment ::
  "(string \<Rightarrow> string) \<Rightarrow> (string \<Rightarrow> scan_verdict) \<Rightarrow> (string \<Rightarrow> string \<Rightarrow> (string \<times> string) option) \<Rightarrow> att_db \<Rightarrow> int \<Rightarrow>
     (scan_status \<times> att_db) res" where
  "process_attachment hash scan reencode db k =
     (case live_attachment db k of
        None \<Rightarrow> Inl AttachmentNotFound
      | Some row \<Rightarrow>
          if at_scan row \<notin> {ScanPending, ScanError} then Inr (at_scan row, db)
          else (case blobs db (at_sha row) of
             None \<Rightarrow> Inr (ScanError, put_attachment db (row\<lparr>at_scan := ScanError\<rparr>))
           | Some original \<Rightarrow>
               if scan original = Clean \<and> at_media row = ''image'' then
                 (case reencode original (at_mime row) of
                    None \<Rightarrow> Inr (ScanError, put_attachment db (row\<lparr>at_scan := ScanError\<rparr>))
                  | Some (clean, mime) \<Rightarrow>
                      (let ((key, size), store) = save_blob hash (blobs db) clean in
                       Inr (ScanClean, (put_attachment db (row\<lparr>at_scan := ScanClean, at_clean_sha := Some key,
                          at_clean_mime := Some mime, at_clean_size := Some size\<rparr>))\<lparr>blobs := store\<rparr>)))
               else Inr (verdict_status (scan original),
                      put_attachment db (row\<lparr>at_scan := verdict_status (scan original)\<rparr>))))"

record download =
  dl_filename :: string
  dl_mime :: string
  dl_size :: nat
  dl_sha :: string
  dl_data :: string
  dl_inline :: bool

definition disposition_inline :: "attachment \<Rightarrow> string \<Rightarrow> bool" where
  "disposition_inline row mime \<longleftrightarrow> at_generated row \<and> mime = ''application/pdf''"

text \<open>\<open>a or b\<close> on an optional key, type and size: an empty text and a size of 0 are false.\<close>

definition or_str :: "string option \<Rightarrow> string \<Rightarrow> string" where
  "or_str a b = (case a of Some s \<Rightarrow> if s = [] then b else s | None \<Rightarrow> b)"

definition or_nat :: "nat option \<Rightarrow> nat \<Rightarrow> nat" where
  "or_nat a b = (case a of Some n \<Rightarrow> if n = 0 then b else n | None \<Rightarrow> b)"

definition download_attachment :: "att_db \<Rightarrow> (attachment \<Rightarrow> unit res) \<Rightarrow> int \<Rightarrow> download res" where
  "download_attachment db authorize k =
     (case live_attachment db k of
        None \<Rightarrow> Inl AttachmentNotFound
      | Some row \<Rightarrow>
          (case authorize row of
             Inl e \<Rightarrow> Inl UnauthorizedDownload
           | Inr _ \<Rightarrow>
               if at_scan row \<noteq> ScanClean then Inl DownloadNotReady
               else if at_disposed row then Inl DownloadNotReady
               else
                 (let key = or_str (at_clean_sha row) (at_sha row); mime = or_str (at_clean_mime row) (at_mime row) in
                  case blobs db key of
                    None \<Rightarrow> Inl StorageError
                  | Some data \<Rightarrow> Inr \<lparr>dl_filename = at_filename row, dl_mime = mime,
                      dl_size = or_nat (at_clean_size row) (at_size row), dl_sha = key, dl_data = data,
                      dl_inline = disposition_inline row mime\<rparr>)))"

text \<open>\<open>make_download_authorizer\<close>: the registered holder authorizer decides, an unowned file is open.\<close>

definition make_download_authorizer :: "(string \<rightharpoonup> (attachment \<Rightarrow> unit res)) \<Rightarrow> attachment \<Rightarrow> unit res" where
  "make_download_authorizer authorizers row =
     (if \<not> truthy (at_holder_kind row) then Inr ()
      else (case authorizers (the (at_holder_kind row)) of None \<Rightarrow> Inr () | Some f \<Rightarrow> f row))"

definition soft_delete_attachment :: "att_db \<Rightarrow> int \<Rightarrow> att_db res" where
  "soft_delete_attachment db k =
     (case live_attachment db k of
        None \<Rightarrow> Inl AttachmentNotFound
      | Some row \<Rightarrow> Inr (put_attachment db (row\<lparr>at_deleted := True\<rparr>)))"

section \<open>Retention\<close>

text \<open>Years by class; \<open>None\<close> is indefinite.\<close>

definition RETENTION_CLASSES :: "(string \<times> nat option) list" where
  "RETENTION_CLASSES = [(''default'', Some 10), (''financial_dv_10y'', Some 10), (''permanent'', None), (''transitory'', Some 3)]"

definition start_retention :: "att_db \<Rightarrow> string \<Rightarrow> int \<Rightarrow> instant \<Rightarrow> nat \<times> att_db" where
  "start_retention db kind holder at =
     (let due = (\<lambda>r. at_holder_kind r = Some kind \<and> at_holder r = Some holder \<and> at_starts r = None \<and> \<not> at_deleted r) in
      (length (filter due (attachments db)),
       db\<lparr>attachments := map (\<lambda>r. if due r then r\<lparr>at_starts := Some at\<rparr> else r) (attachments db)\<rparr>))"

definition retain_until :: "string \<Rightarrow> instant option \<Rightarrow> instant option res" where
  "retain_until cls starts =
     (case starts of
        None \<Rightarrow> Inr None
      | Some s \<Rightarrow>
          (case map_of RETENTION_CLASSES cls of
             Some (Some years) \<Rightarrow> rbind (add_hours s (24 * 365 * int years)) (\<lambda>t. Inr (Some t))
           | _ \<Rightarrow> Inr None))"

record candidate =
  dc_id :: int
  dc_until :: "instant option"
  dc_eligible :: bool

definition evaluate_candidate :: "attachment \<Rightarrow> instant \<Rightarrow> candidate res" where
  "evaluate_candidate row as_of =
     rbind (retain_until (at_class row) (at_starts row)) (\<lambda>until.
       Inr \<lparr>dc_id = at_id row, dc_until = until,
            dc_eligible = (if at_disposed row then False else if at_hold row then False
              else (case until of None \<Rightarrow> False | Some u \<Rightarrow> \<not> u > as_of))\<rparr>)"

definition disposal_eligibility_report :: "att_db \<Rightarrow> instant \<Rightarrow> candidate list res" where
  "disposal_eligibility_report db as_of = rmap (\<lambda>r. evaluate_candidate r as_of) (attachments db)"

section \<open>The service as a transition system\<close>

text \<open>
  \<open>vetted\<close> holds of the contents some scanner called clean, \<open>washed\<close> of the outputs of the image
  library, \<open>seen\<close> of every content the store is ever asked to save. Scanner and library may answer
  differently on every call.
\<close>

definition scanner_ok :: "(string \<Rightarrow> bool) \<Rightarrow> (string \<Rightarrow> scan_verdict) \<Rightarrow> bool" where
  "scanner_ok vetted scan \<longleftrightarrow> (\<forall>d. scan d = Clean \<longrightarrow> vetted d)"

definition washer_ok :: "(string \<Rightarrow> bool) \<Rightarrow> (string \<Rightarrow> string \<Rightarrow> (string \<times> string) option) \<Rightarrow> bool" where
  "washer_ok washed reencode \<longleftrightarrow> (\<forall>d m c m'. reencode d m = Some (c, m') \<longrightarrow> washed c)"

inductive att_step ::
  "(string \<Rightarrow> string) \<Rightarrow> (string \<Rightarrow> bool) \<Rightarrow> (string \<Rightarrow> bool) \<Rightarrow> (string \<Rightarrow> bool) \<Rightarrow> att_db \<Rightarrow> att_db \<Rightarrow> bool"
  for hash seen vetted washed where
  att_upload: "upload_attachment hash max_bytes db rq = Inr (r, db') \<Longrightarrow> seen (rq_data rq) \<Longrightarrow> att_step hash seen vetted washed db db'"
| att_process: "scanner_ok vetted scan \<Longrightarrow> washer_ok (\<lambda>c. washed c \<and> seen c) reencode \<Longrightarrow>
    process_attachment hash scan reencode db k = Inr (st, db') \<Longrightarrow> att_step hash seen vetted washed db db'"
| att_delete: "soft_delete_attachment db k = Inr db' \<Longrightarrow> att_step hash seen vetted washed db db'"
| att_retain: "start_retention db kind h t = (n, db') \<Longrightarrow> att_step hash seen vetted washed db db'"
| att_hold: "att_step hash seen vetted washed db
    (db\<lparr>attachments := row_upd at_id k (\<lambda>r. r\<lparr>at_hold := h, at_disposed := d\<rparr>) (attachments db)\<rparr>)"

definition att_init :: "att_db \<Rightarrow> bool" where
  "att_init db \<longleftrightarrow> attachments db = [] \<and> blobs db = Map.empty"

text \<open>Every stored object has its hash as key; a clean upload has the right object behind it.\<close>

definition served_ok :: "(string \<Rightarrow> string) \<Rightarrow> (string \<Rightarrow> bool) \<Rightarrow> (string \<Rightarrow> bool) \<Rightarrow> (string \<Rightarrow> bool) \<Rightarrow> attachment \<Rightarrow> bool" where
  "served_ok hash seen vetted washed r \<longleftrightarrow>
     (at_media r \<noteq> ''image'' \<longrightarrow> at_clean_sha r = None) \<and>
     (at_scan r = ScanClean \<and> \<not> at_generated r \<longrightarrow>
       (if at_media r = ''image'' then (\<exists>c. at_clean_sha r = Some (hash c) \<and> washed c \<and> seen c)
        else (\<exists>d. at_sha r = hash d \<and> vetted d \<and> seen d)))"

definition keys_ok :: "(string \<Rightarrow> string) \<Rightarrow> (string \<Rightarrow> bool) \<Rightarrow> (string \<rightharpoonup> string) \<Rightarrow> bool" where
  "keys_ok hash seen store \<longleftrightarrow> (\<forall>k d. store k = Some d \<longrightarrow> hash d = k \<and> seen d)"

definition att_inv :: "(string \<Rightarrow> string) \<Rightarrow> (string \<Rightarrow> bool) \<Rightarrow> (string \<Rightarrow> bool) \<Rightarrow> (string \<Rightarrow> bool) \<Rightarrow> att_db \<Rightarrow> bool" where
  "att_inv hash seen vetted washed db \<longleftrightarrow>
     keys_ok hash seen (blobs db) \<and> (\<forall>r \<in> set (attachments db). served_ok hash seen vetted washed r)"

lemma save_blob_keys:
  assumes "keys_ok hash seen store" "save_blob hash store data = ((key, sz), store')" "seen data"
  shows "key = hash data" "keys_ok hash seen store'"
  using assms by (auto simp: save_blob_def keys_ok_def Let_def split: option.splits if_splits)

lemma put_served:
  assumes "\<forall>r \<in> set (attachments db). served_ok hash seen vetted washed r" "served_ok hash seen vetted washed r"
  shows "\<forall>x \<in> set (attachments (put_attachment db r)). served_ok hash seen vetted washed x"
  using assms by (auto simp: put_attachment_def set_row_upd)

lemma live_attachment_in: "live_attachment db k = Some r \<Longrightarrow> r \<in> set (attachments db) \<and> at_id r = k \<and> \<not> at_deleted r"
  by (auto simp: live_attachment_def find_Some_iff)

lemma blobs_put [simp]: "blobs (put_attachment db r) = blobs db"
  by (simp add: put_attachment_def)

lemma upload_inv:
  assumes "att_inv hash seen vetted washed db" "upload_attachment hash max_bytes db rq = Inr (r, db')" "seen (rq_data rq)"
  shows "att_inv hash seen vetted washed db'"
proof -
  obtain key sz store where sb: "save_blob hash (blobs db) (rq_data rq) = ((key, sz), store)" by (metis prod.exhaust)
  have r: "attachments db' = attachments db @ [r]" "blobs db' = store" "served_ok hash seen vetted washed r"
    using assms(2) sb by (auto simp: upload_attachment_def rbind_eq_Inr served_ok_def Let_def split: prod.splits if_splits)
  show ?thesis using assms(1) r save_blob_keys(2) [where seen = seen, OF _ sb assms(3)] unfolding att_inv_def by simp
qed

lemma process_inv:
  assumes "att_inv hash seen vetted washed db" "scanner_ok vetted scan" "washer_ok (\<lambda>c. washed c \<and> seen c) reencode"
    "process_attachment hash scan reencode db k = Inr (st, db')"
  shows "att_inv hash seen vetted washed db'"
proof (cases "live_attachment db k")
  case (Some row)
  then have row: "served_ok hash seen vetted washed row" using assms(1) live_attachment_in by (auto simp: att_inv_def)
  have rows: "\<forall>x \<in> set (attachments (put_attachment db r)). served_ok hash seen vetted washed x" if "served_ok hash seen vetted washed r" for r
    using put_served [OF _ that, of db] assms(1) by (simp add: att_inv_def)
  have idle: "served_ok hash seen vetted washed (row\<lparr>at_scan := s\<rparr>)" if "s \<noteq> ScanClean" for s
    using row that by (auto simp: served_ok_def)
  have clean: "served_ok hash seen vetted washed (row\<lparr>at_scan := verdict_status (scan d)\<rparr>)"
    if "blobs db (at_sha row) = Some d" "\<not> (scan d = Clean \<and> at_media row = ''image'')" for d
  proof -
    have "at_sha row = hash d" "seen d" using assms(1) that(1) unfolding att_inv_def keys_ok_def by metis+
    then show ?thesis using row that(2) assms(2)
      by (auto simp: served_ok_def scanner_ok_def verdict_status_def split: scan_verdict.splits)
  qed
  have washed: "served_ok hash seen vetted washed (row\<lparr>at_scan := ScanClean, at_clean_sha := Some (hash c), at_clean_mime := m, at_clean_size := z\<rparr>)"
    if "at_media row = ''image''" "washed c \<and> seen c" for c m z
    using that by (auto simp: served_ok_def)
  show ?thesis
  proof (cases "at_scan row \<in> {ScanPending, ScanError} \<and> blobs db (at_sha row) \<noteq> None")
    case False
    then have "db' = db \<or> db' = put_attachment db (row\<lparr>at_scan := ScanError\<rparr>)"
      using assms(4) Some by (auto simp: process_attachment_def split: if_splits option.splits)
    then show ?thesis using assms(1) rows [OF idle [of ScanError]] unfolding att_inv_def by auto
  next
    case True
    then obtain d where d: "blobs db (at_sha row) = Some d" by auto
    show ?thesis
    proof (cases "scan d = Clean \<and> at_media row = ''image''")
      case False
      then have "db' = put_attachment db (row\<lparr>at_scan := verdict_status (scan d)\<rparr>)"
        using assms(4) Some True d by (auto simp: process_attachment_def)
      then show ?thesis using assms(1) rows [OF clean [OF d False]] unfolding att_inv_def by simp
    next
      case image: True
      show ?thesis
      proof (cases "reencode d (at_mime row)")
        case None
        then have "db' = put_attachment db (row\<lparr>at_scan := ScanError\<rparr>)"
          using assms(4) Some True d image by (auto simp: process_attachment_def)
        then show ?thesis using assms(1) rows [OF idle [of ScanError]] unfolding att_inv_def by simp
      next
        case re: (Some cm)
        obtain c m where cm: "cm = (c, m)" by (cases cm)
        obtain key sz store where sb: "save_blob hash (blobs db) c = ((key, sz), store)" by (metis prod.exhaust)
        have db': "db' = (put_attachment db (row\<lparr>at_scan := ScanClean, at_clean_sha := Some key,
            at_clean_mime := Some m, at_clean_size := Some sz\<rparr>))\<lparr>blobs := store\<rparr>"
          using assms(4) Some True d image re cm sb by (auto simp: process_attachment_def)
        have keys: "keys_ok hash seen (blobs db)" using assms(1) by (simp add: att_inv_def)
        have c: "washed c \<and> seen c" using assms(3) re cm unfolding washer_ok_def by blast
        then show ?thesis
          using save_blob_keys [where seen = seen, OF keys sb conjunct2 [OF c]] rows [OF washed [where m = "Some m" and z = "Some sz"]] image
          unfolding db' att_inv_def by simp
      qed
    qed
  qed
qed (use assms(4) in \<open>simp add: process_attachment_def\<close>)

lemma served_ok_edit [simp]:
  "served_ok hash seen vetted washed (r\<lparr>at_deleted := x\<rparr>) = served_ok hash seen vetted washed r"
  "served_ok hash seen vetted washed (r\<lparr>at_starts := y\<rparr>) = served_ok hash seen vetted washed r"
  "served_ok hash seen vetted washed (r\<lparr>at_hold := h, at_disposed := d\<rparr>) = served_ok hash seen vetted washed r"
  by (simp_all add: served_ok_def)

lemma att_step_inv:
  assumes "att_inv hash seen vetted washed db" "att_step hash seen vetted washed db db'"
  shows "att_inv hash seen vetted washed db'"
  using assms(2)
proof cases
  case (att_delete k)
  then obtain row where "row \<in> set (attachments db)" "db' = put_attachment db (row\<lparr>at_deleted := True\<rparr>)"
    by (auto simp: soft_delete_attachment_def dest: live_attachment_in split: option.splits)
  then show ?thesis using assms(1) put_served [of db hash seen vetted washed "row\<lparr>at_deleted := True\<rparr>"]
    by (simp add: att_inv_def)
next
  case (att_retain kind h t n)
  then show ?thesis using assms(1) by (auto simp: start_retention_def Let_def att_inv_def)
next
  case (att_hold k h d)
  then show ?thesis using assms(1) by (auto simp: att_inv_def set_row_upd)
qed (use assms(1) in \<open>auto intro: upload_inv process_inv\<close>)

interpretation files: invariant_system att_init "att_step hash seen vetted washed" "att_inv hash seen vetted washed" for hash seen vetted washed
proof
  show "att_init db \<Longrightarrow> att_inv hash seen vetted washed db" for db by (simp add: att_init_def att_inv_def keys_ok_def)
qed (rule att_step_inv)

section \<open>Properties\<close>

text \<open>
  C27. The download gate is closed unless everything is in order. In every state the service can reach,
  a download that succeeds was allowed by the authorizer and is of a live, undisposed file; the
  bytes are the platform's own document, or the washed copy of an uploaded image, or an uploaded
  document a scanner called clean; and it is shown inline only if it is the platform's own PDF.
  The hash is taken to be free of collisions on the contents the store was asked to save in the run,
  and not empty on them.
\<close>

theorem downloads_are_clean:
  assumes "reach att_init (att_step hash seen vetted washed) db" "inj_on hash {d. seen d}" "\<forall>d. seen d \<longrightarrow> hash d \<noteq> []"
    "download_attachment db authorize k = Inr f"
  shows "\<exists>r \<in> set (attachments db). at_id r = k \<and> \<not> at_deleted r \<and> \<not> at_disposed r \<and> authorize r = Inr () \<and>
    (at_generated r \<or> (at_media r = ''image'' \<and> washed (dl_data f)) \<or> (at_media r \<noteq> ''image'' \<and> vetted (dl_data f))) \<and>
    (dl_inline f \<longrightarrow> at_generated r \<and> dl_mime f = ''application/pdf'')"
proof -
  have inv: "keys_ok hash seen (blobs db)" "\<forall>r \<in> set (attachments db). served_ok hash seen vetted washed r"
    using files.reach_inv [OF assms(1)] by (auto simp: att_inv_def)
  obtain row where row: "live_attachment db k = Some row" using assms(4)
    by (auto simp: download_attachment_def split: option.splits)
  note live = live_attachment_in [OF row]
  define key where "key = or_str (at_clean_sha row) (at_sha row)"
  have gate: "authorize row = Inr ()" "at_scan row = ScanClean" "\<not> at_disposed row" "blobs db key = Some (dl_data f)"
    "dl_inline f = disposition_inline row (dl_mime f)"
    using assms(4) row by (auto simp: download_attachment_def key_def Let_def split: sum.splits if_splits option.splits)
  have key: "hash (dl_data f) = key" "seen (dl_data f)" using inv(1) gate(4) by (simp_all add: keys_ok_def)
  have same: "d = dl_data f" if "hash d = hash (dl_data f)" "seen d" for d using assms(2) that key(2) by (auto simp: inj_on_def)
  have "served_ok hash seen vetted washed row" using inv(2) live by simp
  then have "at_generated row \<or> (at_media row = ''image'' \<and> washed (dl_data f)) \<or> (at_media row \<noteq> ''image'' \<and> vetted (dl_data f))"
    using gate(2) key(1) assms(3) same
    by (auto simp: served_ok_def key_def or_str_def split: if_splits)
  then show ?thesis using live gate by (auto simp: disposition_inline_def)
qed

definition sample_upload :: upload_request where
  "sample_upload = \<lparr>rq_data = ''%PDF-1.4 receipt'', rq_filename = ''or.pdf'', rq_holder_kind = Some ''reimb_claim'',
     rq_holder = Some 4, rq_class = ''financial_dv_10y'', rq_starts = None, rq_generated = False\<rparr>"

text \<open>A hash that has collisions, as a digest of fixed length must: the first eight bytes.\<close>

definition toy_hash :: "string \<Rightarrow> string" where
  "toy_hash = take 8"

definition uploaded_db :: att_db where
  "uploaded_db = snd (projr (upload_attachment toy_hash 1000 \<lparr>attachments = [], blobs = Map.empty, at_seq = 0\<rparr> sample_upload))"

definition scanned_db :: att_db where
  "scanned_db = snd (projr (process_attachment toy_hash (\<lambda>d. Clean) (\<lambda>d m. None) uploaded_db 1))"

lemma uploaded_run:
  "\<exists>r. upload_attachment toy_hash 1000 \<lparr>attachments = [], blobs = Map.empty, at_seq = 0\<rparr> sample_upload = Inr (r, uploaded_db)"
  by (simp add: uploaded_db_def upload_attachment_def sample_upload_def validate_upload_def looks_like_xml_def byte_space_def
      lower_def sniff_mime_def bytes_of_def char_of_def bit_Suc_0_iff toy_hash_def ALLOWED_def save_blob_def Let_def)

lemma scanned_run:
  "process_attachment toy_hash (\<lambda>d. Clean) (\<lambda>d m. None) uploaded_db 1 = Inr (ScanClean, scanned_db) \<and>
   (\<exists>f. download_attachment scanned_db (\<lambda>r. Inr ()) 1 = Inr f \<and> dl_data f = ''%PDF-1.4 receipt'' \<and> \<not> dl_inline f)"
  by (simp add: scanned_db_def uploaded_db_def upload_attachment_def sample_upload_def validate_upload_def looks_like_xml_def byte_space_def
      lower_def sniff_mime_def bytes_of_def char_of_def bit_Suc_0_iff toy_hash_def ALLOWED_def save_blob_def process_attachment_def live_attachment_def
      put_attachment_def verdict_status_def download_attachment_def or_str_def disposition_inline_def Let_def)

theorem downloads_are_clean_witness:
  "\<exists>f. download_attachment scanned_db (\<lambda>r. Inr ()) 1 = Inr f \<and> dl_data f = ''%PDF-1.4 receipt'' \<and>
     (\<exists>r \<in> set (attachments scanned_db). at_id r = 1 \<and> \<not> at_deleted r)"
proof -
  let ?S = "\<lambda>d. d = ''%PDF-1.4 receipt''" and ?V = "\<lambda>d. True" and ?W = "\<lambda>d. False"
  have "reach att_init (att_step toy_hash ?S ?V ?W) \<lparr>attachments = [], blobs = Map.empty, at_seq = 0\<rparr>"
    by (rule reach_init) (simp add: att_init_def)
  moreover obtain r where "upload_attachment toy_hash 1000 \<lparr>attachments = [], blobs = Map.empty, at_seq = 0\<rparr> sample_upload = Inr (r, uploaded_db)"
    using uploaded_run by blast
  moreover have "rq_data sample_upload = ''%PDF-1.4 receipt''" by (simp add: sample_upload_def)
  ultimately have "reach att_init (att_step toy_hash ?S ?V ?W) uploaded_db" by (meson reach_step att_upload)
  then have r: "reach att_init (att_step toy_hash ?S ?V ?W) scanned_db"
    using scanned_run by (blast intro: reach_step att_process [where scan = "\<lambda>d. Clean" and reencode = "\<lambda>d m. None"]
        scanner_ok_def [THEN iffD2] washer_ok_def [THEN iffD2])
  obtain f where f: "download_attachment scanned_db (\<lambda>r. Inr ()) 1 = Inr f" "dl_data f = ''%PDF-1.4 receipt''"
    using scanned_run by blast
  have "inj_on toy_hash {d. ?S d}" "\<forall>d. ?S d \<longrightarrow> toy_hash d \<noteq> []" by (simp_all add: toy_hash_def inj_on_def)
  from downloads_are_clean [OF r this f(1)] f show ?thesis by blast
qed

text \<open>
  The retention clock is started once: a second call stamps nothing and changes nothing, and a clock
  that was already running keeps its date.
\<close>

theorem retention_starts_once:
  "(\<forall>n db'. start_retention db kind holder at = (n, db') \<longrightarrow> start_retention db' kind holder at' = (0, db')) \<and>
   (\<forall>r \<in> set (attachments db). at_starts r \<noteq> None \<longrightarrow> r \<in> set (attachments (snd (start_retention db kind holder at))))"
proof (intro conjI allI impI ballI)
  fix n db' assume "start_retention db kind holder at = (n, db')"
  then have rows: "attachments db' = map (\<lambda>r. if at_holder_kind r = Some kind \<and> at_holder r = Some holder \<and> at_starts r = None \<and> \<not> at_deleted r
      then r\<lparr>at_starts := Some at\<rparr> else r) (attachments db)"
    by (auto simp: start_retention_def Let_def)
  have "filter (\<lambda>r. at_holder_kind r = Some kind \<and> at_holder r = Some holder \<and> at_starts r = None \<and> \<not> at_deleted r) (attachments db') = []"
    by (auto simp: rows filter_empty_conv)
  moreover from this have "map (\<lambda>r. if at_holder_kind r = Some kind \<and> at_holder r = Some holder \<and> at_starts r = None \<and> \<not> at_deleted r
      then r\<lparr>at_starts := Some at'\<rparr> else r) (attachments db') = attachments db'"
    by (intro map_idI) (auto simp: filter_empty_conv)
  ultimately show "start_retention db' kind holder at' = (0, db')" by (simp add: start_retention_def)
next
  fix r assume "r \<in> set (attachments db)" "at_starts r \<noteq> None"
  then show "r \<in> set (attachments (snd (start_retention db kind holder at)))"
    by (force simp: start_retention_def Let_def)
qed

theorem retention_starts_once_witness:
  "start_retention (snd (start_retention scanned_db ''reimb_claim'' 4 10)) ''reimb_claim'' 4 99 =
     (0, snd (start_retention scanned_db ''reimb_claim'' 4 10))"
  using retention_starts_once [of scanned_db "''reimb_claim''" 4 10 99] by (metis prod.collapse)

text \<open>
  Disposal is fail-safe: a record is reported eligible exactly when it is not yet disposed, not on
  legal hold, of a class with a period, its clock runs, and the period is over.
\<close>

theorem disposal_eligible_iff:
  assumes "evaluate_candidate r as_of = Inr d"
  shows "dc_eligible d \<longleftrightarrow> \<not> at_disposed r \<and> \<not> at_hold r \<and>
    (\<exists>s years. at_starts r = Some s \<and> map_of RETENTION_CLASSES (at_class r) = Some (Some years) \<and>
       s + 365 * int years * 86400000000 \<le> as_of)"
proof (cases "\<exists>s years. at_starts r = Some s \<and> map_of RETENTION_CLASSES (at_class r) = Some (Some years)")
  case True
  then obtain s years where sy: "at_starts r = Some s" "map_of RETENTION_CLASSES (at_class r) = Some (Some years)" by blast
  then show ?thesis using assms
    by (simp add: evaluate_candidate_def retain_until_def rbind_eq_Inr add_hours_def Let_def algebra_simps split: if_splits) auto
next
  case False
  then have "retain_until (at_class r) (at_starts r) = Inr None"
    by (cases "at_starts r"; cases "map_of RETENTION_CLASSES (at_class r)") (auto simp: retain_until_def split: option.splits)
  then have "\<not> dc_eligible d" using assms by (auto simp: evaluate_candidate_def split: if_splits)
  with False show ?thesis by blast
qed

definition sample_file :: attachment where
  "sample_file = \<lparr>at_id = 1, at_holder_kind = Some ''reimb_claim'', at_holder = Some 4, at_filename = ''or.pdf'', at_mime = ''application/pdf'',
     at_size = 13, at_sha = ''k'', at_media = ''pdf'', at_generated = False, at_clean_sha = None, at_clean_mime = None, at_clean_size = None,
     at_scan = ScanClean, at_class = ''financial_dv_10y'', at_starts = Some 0, at_hold = False, at_disposed = False, at_deleted = False\<rparr>"

theorem disposal_eligible_iff_witness:
  "\<exists>d. evaluate_candidate sample_file (3650 * 86400000000) = Inr d \<and> dc_eligible d"
proof -
  obtain d where d: "evaluate_candidate sample_file (3650 * 86400000000) = Inr d"
    by (simp add: evaluate_candidate_def retain_until_def sample_file_def RETENTION_CLASSES_def add_hours_def max_instant_def max_ordinal_def)
  with disposal_eligible_iff [OF d] show ?thesis by (simp add: sample_file_def RETENTION_CLASSES_def)
qed

end
