(* ===== verification/Reference_Numbers.thy ===== *)
theory Reference_Numbers
  imports Iso_Dates
begin

text \<open>
  Reference numbers, \<open>src/office_connect/core/reference_numbers.py\<close>: one counter per scope and year,
  locked and advanced in the caller's transaction. A counter row is never deleted.
\<close>

section \<open>Model\<close>

record ref_counter =
  rc_scope :: string
  rc_year :: nat
  rc_last :: nat

definition ref_format :: "string \<Rightarrow> nat \<Rightarrow> nat \<Rightarrow> string" where
  "ref_format scope year n = scope @ ''-'' @ pad 4 year @ ''-'' @ pad 4 n"

definition ref_counter_of :: "ref_counter list \<Rightarrow> string \<Rightarrow> nat \<Rightarrow> ref_counter option" where
  "ref_counter_of cs scope year = find (\<lambda>c. rc_scope c = scope \<and> rc_year c = year) cs"

definition allocate_reference_number :: "ref_counter list \<Rightarrow> string \<Rightarrow> nat \<Rightarrow> string \<times> ref_counter list" where
  "allocate_reference_number cs scope year =
     (let cs1 = (case ref_counter_of cs scope year of
                   None \<Rightarrow> cs @ [\<lparr>rc_scope = scope, rc_year = year, rc_last = 0\<rparr>]
                 | Some c \<Rightarrow> cs);
          n = (case ref_counter_of cs scope year of None \<Rightarrow> 0 | Some c \<Rightarrow> rc_last c) + 1 in
      (ref_format scope year n,
       map (\<lambda>c. if rc_scope c = scope \<and> rc_year c = year then c\<lparr>rc_last := n\<rparr> else c) cs1))"

text \<open>A run of allocations, one per request.\<close>

fun allocate_all :: "ref_counter list \<Rightarrow> (string \<times> nat) list \<Rightarrow> string list \<times> ref_counter list" where
  "allocate_all cs [] = ([], cs)"
| "allocate_all cs (r # rs) =
     (let (s, cs1) = allocate_reference_number cs (fst r) (snd r); (ss, cs2) = allocate_all cs1 rs in (s # ss, cs2))"

section \<open>Lemmas\<close>

lemma pad_digits: "list_all is_digit (pad w n)" "digits_val (pad w n) = n"
proof -
  have "is_digit CHR ''0''" by (simp add: is_digit_def digit_val_def)
  then show "list_all is_digit (pad w n)" "digits_val (pad w n) = n"
    using nat_digits_all [of n] nat_digits_val [of n] fold_zeros
    by (auto simp: pad_def Let_def digits_val_def list_all_iff)
qed

lemma pad_inj: "pad w m = pad w n \<longleftrightarrow> m = n"
  using pad_digits(2) by metis

lemma dash_not_digit: "CHR ''-'' \<notin> set (pad w n)"
  using pad_digits(1) [of w n] by (auto simp: list_all_iff is_digit_def digit_val_def)

lemma last_dash_split:
  assumes "xs @ d # a = ys @ d # b" "d \<notin> set a" "d \<notin> set b"
  shows "xs = ys \<and> a = b"
proof -
  have "takeWhile (\<lambda>c. c \<noteq> d) (rev (xs @ d # a)) = rev a" "takeWhile (\<lambda>c. c \<noteq> d) (rev (ys @ d # b)) = rev b"
    using assms(2,3) by (auto simp: takeWhile_append)
  then show ?thesis using assms(1) by auto
qed

text \<open>A reference number determines its series, its year and its position, whatever the scope contains.\<close>

lemma ref_format_inj: "ref_format s y n = ref_format s' y' n' \<longleftrightarrow> s = s' \<and> y = y' \<and> n = n'"
proof
  assume eq: "ref_format s y n = ref_format s' y' n'"
  then have "(s @ CHR ''-'' # pad 4 y) @ CHR ''-'' # pad 4 n = (s' @ CHR ''-'' # pad 4 y') @ CHR ''-'' # pad 4 n'"
    by (simp add: ref_format_def)
  from last_dash_split [OF this dash_not_digit dash_not_digit]
  have "s @ CHR ''-'' # pad 4 y = s' @ CHR ''-'' # pad 4 y'" "pad 4 n = pad 4 n'" by auto
  with last_dash_split [OF this(1) dash_not_digit dash_not_digit] show "s = s' \<and> y = y' \<and> n = n'"
    by (simp add: pad_inj)
qed simp

definition issued :: "ref_counter list \<Rightarrow> string \<Rightarrow> nat \<Rightarrow> nat" where
  "issued cs scope year = (case ref_counter_of cs scope year of None \<Rightarrow> 0 | Some c \<Rightarrow> rc_last c)"

lemma find_map_same:
  assumes "\<And>x. P (f x) \<longleftrightarrow> P x"
  shows "find P (map f xs) = map_option f (find P xs)"
  using assms by (induction xs) auto

lemma find_append: "find P (xs @ ys) = (case find P xs of None \<Rightarrow> find P ys | Some x \<Rightarrow> Some x)"
  by (induction xs) auto

lemma allocate_effect:
  assumes "allocate_reference_number cs scope year = (s, cs')"
  shows "s = ref_format scope year (issued cs scope year + 1)"
    "issued cs' sc y = (if sc = scope \<and> y = year then issued cs scope year + 1 else issued cs sc y)"
proof -
  show "s = ref_format scope year (issued cs scope year + 1)"
    using assms by (auto simp: allocate_reference_number_def issued_def Let_def)
  define base where "base = (case ref_counter_of cs scope year of
    None \<Rightarrow> cs @ [\<lparr>rc_scope = scope, rc_year = year, rc_last = 0\<rparr>] | Some c \<Rightarrow> cs)"
  define f where "f = (\<lambda>c :: ref_counter. if rc_scope c = scope \<and> rc_year c = year then c\<lparr>rc_last := issued cs scope year + 1\<rparr> else c)"
  have "cs' = map f base"
    using assms unfolding allocate_reference_number_def issued_def Let_def base_def f_def by simp
  moreover have "(rc_scope (f c) = sc \<and> rc_year (f c) = y) = (rc_scope c = sc \<and> rc_year c = y)" for c by (simp add: f_def)
  ultimately have "ref_counter_of cs' sc y = map_option f (ref_counter_of base sc y)"
    by (simp add: ref_counter_of_def find_map_same)
  moreover have "ref_counter_of base sc y = (case ref_counter_of cs sc y of
      None \<Rightarrow> if sc = scope \<and> y = year then Some \<lparr>rc_scope = scope, rc_year = year, rc_last = 0\<rparr> else None | Some c \<Rightarrow> Some c)"
    by (auto simp: base_def ref_counter_of_def find_append split: option.splits)
  moreover have "rc_scope c = sc \<and> rc_year c = y" if "ref_counter_of cs sc y = Some c" for c
    using that find_Some_in unfolding ref_counter_of_def by fastforce
  ultimately show "issued cs' sc y = (if sc = scope \<and> y = year then issued cs scope year + 1 else issued cs sc y)"
    by (auto simp: issued_def f_def split: option.splits)
qed

lemma allocate_all_numbers:
  assumes "allocate_all cs rs = (ss, cs')" "s \<in> set ss"
  shows "\<exists>scope year n. s = ref_format scope year n \<and> issued cs scope year < n"
  using assms
proof (induction rs arbitrary: cs ss)
  case (Cons r rs)
  obtain s1 cs1 where a: "allocate_reference_number cs (fst r) (snd r) = (s1, cs1)" by fastforce
  obtain ss1 where b: "allocate_all cs1 rs = (ss1, cs')" "ss = s1 # ss1" using Cons.prems(1) a by (auto split: prod.splits)
  note eff = allocate_effect [OF a]
  show ?case
  proof (cases "s = s1")
    case True
    then show ?thesis using eff(1) by (metis less_add_one)
  next
    case False
    then obtain scope year n where "s = ref_format scope year n" "issued cs1 scope year < n"
      using Cons.IH [OF b(1)] Cons.prems(2) b(2) by auto
    moreover have "issued cs scope year \<le> issued cs1 scope year" using eff(2) by simp
    ultimately show ?thesis using order.strict_trans1 by blast
  qed
qed simp

section \<open>Properties\<close>

text \<open>
  C31. Reference numbers are never reused: in any run of allocations over any mix of scopes and years all
  numbers handed out differ, from each other and from every number issued before, and the
  series of each scope and year is consecutive.
\<close>

theorem reference_numbers_unique:
  assumes "allocate_all cs rs = (ss, cs')"
  shows "distinct ss \<and> (\<forall>scope year n. n \<le> issued cs scope year \<longrightarrow> ref_format scope year n \<notin> set ss) \<and>
    (\<forall>scope year. issued cs' scope year = issued cs scope year + length (filter (\<lambda>r. r = (scope, year)) rs))"
  using assms
proof (induction rs arbitrary: cs ss)
  case (Cons r rs)
  obtain s1 cs1 where a: "allocate_reference_number cs (fst r) (snd r) = (s1, cs1)" by fastforce
  obtain ss1 where b: "allocate_all cs1 rs = (ss1, cs')" "ss = s1 # ss1" using Cons.prems a by (auto split: prod.splits)
  note eff = allocate_effect [OF a] and IH = Cons.IH [OF b(1)]
  have "s1 \<notin> set ss1"
    using IH eff(1) eff(2) [of "fst r" "snd r"] by auto
  moreover have "\<forall>scope year n. n \<le> issued cs scope year \<longrightarrow> ref_format scope year n \<noteq> s1"
    using eff(1) by (auto simp: ref_format_inj)
  moreover have "\<forall>scope year n. n \<le> issued cs scope year \<longrightarrow> ref_format scope year n \<notin> set ss1"
    using IH eff(2) by (metis le_Suc_eq le_add1 add.commute plus_1_eq_Suc order.trans)
  moreover have "issued cs' scope year = issued cs scope year + length (filter (\<lambda>q. q = (scope, year)) (r # rs))" for scope year
    using IH eff(2) [of scope year] by (cases r) auto
  ultimately show ?case using IH b(2) by auto
qed simp

theorem reference_numbers_unique_witness:
  "\<exists>a b c cs. allocate_all [] [(''RB'', 2026), (''LQ'', 2026), (''RB'', 2026)] = ([a, b, c], cs) \<and> distinct [a, b, c] \<and>
     c = ref_format ''RB'' 2026 2"
proof -
  obtain a b c cs where run: "allocate_all [] [(''RB'', 2026), (''LQ'', 2026), (''RB'', 2026)] = ([a, b, c], cs)"
    "c = ref_format ''RB'' 2026 2"
    by (simp add: allocate_reference_number_def ref_counter_of_def numeral_2_eq_2)
  with reference_numbers_unique [OF run(1)] show ?thesis by blast
qed

end
