(* ===== verification/Snapshots.thy ===== *)
theory Snapshots
  imports Workflow_Model
begin

text \<open>
  Frozen document snapshots, \<open>src/office_connect/core/documents/snapshots.py\<close> and
  \<open>core/models/document_snapshot.py\<close>. The index over the active copies is not unique, so nothing in the
  database keeps two of them apart: that a document has one active copy follows from the service
  superseding the previous one, for calls that run one after the other. A lookup that meets two raises.
\<close>

section \<open>Model\<close>

datatype snapshot_status = SnActive | SnSuperseded | SnVoided

record snapshot =
  sn_id :: int
  sn_kind :: string
  sn_subject :: int
  sn_key :: string
  sn_attachment :: int
  sn_sha :: string
  sn_fingerprint :: string
  sn_revision :: "int option"
  sn_draft :: bool
  sn_status :: snapshot_status
  sn_by :: "int option"
  sn_at :: instant
  sn_voided_at :: "instant option"
  sn_voided_by :: "int option"
  sn_void_reason :: "string option"

record snap_db =
  snapshots :: "snapshot list"
  sn_seq :: int

definition of_document :: "string \<Rightarrow> int \<Rightarrow> string \<Rightarrow> snapshot \<Rightarrow> bool" where
  "of_document kind subject key s \<longleftrightarrow>
     sn_kind s = kind \<and> sn_subject s = subject \<and> sn_key s = key \<and> sn_status s = SnActive"

definition find_active :: "snap_db \<Rightarrow> string \<Rightarrow> int \<Rightarrow> string \<Rightarrow> snapshot option res" where
  "find_active db kind subject key =
     (case filter (of_document kind subject key) (snapshots db) of
        [] \<Rightarrow> Inr None
      | [s] \<Rightarrow> Inr (Some s)
      | _ \<Rightarrow> Inl MultipleResultsFound)"

text \<open>The rows come back in the order of their keys; the collation of the database is a parameter.\<close>

definition active_snapshots :: "(string \<Rightarrow> 'o::linorder) \<Rightarrow> snap_db \<Rightarrow> string \<Rightarrow> int \<Rightarrow> snapshot list" where
  "active_snapshots collation db kind subject = sort_key (\<lambda>s. collation (sn_key s))
     (filter (\<lambda>s. sn_kind s = kind \<and> sn_subject s = subject \<and> sn_status s = SnActive) (snapshots db))"

record freeze_request =
  fz_kind :: string
  fz_subject :: int
  fz_key :: string
  fz_attachment :: int
  fz_sha :: string
  fz_fingerprint :: string
  fz_revision :: "int option"
  fz_draft :: bool
  fz_actor :: "int option"

definition freeze_snapshot :: "snap_db \<Rightarrow> freeze_request \<Rightarrow> instant \<Rightarrow> (snapshot \<times> snap_db) res" where
  "freeze_snapshot db rq now =
     rbind (find_active db (fz_kind rq) (fz_subject rq) (fz_key rq)) (\<lambda>previous.
       let rows = (case previous of
                     None \<Rightarrow> snapshots db
                   | Some p \<Rightarrow> row_upd sn_id (sn_id p) (\<lambda>s. s\<lparr>sn_status := SnSuperseded\<rparr>) (snapshots db));
           row = \<lparr>sn_id = sn_seq db + 1, sn_kind = fz_kind rq, sn_subject = fz_subject rq, sn_key = fz_key rq,
                  sn_attachment = fz_attachment rq, sn_sha = fz_sha rq, sn_fingerprint = fz_fingerprint rq,
                  sn_revision = fz_revision rq, sn_draft = fz_draft rq, sn_status = SnActive, sn_by = fz_actor rq,
                  sn_at = now, sn_voided_at = None, sn_voided_by = None, sn_void_reason = None\<rparr>
       in Inr (row, db\<lparr>snapshots := rows @ [row], sn_seq := sn_seq db + 1\<rparr>))"

text \<open>\<open>document_key = None\<close> voids every live copy of the subject.\<close>

definition void_target :: "string \<Rightarrow> int \<Rightarrow> string option \<Rightarrow> snapshot \<Rightarrow> bool" where
  "void_target kind subject key s \<longleftrightarrow>
     sn_kind s = kind \<and> sn_subject s = subject \<and> sn_status s = SnActive \<and>
     (case key of None \<Rightarrow> True | Some k \<Rightarrow> sn_key s = k)"

definition void_snapshots ::
  "snap_db \<Rightarrow> string \<Rightarrow> int \<Rightarrow> string option \<Rightarrow> string \<Rightarrow> int option \<Rightarrow> instant \<Rightarrow> snapshot list \<times> snap_db" where
  "void_snapshots db kind subject key reason actor now =
     (let void = (\<lambda>s. s\<lparr>sn_status := SnVoided, sn_voided_at := Some now, sn_voided_by := actor, sn_void_reason := Some reason\<rparr>);
          target = void_target kind subject key in
      (map void (filter target (snapshots db)),
       db\<lparr>snapshots := map (\<lambda>s. if target s then void s else s) (snapshots db)\<rparr>))"

definition stale_snapshots :: "(string \<Rightarrow> 'o::linorder) \<Rightarrow> snap_db \<Rightarrow> string \<Rightarrow> int \<Rightarrow> (string \<rightharpoonup> string) \<Rightarrow> snapshot list" where
  "stale_snapshots collation db kind subject fingerprints =
     filter (\<lambda>s. case fingerprints (sn_key s) of None \<Rightarrow> False | Some f \<Rightarrow> f \<noteq> sn_fingerprint s)
       (active_snapshots collation db kind subject)"

section \<open>The invariant\<close>

inductive snap_step :: "snap_db \<Rightarrow> snap_db \<Rightarrow> bool" where
  snap_freeze: "freeze_snapshot db rq now = Inr (r, db') \<Longrightarrow> snap_step db db'"
| snap_void: "void_snapshots db kind subject key reason actor now = (vs, db') \<Longrightarrow> snap_step db db'"

definition snap_init :: "snap_db \<Rightarrow> bool" where
  "snap_init db \<longleftrightarrow> snapshots db = []"

text \<open>At most one live copy of a document; ids are distinct and below the sequence.\<close>

definition snap_inv :: "snap_db \<Rightarrow> bool" where
  "snap_inv db \<longleftrightarrow> distinct (map sn_id (snapshots db)) \<and> (\<forall>s \<in> set (snapshots db). sn_id s \<le> sn_seq db) \<and>
     (\<forall>kind subject key. length (filter (of_document kind subject key) (snapshots db)) \<le> 1)"

lemma snap_invI:
  assumes "distinct (map sn_id (snapshots db))" "\<And>i. i \<in> set (map sn_id (snapshots db)) \<Longrightarrow> i \<le> sn_seq db"
    "\<And>kind subject key. length (filter (of_document kind subject key) (snapshots db)) \<le> 1"
  shows "snap_inv db"
  unfolding snap_inv_def using assms by simp

lemma snap_invD:
  assumes "snap_inv db"
  shows "distinct (map sn_id (snapshots db))" "i \<in> set (map sn_id (snapshots db)) \<Longrightarrow> i \<le> sn_seq db"
    "length (filter (of_document kind subject key) (snapshots db)) \<le> 1"
  using assms unfolding snap_inv_def by auto

lemma snap_inv_find: "snap_inv db \<Longrightarrow> \<exists>p. find_active db kind subject key = Inr p"
proof -
  assume "snap_inv db"
  then have "length (filter (of_document kind subject key) (snapshots db)) \<le> 1" by (simp add: snap_inv_def)
  then show ?thesis
    by (cases "filter (of_document kind subject key) (snapshots db)" rule: list.exhaust [case_names Nil Cons])
      (auto simp: find_active_def split: list.splits)
qed

lemma filter_map_le:
  assumes "\<And>s. P (f s) \<Longrightarrow> P s"
  shows "length (filter P (map f xs)) \<le> length (filter P xs)"
  using assms by (induction xs) (auto intro: le_SucI)

lemma void_inv: "snap_inv db \<Longrightarrow> void_snapshots db kind subject key reason actor now = (vs, db') \<Longrightarrow> snap_inv db'"
proof -
  assume inv: "snap_inv db" and v: "void_snapshots db kind subject key reason actor now = (vs, db')"
  define f where "f = (\<lambda>s. if void_target kind subject key s then s\<lparr>sn_status := SnVoided, sn_voided_at := Some now,
    sn_voided_by := actor, sn_void_reason := Some reason\<rparr> else s)"
  have db': "snapshots db' = map f (snapshots db)" "sn_seq db' = sn_seq db"
    using v by (auto simp: void_snapshots_def Let_def f_def)
  have f: "sn_id (f s) = sn_id s" "of_document k j d (f s) \<Longrightarrow> of_document k j d s" for s k j d
    by (auto simp: f_def of_document_def split: if_splits)
  have "length (filter (of_document k j d) (map f (snapshots db))) \<le> length (filter (of_document k j d) (snapshots db))" for k j d
    by (rule filter_map_le) (rule f(2))
  then have one: "length (filter (of_document k j d) (map f (snapshots db))) \<le> 1" for k j d
    by (rule le_trans) (rule snap_invD(3) [OF inv])
  have ids: "map sn_id (map f (snapshots db)) = map sn_id (snapshots db)" by (simp add: f(1))
  show "snap_inv db'"
    by (rule snap_invI; unfold db' ids) (rule snap_invD [OF inv] one | assumption)+
qed

lemma freeze_inv:
  assumes "snap_inv db" "freeze_snapshot db rq now = Inr (r, db')"
  shows "snap_inv db'"
proof -
  define P where "P = of_document (fz_kind rq) (fz_subject rq) (fz_key rq)"
  obtain p where p: "find_active db (fz_kind rq) (fz_subject rq) (fz_key rq) = Inr p"
    using assms(2) by (auto simp: freeze_snapshot_def rbind_eq_Inr)
  define rows where "rows = (case p of None \<Rightarrow> snapshots db
    | Some q \<Rightarrow> row_upd sn_id (sn_id q) (\<lambda>s. s\<lparr>sn_status := SnSuperseded\<rparr>) (snapshots db))"
  have db': "snapshots db' = rows @ [r]" "sn_seq db' = sn_seq db + 1" "sn_id r = sn_seq db + 1"
    "sn_kind r = fz_kind rq" "sn_subject r = fz_subject rq" "sn_key r = fz_key rq"
    using assms(2) p by (auto simp: freeze_snapshot_def rows_def Let_def)
  have ids: "map sn_id rows = map sn_id (snapshots db)" by (auto simp: rows_def split: option.splits)
  have le: "length (filter (of_document k j d) rows) \<le> length (filter (of_document k j d) (snapshots db))" for k j d
  proof (cases p)
    case (Some q)
    show ?thesis unfolding rows_def Some option.case row_upd_def
      by (rule filter_map_le) (auto simp: of_document_def split: if_splits)
  qed (simp add: rows_def)
  have none: "filter P rows = []"
  proof (cases p)
    case None
    then show ?thesis using p by (auto simp: rows_def P_def find_active_def split: list.splits)
  next
    case (Some q)
    then have q: "filter P (snapshots db) = [q]" using p by (auto simp: find_active_def P_def split: list.splits)
    have "\<not> P s" if "s \<in> set rows" for s
    proof
      assume "P s"
      from that Some obtain s0 where s0: "s0 \<in> set (snapshots db)"
        "s = (if sn_id s0 = sn_id q then s0\<lparr>sn_status := SnSuperseded\<rparr> else s0)"
        by (auto simp: rows_def row_upd_def)
      then have "P s0" "sn_id s0 \<noteq> sn_id q" using \<open>P s\<close> by (auto simp: P_def of_document_def split: if_splits)
      then have "s0 \<in> set (filter P (snapshots db))" using s0 by simp
      with q \<open>sn_id s0 \<noteq> sn_id q\<close> show False by simp
    qed
    then show ?thesis by (simp add: filter_empty_conv)
  qed
  have "length (filter (of_document k j d) (rows @ [r])) \<le> 1" for k j d
  proof (cases "of_document k j d r")
    case True
    then have "of_document k j d = P" using db' by (auto simp: P_def of_document_def fun_eq_iff)
    then show ?thesis using none by simp
  next
    case False
    then show ?thesis using le_trans [OF le snap_invD(3) [OF assms(1)]] by simp
  qed
  moreover have "i \<le> sn_seq db + 1" if "i \<in> set (map sn_id (rows @ [r]))" for i
    using that snap_invD(2) [OF assms(1), of i] by (auto simp: ids db' simp flip: set_map)
  moreover have "distinct (map sn_id (rows @ [r]))"
    using snap_invD(1) [OF assms(1)] snap_invD(2) [OF assms(1), of "sn_seq db + 1"] by (auto simp: ids db' simp flip: set_map)
  ultimately show ?thesis using snap_invI [of db'] by (simp only: db')
qed

interpretation snaps: invariant_system snap_init snap_step snap_inv
proof
  show "snap_init db \<Longrightarrow> snap_inv db" for db by (simp add: snap_init_def snap_inv_def)
  show "snap_inv db \<Longrightarrow> snap_step db db' \<Longrightarrow> snap_inv db'" for db db'
    by (erule snap_step.cases) (auto intro: freeze_inv void_inv)
qed

section \<open>Properties\<close>

text \<open>Two copies that differ at most in their status and in the record of their being voided.\<close>

definition same_copy :: "snapshot \<Rightarrow> snapshot \<Rightarrow> bool" where
  "same_copy s t \<longleftrightarrow> t = s\<lparr>sn_status := sn_status t, sn_voided_at := sn_voided_at t, sn_voided_by := sn_voided_by t,
     sn_void_reason := sn_void_reason t\<rparr>"

definition carried_over :: "snapshot \<Rightarrow> snapshot \<Rightarrow> bool" where
  "carried_over s t \<longleftrightarrow> same_copy s t \<and> (sn_status s \<noteq> SnActive \<longrightarrow> t = s)"

lemma carried_over_refl [simp]: "carried_over s s"
  by (simp add: carried_over_def same_copy_def)

lemma carried_over_trans: "carried_over s t \<Longrightarrow> carried_over t u \<Longrightarrow> carried_over s u"
proof -
  assume st: "carried_over s t" and tu: "carried_over t u"
  have "same_copy s u"
    using st tu by (cases s, cases t, cases u) (simp add: carried_over_def same_copy_def)
  then show ?thesis using st tu by (auto simp: carried_over_def)
qed

lemma find_active_SomeD:
  "find_active db kind subject key = Inr (Some p) \<Longrightarrow> filter (of_document kind subject key) (snapshots db) = [p]"
  by (auto simp: find_active_def split: list.splits)

text \<open>A freeze retires only the copy it found: the other rows of that key would have to be the same row.\<close>

lemma freeze_carries:
  assumes "snap_inv db" "freeze_snapshot db rq now = Inr (r, db')" "s \<in> set (snapshots db)"
  shows "\<exists>t \<in> set (snapshots db'). carried_over s t"
proof -
  obtain p where p: "find_active db (fz_kind rq) (fz_subject rq) (fz_key rq) = Inr p"
    using assms(2) by (auto simp: freeze_snapshot_def rbind_eq_Inr)
  show ?thesis
  proof (cases p)
    case None
    then show ?thesis using p assms(2,3) by (auto simp: freeze_snapshot_def Let_def intro!: bexI [of _ s])
  next
    case (Some q)
    from find_active_SomeD [OF p [unfolded Some]] have q: "q \<in> set (snapshots db)" "sn_status q = SnActive"
      by (auto simp: filter_eq_Cons_iff of_document_def)
    have "sn_id s = sn_id q \<Longrightarrow> s = q"
      using snap_invD(1) [OF assms(1)] assms(3) q(1) by (auto simp: distinct_map dest: inj_onD)
    then have "carried_over s (if sn_id s = sn_id q then s\<lparr>sn_status := SnSuperseded\<rparr> else s)"
      using q(2) by (auto simp: carried_over_def same_copy_def)
    then show ?thesis using assms(2,3) p Some
      by (auto simp: freeze_snapshot_def Let_def row_upd_def intro!: bexI)
  qed
qed

lemma void_carries:
  assumes "void_snapshots db kind subject key reason actor now = (vs, db')" "s \<in> set (snapshots db)"
  shows "\<exists>t \<in> set (snapshots db'). carried_over s t"
proof -
  let ?void = "\<lambda>s. s\<lparr>sn_status := SnVoided, sn_voided_at := Some now, sn_voided_by := actor, sn_void_reason := Some reason\<rparr>"
  have "snapshots db' = map (\<lambda>s. if void_target kind subject key s then ?void s else s) (snapshots db)"
    using assms(1) by (auto simp: void_snapshots_def Let_def)
  then have "(if void_target kind subject key s then ?void s else s) \<in> set (snapshots db')" using assms(2) by simp
  moreover have "carried_over s (if void_target kind subject key s then ?void s else s)"
    by (simp add: carried_over_def same_copy_def void_target_def)
  ultimately show ?thesis by (rule bexI [rotated])
qed

lemma snap_step_carries:
  "snap_step db db' \<Longrightarrow> snap_inv db \<Longrightarrow> s \<in> set (snapshots db) \<Longrightarrow> \<exists>t \<in> set (snapshots db'). carried_over s t"
proof (induction rule: snap_step.induct)
  case (snap_freeze db rq now r db')
  then show ?case using freeze_carries by metis
next
  case (snap_void db kind subject key reason actor now vs db')
  then show ?case using void_carries by metis
qed

lemma snap_steps_carry:
  assumes "snap_step\<^sup>*\<^sup>* db db'" "snap_inv db" "s \<in> set (snapshots db)"
  shows "\<exists>t \<in> set (snapshots db'). carried_over s t"
  using assms(1)
proof (induction rule: rtranclp_induct)
  case base
  then show ?case using assms(3) by (intro bexI [of _ s]) simp_all
next
  case (step y z)
  then obtain t where t: "t \<in> set (snapshots y)" "carried_over s t" by blast
  have "snap_inv y" using snaps.reach_steps_inv [OF assms(2) step(1)] .
  from snap_step_carries [OF step(2) this t(1)] t(2) show ?case by (blast intro: carried_over_trans)
qed

text \<open>
  C32. Whatever the service does afterwards, a frozen copy is never deleted, its attachment, hashes, author
  and time never change, and one that was superseded or voided never changes at all: a retired copy
  does not come back to life.
\<close>

theorem frozen_copies_are_kept:
  assumes "reach snap_init snap_step db" "snap_step\<^sup>*\<^sup>* db db'" "s \<in> set (snapshots db)"
  shows "\<exists>t \<in> set (snapshots db'). sn_id t = sn_id s \<and> sn_attachment t = sn_attachment s \<and> sn_sha t = sn_sha s \<and>
    sn_fingerprint t = sn_fingerprint s \<and> sn_by t = sn_by s \<and> sn_at t = sn_at s \<and> (sn_status s \<noteq> SnActive \<longrightarrow> t = s)"
proof -
  from snap_steps_carry [OF assms(2) snaps.reach_inv [OF assms(1)] assms(3)]
  obtain t where t: "t \<in> set (snapshots db')" "carried_over s t" by blast
  from t(2) have "t = s\<lparr>sn_status := sn_status t, sn_voided_at := sn_voided_at t, sn_voided_by := sn_voided_by t,
     sn_void_reason := sn_void_reason t\<rparr>" by (simp add: carried_over_def same_copy_def)
  then have "sn_id t = sn_id s \<and> sn_attachment t = sn_attachment s \<and> sn_sha t = sn_sha s \<and>
    sn_fingerprint t = sn_fingerprint s \<and> sn_by t = sn_by s \<and> sn_at t = sn_at s" by (cases s, cases t) simp
  with t show ?thesis by (auto simp: carried_over_def)
qed

definition sample_freeze :: freeze_request where
  "sample_freeze = \<lparr>fz_kind = ''reimb_claim'', fz_subject = 4, fz_key = ''reimb.dv'', fz_attachment = 9, fz_sha = ''a1'',
     fz_fingerprint = ''f1'', fz_revision = None, fz_draft = True, fz_actor = Some 2\<rparr>"

definition empty_snaps :: snap_db where
  "empty_snaps = \<lparr>snapshots = [], sn_seq = 0\<rparr>"

definition first_copy :: "snapshot \<times> snap_db" where
  "first_copy = (case freeze_snapshot empty_snaps sample_freeze 10 of Inr x \<Rightarrow> x | Inl e \<Rightarrow> undefined)"

lemma first_copy_ok: "freeze_snapshot empty_snaps sample_freeze 10 = Inr (fst first_copy, snd first_copy)"
  by (simp add: first_copy_def freeze_snapshot_def find_active_def empty_snaps_def Let_def)

lemma first_copy_reach: "reach snap_init snap_step (snd first_copy)"
  using first_copy_ok by (blast intro: reach.intros snap_freeze [OF first_copy_ok] snap_init_def [THEN iffD2]
    empty_snaps_def [THEN arg_cong [where f = snapshots], simplified])

lemma first_copy_in: "fst first_copy \<in> set (snapshots (snd first_copy))"
  by (simp add: first_copy_def freeze_snapshot_def find_active_def empty_snaps_def Let_def)

theorem frozen_copies_are_kept_witness:
  "\<exists>t \<in> set (snapshots (snd (void_snapshots (snd first_copy) ''reimb_claim'' 4 None ''edited'' None 20))). sn_id t = 1 \<and> sn_sha t = ''a1''"
proof -
  let ?v = "void_snapshots (snd first_copy) ''reimb_claim'' 4 None ''edited'' None 20"
  have "snap_step\<^sup>*\<^sup>* (snd first_copy) (snd ?v)" by (rule r_into_rtranclp, rule snap_void) (rule prod.collapse [symmetric])
  from frozen_copies_are_kept [OF first_copy_reach this first_copy_in] show ?thesis
    by (auto simp: first_copy_def freeze_snapshot_def find_active_def empty_snaps_def Let_def sample_freeze_def)
qed

text \<open>
  One official copy of a document: as long as the calls run one after the other, the lookup never
  meets two, a freeze never fails, and the copy it made is the one the next lookup returns.
\<close>

theorem one_official_copy:
  assumes "reach snap_init snap_step db"
  shows "\<exists>row db'. freeze_snapshot db rq now = Inr (row, db') \<and>
    find_active db' (fz_kind rq) (fz_subject rq) (fz_key rq) = Inr (Some row) \<and> sn_fingerprint row = fz_fingerprint rq"
proof -
  have inv: "snap_inv db" using snaps.reach_inv [OF assms] .
  obtain p where "find_active db (fz_kind rq) (fz_subject rq) (fz_key rq) = Inr p"
    using snap_inv_find [OF inv] by blast
  then obtain row db' where f: "freeze_snapshot db rq now = Inr (row, db')" "row \<in> set (snapshots db')"
    "of_document (fz_kind rq) (fz_subject rq) (fz_key rq) row" "sn_fingerprint row = fz_fingerprint rq"
    by (simp add: freeze_snapshot_def Let_def of_document_def)
  have "length (filter (of_document (fz_kind rq) (fz_subject rq) (fz_key rq)) (snapshots db')) \<le> 1"
    by (rule snap_invD(3) [OF freeze_inv [OF inv f(1)]])
  moreover have "row \<in> set (filter (of_document (fz_kind rq) (fz_subject rq) (fz_key rq)) (snapshots db'))"
    using f by simp
  ultimately have "filter (of_document (fz_kind rq) (fz_subject rq) (fz_key rq)) (snapshots db') = [row]"
    by (cases "filter (of_document (fz_kind rq) (fz_subject rq) (fz_key rq)) (snapshots db')") auto
  with f show ?thesis by (auto simp: find_active_def)
qed

theorem one_official_copy_witness:
  "\<exists>row db'. freeze_snapshot (snd first_copy) sample_freeze 30 = Inr (row, db') \<and>
    find_active db' ''reimb_claim'' 4 ''reimb.dv'' = Inr (Some row)"
  using one_official_copy [OF first_copy_reach, of sample_freeze 30] by (auto simp: sample_freeze_def)

text \<open>
  Two generation passes that do not see each other's rows each freeze a copy: with both rows in the
  table every later lookup of that document raises.
\<close>

lemma concurrent_freezes_collide:
  "find_active \<lparr>snapshots = [fst first_copy, (fst first_copy)\<lparr>sn_id := 2\<rparr>], sn_seq = 2\<rparr> ''reimb_claim'' 4 ''reimb.dv''
    = Inl MultipleResultsFound"
  by (simp add: first_copy_def freeze_snapshot_def find_active_def empty_snaps_def Let_def sample_freeze_def of_document_def)

end
