(* ===== verification/Outbox.thy ===== *)
theory Outbox
  imports Reimb_Model Json_Values Org_Units
begin

text \<open>
  The notification outbox, \<open>core/notifications\<close>: persisting a row once per deduplication key, resolving
  the recipient with the opt-outs, and dispatching a row to its channel. The mail transport is a parameter
  (\<open>send\<close>): it returns the result of the driver or the text of its error. A dispatch runs in a transaction
  of its own and commits also when it raises, so it returns the raised exception beside the table.
\<close>

section \<open>Data\<close>

datatype channel = Email | In_App

datatype notification_status = Queued | Sending | Sent | Failed | Dead | Suppressed

record email_message =
  em_to :: "string list"
  em_subject :: string
  em_text :: string
  em_html :: "string option"
  em_sender :: "string option"
  em_cc :: "string list"

record notification =
  nf_channel :: channel
  nf_email :: "email_message option"
  nf_meta :: "(string \<times> json) list"

record mail_payload =
  pl_to :: "string list"
  pl_cc :: "string list"
  pl_html :: "string option"
  pl_sender :: "string option"

record outbox_row =
  nt_id :: int
  nt_channel :: channel
  nt_status :: notification_status
  nt_email :: "string option"
  nt_user :: "int option"
  nt_subject :: string
  nt_body :: "string option"
  nt_payload :: "mail_payload option"
  nt_meta :: "(string \<times> json) list"
  nt_key :: "string option"
  nt_module :: "string option"
  nt_activity :: "int option"
  nt_attempts :: int
  nt_max_attempts :: int
  nt_error :: "string option"
  nt_sent_at :: "instant option"
  nt_driver :: "string option"
  nt_message_id :: "string option"

record delivery =
  dv_notification :: int
  dv_attempt :: int
  dv_sent :: bool
  dv_driver :: "string option"
  dv_message_id :: "string option"
  dv_error :: "string option"

record preference =
  pr_user :: int
  pr_channel :: channel
  pr_module :: "string option"
  pr_enabled :: bool

record outbox_db =
  ob_rows :: "outbox_row list"
  ob_seq :: int
  ob_deliveries :: "delivery list"
  ob_prefs :: "preference list"
  ob_pending :: "int list"

definition empty_outbox :: outbox_db where
  "empty_outbox = \<lparr>ob_rows = [], ob_seq = 0, ob_deliveries = [], ob_prefs = [], ob_pending = []\<rparr>"

record send_result =
  sr_driver :: string
  sr_sent :: bool
  sr_recipients :: "string list"
  sr_message_id :: "string option"

definition email_error :: exn where "email_error = ServiceError ''EmailError''"

text \<open>\<open>EmailMessage(...)\<close> refuses a message with no recipient or no subject.\<close>

definition make_email :: "email_message \<Rightarrow> email_message res" where
  "make_email m = (if em_to m = [] \<or> em_subject m = [] then Inl email_error else Inr m)"

definition meta_str :: "(string \<times> json) list \<Rightarrow> string \<Rightarrow> string option" where
  "meta_str m k = (case map_of m k of Some (JStr s) \<Rightarrow> Some s | _ \<Rightarrow> None)"

definition meta_int :: "(string \<times> json) list \<Rightarrow> string \<Rightarrow> int option" where
  "meta_int m k = (case map_of m k of Some (JInt n) \<Rightarrow> Some n | _ \<Rightarrow> None)"

section \<open>Recipients\<close>

definition PREFS_BYPASS_CLASSES :: "string set" where
  "PREFS_BYPASS_CLASSES = {''security'', ''transactional''}"

definition channel_enabled :: "preference list \<Rightarrow> int \<Rightarrow> channel \<Rightarrow> string option \<Rightarrow> bool" where
  "channel_enabled prefs uid ch m =
     (let rows = filter (\<lambda>p. pr_user p = uid \<and> pr_channel p = ch) prefs;
          chosen = or_else (find (\<lambda>p. pr_module p = m) rows) (find (\<lambda>p. pr_module p = None) rows) in
      case chosen of None \<Rightarrow> True | Some p \<Rightarrow> pr_enabled p)"

record resolved =
  rv_email :: "string option"
  rv_user :: "int option"
  rv_status :: notification_status

definition recipient_email :: "user list \<Rightarrow> staff list \<Rightarrow> notification \<Rightarrow> string option" where
  "recipient_email us ss n =
     (let explicit = (case nf_email n of Some m \<Rightarrow> (case em_to m of t # _ \<Rightarrow> Some t | [] \<Rightarrow> meta_str (nf_meta n) ''recipient_email'')
                      | None \<Rightarrow> meta_str (nf_meta n) ''recipient_email'') in
      case Option.bind (meta_int (nf_meta n) ''recipient_user_id'') (row_get user_id us) of
        Some u \<Rightarrow>
          if explicit \<noteq> None then explicit
          else if user_email u = []
          then (case Option.bind (user_staff u) (row_get sf_id (filter (\<lambda>s. \<not> sf_deleted s) ss)) of
                  None \<Rightarrow> Some (user_email u) | Some s \<Rightarrow> sf_email s)
          else Some (user_email u)
      | None \<Rightarrow> explicit)"

definition resolve_recipient :: "user list \<Rightarrow> staff list \<Rightarrow> preference list \<Rightarrow> notification \<Rightarrow> resolved" where
  "resolve_recipient us ss prefs n =
     (let uid = meta_int (nf_meta n) ''recipient_user_id'';
          email = recipient_email us ss n;
          cls = (case meta_str (nf_meta n) ''notification_class'' of None \<Rightarrow> ''operational'' | Some c \<Rightarrow> c);
          known = Option.bind uid (row_get user_id us) \<noteq> None;
          muted = uid \<noteq> None \<and> known \<and> cls \<notin> PREFS_BYPASS_CLASSES \<and>
            \<not> channel_enabled prefs (the uid) (nf_channel n) (meta_str (nf_meta n) ''module'');
          nowhere = nf_channel n = Email \<and> email = None \<and> uid \<noteq> None in
      \<lparr>rv_email = email, rv_user = uid, rv_status = (if muted \<or> nowhere then Suppressed else Queued)\<rparr>)"

section \<open>Persisting\<close>

definition payload_from :: "notification \<Rightarrow> mail_payload option" where
  "payload_from n =
     (case nf_email n of
        Some m \<Rightarrow> if nf_channel n = Email
          then Some \<lparr>pl_to = em_to m, pl_cc = em_cc m, pl_html = em_html m, pl_sender = em_sender m\<rparr> else None
      | None \<Rightarrow> None)"

definition live_row :: "outbox_db \<Rightarrow> string \<Rightarrow> outbox_row option" where
  "live_row ob k = find (\<lambda>r. nt_key r = Some k \<and> nt_status r \<noteq> Dead) (ob_rows ob)"

definition new_row :: "int \<Rightarrow> nat \<Rightarrow> resolved \<Rightarrow> notification \<Rightarrow> outbox_row" where
  "new_row k max_attempts rv n =
     (let m = nf_meta n in
      \<lparr>nt_id = k, nt_channel = nf_channel n, nt_status = rv_status rv, nt_email = rv_email rv, nt_user = rv_user rv,
       nt_subject = (case nf_email n of Some e \<Rightarrow> em_subject e
         | None \<Rightarrow> (case meta_str m ''subject'' of None \<Rightarrow> [] | Some s \<Rightarrow> s)),
       nt_body = (case nf_email n of Some e \<Rightarrow> Some (em_text e) | None \<Rightarrow> meta_str m ''body_text''),
       nt_payload = payload_from n, nt_meta = m, nt_key = meta_str m ''dedup_key'', nt_module = meta_str m ''module'',
       nt_activity = meta_int m ''activity_id'', nt_attempts = 0, nt_max_attempts = int max_attempts, nt_error = None,
       nt_sent_at = None, nt_driver = None, nt_message_id = None\<rparr>)"

text \<open>The partial unique index over the keys of rows that are not dead.\<close>

definition key_taken :: "outbox_row list \<Rightarrow> outbox_row \<Rightarrow> bool" where
  "key_taken rows r \<longleftrightarrow> nt_key r \<noteq> None \<and> nt_status r \<noteq> Dead \<and>
     (\<exists>x \<in> set rows. nt_id x \<noteq> nt_id r \<and> nt_key x = nt_key r \<and> nt_status x \<noteq> Dead)"

definition persist_notification ::
  "nat \<Rightarrow> user list \<Rightarrow> staff list \<Rightarrow> outbox_db \<Rightarrow> notification \<Rightarrow> (int \<times> outbox_db) res" where
  "persist_notification max_attempts us ss ob n =
     (let key = meta_str (nf_meta n) ''dedup_key'';
          existing = (if truthy key then live_row ob (the key) else None) in
      case existing of
        Some r \<Rightarrow> Inr (nt_id r, ob)
      | None \<Rightarrow>
          (let row = new_row (ob_seq ob + 1) max_attempts (resolve_recipient us ss (ob_prefs ob) n) n in
           if key_taken (ob_rows ob) row then Inl IntegrityError
           else Inr (nt_id row, ob\<lparr>ob_rows := ob_rows ob @ [row], ob_seq := ob_seq ob + 1\<rparr>)))"

definition dispatch_on_commit :: "outbox_db \<Rightarrow> int \<Rightarrow> outbox_db" where
  "dispatch_on_commit ob k = ob\<lparr>ob_pending := ob_pending ob @ [k]\<rparr>"

text \<open>The \<open>after_commit\<close> listener: the ids handed to the worker, in order, each once.\<close>

definition drain_pending :: "outbox_db \<Rightarrow> int list \<times> outbox_db" where
  "drain_pending ob = (ob_pending ob, ob\<lparr>ob_pending := []\<rparr>)"

section \<open>Dispatching\<close>

definition message_from_row :: "outbox_row \<Rightarrow> email_message res" where
  "message_from_row r =
     (let fallback = (case nt_email r of Some e \<Rightarrow> if e = [] then [] else [e] | None \<Rightarrow> []);
          to = (case nt_payload r of Some p \<Rightarrow> if pl_to p = [] then fallback else pl_to p | None \<Rightarrow> fallback) in
      make_email \<lparr>em_to = to, em_subject = nt_subject r, em_text = (case nt_body r of None \<Rightarrow> [] | Some b \<Rightarrow> b),
        em_html = Option.bind (nt_payload r) pl_html, em_sender = Option.bind (nt_payload r) pl_sender,
        em_cc = (case nt_payload r of None \<Rightarrow> [] | Some p \<Rightarrow> pl_cc p)\<rparr>)"

text \<open>Committing a changed row with the attempt it records.\<close>

definition commit_row :: "outbox_db \<Rightarrow> outbox_row \<Rightarrow> delivery \<Rightarrow> outbox_db res" where
  "commit_row ob r d =
     (if key_taken (ob_rows ob) r then Inl IntegrityError
      else Inr (ob\<lparr>ob_rows := row_upd nt_id (nt_id r) (\<lambda>_. r) (ob_rows ob), ob_deliveries := ob_deliveries ob @ [d]\<rparr>))"

definition add_delivery :: "outbox_row \<Rightarrow> bool \<Rightarrow> string option \<Rightarrow> string option \<Rightarrow> string option \<Rightarrow> delivery" where
  "add_delivery r ok driver mid err =
     \<lparr>dv_notification = nt_id r, dv_attempt = nt_attempts r, dv_sent = ok, dv_driver = driver, dv_message_id = mid, dv_error = err\<rparr>"

definition addressees :: "outbox_row \<Rightarrow> string list" where
  "addressees r = (case nt_email r of Some e \<Rightarrow> if e = [] then [] else [e] | None \<Rightarrow> [])"

definition committed :: "outbox_db \<Rightarrow> outbox_row \<Rightarrow> delivery \<Rightarrow> 'a res \<Rightarrow> 'a res \<times> outbox_db" where
  "committed ob r d out = (case commit_row ob r d of Inl x \<Rightarrow> (Inl x, ob) | Inr ob' \<Rightarrow> (out, ob'))"

definition dispatch_outbox_row ::
  "(email_message \<Rightarrow> string + send_result) \<Rightarrow> outbox_db \<Rightarrow> int \<Rightarrow> bool \<Rightarrow> instant \<Rightarrow> send_result res \<times> outbox_db" where
  "dispatch_outbox_row send ob k locked now =
     (case (if locked then None else row_get nt_id (ob_rows ob) k) of
        None \<Rightarrow> (Inr \<lparr>sr_driver = ''none'', sr_sent = False, sr_recipients = [], sr_message_id = None\<rparr>, ob)
      | Some r \<Rightarrow>
          if nt_status r = Sent
          then (Inr \<lparr>sr_driver = (if truthy (nt_driver r) then the (nt_driver r) else ''none''), sr_sent = True,
                     sr_recipients = addressees r, sr_message_id = nt_message_id r\<rparr>, ob)
          else if nt_status r = Suppressed
          then (Inr \<lparr>sr_driver = ''suppressed'', sr_sent = False, sr_recipients = addressees r, sr_message_id = None\<rparr>, ob)
          else
            (let r1 = r\<lparr>nt_status := Sending, nt_attempts := nt_attempts r + 1\<rparr> in
             if nt_channel r = In_App
             then committed ob (r1\<lparr>nt_status := Sent, nt_sent_at := Some now, nt_driver := Some ''in_app''\<rparr>)
                    (add_delivery r1 True (Some ''in_app'') None None)
                    (Inr \<lparr>sr_driver = ''in_app'', sr_sent = True, sr_recipients = addressees r, sr_message_id = None\<rparr>)
             else (case message_from_row r1 of
                Inl x \<Rightarrow> (Inl x, ob)
              | Inr m \<Rightarrow>
                  (case send m of
                     Inl err \<Rightarrow> committed ob (r1\<lparr>nt_status := Failed, nt_error := Some (take 2000 err)\<rparr>)
                                 (add_delivery r1 False None None (Some err)) (Inl email_error)
                   | Inr res \<Rightarrow> committed ob (r1\<lparr>nt_status := Sent, nt_sent_at := Some now, nt_driver := Some (sr_driver res),
                                               nt_message_id := sr_message_id res\<rparr>)
                                 (add_delivery r1 True (Some (sr_driver res)) (sr_message_id res) None) (Inr res)))))"

definition mark_dead :: "outbox_db \<Rightarrow> int \<Rightarrow> string \<Rightarrow> outbox_db res" where
  "mark_dead ob k err =
     (case row_get nt_id (ob_rows ob) k of
        None \<Rightarrow> Inr ob
      | Some r \<Rightarrow> commit_row ob (r\<lparr>nt_status := Dead, nt_error := Some (take 2000 err)\<rparr>) (add_delivery r False None None (Some err)))"

section \<open>The outbox as a state machine\<close>

text \<open>
  The table and three counters the database does not keep: how many mails of a row the transport accepted,
  how many of those acceptances were never committed, and how often the row was dead-lettered.
\<close>

record outbox_world =
  ow_db :: outbox_db
  ow_mails :: "int \<Rightarrow> nat"
  ow_lost :: "int \<Rightarrow> nat"
  ow_deaths :: "int \<Rightarrow> nat"

definition bump :: "bool \<Rightarrow> int \<Rightarrow> (int \<Rightarrow> nat) \<Rightarrow> int \<Rightarrow> nat" where
  "bump b k f = (if b then f(k := Suc (f k)) else f)"

text \<open>Whether a dispatch hands a mail to the transport and the transport takes it.\<close>

definition mailed :: "(email_message \<Rightarrow> string + send_result) \<Rightarrow> outbox_db \<Rightarrow> int \<Rightarrow> bool \<Rightarrow> bool" where
  "mailed send ob k locked =
     (case (if locked then None else row_get nt_id (ob_rows ob) k) of
        None \<Rightarrow> False
      | Some r \<Rightarrow> nt_status r \<notin> {Sent, Suppressed} \<and> nt_channel r = Email \<and>
          (case message_from_row (r\<lparr>nt_status := Sending, nt_attempts := nt_attempts r + 1\<rparr>) of Inl x \<Rightarrow> False | Inr m \<Rightarrow> is_ok (send m)))"

text \<open>
  Any interleaving of persisting, handing over to the worker, dispatching any row (by any number of workers, with
  any outcome of the transport), dead-lettering any row, and workers that die before their transaction commits.
\<close>

inductive outbox_step :: "outbox_world \<Rightarrow> outbox_world \<Rightarrow> bool" where
  ob_persist: "persist_notification m us ss (ow_db w) n = Inr (k, ob') \<Longrightarrow> outbox_step w (w\<lparr>ow_db := ob'\<rparr>)"
| ob_hand_over: "outbox_step w (w\<lparr>ow_db := dispatch_on_commit (ow_db w) k\<rparr>)"
| ob_drain: "drain_pending (ow_db w) = (ks, ob') \<Longrightarrow> outbox_step w (w\<lparr>ow_db := ob'\<rparr>)"
| ob_dispatch: "dispatch_outbox_row send (ow_db w) k locked now = (out, ob') \<Longrightarrow>
    outbox_step w (w\<lparr>ow_db := ob', ow_mails := bump (mailed send (ow_db w) k locked) k (ow_mails w),
      ow_lost := bump (mailed send (ow_db w) k locked \<and> \<not> is_ok out) k (ow_lost w)\<rparr>)"
| ob_crash: "dispatch_outbox_row send (ow_db w) k locked now = (out, ob') \<Longrightarrow>
    outbox_step w (w\<lparr>ow_mails := bump (mailed send (ow_db w) k locked) k (ow_mails w), ow_lost := bump (mailed send (ow_db w) k locked) k (ow_lost w)\<rparr>)"
| ob_dead: "mark_dead (ow_db w) k err = Inr ob' \<Longrightarrow> outbox_step w (w\<lparr>ow_db := ob', ow_deaths := bump True k (ow_deaths w)\<rparr>)"

definition ob_init :: "outbox_world \<Rightarrow> bool" where
  "ob_init w \<longleftrightarrow> ob_rows (ow_db w) = [] \<and> ob_deliveries (ow_db w) = [] \<and> ob_seq (ow_db w) \<ge> 0 \<and>
     ow_mails w = (\<lambda>_. 0) \<and> ow_lost w = (\<lambda>_. 0) \<and> ow_deaths w = (\<lambda>_. 0)"

text \<open>How often a row was recorded as sent, and how often that was tried.\<close>

definition sends :: "outbox_db \<Rightarrow> int \<Rightarrow> nat" where
  "sends ob k = length (filter (\<lambda>d. dv_notification d = k \<and> dv_sent d) (ob_deliveries ob))"

definition tries :: "outbox_db \<Rightarrow> int \<Rightarrow> nat" where
  "tries ob k = length (filter (\<lambda>d. dv_notification d = k) (ob_deliveries ob))"

definition one_live_key :: "outbox_row list \<Rightarrow> bool" where
  "one_live_key rows \<longleftrightarrow> (\<forall>r \<in> set rows. \<not> key_taken rows r)"

text \<open>Every record of a send beyond the one the row shows was followed by a dead-lettering.\<close>

definition row_inv :: "outbox_db \<Rightarrow> (int \<Rightarrow> nat) \<Rightarrow> outbox_row \<Rightarrow> bool" where
  "row_inv ob deaths r \<longleftrightarrow> nt_id r \<le> ob_seq ob \<and> nt_status r \<noteq> Sending \<and>
     (if nt_status r = Sent then 1 else 0) \<le> sends ob (nt_id r) \<and>
     sends ob (nt_id r) \<le> (if nt_status r = Sent then 1 else 0) + deaths (nt_id r) \<and>
     (nt_status r = Dead \<longrightarrow> deaths (nt_id r) > 0) \<and>
     (nt_status r = Suppressed \<or> nt_status r = Queued \<longrightarrow> tries ob (nt_id r) = 0)"

definition rows_inv :: "outbox_db \<Rightarrow> (int \<Rightarrow> nat) \<Rightarrow> bool" where
  "rows_inv ob deaths \<longleftrightarrow> distinct (map nt_id (ob_rows ob)) \<and> (\<forall>d \<in> set (ob_deliveries ob). dv_notification d \<le> ob_seq ob) \<and>
     one_live_key (ob_rows ob) \<and> (\<forall>r \<in> set (ob_rows ob). row_inv ob deaths r)"

definition ob_inv :: "outbox_world \<Rightarrow> bool" where
  "ob_inv w \<longleftrightarrow> rows_inv (ow_db w) (ow_deaths w) \<and> (\<forall>k. ow_mails w k \<le> sends (ow_db w) k + ow_lost w k)"

lemma pending_inv: "rows_inv (ob\<lparr>ob_pending := ks\<rparr>) deaths = rows_inv ob deaths" "sends (ob\<lparr>ob_pending := ks\<rparr>) = sends ob"
  by (simp_all add: rows_inv_def row_inv_def sends_def tries_def fun_eq_iff)

lemma one_live_key_snoc:
  assumes "one_live_key rows" "\<not> key_taken rows r" "nt_id r \<notin> set (map nt_id rows)"
  shows "one_live_key (rows @ [r])"
  using assms unfolding one_live_key_def key_taken_def by fastforce

lemma persist_inv:
  assumes inv: "rows_inv ob deaths" and run: "persist_notification m us ss ob n = Inr (k, ob')"
  shows "rows_inv ob' deaths" "sends ob' = sends ob"
proof -
  define row where "row = new_row (ob_seq ob + 1) m (resolve_recipient us ss (ob_prefs ob) n) n"
  define existing where "existing = (if truthy (meta_str (nf_meta n) ''dedup_key'') then live_row ob (the (meta_str (nf_meta n) ''dedup_key'')) else None)"
  have run': "(case existing of Some r \<Rightarrow> Inr (nt_id r, ob)
      | None \<Rightarrow> if key_taken (ob_rows ob) row then Inl IntegrityError
          else Inr (nt_id row, ob\<lparr>ob_rows := ob_rows ob @ [row], ob_seq := ob_seq ob + 1\<rparr>)) = Inr (k, ob')"
    using run unfolding persist_notification_def Let_def row_def existing_def .
  consider "ob' = ob" | "\<not> key_taken (ob_rows ob) row" "ob' = ob\<lparr>ob_rows := ob_rows ob @ [row], ob_seq := ob_seq ob + 1\<rparr>"
  proof (cases existing)
    case None
    then show thesis using run' that(2) by (simp split: if_splits)
  next
    case (Some r)
    then show thesis using run' that(1) by simp
  qed
  then have "rows_inv ob' deaths \<and> sends ob' = sends ob"
  proof cases
    case 2
    have row: "nt_id row = ob_seq ob + 1" "nt_status row \<in> {Queued, Suppressed}"
      by (simp_all add: row_def new_row_def resolve_recipient_def Let_def)
    have fresh: "nt_id r \<noteq> nt_id row" if "r \<in> set (ob_rows ob)" for r
      using inv that row(1) by (force simp: rows_inv_def row_inv_def)
    have none: "tries ob' (nt_id row) = 0" "sends ob' (nt_id row) = 0"
      using inv row(1) 2(2) by (force simp: rows_inv_def tries_def sends_def filter_empty_conv)+
    have "row_inv ob' deaths r" if "r \<in> set (ob_rows ob')" for r
      using that inv 2(2) row none by (auto simp: rows_inv_def row_inv_def tries_def sends_def)
    moreover have nin: "nt_id row \<notin> set (map nt_id (ob_rows ob))" using fresh by force
    then have "one_live_key (ob_rows ob')"
      using one_live_key_snoc [OF _ 2(1)] inv 2(2) by (simp add: rows_inv_def)
    ultimately show ?thesis using inv nin 2(2) by (auto simp: rows_inv_def sends_def fun_eq_iff intro: order_trans)
  qed (use inv in simp)
  then show "rows_inv ob' deaths" "sends ob' = sends ob" by simp_all
qed

text \<open>A committed attempt on a row, or its dead-lettering.\<close>

lemma commit_inv:
  assumes inv: "rows_inv ob deaths" and r: "row_get nt_id (ob_rows ob) (nt_id r') = Some r" and run: "commit_row ob r' d = Inr ob'"
    and d: "dv_notification d = nt_id r'" and st: "nt_status r \<noteq> Sent \<or> nt_status r' = Dead" "nt_status r' \<in> {Sent, Failed, Dead}"
    and sent: "dv_sent d \<longleftrightarrow> nt_status r' = Sent"
  shows "rows_inv ob' (bump (nt_status r' = Dead) (nt_id r') deaths)" "sends ob' k = sends ob k + (if k = nt_id r' \<and> dv_sent d then 1 else 0)"
proof -
  let ?deaths = "bump (nt_status r' = Dead) (nt_id r') deaths"
  have ob': "ob' = ob\<lparr>ob_rows := row_upd nt_id (nt_id r') (\<lambda>_. r') (ob_rows ob), ob_deliveries := ob_deliveries ob @ [d]\<rparr>"
    and free: "\<not> key_taken (ob_rows ob) r'"
    using run by (auto simp: commit_row_def split: if_splits)
  have mem: "x = r' \<or> x \<in> set (ob_rows ob) \<and> nt_id x \<noteq> nt_id r'" if "x \<in> set (ob_rows ob')" for x
    using that by (auto simp: ob' set_row_upd)
  have rr: "r \<in> set (ob_rows ob)" "nt_id r = nt_id r'" using r by auto
  have counts: "sends ob' k = sends ob k + (if k = nt_id r' \<and> dv_sent d then 1 else 0)"
    "tries ob' k = tries ob k + (if k = nt_id r' then 1 else 0)" for k
    by (auto simp: ob' sends_def tries_def d)
  show "sends ob' k = sends ob k + (if k = nt_id r' \<and> dv_sent d then 1 else 0)" by (rule counts)
  have old: "row_inv ob deaths r" using inv rr by (simp add: rows_inv_def)
  have "row_inv ob' ?deaths x" if "x \<in> set (ob_rows ob')" for x
    using mem [OF that]
  proof
    assume "x = r'"
    then show ?thesis using old counts [of "nt_id r'"] st sent rr(2) by (auto simp: row_inv_def ob' bump_def split: if_splits)
  next
    assume "x \<in> set (ob_rows ob) \<and> nt_id x \<noteq> nt_id r'"
    moreover from this have "row_inv ob deaths x" using inv by (simp add: rows_inv_def)
    ultimately show ?thesis using counts [of "nt_id x"] by (simp add: row_inv_def ob' bump_def)
  qed
  moreover have "one_live_key (ob_rows ob')"
    unfolding one_live_key_def
  proof
    fix x assume x: "x \<in> set (ob_rows ob')"
    show "\<not> key_taken (ob_rows ob') x"
    proof
      assume "key_taken (ob_rows ob') x"
      then obtain y where y: "y \<in> set (ob_rows ob')" "nt_id y \<noteq> nt_id x" "nt_key y = nt_key x" "nt_status y \<noteq> Dead"
        "nt_key x \<noteq> None" "nt_status x \<noteq> Dead" unfolding key_taken_def by blast
      from mem [OF x] mem [OF y(1)] y(2) consider "x = r'" "y \<in> set (ob_rows ob)" | "y = r'" "x \<in> set (ob_rows ob)"
        | "x \<in> set (ob_rows ob)" "y \<in> set (ob_rows ob)" by blast
      then show False
      proof cases
        case 3
        then show False using inv y unfolding rows_inv_def one_live_key_def key_taken_def by metis
      qed (use free y in \<open>auto simp: key_taken_def\<close>)
    qed
  qed
  moreover have "dv_notification d \<le> ob_seq ob" using old rr(2) d by (simp add: row_inv_def)
  ultimately show "rows_inv ob' ?deaths" using inv by (auto simp: rows_inv_def ob')
qed

text \<open>A dispatch records the mails it sends, unless its commit is refused.\<close>

lemma dispatch_inv:
  assumes inv: "rows_inv ob deaths" and run: "dispatch_outbox_row send ob k locked now = (out, ob')"
  shows "rows_inv ob' deaths" "sends ob' j \<ge> sends ob j + (if j = k \<and> mailed send ob k locked \<and> is_ok out then 1 else 0)"
proof -
  have keep: "rows_inv (snd (committed ob r' d (res :: send_result res))) deaths \<and>
      sends (snd (committed ob r' d res)) j \<ge> sends ob j + (if j = nt_id r' \<and> dv_sent d \<and> is_ok (fst (committed ob r' d res)) then 1 else 0)"
    if "row_get nt_id (ob_rows ob) (nt_id r') = Some r" "dv_notification d = nt_id r'" "nt_status r \<noteq> Sent"
      "nt_status r' \<in> {Sent, Failed}" "dv_sent d \<longleftrightarrow> nt_status r' = Sent" for r r' d res
  proof (cases "commit_row ob r' d")
    case (Inr ob1)
    have "rows_inv ob1 (bump (nt_status r' = Dead) (nt_id r') deaths)" "sends ob1 j = sends ob j + (if j = nt_id r' \<and> dv_sent d then 1 else 0)"
      using commit_inv [OF inv that(1) Inr that(2)] that(3-5) by auto
    then show ?thesis using Inr that(4) by (auto simp: committed_def bump_def)
  qed (use inv in \<open>simp add: committed_def\<close>)
  have "rows_inv (snd (dispatch_outbox_row send ob k locked now)) deaths \<and> sends (snd (dispatch_outbox_row send ob k locked now)) j \<ge>
      sends ob j + (if j = k \<and> mailed send ob k locked \<and> is_ok (fst (dispatch_outbox_row send ob k locked now)) then 1 else 0)"
  proof (cases "locked \<or> row_get nt_id (ob_rows ob) k = None")
    case True
    then show ?thesis using inv by (auto simp: dispatch_outbox_row_def mailed_def)
  next
    case False
    then obtain r where r: "row_get nt_id (ob_rows ob) k = Some r" "\<not> locked" by auto
    then have id: "nt_id r = k" by auto
    show ?thesis
    proof (cases "nt_status r \<in> {Sent, Suppressed}")
      case True
      then show ?thesis using r inv by (auto simp: dispatch_outbox_row_def mailed_def)
    next
      case idle: False
      let ?r1 = "r\<lparr>nt_status := Sending, nt_attempts := nt_attempts r + 1\<rparr>"
      have at: "row_get nt_id (ob_rows ob) (nt_id (?r1\<lparr>nt_status := s, nt_sent_at := a, nt_driver := d, nt_message_id := m, nt_error := e\<rparr>)) = Some r" for s a d m e
        using r(1) id by simp
      show ?thesis
      proof (cases "nt_channel r = In_App")
        case True
        then show ?thesis using r idle id keep [of "?r1\<lparr>nt_status := Sent, nt_sent_at := Some now, nt_driver := Some ''in_app''\<rparr>" r
              "add_delivery ?r1 True (Some ''in_app'') None None"]
          by (auto simp: dispatch_outbox_row_def mailed_def add_delivery_def split: if_splits dest: add_leD1 Suc_leD)
      next
        case mail: False
        then have ch: "nt_channel r = Email" by (cases "nt_channel r") simp_all
        show ?thesis
        proof (cases "message_from_row ?r1")
          case (Inl x)
          then show ?thesis using r idle inv ch by (simp add: dispatch_outbox_row_def mailed_def)
        next
          case m: (Inr m)
          show ?thesis
          proof (cases "send m")
            case (Inl err)
            then show ?thesis using r idle id m ch keep [of "?r1\<lparr>nt_status := Failed, nt_error := Some (take 2000 err)\<rparr>" r]
              by (simp add: dispatch_outbox_row_def mailed_def add_delivery_def)
          next
            case (Inr res)
            then show ?thesis using r idle id m ch
                keep [of "?r1\<lparr>nt_status := Sent, nt_sent_at := Some now, nt_driver := Some (sr_driver res), nt_message_id := sr_message_id res\<rparr>" r]
              by (simp add: dispatch_outbox_row_def mailed_def add_delivery_def)
          qed
        qed
      qed
    qed
  qed
  then show "rows_inv ob' deaths" "sends ob' j \<ge> sends ob j + (if j = k \<and> mailed send ob k locked \<and> is_ok out then 1 else 0)" by (simp_all add: run)
qed

lemma dead_inv:
  assumes inv: "rows_inv ob deaths" and run: "mark_dead ob k err = Inr ob'"
  shows "rows_inv ob' (bump True k deaths)" "sends ob' = sends ob"
proof -
  have "rows_inv ob' (bump True k deaths) \<and> sends ob' = sends ob"
  proof (cases "row_get nt_id (ob_rows ob) k")
    case None
    then have "nt_id r \<noteq> k" if "r \<in> set (ob_rows ob)" for r using that by (auto simp: row_get_None)
    then show ?thesis using None run inv by (auto simp: mark_dead_def rows_inv_def row_inv_def bump_def)
  next
    case (Some r)
    then have "nt_id r = k" by auto
    then show ?thesis
      using commit_inv [OF inv, of "r\<lparr>nt_status := Dead, nt_error := Some (take 2000 err)\<rparr>" r] Some run
      by (simp add: mark_dead_def add_delivery_def fun_eq_iff)
  qed
  then show "rows_inv ob' (bump True k deaths)" "sends ob' = sends ob" by simp_all
qed

interpretation outbox_sys: invariant_system ob_init outbox_step ob_inv
proof
  show "ob_init s \<Longrightarrow> ob_inv s" for s by (simp add: ob_init_def ob_inv_def rows_inv_def one_live_key_def)
next
  fix s t assume inv: "ob_inv s" and "outbox_step s t"
  then have rows: "rows_inv (ow_db s) (ow_deaths s)" and mails: "\<And>k. ow_mails s k \<le> sends (ow_db s) k + ow_lost s k" by (simp_all add: ob_inv_def)
  from \<open>outbox_step s t\<close> show "ob_inv t"
  proof cases
    case (ob_persist m us ss n k ob')
    then show ?thesis using persist_inv [OF rows] mails by (simp add: ob_inv_def)
  next
    case (ob_dispatch send k locked now out ob')
    have "(ow_mails t) j \<le> sends ob' j + (ow_lost t) j" for j
      using dispatch_inv(2) [OF rows ob_dispatch(2), of j] mails [of j] unfolding ob_dispatch(1) by (auto simp: bump_def split: if_splits)
    then show ?thesis using dispatch_inv(1) [OF rows ob_dispatch(2)] by (simp add: ob_inv_def ob_dispatch(1))
  next
    case (ob_crash send k locked now out ob')
    then show ?thesis using rows mails by (auto simp: ob_inv_def bump_def le_SucI)
  next
    case (ob_dead k err ob')
    then show ?thesis using dead_inv [OF rows] mails by (simp add: ob_inv_def)
  qed (use rows mails in \<open>auto simp: ob_inv_def dispatch_on_commit_def drain_pending_def pending_inv\<close>)
qed

section \<open>Properties\<close>

definition sample_note :: notification where
  "sample_note = \<lparr>nf_channel = Email, nf_email = Some \<lparr>em_to = [''a''], em_subject = ''s'', em_text = ''t'', em_html = None,
     em_sender = None, em_cc = []\<rparr>, nf_meta = [(''dedup_key'', JStr ''k'')]\<rparr>"

definition sample_sent :: "email_message \<Rightarrow> string + send_result" where
  "sample_sent m = Inr \<lparr>sr_driver = ''smtp'', sr_sent = True, sr_recipients = em_to m, sr_message_id = Some ''1''\<rparr>"

definition sample_down :: "email_message \<Rightarrow> string + send_result" where
  "sample_down m = Inl ''connection refused''"

definition sample_outbox :: outbox_db where
  "sample_outbox = snd (projr (persist_notification 5 [] [] empty_outbox sample_note))"

definition sample_tried :: outbox_db where
  "sample_tried = snd (dispatch_outbox_row sample_down sample_outbox 1 False 100)"

definition sample_delivered :: outbox_db where
  "sample_delivered = snd (dispatch_outbox_row sample_sent sample_tried 1 False 200)"

definition sample_world :: outbox_world where
  "sample_world = \<lparr>ow_db = sample_delivered, ow_mails = (\<lambda>_. 0)(1 := 1), ow_lost = (\<lambda>_. 0), ow_deaths = (\<lambda>_. 0)\<rparr>"

lemma sample_outbox_reach: "reach ob_init outbox_step sample_world"
proof -
  define w0 where "w0 = \<lparr>ow_db = empty_outbox, ow_mails = (\<lambda>_. 0), ow_lost = (\<lambda>_. 0), ow_deaths = (\<lambda>_. 0)\<rparr>"
  define w1 where "w1 = w0\<lparr>ow_db := sample_outbox\<rparr>"
  define w2 where "w2 = w0\<lparr>ow_db := sample_tried\<rparr>"
  have f: "is_ok (persist_notification 5 [] [] empty_outbox sample_note)" "\<not> mailed sample_down sample_outbox 1 False"
    "mailed sample_sent sample_tried 1 False" "is_ok (fst (dispatch_outbox_row sample_sent sample_tried 1 False 200))" by code_simp+
  have r0: "reach ob_init outbox_step w0" by (rule reach_init) (simp add: ob_init_def empty_outbox_def w0_def)
  from f(1) obtain k where p: "persist_notification 5 [] [] (ow_db w0) sample_note = Inr (k, sample_outbox)" by (auto simp: is_ok_iff sample_outbox_def w0_def)
  have "outbox_step w0 w1" using ob_persist [OF p] by (simp add: w1_def)
  moreover obtain o1 where d1: "dispatch_outbox_row sample_down (ow_db w1) 1 False 100 = (o1, sample_tried)"
    by (simp add: sample_tried_def prod_eq_iff w1_def)
  have "outbox_step w1 w2" using ob_dispatch [OF d1] f(2) by (simp add: bump_def w2_def w1_def w0_def)
  moreover obtain o2 where d2: "dispatch_outbox_row sample_sent (ow_db w2) 1 False 200 = (o2, sample_delivered)"
    by (simp add: sample_delivered_def prod_eq_iff w2_def)
  have "outbox_step w2 sample_world" using ob_dispatch [OF d2] f(3,4) d2 by (simp add: bump_def sample_world_def w2_def w0_def)
  ultimately show ?thesis using r0 by (meson reach_step)
qed

lemma live_key_row:
  assumes "ob_inv w" "r \<in> set (ob_rows (ow_db w))" "s \<in> set (ob_rows (ow_db w))" "nt_key s = nt_key r" "nt_key r \<noteq> None" "nt_status r \<noteq> Dead" "nt_status s \<noteq> Dead"
  shows "s = r"
proof -
  have "\<not> key_taken (ob_rows (ow_db w)) r" using assms by (simp add: ob_inv_def rows_inv_def one_live_key_def)
  then have "nt_id s = nt_id r" using assms by (auto simp: key_taken_def)
  then show ?thesis using assms by (auto simp: ob_inv_def rows_inv_def distinct_map dest: inj_onD)
qed

text \<open>
  C15. Whatever workers run, die or give a row up, and however the transport fails: the transport accepts at most one mail of a
  notification, plus one for every acceptance that was not committed and one for every time the row was dead-lettered. A row that says sent was
  sent; as long as it was never dead-lettered it was recorded as sent exactly once if it says sent and never otherwise;
  a suppressed row was never tried; and at most one row that is not dead carries a deduplication key, so
  repeating the business call sends nothing new.
\<close>

theorem notification_delivered_once:
  assumes "reach ob_init outbox_step w" "r \<in> set (ob_rows (ow_db w))"
  shows "ow_mails w (nt_id r) \<le> 1 + ow_lost w (nt_id r) + ow_deaths w (nt_id r) \<and>
    (nt_status r = Sent \<longrightarrow> sends (ow_db w) (nt_id r) \<ge> 1) \<and>
    (ow_deaths w (nt_id r) = 0 \<longrightarrow> sends (ow_db w) (nt_id r) = (if nt_status r = Sent then 1 else 0)) \<and>
    (nt_status r = Suppressed \<longrightarrow> tries (ow_db w) (nt_id r) = 0) \<and>
    (\<forall>s \<in> set (ob_rows (ow_db w)). nt_key s = nt_key r \<and> nt_key r \<noteq> None \<and> nt_status r \<noteq> Dead \<and> nt_status s \<noteq> Dead \<longrightarrow> s = r)"
proof -
  have inv: "ob_inv w" using outbox_sys.reach_inv [OF assms(1)] .
  then have "row_inv (ow_db w) (ow_deaths w) r" "ow_mails w (nt_id r) \<le> sends (ow_db w) (nt_id r) + ow_lost w (nt_id r)"
    using assms(2) by (auto simp: ob_inv_def rows_inv_def)
  then show ?thesis using live_key_row [OF inv assms(2)] by (auto simp: row_inv_def split: if_splits)
qed

theorem notification_delivered_once_witness:
  "map nt_status (ob_rows (ow_db sample_world)) = [Sent] \<and> sends (ow_db sample_world) (nt_id (hd (ob_rows (ow_db sample_world)))) = 1"
proof -
  have st: "map nt_status (ob_rows (ow_db sample_world)) = [Sent]" by code_simp
  then have "hd (ob_rows (ow_db sample_world)) \<in> set (ob_rows (ow_db sample_world))" "nt_status (hd (ob_rows (ow_db sample_world))) = Sent"
    by (auto simp: map_eq_Cons_conv)
  then show ?thesis using notification_delivered_once [OF sample_outbox_reach] st by (simp add: sample_world_def)
qed

text \<open>
  The dead-letter state is documented as terminal, but a dispatch does not look for it: a row that was
  given up and is delivered to a worker again is sent.
\<close>

theorem dead_letter_resurrected:
  "\<exists>ob. mark_dead sample_tried 1 ''gave up'' = Inr ob \<and> map nt_status (ob_rows ob) = [Dead] \<and>
     map nt_status (ob_rows (snd (dispatch_outbox_row sample_sent ob 1 False 300))) = [Sent]"
proof -
  have "is_ok (mark_dead sample_tried 1 ''gave up'')" by code_simp
  then obtain ob where ob: "mark_dead sample_tried 1 ''gave up'' = Inr ob" by (auto simp: is_ok_iff)
  have "map nt_status (ob_rows (projr (mark_dead sample_tried 1 ''gave up''))) = [Dead]"
    "map nt_status (ob_rows (snd (dispatch_outbox_row sample_sent (projr (mark_dead sample_tried 1 ''gave up'')) 1 False 300))) = [Sent]"
    by code_simp+
  then show ?thesis using ob by auto
qed

text \<open>
  Nor does dead-lettering look at the status: a worker whose attempt failed gives the row up after another one sent it,
  and a dispatch of that row sends it a second time.
\<close>

theorem dead_lettering_resends:
  "\<exists>ob. mark_dead sample_delivered 1 ''gave up'' = Inr ob \<and> sends (snd (dispatch_outbox_row sample_sent ob 1 False 300)) 1 = 2"
proof -
  have "is_ok (mark_dead sample_delivered 1 ''gave up'')" by code_simp
  then obtain ob where ob: "mark_dead sample_delivered 1 ''gave up'' = Inr ob" by (auto simp: is_ok_iff)
  have "sends (snd (dispatch_outbox_row sample_sent (projr (mark_dead sample_delivered 1 ''gave up'')) 1 False 300)) 1 = 2" by code_simp
  then show ?thesis using ob by auto
qed

text \<open>
  Nobody can mute a security or transactional notification: its row is suppressed only when it is a mail
  and no address is known.
\<close>

theorem mandatory_not_muted:
  assumes "meta_str (nf_meta n) ''notification_class'' = Some cls" "cls \<in> PREFS_BYPASS_CLASSES"
  shows "rv_status (resolve_recipient us ss prefs n) = Suppressed \<longleftrightarrow>
    nf_channel n = Email \<and> recipient_email us ss n = None \<and> meta_int (nf_meta n) ''recipient_user_id'' \<noteq> None"
  using assms by (auto simp: resolve_recipient_def Let_def)

definition muted_note :: "string \<Rightarrow> notification" where
  "muted_note cls = \<lparr>nf_channel = In_App, nf_email = None,
     nf_meta = [(''recipient_user_id'', JInt 7), (''notification_class'', JStr cls)]\<rparr>"

definition muting :: "preference list" where
  "muting = [\<lparr>pr_user = 7, pr_channel = In_App, pr_module = None, pr_enabled = False\<rparr>]"

definition muting_user :: user where
  "muting_user = \<lparr>user_id = 7, user_is_active = True, user_staff = None, user_email = ''a''\<rparr>"

theorem mandatory_not_muted_witness:
  "rv_status (resolve_recipient [muting_user] [] muting (muted_note ''transactional'')) \<noteq> Suppressed \<and>
     rv_status (resolve_recipient [muting_user] [] muting (muted_note ''operational'')) = Suppressed"
proof -
  have "meta_str (nf_meta (muted_note ''transactional'')) ''notification_class'' = Some ''transactional''"
    "''transactional'' \<in> PREFS_BYPASS_CLASSES" "nf_channel (muted_note ''transactional'') \<noteq> Email"
    "rv_status (resolve_recipient [muting_user] [] muting (muted_note ''operational'')) = Suppressed"
    by code_simp+
  then show ?thesis using mandatory_not_muted by metis
qed

end
