(* ===== verification/OC_Store.thy ===== *)
theory OC_Store
  imports Claim_Facts Claim_Chains Attachments Reference_Numbers Snapshots Outbox
begin

text \<open>
  The database one transaction of the reimbursement module works on: the workflow tables, the module's
  tables, the attachments with their store, the frozen copies, the reference counters, the queue of
  subjects to render once the transaction commits (\<open>core/documents/queue.py\<close>), and the notification outbox. Text of the integers
  that go into keys and paths.
\<close>

record oc_db =
  wfdb :: wf_db
  rdb :: reimb_db
  adb :: att_db
  sdb :: snap_db
  counters :: "ref_counter list"
  renders :: "(string \<times> int) list"
  outbox :: outbox_db

definition generate_on_commit :: "oc_db \<Rightarrow> string \<Rightarrow> int \<Rightarrow> oc_db" where
  "generate_on_commit db kind subject =
     (if (kind, subject) \<in> set (renders db) then db else db\<lparr>renders := renders db @ [(kind, subject)]\<rparr>)"

text \<open>\<open>str(n)\<close>.\<close>

definition int_str :: "int \<Rightarrow> string" where
  "int_str n = (if n < 0 then CHR ''-'' # nat_digits (nat (- n)) else nat_digits (nat n))"

lemma nat_digits_inj: "nat_digits m = nat_digits n \<Longrightarrow> m = n"
  using nat_digits_val by metis

lemma int_str_no_colon: "CHR '':'' \<notin> set (int_str n)"
  using nat_digits_all [of "nat n"] nat_digits_all [of "nat (- n)"]
  by (auto simp: int_str_def list_all_iff is_digit_def digit_val_def)

lemma nat_digits_no_minus: "CHR ''-'' \<notin> set (nat_digits n)"
  using nat_digits_all [of n] by (auto simp: list_all_iff is_digit_def digit_val_def)

lemma int_str_inj: "int_str m = int_str n \<longleftrightarrow> m = n"
proof
  assume eq: "int_str m = int_str n"
  have sign: "k < 0 \<longleftrightarrow> CHR ''-'' \<in> set (int_str k)" for k by (simp add: int_str_def nat_digits_no_minus)
  then have "m < 0 \<longleftrightarrow> n < 0" using eq by simp
  then consider "m < 0" "n < 0" | "\<not> m < 0" "\<not> n < 0" by blast
  then show "m = n"
  proof cases
    case 1
    then have "nat (- m) = nat (- n)" using eq by (intro nat_digits_inj) (simp add: int_str_def)
    then show ?thesis using 1 by simp
  next
    case 2
    then have "nat m = nat n" using eq by (intro nat_digits_inj) (simp add: int_str_def)
    then show ?thesis using 2 by simp
  qed
qed simp

end
