(* ===== verification/Claim_Checklist.thy ===== *)
theory Claim_Checklist
  imports OC_Store
begin

text \<open>
  The claim's documentary packet: \<open>services/checklist.py\<close> (loading, materializing, evidence, the two
  gates) and the module's seam onto the attachment service, \<open>services/attachments.py\<close>. The items table
  holds the dormant rows too; the join table and the catalog their live rows. A call reads the clock
  once. The hash and the size limit of uploads are parameters, as in the attachment service. The table
  of items has a unique index over the live rows of a claim and catalog row; \<open>items_unique\<close> below is
  stronger and every operation keeps it, so the index never fires in calls that run one after the other.
\<close>

section \<open>Evidence, \<open>services/attachments.py\<close>\<close>

definition HOLDER_KIND :: string where "HOLDER_KIND = ''reimb_claim''"

definition RETENTION_CLASS :: string where "RETENTION_CLASS = ''financial_dv_10y''"

definition store_file ::
  "(string \<Rightarrow> string) \<Rightarrow> nat \<Rightarrow> oc_db \<Rightarrow> int \<Rightarrow> int option \<Rightarrow> string \<Rightarrow> string \<Rightarrow> bool \<Rightarrow> ((claim_attachment \<times> int) \<times> oc_db) res" where
  "store_file hash max_bytes db k item data filename generated =
     rbind (upload_attachment hash max_bytes (adb db)
       \<lparr>rq_data = data, rq_filename = filename, rq_holder_kind = Some HOLDER_KIND, rq_holder = Some k,
        rq_class = RETENTION_CLASS, rq_starts = None, rq_generated = generated\<rparr>) (\<lambda>(row, a).
       let j = \<lparr>ja_id = ja_seq (rdb db) + 1, ja_claim = k, ja_attachment = at_id row, ja_item = item\<rparr> in
       Inr ((j, at_id row),
         db\<lparr>adb := a, rdb := (rdb db)\<lparr>joins := joins (rdb db) @ [j], ja_seq := ja_seq (rdb db) + 1\<rparr>\<rparr>))"

definition upload_claim_evidence ::
  "(string \<Rightarrow> string) \<Rightarrow> nat \<Rightarrow> oc_db \<Rightarrow> int \<Rightarrow> int \<Rightarrow> string \<Rightarrow> string \<Rightarrow> ((claim_attachment \<times> int) \<times> oc_db) res" where
  "upload_claim_evidence hash max_bytes db k item data filename =
     store_file hash max_bytes db k (Some item) data filename False"

definition store_generated_document ::
  "(string \<Rightarrow> string) \<Rightarrow> nat \<Rightarrow> oc_db \<Rightarrow> int \<Rightarrow> int option \<Rightarrow> string \<Rightarrow> string \<Rightarrow> ((claim_attachment \<times> int) \<times> oc_db) res" where
  "store_generated_document hash max_bytes db k item data filename =
     store_file hash max_bytes db k item data filename True"

definition remove_claim_evidence :: "oc_db \<Rightarrow> claim_attachment \<Rightarrow> oc_db res" where
  "remove_claim_evidence db j =
     rbind (soft_delete_attachment (adb db) (ja_attachment j)) (\<lambda>a.
       Inr (db\<lparr>adb := a, rdb := (rdb db)\<lparr>joins := filter (\<lambda>r. ja_id r \<noteq> ja_id j) (joins (rdb db))\<rparr>\<rparr>))"

definition start_retention_clock :: "oc_db \<Rightarrow> int \<Rightarrow> instant \<Rightarrow> nat \<times> oc_db" where
  "start_retention_clock db k now =
     (let (n, a) = start_retention (adb db) HOLDER_KIND k now in (n, db\<lparr>adb := a\<rparr>))"

text \<open>The join of the live join rows of a claim that name an item with their live files.\<close>

definition item_files :: "oc_db \<Rightarrow> int \<Rightarrow> (int \<times> claim_attachment \<times> attachment) list" where
  "item_files db k = List.map_filter (\<lambda>j.
     case ja_item j of
       None \<Rightarrow> None
     | Some i \<Rightarrow> (if ja_claim j = k then map_option (\<lambda>a. (i, j, a)) (live_attachment (adb db) (ja_attachment j)) else None))
     (joins (rdb db))"

definition count_file :: "scan_status \<Rightarrow> int \<times> int \<times> int \<Rightarrow> int \<times> int \<times> int" where
  "count_file scan c =
     (case c of (usable, pending, infected) \<Rightarrow>
        if scan = ScanInfected then (usable, pending, infected + 1)
        else (usable + 1, if scan = ScanPending then pending + 1 else pending, infected))"

definition counts_get :: "(int \<rightharpoonup> int \<times> int \<times> int) \<Rightarrow> int \<Rightarrow> int \<times> int \<times> int" where
  "counts_get m i = (case m i of None \<Rightarrow> (0, 0, 0) | Some c \<Rightarrow> c)"

definition evidence_counts :: "oc_db \<Rightarrow> int \<Rightarrow> (int \<rightharpoonup> int \<times> int \<times> int)" where
  "evidence_counts db k =
     fold (\<lambda>(i, j, a) m. m(i \<mapsto> count_file (at_scan a) (counts_get m i)))
       (filter (\<lambda>(i, j, a). \<not> at_generated a) (item_files db k)) Map.empty"

record file_view =
  fv_id :: int
  fv_attachment :: int
  fv_filename :: string
  fv_size :: nat
  fv_scan :: scan_status
  fv_generated :: bool
  fv_path :: "string option"

definition file_view_of :: "claim_attachment \<Rightarrow> attachment \<Rightarrow> file_view" where
  "file_view_of j a = \<lparr>fv_id = ja_id j, fv_attachment = at_id a, fv_filename = at_filename a, fv_size = at_size a,
     fv_scan = at_scan a, fv_generated = at_generated a,
     fv_path = (if at_scan a = ScanClean then Some (''/api/v1/attachments/'' @ int_str (at_id a) @ ''/content'') else None)\<rparr>"

definition claim_evidence :: "oc_db \<Rightarrow> int \<Rightarrow> int \<Rightarrow> file_view list" where
  "claim_evidence db k i =
     map (\<lambda>(_, j, a). file_view_of j a) (sort_key (\<lambda>(_, j, a). ja_id j) (filter (\<lambda>(i', _, _). i' = i) (item_files db k)))"

section \<open>Loading\<close>

definition claim_catalog :: "reimb_db \<Rightarrow> string \<Rightarrow> catalog_row list" where
  "claim_catalog db kind = filter (\<lambda>r. ct_active r \<and> (ct_kind r = None \<or> ct_kind r = Some kind)) (catalog db)"

definition spec_of :: "catalog_row \<Rightarrow> catalog_spec" where
  "spec_of r = \<lparr>cs_id = ct_id r, cs_code = ct_code r, cs_label = ct_label r, cs_group = ct_group r,
     cs_evidence = ct_evidence r, cs_rule = ct_rule r, cs_checks = ct_checks r, cs_sort = ct_sort r, cs_circular = ct_circular r\<rparr>"

text \<open>\<open>{row.catalog_id: row}\<close>: the last row of a key is the one the dict keeps.\<close>

definition item_of :: "reimb_db \<Rightarrow> int \<Rightarrow> int \<Rightarrow> item_row option" where
  "item_of db k cid = map_of (rev (map (\<lambda>r. (it_catalog r, r)) (filter (\<lambda>r. it_claim r = k) (items db)))) cid"

definition state_of :: "(int \<rightharpoonup> int \<times> int \<times> int) \<Rightarrow> item_row \<Rightarrow> item_state" where
  "state_of counts r =
     (case counts_get counts (it_id r) of (usable, pending, infected) \<Rightarrow>
        \<lparr>is_item = it_id r, is_catalog = it_catalog r, is_status = it_status r, is_count = usable,
         is_pending = pending, is_infected = infected, is_generated = (it_status r = ''generated''),
         is_waived = (it_waiver r \<noteq> None), is_dormant = (it_deleted r \<noteq> None)\<rparr>)"

definition item_states :: "oc_db \<Rightarrow> int \<Rightarrow> item_state list" where
  "item_states db k = map (state_of (evidence_counts db k)) (filter (\<lambda>r. it_claim r = k) (items (rdb db)))"

definition build_plan :: "oc_db \<Rightarrow> claim \<Rightarrow> instant \<Rightarrow> item_plan list res" where
  "build_plan db c now =
     plan_checklist (map spec_of (claim_catalog (rdb db) (cl_kind c))) (item_states db (cl_id c))
       (build_claim_facts (rdb db) c now)"

record checklist_row =
  cr_plan :: item_plan
  cr_item :: "int option"
  cr_files :: "file_view list"
  cr_waiver :: "string option"

record packet_view =
  vw_rows :: "checklist_row list"
  vw_status :: packet_status

definition view_row :: "oc_db \<Rightarrow> claim \<Rightarrow> item_plan \<Rightarrow> checklist_row" where
  "view_row db c p =
     (case item_of (rdb db) (cl_id c) (cs_id (pl_catalog p)) of
        None \<Rightarrow> \<lparr>cr_plan = p, cr_item = None, cr_files = [], cr_waiver = None\<rparr>
      | Some r \<Rightarrow> \<lparr>cr_plan = p, cr_item = Some (it_id r), cr_files = claim_evidence db (cl_id c) (it_id r), cr_waiver = it_waiver r\<rparr>)"

definition checklist_view :: "oc_db \<Rightarrow> claim \<Rightarrow> instant \<Rightarrow> packet_view res" where
  "checklist_view db c now =
     rbind (build_plan db c now) (\<lambda>plan.
       Inr \<lparr>vw_rows = map (view_row db c) plan, vw_status = packet_status BLOCKING_EVIDENCE plan\<rparr>)"

definition checklist_summary :: "oc_db \<Rightarrow> claim \<Rightarrow> instant \<Rightarrow> packet_status res" where
  "checklist_summary db c now = rbind (build_plan db c now) (\<lambda>plan. Inr (packet_status BLOCKING_EVIDENCE plan))"

section \<open>Materializing\<close>

definition put_item :: "reimb_db \<Rightarrow> item_row \<Rightarrow> reimb_db" where
  "put_item db r = db\<lparr>items := row_upd it_id (it_id r) (\<lambda>_. r) (items db)\<rparr>"

definition new_item :: "reimb_db \<Rightarrow> int \<Rightarrow> int \<Rightarrow> string \<Rightarrow> string option \<Rightarrow> item_row" where
  "new_item db k cid status circular =
     \<lparr>it_id = it_seq db + 1, it_claim = k, it_catalog = cid, it_status = status, it_circular = circular,
      it_attachments = [], it_waiver = None, it_deleted = None\<rparr>"

definition add_item :: "reimb_db \<Rightarrow> item_row \<Rightarrow> reimb_db" where
  "add_item db r = db\<lparr>items := items db @ [r], it_seq := it_seq db + 1\<rparr>"

text \<open>One turn of the loop of \<open>refresh_checklist\<close>.\<close>

definition apply_plan :: "int \<Rightarrow> instant \<Rightarrow> item_plan \<Rightarrow> reimb_db \<Rightarrow> reimb_db" where
  "apply_plan k now p db =
     (let cid = cs_id (pl_catalog p) in
      if pl_action p = Create then add_item db (new_item db k cid (pl_status p) (cs_circular (pl_catalog p)))
      else (case item_of db k cid of
              None \<Rightarrow> db
            | Some r \<Rightarrow>
                (case pl_action p of
                   MakeDormant \<Rightarrow> put_item db (r\<lparr>it_deleted := (if it_deleted r = None then Some now else it_deleted r)\<rparr>)
                 | Restore \<Rightarrow> put_item db (r\<lparr>it_deleted := None, it_status := pl_status p\<rparr>)
                 | _ \<Rightarrow> put_item db (r\<lparr>it_status := pl_status p\<rparr>))))"

definition refresh_checklist :: "oc_db \<Rightarrow> claim \<Rightarrow> instant \<Rightarrow> (packet_view \<times> oc_db) res" where
  "refresh_checklist db c now =
     rbind (build_plan db c now) (\<lambda>plan.
       let db1 = db\<lparr>rdb := fold (apply_plan (cl_id c) now) plan (rdb db)\<rparr> in
       rbind (checklist_view db1 c now) (\<lambda>view. Inr (view, db1)))"

text \<open>\<open>scalar_one_or_none\<close> over the rows of a claim and catalog row, dormant ones included.\<close>

definition only_row :: "'a list \<Rightarrow> 'a option res" where
  "only_row rows = (case rows of [] \<Rightarrow> Inr None | [r] \<Rightarrow> Inr (Some r) | _ \<Rightarrow> Inl MultipleResultsFound)"

definition live_item_for :: "reimb_db \<Rightarrow> int \<Rightarrow> catalog_row \<Rightarrow> (item_row \<times> reimb_db) res" where
  "live_item_for db k ct =
     rbind (only_row (filter (\<lambda>r. it_claim r = k \<and> it_catalog r = ct_id ct) (items db))) (\<lambda>existing.
       case existing of
         Some r \<Rightarrow> (let r' = r\<lparr>it_deleted := None\<rparr> in Inr (r', put_item db r'))
       | None \<Rightarrow> (let r = new_item db k (ct_id ct) ''missing'' (ct_circular ct) in Inr (r, add_item db r)))"

definition item_for_catalog :: "reimb_db \<Rightarrow> claim \<Rightarrow> int \<Rightarrow> (item_row \<times> reimb_db) res" where
  "item_for_catalog db c cid =
     (case map_of (rev (map (\<lambda>r. (ct_id r, r)) (claim_catalog db (cl_kind c)))) cid of
        None \<Rightarrow> Inl unknown_catalog_item
      | Some ct \<Rightarrow>
          if ct_evidence ct \<notin> {''upload'', ''external_wet_sign''} then Inl evidence_not_uploadable
          else live_item_for db (cl_id c) ct)"

definition materialize_generated_item :: "reimb_db \<Rightarrow> claim \<Rightarrow> string \<Rightarrow> (item_row \<times> reimb_db) res" where
  "materialize_generated_item db c code =
     rbind (only_row (filter (\<lambda>r. ct_code r = code) (claim_catalog db (cl_kind c)))) (\<lambda>row.
       case row of
         None \<Rightarrow> Inl unknown_catalog_code
       | Some ct \<Rightarrow>
           if ct_evidence ct \<noteq> ''generated_doc'' then Inl document_not_generatable
           else live_item_for db (cl_id c) ct)"

definition mark_generated :: "oc_db \<Rightarrow> claim \<Rightarrow> item_row \<Rightarrow> int \<Rightarrow> instant \<Rightarrow> (packet_view \<times> oc_db) res" where
  "mark_generated db c item att now =
     refresh_checklist
       (db\<lparr>rdb := put_item (rdb db) (item\<lparr>it_status := ''generated'', it_attachments := [att]\<rparr>)\<rparr>) c now"

definition invalidate_packet :: "oc_db \<Rightarrow> claim \<Rightarrow> string \<Rightarrow> int option \<Rightarrow> instant \<Rightarrow> oc_db" where
  "invalidate_packet db c reason actor now =
     db\<lparr>sdb := snd (void_snapshots (sdb db) HOLDER_KIND (cl_id c) None reason actor now)\<rparr>"

definition attach_evidence ::
  "(string \<Rightarrow> string) \<Rightarrow> nat \<Rightarrow> oc_db \<Rightarrow> claim \<Rightarrow> int \<Rightarrow> string \<Rightarrow> string \<Rightarrow> int \<Rightarrow> instant \<Rightarrow>
     ((packet_view \<times> int) \<times> oc_db) res" where
  "attach_evidence hash max_bytes db c cid data filename actor now =
     rbind (item_for_catalog (rdb db) c cid) (\<lambda>(item, r).
     rbind (upload_claim_evidence hash max_bytes (db\<lparr>rdb := r\<rparr>) (cl_id c) (it_id item) data filename) (\<lambda>((j, att), db1).
       let db2 = db1\<lparr>rdb := put_item (rdb db1) (item\<lparr>it_attachments := it_attachments item @ [att]\<rparr>)\<rparr>;
           db3 = invalidate_packet db2 c ''evidence attached'' (Some actor) now in
       rbind (refresh_checklist db3 c now) (\<lambda>(view, db4). Inr ((view, att), db4))))"

definition detach_evidence ::
  "oc_db \<Rightarrow> claim \<Rightarrow> int \<Rightarrow> int \<Rightarrow> int \<Rightarrow> instant \<Rightarrow> (packet_view \<times> oc_db) res" where
  "detach_evidence db c cid jid actor now =
     rbind (only_row (filter (\<lambda>r. it_claim r = cl_id c \<and> it_catalog r = cid \<and> it_deleted r = None) (items (rdb db)))) (\<lambda>found.
       case found of
         None \<Rightarrow> Inl unknown_catalog_item
       | Some item \<Rightarrow>
           (case find (\<lambda>j. ja_id j = jid \<and> ja_claim j = cl_id c \<and> ja_item j = Some (it_id item)) (joins (rdb db)) of
              None \<Rightarrow> Inl evidence_not_on_item
            | Some j \<Rightarrow>
                rbind (remove_claim_evidence db j) (\<lambda>db1.
                  let db2 = db1\<lparr>rdb := put_item (rdb db1)
                        (item\<lparr>it_attachments := filter (\<lambda>i. i \<noteq> ja_attachment j) (it_attachments item)\<rparr>)\<rparr>;
                      db3 = invalidate_packet db2 c ''evidence detached'' (Some actor) now in
                  refresh_checklist db3 c now)))"

section \<open>The two gates\<close>

definition assert_packet_complete :: "oc_db \<Rightarrow> claim \<Rightarrow> instant \<Rightarrow> oc_db res" where
  "assert_packet_complete db c now =
     rbind (refresh_checklist db c now) (\<lambda>(view, db1).
       if complete (vw_status view) then Inr db1 else Inl packet_incomplete)"

definition persisted_blocking :: "oc_db \<Rightarrow> claim \<Rightarrow> (item_row \<times> catalog_row) list" where
  "persisted_blocking db c =
     (let counts = evidence_counts db (cl_id c) in
      filter (\<lambda>(item, ct). ct_evidence ct \<in> set BLOCKING_EVIDENCE \<and> it_waiver item = None \<and>
          it_status item \<noteq> ''generated'' \<and> fst (counts_get counts (it_id item)) = 0)
        (List.map_filter (\<lambda>item. map_option (Pair item) (row_get ct_id (catalog (rdb db)) (it_catalog item)))
          (filter (\<lambda>item. it_claim item = cl_id c \<and> it_deleted item = None) (items (rdb db)))))"

definition assert_persisted_packet_complete :: "oc_db \<Rightarrow> claim \<Rightarrow> unit res" where
  "assert_persisted_packet_complete db c =
     (if persisted_blocking db c = [] then Inr () else Inl packet_incomplete)"

definition persisted_packet_complete :: "oc_db \<Rightarrow> claim \<Rightarrow> bool" where
  "persisted_packet_complete db c = is_ok (assert_persisted_packet_complete db c)"

section \<open>Lemmas\<close>

definition items_unique :: "reimb_db \<Rightarrow> bool" where
  "items_unique db \<longleftrightarrow> distinct (map (\<lambda>r. (it_claim r, it_catalog r)) (items db)) \<and> distinct (map it_id (items db)) \<and>
     (\<forall>i \<in> set (map it_id (items db)). i \<le> it_seq db)"

lemma items_unique_key:
  assumes "items_unique db" "r \<in> set (items db)" "s \<in> set (items db)" "it_claim r = it_claim s" "it_catalog r = it_catalog s"
  shows "r = s"
  using assms by (auto simp: items_unique_def distinct_map dest: inj_onD)

lemma items_unique_id:
  assumes "items_unique db" "r \<in> set (items db)" "s \<in> set (items db)" "it_id r = it_id s"
  shows "r = s"
  using assms by (auto simp: items_unique_def distinct_map dest: inj_onD)

lemma option_eq_by_Some: "(\<And>x. a = Some x \<longleftrightarrow> b = Some x) \<Longrightarrow> a = b"
  by (cases a; cases b) auto

lemma item_of_Some:
  assumes "items_unique db"
  shows "item_of db k cid = Some r \<longleftrightarrow> r \<in> set (items db) \<and> it_claim r = k \<and> it_catalog r = cid"
proof -
  let ?rows = "filter (\<lambda>r. it_claim r = k) (items db)"
  have "distinct (map it_catalog ?rows)"
    using items_unique_key [OF assms] assms
    by (auto simp: items_unique_def distinct_map intro!: inj_onI)
  then have "distinct (rev (map it_catalog ?rows))" by (simp only: distinct_rev)
  then have "distinct (map fst (rev (map (\<lambda>r. (it_catalog r, r)) ?rows)))" by (simp add: rev_map comp_def)
  then show ?thesis unfolding item_of_def by (auto simp: map_of_eq_Some_iff)
qed

lemma item_of_None:
  assumes "items_unique db"
  shows "item_of db k cid = None \<longleftrightarrow> (\<forall>r \<in> set (items db). \<not> (it_claim r = k \<and> it_catalog r = cid))"
  using item_of_Some [OF assms] by (metis not_None_eq)

lemma put_item_unique:
  assumes "items_unique db" "r \<in> set (items db)" "it_id r' = it_id r" "it_claim r' = it_claim r" "it_catalog r' = it_catalog r"
  shows "items_unique (put_item db r')" "set (items (put_item db r')) = insert r' (set (items db) - {r})"
proof -
  let ?f = "\<lambda>x. if it_id x = it_id r then r' else x"
  have rows: "items (put_item db r') = map ?f (items db)" by (simp add: put_item_def row_upd_def assms(3))
  have same: "x \<in> set (items db) \<Longrightarrow> it_id x = it_id r \<longleftrightarrow> x = r" for x
    using items_unique_id [OF assms(1) _ assms(2)] by blast
  have eqs: "map (\<lambda>r. (it_claim r, it_catalog r)) (map ?f (items db)) = map (\<lambda>r. (it_claim r, it_catalog r)) (items db)"
    "map it_id (map ?f (items db)) = map it_id (items db)"
    using same assms(3-5) by auto
  have seq: "it_seq (put_item db r') = it_seq db" by (simp add: put_item_def)
  show "items_unique (put_item db r')"
    using assms(1) unfolding items_unique_def rows eqs seq .
  show "set (items (put_item db r')) = insert r' (set (items db) - {r})"
    using same assms(2) by (auto simp: rows)
qed

lemma item_of_put:
  assumes "items_unique db" "item_of db k cid = Some r" "it_id r' = it_id r" "it_claim r' = it_claim r" "it_catalog r' = it_catalog r"
  shows "item_of (put_item db r') j d = (if j = k \<and> d = cid then Some r' else item_of db j d)"
proof -
  have r: "r \<in> set (items db)" "it_claim r = k" "it_catalog r = cid" using assms(1,2) by (simp_all add: item_of_Some)
  note u = put_item_unique [OF assms(1) r(1) assms(3-5)]
  show ?thesis
  proof (rule option_eq_by_Some)
    fix x
    have only: "x = r" if "x \<in> set (items db)" "it_claim x = k" "it_catalog x = cid"
      by (rule items_unique_key [OF assms(1) that(1) r(1)]) (simp_all add: that r)
    show "item_of (put_item db r') j d = Some x \<longleftrightarrow> (if j = k \<and> d = cid then Some r' else item_of db j d) = Some x"
      unfolding item_of_Some [OF u(1)] u(2)
    proof (cases "j = k \<and> d = cid")
      case True
      then show "(x \<in> insert r' (set (items db) - {r}) \<and> it_claim x = j \<and> it_catalog x = d) =
          ((if j = k \<and> d = cid then Some r' else item_of db j d) = Some x)"
        using r assms(4,5) only by auto
    next
      case False
      then have "\<not> (it_claim r = j \<and> it_catalog r = d)" "\<not> (it_claim r' = j \<and> it_catalog r' = d)" using r assms(4,5) by auto
      with False show "(x \<in> insert r' (set (items db) - {r}) \<and> it_claim x = j \<and> it_catalog x = d) =
          ((if j = k \<and> d = cid then Some r' else item_of db j d) = Some x)"
        unfolding if_not_P [OF False] item_of_Some [OF assms(1)] by blast
    qed
  qed
qed

lemma put_same_item:
  assumes "items_unique db" "r \<in> set (items db)"
  shows "put_item db r = db"
proof -
  have "row_upd it_id (it_id r) (\<lambda>_. r) (items db) = items db"
    unfolding row_upd_def using items_unique_id [OF assms(1) _ assms(2)] by (intro map_idI) auto
  then show ?thesis by (simp add: put_item_def)
qed

lemma add_item_unique:
  assumes "items_unique db" "item_of db k cid = None"
  shows "items_unique (add_item db (new_item db k cid status circ))"
    "item_of (add_item db (new_item db k cid status circ)) j d =
       (if j = k \<and> d = cid then Some (new_item db k cid status circ) else item_of db j d)"
proof -
  let ?n = "new_item db k cid status circ"
  have n: "it_id ?n = it_seq db + 1" "it_claim ?n = k" "it_catalog ?n = cid" by (simp_all add: new_item_def)
  show u: "items_unique (add_item db ?n)"
    using assms(1) assms(2) [unfolded item_of_None [OF assms(1)]]
    unfolding items_unique_def add_item_def by (force simp: n)
  have rows: "set (items (add_item db ?n)) = insert ?n (set (items db))" by (simp add: add_item_def)
  show "item_of (add_item db ?n) j d = (if j = k \<and> d = cid then Some ?n else item_of db j d)"
  proof (rule option_eq_by_Some)
    fix x
    show "item_of (add_item db ?n) j d = Some x \<longleftrightarrow> (if j = k \<and> d = cid then Some ?n else item_of db j d) = Some x"
      unfolding item_of_Some [OF u] rows using assms(2) [unfolded item_of_None [OF assms(1)]] n
      by (auto simp: item_of_Some [OF assms(1)])
  qed
qed

text \<open>What one planned row does to its item.\<close>

definition item_written :: "int \<Rightarrow> instant \<Rightarrow> item_plan \<Rightarrow> item_row option \<Rightarrow> item_row option \<Rightarrow> bool" where
  "item_written n now p old new =
     (case pl_action p of
        Create \<Rightarrow> (\<exists>r. new = Some r \<and> n < it_id r \<and> it_status r = pl_status p \<and> it_waiver r = None \<and> it_deleted r = None)
      | MakeDormant \<Rightarrow> new = map_option (\<lambda>r. r\<lparr>it_deleted := (if it_deleted r = None then Some now else it_deleted r)\<rparr>) old
      | Restore \<Rightarrow> new = map_option (\<lambda>r. r\<lparr>it_deleted := None, it_status := pl_status p\<rparr>) old
      | Keep \<Rightarrow> new = map_option (\<lambda>r. r\<lparr>it_status := pl_status p\<rparr>) old)"

lemma apply_plan_effect:
  fixes now :: instant
  assumes "items_unique db" "pl_action p = Create \<longrightarrow> item_of db k (cs_id (pl_catalog p)) = None"
  defines "db' \<equiv> apply_plan k now p db"
  shows "items_unique db'" "it_seq db \<le> it_seq db'" "db' = db\<lparr>items := items db', it_seq := it_seq db'\<rparr>"
    "item_of db' j d = (if j = k \<and> d = cs_id (pl_catalog p) then item_of db' j d else item_of db j d)"
    "item_written (it_seq db) now p (item_of db k (cs_id (pl_catalog p))) (item_of db' k (cs_id (pl_catalog p)))"
proof -
  let ?c = "cs_id (pl_catalog p)"
  have "items_unique db' \<and> it_seq db \<le> it_seq db' \<and> db' = db\<lparr>items := items db', it_seq := it_seq db'\<rparr> \<and>
    (\<forall>j d. \<not> (j = k \<and> d = ?c) \<longrightarrow> item_of db' j d = item_of db j d) \<and>
    item_written (it_seq db) now p (item_of db k ?c) (item_of db' k ?c)"
  proof (cases "pl_action p = Create")
    case True
    then show ?thesis
      using add_item_unique [OF assms(1), of k ?c] assms(2)
      by (auto simp: db'_def apply_plan_def Let_def item_written_def) (simp_all add: add_item_def new_item_def)
  next
    case False
    show ?thesis
    proof (cases "item_of db k ?c")
      case None
      then show ?thesis using False assms(1)
        by (cases "pl_action p") (auto simp: db'_def apply_plan_def Let_def item_written_def)
    next
      case (Some r)
      define r' where "r' = (case pl_action p of
          MakeDormant \<Rightarrow> r\<lparr>it_deleted := (if it_deleted r = None then Some now else it_deleted r)\<rparr>
        | Restore \<Rightarrow> r\<lparr>it_deleted := None, it_status := pl_status p\<rparr> | _ \<Rightarrow> r\<lparr>it_status := pl_status p\<rparr>)"
      have r': "it_id r' = it_id r" "it_claim r' = it_claim r" "it_catalog r' = it_catalog r"
        by (simp_all add: r'_def split: plan_action.splits)
      have db': "db' = put_item db r'"
        using False Some by (auto simp: db'_def apply_plan_def Let_def r'_def split: plan_action.splits)
      have "r \<in> set (items db)" using Some assms(1) by (simp add: item_of_Some)
      note u = put_item_unique(1) [OF assms(1) this r'] item_of_put [OF assms(1) Some r']
      have "item_written (it_seq db) now p (Some r) (Some r')"
        using False by (auto simp: item_written_def r'_def split: plan_action.splits)
      with u Some show ?thesis by (simp add: db') (simp add: put_item_def)
    qed
  qed
  then show "items_unique db'" "it_seq db \<le> it_seq db'" "db' = db\<lparr>items := items db', it_seq := it_seq db'\<rparr>"
    "item_of db' j d = (if j = k \<and> d = ?c then item_of db' j d else item_of db j d)"
    "item_written (it_seq db) now p (item_of db k ?c) (item_of db' k ?c)"
    by simp_all
qed

lemma items_only_trans:
  "x = y\<lparr>items := a, it_seq := b\<rparr> \<Longrightarrow> y = z\<lparr>items := c, it_seq := d\<rparr> \<Longrightarrow> x = z\<lparr>items := a, it_seq := b\<rparr>"
  for x y z :: reimb_db
  by simp

lemma item_written_mono: "item_written m now p old new \<Longrightarrow> n \<le> m \<Longrightarrow> item_written n now p old new"
  by (auto simp: item_written_def split: plan_action.splits)

lemma apply_plans_effect:
  fixes now :: instant
  assumes "items_unique db" "distinct (map (\<lambda>p. cs_id (pl_catalog p)) plan)"
    "\<forall>p \<in> set plan. pl_action p = Create \<longrightarrow> item_of db k (cs_id (pl_catalog p)) = None"
  defines "db' \<equiv> fold (apply_plan k now) plan db"
  shows "items_unique db' \<and> it_seq db \<le> it_seq db' \<and> db' = db\<lparr>items := items db', it_seq := it_seq db'\<rparr> \<and>
    (\<forall>d. d \<notin> (\<lambda>p. cs_id (pl_catalog p)) ` set plan \<longrightarrow> item_of db' k d = item_of db k d) \<and>
    (\<forall>p \<in> set plan. item_written (it_seq db) now p (item_of db k (cs_id (pl_catalog p))) (item_of db' k (cs_id (pl_catalog p))))"
  using assms(1-3) unfolding db'_def
proof (induction plan arbitrary: db)
  case (Cons p plan)
  let ?db = "apply_plan k now p db" and ?c = "\<lambda>p. cs_id (pl_catalog p)"
  note e = apply_plan_effect [OF Cons.prems(1), of p k now]
  have pre: "pl_action p = Create \<longrightarrow> item_of db k (?c p) = None" using Cons.prems(3) by simp
  have other: "item_of ?db k (?c q) = item_of db k (?c q)" if "q \<in> set plan" for q
  proof -
    have "?c q \<noteq> ?c p" using Cons.prems(2) imageI [OF that, of ?c] by auto
    then show ?thesis using e(4) [OF pre, of k "?c q"] by simp
  qed
  have IH: "items_unique (fold (apply_plan k now) plan ?db) \<and> it_seq ?db \<le> it_seq (fold (apply_plan k now) plan ?db) \<and>
    fold (apply_plan k now) plan ?db = ?db\<lparr>items := items (fold (apply_plan k now) plan ?db), it_seq := it_seq (fold (apply_plan k now) plan ?db)\<rparr> \<and>
    (\<forall>d. d \<notin> ?c ` set plan \<longrightarrow> item_of (fold (apply_plan k now) plan ?db) k d = item_of ?db k d) \<and>
    (\<forall>q \<in> set plan. item_written (it_seq ?db) now q (item_of ?db k (?c q)) (item_of (fold (apply_plan k now) plan ?db) k (?c q)))"
    using Cons.prems other e(1) [OF pre] by (intro Cons.IH) auto
  define fin where "fin = fold (apply_plan k now) plan ?db"
  have fresh: "?c p \<notin> ?c ` set plan" using Cons.prems(2) by auto
  have "fin = db\<lparr>items := items fin, it_seq := it_seq fin\<rparr>"
    using IH e(3) [OF pre] unfolding fin_def by (blast intro: items_only_trans)
  moreover have "item_of fin k d = item_of db k d" if "d \<notin> ?c ` set (p # plan)" for d
    using IH e(4) [OF pre, of k d] that by (auto simp: fin_def)
  moreover have "item_written (it_seq db) now q (item_of db k (?c q)) (item_of fin k (?c q))" if "q \<in> set (p # plan)" for q
  proof (cases "q = p")
    case True
    then show ?thesis using IH fresh e(5) [OF pre] by (simp add: fin_def)
  next
    case False
    then have "q \<in> set plan" using that by simp
    with IH have "item_written (it_seq ?db) now q (item_of ?db k (?c q)) (item_of fin k (?c q))" by (simp add: fin_def)
    then show ?thesis using other [OF \<open>q \<in> set plan\<close>] e(2) [OF pre] item_written_mono by metis
  qed
  ultimately show ?case using IH e(2) [OF pre] by (simp add: fin_def)
qed simp

lemma state_of_fields:
  "is_item (state_of cs r) = it_id r" "is_catalog (state_of cs r) = it_catalog r" "is_status (state_of cs r) = it_status r"
  "is_generated (state_of cs r) \<longleftrightarrow> it_status r = ''generated''" "is_waived (state_of cs r) \<longleftrightarrow> it_waiver r \<noteq> None"
  "is_dormant (state_of cs r) \<longleftrightarrow> it_deleted r \<noteq> None"
  "is_count (state_of cs r) = fst (counts_get cs (it_id r))"
  "is_pending (state_of cs r) = fst (snd (counts_get cs (it_id r)))"
  "is_infected (state_of cs r) = snd (snd (counts_get cs (it_id r)))"
  by (simp_all add: state_of_def split: prod.splits)

lemma by_catalog_states:
  "by_catalog (item_states db k) cid = map_option (state_of (evidence_counts db k)) (item_of (rdb db) k cid)"
proof -
  let ?rows = "filter (\<lambda>r. it_claim r = k) (items (rdb db))" and ?cs = "evidence_counts db k"
  have "rev (map (\<lambda>s. (is_catalog s, s)) (item_states db k)) =
      map (\<lambda>(i, r). (i, state_of ?cs r)) (rev (map (\<lambda>r. (it_catalog r, r)) ?rows))"
    by (simp add: item_states_def rev_map comp_def state_of_fields)
  then show ?thesis by (simp add: by_catalog_def item_of_def map_of_map)
qed

lemma rmap_filter_distinct:
  assumes "rmap f xs = Inr rs" "\<And>x r. f x = Inr (Some r) \<Longrightarrow> h r = g x" "distinct (map g xs)"
  shows "distinct (map h (List.map_filter id rs)) \<and> h ` set (List.map_filter id rs) \<subseteq> g ` set xs"
  using assms(1,3)
proof (induction xs arbitrary: rs)
  case (Cons x xs)
  then obtain r rs' where r: "f x = Inr r" "rmap f xs = Inr rs'" "rs = r # rs'" by (auto simp: rbind_eq_Inr)
  have "distinct (map h (List.map_filter id rs')) \<and> h ` set (List.map_filter id rs') \<subseteq> g ` set xs"
    using Cons.IH [OF r(2)] Cons.prems(2) by (simp del: id_apply)
  then show ?case using r assms(2) [of x] Cons.prems(2) by (cases r) (auto simp: id_def)
qed simp

lemma plan_distinct:
  assumes "plan_checklist cat existing facts = Inr plan" "distinct (map cs_id cat)"
  shows "distinct (map (\<lambda>p. cs_id (pl_catalog p)) plan)"
proof -
  obtain rs where rs: "rmap (\<lambda>spec. plan_row facts spec (by_catalog existing (cs_id spec))) (sorted_catalog cat) = Inr rs"
    "plan = List.map_filter id rs"
    using assms(1) by (auto simp: plan_checklist_def rbind_eq_Inr)
  have "distinct (map cs_id (sorted_catalog cat))"
    using assms(2) by (auto simp: sorted_catalog_def distinct_map distinct_sort)
  moreover have "cs_id (pl_catalog r) = cs_id spec" if "plan_row facts spec s = Inr (Some r)" for spec s r
    using plan_row_Some [OF that] by auto
  ultimately show ?thesis using rmap_filter_distinct [OF rs(1), of "\<lambda>p. cs_id (pl_catalog p)" cs_id] rs(2) by blast
qed

text \<open>Counts of an item nothing is joined to.\<close>

lemma counts_fold_other:
  assumes "\<forall>(j, x) \<in> set xs. j \<noteq> i"
  shows "counts_get (fold (\<lambda>(j, x) m. m(j \<mapsto> f x (counts_get m j))) xs m) i = counts_get m i"
  using assms by (induction xs arbitrary: m) (auto simp: counts_get_def)

lemma split_triple:
  "(\<lambda>(i, j, a) m. m(i \<mapsto> count_file (at_scan a) (counts_get m i))) = (\<lambda>(i, x) m. m(i \<mapsto> count_file (at_scan (snd x)) (counts_get m i)))"
  by (auto simp: fun_eq_iff)

lemma evidence_counts_fresh:
  assumes "\<forall>j \<in> set (joins (rdb db)). ja_item j \<noteq> Some i"
  shows "counts_get (evidence_counts db k) i = (0, 0, 0)"
proof -
  have "\<forall>(j, x) \<in> set (filter (\<lambda>(i, j, a). \<not> at_generated a) (item_files db k)). j \<noteq> i"
    using assms by (auto simp: item_files_def set_map_filter split: option.splits if_splits)
  from counts_fold_other [OF this, of "\<lambda>x. count_file (at_scan (snd x))" Map.empty]
  have "counts_get (evidence_counts db k) i = counts_get Map.empty i"
    unfolding evidence_counts_def by (simp only: split_triple)
  then show ?thesis by (simp add: counts_get_def)
qed

lemma evidence_counts_items [simp]:
  "evidence_counts (db\<lparr>rdb := (rdb db)\<lparr>items := a, it_seq := b\<rparr>\<rparr>) k = evidence_counts db k"
  by (simp add: evidence_counts_def item_files_def cong: option.case_cong if_cong)

lemma facts_items [simp]:
  "build_claim_facts (r\<lparr>items := a, it_seq := b\<rparr>) c now = build_claim_facts r c now"
  by (simp add: build_claim_facts_def deadline_facts_def claim_legs_def Let_def cong: option.case_cong)

lemma claim_catalog_items [simp]: "claim_catalog (r\<lparr>items := a, it_seq := b\<rparr>) kind = claim_catalog r kind"
  by (simp add: claim_catalog_def)

section \<open>A refreshed checklist is settled\<close>

lemma derive_generated: "snd (derive spec s checks) = ''generated'' \<longleftrightarrow>
    (case s of None \<Rightarrow> False | Some x \<Rightarrow> is_generated x \<and> \<not> is_waived x)"
  by (auto simp: derive_def Let_def split: option.splits)

lemma derive_same:
  assumes "is_waived x = is_waived y" "is_generated x = is_generated y" "is_count x = is_count y"
  shows "derive spec (Some x) checks = derive spec (Some y) checks"
  using assms by (simp add: derive_def Let_def)

lemma derive_empty:
  assumes "\<not> is_waived x" "\<not> is_generated x" "is_count x = 0"
  shows "derive spec (Some x) checks = derive spec None checks"
  using assms by (simp add: derive_def Let_def)

lemma derive_waived: "is_waived x \<Longrightarrow> derive spec (Some x) checks = (''waived'', ''waived'')"
  by (simp add: derive_def Let_def)

lemma item_facts_tally: "item_tally s = item_tally s' \<Longrightarrow> item_facts facts s = item_facts facts s'"
  by (cases facts) auto

lemma rewritten_status:
  fixes y :: item_row
  assumes "it_waiver y' = it_waiver y" "it_id y' = it_id y" "it_status y' = snd (derive spec (Some (state_of cs y)) checks)"
    "run_auto_checks ck (item_facts facts (Some (state_of cs y))) = Inr checks"
    "run_auto_checks ck (item_facts facts (Some (state_of cs y'))) = Inr checks'"
  shows "snd (derive spec (Some (state_of cs y')) checks') = it_status y'"
    "holds_something (state_of cs y) \<Longrightarrow> holds_something (state_of cs y')"
proof -
  show "snd (derive spec (Some (state_of cs y')) checks') = it_status y'"
  proof (cases "it_waiver y = None")
    case True
    then have gen: "it_status y' = ''generated'' \<longleftrightarrow> it_status y = ''generated''"
      unfolding assms(3) derive_generated by (simp add: state_of_fields)
    then have "item_tally (Some (state_of cs y')) = item_tally (Some (state_of cs y))"
      using assms(1,2) by (simp add: item_tally_def state_of_fields)
    then have "checks' = checks" using item_facts_tally assms(4,5) by (metis sum.inject(2))
    moreover have "derive spec (Some (state_of cs y')) checks = derive spec (Some (state_of cs y)) checks"
      by (rule derive_same) (simp_all add: state_of_fields assms(1,2) gen)
    ultimately show ?thesis using assms(3) by simp
  next
    case False
    then show ?thesis using assms(1,3) by (simp add: derive_waived state_of_fields)
  qed
  show "holds_something (state_of cs y')" if "holds_something (state_of cs y)"
    using that assms(1-3) derive_generated [of spec "Some (state_of cs y)" checks]
    by (auto simp: holds_something_def state_of_fields)
qed

lemma plan_row_settled:
  assumes first: "plan_row facts spec (map_option (state_of cs) old) = Inr r"
    and written: "case r of None \<Rightarrow> new = old | Some p \<Rightarrow> item_written n now p old new"
    and fresh: "\<And>i. n < i \<Longrightarrow> counts_get cs i = (0, 0, 0)"
    and parses: "\<And>oc. evaluate_required_rule (cs_rule spec) facts = Inr oc \<Longrightarrow> \<not> oc_unparseable oc"
    and second: "plan_row facts spec (map_option (state_of cs) new) = Inr (Some q)"
  shows "pl_action q = Keep \<and> (\<exists>x. new = Some x \<and> it_status x = pl_status q)"
proof -
  obtain p where r: "r = Some p" using first written second by (cases r) auto
  from plan_row_Some [OF first [unfolded r]] obtain oc checks where p: "evaluate_required_rule (cs_rule spec) facts = Inr oc"
    "run_auto_checks (cs_checks spec) (item_facts facts (map_option (state_of cs) old)) = Inr checks"
    "oc_required oc \<or> (\<exists>s. map_option (state_of cs) old = Some s \<and> \<not> is_dormant s)"
    "pl_action p = plan_action_for (oc_required oc) (map_option (state_of cs) old)"
    "pl_status p = snd (derive spec (map_option (state_of cs) old) checks)"
    using parses by auto
  from plan_row_Some [OF second] p(1) obtain checks' where q:
    "run_auto_checks (cs_checks spec) (item_facts facts (map_option (state_of cs) new)) = Inr checks'"
    "oc_required oc \<or> (\<exists>s. map_option (state_of cs) new = Some s \<and> \<not> is_dormant s)"
    "pl_action q = plan_action_for (oc_required oc) (map_option (state_of cs) new)"
    "pl_status q = snd (derive spec (map_option (state_of cs) new) checks')"
    using parses by auto
  show ?thesis
  proof (cases old)
    case None
    then have "pl_action p = Create" "oc_required oc" using p(3,4) by (simp_all add: plan_action_for_def)
    then obtain x where x: "new = Some x" "n < it_id x" "it_status x = pl_status p" "it_waiver x = None" "it_deleted x = None"
      using written by (auto simp: r item_written_def)
    have gen: "it_status x \<noteq> ''generated''" unfolding x(3) p(5) None derive_generated by simp
    have "item_tally (Some (state_of cs x)) = item_tally None"
      using fresh [OF x(2)] x gen by (simp add: item_tally_def state_of_fields)
    then have "checks' = checks" using item_facts_tally p(2) q(1) None x(1) by (metis option.map(1,2) sum.inject(2))
    moreover have "derive spec (Some (state_of cs x)) checks = derive spec None checks"
      by (rule derive_empty) (simp_all add: state_of_fields x(4) gen fresh [OF x(2)])
    ultimately show ?thesis using x q(3,4) p(5) None \<open>oc_required oc\<close> by (simp add: plan_action_for_def state_of_fields)
  next
    case (Some y)
    have new: "pl_action p \<noteq> MakeDormant"
    proof
      assume "pl_action p = MakeDormant"
      then have "\<not> oc_required oc" "new = Some (y\<lparr>it_deleted := (if it_deleted y = None then Some now else it_deleted y)\<rparr>)"
        using written p(4) Some by (auto simp: r item_written_def plan_action_for_def split: if_splits)
      then show False using q(2) by (auto simp: state_of_fields split: if_splits)
    qed
    moreover have "pl_action p \<noteq> Create" using p(4) Some by (simp add: plan_action_for_def)
    ultimately obtain y' where y': "new = Some y'" "it_waiver y' = it_waiver y" "it_id y' = it_id y" "it_status y' = pl_status p"
      "it_deleted y' = (if pl_action p = Restore then None else it_deleted y)"
      using written Some by (cases "pl_action p") (auto simp: r item_written_def)
    note st = rewritten_status [OF y'(2,3) y'(4) [unfolded p(5) Some option.map(2)] p(2) [unfolded Some option.map(2)]
        q(1) [unfolded y'(1) option.map(2)]]
    have "pl_status q = it_status y'" using st(1) q(4) y'(1) by simp
    moreover have "pl_action q = Keep"
      using q(3) p(3,4) Some y' new st(2) by (auto simp: plan_action_for_def state_of_fields split: if_splits)
    ultimately show ?thesis using y'(1) by simp
  qed
qed

lemma rmap_member: "rmap f xs = Inr ys \<Longrightarrow> y \<in> set ys \<Longrightarrow> \<exists>x \<in> set xs. f x = Inr y"
  by (induction xs arbitrary: ys) (auto simp: rbind_eq_Inr)

text \<open>A rule that was validated is never read as unparseable.\<close>

lemma validated_parses:
  assumes "validate d rule = Inr ()" "evaluate d rule facts = Inr oc"
  shows "\<not> oc_unparseable oc"
  using assms
proof (induction rule arbitrary: d oc rule: measure_induct_rule [of size])
  case (less rule)
  obtain operator operand where rule: "rule = JObj [(operator, operand)]" "\<not> d > MAX_RULE_DEPTH" "operator \<in> set RULE_OPERATORS"
    using less.prems(1) by (subst (asm) validate.simps) (auto split: json.splits list.splits if_splits)
  consider "operator = ''always''" | "operator = ''if''" | "operator = ''any'' \<or> operator = ''all''"
    using rule(3) by (auto simp: RULE_OPERATORS_def)
  then show ?case
  proof cases
    case 1
    then show ?thesis using less.prems rule(2) by (auto simp: rule(1) eval_simps RULE_OPERATORS_def outcome_def split: json.splits)
  next
    case 2
    then have "validate_condition operand = Inr ()" "evaluate_condition operand facts = Inr oc"
      using less.prems rule(2) by (simp_all add: rule(1) eval_simps RULE_OPERATORS_def)
    then show ?thesis
      by (auto simp: validate_condition_def evaluate_condition_def outcome_def rbind_eq_Inr split: json.splits option.splits list.splits if_splits)
  next
    case 3
    then obtain bs us ocs where bs: "operand = JList bs" "rmap (validate (d + 1)) bs = Inr us"
      "rmap (\<lambda>b. evaluate (d + 1) b facts) bs = Inr ocs" "oc = fold_junction operator ocs"
      using less.prems rule(2) by (auto simp: rule(1) eval_simps RULE_OPERATORS_def rbind_eq_Inr split: json.splits if_splits)
    have "\<not> oc_unparseable x" if x: "x \<in> set ocs" for x
    proof -
      obtain b where b: "b \<in> set bs" "evaluate (d + 1) b facts = Inr x"
        using rmap_member [OF bs(3) x] by blast
      show ?thesis
        by (rule less.IH [OF _ _ b(2)]) (simp_all only: rule(1) bs(1) size_branch [OF b(1)] rmap_unit_ok [OF bs(2) b(1)])
    qed
    then show ?thesis by (auto simp: bs(4) fold_junction_def outcome_def Let_def)
  qed
qed

definition packet_db_ok :: "oc_db \<Rightarrow> bool" where
  "packet_db_ok db \<longleftrightarrow> items_unique (rdb db) \<and> (\<forall>j \<in> set (joins (rdb db)). \<forall>i. ja_item j = Some i \<longrightarrow> i \<le> it_seq (rdb db)) \<and>
     distinct (map ct_id (catalog (rdb db)))"

definition sound_catalog :: "oc_db \<Rightarrow> string \<Rightarrow> bool" where
  "sound_catalog db kind \<longleftrightarrow> (\<forall>ct \<in> set (claim_catalog (rdb db) kind). validate_required_rule (ct_rule ct) = Inr ())"

lemma spec_of_simps [simp]:
  "cs_id (spec_of ct) = ct_id ct" "cs_rule (spec_of ct) = ct_rule ct" "cs_evidence (spec_of ct) = ct_evidence ct"
  by (simp_all add: spec_of_def)

lemma catalog_specs_distinct: "packet_db_ok db \<Longrightarrow> distinct (map cs_id (map spec_of (claim_catalog (rdb db) kind)))"
  by (simp add: packet_db_ok_def claim_catalog_def comp_def distinct_map_filter)

lemma refresh_checklist_cases:
  assumes "refresh_checklist db c now = Inr (view, db1)" "packet_db_ok db"
  obtains plan plan1 where "build_plan db c now = Inr plan" "build_plan db1 c now = Inr plan1"
    "view = \<lparr>vw_rows = map (view_row db1 c) plan1, vw_status = packet_status BLOCKING_EVIDENCE plan1\<rparr>"
    "db1 = db\<lparr>rdb := (rdb db)\<lparr>items := items (rdb db1), it_seq := it_seq (rdb db1)\<rparr>\<rparr>"
    "rdb db1 = fold (apply_plan (cl_id c) now) plan (rdb db)" "items_unique (rdb db1)" "it_seq (rdb db) \<le> it_seq (rdb db1)"
    "\<forall>d. d \<notin> (\<lambda>p. cs_id (pl_catalog p)) ` set plan \<longrightarrow> item_of (rdb db1) (cl_id c) d = item_of (rdb db) (cl_id c) d"
    "\<forall>p \<in> set plan. item_written (it_seq (rdb db)) now p (item_of (rdb db) (cl_id c) (cs_id (pl_catalog p)))
       (item_of (rdb db1) (cl_id c) (cs_id (pl_catalog p)))"
proof -
  obtain plan plan1 where p: "build_plan db c now = Inr plan" "build_plan db1 c now = Inr plan1"
    "view = \<lparr>vw_rows = map (view_row db1 c) plan1, vw_status = packet_status BLOCKING_EVIDENCE plan1\<rparr>"
    "db1 = db\<lparr>rdb := fold (apply_plan (cl_id c) now) plan (rdb db)\<rparr>"
    using assms(1) by (auto simp: refresh_checklist_def checklist_view_def rbind_eq_Inr Let_def)
  have create: "\<forall>p \<in> set plan. pl_action p = Create \<longrightarrow> item_of (rdb db) (cl_id c) (cs_id (pl_catalog p)) = None"
    using plan_member_facts(5) [OF p(1) [unfolded build_plan_def]]
    by (auto simp: by_catalog_states plan_action_for_def split: option.splits if_splits)
  have r: "rdb db1 = fold (apply_plan (cl_id c) now) plan (rdb db)" using p(4) by simp
  have "items_unique (rdb db)" using assms(2) by (simp add: packet_db_ok_def)
  note e = apply_plans_effect [OF this plan_distinct [OF p(1) [unfolded build_plan_def] catalog_specs_distinct [OF assms(2)]] create,
      of now, folded r]
  moreover have "db1 = db\<lparr>rdb := (rdb db)\<lparr>items := items (rdb db1), it_seq := it_seq (rdb db1)\<rparr>\<rparr>"
    using e p(4) r by metis
  ultimately show ?thesis using that p(1-3) r by blast
qed

lemma refresh_settled:
  assumes "refresh_checklist db c now = Inr (view, db1)" "packet_db_ok db" "sound_catalog db (cl_kind c)"
    "ct \<in> set (claim_catalog (rdb db) (cl_kind c))"
    "plan_row (build_claim_facts (rdb db1) c now) (spec_of ct)
       (map_option (state_of (evidence_counts db1 (cl_id c))) (item_of (rdb db1) (cl_id c) (ct_id ct))) = Inr (Some q)"
  shows "pl_action q = Keep \<and> (\<exists>x. item_of (rdb db1) (cl_id c) (ct_id ct) = Some x \<and> it_status x = pl_status q)"
proof -
  obtain plan where p: "build_plan db c now = Inr plan"
    and db1: "db1 = db\<lparr>rdb := (rdb db)\<lparr>items := items (rdb db1), it_seq := it_seq (rdb db1)\<rparr>\<rparr>"
    and off: "\<forall>d. d \<notin> (\<lambda>p. cs_id (pl_catalog p)) ` set plan \<longrightarrow> item_of (rdb db1) (cl_id c) d = item_of (rdb db) (cl_id c) d"
    and on: "\<forall>p \<in> set plan. item_written (it_seq (rdb db)) now p (item_of (rdb db) (cl_id c) (cs_id (pl_catalog p)))
       (item_of (rdb db1) (cl_id c) (cs_id (pl_catalog p)))"
    by (rule refresh_checklist_cases [OF assms(1,2)])
  let ?cs = "evidence_counts db (cl_id c)" and ?facts = "build_claim_facts (rdb db) c now"
  have same: "evidence_counts db1 (cl_id c) = ?cs" "build_claim_facts (rdb db1) c now = ?facts"
    by (subst db1, simp)+
  have spec: "spec_of ct \<in> set (map spec_of (claim_catalog (rdb db) (cl_kind c)))" using assms(4) by simp
  obtain r where r: "plan_row ?facts (spec_of ct) (map_option (state_of ?cs) (item_of (rdb db) (cl_id c) (ct_id ct))) = Inr r"
    using plan_checklist_rows [OF p [unfolded build_plan_def] spec] by (auto simp: by_catalog_states)
  have "case r of None \<Rightarrow> item_of (rdb db1) (cl_id c) (ct_id ct) = item_of (rdb db) (cl_id c) (ct_id ct)
      | Some p \<Rightarrow> item_written (it_seq (rdb db)) now p (item_of (rdb db) (cl_id c) (ct_id ct)) (item_of (rdb db1) (cl_id c) (ct_id ct))"
  proof (cases r)
    case None
    have "ct_id ct \<notin> (\<lambda>p. cs_id (pl_catalog p)) ` set plan"
    proof
      assume "ct_id ct \<in> (\<lambda>p. cs_id (pl_catalog p)) ` set plan"
      then obtain p' where p': "p' \<in> set plan" "cs_id (pl_catalog p') = ct_id ct" by auto
      obtain ct' where s': "ct' \<in> set (claim_catalog (rdb db) (cl_kind c))"
        "plan_row ?facts (spec_of ct') (map_option (state_of ?cs) (item_of (rdb db) (cl_id c) (ct_id ct'))) = Inr (Some p')"
        using plan_checklist_member [OF p [unfolded build_plan_def]] p'(1) by (auto simp: by_catalog_states)
      have "pl_catalog p' = spec_of ct'" using plan_row_Some [OF s'(2)] by auto
      then have "ct' = ct"
        using assms(2,4) s'(1) p'(2) by (auto simp: packet_db_ok_def claim_catalog_def distinct_map dest: inj_onD)
      then show False using s'(2) r None by simp
    qed
    then show ?thesis using off None by simp
  next
    case (Some p')
    have "p' \<in> set plan"
      using plan_checklist_member [OF p [unfolded build_plan_def], of p'] spec r Some
      by (simp add: by_catalog_states) (metis assms(4))
    moreover have "pl_catalog p' = spec_of ct" using plan_row_Some [OF r [unfolded Some]] by auto
    ultimately show ?thesis using on Some by fastforce
  qed
  moreover have "counts_get ?cs i = (0, 0, 0)" if "it_seq (rdb db) < i" for i
    using that assms(2) by (intro evidence_counts_fresh) (auto simp: packet_db_ok_def)
  moreover have "\<not> oc_unparseable oc" if "evaluate_required_rule (cs_rule (spec_of ct)) ?facts = Inr oc" for oc
    using that assms(3,4) validated_parses by (auto simp: sound_catalog_def validate_required_rule_def evaluate_required_rule_def)
  ultimately show ?thesis using plan_row_settled [OF r] assms(5) unfolding same by blast
qed

lemma refresh_keeps_ok:
  assumes "refresh_checklist db c now = Inr (view, db1)" "packet_db_ok db"
  shows "packet_db_ok db1"
proof -
  obtain plan where db1: "db1 = db\<lparr>rdb := (rdb db)\<lparr>items := items (rdb db1), it_seq := it_seq (rdb db1)\<rparr>\<rparr>"
    and u: "items_unique (rdb db1)" "it_seq (rdb db) \<le> it_seq (rdb db1)"
    by (rule refresh_checklist_cases [OF assms])
  have "joins (rdb db1) = joins (rdb db)" "catalog (rdb db1) = catalog (rdb db)" by (subst db1, simp)+
  then show ?thesis using assms(2) u by (fastforce simp: packet_db_ok_def)
qed

lemma apply_settled:
  assumes "items_unique db" "pl_action q = Keep" "item_of db k (cs_id (pl_catalog q)) = Some x" "it_status x = pl_status q"
  shows "apply_plan k now q db = db"
proof -
  have "apply_plan k now q db = put_item db x" using assms(2-4) by (simp add: apply_plan_def Let_def flip: assms(4))
  moreover have "x \<in> set (items db)" using assms(1,3) by (simp add: item_of_Some)
  ultimately show ?thesis using assms(1) by (simp add: put_same_item)
qed

lemma fold_same: "(\<And>x. x \<in> set xs \<Longrightarrow> f x s = s) \<Longrightarrow> fold f xs s = s"
  by (induction xs) auto

section \<open>A sample packet\<close>

definition order_catalog :: catalog_row where
  "order_catalog = (seed_check REIMBURSEMENT_KIND ''TO-01'' ''Travel order'' ''authority'' ''upload'' (always True) [] 1)\<lparr>ct_id := 1\<rparr>"

definition order_item :: item_row where
  "order_item = \<lparr>it_id = 1, it_claim = 1, it_catalog = 1, it_status = ''missing'', it_circular = None, it_attachments = [],
     it_waiver = None, it_deleted = None\<rparr>"

definition packet_sample :: oc_db where
  "packet_sample = \<lparr>wfdb = empty_wf_db chain_auth,
     rdb = sample_reimb\<lparr>claims := [sample_claim], catalog := [order_catalog], items := [order_item],
       joins := [\<lparr>ja_id = 1, ja_claim = 1, ja_attachment = 1, ja_item = Some 1\<rparr>], it_seq := 1, ja_seq := 1\<rparr>,
     adb = \<lparr>attachments = [sample_file], blobs = Map.empty, at_seq = 1\<rparr>, sdb = snd first_copy, counters = [], renders = [], outbox = empty_outbox\<rparr>"

lemma order_catalog_facts [simp]:
  "ct_id order_catalog = 1" "ct_rule order_catalog = always True" "ct_checks order_catalog = JList []" "ct_active order_catalog"
  "ct_kind order_catalog = Some ''reimbursement''" "ct_evidence order_catalog = ''upload''"
  by (simp_all add: order_catalog_def seed_check_def REIMBURSEMENT_KIND_def)

lemma sample_claim_facts [simp]: "cl_id sample_claim = 1" "cl_kind sample_claim = ''reimbursement''"
  by (simp_all add: sample_claim_def)

lemma always_plan:
  assumes "claim_catalog (rdb db) (cl_kind c) = [ct]" "ct_rule ct = always True" "ct_checks ct = JList []"
  defines "s \<equiv> map_option (state_of (evidence_counts db (cl_id c))) (item_of (rdb db) (cl_id c) (ct_id ct))"
  shows "build_plan db c now = Inr [\<lparr>pl_catalog = spec_of ct, pl_item = map_option is_item s, pl_action = plan_action_for True s,
    pl_required = True, pl_reason = ''always'', pl_unparseable = False, pl_evidence = fst (derive (spec_of ct) s []),
    pl_status = snd (derive (spec_of ct) s []), pl_checks = []\<rparr>]"
proof -
  have "cs_checks (spec_of ct) = JList []" using assms(3) by (simp add: spec_of_def)
  then show ?thesis
    by (simp add: build_plan_def assms(1,2) plan_checklist_def sorted_catalog_def by_catalog_states flip: s_def)
      (simp add: plan_row_def assms(2) always_def evaluate_required_rule_def evaluate.simps outcome_def map_filter_simps)
qed

lemma sample_counts: "evidence_counts packet_sample 1 = [1 \<mapsto> (1, 0, 0)]"
  by (simp add: evidence_counts_def item_files_def packet_sample_def live_attachment_def sample_file_def count_file_def counts_get_def map_filter_simps)

lemma sample_catalog: "claim_catalog (rdb packet_sample) ''reimbursement'' = [order_catalog]"
  by (simp add: claim_catalog_def packet_sample_def)

lemma sample_packet_ok: "packet_db_ok packet_sample" "sound_catalog packet_sample ''reimbursement''"
proof -
  show "packet_db_ok packet_sample" by (simp add: packet_db_ok_def packet_sample_def items_unique_def order_item_def)
  show "sound_catalog packet_sample ''reimbursement''"
    by (simp add: sound_catalog_def sample_catalog always_def validate_required_rule_def validate.simps RULE_OPERATORS_def)
qed

lemma sample_refresh:
  "\<exists>view db1. refresh_checklist packet_sample sample_claim now = Inr (view, db1) \<and> complete (vw_status view) \<and>
     items (rdb db1) = [order_item\<lparr>it_status := ''attached''\<rparr>] \<and> claim_catalog (rdb db1) ''reimbursement'' = [order_catalog]"
proof -
  have it: "item_of (rdb packet_sample) 1 1 = Some order_item"
    by (simp add: item_of_def packet_sample_def order_item_def)
  let ?db1 = "packet_sample\<lparr>rdb := (rdb packet_sample)\<lparr>items := [order_item\<lparr>it_status := ''attached''\<rparr>]\<rparr>\<rparr>"
  have it1: "item_of (rdb ?db1) 1 1 = Some (order_item\<lparr>it_status := ''attached''\<rparr>)"
    by (simp add: item_of_def order_item_def)
  have c1: "evidence_counts ?db1 1 = [1 \<mapsto> (1, 0, 0)]" using sample_counts
    by (simp add: evidence_counts_def item_files_def cong: option.case_cong if_cong)
  have cat1: "claim_catalog (rdb ?db1) ''reimbursement'' = [order_catalog]" using sample_catalog by (simp add: claim_catalog_def)
  note d = derive_def Let_def state_of_def counts_get_def order_item_def
  obtain p where p: "build_plan packet_sample sample_claim now = Inr [p]" "pl_action p = Keep" "pl_status p = ''attached''"
    "cs_id (pl_catalog p) = 1"
    using always_plan [of packet_sample sample_claim order_catalog now] sample_catalog it sample_counts
    by (simp add: d plan_action_for_def)
  obtain q where q: "build_plan ?db1 sample_claim now = Inr [q]" "pl_evidence q = ''attached''"
    using always_plan [of ?db1 sample_claim order_catalog now] cat1 it1 c1
    by (simp add: d)
  have "packet_sample\<lparr>rdb := apply_plan 1 now p (rdb packet_sample)\<rparr> = ?db1"
    using p it by (simp add: apply_plan_def Let_def put_item_def packet_sample_def order_item_def)
  then show ?thesis
    using p(1) q cat1 by (simp add: refresh_checklist_def checklist_view_def packet_status_def complete_def Let_def)
qed

section \<open>Properties\<close>

text \<open>
  C20. Materializing is idempotent over a validated catalog: a second refresh of an unchanged claim
  returns the same view and writes nothing.
\<close>

theorem refresh_idempotent:
  assumes "packet_db_ok db" "sound_catalog db (cl_kind c)" "refresh_checklist db c now = Inr (view, db1)"
  shows "refresh_checklist db1 c now = Inr (view, db1)"
proof -
  obtain plan1 where p1: "build_plan db1 c now = Inr plan1"
    and view: "view = \<lparr>vw_rows = map (view_row db1 c) plan1, vw_status = packet_status BLOCKING_EVIDENCE plan1\<rparr>"
    and db1: "db1 = db\<lparr>rdb := (rdb db)\<lparr>items := items (rdb db1), it_seq := it_seq (rdb db1)\<rparr>\<rparr>"
    and u: "items_unique (rdb db1)"
    by (rule refresh_checklist_cases [OF assms(3,1)])
  have cat: "claim_catalog (rdb db1) (cl_kind c) = claim_catalog (rdb db) (cl_kind c)" by (subst db1) simp
  have "apply_plan (cl_id c) now q (rdb db1) = rdb db1" if q: "q \<in> set plan1" for q
  proof -
    obtain ct where ct: "ct \<in> set (claim_catalog (rdb db) (cl_kind c))"
      "plan_row (build_claim_facts (rdb db1) c now) (spec_of ct)
         (map_option (state_of (evidence_counts db1 (cl_id c))) (item_of (rdb db1) (cl_id c) (ct_id ct))) = Inr (Some q)"
      using plan_checklist_member [OF p1 [unfolded build_plan_def], of q] q cat by (auto simp: by_catalog_states)
    moreover have "cs_id (pl_catalog q) = ct_id ct" using plan_row_Some [OF ct(2)] by auto
    ultimately show ?thesis using refresh_settled [OF assms(3,1,2)] apply_settled [OF u] by metis
  qed
  then have "fold (apply_plan (cl_id c) now) plan1 (rdb db1) = rdb db1" by (rule fold_same)
  then show ?thesis by (simp add: refresh_checklist_def checklist_view_def p1 view Let_def)
qed

theorem refresh_idempotent_witness:
  "\<exists>view db1. refresh_checklist packet_sample sample_claim 7 = Inr (view, db1) \<and> refresh_checklist db1 sample_claim 7 = Inr (view, db1)"
  using refresh_idempotent [of packet_sample sample_claim 7] sample_packet_ok sample_refresh [of 7] by fastforce

text \<open>
  C21. The two gates agree at the moment of submission: over a validated catalog, and when every live item
  of the claim belongs to an active row of its kind, a packet the submit gate lets through is one the
  approval gate finds complete in the stored rows.
\<close>

theorem submit_gate_implies_approve_gate:
  assumes "packet_db_ok db" "sound_catalog db (cl_kind c)" "assert_packet_complete db c now = Inr db1"
    "list_all (\<lambda>r. it_claim r \<noteq> cl_id c \<or> it_deleted r \<noteq> None \<or>
       it_catalog r \<in> set (map ct_id (claim_catalog (rdb db) (cl_kind c)))) (items (rdb db1))"
  shows "assert_persisted_packet_complete db1 c = Inr ()"
proof -
  obtain view where v: "refresh_checklist db c now = Inr (view, db1)" "complete (vw_status view)"
    using assms(3) by (auto simp: assert_packet_complete_def rbind_eq_Inr split: if_splits)
  obtain plan1 where p1: "build_plan db1 c now = Inr plan1"
    and view: "view = \<lparr>vw_rows = map (view_row db1 c) plan1, vw_status = packet_status BLOCKING_EVIDENCE plan1\<rparr>"
    and db1: "db1 = db\<lparr>rdb := (rdb db)\<lparr>items := items (rdb db1), it_seq := it_seq (rdb db1)\<rparr>\<rparr>"
    and u: "items_unique (rdb db1)"
    by (rule refresh_checklist_cases [OF v(1) assms(1)])
  have cat: "claim_catalog (rdb db1) (cl_kind c) = claim_catalog (rdb db) (cl_kind c)" "catalog (rdb db1) = catalog (rdb db)"
    by (subst db1, simp)+
  let ?cs = "evidence_counts db1 (cl_id c)"
  have good: "\<not> (ct_evidence ct \<in> set BLOCKING_EVIDENCE \<and> it_waiver item = None \<and> it_status item \<noteq> ''generated'' \<and>
      fst (counts_get ?cs (it_id item)) = 0)"
    if item: "item \<in> set (items (rdb db1))" "it_claim item = cl_id c" "it_deleted item = None"
      and ct: "row_get ct_id (catalog (rdb db1)) (it_catalog item) = Some ct" for item ct
  proof
    assume bad: "ct_evidence ct \<in> set BLOCKING_EVIDENCE \<and> it_waiver item = None \<and> it_status item \<noteq> ''generated'' \<and>
      fst (counts_get ?cs (it_id item)) = 0"
    obtain ct' where ct': "ct' \<in> set (claim_catalog (rdb db) (cl_kind c))" "ct_id ct' = it_catalog item"
      using assms(4) item by (auto simp: list_all_iff)
    have "inj_on ct_id (set (catalog (rdb db)))" using assms(1) by (simp add: packet_db_ok_def distinct_map)
    then have "ct' = ct"
      by (rule inj_onD) (use ct' cat(2) row_get_Some [OF ct] in \<open>auto simp: claim_catalog_def\<close>)
    have it: "item_of (rdb db1) (cl_id c) (ct_id ct) = Some item"
      using item ct' \<open>ct' = ct\<close> by (simp add: item_of_Some [OF u])
    have spec: "spec_of ct \<in> set (map spec_of (claim_catalog (rdb db1) (cl_kind c)))" using ct'(1) \<open>ct' = ct\<close> cat(1) by simp
    obtain r where r: "plan_row (build_claim_facts (rdb db1) c now) (spec_of ct) (Some (state_of ?cs item)) = Inr r"
      using plan_checklist_rows [OF p1 [unfolded build_plan_def] spec] it by (auto simp: by_catalog_states)
    have "\<not> is_dormant (state_of ?cs item)" using item(3) by (simp add: state_of_fields)
    then obtain q where q: "r = Some q" using plan_row_None r by (cases r) fastforce+
    have settled: "pl_action q = Keep"
      using refresh_settled [OF v(1) assms(1,2), of ct q] ct'(1) \<open>ct' = ct\<close> it r q by simp
    have "q \<in> set plan1"
      unfolding plan_checklist_member [OF p1 [unfolded build_plan_def], of q]
      by (rule bexI [OF _ spec]) (simp add: by_catalog_states it r q)
    then have nb: "\<not> blocking q"
      using v(2) view by (auto simp: complete_def packet_status_def Let_def blocking_def filter_empty_conv)
    have c: "pl_catalog q = spec_of ct" using plan_row_Some [OF r [unfolded q]] by auto
    note f = plan_member_facts [OF p1 [unfolded build_plan_def] \<open>q \<in> set plan1\<close>, unfolded c by_catalog_states spec_of_simps it option.map(2)]
    have empty: "empty_handed (Some (state_of ?cs item))" "\<not> holds_something (state_of ?cs item)"
      using bad by (auto simp: empty_handed_def holds_something_def state_of_fields)
    have "pl_required q" using settled f(5) empty(2) by (auto simp: plan_action_for_def split: if_splits)
    moreover have "ct_evidence ct \<noteq> ''data_only''" using bad by (auto simp: BLOCKING_EVIDENCE_def)
    ultimately have "blocking q" using bad empty(1) f(3) by (simp add: blocking_def c)
    with nb show False by simp
  qed
  have "persisted_blocking db1 c = []"
    unfolding persisted_blocking_def Let_def filter_empty_conv by (clarsimp simp: set_map_filter) (use good in blast)
  then show ?thesis by (simp add: assert_persisted_packet_complete_def)
qed

theorem submit_gate_implies_approve_gate_witness:
  "\<exists>db1. assert_packet_complete packet_sample sample_claim 7 = Inr db1 \<and> assert_persisted_packet_complete db1 sample_claim = Inr ()"
proof -
  obtain view db1 where r: "refresh_checklist packet_sample sample_claim 7 = Inr (view, db1)" "complete (vw_status view)"
    "items (rdb db1) = [order_item\<lparr>it_status := ''attached''\<rparr>]"
    using sample_refresh [of 7] by blast
  then have g: "assert_packet_complete packet_sample sample_claim 7 = Inr db1" by (simp add: assert_packet_complete_def)
  from submit_gate_implies_approve_gate [OF sample_packet_ok(1) _ this] r(3) sample_packet_ok(2) sample_catalog g
  show ?thesis by (simp add: order_item_def)
qed

text \<open>What voiding leaves: no active copy of the subject.\<close>

lemma void_all_active: "active_snapshots collation (snd (void_snapshots s kind subject None reason actor now)) kind subject = []"
proof -
  have "filter (\<lambda>x. sn_kind x = kind \<and> sn_subject x = subject \<and> sn_status x = SnActive)
      (snapshots (snd (void_snapshots s kind subject None reason actor now))) = []"
    unfolding filter_empty_conv void_snapshots_def Let_def snd_conv
    by (simp add: void_target_def ball_Un)
  then show ?thesis by (simp add: active_snapshots_def)
qed

lemma refresh_other_tables:
  assumes "refresh_checklist db c now = Inr (view, db1)"
  shows "sdb db1 = sdb db" "adb db1 = adb db" "wfdb db1 = wfdb db" "counters db1 = counters db" "renders db1 = renders db"
  using assms by (auto simp: refresh_checklist_def rbind_eq_Inr Let_def)

lemma live_item_for_facts:
  assumes "items_unique r" "live_item_for r k ct = Inr (item, r')"
  shows "items_unique r'" "item_of r' k (ct_id ct) = Some item" "it_deleted item = None" "it_seq r \<le> it_seq r'"
    "joins r' = joins r" "catalog r' = catalog r"
proof -
  have "items_unique r' \<and> item_of r' k (ct_id ct) = Some item \<and> it_deleted item = None \<and> it_seq r \<le> it_seq r' \<and>
    joins r' = joins r \<and> catalog r' = catalog r"
  proof (cases "filter (\<lambda>x. it_claim x = k \<and> it_catalog x = ct_id ct) (items r)")
    case Nil
    then have none: "item_of r k (ct_id ct) = None" unfolding item_of_None [OF assms(1)] by (auto simp: filter_empty_conv)
    have r': "item = new_item r k (ct_id ct) ''missing'' (ct_circular ct)" "r' = add_item r item"
      using assms(2) Nil by (auto simp: live_item_for_def only_row_def Let_def)
    show ?thesis using add_item_unique [OF assms(1) none, of "''missing''" "ct_circular ct"] r'
      by (auto simp: add_item_def new_item_def)
  next
    case (Cons x xs)
    then have "xs = []" and r': "item = x\<lparr>it_deleted := None\<rparr>" "r' = put_item r item"
      using assms(2) by (auto simp: live_item_for_def only_row_def Let_def split: list.splits)
    have x: "x \<in> set (items r)" "it_claim x = k" "it_catalog x = ct_id ct" using Cons by (auto simp: filter_eq_Cons_iff)
    then have "item_of r k (ct_id ct) = Some x" by (simp add: item_of_Some [OF assms(1)])
    from item_of_put [OF assms(1) this, of item] put_item_unique(1) [OF assms(1) x(1), of item] r' show ?thesis
      by (simp add: put_item_def)
  qed
  then show "items_unique r'" "item_of r' k (ct_id ct) = Some item" "it_deleted item = None" "it_seq r \<le> it_seq r'"
    "joins r' = joins r" "catalog r' = catalog r" by blast+
qed

text \<open>
  Evidence and signed documents move together: attaching or detaching a file leaves no active frozen
  copy of the claim, whatever was generated before.
\<close>

theorem evidence_change_voids_packet:
  assumes "attach_evidence hash max_bytes db c cid data filename actor now = Inr (x, db') \<or>
    detach_evidence db c cid jid actor now = Inr (view, db')"
  shows "active_snapshots collation (sdb db') HOLDER_KIND (cl_id c) = []"
  using assms
proof
  assume "attach_evidence hash max_bytes db c cid data filename actor now = Inr (x, db')"
  then show ?thesis
    by (auto simp: attach_evidence_def rbind_eq_Inr Let_def split: prod.splits)
      (auto simp: invalidate_packet_def void_all_active dest!: refresh_other_tables(1))
next
  assume "detach_evidence db c cid jid actor now = Inr (view, db')"
  then obtain found where "(case found of None \<Rightarrow> Inl unknown_catalog_item
       | Some item \<Rightarrow> (case find (\<lambda>j. ja_id j = jid \<and> ja_claim j = cl_id c \<and> ja_item j = Some (it_id item)) (joins (rdb db)) of
              None \<Rightarrow> Inl evidence_not_on_item
            | Some j \<Rightarrow> rbind (remove_claim_evidence db j) (\<lambda>db1.
                refresh_checklist (invalidate_packet (db1\<lparr>rdb := put_item (rdb db1)
                  (item\<lparr>it_attachments := filter (\<lambda>i. i \<noteq> ja_attachment j) (it_attachments item)\<rparr>)\<rparr>) c ''evidence detached'' (Some actor) now) c now))) =
      Inr (view, db')"
    unfolding detach_evidence_def Let_def rbind_eq_Inr by blast
  then obtain db2 where "refresh_checklist (invalidate_packet db2 c ''evidence detached'' (Some actor) now) c now = Inr (view, db')"
    by (cases found) (auto simp: rbind_eq_Inr split: option.split_asm)
  then show ?thesis by (auto simp: invalidate_packet_def void_all_active dest!: refresh_other_tables(1))
qed

lemma sample_detach_ok:
  "\<exists>view db1. detach_evidence (packet_sample\<lparr>rdb := (rdb packet_sample)\<lparr>catalog := []\<rparr>\<rparr>) sample_claim 1 1 9 20 = Inr (view, db1)"
proof -
  have none: "build_plan db sample_claim now = Inr []" if "catalog (rdb db) = []" for db now
    using that by (simp add: build_plan_def claim_catalog_def plan_checklist_def sorted_catalog_def map_filter_simps)
  have "\<exists>view db1. refresh_checklist db sample_claim now = Inr (view, db1)" if "catalog (rdb db) = []" for db now
    using none [OF that] by (simp add: refresh_checklist_def checklist_view_def Let_def)
  then show ?thesis
    by (simp add: detach_evidence_def only_row_def packet_sample_def order_item_def remove_claim_evidence_def soft_delete_attachment_def
        live_attachment_def sample_file_def Let_def invalidate_packet_def put_item_def)
qed

theorem evidence_change_voids_packet_witness:
  "\<exists>view db1. detach_evidence (packet_sample\<lparr>rdb := (rdb packet_sample)\<lparr>catalog := []\<rparr>\<rparr>) sample_claim 1 1 9 20 = Inr (view, db1) \<and>
     active_snapshots id (sdb db1) HOLDER_KIND 1 = []"
  using sample_detach_ok evidence_change_voids_packet [where c = sample_claim and collation = id] by fastforce

text \<open>
  A rule the grammar cannot read is meant not to block. Submitting materializes an item for it all the
  same, and the approval gate, which reads stored items only, then refuses the claim.
\<close>

definition unreadable_catalog :: catalog_row where
  "unreadable_catalog = order_catalog\<lparr>ct_rule := JObj [(''maybe'', JBool True)]\<rparr>"

definition unreadable_sample :: oc_db where
  "unreadable_sample = packet_sample\<lparr>rdb := sample_reimb\<lparr>catalog := [unreadable_catalog]\<rparr>\<rparr>"

lemma unreadable_plan:
  assumes cat: "claim_catalog (rdb db) ''reimbursement'' = [unreadable_catalog]"
    and s: "s = map_option (state_of (evidence_counts db 1)) (item_of (rdb db) 1 1)" "case s of None \<Rightarrow> True | Some x \<Rightarrow> \<not> is_dormant x"
  shows "\<exists>p. build_plan db sample_claim now = Inr [p] \<and> \<not> pl_required p \<and> cs_id (pl_catalog p) = 1 \<and>
    pl_action p = plan_action_for False s \<and> pl_status p = snd (derive (spec_of unreadable_catalog) s [])"
  using s(2) cat
  by (simp add: build_plan_def plan_checklist_def sorted_catalog_def by_catalog_states unreadable_catalog_def flip: s(1))
    (auto simp: plan_row_def spec_of_def evaluate_required_rule_def evaluate.simps UNPARSEABLE_def map_filter_simps split: option.splits)

theorem unreadable_rule_strands_claim:
  "\<exists>db1. assert_packet_complete unreadable_sample sample_claim 7 = Inr db1 \<and>
     assert_persisted_packet_complete db1 sample_claim = Inl packet_incomplete"
proof -
  let ?db = unreadable_sample
  have r: "rdb ?db = sample_reimb\<lparr>catalog := [unreadable_catalog]\<rparr>" by (simp add: unreadable_sample_def)
  have cat: "claim_catalog (rdb ?db) ''reimbursement'' = [unreadable_catalog]" by (simp add: r claim_catalog_def unreadable_catalog_def)
  have none: "item_of (rdb ?db) 1 1 = None" by (simp add: r item_of_def sample_reimb_def)
  have p0: "\<exists>p. build_plan ?db sample_claim 7 = Inr [p] \<and> \<not> pl_required p \<and> cs_id (pl_catalog p) = 1 \<and> pl_action p = Create \<and> pl_status p = ''missing''"
    using unreadable_plan [OF cat, of None 7] none
    by (simp add: plan_action_for_def derive_def unreadable_catalog_def spec_of_def Let_def)
  then obtain p where p: "build_plan ?db sample_claim 7 = Inr [p]" "cs_id (pl_catalog p) = 1" "pl_action p = Create" "pl_status p = ''missing''" by blast
  let ?item = "new_item (rdb ?db) 1 1 ''missing'' (cs_circular (pl_catalog p))"
  let ?db1 = "?db\<lparr>rdb := add_item (rdb ?db) ?item\<rparr>"
  have cat1: "claim_catalog (rdb ?db1) ''reimbursement'' = [unreadable_catalog]" using cat by (simp add: claim_catalog_def add_item_def)
  have it1: "item_of (rdb ?db1) 1 1 = Some ?item" "items (rdb ?db1) = [?item]"
    by (simp_all add: r item_of_def add_item_def new_item_def sample_reimb_def)
  obtain q where q: "build_plan ?db1 sample_claim 7 = Inr [q]" "\<not> pl_required q"
    using unreadable_plan [OF cat1 refl, of 7] it1 by (auto simp: state_of_fields new_item_def)
  have "refresh_checklist ?db sample_claim 7 = Inr (\<lparr>vw_rows = [view_row ?db1 sample_claim q], vw_status = packet_status BLOCKING_EVIDENCE [q]\<rparr>, ?db1)"
    using p q by (simp add: refresh_checklist_def checklist_view_def apply_plan_def Let_def)
  then have "assert_packet_complete ?db sample_claim 7 = Inr ?db1"
    using q(2) by (simp add: assert_packet_complete_def complete_def packet_status_def Let_def)
  moreover have "counts_get (evidence_counts ?db1 1) i = (0, 0, 0)" for i
    by (rule evidence_counts_fresh) (simp add: add_item_def r sample_reimb_def)
  then have "persisted_blocking ?db1 sample_claim \<noteq> []"
    using it1 by (simp add: persisted_blocking_def map_filter_simps Let_def) (simp add: new_item_def add_item_def r unreadable_catalog_def BLOCKING_EVIDENCE_def map_filter_simps)
  ultimately show ?thesis by (auto simp: assert_persisted_packet_complete_def)
qed

text \<open>
  A catalog row that is deactivated leaves its live item behind: the submit gate no longer looks at
  it, the claimant can no longer attach anything to it, and the approval gate refuses the claim.
\<close>

definition retired_sample :: oc_db where
  "retired_sample = packet_sample\<lparr>rdb := sample_reimb\<lparr>catalog := [order_catalog\<lparr>ct_active := False\<rparr>], items := [order_item], it_seq := 1\<rparr>\<rparr>"

theorem retired_requirement_strands_claim:
  "assert_packet_complete retired_sample sample_claim 7 = Inr retired_sample \<and>
   assert_persisted_packet_complete retired_sample sample_claim = Inl packet_incomplete \<and>
   attach_evidence hash max_bytes retired_sample sample_claim 1 data filename actor now = Inl unknown_catalog_item"
proof -
  have r: "rdb retired_sample = sample_reimb\<lparr>catalog := [order_catalog\<lparr>ct_active := False\<rparr>], items := [order_item], it_seq := 1\<rparr>"
    by (simp add: retired_sample_def)
  have cat: "claim_catalog (rdb retired_sample) ''reimbursement'' = []" by (simp add: r claim_catalog_def)
  have "build_plan retired_sample sample_claim 7 = Inr []"
    by (simp add: build_plan_def cat plan_checklist_def sorted_catalog_def map_filter_simps)
  then have "assert_packet_complete retired_sample sample_claim 7 = Inr retired_sample"
    by (simp add: assert_packet_complete_def refresh_checklist_def checklist_view_def complete_def packet_status_def Let_def)
  moreover have "counts_get (evidence_counts retired_sample 1) i = (0, 0, 0)" for i
    by (rule evidence_counts_fresh) (simp add: r sample_reimb_def)
  then have "persisted_blocking retired_sample sample_claim \<noteq> []"
    by (simp add: persisted_blocking_def r order_item_def map_filter_simps Let_def) (simp add: order_catalog_def seed_check_def BLOCKING_EVIDENCE_def)
  moreover have "attach_evidence hash max_bytes retired_sample sample_claim 1 data filename actor now = Inl unknown_catalog_item"
    by (simp add: attach_evidence_def item_for_catalog_def cat)
  ultimately show ?thesis by (simp add: assert_persisted_packet_complete_def)
qed

end
