(* ===== verification/Claim_Lifecycle.thy ===== *)
theory Claim_Lifecycle
  imports Claim_Checklist
begin

text \<open>
  The lifecycle of a claim, \<open>services/lifecycle.py\<close>: the one path from the module onto the workflow
  engine. Every call locks the claim row, so calls on one claim run one after the other; an exception
  rolls the whole transaction back. \<open>stamp\<close> is the text of the clock that goes into the totals snapshot.
  \<open>session.get\<close> of a row that is not in the session is a select, so it does not see soft-deleted rows.
\<close>

section \<open>Lookups\<close>

definition locked_claim :: "oc_db \<Rightarrow> int \<Rightarrow> claim res" where
  "locked_claim db k = (case get_claim (rdb db) k of None \<Rightarrow> Inl claim_not_found | Some c \<Rightarrow> Inr c)"

definition db_users :: "oc_db \<Rightarrow> user list" where
  "db_users db = users (auth (wfdb db))"

definition owner_user :: "oc_db \<Rightarrow> int \<Rightarrow> user option res" where
  "owner_user db claimant = only_row (filter (\<lambda>u. user_staff u = Some claimant \<and> user_is_active u) (db_users db))"

definition is_claim_owner :: "oc_db \<Rightarrow> claim \<Rightarrow> int \<Rightarrow> bool" where
  "is_claim_owner db c actor =
     (case row_get user_id (db_users db) actor of None \<Rightarrow> False | Some u \<Rightarrow> user_staff u = Some (cl_claimant c))"

definition OVERSIGHT_PERMS :: "string list" where
  "OVERSIGHT_PERMS = [''reimb.claim.review'', ''reimb.claim.fms_update'', ''reimb.claim.approve'']"

definition live_staff :: "oc_db \<Rightarrow> int \<Rightarrow> staff option" where
  "live_staff db k = row_get sf_id (filter (\<lambda>s. \<not> sf_deleted s) (staffs (rdb db))) k"

text \<open>\<open>staff.section_id or staff.division_id\<close>, of a staff row that is there.\<close>

definition staff_unit :: "oc_db \<Rightarrow> int \<Rightarrow> int option" where
  "staff_unit db k =
     (case live_staff db k of
        None \<Rightarrow> None
      | Some s \<Rightarrow> (if sf_section s = None \<or> sf_section s = Some 0 then sf_division s else sf_section s))"

definition may_see_claim :: "oc_db \<Rightarrow> claim \<Rightarrow> int \<Rightarrow> bool" where
  "may_see_claim db c actor =
     (if is_claim_owner db c actor then True
      else
        (let inst = Option.bind (cl_instance c) (get_instance (wfdb db));
             org0 = Option.bind inst in_org;
             org = (if org0 = None then staff_unit db (cl_claimant c) else org0) in
         if org = None then False
         else (\<exists>p \<in> set OVERSIGHT_PERMS. authorize_scoped (auth (wfdb db)) actor p org)))"

definition assert_advance_settled :: "oc_db \<Rightarrow> claim \<Rightarrow> unit res" where
  "assert_advance_settled db c =
     (case cl_cash_advance c of
        None \<Rightarrow> Inl liquidation_without_advance
      | Some k \<Rightarrow>
          (case find_advance (rdb db) k of
             None \<Rightarrow> Inl settlement_required
           | Some a \<Rightarrow> if ca_st a \<noteq> CaSettled then Inl settlement_required else Inr ()))"

definition assert_payout_recorded :: "claim \<Rightarrow> unit res" where
  "assert_payout_recorded c =
     (if strip (case cl_payout_ref c of None \<Rightarrow> [] | Some s \<Rightarrow> s) = [] then Inl payout_required else Inr ())"

definition assert_return_reasons :: "oc_db \<Rightarrow> int list \<Rightarrow> unit res" where
  "assert_return_reasons db ids =
     (if ids = [] then Inl return_reason_required
      else if \<exists>i \<in> set ids. \<not> (\<exists>r \<in> set (return_reasons (rdb db)). rr_id r = i \<and> rr_active r)
      then Inl unknown_return_reason else Inr ())"

fun latest_config :: "config_row \<Rightarrow> config_row list \<Rightarrow> config_row" where
  "latest_config m [] = m"
| "latest_config m (r # rs) = latest_config (if cf_from r > cf_from m then r else m) rs"

definition config_int :: "oc_db \<Rightarrow> string \<Rightarrow> string \<Rightarrow> int \<Rightarrow> date \<Rightarrow> int" where
  "config_int db key fld dflt today =
     (case filter (\<lambda>r. cf_key r = key \<and> cf_active r \<and> cf_from r \<le> today) (configs (rdb db)) of
        [] \<Rightarrow> dflt
      | r # rs \<Rightarrow> (case int_field (cf_value (latest_config r rs)) fld of None \<Rightarrow> dflt | Some n \<Rightarrow> n))"

definition config_working_days :: "oc_db \<Rightarrow> string \<Rightarrow> int \<Rightarrow> date \<Rightarrow> int" where
  "config_working_days db key dflt today = config_int db key ''working_days'' dflt today"

section \<open>Holders\<close>

text \<open>\<open>{unit: rank for rank, unit in enumerate(ancestry)}\<close>: the last rank of a unit wins.\<close>

definition proximity :: "int list \<Rightarrow> int \<Rightarrow> nat option" where
  "proximity ancestry u = map_of (rev (map (\<lambda>(n, v). (v, n)) (enumerate 0 ancestry))) u"

definition gate_candidates :: "oc_db \<Rightarrow> wf_state \<Rightarrow> wf_instance \<Rightarrow> (nat \<times> int) list" where
  "gate_candidates db st i =
     (let holders = (case st_perm st of None \<Rightarrow> []
                     | Some p \<Rightarrow> permission_holders (auth (wfdb db)) p (in_org i) (wall (auth (wfdb db))));
          ancestry = ancestors_or_self (org_units (auth (wfdb db))) (in_org i) in
      sort (List.map_filter (\<lambda>(uid, unit).
        case unit of
          None \<Rightarrow> None
        | Some u \<Rightarrow>
            (case proximity ancestry u of
               None \<Rightarrow> None
             | Some n \<Rightarrow> if st_segregation st \<and> Some uid = in_originator i then None else Some (n, uid)))
        holders))"

definition resolve_holder :: "oc_db \<Rightarrow> wf_state \<Rightarrow> claim \<Rightarrow> wf_instance \<Rightarrow> (string option \<times> int option) res" where
  "resolve_holder db st c i =
     (if st_kind st = Terminal then Inr (None, None)
      else rbind (vocabulary (Some (cl_kind c))) (\<lambda>vocab.
        if st_code st \<in> vc_claimant vocab
        then rbind (owner_user db (cl_claimant c)) (\<lambda>owner.
               Inr (Some ''user'', (case owner of None \<Rightarrow> in_originator i | Some u \<Rightarrow> Some (user_id u))))
        else if st_code st \<in> vc_external vocab then Inr (Some ''external_fms'', None)
        else (case gate_candidates db st i of
                [] \<Rightarrow> Inl no_eligible_holder
              | (n, uid) # _ \<Rightarrow> Inr (Some ''user'', Some uid))))"

section \<open>Mirror and deadline of a step\<close>

definition put_claim :: "oc_db \<Rightarrow> claim \<Rightarrow> oc_db" where
  "put_claim db c = db\<lparr>rdb := (rdb db)\<lparr>claims := row_upd cl_id (cl_id c) (\<lambda>_. c) (claims (rdb db))\<rparr>\<rparr>"

definition add_history :: "oc_db \<Rightarrow> status_history \<Rightarrow> oc_db" where
  "add_history db h = db\<lparr>rdb := (rdb db)\<lparr>histories := histories (rdb db) @ [h]\<rparr>\<rparr>"

text \<open>\<open>claim.status or DRAFT\<close>.\<close>

definition status_or_draft :: "claim \<Rightarrow> string" where
  "status_or_draft c = (if truthy (cl_status c) then the (cl_status c) else DRAFT)"

text \<open>
  The partial unique indexes of the claims table on a row that is written:
  \<open>uq_reimb_claims_live_liquidation_per_advance\<close> and \<open>uq_reimb_claims_spawn_per_liquidation\<close>.
\<close>

definition liquidation_taken :: "reimb_db \<Rightarrow> claim \<Rightarrow> bool" where
  "liquidation_taken r c =
     (case cl_cash_advance c of
        None \<Rightarrow> False
      | Some k \<Rightarrow> live_liquidation_of k c \<and> (\<exists>x \<in> set (claims r). cl_id x \<noteq> cl_id c \<and> live_liquidation_of k x))"

definition spawn_taken :: "reimb_db \<Rightarrow> claim \<Rightarrow> bool" where
  "spawn_taken r c \<longleftrightarrow> cl_spawned_from c \<noteq> None \<and> cl_status c \<noteq> Some CANCELLED \<and>
     (\<exists>x \<in> set (claims r). cl_id x \<noteq> cl_id c \<and> cl_spawned_from x = cl_spawned_from c \<and> cl_status x \<noteq> Some CANCELLED)"

text \<open>The flush at the end writes the new status, which a unique index may refuse.\<close>

definition sync_claim_from_event :: "oc_db \<Rightarrow> claim \<Rightarrow> wf_event \<Rightarrow> instant \<Rightarrow> (claim \<times> oc_db) res" where
  "sync_claim_from_event db c e now =
     (case Option.bind (ev_to e) (get_state (wfdb db)) of
        None \<Rightarrow> Inl AttributeError
      | Some to_state \<Rightarrow>
          if st_code to_state = status_or_draft c then Inr (c, db)
          else (case Option.bind (cl_instance c) (get_instance (wfdb db)) of
             None \<Rightarrow> Inl AttributeError
           | Some i \<Rightarrow>
               rbind (resolve_holder db to_state c i) (\<lambda>(kind, holder).
               rbind (vocabulary (Some (cl_kind c))) (\<lambda>vocab.
                 let c' = c\<lparr>cl_status := Some (st_code to_state), cl_holder_kind := kind, cl_holder := holder,
                            cl_holder_since := (if kind \<noteq> None then Some now else None),
                            cl_next_action := Option.bind (map_of (vc_next_action vocab) (st_code to_state)) id\<rparr> in
                 if liquidation_taken (rdb db) c' \<or> spawn_taken (rdb db) c' then Inl IntegrityError
                 else Inr (c', add_history (put_claim db c')
                   \<lparr>hs_claim = cl_id c, hs_from = Some (status_or_draft c), hs_to = st_code to_state,
                    hs_actor = ev_actor e, hs_note = ev_comment e\<rparr>)))))"

definition SLA_WD_KEY :: string where "SLA_WD_KEY = ''sla.approval_working_days''"
definition SLA_WD_DEFAULT :: int where "SLA_WD_DEFAULT = 3"

text \<open>17:00 in Manila on a date, as an instant.\<close>

definition due_instant :: "date \<Rightarrow> instant" where
  "due_instant d = (d - 1) * 86400000000 + 9 * 3600000000"

definition sla_due_date :: "oc_db \<Rightarrow> instant \<Rightarrow> date res" where
  "sla_due_date db now =
     (let today = manila_date now;
          n = config_working_days db SLA_WD_KEY SLA_WD_DEFAULT today in
      rbind (date_add today (n * 4 + 14)) (\<lambda>window_end.
      add_working_days today n (load_nonworking_dates (holidays (rdb db)) today window_end)))"

definition stamp_sla :: "oc_db \<Rightarrow> claim \<Rightarrow> int \<Rightarrow> wf_event \<Rightarrow> instant \<Rightarrow> oc_db res" where
  "stamp_sla db c iid e now =
     (case (Option.bind (ev_to e) (get_state (wfdb db)), get_instance (wfdb db) iid) of
        (Some st, Some i) \<Rightarrow>
          if \<not> st_gate st then Inr db
          else rbind (vocabulary (Some (cl_kind c))) (\<lambda>vocab.
            if st_code st \<in> vc_external vocab then Inr db
            else
              (let fresh = (\<lambda>s. in_gate iid (st_id st) (in_revision i) s \<and> sp_status s = Active \<and> sp_sla_due s = None) in
               if filter fresh (steps (wfdb db)) = [] then Inr db
               else rbind (sla_due_date db now) (\<lambda>d.
                 Inr (db\<lparr>wfdb := set_due (wfdb db) fresh (due_instant d)\<rparr>))))
      | _ \<Rightarrow> Inl AttributeError)"

section \<open>Drafts\<close>

definition JO_COS_STATUSES :: "string set" where
  "JO_COS_STATUSES = {''job_order'', ''contract_of_service''}"

definition blank_claim :: "int \<Rightarrow> string \<Rightarrow> int \<Rightarrow> claim" where
  "blank_claim k kind claimant =
     \<lparr>cl_id = k, cl_ref_no = None, cl_kind = kind, cl_claimant = claimant, cl_activity = None, cl_instance = None,
      cl_dpo_no = None, cl_dpo_date = None, cl_dpo_document = None, cl_purpose = None, cl_destination = None,
      cl_region = None, cl_date_depart = None, cl_date_return = None, cl_within_50km = False, cl_overnight = False,
      cl_fund_source = None, cl_jo_cos = False, cl_cash_advance = None, cl_spawned_from = None, cl_other_total = 0,
      cl_payout_ref = None, cl_paid_on = None, cl_paid_by = None, cl_status = None, cl_holder_kind = None, cl_holder = None,
      cl_holder_since = None, cl_next_action = None, cl_liq_deadline = None, cl_totals = JObj []\<rparr>"

definition add_claim :: "oc_db \<Rightarrow> claim \<Rightarrow> oc_db" where
  "add_claim db c = db\<lparr>rdb := (rdb db)\<lparr>claims := claims (rdb db) @ [c], cl_seq := cl_seq (rdb db) + 1\<rparr>\<rparr>"

definition create_draft_claim :: "oc_db \<Rightarrow> int \<Rightarrow> string \<Rightarrow> instant \<Rightarrow> (claim \<times> oc_db) res" where
  "create_draft_claim db actor kind now =
     rbind (vocabulary (Some kind)) (\<lambda>vocab.
       case Option.bind (Option.bind (row_get user_id (db_users db) actor) user_staff) (live_staff db) of
         None \<Rightarrow> Inl no_staff_link
       | Some staff \<Rightarrow>
           (case map_of (vc_next_action vocab) DRAFT of
              None \<Rightarrow> Inl KeyError
            | Some next \<Rightarrow>
                (let c = (blank_claim (cl_seq (rdb db) + 1) kind (sf_id staff))
                       \<lparr>cl_jo_cos := (case sf_employment staff of None \<Rightarrow> False | Some s \<Rightarrow> s \<in> JO_COS_STATUSES),
                        cl_status := Some DRAFT, cl_holder_kind := Some ''user'', cl_holder := Some actor,
                        cl_holder_since := Some now, cl_next_action := next\<rparr> in
                 Inr (c, add_history (add_claim db c)
                   \<lparr>hs_claim = cl_id c, hs_from = None, hs_to = DRAFT, hs_actor = Some actor, hs_note = None\<rparr>))))"

section \<open>Submitting\<close>

definition REF_SCOPES :: "(string \<times> string) list" where
  "REF_SCOPES = [(REIMBURSEMENT_KIND, ''RB''), (LIQUIDATION_KIND, ''LQ'')]"

text \<open>\<open>to_money\<close> of a decoded JSON value.\<close>

fun json_money :: "json \<Rightarrow> int res" where
  "json_money (JStr s) = (case parse_decimal s of None \<Rightarrow> Inl InvalidOperation | Some d \<Rightarrow> to_money d)"
| "json_money (JInt n) = to_money (Fin n 0)"
| "json_money (JBool b) = to_money (Fin (if b then 1 else 0) 0)"
| "json_money (JFloat c e) = to_money (Fin c e)"
| "json_money _ = Inl TypeError"

fun json_truthy :: "json \<Rightarrow> bool" where
  "json_truthy JNull = False"
| "json_truthy (JBool b) = b"
| "json_truthy (JInt n) = (n \<noteq> 0)"
| "json_truthy (JFloat c e) = (c \<noteq> 0)"
| "json_truthy (JStr s) = (s \<noteq> [])"
| "json_truthy (JList xs) = (xs \<noteq> [])"
| "json_truthy (JObj kvs) = (kvs \<noteq> [])"

text \<open>\<open>to_money(totals["grand"])\<close>, and \<open>to_money(totals.get(field) or 0)\<close>.\<close>

definition totals_grand :: "claim \<Rightarrow> int res" where
  "totals_grand c = (case obj_get (cl_totals c) ''grand'' of None \<Rightarrow> Inl KeyError | Some v \<Rightarrow> json_money v)"

definition totals_money :: "claim \<Rightarrow> string \<Rightarrow> int res" where
  "totals_money c fld =
     (case obj_get (cl_totals c) fld of
        None \<Rightarrow> Inr 0
      | Some v \<Rightarrow> if json_truthy v then json_money v else Inr 0)"

text \<open>A claim that nets an advance must still be owed something.\<close>

definition assert_not_below_advance :: "claim \<Rightarrow> unit res" where
  "assert_not_below_advance c =
     (if cl_kind c = REIMBURSEMENT_KIND \<and> cl_cash_advance c \<noteq> None
      then rbind (totals_money c ''to_refund'') (\<lambda>r. if r > 0 then Inl spawn_below_advance else Inr ())
      else Inr ())"

definition price_claim :: "oc_db \<Rightarrow> int \<Rightarrow> string \<Rightarrow> (claim \<times> oc_db) res" where
  "price_claim db k stamp =
     rbind (compute_claim_totals (rdb db) k None stamp) (\<lambda>(_, r).
     rbind (locked_claim (db\<lparr>rdb := r\<rparr>) k) (\<lambda>c. Inr (c, db\<lparr>rdb := r\<rparr>)))"

definition manila_year :: "instant \<Rightarrow> nat" where
  "manila_year now = fst (ord2ymd (nat (manila_date now)))"

definition submit_key :: "claim \<Rightarrow> wf_instance \<Rightarrow> string" where
  "submit_key c i = ''submit:'' @ int_str (cl_id c) @ '':'' @ int_str (in_revision i)"

text \<open>The guards of a first submit, in the source's order; the result is the chain, the number series and the unit.\<close>

definition submit_guards :: "oc_db \<Rightarrow> claim \<Rightarrow> int \<Rightarrow> (string \<times> string \<times> int) res" where
  "submit_guards db c actor =
     rbind (definition_code (Some (cl_kind c))) (\<lambda>chain.
     rbind (case map_of REF_SCOPES (if cl_kind c = [] then REIMBURSEMENT_KIND else cl_kind c) of
              None \<Rightarrow> Inl KeyError | Some s \<Rightarrow> Inr s) (\<lambda>scope.
       if \<not> is_claim_owner db c actor then Inl not_claim_owner
       else if cl_instance c \<noteq> None then Inl claim_already_submitted
       else if status_or_draft c = CANCELLED then Inl claim_cancelled
       else (case staff_unit db (cl_claimant c) of
               None \<Rightarrow> Inl claimant_no_org_unit
             | Some org \<Rightarrow> Inr (chain, scope, org))))"

definition number_claim :: "oc_db \<Rightarrow> claim \<Rightarrow> string \<Rightarrow> instant \<Rightarrow> claim \<times> oc_db" where
  "number_claim db c scope now =
     (case cl_ref_no c of
        Some _ \<Rightarrow> (c, db)
      | None \<Rightarrow>
          (let (n, cs) = allocate_reference_number (counters db) scope (manila_year now) in
           (c\<lparr>cl_ref_no := Some n\<rparr>, db\<lparr>counters := cs\<rparr>)))"

definition submit_claim :: "oc_db \<Rightarrow> int \<Rightarrow> int \<Rightarrow> string option \<Rightarrow> string \<Rightarrow> instant \<Rightarrow> (claim \<times> oc_db) res" where
  "submit_claim db k actor key stamp now =
     rbind (locked_claim db k) (\<lambda>c0.
     rbind (submit_guards db c0 actor) (\<lambda>(chain, scope, org).
     rbind (price_claim db k stamp) (\<lambda>(c1, db1).
     rbind (assert_not_below_advance c1) (\<lambda>_.
     rbind (assert_packet_complete db1 c1 now) (\<lambda>db2.
     rbind (totals_grand c1) (\<lambda>grand.
     rbind (start_instance (wfdb db2) chain (Some actor) (Some org) (Some SUBJECT_KIND) (Some (cl_id c1)) (Some grand)
              (Some FEATURE_FLAG_KEY) now) (\<lambda>(i, w3).
       let (c4, db4) = number_claim (db2\<lparr>wfdb := w3\<rparr>) c1 scope now;
           c5 = c4\<lparr>cl_instance := Some (in_id i)\<rparr>;
           db5 = put_claim db4 c5 in
     rbind (execute_action (wfdb db5) (in_id i) Submit actor None (Some (if truthy key then the key else submit_key c5 i)) None now) (\<lambda>(e, w6).
     rbind (sync_claim_from_event (db5\<lparr>wfdb := w6\<rparr>) c5 e now) (\<lambda>(c7, db7).
     rbind (stamp_sla db7 c7 (in_id i) e now) (\<lambda>db8.
       let db9 = generate_on_commit db8 HOLDER_KIND (cl_id c7) in
       Inr (c7, case cl_spawned_from c7 of None \<Rightarrow> db9 | Some s \<Rightarrow> generate_on_commit db9 HOLDER_KIND s)))))))))))"

section \<open>Acting on a submitted claim\<close>

definition claim_verb :: "string \<Rightarrow> transition_action option" where
  "claim_verb = map_of [(''approve'', Approve), (''return'', Return), (''resubmit'', Resubmit), (''cancel'', Cancel)]"

definition action_key :: "string \<Rightarrow> claim \<Rightarrow> wf_instance \<Rightarrow> int \<Rightarrow> string" where
  "action_key action c i actor =
     action @ '':'' @ int_str (cl_id c) @ '':'' @ int_str (in_revision i) @ '':'' @ int_str (in_state i) @ '':'' @ int_str actor"

text \<open>What has to hold before the engine is asked, per verb.\<close>

definition resubmit_prepare :: "oc_db \<Rightarrow> claim \<Rightarrow> wf_instance \<Rightarrow> string \<Rightarrow> instant \<Rightarrow> (claim \<times> oc_db) res" where
  "resubmit_prepare db c i stamp now =
     rbind (price_claim db (cl_id c) stamp) (\<lambda>(c1, db1).
     rbind (assert_packet_complete db1 c1 now) (\<lambda>db2.
     rbind (totals_grand c1) (\<lambda>grand.
       Inr (c1, db2\<lparr>wfdb := set_amount (wfdb db2) (in_id i) (Some grand)\<rparr>))))"

definition approve_guards :: "oc_db \<Rightarrow> claim \<Rightarrow> unit res" where
  "approve_guards db c =
     rbind (assert_persisted_packet_complete db c) (\<lambda>_.
       if status_or_draft c = HANDED_TO_FMS
       then (if cl_kind c = LIQUIDATION_KIND then assert_advance_settled db c else assert_payout_recorded c)
       else Inr ())"

definition action_prepare ::
  "oc_db \<Rightarrow> claim \<Rightarrow> wf_instance \<Rightarrow> transition_action \<Rightarrow> int \<Rightarrow> int list \<Rightarrow> string \<Rightarrow> instant \<Rightarrow> (claim \<times> oc_db) res" where
  "action_prepare db c i act actor reasons stamp now =
     rbind (if act = Return then assert_return_reasons db reasons else Inr ()) (\<lambda>_.
       if act \<in> {Resubmit, Cancel} \<and>
          \<not> (is_claim_owner db c actor \<or> authorize_scoped (auth (wfdb db)) actor ''reimb.claim.review'' (in_org i))
       then Inl not_claim_owner
       else if act = Resubmit then resubmit_prepare db c i stamp now
       else if act = Approve then rbind (approve_guards db c) (\<lambda>_. Inr (c, db))
       else Inr (c, db))"

definition record_return :: "oc_db \<Rightarrow> claim \<Rightarrow> wf_event \<Rightarrow> int list \<Rightarrow> string option \<Rightarrow> oc_db res" where
  "record_return db c e reasons comment =
     (case (Option.bind (ev_to e) (get_state (wfdb db)), ev_from e, ev_revision e) of
        (Some to_state, Some from_id, Some rv) \<Rightarrow>
          (let gate = gate_steps (steps (wfdb db)) (ev_instance e) from_id rv in
           Inr (db\<lparr>rdb := (rdb db)\<lparr>return_events := return_events (rdb db) @
             [\<lparr>re_claim = cl_id c, re_step = map_option sp_id (find (\<lambda>s. sp_status s = Returned) gate),
               re_reasons = reasons, re_comment = comment,
               re_returned_to = (if st_code to_state = RETURNED then ''claimant'' else ''previous_step'')\<rparr>]\<rparr>\<rparr>))
      | _ \<Rightarrow> Inl AttributeError)"

record action_request =
  rq_claim :: int
  rq_action :: string
  rq_actor :: int
  rq_comment :: "string option"
  rq_reasons :: "int list"
  rq_key :: "string option"
  rq_expected :: "int option"

definition claim_action :: "oc_db \<Rightarrow> action_request \<Rightarrow> string \<Rightarrow> instant \<Rightarrow> (claim \<times> oc_db) res" where
  "claim_action db rq stamp now =
     (case claim_verb (rq_action rq) of
        None \<Rightarrow> Inl unsupported_claim_action
      | Some act \<Rightarrow>
     rbind (locked_claim db (rq_claim rq)) (\<lambda>c0.
       if \<not> may_see_claim db c0 (rq_actor rq) then Inl not_claim_owner
       else (case cl_instance c0 of
          None \<Rightarrow> Inl claim_not_in_workflow
        | Some iid \<Rightarrow>
     (case get_instance (wfdb db) iid of
        None \<Rightarrow> Inl AttributeError
      | Some i \<Rightarrow>
     rbind (action_prepare db c0 i act (rq_actor rq) (rq_reasons rq) stamp now) (\<lambda>(c1, db1).
       let key = (if truthy (rq_key rq) then the (rq_key rq) else action_key (rq_action rq) c1 i (rq_actor rq));
           replayed = (\<exists>e \<in> set (events (wfdb db1)). ev_instance e = iid \<and> ev_key e = Some key) in
     rbind (execute_action (wfdb db1) iid act (rq_actor rq) (rq_comment rq) (Some key) (rq_expected rq) now) (\<lambda>(e, w2).
       let db2 = db1\<lparr>wfdb := w2\<rparr> in
     rbind (if act = Return \<and> \<not> replayed then record_return db2 c1 e (rq_reasons rq) (rq_comment rq) else Inr db2) (\<lambda>db3.
     rbind (sync_claim_from_event db3 c1 e now) (\<lambda>(c4, db4).
     rbind (stamp_sla db4 c4 iid e now) (\<lambda>db5.
       Inr (c4, if act = Resubmit \<and> \<not> replayed then generate_on_commit db5 HOLDER_KIND (cl_id c4) else db5))))))))))"

definition cancel_draft_claim :: "oc_db \<Rightarrow> int \<Rightarrow> int \<Rightarrow> string \<Rightarrow> (claim \<times> oc_db) res" where
  "cancel_draft_claim db k actor comment =
     rbind (locked_claim db k) (\<lambda>c.
       if \<not> is_claim_owner db c actor then Inl not_claim_owner
       else if cl_instance c \<noteq> None then Inl claim_already_submitted
       else if comment = [] then Inl comment_required
       else if status_or_draft c = CANCELLED then Inl claim_cancelled
       else
         (let c' = c\<lparr>cl_status := Some CANCELLED, cl_holder_kind := None, cl_holder := None, cl_holder_since := None,
                     cl_next_action := None\<rparr> in
          Inr (c', add_history (put_claim db c')
            \<lparr>hs_claim = cl_id c, hs_from = Some (status_or_draft c), hs_to = CANCELLED, hs_actor = Some actor, hs_note = Some comment\<rparr>)))"

section \<open>Effects\<close>

text \<open>What the lifecycle's guarantees speak of: the columns of a claim no pricing and no checklist touches.\<close>

definition ca_tables :: "reimb_db \<Rightarrow> cash_advance list \<times> int" where
  [simp]: "ca_tables r = (advances r, ca_seq r)"

definition core :: "claim \<Rightarrow> int \<times> string \<times> int \<times> int option \<times> string option \<times> string option \<times> int option" where
  "core c = (cl_id c, cl_kind c, cl_claimant c, cl_instance c, cl_status c, cl_payout_ref c, cl_cash_advance c)"

lemma core_eq: "core c = core d \<longleftrightarrow> cl_id c = cl_id d \<and> cl_kind c = cl_kind d \<and> cl_claimant c = cl_claimant d \<and>
    cl_instance c = cl_instance d \<and> cl_status c = cl_status d \<and> cl_payout_ref c = cl_payout_ref d \<and> cl_cash_advance c = cl_cash_advance d"
  by (auto simp: core_def)

definition replace_claim :: "claim \<Rightarrow> claim list \<Rightarrow> claim list" where
  "replace_claim c = row_upd cl_id (cl_id c) (\<lambda>_. c)"

lemma replace_claim_core: "core c = core d \<Longrightarrow> map core (replace_claim c cs) = map core (replace_claim d cs)"
  by (induction cs) (auto simp: replace_claim_def core_eq)

lemma replace_claim_twice: "cl_id c = cl_id d \<Longrightarrow> replace_claim c (replace_claim d cs) = replace_claim c cs"
  by (induction cs) (auto simp: replace_claim_def)

lemma replace_claim_Cons: "replace_claim c (x # xs) = (if cl_id x = cl_id c then c else x) # replace_claim c xs"
  by (simp add: replace_claim_def)

lemma replace_claim_Nil: "replace_claim c [] = []"
  by (simp add: replace_claim_def)

lemma replace_claim_map_core: "map core xs = map core ys \<Longrightarrow> map core (replace_claim c xs) = map core (replace_claim c ys)"
proof (induction xs arbitrary: ys)
  case (Cons x xs)
  then obtain y zs where y: "ys = y # zs" "core x = core y" "map core xs = map core zs"
    by (cases ys) auto
  then have "cl_id x = cl_id y" by (simp add: core_eq)
  then show ?case using y Cons.IH by (simp add: replace_claim_Cons)
qed (simp add: replace_claim_Nil)

lemma replace_same_core:
  assumes "get_claim r k = Some c0" "core c = core c0" "distinct (map cl_id (claims r))"
  shows "map core (replace_claim c (claims r)) = map core (claims r)"
proof -
  have "core x = core c" if "x \<in> set (claims r)" "cl_id x = cl_id c" for x
  proof -
    have k: "cl_id c0 = k" using assms(1) by auto
    then have "cl_id x = k" using that assms(2) by (simp add: core_eq)
    then have "x = c0" using row_get_distinct [OF assms(3) that(1)] assms(1) by simp
    then show ?thesis using assms(2) by simp
  qed
  then show ?thesis unfolding replace_claim_def row_upd_def map_map by (intro map_cong) auto
qed

lemma claims_put [simp]: "claims (rdb (put_claim db c)) = replace_claim c (claims (rdb db))"
  by (simp add: put_claim_def replace_claim_def)

lemma put_claim_other [simp]: "wfdb (put_claim db c) = wfdb db" "advances (rdb (put_claim db c)) = advances (rdb db)" "ca_seq (rdb (put_claim db c)) = ca_seq (rdb db)"
  "cl_seq (rdb (put_claim db c)) = cl_seq (rdb db)" "counters (put_claim db c) = counters db"
  by (simp_all add: put_claim_def)

lemma add_history_other [simp]: "wfdb (add_history db h) = wfdb db" "claims (rdb (add_history db h)) = claims (rdb db)"
  "advances (rdb (add_history db h)) = advances (rdb db)" "ca_seq (rdb (add_history db h)) = ca_seq (rdb db)" "cl_seq (rdb (add_history db h)) = cl_seq (rdb db)"
  by (simp_all add: add_history_def)

lemma generate_on_commit_other [simp]: "wfdb (generate_on_commit db kind s) = wfdb db" "rdb (generate_on_commit db kind s) = rdb db"
  by (simp_all add: generate_on_commit_def)

lemma locked_claim_Inr: "locked_claim db k = Inr c \<longleftrightarrow> get_claim (rdb db) k = Some c"
  by (auto simp: locked_claim_def split: option.splits)

lemma price_claim_effect:
  assumes "price_claim db k stamp = Inr (c, db1)"
  obtains c0 where "get_claim (rdb db) k = Some c0" "core c = core c0" "get_claim (rdb db1) k = Some c" "wfdb db1 = wfdb db"
    "map core (claims (rdb db1)) = map core (replace_claim c (claims (rdb db)))" "ca_tables (rdb db1) = ca_tables (rdb db)"
    "cl_seq (rdb db1) = cl_seq (rdb db)"
proof -
  obtain r res where r: "compute_claim_totals (rdb db) k None stamp = Inr (res, r)" "get_claim r k = Some c" "db1 = db\<lparr>rdb := r\<rparr>"
    using assms by (auto simp: price_claim_def rbind_eq_Inr locked_claim_Inr)
  obtain c0 other where c0: "get_claim (rdb db) k = Some c0"
    "r = (rdb db)\<lparr>legs := map (\<lambda>l. if lg_claim l = k then write_leg res l else l) (legs (rdb db)),
       claims := row_upd cl_id k (\<lambda>_. priced_claim c0 res other (claim_advance (rdb db) c0) stamp) (claims (rdb db))\<rparr>"
    by (rule compute_claim_totals_cases [OF r(1)])
  have id: "cl_id c0 = k" using c0(1) by auto
  then have c: "c = priced_claim c0 res other (claim_advance (rdb db) c0) stamp"
    using r(2) c0 by (auto simp: row_get_upd)
  have "core c = core c0" by (simp add: c core_eq priced_claim_def Let_def)
  then show thesis
    using r c0 by (intro that) (auto simp: c replace_claim_def id)
qed

lemma apply_plan_frame: "apply_plan k now p db = db\<lparr>items := items (apply_plan k now p db), it_seq := it_seq (apply_plan k now p db)\<rparr>"
  by (auto simp: apply_plan_def Let_def add_item_def put_item_def split: option.splits plan_action.splits)

lemma apply_plans_frame: "fold (apply_plan k now) ps db = db\<lparr>items := items (fold (apply_plan k now) ps db), it_seq := it_seq (fold (apply_plan k now) ps db)\<rparr>"
proof (induction ps arbitrary: db)
  case (Cons p ps)
  from Cons.IH [of "apply_plan k now p db"] items_only_trans [OF _ apply_plan_frame [of k now p db]] show ?case
    by (metis fold_simps(2))
qed simp

lemma packet_gate_effect:
  assumes "assert_packet_complete db c now = Inr db1"
  shows "db1 = db\<lparr>rdb := (rdb db)\<lparr>items := items (rdb db1), it_seq := it_seq (rdb db1)\<rparr>\<rparr>"
proof -
  obtain plan where "db1 = db\<lparr>rdb := fold (apply_plan (cl_id c) now) plan (rdb db)\<rparr>"
    using assms by (auto simp: assert_packet_complete_def refresh_checklist_def rbind_eq_Inr Let_def split: if_splits)
  then show ?thesis using apply_plans_frame [of "cl_id c" now plan "rdb db"] by simp
qed

lemma packet_gate_other:
  assumes "assert_packet_complete db c now = Inr db1"
  shows "wfdb db1 = wfdb db" "claims (rdb db1) = claims (rdb db)" "ca_tables (rdb db1) = ca_tables (rdb db)" "cl_seq (rdb db1) = cl_seq (rdb db)"
  by (subst packet_gate_effect [OF assms], simp)+

lemma sync_stages:
  assumes "sync_claim_from_event db c e now = Inr (c', db')"
  obtains st where "Option.bind (ev_to e) (get_state (wfdb db)) = Some st" "st_code st = status_or_draft c" "c' = c" "db' = db"
  | st kind holder since nxt h where "Option.bind (ev_to e) (get_state (wfdb db)) = Some st" "st_code st \<noteq> status_or_draft c"
    "c' = c\<lparr>cl_status := Some (st_code st), cl_holder_kind := kind, cl_holder := holder, cl_holder_since := since, cl_next_action := nxt\<rparr>"
    "db' = add_history (put_claim db c') h" "\<not> liquidation_taken (rdb db) c'" "\<not> spawn_taken (rdb db) c'"
proof -
  obtain st where st: "Option.bind (ev_to e) (get_state (wfdb db)) = Some st"
    using assms by (auto simp: sync_claim_from_event_def split: option.splits)
  show thesis
  proof (cases "st_code st = status_or_draft c")
    case True
    then show thesis using assms st by (intro that(1) [of st]) (simp_all add: sync_claim_from_event_def)
  next
    case False
    then obtain i where i: "Option.bind (cl_instance c) (get_instance (wfdb db)) = Some i"
      using assms st by (cases "Option.bind (cl_instance c) (get_instance (wfdb db))") (simp_all add: sync_claim_from_event_def)
    define moved where "moved kind holder vocab = c\<lparr>cl_status := Some (st_code st), cl_holder_kind := kind, cl_holder := holder,
      cl_holder_since := (if kind \<noteq> None then Some now else None),
      cl_next_action := Option.bind (map_of (vc_next_action vocab) (st_code st)) id\<rparr>" for kind holder and vocab :: vocab
    obtain kind holder vocab where "(if liquidation_taken (rdb db) (moved kind holder vocab) \<or> spawn_taken (rdb db) (moved kind holder vocab)
        then Inl IntegrityError
        else Inr (moved kind holder vocab, add_history (put_claim db (moved kind holder vocab))
          \<lparr>hs_claim = cl_id c, hs_from = Some (status_or_draft c), hs_to = st_code st, hs_actor = ev_actor e, hs_note = ev_comment e\<rparr>)) = Inr (c', db')"
      using assms unfolding sync_claim_from_event_def st option.case if_not_P [OF False] i Let_def moved_def [symmetric] rbind_eq_Inr split_paired_Ex prod.case
      by blast
    then have m: "c' = moved kind holder vocab" "\<not> liquidation_taken (rdb db) c'" "\<not> spawn_taken (rdb db) c'"
      "db' = add_history (put_claim db c')
        \<lparr>hs_claim = cl_id c, hs_from = Some (status_or_draft c), hs_to = st_code st, hs_actor = ev_actor e, hs_note = ev_comment e\<rparr>"
      by (auto split: if_splits)
    show thesis by (rule that(2) [OF st False m(1) [unfolded moved_def] m(4,2,3)])
  qed
qed

text \<open>After a sync the claim shows the state the event led to.\<close>

lemma sync_effect:
  assumes "sync_claim_from_event db c e now = Inr (c', db')" "truthy (cl_status c)" "get_claim (rdb db) (cl_id c) = Some c"
    "distinct (map cl_id (claims (rdb db)))"
  obtains st where "Option.bind (ev_to e) (get_state (wfdb db)) = Some st" "core c' = core (c\<lparr>cl_status := Some (st_code st)\<rparr>)"
    "wfdb db' = wfdb db" "map core (claims (rdb db')) = map core (replace_claim c' (claims (rdb db)))"
    "ca_tables (rdb db') = ca_tables (rdb db)" "cl_seq (rdb db') = cl_seq (rdb db)"
  using assms(1)
proof (cases rule: sync_stages)
  case (1 st)
  have "cl_status c = Some (st_code st)" using 1(2) assms(2) by (cases "cl_status c") (auto simp: status_or_draft_def)
  moreover have "map core (replace_claim c (claims (rdb db))) = map core (claims (rdb db))"
    by (rule replace_same_core [OF assms(3) refl assms(4)])
  ultimately show thesis using 1 by (intro that [OF 1(1)]) (simp_all add: core_eq)
next
  case (2 st kind holder since nxt h)
  then show thesis by (intro that [OF 2(1)]) (simp_all add: core_eq)
qed

lemma stamp_effect:
  assumes "stamp_sla db c iid e now = Inr db'"
  obtains "db' = db" | P d where "db' = db\<lparr>wfdb := set_due (wfdb db) P d\<rparr>"
proof -
  have "db' = db \<or> (\<exists>P d. db' = db\<lparr>wfdb := set_due (wfdb db) P d\<rparr>)"
  proof (cases "Option.bind (ev_to e) (get_state (wfdb db))")
    case None
    then show ?thesis using assms by (simp add: stamp_sla_def)
  next
    case st: (Some st)
    show ?thesis
    proof (cases "get_instance (wfdb db) iid")
      case None
      then show ?thesis using assms st by (simp add: stamp_sla_def)
    next
      case (Some i)
      then show ?thesis using assms st unfolding stamp_sla_def Let_def
        by (simp add: rbind_eq_Inr split: if_splits) blast+
    qed
  qed
  then show thesis using that by blast
qed

end
