(* ===== verification/Lifecycle_Guarantees.thy ===== *)
theory Lifecycle_Guarantees
  imports Claim_Lifecycle
begin

text \<open>
  What the lifecycle guarantees: the status column of a claim is the engine's state, through every call of
  \<open>services/lifecycle.py\<close>, and a call that closes a claim had the facts the closing needs.
\<close>

section \<open>The mirror\<close>

definition inst_code :: "wf_db \<Rightarrow> int \<Rightarrow> string option" where
  "inst_code w iid = Option.bind (get_instance w iid) (\<lambda>i. map_option st_code (get_state w (in_state i)))"

definition mirrors :: "wf_db \<Rightarrow> claim \<Rightarrow> bool" where
  "mirrors w c \<longleftrightarrow>
     (case cl_instance c of
        None \<Rightarrow> cl_status c = Some DRAFT \<or> cl_status c = Some CANCELLED
      | Some iid \<Rightarrow> inst_code w iid \<noteq> None \<and> cl_status c = inst_code w iid)"

text \<open>No two claims run on one instance.\<close>

definition own_instances :: "claim list \<Rightarrow> bool" where
  "own_instances cs \<longleftrightarrow>
     (\<forall>c \<in> set cs. \<forall>d \<in> set cs. cl_instance c \<noteq> None \<and> cl_instance c = cl_instance d \<longrightarrow> cl_id c = cl_id d)"

lemma own_instancesI:
  "(\<And>c d. c \<in> set cs \<Longrightarrow> d \<in> set cs \<Longrightarrow> cl_instance c \<noteq> None \<Longrightarrow> cl_instance c = cl_instance d \<Longrightarrow> cl_id c = cl_id d) \<Longrightarrow>
     own_instances cs"
  unfolding own_instances_def by blast

lemma own_instancesD:
  "own_instances cs \<Longrightarrow> c \<in> set cs \<Longrightarrow> d \<in> set cs \<Longrightarrow> cl_instance c \<noteq> None \<Longrightarrow> cl_instance c = cl_instance d \<Longrightarrow> cl_id c = cl_id d"
  unfolding own_instances_def by blast

definition claims_sound :: "wf_db \<Rightarrow> claim list \<Rightarrow> int \<Rightarrow> bool" where
  "claims_sound w cs n \<longleftrightarrow> distinct (map cl_id cs) \<and> (\<forall>c \<in> set cs. cl_id c \<le> n \<and> mirrors w c) \<and> own_instances cs"

definition mirror_inv :: "oc_db \<Rightarrow> bool" where
  "mirror_inv db \<longleftrightarrow> engine_inv (wfdb db) \<and> (\<forall>s \<in> set (states (wfdb db)). st_code s \<noteq> []) \<and>
     claims_sound (wfdb db) (claims (rdb db)) (cl_seq (rdb db))"

lemma mirrors_core: "core c = core d \<Longrightarrow> mirrors w c = mirrors w d"
  by (cases "cl_instance d") (simp_all add: mirrors_def core_eq)

lemma same_core_mem:
  assumes "map core cs = map core ds" "c \<in> set cs"
  obtains d where "d \<in> set ds" "core d = core c"
proof -
  have "core c \<in> set (map core cs)" using assms(2) by simp
  then have "core c \<in> core ` set ds" unfolding assms(1) by simp
  then obtain d where "core c = core d" "d \<in> set ds" by (rule imageE)
  then show thesis by (intro that) simp_all
qed

lemma same_core_ids: "map core cs = map core ds \<Longrightarrow> map cl_id cs = map cl_id ds"
proof -
  have id: "cl_id = fst \<circ> core" by (simp add: fun_eq_iff core_def)
  show "map core cs = map core ds \<Longrightarrow> map cl_id cs = map cl_id ds"
    unfolding id map_map [symmetric] by simp
qed

lemma claims_sound_core:
  assumes "map core cs = map core ds" "claims_sound w ds n"
  shows "claims_sound w cs n"
proof -
  have "cl_id c \<le> n \<and> mirrors w c" if c: "c \<in> set cs" for c
  proof -
    obtain d where "d \<in> set ds" "core d = core c" by (rule same_core_mem [OF assms(1) c])
    then show ?thesis using assms(2) mirrors_core [of d c] by (auto simp: claims_sound_def core_eq)
  qed
  moreover have "own_instances cs"
  proof (rule own_instancesI)
    fix c d assume cd: "c \<in> set cs" "d \<in> set cs" "cl_instance c \<noteq> None" "cl_instance c = cl_instance d"
    obtain x where x: "x \<in> set ds" "core x = core c" by (rule same_core_mem [OF assms(1) cd(1)])
    obtain y where y: "y \<in> set ds" "core y = core d" by (rule same_core_mem [OF assms(1) cd(2)])
    have "cl_instance x \<noteq> None" "cl_instance x = cl_instance y" using cd x y by (simp_all add: core_eq)
    then have "cl_id x = cl_id y" using assms(2) own_instancesD [OF _ x(1) y(1)] unfolding claims_sound_def by blast
    then show "cl_id c = cl_id d" using x(2) y(2) by (simp add: core_eq)
  qed
  ultimately show ?thesis using assms(2) same_core_ids [OF assms(1)] unfolding claims_sound_def by auto
qed

lemma mirror_frame:
  assumes "mirror_inv db" "wfdb db' = wfdb db" "map core (claims (rdb db')) = map core (claims (rdb db))"
    "cl_seq (rdb db') = cl_seq (rdb db)"
  shows "mirror_inv db'"
  using assms claims_sound_core [OF assms(3)] by (simp add: mirror_inv_def)

lemma inst_code_due [simp]: "inst_code (set_due w P d) = inst_code w"
  by (simp add: fun_eq_iff inst_code_def set_due_def)

lemma inst_code_amount [simp]: "inst_code (set_amount w iid a) = inst_code w"
proof
  fix k
  have "states (set_amount w iid a) = states w" by (simp add: set_amount_def)
  then show "inst_code (set_amount w iid a) k = inst_code w k"
    by (cases "get_instance w k") (simp_all add: inst_code_def set_amount_get)
qed

lemma mem_replace:
  assumes "d \<in> set (replace_claim c cs)"
  shows "d = c \<or> d \<in> set cs \<and> cl_id d \<noteq> cl_id c"
  using assms by (auto simp: replace_claim_def row_upd_def)

lemma mirror_replace:
  assumes inv: "mirror_inv db" and c0: "get_claim (rdb db) (cl_id c) = Some c0"
    and e: "engine_inv (wfdb db')" "states (wfdb db') = states (wfdb db)"
    and cs: "map core (claims (rdb db')) = map core (replace_claim c (claims (rdb db)))" "cl_seq (rdb db') = cl_seq (rdb db)"
    and m: "mirrors (wfdb db') c"
    and own: "\<And>d. d \<in> set (claims (rdb db)) \<Longrightarrow> cl_id d \<noteq> cl_id c \<Longrightarrow> cl_instance d \<noteq> None \<Longrightarrow> cl_instance d \<noteq> cl_instance c"
    and others: "\<And>j. cl_instance c \<noteq> Some j \<Longrightarrow> inst_code (wfdb db) j \<noteq> None \<Longrightarrow> inst_code (wfdb db') j = inst_code (wfdb db) j"
  shows "mirror_inv db'"
proof -
  let ?cs = "claims (rdb db)"
  have old: "claims_sound (wfdb db) ?cs (cl_seq (rdb db))" using inv by (simp add: mirror_inv_def)
  have c0m: "c0 \<in> set ?cs" "cl_id c0 = cl_id c" using c0 by auto
  have keep: "mirrors (wfdb db') d" if d: "d \<in> set ?cs" "cl_id d \<noteq> cl_id c" for d
  proof (cases "cl_instance d")
    case None
    then show ?thesis using old d(1) by (auto simp: claims_sound_def mirrors_def)
  next
    case (Some j)
    have "mirrors (wfdb db) d" using old d(1) by (simp add: claims_sound_def)
    then obtain code where "cl_status d = Some code" "inst_code (wfdb db) j = Some code"
      unfolding mirrors_def Some option.case by auto
    moreover have "cl_instance c \<noteq> Some j" using own [OF d] Some by auto
    ultimately show ?thesis using others [of j] Some by (auto simp: mirrors_def)
  qed
  have ids: "map cl_id (replace_claim c ?cs) = map cl_id ?cs" by (simp add: replace_claim_def)
  have c_bound: "cl_id c \<le> cl_seq (rdb db')" using old c0m cs(2) by (force simp: claims_sound_def)
  have bound: "cl_id d \<le> cl_seq (rdb db') \<and> mirrors (wfdb db') d" if "d \<in> set (replace_claim c ?cs)" for d
    using mem_replace [OF that] old c_bound keep m cs(2) unfolding claims_sound_def by metis
  have inst: "own_instances (replace_claim c ?cs)"
  proof (rule own_instancesI)
    fix x y assume xy: "x \<in> set (replace_claim c ?cs)" "y \<in> set (replace_claim c ?cs)" "cl_instance x \<noteq> None" "cl_instance x = cl_instance y"
    have "own_instances ?cs" using old by (simp add: claims_sound_def)
    from own_instancesD [OF this _ _ xy(3,4)] own xy(3,4) mem_replace [OF xy(1)] mem_replace [OF xy(2)]
    show "cl_id x = cl_id y" by (metis (no_types))
  qed
  have "claims_sound (wfdb db') (replace_claim c ?cs) (cl_seq (rdb db'))"
    using old bound inst unfolding claims_sound_def ids by blast
  then show ?thesis
    using claims_sound_core [OF cs(1)] e inv by (simp add: mirror_inv_def)
qed

section \<open>New and cancelled drafts\<close>

lemma create_draft_effect:
  assumes "create_draft_claim db actor kind now = Inr (c, db')"
  shows "claims (rdb db') = claims (rdb db) @ [c]" "cl_seq (rdb db') = cl_seq (rdb db) + 1" "wfdb db' = wfdb db"
    "cl_id c = cl_seq (rdb db) + 1" "cl_instance c = None" "cl_status c = Some DRAFT" "cl_kind c = kind" "ca_tables (rdb db') = ca_tables (rdb db)"
    "cl_cash_advance c = None" "cl_payout_ref c = None"
proof -
  obtain vocab where v: "vocabulary (Some kind) = Inr vocab" using assms by (auto simp: create_draft_claim_def rbind_eq_Inr)
  obtain s where s: "Option.bind (Option.bind (row_get user_id (db_users db) actor) user_staff) (live_staff db) = Some s"
    using assms v by (cases "Option.bind (Option.bind (row_get user_id (db_users db) actor) user_staff) (live_staff db)")
      (simp_all add: create_draft_claim_def)
  obtain n where n: "map_of (vc_next_action vocab) DRAFT = Some n"
    using assms v s by (cases "map_of (vc_next_action vocab) DRAFT") (simp_all add: create_draft_claim_def)
  have "c = (blank_claim (cl_seq (rdb db) + 1) kind (sf_id s))
         \<lparr>cl_jo_cos := (case sf_employment s of None \<Rightarrow> False | Some s \<Rightarrow> s \<in> JO_COS_STATUSES),
          cl_status := Some DRAFT, cl_holder_kind := Some ''user'', cl_holder := Some actor,
          cl_holder_since := Some now, cl_next_action := n\<rparr>"
    "db' = add_history (add_claim db c) \<lparr>hs_claim = cl_id c, hs_from = None, hs_to = DRAFT, hs_actor = Some actor, hs_note = None\<rparr>"
    using assms unfolding create_draft_claim_def v rbind.simps s option.case n Let_def by auto
  then show "claims (rdb db') = claims (rdb db) @ [c]" "cl_seq (rdb db') = cl_seq (rdb db) + 1" "wfdb db' = wfdb db"
    "cl_id c = cl_seq (rdb db) + 1" "cl_instance c = None" "cl_status c = Some DRAFT" "cl_kind c = kind" "ca_tables (rdb db') = ca_tables (rdb db)"
    "cl_cash_advance c = None" "cl_payout_ref c = None"
    by (simp_all add: add_history_def add_claim_def blank_claim_def)
qed

lemma own_instances_snoc:
  assumes "cl_instance c = None" "own_instances cs"
  shows "own_instances (cs @ [c])"
proof (rule own_instancesI)
  fix x y assume xy: "x \<in> set (cs @ [c])" "y \<in> set (cs @ [c])" "cl_instance x \<noteq> None" "cl_instance x = cl_instance y"
  then have "x \<in> set cs" "y \<in> set cs" using assms(1) by auto
  then show "cl_id x = cl_id y" using own_instancesD [OF assms(2)] xy(3,4) by blast
qed

lemma create_draft_mirror:
  assumes inv: "mirror_inv db" and run: "create_draft_claim db actor kind now = Inr (c, db')"
  shows "mirror_inv db'"
proof -
  note e = create_draft_effect [OF run]
  have old: "claims_sound (wfdb db) (claims (rdb db)) (cl_seq (rdb db))" using inv by (simp add: mirror_inv_def)
  have "cl_id d \<noteq> cl_seq (rdb db) + 1" if "d \<in> set (claims (rdb db))" for d
    using old that by (force simp: claims_sound_def)
  then have "distinct (map cl_id (claims (rdb db) @ [c]))" using old e(4) by (force simp: claims_sound_def)
  moreover have "\<forall>d \<in> set (claims (rdb db) @ [c]). cl_id d \<le> cl_seq (rdb db) + 1 \<and> mirrors (wfdb db) d"
    using old e(4,5,6) by (fastforce simp: claims_sound_def mirrors_def)
  ultimately have "claims_sound (wfdb db) (claims (rdb db) @ [c]) (cl_seq (rdb db) + 1)"
    using old own_instances_snoc [OF e(5), of "claims (rdb db)"] unfolding claims_sound_def by blast
  then show ?thesis using inv e(1,2,3) by (simp add: mirror_inv_def)
qed

lemma cancel_draft_effect:
  assumes "cancel_draft_claim db k actor comment = Inr (c', db')"
  obtains c where "get_claim (rdb db) k = Some c" "cl_instance c = None" "core c' = core (c\<lparr>cl_status := Some CANCELLED\<rparr>)"
    "wfdb db' = wfdb db" "map core (claims (rdb db')) = map core (replace_claim c' (claims (rdb db)))"
    "cl_seq (rdb db') = cl_seq (rdb db)" "ca_tables (rdb db') = ca_tables (rdb db)" "status_or_draft c \<noteq> CANCELLED"
  using assms by (auto simp: cancel_draft_claim_def rbind_eq_Inr locked_claim_Inr Let_def core_eq split: if_splits intro: that)

lemma cancel_draft_mirror:
  assumes inv: "mirror_inv db" and run: "cancel_draft_claim db k actor comment = Inr (c', db')"
  shows "mirror_inv db'"
proof -
  obtain c where c: "get_claim (rdb db) k = Some c" "cl_instance c = None" "core c' = core (c\<lparr>cl_status := Some CANCELLED\<rparr>)"
    "wfdb db' = wfdb db" "map core (claims (rdb db')) = map core (replace_claim c' (claims (rdb db)))"
    "cl_seq (rdb db') = cl_seq (rdb db)"
    using cancel_draft_effect [OF run] by metis
  have "cl_id c = k" using c(1) by auto
  then have c': "cl_id c' = k" "cl_instance c' = None" "cl_status c' = Some CANCELLED" using c(2,3) by (auto simp: core_eq)
  show ?thesis
    by (rule mirror_replace [OF inv _ _ _ c(5,6)]) (use c c' inv in \<open>auto simp: mirror_inv_def mirrors_def\<close>)
qed

section \<open>Submitting\<close>

lemma number_claim_effect:
  assumes "number_claim db c scope now = (c', db')"
  shows "core c' = core c" "rdb db' = rdb db" "wfdb db' = wfdb db"
  using assms by (auto simp: number_claim_def core_eq Let_def split: option.splits prod.splits)

lemma inst_code_acted:
  assumes "acted w w' i cur actor target i' f new e"
  shows "inst_code w' (in_id i) = Option.bind (ev_to e) (\<lambda>s. map_option st_code (get_state w' s))"
    "k \<noteq> in_id i \<Longrightarrow> inst_code w' k = inst_code w k"
  using acted_instance [OF assms] acted_tables(1,11) [OF assms] by (simp_all add: inst_code_def)

lemma inst_code_started:
  assumes "started w w' i ini new e" "engine_keys w" "k \<noteq> in_id i"
  shows "inst_code w' k = inst_code w k"
  using fresh_instance [OF assms(2,1)] started_tables(1) [OF assms(1)] assms(3) by (simp add: inst_code_def)

lemma started_no_replay:
  assumes st: "started w w' i ini new e" and keys: "engine_keys w"
  shows "find_replay w' (in_id i) (Some key) = None"
proof -
  have "ev_instance x \<le> in_seq w" if "x \<in> set (events w)" for x using keys that by (simp add: engine_keys_def)
  then have "ev_instance x \<noteq> in_id i \<or> ev_key x \<noteq> Some key" if "x \<in> set (events w')" for x
    using that started_tables(7,13,15) [OF st] by force
  then show ?thesis by (auto simp: find_replay_def find_None_iff)
qed

text \<open>The claim a call replaced shows its instance's state.\<close>

lemma mirror_replaced:
  assumes inv: "mirror_inv db'" and cs: "map core (claims (rdb db')) = map core (replace_claim c cs)" and mem: "cl_id c \<in> cl_id ` set cs"
  shows "mirrors (wfdb db') c"
proof -
  have "c \<in> set (replace_claim c cs)" using mem by (force simp: replace_claim_def row_upd_def)
  then obtain d where d: "d \<in> set (claims (rdb db'))" "core d = core c" by (rule same_core_mem [OF cs [symmetric]])
  have "mirrors (wfdb db') d" using inv d(1) by (simp add: mirror_inv_def claims_sound_def)
  then show ?thesis using mirrors_core [OF d(2)] by simp
qed

text \<open>A guarded call, read backwards.\<close>

lemma submit_stages:
  assumes "submit_claim db k actor key stamp now = Inr (c', db')"
  obtains c0 chain scope org c1 db1 db2 grand i w3 c4 db4 c5 e w6 db7 db8 k5 where
    "get_claim (rdb db) k = Some c0" "submit_guards db c0 actor = Inr (chain, scope, org)"
    "price_claim db k stamp = Inr (c1, db1)" "assert_packet_complete db1 c1 now = Inr db2"
    "start_instance (wfdb db2) chain (Some actor) (Some org) (Some SUBJECT_KIND) (Some (cl_id c1)) (Some grand)
       (Some FEATURE_FLAG_KEY) now = Inr (i, w3)"
    "number_claim (db2\<lparr>wfdb := w3\<rparr>) c1 scope now = (c4, db4)" "c5 = c4\<lparr>cl_instance := Some (in_id i)\<rparr>"
    "execute_action w3 (in_id i) Submit actor None (Some k5) None now = Inr (e, w6)"
    "sync_claim_from_event ((put_claim db4 c5)\<lparr>wfdb := w6\<rparr>) c5 e now = Inr (c', db7)"
    "stamp_sla db7 c' (in_id i) e now = Inr db8" "rdb db' = rdb db8" "wfdb db' = wfdb db8"
proof -
  from assms obtain c0 chain scope org c1 db1 db2 grand i w3 where a:
    "get_claim (rdb db) k = Some c0" "submit_guards db c0 actor = Inr (chain, scope, org)"
    "price_claim db k stamp = Inr (c1, db1)" "assert_not_below_advance c1 = Inr ()" "assert_packet_complete db1 c1 now = Inr db2"
    "totals_grand c1 = Inr grand"
    "start_instance (wfdb db2) chain (Some actor) (Some org) (Some SUBJECT_KIND) (Some (cl_id c1)) (Some grand)
       (Some FEATURE_FLAG_KEY) now = Inr (i, w3)"
    unfolding submit_claim_def rbind_eq_Inr split_paired_Ex prod.case locked_claim_Inr by (elim exE conjE) (rule that; simp)
  obtain c4 db4 where n: "number_claim (db2\<lparr>wfdb := w3\<rparr>) c1 scope now = (c4, db4)" by fastforce
  define c5 where "c5 = c4\<lparr>cl_instance := Some (in_id i)\<rparr>"
  have w4: "wfdb (put_claim db4 c5) = w3" using number_claim_effect(3) [OF n] by simp
  have a1: "locked_claim db k = Inr c0" using a(1) by (simp add: locked_claim_Inr)
  from assms obtain e w6 db7 db8 where b:
    "execute_action w3 (in_id i) Submit actor None (Some (if truthy key then the key else submit_key c5 i)) None now = Inr (e, w6)"
    "sync_claim_from_event ((put_claim db4 c5)\<lparr>wfdb := w6\<rparr>) c5 e now = Inr (c', db7)"
    "stamp_sla db7 c' (in_id i) e now = Inr db8"
    "db' = (case cl_spawned_from c' of None \<Rightarrow> generate_on_commit db8 HOLDER_KIND (cl_id c')
       | Some s \<Rightarrow> generate_on_commit (generate_on_commit db8 HOLDER_KIND (cl_id c')) HOLDER_KIND s)"
    unfolding submit_claim_def a1 rbind.simps a(2-7) prod.case n Let_def c5_def [symmetric] w4
    by (auto simp: rbind_eq_Inr)
  show thesis
    by (rule that [OF a(1-3,5,7) n c5_def b(1-3)]) (use b(4) in \<open>auto split: option.splits\<close>)
qed

lemma submit_guards_fresh: "submit_guards db c actor = Inr (chain, scope, org) \<Longrightarrow>
    cl_instance c = None \<and> definition_code (Some (cl_kind c)) = Inr chain \<and> is_claim_owner db c actor \<and> status_or_draft c \<noteq> CANCELLED"
  by (auto simp: submit_guards_def rbind_eq_Inr split: option.splits if_splits)

lemma core_instance: "core c = core d \<Longrightarrow> core (c\<lparr>cl_instance := x\<rparr>) = core (d\<lparr>cl_instance := x\<rparr>)"
  by (simp add: core_eq)

lemma stamp_other:
  assumes "stamp_sla db c iid e now = Inr db'"
  shows "rdb db' = rdb db" "states (wfdb db') = states (wfdb db)" "inst_code (wfdb db') = inst_code (wfdb db)"
    "engine_inv (wfdb db) \<Longrightarrow> engine_inv (wfdb db')" "transitions (wfdb db') = transitions (wfdb db)"
    "instances (wfdb db') = instances (wfdb db)" "events (wfdb db') = events (wfdb db)"
proof -
  have *: "rdb db' = rdb db \<and> (wfdb db' = wfdb db \<or> (\<exists>P d. wfdb db' = set_due (wfdb db) P d))"
    using assms by (cases rule: stamp_effect) auto
  then show "rdb db' = rdb db" "inst_code (wfdb db') = inst_code (wfdb db)" "engine_inv (wfdb db) \<Longrightarrow> engine_inv (wfdb db')"
    by (auto simp: set_due_inv)
  show "states (wfdb db') = states (wfdb db)" "transitions (wfdb db') = transitions (wfdb db)"
    "instances (wfdb db') = instances (wfdb db)" "events (wfdb db') = events (wfdb db)"
    using * by (auto simp: set_due_def)
qed

text \<open>Everything a submit leaves behind that the lifecycle speaks of.\<close>

lemma submit_effect:
  assumes inv: "mirror_inv db" and run: "submit_claim db k actor key stamp now = Inr (c', db')"
  obtains c0 chain org grand i w w6 e st k5 where "get_claim (rdb db) k = Some c0" "cl_instance c0 = None"
    "definition_code (Some (cl_kind c0)) = Inr chain" "is_claim_owner db c0 actor" "status_or_draft c0 \<noteq> CANCELLED"
    "start_instance (wfdb db) chain (Some actor) (Some org) (Some SUBJECT_KIND) (Some k) (Some grand) (Some FEATURE_FLAG_KEY) now = Inr (i, w)"
    "execute_action w (in_id i) Submit actor None (Some k5) None now = Inr (e, w6)"
    "Option.bind (ev_to e) (get_state w6) = Some st"
    "wfdb db' = w6 \<or> (\<exists>P d. wfdb db' = set_due w6 P d)"
    "core c' = core (c0\<lparr>cl_instance := Some (in_id i), cl_status := Some (st_code st)\<rparr>)"
    "map core (claims (rdb db')) = map core (replace_claim c' (claims (rdb db)))"
    "cl_seq (rdb db') = cl_seq (rdb db)" "ca_tables (rdb db') = ca_tables (rdb db)"
proof -
  obtain c0 chain scope org c1 db1 db2 grand i w3 c4 db4 c5 e w6 db7 db8 k5 where s:
    "get_claim (rdb db) k = Some c0" "submit_guards db c0 actor = Inr (chain, scope, org)"
    "price_claim db k stamp = Inr (c1, db1)" "assert_packet_complete db1 c1 now = Inr db2"
    "start_instance (wfdb db2) chain (Some actor) (Some org) (Some SUBJECT_KIND) (Some (cl_id c1)) (Some grand)
       (Some FEATURE_FLAG_KEY) now = Inr (i, w3)"
    "number_claim (db2\<lparr>wfdb := w3\<rparr>) c1 scope now = (c4, db4)" "c5 = c4\<lparr>cl_instance := Some (in_id i)\<rparr>"
    "execute_action w3 (in_id i) Submit actor None (Some k5) None now = Inr (e, w6)"
    "sync_claim_from_event ((put_claim db4 c5)\<lparr>wfdb := w6\<rparr>) c5 e now = Inr (c', db7)"
    "stamp_sla db7 c' (in_id i) e now = Inr db8" "rdb db' = rdb db8" "wfdb db' = wfdb db8"
    by (rule submit_stages [OF run])
  note g = submit_guards_fresh [OF s(2)]
  obtain c0' where p: "get_claim (rdb db) k = Some c0'" "core c1 = core c0'" "get_claim (rdb db1) k = Some c1" "wfdb db1 = wfdb db"
    "map core (claims (rdb db1)) = map core (replace_claim c1 (claims (rdb db)))" "ca_tables (rdb db1) = ca_tables (rdb db)"
    "cl_seq (rdb db1) = cl_seq (rdb db)"
    by (rule price_claim_effect [OF s(3)])
  have c0: "c0' = c0" using p(1) s(1) by simp
  have dist: "distinct (map cl_id (claims (rdb db)))" using inv by (simp add: mirror_inv_def claims_sound_def)
  note q = packet_gate_other [OF s(4)]
  note n = number_claim_effect [OF s(6)]
  have same1: "map core (claims (rdb db1)) = map core (claims (rdb db))"
    using p(5) replace_same_core [OF s(1) p(2) [unfolded c0] dist] by simp
  have dist1: "distinct (map cl_id (claims (rdb db1)))" using dist same_core_ids [OF same1] by simp
  have rdb4: "rdb db4 = rdb db2" using n(2) by simp
  have id: "cl_id c1 = k" "cl_id c5 = k" "cl_id c0 = k" using p(3) n(1) s(1) by (auto simp: s(7) core_eq)
  let ?db6 = "(put_claim db4 c5)\<lparr>wfdb := w6\<rparr>"
  have db6: "claims (rdb ?db6) = replace_claim c5 (claims (rdb db1))" using rdb4 q(2) by simp
  have get6: "get_claim (rdb ?db6) (cl_id c5) = Some c5"
    using p(3) id unfolding db6 by (simp add: replace_claim_def row_get_upd)
  have dist6: "distinct (map cl_id (claims (rdb ?db6)))" unfolding db6 using dist1 by (simp add: replace_claim_def)
  have "mirrors (wfdb db) c0" using inv s(1) by (auto simp: mirror_inv_def claims_sound_def)
  then have "cl_status c0 = Some DRAFT \<or> cl_status c0 = Some CANCELLED" using g by (simp add: mirrors_def)
  then have "truthy (cl_status c5)" using p(2) n(1) c0 by (auto simp: core_eq s(7) code_defs)
  then obtain st where y: "Option.bind (ev_to e) (get_state (wfdb ?db6)) = Some st" "core c' = core (c5\<lparr>cl_status := Some (st_code st)\<rparr>)"
    "wfdb db7 = wfdb ?db6" "map core (claims (rdb db7)) = map core (replace_claim c' (claims (rdb ?db6)))"
    "ca_tables (rdb db7) = ca_tables (rdb ?db6)" "cl_seq (rdb db7) = cl_seq (rdb ?db6)"
    by (rule sync_effect [OF s(9) _ get6 dist6])
  have cc: "core c' = core (c0\<lparr>cl_instance := Some (in_id i), cl_status := Some (st_code st)\<rparr>)"
    using y(2) p(2) n(1) by (simp add: core_eq s(7) c0)
  have idc: "cl_id c' = k" using cc id by (simp add: core_eq)
  have twice: "replace_claim c' (replace_claim c5 cs) = replace_claim c' cs" for cs using idc id by (simp add: replace_claim_twice)
  have fin: "map core (claims (rdb db')) = map core (replace_claim c' (claims (rdb db)))"
    using y(4) stamp_other(1) [OF s(10)] s(11) unfolding db6 twice using replace_claim_map_core [OF same1, of c'] by simp
  have wf: "wfdb db' = w6 \<or> (\<exists>P d. wfdb db' = set_due w6 P d)"
    using s(10) by (cases rule: stamp_effect) (use s(12) y(3) in auto)
  show thesis
    by (rule that [OF s(1) _ _ _ _ s(5) [unfolded q(1) p(4) id(1)] s(8) _ wf cc fin])
      (use g y p q rdb4 s(11) stamp_other(1) [OF s(10)] in simp_all)
qed

lemma inst_code_live: "inst_code w j \<noteq> None \<Longrightarrow> engine_keys w \<Longrightarrow> j \<le> in_seq w"
proof -
  assume "inst_code w j \<noteq> None" "engine_keys w"
  then obtain i where "get_instance w j = Some i" by (cases "get_instance w j") (auto simp: inst_code_def)
  then have "i \<in> set (instances w)" "in_id i = j" by auto
  then show "j \<le> in_seq w" using \<open>engine_keys w\<close> by (auto simp: engine_keys_def)
qed

text \<open>The engine's part of a call on one instance: an action, then possibly a deadline.\<close>

lemma act_and_stamp:
  assumes inv: "engine_inv w" and run: "execute_action w iid act actor comment key expected now = Inr (e, w2)"
    and w': "w' = w2 \<or> (\<exists>P d. w' = set_due w2 P d)"
  shows "engine_inv w'" "states w' = states w" "transitions w' = transitions w" "k \<noteq> iid \<Longrightarrow> inst_code w' k = inst_code w k"
    "find_replay w iid key = None \<Longrightarrow> inst_code w' iid = Option.bind (ev_to e) (\<lambda>s. map_option st_code (get_state w2 s))"
    "find_replay w iid key = Some e' \<Longrightarrow> inst_code w' = inst_code w \<and> e = e' \<and> w2 = w"
proof -
  have dist: "distinct (map sp_id (steps w))" using inv by (simp add: engine_inv_def engine_keys_def)
  have ic: "inst_code w' = inst_code w2" using w' by auto
  show "engine_inv w'" using execute_inv [OF inv run] w' set_due_inv by auto
  have tabs: "states w2 = states w \<and> transitions w2 = transitions w"
    using run_tables [OF run_act [OF run] inv] by simp
  then show "states w' = states w" "transitions w' = transitions w" using w' by (auto simp: set_due_def)
  show "inst_code w' k = inst_code w k" if "k \<noteq> iid"
    using run dist
  proof (cases rule: acted_effect)
    case (acted i cur target i' f new)
    then show ?thesis using inst_code_acted(2) [OF acted(1)] that ic by simp
  qed (use ic in simp)
  show "inst_code w' iid = Option.bind (ev_to e) (\<lambda>s. map_option st_code (get_state w2 s))" if "find_replay w iid key = None"
    using run dist
  proof (cases rule: acted_effect)
    case (acted i cur target i' f new)
    then show ?thesis using inst_code_acted(1) [OF acted(1)] ic by simp
  qed (use that in simp)
  show "inst_code w' = inst_code w \<and> e = e' \<and> w2 = w" if r: "find_replay w iid key = Some e'"
  proof -
    have "(e, w2) = (e', w)" using run r by (simp add: execute_action_def rbind_eq_Inr split: option.splits)
    then show ?thesis using ic by simp
  qed
qed

lemma submit_mirror:
  assumes inv: "mirror_inv db" and run: "submit_claim db k actor key stamp now = Inr (c', db')"
  shows "mirror_inv db'"
proof -
  obtain c0 chain org grand i w w6 e st k5 where s: "get_claim (rdb db) k = Some c0"
    "start_instance (wfdb db) chain (Some actor) (Some org) (Some SUBJECT_KIND) (Some k) (Some grand) (Some FEATURE_FLAG_KEY) now = Inr (i, w)"
    "execute_action w (in_id i) Submit actor None (Some k5) None now = Inr (e, w6)" "Option.bind (ev_to e) (get_state w6) = Some st"
    "wfdb db' = w6 \<or> (\<exists>P d. wfdb db' = set_due w6 P d)"
    "core c' = core (c0\<lparr>cl_instance := Some (in_id i), cl_status := Some (st_code st)\<rparr>)"
    "map core (claims (rdb db')) = map core (replace_claim c' (claims (rdb db)))" "cl_seq (rdb db') = cl_seq (rdb db)"
    by (rule submit_effect [OF inv run])
  have e0: "engine_inv (wfdb db)" using inv by (simp add: mirror_inv_def)
  then have k0: "engine_keys (wfdb db)" by (simp add: engine_inv_def)
  obtain ini new ev where st: "started (wfdb db) w i ini new ev" by (rule start_effect [OF s(2)])
  have e1: "engine_inv w" by (rule start_inv [OF e0 s(2)])
  note a = act_and_stamp [OF e1 s(3,5)]
  note fresh = started_no_replay [OF st k0, of k5]
  have id: "cl_id c0 = k" "cl_id c' = k" "cl_instance c' = Some (in_id i)" "cl_status c' = Some (st_code st)"
    using s(1,6) by (auto simp: core_eq)
  have "inst_code (wfdb db') (in_id i) = Some (st_code st)" using a(5) [OF fresh] s(4) by (cases "ev_to e") auto
  then have m: "mirrors (wfdb db') c'" using id by (simp add: mirrors_def)
  have live: "j \<le> in_seq (wfdb db)" if "inst_code (wfdb db) j \<noteq> None" for j using inst_code_live [OF that k0] .
  have new: "in_id i = in_seq (wfdb db) + 1" using started_tables(15) [OF st] .
  show ?thesis
  proof (rule mirror_replace [OF inv _ a(1) _ s(7,8) m])
    show "get_claim (rdb db) (cl_id c') = Some c0" using s(1) id by simp
    show "states (wfdb db') = states (wfdb db)" using a(2) started_tables(1) [OF st] by simp
    show "inst_code (wfdb db') j = inst_code (wfdb db) j" if "cl_instance c' \<noteq> Some j" for j
      using a(4) [of j] inst_code_started [OF st k0, of j] that id by simp
    show "cl_instance d \<noteq> cl_instance c'" if d: "d \<in> set (claims (rdb db))" "cl_instance d \<noteq> None" for d
    proof -
      obtain j where j: "cl_instance d = Some j" using d(2) by auto
      have "mirrors (wfdb db) d" using inv d(1) by (simp add: mirror_inv_def claims_sound_def)
      then have "inst_code (wfdb db) j \<noteq> None" using j by (auto simp: mirrors_def)
      then show ?thesis using live [of j] j id new by simp
    qed
  qed
qed

section \<open>Acting\<close>

lemma resubmit_effect:
  assumes run: "resubmit_prepare db c i stamp now = Inr (c1, db1)" and c: "get_claim (rdb db) (cl_id c) = Some c"
    and dist: "distinct (map cl_id (claims (rdb db)))"
  obtains a where "core c1 = core c" "get_claim (rdb db1) (cl_id c) = Some c1" "wfdb db1 = set_amount (wfdb db) (in_id i) a"
    "map core (claims (rdb db1)) = map core (claims (rdb db))" "ca_tables (rdb db1) = ca_tables (rdb db)"
    "cl_seq (rdb db1) = cl_seq (rdb db)"
proof -
  obtain x dbx dby grand where r: "price_claim db (cl_id c) stamp = Inr (x, dbx)" "assert_packet_complete dbx x now = Inr dby"
    "c1 = x" "db1 = dby\<lparr>wfdb := set_amount (wfdb dby) (in_id i) (Some grand)\<rparr>"
    using run by (auto simp: resubmit_prepare_def rbind_eq_Inr)
  obtain c0 where p: "get_claim (rdb db) (cl_id c) = Some c0" "core x = core c0" "get_claim (rdb dbx) (cl_id c) = Some x" "wfdb dbx = wfdb db"
    "map core (claims (rdb dbx)) = map core (replace_claim x (claims (rdb db)))" "ca_tables (rdb dbx) = ca_tables (rdb db)"
    "cl_seq (rdb dbx) = cl_seq (rdb db)"
    by (rule price_claim_effect [OF r(1)])
  have "c0 = c" using p(1) c by simp
  note q = packet_gate_other [OF r(2)]
  have "map core (claims (rdb dbx)) = map core (claims (rdb db))"
    using p(5) replace_same_core [OF p(1,2) dist] by simp
  then show thesis using p q r(3,4) \<open>c0 = c\<close> by (intro that [of "Some grand"]) simp_all
qed

lemma action_prepare_effect:
  assumes run: "action_prepare db c i act actor reasons stamp now = Inr (c1, db1)" and c: "get_claim (rdb db) (cl_id c) = Some c"
    and dist: "distinct (map cl_id (claims (rdb db)))"
  shows "core c1 = core c" "get_claim (rdb db1) (cl_id c) = Some c1"
    "wfdb db1 = wfdb db \<or> (\<exists>a. wfdb db1 = set_amount (wfdb db) (in_id i) a)"
    "map core (claims (rdb db1)) = map core (claims (rdb db))" "ca_tables (rdb db1) = ca_tables (rdb db)"
    "cl_seq (rdb db1) = cl_seq (rdb db)" "act = Approve \<Longrightarrow> approve_guards db c = Inr ()"
proof -
  have *: "(\<exists>a. core c1 = core c \<and> get_claim (rdb db1) (cl_id c) = Some c1 \<and> wfdb db1 = set_amount (wfdb db) (in_id i) a \<and>
      map core (claims (rdb db1)) = map core (claims (rdb db)) \<and> ca_tables (rdb db1) = ca_tables (rdb db) \<and>
      cl_seq (rdb db1) = cl_seq (rdb db)) \<and> act \<noteq> Approve \<or>
    c1 = c \<and> db1 = db \<and> (act = Approve \<longrightarrow> approve_guards db c = Inr ())"
  proof (cases "act = Resubmit")
    case True
    then have "resubmit_prepare db c i stamp now = Inr (c1, db1)"
      using run by (auto simp: action_prepare_def rbind_eq_Inr split: if_splits)
    from resubmit_effect [OF this c dist] True show ?thesis by (metis transition_action.distinct)
  next
    case False
    then show ?thesis using run by (auto simp: action_prepare_def rbind_eq_Inr split: if_splits)
  qed
  then show "core c1 = core c" "get_claim (rdb db1) (cl_id c) = Some c1"
    "wfdb db1 = wfdb db \<or> (\<exists>a. wfdb db1 = set_amount (wfdb db) (in_id i) a)"
    "map core (claims (rdb db1)) = map core (claims (rdb db))" "ca_tables (rdb db1) = ca_tables (rdb db)"
    "cl_seq (rdb db1) = cl_seq (rdb db)" "act = Approve \<Longrightarrow> approve_guards db c = Inr ()"
    using c by auto
qed

lemma record_return_other:
  "record_return db c e reasons comment = Inr db' \<Longrightarrow> wfdb db' = wfdb db \<and> claims (rdb db') = claims (rdb db) \<and>
     ca_tables (rdb db') = ca_tables (rdb db) \<and> cl_seq (rdb db') = cl_seq (rdb db)"
  by (auto simp: record_return_def Let_def split: option.splits)

text \<open>The idempotency key a call runs under.\<close>

definition request_key :: "oc_db \<Rightarrow> action_request \<Rightarrow> string option" where
  "request_key db rq =
     (case get_claim (rdb db) (rq_claim rq) of
        None \<Rightarrow> None
      | Some c \<Rightarrow> (case Option.bind (cl_instance c) (get_instance (wfdb db)) of
          None \<Rightarrow> None
        | Some i \<Rightarrow> Some (if truthy (rq_key rq) then the (rq_key rq) else action_key (rq_action rq) c i (rq_actor rq))))"

lemma action_key_core: "core c = core d \<Longrightarrow> action_key a c i u = action_key a d i u"
  by (simp add: action_key_def core_eq)

lemma action_stages:
  assumes "claim_action db rq stamp now = Inr (c', db')" "distinct (map cl_id (claims (rdb db)))"
  obtains act c0 iid i c1 db1 key e w2 db3 db4 db5 where "claim_verb (rq_action rq) = Some act" "get_claim (rdb db) (rq_claim rq) = Some c0"
    "may_see_claim db c0 (rq_actor rq)" "cl_instance c0 = Some iid" "get_instance (wfdb db) iid = Some i"
    "action_prepare db c0 i act (rq_actor rq) (rq_reasons rq) stamp now = Inr (c1, db1)" "request_key db rq = Some key"
    "execute_action (wfdb db1) iid act (rq_actor rq) (rq_comment rq) (Some key) (rq_expected rq) now = Inr (e, w2)"
    "wfdb db3 = w2" "claims (rdb db3) = claims (rdb db1)" "ca_tables (rdb db3) = ca_tables (rdb db1)" "cl_seq (rdb db3) = cl_seq (rdb db1)"
    "sync_claim_from_event db3 c1 e now = Inr (c', db4)" "stamp_sla db4 c' iid e now = Inr db5" "rdb db' = rdb db5" "wfdb db' = wfdb db5"
proof -
  obtain act where act: "claim_verb (rq_action rq) = Some act"
    using assms(1) by (cases "claim_verb (rq_action rq)") (simp_all add: claim_action_def)
  obtain c0 where c0: "get_claim (rdb db) (rq_claim rq) = Some c0" "may_see_claim db c0 (rq_actor rq)"
    using assms(1) unfolding claim_action_def act option.case rbind_eq_Inr locked_claim_Inr by (auto split: if_splits)
  then have l: "locked_claim db (rq_claim rq) = Inr c0" by (simp add: locked_claim_Inr)
  obtain iid where iid: "cl_instance c0 = Some iid"
    using assms(1) c0 unfolding claim_action_def act option.case l rbind.simps by (cases "cl_instance c0") auto
  obtain i where i: "get_instance (wfdb db) iid = Some i"
    using assms(1) c0 unfolding claim_action_def act option.case l rbind.simps iid by (cases "get_instance (wfdb db) iid") auto
  have vis: "(\<not> may_see_claim db c0 (rq_actor rq)) = False" using c0(2) by simp
  have id: "cl_id c0 = rq_claim rq" using c0(1) by auto
  obtain c1 db1 where p: "action_prepare db c0 i act (rq_actor rq) (rq_reasons rq) stamp now = Inr (c1, db1)"
    using assms(1) unfolding claim_action_def act option.case l rbind.simps iid i vis if_False rbind_eq_Inr split_paired_Ex
    by (elim exE conjE) (rule that; assumption)
  have "core c1 = core c0"
    by (rule action_prepare_effect(1) [OF p]) (use c0 id assms(2) in auto)
  then have key: "request_key db rq = Some (if truthy (rq_key rq) then the (rq_key rq) else action_key (rq_action rq) c1 i (rq_actor rq))"
    using c0(1) iid i by (simp add: request_key_def action_key_core [of c1 c0])
  define key where "key = (if truthy (rq_key rq) then the (rq_key rq) else action_key (rq_action rq) c1 i (rq_actor rq))"
  define replayed where "replayed \<longleftrightarrow> (\<exists>e \<in> set (events (wfdb db1)). ev_instance e = iid \<and> ev_key e = Some key)"
  obtain e w2 db3 c4 db4 db5 where x:
    "execute_action (wfdb db1) iid act (rq_actor rq) (rq_comment rq) (Some key) (rq_expected rq) now = Inr (e, w2)"
    "(if act = Return \<and> \<not> replayed then record_return (db1\<lparr>wfdb := w2\<rparr>) c1 e (rq_reasons rq) (rq_comment rq)
      else Inr (db1\<lparr>wfdb := w2\<rparr>)) = Inr db3"
    "sync_claim_from_event db3 c1 e now = Inr (c4, db4)" "stamp_sla db4 c4 iid e now = Inr db5"
    "Inr (c4, if act = Resubmit \<and> \<not> replayed then generate_on_commit db5 HOLDER_KIND (cl_id c4) else db5) = (Inr (c', db') :: (claim \<times> oc_db) res)"
    using assms(1) unfolding claim_action_def act option.case l rbind.simps iid i vis if_False p prod.case Let_def key_def [symmetric]
      replayed_def [symmetric] rbind_eq_Inr split_paired_Ex
    by (elim exE conjE) (rule that; assumption)
  then have r: "record_return (db1\<lparr>wfdb := w2\<rparr>) c1 e (rq_reasons rq) (rq_comment rq) = Inr db3 \<or> db3 = db1\<lparr>wfdb := w2\<rparr>"
    "sync_claim_from_event db3 c1 e now = Inr (c', db4)" "stamp_sla db4 c' iid e now = Inr db5"
    "rdb db' = rdb db5" "wfdb db' = wfdb db5"
    by (auto split: if_splits)
  have "wfdb db3 = w2 \<and> claims (rdb db3) = claims (rdb db1) \<and> ca_tables (rdb db3) = ca_tables (rdb db1) \<and> cl_seq (rdb db3) = cl_seq (rdb db1)"
    using r(1) record_return_other by fastforce
  then show thesis
    using that [OF act c0 iid i p _ x(1) _ _ _ _ r(2-5)] key key_def by simp
qed

text \<open>
  A call replays a stale event when its key was used before and the instance has moved on since.
\<close>

definition stale_replay :: "oc_db \<Rightarrow> action_request \<Rightarrow> bool" where
  "stale_replay db rq =
     (case Option.bind (get_claim (rdb db) (rq_claim rq)) cl_instance of
        None \<Rightarrow> False
      | Some iid \<Rightarrow> (case find_replay (wfdb db) iid (request_key db rq) of
          None \<Rightarrow> False
        | Some e \<Rightarrow> ev_to e \<noteq> map_option in_state (get_instance (wfdb db) iid)))"

lemma find_replay_amount [simp]: "find_replay (set_amount w k a) iid key = find_replay w iid key"
  by (simp add: find_replay_def set_amount_def)

lemma states_amount [simp]: "states (set_amount w k a) = states w" "transitions (set_amount w k a) = transitions w"
  "steps (set_amount w k a) = steps w" "events (set_amount w k a) = events w"
  by (simp_all add: set_amount_def)

lemma action_effect:
  assumes inv: "mirror_inv db" and run: "claim_action db rq stamp now = Inr (c', db')"
  obtains act c0 iid i w key e w2 st where "claim_verb (rq_action rq) = Some act" "get_claim (rdb db) (rq_claim rq) = Some c0"
    "cl_instance c0 = Some iid" "get_instance (wfdb db) iid = Some i"
    "w = wfdb db \<or> (\<exists>a. w = set_amount (wfdb db) iid a)" "request_key db rq = Some key"
    "execute_action w iid act (rq_actor rq) (rq_comment rq) (Some key) (rq_expected rq) now = Inr (e, w2)"
    "Option.bind (ev_to e) (get_state w2) = Some st" "wfdb db' = w2 \<or> (\<exists>P d. wfdb db' = set_due w2 P d)"
    "core c' = core (c0\<lparr>cl_status := Some (st_code st)\<rparr>)"
    "map core (claims (rdb db')) = map core (replace_claim c' (claims (rdb db)))"
    "cl_seq (rdb db') = cl_seq (rdb db)" "ca_tables (rdb db') = ca_tables (rdb db)"
    "act = Approve \<longrightarrow> approve_guards db c0 = Inr ()"
proof -
  have dist: "distinct (map cl_id (claims (rdb db)))" using inv by (simp add: mirror_inv_def claims_sound_def)
  obtain act c0 iid i c1 db1 key e w2 db3 db4 db5 where s: "claim_verb (rq_action rq) = Some act" "get_claim (rdb db) (rq_claim rq) = Some c0"
    "may_see_claim db c0 (rq_actor rq)" "cl_instance c0 = Some iid" "get_instance (wfdb db) iid = Some i"
    "action_prepare db c0 i act (rq_actor rq) (rq_reasons rq) stamp now = Inr (c1, db1)" "request_key db rq = Some key"
    "execute_action (wfdb db1) iid act (rq_actor rq) (rq_comment rq) (Some key) (rq_expected rq) now = Inr (e, w2)"
    "wfdb db3 = w2" "claims (rdb db3) = claims (rdb db1)" "ca_tables (rdb db3) = ca_tables (rdb db1)" "cl_seq (rdb db3) = cl_seq (rdb db1)"
    "sync_claim_from_event db3 c1 e now = Inr (c', db4)" "stamp_sla db4 c' iid e now = Inr db5" "rdb db' = rdb db5" "wfdb db' = wfdb db5"
    by (rule action_stages [OF run dist])
  have id: "cl_id c0 = rq_claim rq" "in_id i = iid" using s(2,5) by auto
  have c0: "get_claim (rdb db) (cl_id c0) = Some c0" using s(2) id by simp
  note p = action_prepare_effect [OF s(6) c0 dist]
  have id1: "cl_id c1 = cl_id c0" using p(1) by (simp add: core_eq)
  have get3: "get_claim (rdb db3) (cl_id c1) = Some c1" using p(2) s(10) id1 by simp
  have dist3: "distinct (map cl_id (claims (rdb db3)))" using dist same_core_ids [OF p(4)] s(10) by simp
  have "mirrors (wfdb db) c0" using inv s(2) by (auto simp: mirror_inv_def claims_sound_def)
  then obtain code where code: "inst_code (wfdb db) iid = Some code" "cl_status c0 = Some code"
    using s(4) by (auto simp: mirrors_def)
  then obtain x where "get_state (wfdb db) (in_state i) = Some x" "code = st_code x" using s(5) by (auto simp: inst_code_def)
  then have "code \<noteq> []" using inv by (auto simp: mirror_inv_def)
  then have "truthy (cl_status c1)" using p(1) code(2) by (simp add: core_eq)
  then obtain st where y: "Option.bind (ev_to e) (get_state (wfdb db3)) = Some st" "core c' = core (c1\<lparr>cl_status := Some (st_code st)\<rparr>)"
    "wfdb db4 = wfdb db3" "map core (claims (rdb db4)) = map core (replace_claim c' (claims (rdb db3)))"
    "ca_tables (rdb db4) = ca_tables (rdb db3)" "cl_seq (rdb db4) = cl_seq (rdb db3)"
    by (rule sync_effect [OF s(13) _ get3 dist3])
  note so = stamp_other [OF s(14)]
  have fin: "map core (claims (rdb db')) = map core (replace_claim c' (claims (rdb db)))"
    using y(4) s(10,15) so(1) replace_claim_map_core [OF p(4), of c'] by simp
  have cc: "core c' = core (c0\<lparr>cl_status := Some (st_code st)\<rparr>)" using y(2) p(1) by (simp add: core_eq)
  have wf: "wfdb db' = w2 \<or> (\<exists>P d. wfdb db' = set_due w2 P d)"
    using s(14) by (cases rule: stamp_effect) (use s(9,16) y(3) in auto)
  show thesis
    by (rule that [OF s(1,2,4,5) p(3) [unfolded id(2)] s(7,8) y(1) [unfolded s(9)] wf cc fin])
      (use s(11,12,15) so(1) p(5,6,7) y(5,6) in simp_all)
qed

lemma action_mirror:
  assumes inv: "mirror_inv db" and run: "claim_action db rq stamp now = Inr (c', db')" and fresh: "\<not> stale_replay db rq"
  shows "mirror_inv db'"
proof -
  obtain act c0 iid i w key e w2 st where s: "claim_verb (rq_action rq) = Some act" "get_claim (rdb db) (rq_claim rq) = Some c0"
    "cl_instance c0 = Some iid" "get_instance (wfdb db) iid = Some i"
    "w = wfdb db \<or> (\<exists>a. w = set_amount (wfdb db) iid a)" "request_key db rq = Some key"
    "execute_action w iid act (rq_actor rq) (rq_comment rq) (Some key) (rq_expected rq) now = Inr (e, w2)"
    "Option.bind (ev_to e) (get_state w2) = Some st" "wfdb db' = w2 \<or> (\<exists>P d. wfdb db' = set_due w2 P d)"
    "core c' = core (c0\<lparr>cl_status := Some (st_code st)\<rparr>)"
    "map core (claims (rdb db')) = map core (replace_claim c' (claims (rdb db)))" "cl_seq (rdb db') = cl_seq (rdb db)"
    by (rule action_effect [OF inv run])
  have e0: "engine_inv (wfdb db)" using inv by (simp add: mirror_inv_def)
  have ew: "engine_inv w" using e0 s(5) set_amount_inv by auto
  have ic: "inst_code w = inst_code (wfdb db)" "states w = states (wfdb db)" using s(5) by auto
  note a = act_and_stamp [OF ew s(7,9)]
  have id: "cl_id c0 = rq_claim rq" "cl_id c' = rq_claim rq" "cl_instance c' = Some iid" "cl_status c' = Some (st_code st)"
    using s(2,3,10) by (auto simp: core_eq)
  have "inst_code (wfdb db') iid = Some (st_code st)"
  proof (cases "find_replay w iid (Some key)")
    case None
    from a(5) [OF this] s(8) show ?thesis by (cases "ev_to e") auto
  next
    case (Some e')
    from a(6) [OF this] have r: "inst_code (wfdb db') = inst_code w" "e = e'" "w2 = w" by auto
    have "find_replay (wfdb db) iid (request_key db rq) = Some e" using Some r(2) s(5,6) by auto
    then have "ev_to e = Some (in_state i)" using fresh s(2,3,4) by (simp add: stale_replay_def)
    then have "get_state (wfdb db) (in_state i) = Some st" using s(8) r(3) ic(2) by simp
    then show ?thesis using r(1) ic(1) s(4) by (simp add: inst_code_def)
  qed
  then have m: "mirrors (wfdb db') c'" using id by (simp add: mirrors_def)
  show ?thesis
  proof (rule mirror_replace [OF inv _ a(1) _ s(11,12) m])
    show "get_claim (rdb db) (cl_id c') = Some c0" using s(2) id by simp
    show "states (wfdb db') = states (wfdb db)" using a(2) ic(2) by simp
    show "inst_code (wfdb db') j = inst_code (wfdb db) j" if "cl_instance c' \<noteq> Some j" for j
      using a(4) [of j] that id ic(1) by simp
    show "cl_instance d \<noteq> cl_instance c'" if d: "d \<in> set (claims (rdb db))" "cl_id d \<noteq> cl_id c'" "cl_instance d \<noteq> None" for d
    proof
      assume "cl_instance d = cl_instance c'"
      then have "cl_instance d = cl_instance c0" using id s(3) by simp
      moreover have "own_instances (claims (rdb db))" using inv by (simp add: mirror_inv_def claims_sound_def)
      moreover have "c0 \<in> set (claims (rdb db))" using s(2) by auto
      ultimately have "cl_id d = cl_id c0" using own_instancesD d(1,3) by blast
      then show False using d(2) id by simp
    qed
  qed
qed

lemma sweep_mirror:
  assumes inv: "mirror_inv db" and run: "sweep_due_steps (wfdb db) now limit = Inr (ids, w)"
  shows "mirror_inv (db\<lparr>wfdb := w\<rparr>)"
proof -
  have t: "states w = states (wfdb db)" "instances w = instances (wfdb db)" using sweep_frame [OF run] by simp_all
  have "engine_inv w" using engine.inv_step [OF _ engine_sweep [OF run]] inv by (simp add: mirror_inv_def)
  moreover have "inst_code w = inst_code (wfdb db)" by (simp add: fun_eq_iff inst_code_def t)
  then have "mirrors w c = mirrors (wfdb db) c" for c by (simp add: mirrors_def cong: option.case_cong)
  ultimately show ?thesis using inv by (simp add: mirror_inv_def claims_sound_def t)
qed

end
