(* ===== verification/Notify.thy ===== *)
theory Notify
  imports Claim_Lifecycle "HOL-Library.Product_Lexorder"
begin

text \<open>
  The module's notifications, \<open>services/notify.py\<close>: the first nudge of an escalated step, the repeating
  ladder for overdue steps, the ladder of the liquidation deadline, and the messages on settlement, on an
  FMS update and on payment. Texts are byte strings in UTF-8. Rows that another transaction holds locked
  are skipped by the sweeps and picked up by the next one; a sweep is modelled with no such rows.
\<close>

section \<open>Texts\<close>

definition peso :: string where "peso = [CHR 0xE2, CHR 0x82, CHR 0xB1]"

text \<open>Thousands separators of \<open>:,.2f\<close>, on the digits in reverse.\<close>

fun group_digits :: "string \<Rightarrow> string" where
  "group_digits (a # b # c # d # s) = a # b # c # CHR '','' # group_digits (d # s)"
| "group_digits s = s"

definition comma_money :: "int \<Rightarrow> string" where
  "comma_money c =
     (let n = nat \<bar>c\<bar> in
      (if c < 0 then ''-'' else []) @ rev (group_digits (rev (nat_digits (n div 100)))) @ ''.'' @
      [char_of (48 + (n mod 100) div 10), char_of (48 + n mod 10)])"

definition claim_ref :: "string \<Rightarrow> claim \<Rightarrow> string" where
  "claim_ref pre c = (if truthy (cl_ref_no c) then the (cl_ref_no c) else pre @ int_str (cl_id c))"

definition opt_text :: "string option \<Rightarrow> (string \<Rightarrow> string) \<Rightarrow> string" where
  "opt_text s f = (if truthy s then f (the s) else [])"

section \<open>Posting\<close>

definition NOTIFICATIONS_MAX_ATTEMPTS :: nat where "NOTIFICATIONS_MAX_ATTEMPTS = 5"

definition already_sent :: "oc_db \<Rightarrow> string \<Rightarrow> bool" where
  "already_sent db key \<longleftrightarrow> live_row (outbox db) key \<noteq> None"

definition post :: "oc_db \<Rightarrow> notification \<Rightarrow> (int \<times> oc_db) res" where
  "post db n =
     rbind (persist_notification NOTIFICATIONS_MAX_ATTEMPTS (db_users db) (staffs (rdb db)) (outbox db) n) (\<lambda>(k, ob).
       Inr (k, db\<lparr>outbox := dispatch_on_commit ob k\<rparr>))"

definition in_app :: "(string \<times> json) list \<Rightarrow> notification" where
  "in_app meta = \<lparr>nf_channel = In_App, nf_email = None, nf_meta = meta\<rparr>"

section \<open>The SLA ladder\<close>

definition DEDUP_PREFIX :: string where "DEDUP_PREFIX = ''reimb.claim.sla''"
definition REMINDER_KEY :: string where "REMINDER_KEY = ''sla.reminder_repeat_days''"
definition REMINDER_DEFAULT :: int where "REMINDER_DEFAULT = 2"
definition PAGE_SIZE :: nat where "PAGE_SIZE = 200"
definition MAX_PAGES :: nat where "MAX_PAGES = 50"

definition dedup_key :: "int \<Rightarrow> int \<Rightarrow> string" where
  "dedup_key step_id k = DEDUP_PREFIX @ '':'' @ int_str step_id @ '':'' @ int_str k"

definition send_nudge :: "oc_db \<Rightarrow> claim \<Rightarrow> wf_step \<Rightarrow> int \<Rightarrow> (int option \<times> oc_db) res" where
  "send_nudge db c s k =
     (case (cl_holder_kind c, cl_holder c) of
        (Some kind, Some holder) \<Rightarrow>
          if kind \<noteq> ''user'' then Inr (None, db)
          else if already_sent db (dedup_key (sp_id s) k) then Inr (None, db)
          else rbind (vocabulary (Some (cl_kind c))) (\<lambda>vocab.
            let ref = claim_ref ''claim #'' c;
                label = (case map_of (vc_labels vocab) (case cl_status c of None \<Rightarrow> [] | Some t \<Rightarrow> t) of
                           Some l \<Rightarrow> l | None \<Rightarrow> if truthy (cl_status c) then the (cl_status c) else ''?'');
                when = (if k = 0 then ''is past its SLA'' else ''is still waiting (reminder #'' @ int_str k @ '')'');
                next_step = (if truthy (cl_next_action c) then the (cl_next_action c) else ''take the next action'') in
            rbind (post db (in_app [(''dedup_key'', JStr (dedup_key (sp_id s) k)), (''recipient_user_id'', JInt holder),
              (''module'', JStr ''reimbursement''), (''kind'', JStr ''sla_nudge''),
              (''subject'', JStr (''Reimbursement '' @ ref @ '' is waiting on you'')),
              (''body_text'', JStr (ref @ '' ('' @ label @ '') '' @ when @ '' '' @ em_dash @ '' '' @ next_step @ ''.''))])) (\<lambda>(n, db').
            Inr (Some n, db')))
      | _ \<Rightarrow> Inr (None, db))"

definition notify_escalation :: "oc_db \<Rightarrow> int \<Rightarrow> (int option \<times> oc_db) res" where
  "notify_escalation db k =
     (case row_get sp_id (steps (wfdb db)) k of
        None \<Rightarrow> Inr (None, db)
      | Some s \<Rightarrow>
          if sp_status s \<noteq> Active \<or> sp_escalation s < 1 then Inr (None, db)
          else (case get_instance (wfdb db) (sp_instance s) of
             None \<Rightarrow> Inr (None, db)
           | Some i \<Rightarrow>
               if in_subject_kind i \<noteq> Some SUBJECT_KIND then Inr (None, db)
               else (case Option.bind (in_subject_id i) (get_claim (rdb db)) of
                  None \<Rightarrow> Inr (None, db)
                | Some c \<Rightarrow> send_nudge db c s 0)))"

text \<open>
  A work list fetched in keyset pages: each page holds the first rows after the cursor, in the order of
  the key. The result is the state, and whether the list was seen to its end.
\<close>

definition page_of :: "('r \<Rightarrow> 'k::linorder) \<Rightarrow> nat \<Rightarrow> 'r list \<Rightarrow> 'k option \<Rightarrow> 'r list" where
  "page_of key n rows cursor =
     take n (filter (\<lambda>r. case cursor of None \<Rightarrow> True | Some k \<Rightarrow> key r > k) (sort_key key rows))"

fun each :: "('s \<Rightarrow> 'r \<Rightarrow> 's res) \<Rightarrow> 's \<Rightarrow> 'r list \<Rightarrow> 's res" where
  "each work st [] = Inr st"
| "each work st (r # rs) = rbind (work st r) (\<lambda>st'. each work st' rs)"

fun drain :: "('s \<Rightarrow> 'r list) \<Rightarrow> ('r \<Rightarrow> 'k::linorder) \<Rightarrow> ('s \<Rightarrow> 'r \<Rightarrow> 's res) \<Rightarrow> nat \<Rightarrow> nat \<Rightarrow> 'k option \<Rightarrow> 's \<Rightarrow> (bool \<times> 's) res" where
  "drain rows key work n 0 cursor st = Inr (False, st)"
| "drain rows key work n (Suc m) cursor st =
     (let page = page_of key n (rows st) cursor in
      if page = [] then Inr (True, st)
      else rbind (each work st page) (\<lambda>st'.
        if length page < n then Inr (True, st')
        else drain rows key work n m (Some (key (last page))) st'))"

text \<open>
  The steps a sweep works on, and their order: most overdue first. The query of the source skips rows another
  transaction holds locked (\<open>skip_locked\<close>) and leaves them to the next tick; the sweep here runs while no other
  transaction holds a step.
\<close>

definition overdue_steps :: "wf_db \<Rightarrow> instant \<Rightarrow> wf_step list" where
  "overdue_steps w now =
     filter (\<lambda>s. sp_status s = Active \<and> sp_escalation s \<ge> 1 \<and> (case sp_sla_due s of None \<Rightarrow> False | Some d \<Rightarrow> d \<le> now) \<and>
       (case get_instance w (sp_instance s) of None \<Rightarrow> False | Some i \<Rightarrow> in_subject_kind i = Some SUBJECT_KIND)) (steps w)"

definition step_order :: "wf_step \<Rightarrow> int \<times> int" where
  "step_order s = (the (sp_sla_due s), sp_id s)"

record sla_sweep =
  sw_db :: oc_db
  sw_checked :: nat
  sw_nudged :: nat

definition remind_step :: "int \<Rightarrow> date \<Rightarrow> sla_sweep \<Rightarrow> wf_step \<Rightarrow> sla_sweep res" where
  "remind_step repeat today sw s =
     (let db = sw_db sw; sw1 = sw\<lparr>sw_checked := sw_checked sw + 1\<rparr> in
      case Option.bind (Option.bind (get_instance (wfdb db) (sp_instance s)) in_subject_id) (get_claim (rdb db)) of
        None \<Rightarrow> Inr sw1
      | Some c \<Rightarrow>
          (let due_local = manila_date (the (sp_sla_due s)) in
           rbind (working_days_between due_local today (load_nonworking_dates (holidays (rdb db)) (min due_local today) today)) (\<lambda>overdue_wd.
             if overdue_wd < 0 then Inr sw1
             else
               (let k = (if repeat > 0 then overdue_wd div repeat else 0) in
                rbind (send_nudge db c s k) (\<lambda>(n, db').
                  Inr (if n = None then sw1\<lparr>sw_db := db'\<rparr>
                       else sw1\<lparr>sw_nudged := sw_nudged sw + 1,
                              sw_db := (if k > 0 then db'\<lparr>wfdb := add_reminder (wfdb db') s k\<rparr> else db')\<rparr>))))))"

definition sweep_sla_reminders :: "oc_db \<Rightarrow> instant \<Rightarrow> nat \<Rightarrow> nat \<Rightarrow> (bool \<times> sla_sweep) res" where
  "sweep_sla_reminders db now page_size max_pages =
     (let today = manila_date now;
          repeat = config_working_days db REMINDER_KEY REMINDER_DEFAULT today in
      drain (\<lambda>sw. overdue_steps (wfdb (sw_db sw)) now) step_order (remind_step repeat today) page_size max_pages None
        \<lparr>sw_db = db, sw_checked = 0, sw_nudged = 0\<rparr>)"

section \<open>The ladder of the liquidation deadline\<close>

definition LIQUIDATION_DEDUP_PREFIX :: string where "LIQUIDATION_DEDUP_PREFIX = ''reimb.liquidation.deadline''"

definition MILESTONES :: "(int \<times> string) list" where
  "MILESTONES = [(0, ''d0''), (3, ''d3''), (7, ''d7'')]"

definition EMAIL_MILESTONES :: "string set" where "EMAIL_MILESTONES = {''d3'', ''d0''}"
definition LIQUIDATION_CLASS :: string where "LIQUIDATION_CLASS = ''transactional''"

definition liquidation_dedup_key :: "int \<Rightarrow> string \<Rightarrow> string \<Rightarrow> string" where
  "liquidation_dedup_key k token ch = LIQUIDATION_DEDUP_PREFIX @ '':'' @ int_str k @ '':'' @ token @ '':'' @ ch"

definition milestone_for :: "int \<Rightarrow> string option" where
  "milestone_for remaining =
     (if remaining < 0 then None else map_option snd (find (\<lambda>(threshold, name). remaining \<le> threshold) MILESTONES))"

definition liquidation_body :: "cash_advance \<Rightarrow> string \<Rightarrow> int \<Rightarrow> string option \<Rightarrow> string \<times> string" where
  "liquidation_body a milestone remaining note =
     (let which = (if truthy (ca_dv_no a) then ''cash advance '' @ the (ca_dv_no a) else ''cash advance'');
          due = (case ca_deadline a of None \<Rightarrow> ''soon'' | Some d \<Rightarrow> isoformat d);
          amount = peso @ comma_money (ca_amount a);
          (subject, body) =
            (if milestone = ''overdue''
             then (''Overdue: liquidate your '' @ which,
                   ''Your '' @ which @ '' of '' @ amount @ '' was due for liquidation on '' @ due @ '' and is now '' @
                   int_str \<bar>remaining\<bar> @ '' day(s) overdue. File your liquidation report as soon as possible.'')
             else if milestone = ''d0''
             then (''Due today: liquidate your '' @ which,
                   ''Your '' @ which @ '' of '' @ amount @ '' must be liquidated today ('' @ due @
                   ''). File your liquidation report now.'')
             else (''Liquidate your '' @ which @ '' within '' @ (if milestone = ''d3'' then ''3 days'' else ''7 days''),
                   ''Your '' @ which @ '' of '' @ amount @ '' must be liquidated by '' @ due @ '' '' @ em_dash @ '' '' @
                   int_str remaining @ '' day(s) left. Prepare your liquidation report.'')) in
      (subject, if truthy note \<and> (milestone = ''d0'' \<or> milestone = ''overdue'') then body @ '' '' @ the note else body))"

definition deadline_meta :: "cash_advance \<Rightarrow> int \<Rightarrow> string \<Rightarrow> string \<Rightarrow> (string \<times> json) list" where
  "deadline_meta a recipient key milestone =
     [(''dedup_key'', JStr key), (''recipient_user_id'', JInt recipient), (''module'', JStr ''reimbursement''),
      (''kind'', JStr ''liquidation_deadline''), (''notification_class'', JStr LIQUIDATION_CLASS),
      (''cash_advance_id'', JInt (ca_id a)), (''milestone'', JStr milestone)]"

text \<open>One message unless its key is taken; the count of rows written.\<close>

definition post_once :: "oc_db \<Rightarrow> string \<Rightarrow> notification res \<Rightarrow> (nat \<times> oc_db) res" where
  "post_once db key n =
     (if already_sent db key then Inr (0, db)
      else rbind n (\<lambda>m. rbind (post db m) (\<lambda>(_, db'). Inr (1, db'))))"

definition send_liquidation_nudge ::
  "oc_db \<Rightarrow> cash_advance \<Rightarrow> user \<Rightarrow> string \<Rightarrow> string \<Rightarrow> int \<Rightarrow> string option \<Rightarrow> (nat \<times> oc_db) res" where
  "send_liquidation_nudge db a owner milestone token remaining note =
     (let (subject, body) = liquidation_body a milestone remaining note;
          key = liquidation_dedup_key (ca_id a) token ''in_app'';
          mail_key = liquidation_dedup_key (ca_id a) token ''email'' in
      rbind (post_once db key (Inr (in_app (deadline_meta a (user_id owner) key milestone @
        [(''subject'', JStr subject), (''body_text'', JStr body)])))) (\<lambda>(w, db1).
      if milestone \<in> EMAIL_MILESTONES \<and> user_email owner \<noteq> []
      then rbind (post_once db1 mail_key
             (rbind (make_email \<lparr>em_to = [user_email owner], em_subject = subject, em_text = body, em_html = None,
                em_sender = None, em_cc = []\<rparr>) (\<lambda>m.
              Inr \<lparr>nf_channel = Email, nf_email = Some m, nf_meta = deadline_meta a (user_id owner) mail_key milestone\<rparr>)))
             (\<lambda>(w2, db2). Inr (w + w2, db2))
      else Inr (w, db1)))"

definition due_advances :: "reimb_db \<Rightarrow> date \<Rightarrow> cash_advance list" where
  "due_advances r horizon =
     filter (\<lambda>a. ca_st a \<in> UNLIQUIDATED_STATUSES \<and> (case ca_deadline a of None \<Rightarrow> False | Some d \<Rightarrow> d \<le> horizon)) (advances r)"

definition advance_order :: "cash_advance \<Rightarrow> int \<times> int" where
  "advance_order a = (the (ca_deadline a), ca_id a)"

record liq_sweep =
  lw_db :: oc_db
  lw_checked :: nat
  lw_nudged :: nat
  lw_flipped :: nat

text \<open>The rung an advance stands on: the message kind and the token of its key; none before D-7.\<close>

definition overdue_rung :: "oc_db \<Rightarrow> int \<Rightarrow> date \<Rightarrow> date \<Rightarrow> (string \<times> string) res" where
  "overdue_rung db repeat today deadline =
     rbind (working_days_between deadline today (load_nonworking_dates (holidays (rdb db)) deadline today)) (\<lambda>wd.
       Inr (''overdue'', ''overdue:'' @ int_str (if repeat > 0 then wd div repeat else 0)))"

definition remind_advance :: "int \<Rightarrow> string option \<Rightarrow> date \<Rightarrow> liq_sweep \<Rightarrow> cash_advance \<Rightarrow> liq_sweep res" where
  "remind_advance repeat note today lw a =
     rbind (owner_user (lw_db lw) (ca_claimant a)) (\<lambda>owner.
       let lw1 = lw\<lparr>lw_checked := lw_checked lw + 1\<rparr>;
           remaining = the (ca_deadline a) - today;
           (flipped, r) = (if remaining < 0 then mark_overdue (rdb (lw_db lw)) a else (False, rdb (lw_db lw)));
           lw2 = lw1\<lparr>lw_db := (lw_db lw)\<lparr>rdb := r\<rparr>, lw_flipped := lw_flipped lw + (if flipped then 1 else 0)\<rparr> in
       rbind (if remaining < 0 then rbind (overdue_rung (lw_db lw2) repeat today (the (ca_deadline a))) (\<lambda>p. Inr (Some p))
              else Inr (map_option (\<lambda>m. (m, m)) (milestone_for remaining))) (\<lambda>rung.
         case (rung, owner) of
           (Some (milestone, token), Some u) \<Rightarrow>
             rbind (send_liquidation_nudge (lw_db lw2) (if flipped then a\<lparr>ca_st := CaOverdue\<rparr> else a) u milestone token remaining note)
               (\<lambda>(w, db'). Inr (lw2\<lparr>lw_db := db', lw_nudged := lw_nudged lw + w\<rparr>))
         | _ \<Rightarrow> Inr lw2))"

definition sweep_liquidation_reminders :: "oc_db \<Rightarrow> instant \<Rightarrow> nat \<Rightarrow> nat \<Rightarrow> (bool \<times> liq_sweep) res" where
  "sweep_liquidation_reminders db now page_size max_pages =
     (let today = manila_date now;
          repeat = config_working_days db REMINDER_KEY REMINDER_DEFAULT today;
          note = overdue_note (rdb db) today in
      rbind (date_add today 7) (\<lambda>horizon.
      drain (\<lambda>lw. due_advances (rdb (lw_db lw)) horizon) advance_order (remind_advance repeat note today) page_size max_pages None
        \<lparr>lw_db = db, lw_checked = 0, lw_nudged = 0, lw_flipped = 0\<rparr>))"

section \<open>Closing messages and the FMS journey\<close>

text \<open>\<open>totals.get(field)\<close>, formatted with the peso sign; none where it is absent or falsy.\<close>

definition totals_amount :: "claim \<Rightarrow> string \<Rightarrow> string option res" where
  "totals_amount c fld =
     (if \<not> json_truthy (cl_totals c) then Inr None
      else (case obj_get (cl_totals c) fld of
        None \<Rightarrow> Inr None
      | Some v \<Rightarrow> if json_truthy v then rbind (json_money v) (\<lambda>m. Inr (Some (peso @ comma_money m))) else Inr None))"

definition settlement_text :: "claim \<Rightarrow> cash_advance \<Rightarrow> (string \<times> string) res" where
  "settlement_text c a =
     (let which = (if truthy (ca_dv_no a) then ''cash advance '' @ the (ca_dv_no a) else ''cash advance'');
          ref = claim_ref ''#'' c in
      if ca_mode a = Some OVER_ADVANCE
      then rbind (totals_amount c ''to_reimburse'') (\<lambda>due.
        let amount = (case due of None \<Rightarrow> ''the difference'' | Some s \<Rightarrow> s) in
        Inr (amount @ '' is due you on liquidation '' @ ref,
             ''Your liquidation '' @ ref @ '' is settled. You spent '' @ amount @ '' more than your '' @ which @
             '' covered, so that difference is still owed to you '' @ em_dash @
             '' open the liquidation and file the reimbursement claim for it.''))
      else Inr (''Liquidation '' @ ref @ '' is settled'',
        (if ca_mode a = Some REFUND
         then ''Your liquidation '' @ ref @ '' is settled and your '' @ which @ '' is closed. The excess advance was refunded'' @
              opt_text (ca_refund_or_no a) (\<lambda>n. '' against official receipt '' @ n) @
              ''. Nothing further is needed from you.''
         else ''Your liquidation '' @ ref @ '' is settled and your '' @ which @
              '' is closed. The advance was fully expended '' @ em_dash @
              '' nothing is refundable and nothing further is needed from you.'')))"

definition notify_settlement :: "oc_db \<Rightarrow> claim \<Rightarrow> cash_advance \<Rightarrow> (nat \<times> oc_db) res" where
  "notify_settlement db c a =
     rbind (owner_user db (ca_claimant a)) (\<lambda>owner.
       case owner of
         None \<Rightarrow> Inr (0, db)
       | Some u \<Rightarrow>
           rbind (settlement_text c a) (\<lambda>(subject, body).
             let key = LIQUIDATION_DEDUP_PREFIX @ '':'' @ int_str (ca_id a) @ '':settled:in_app'' in
             post_once db key (Inr (in_app [(''dedup_key'', JStr key), (''recipient_user_id'', JInt (user_id u)),
               (''module'', JStr ''reimbursement''), (''kind'', JStr ''liquidation_settled''), (''cash_advance_id'', JInt (ca_id a)),
               (''claim_id'', JInt (cl_id c)),
               (''settlement_mode'', case ca_mode a of None \<Rightarrow> JNull | Some m \<Rightarrow> JStr m),
               (''subject'', JStr subject), (''body_text'', JStr body)]))))"

definition EXTERNAL_DEDUP_PREFIX :: string where "EXTERNAL_DEDUP_PREFIX = ''reimb.claim.external''"
definition PAID_DEDUP_PREFIX :: string where "PAID_DEDUP_PREFIX = ''reimb.claim.paid''"

definition WITH_BUDGET :: string where "WITH_BUDGET = ''with_budget''"
definition WITH_ACCOUNTING :: string where "WITH_ACCOUNTING = ''with_accounting''"
definition PAYMENT_PROCESSING :: string where "PAYMENT_PROCESSING = ''payment_processing''"
definition PAID :: string where "PAID = ''paid''"
definition RELAY_STATUSES :: "string list" where "RELAY_STATUSES = [WITH_BUDGET, WITH_ACCOUNTING, PAYMENT_PROCESSING]"

definition LABELS :: "(string \<times> string) list" where
  "LABELS = [(WITH_BUDGET, ''With Budget''), (WITH_ACCOUNTING, ''With Accounting''),
     (PAYMENT_PROCESSING, ''Payment processing''), (PAID, ''Paid'')]"

definition label :: "string \<Rightarrow> string" where
  "label s = (case map_of LABELS s of None \<Rightarrow> s | Some l \<Rightarrow> l)"

definition notify_external_status :: "oc_db \<Rightarrow> claim \<Rightarrow> external_event \<Rightarrow> (nat \<times> oc_db) res" where
  "notify_external_status db c e =
     rbind (owner_user db (cl_claimant c)) (\<lambda>owner.
       case owner of
         None \<Rightarrow> Inr (0, db)
       | Some u \<Rightarrow>
           (let ref = claim_ref ''#'' c;
                what = label (xe_status e);
                noun = (if cl_kind c = LIQUIDATION_KIND then ''liquidation'' else ''claim'');
                when = (case xe_date e of None \<Rightarrow> [] | Some d \<Rightarrow> '' as of '' @ isoformat d);
                body = ''FMS moved '' @ ref @ '' to '' @ what @ when @ ''. Nothing is needed from you '' @ em_dash @
                  '' this is where your packet has got to.'' @ opt_text (xe_note e) (\<lambda>t. '' Note from FMS: '' @ t);
                key = EXTERNAL_DEDUP_PREFIX @ '':'' @ int_str (xe_id e) @ '':in_app'' in
            post_once db key (Inr (in_app [(''dedup_key'', JStr key), (''recipient_user_id'', JInt (user_id u)),
              (''module'', JStr ''reimbursement''), (''kind'', JStr ''external_status''), (''claim_id'', JInt (cl_id c)),
              (''external_status'', JStr (xe_status e)),
              (''subject'', JStr (''Your '' @ noun @ '' '' @ ref @ '' is now '' @ what)), (''body_text'', JStr body)]))))"

definition notify_paid :: "oc_db \<Rightarrow> claim \<Rightarrow> (nat \<times> oc_db) res" where
  "notify_paid db c =
     rbind (owner_user db (cl_claimant c)) (\<lambda>owner.
       case owner of
         None \<Rightarrow> Inr (0, db)
       | Some u \<Rightarrow>
           rbind (totals_amount c ''grand'') (\<lambda>amount.
             let ref = claim_ref ''#'' c;
                 when = (case cl_paid_on c of None \<Rightarrow> [] | Some d \<Rightarrow> '' on '' @ isoformat d);
                 which = opt_text (cl_payout_ref c) (\<lambda>r. '' under reference '' @ r);
                 subject = (case amount of None \<Rightarrow> ''Claim '' @ ref @ '' is paid'' | Some s \<Rightarrow> s @ '' paid on claim '' @ ref);
                 body = ''FMS paid your travel claim '' @ ref @ when @ which @
                   (case amount of None \<Rightarrow> [] | Some s \<Rightarrow> '' '' @ em_dash @ '' '' @ s) @
                   ''. The claim is closed and nothing further is needed from you.'';
                 key = PAID_DEDUP_PREFIX @ '':'' @ int_str (cl_id c) @ '':in_app'' in
             post_once db key (Inr (in_app [(''dedup_key'', JStr key), (''recipient_user_id'', JInt (user_id u)),
               (''module'', JStr ''reimbursement''), (''kind'', JStr ''claim_paid''), (''claim_id'', JInt (cl_id c)),
               (''payout_ref'', case cl_payout_ref c of None \<Rightarrow> JNull | Some r \<Rightarrow> JStr r),
               (''subject'', JStr subject), (''body_text'', JStr body)]))))"

section \<open>Keyset pages\<close>

text \<open>
  What a work list must offer for its pages to be the list: the keys are distinct, and working on a row
  leaves the rows after it, and their order, alone.
\<close>

lemma each_append: "each work st (xs @ ys) = rbind (each work st xs) (\<lambda>st'. each work st' ys)"
  by (induction xs arbitrary: st) simp_all

definition after :: "('r \<Rightarrow> 'k::linorder) \<Rightarrow> 'k option \<Rightarrow> 'r list \<Rightarrow> 'r list" where
  "after key cursor rows = filter (\<lambda>r. case cursor of None \<Rightarrow> True | Some k \<Rightarrow> key r > k) (sort_key key rows)"

lemma last_key_max:
  assumes "sorted_wrt (<) (map key page)" "r \<in> set page"
  shows "key r \<le> (key (last page) :: 'k::linorder)"
  using assms
proof (induction page rule: rev_induct)
  case (snoc x page)
  then show ?case by (auto simp: sorted_wrt_append intro: less_imp_le)
qed simp

locale keyset_worklist =
  fixes rows :: "'s \<Rightarrow> 'r list"
    and key :: "'r \<Rightarrow> 'k::linorder"
    and work :: "'s \<Rightarrow> 'r \<Rightarrow> 's res"
    and ok :: "'s \<Rightarrow> bool"
  assumes distinct_keys: "ok st \<Longrightarrow> distinct (map key (rows st))"
    and work_ok: "ok st \<Longrightarrow> r \<in> set (rows st) \<Longrightarrow> work st r = Inr st' \<Longrightarrow> ok st'"
    and work_later: "ok st \<Longrightarrow> r \<in> set (rows st) \<Longrightarrow> work st r = Inr st' \<Longrightarrow> key r \<le> k \<Longrightarrow>
      after key (Some k) (rows st') = after key (Some k) (rows st)"
begin

lemma strictly_sorted: "ok st \<Longrightarrow> sorted_wrt (<) (map key (after key c (rows st)))"
proof -
  assume "ok st"
  then have "distinct (map key (sort_key key (rows st)))"
    using distinct_keys by (simp add: distinct_map)
  then have "sorted_wrt (<) (map key (sort_key key (rows st)))"
    by (simp add: strict_sorted_iff)
  then show ?thesis unfolding after_def sorted_wrt_map by (rule sorted_wrt_filter)
qed

lemma after_mem: "r \<in> set (after key (Some k) (rows st)) \<longleftrightarrow> r \<in> set (rows st) \<and> k < key r"
  by (auto simp: after_def)

lemma each_later:
  "ok st \<Longrightarrow> set page \<subseteq> set (rows st) \<Longrightarrow> sorted_wrt (<) (map key page) \<Longrightarrow> each work st page = Inr st' \<Longrightarrow>
     (\<And>r. r \<in> set page \<Longrightarrow> key r \<le> k) \<Longrightarrow> ok st' \<and> after key (Some k) (rows st') = after key (Some k) (rows st)"
proof (induction page arbitrary: st)
  case (Cons r page)
  from Cons.prems(4) obtain st1 where st1: "work st r = Inr st1" "each work st1 page = Inr st'" by (auto simp: rbind_eq_Inr)
  have r: "r \<in> set (rows st)" "key r \<le> k" using Cons.prems(2,5) by auto
  have ok1: "ok st1" by (rule work_ok [OF Cons.prems(1) r(1) st1(1)])
  have "set page \<subseteq> set (rows st1)"
  proof
    fix x assume x: "x \<in> set page"
    then have "x \<in> set (after key (Some (key r)) (rows st))" using Cons.prems(2,3) by (auto simp: after_mem)
    then have "x \<in> set (after key (Some (key r)) (rows st1))"
      using work_later [OF Cons.prems(1) r(1) st1(1) order_refl] by simp
    then show "x \<in> set (rows st1)" by (simp add: after_mem)
  qed
  then have "ok st' \<and> after key (Some k) (rows st') = after key (Some k) (rows st1)"
    using Cons.IH [OF ok1 _ _ st1(2)] Cons.prems(3,5) by auto
  then show ?case using work_later [OF Cons.prems(1) r(1) st1(1) r(2)] by simp
qed simp

lemma after_next:
  assumes "ok st" "page = take n (after key c (rows st))" "page \<noteq> []"
  shows "after key (Some (key (last page))) (rows st) = drop n (after key c (rows st))"
proof -
  let ?L = "after key c (rows st)"
  have split: "?L = page @ drop n ?L" using assms(2) by simp
  have sw: "sorted_wrt (<) (map key page @ map key (drop n ?L))"
    using strictly_sorted [OF assms(1), of c] split by (metis map_append)
  have "sorted_wrt (<) (map key page)" using sw by (simp add: sorted_wrt_append)
  note lastk = last_key_max [OF this]
  have late: "key (last page) < key r" if "r \<in> set (drop n ?L)" for r
    using sw that assms(3) by (auto simp: sorted_wrt_append)
  have first: "c = None \<or> (\<exists>k. c = Some k \<and> k < key (last page))"
  proof (cases c)
    case (Some k)
    have "last page \<in> set ?L" using assms(2,3) by (metis last_in_set in_set_takeD)
    then show ?thesis using Some by (simp add: after_def)
  qed simp
  have "after key (Some (key (last page))) (rows st) = filter (\<lambda>r. key (last page) < key r) ?L"
    using first by (auto simp: after_def intro!: filter_cong)
  also have "\<dots> = filter (\<lambda>r. key (last page) < key r) page @ filter (\<lambda>r. key (last page) < key r) (drop n ?L)"
    by (metis split filter_append)
  also have "\<dots> = drop n ?L"
    using lastk late by (auto simp: filter_empty_conv filter_id_conv leD)
  finally show ?thesis .
qed

text \<open>Draining works through the first \<open>n * m\<close> rows in order, and says so when that was all.\<close>

lemma drain_works:
  assumes "0 < n"
  shows "ok st \<Longrightarrow> drain rows key work n m c st =
    rbind (each work st (take (n * m) (after key c (rows st)))) (\<lambda>st'. Inr (length (after key c (rows st)) < n * m, st'))"
proof (induction m arbitrary: c st)
  case (Suc m)
  let ?L = "after key c (rows st)"
  define page where "page = take n ?L"
  have pg: "page_of key n (rows st) c = page" by (simp add: page_of_def page_def after_def)
  show ?case
  proof (cases "page = []")
    case True
    then have "?L = []" using assms by (simp add: page_def)
    then show ?thesis using True pg assms by simp
  next
    case False
    have take: "take (n * Suc m) ?L = page @ take (n * m) (drop n ?L)"
      by (simp add: page_def take_add [symmetric])
    show ?thesis
    proof (cases "each work st page")
      case (Inl e)
      then show ?thesis using False pg take by (simp add: each_append Let_def)
    next
      case (Inr st1)
      show ?thesis
      proof (cases "length page < n")
        case True
        then have "?L = page" "length ?L < n * Suc m" by (auto simp: page_def)
        then show ?thesis using False True pg Inr by (simp add: Let_def)
      next
        case full: False
        have sub: "set page \<subseteq> set (rows st)" by (auto simp: page_def after_def dest!: in_set_takeD)
        have sorted: "sorted_wrt (<) (map key page)"
          using strictly_sorted [OF Suc.prems, of c] by (simp add: page_def sorted_wrt_take take_map [symmetric])
        from each_later [OF Suc.prems sub sorted Inr last_key_max [OF sorted]]
        have ok1: "ok st1" "after key (Some (key (last page))) (rows st1) = drop n ?L"
          using after_next [OF Suc.prems page_def False] by simp_all
        have "length page = n" using full by (simp add: page_def)
        then have len: "length ?L \<ge> n" by (simp add: page_def)
        then have "(length (drop n ?L) < n * m) = (length ?L < n * Suc m)" by auto
        then show ?thesis
          using False full pg Inr Suc.IH [OF ok1(1), of "Some (key (last page))"] ok1(2) take
          by (simp add: Let_def each_append)
      qed
    qed
  qed
qed simp

lemma drain_ok:
  assumes "ok st" "drain rows key work n m c st = Inr (b, st')"
  shows "ok st'"
proof (cases "n = 0")
  case True
  then show ?thesis using assms by (cases m) (simp_all add: page_of_def)
next
  case False
  let ?page = "take (n * m) (after key c (rows st))"
  have run: "each work st ?page = Inr st'" using assms(2) drain_works [OF _ assms(1)] False by (auto simp: rbind_eq_Inr)
  have sorted: "sorted_wrt (<) (map key ?page)" using strictly_sorted [OF assms(1), of c] by (simp add: sorted_wrt_take take_map [symmetric])
  have "set ?page \<subseteq> set (rows st)" by (auto simp: after_def dest!: in_set_takeD)
  from each_later [OF assms(1) this sorted run last_key_max [OF sorted]] show ?thesis by simp
qed

end

section \<open>What a sweep touches\<close>

definition keeps_sent :: "outbox_db \<Rightarrow> outbox_db \<Rightarrow> bool" where
  "keeps_sent ob ob' \<longleftrightarrow> (\<forall>key. live_row ob key \<noteq> None \<longrightarrow> live_row ob' key \<noteq> None)"

lemma keeps_sent_refl [simp]: "keeps_sent ob ob" and keeps_sent_trans: "keeps_sent a b \<Longrightarrow> keeps_sent b c \<Longrightarrow> keeps_sent a c"
  by (auto simp: keeps_sent_def)

text \<open>A persisted notification is the live row of its key.\<close>

lemma persist_live:
  assumes "persist_notification m us ss ob n = Inr (k, ob')"
  shows "keeps_sent ob ob'" "meta_str (nf_meta n) ''dedup_key'' = Some key \<Longrightarrow> key \<noteq> [] \<Longrightarrow> live_row ob' key \<noteq> None"
proof -
  define row where "row = new_row (ob_seq ob + 1) m (resolve_recipient us ss (ob_prefs ob) n) n"
  define key' where "key' = meta_str (nf_meta n) ''dedup_key''"
  define existing where "existing = (if truthy key' then live_row ob (the key') else None)"
  have run: "(case existing of Some r \<Rightarrow> Inr (nt_id r, ob)
      | None \<Rightarrow> if key_taken (ob_rows ob) row then Inl IntegrityError
          else Inr (nt_id row, ob\<lparr>ob_rows := ob_rows ob @ [row], ob_seq := ob_seq ob + 1\<rparr>)) = Inr (k, ob')"
    using assms unfolding persist_notification_def Let_def row_def existing_def key'_def .
  have row: "nt_key row = key'" "nt_status row \<noteq> Dead"
    by (simp_all add: row_def new_row_def key'_def Let_def resolve_recipient_def)
  have snoc: "live_row ob' x = (case live_row ob x of Some r \<Rightarrow> Some r | None \<Rightarrow> if key' = Some x then Some row else None)"
    if "ob' = ob\<lparr>ob_rows := ob_rows ob @ [row], ob_seq := ob_seq ob + 1\<rparr>" for x
  proof -
    have "find P (xs @ [row]) = (case find P xs of Some r \<Rightarrow> Some r | None \<Rightarrow> if P row then Some row else None)" for P xs
      by (induction xs) (auto split: option.splits)
    then show ?thesis using that row by (simp add: live_row_def)
  qed
  show "live_row ob' key \<noteq> None" if "meta_str (nf_meta n) ''dedup_key'' = Some key" "key \<noteq> []"
    using run snoc that by (cases existing) (auto simp: existing_def key'_def split: if_splits option.splits)
  show "keeps_sent ob ob'"
    using run snoc by (cases existing) (auto simp: keeps_sent_def split: if_splits option.splits)
qed

lemma post_effect:
  assumes "post db n = Inr (k, db')"
  shows "db' = db\<lparr>outbox := outbox db'\<rparr>" "keeps_sent (outbox db) (outbox db')"
    "meta_str (nf_meta n) ''dedup_key'' = Some key \<Longrightarrow> key \<noteq> [] \<Longrightarrow> already_sent db' key"
proof -
  obtain ob where p: "persist_notification NOTIFICATIONS_MAX_ATTEMPTS (db_users db) (staffs (rdb db)) (outbox db) n = Inr (k, ob)"
    "db' = db\<lparr>outbox := dispatch_on_commit ob k\<rparr>"
    using assms by (auto simp: post_def rbind_eq_Inr)
  have pend: "live_row (dispatch_on_commit ob k) x = live_row ob x" for x by (simp add: live_row_def dispatch_on_commit_def)
  show "db' = db\<lparr>outbox := outbox db'\<rparr>" using p(2) by simp
  show "keeps_sent (outbox db) (outbox db')" using persist_live(1) [OF p(1)] p(2) pend by (simp add: keeps_sent_def)
  show "already_sent db' key" if "meta_str (nf_meta n) ''dedup_key'' = Some key" "key \<noteq> []"
    using persist_live(2) [OF p(1) that] p(2) pend by (simp add: already_sent_def)
qed

lemma dedup_key_text [simp]: "dedup_key s k \<noteq> []"
  by (simp add: dedup_key_def DEDUP_PREFIX_def)

lemma in_app_key [simp]: "meta_str (nf_meta (in_app ((''dedup_key'', JStr key) # kvs))) ''dedup_key'' = Some key"
  by (simp add: in_app_def meta_str_def)

lemma send_nudge_effect:
  assumes "send_nudge db c s k = Inr (n, db')"
  shows "db' = db\<lparr>outbox := outbox db'\<rparr>" "keeps_sent (outbox db) (outbox db')" "n = None \<Longrightarrow> db' = db"
    "n \<noteq> None \<Longrightarrow> already_sent db' (dedup_key (sp_id s) k)"
proof -
  have *: "db' = db\<lparr>outbox := outbox db'\<rparr> \<and> keeps_sent (outbox db) (outbox db') \<and> (n = None \<longrightarrow> db' = db) \<and>
      (n \<noteq> None \<longrightarrow> already_sent db' (dedup_key (sp_id s) k))"
  proof (cases "n")
    case None
    then have "db' = db" using assms
      by (auto simp: send_nudge_def Let_def rbind_eq_Inr split: option.splits if_splits)
    then show ?thesis using None by simp
  next
    case (Some m)
    then obtain kvs where "post db (in_app ((''dedup_key'', JStr (dedup_key (sp_id s) k)) # kvs)) = Inr (m, db')"
      using assms by (auto simp: send_nudge_def Let_def rbind_eq_Inr split: option.splits if_splits)
    from post_effect [OF this] Some show ?thesis by auto
  qed
  then show "db' = db\<lparr>outbox := outbox db'\<rparr>" "keeps_sent (outbox db) (outbox db')" "n = None \<Longrightarrow> db' = db"
    "n \<noteq> None \<Longrightarrow> already_sent db' (dedup_key (sp_id s) k)" by blast+
qed

text \<open>The claim of a step and the rung the ladder has reached for it.\<close>

definition step_claim :: "oc_db \<Rightarrow> wf_step \<Rightarrow> claim option" where
  "step_claim db s = Option.bind (Option.bind (get_instance (wfdb db) (sp_instance s)) in_subject_id) (get_claim (rdb db))"

definition step_overdue :: "oc_db \<Rightarrow> date \<Rightarrow> wf_step \<Rightarrow> int res" where
  "step_overdue db today s =
     (let due_local = manila_date (the (sp_sla_due s)) in
      working_days_between due_local today (load_nonworking_dates (holidays (rdb db)) (min due_local today) today))"

definition rung :: "int \<Rightarrow> int \<Rightarrow> int" where
  "rung repeat wd = (if repeat > 0 then wd div repeat else 0)"

lemma remind_step_alt:
  "remind_step repeat today sw s =
     (case step_claim (sw_db sw) s of
        None \<Rightarrow> Inr (sw\<lparr>sw_checked := sw_checked sw + 1\<rparr>)
      | Some c \<Rightarrow> rbind (step_overdue (sw_db sw) today s) (\<lambda>wd.
          if wd < 0 then Inr (sw\<lparr>sw_checked := sw_checked sw + 1\<rparr>)
          else rbind (send_nudge (sw_db sw) c s (rung repeat wd)) (\<lambda>(n, db').
            Inr (if n = None then sw\<lparr>sw_checked := sw_checked sw + 1, sw_db := db'\<rparr>
                 else sw\<lparr>sw_checked := sw_checked sw + 1, sw_nudged := sw_nudged sw + 1,
                        sw_db := (if rung repeat wd > 0 then db'\<lparr>wfdb := add_reminder (wfdb db') s (rung repeat wd)\<rparr> else db')\<rparr>))))"
  by (simp add: remind_step_def step_claim_def step_overdue_def rung_def Let_def cong: option.case_cong if_cong)

definition same_work :: "oc_db \<Rightarrow> oc_db \<Rightarrow> bool" where
  "same_work db db' \<longleftrightarrow> rdb db' = rdb db \<and> steps (wfdb db') = steps (wfdb db) \<and> instances (wfdb db') = instances (wfdb db) \<and>
     states (wfdb db') = states (wfdb db) \<and> transitions (wfdb db') = transitions (wfdb db) \<and> auth (wfdb db') = auth (wfdb db) \<and>
     keeps_sent (outbox db) (outbox db')"

lemma remind_step_effect:
  assumes "remind_step repeat today sw s = Inr sw'"
  shows "same_work (sw_db sw) (sw_db sw') \<and>
    (wfdb (sw_db sw') = wfdb (sw_db sw) \<or> (\<exists>k. wfdb (sw_db sw') = add_reminder (wfdb (sw_db sw)) s k))"
proof (cases "step_claim (sw_db sw) s")
  case None
  then show ?thesis using assms by (auto simp: remind_step_alt same_work_def)
next
  case (Some c)
  then obtain wd where wd: "step_overdue (sw_db sw) today s = Inr wd" using assms by (auto simp: remind_step_alt rbind_eq_Inr)
  show ?thesis
  proof (cases "wd < 0")
    case True
    then show ?thesis using assms Some wd by (auto simp: remind_step_alt same_work_def)
  next
    case False
    then obtain n db' where n: "send_nudge (sw_db sw) c s (rung repeat wd) = Inr (n, db')"
      "sw_db sw' = db' \<or> sw_db sw' = db'\<lparr>wfdb := add_reminder (wfdb db') s (rung repeat wd)\<rparr>"
      using assms Some wd by (auto simp: remind_step_alt rbind_eq_Inr split: if_splits)
    have "rdb db' = rdb (sw_db sw)" "wfdb db' = wfdb (sw_db sw)" by (subst send_nudge_effect(1) [OF n(1)], simp)+
    then show ?thesis using n(2) send_nudge_effect(2) [OF n(1)] by (auto simp: same_work_def add_reminder_def)
  qed
qed

lemmas remind_step_frame = remind_step_effect [THEN conjunct1]

lemma same_work_rows: "same_work db db' \<Longrightarrow> overdue_steps (wfdb db') now = overdue_steps (wfdb db) now"
  by (simp add: same_work_def overdue_steps_def)

lemma overdue_keys: "distinct (map sp_id (steps w)) \<Longrightarrow> distinct (map step_order (overdue_steps w now))"
  unfolding overdue_steps_def by (auto simp: distinct_map inj_on_def step_order_def distinct_filter)

interpretation sla: keyset_worklist "\<lambda>sw. overdue_steps (wfdb (sw_db sw)) now" step_order "remind_step repeat today"
  "\<lambda>sw. distinct (map sp_id (steps (wfdb (sw_db sw))))" for now repeat today
proof
  fix st st' r k
  assume ok: "distinct (map sp_id (steps (wfdb (sw_db st))))" and run: "remind_step repeat today st r = Inr st'"
  note f = remind_step_frame [OF run]
  show "distinct (map sp_id (steps (wfdb (sw_db st'))))" using ok f by (simp add: same_work_def)
  show "after step_order (Some k) (overdue_steps (wfdb (sw_db st')) now) = after step_order (Some k) (overdue_steps (wfdb (sw_db st)) now)"
    using same_work_rows [OF f] by simp
qed (rule overdue_keys)

text \<open>A step the ladder has nothing to say about any more.\<close>

definition nudge_silent :: "oc_db \<Rightarrow> claim \<Rightarrow> wf_step \<Rightarrow> int \<Rightarrow> bool" where
  "nudge_silent db c s k \<longleftrightarrow> cl_holder_kind c \<noteq> Some ''user'' \<or> cl_holder c = None \<or> already_sent db (dedup_key (sp_id s) k)"

definition quiet :: "int \<Rightarrow> date \<Rightarrow> oc_db \<Rightarrow> wf_step \<Rightarrow> bool" where
  "quiet repeat today db s \<longleftrightarrow>
     (case step_claim db s of None \<Rightarrow> True
      | Some c \<Rightarrow> (case step_overdue db today s of Inl e \<Rightarrow> False
          | Inr wd \<Rightarrow> wd < 0 \<or> nudge_silent db c s (rung repeat wd)))"

lemma silent_nudge: "nudge_silent db c s k \<Longrightarrow> send_nudge db c s k = Inr (None, db)"
  by (auto simp: nudge_silent_def send_nudge_def split: option.splits)

lemma nudge_then_silent: "send_nudge db c s k = Inr (None, db') \<Longrightarrow> nudge_silent db c s k"
  by (auto simp: nudge_silent_def send_nudge_def Let_def rbind_eq_Inr split: option.splits if_splits)

lemma quiet_step:
  assumes "quiet repeat today (sw_db sw) s"
  shows "remind_step repeat today sw s = Inr (sw\<lparr>sw_checked := sw_checked sw + 1\<rparr>)"
  using assms silent_nudge by (auto simp: quiet_def remind_step_alt split: option.splits sum.splits)

lemma same_work_claim: "same_work db db' \<Longrightarrow> step_claim db' s = step_claim db s" "same_work db db' \<Longrightarrow> step_overdue db' today s = step_overdue db today s"
  by (simp_all add: same_work_def step_claim_def step_overdue_def)

lemma quiet_later: "quiet repeat today db s \<Longrightarrow> same_work db db' \<Longrightarrow> quiet repeat today db' s"
  unfolding quiet_def same_work_claim
  by (auto simp: nudge_silent_def same_work_def keeps_sent_def already_sent_def split: option.splits sum.splits)

lemma step_then_quiet:
  assumes "remind_step repeat today sw s = Inr sw'"
  shows "quiet repeat today (sw_db sw') s"
proof (cases "step_claim (sw_db sw) s")
  case None
  then show ?thesis using assms by (auto simp: remind_step_alt quiet_def)
next
  case (Some c)
  then obtain wd where wd: "step_overdue (sw_db sw) today s = Inr wd" using assms by (auto simp: remind_step_alt rbind_eq_Inr)
  note f = remind_step_frame [OF assms]
  have same: "step_claim (sw_db sw') s = Some c" "step_overdue (sw_db sw') today s = Inr wd"
    using same_work_claim [OF f] Some wd by simp_all
  show ?thesis
  proof (cases "wd < 0")
    case True
    then show ?thesis using same by (simp add: quiet_def)
  next
    case False
    then obtain n db' where n: "send_nudge (sw_db sw) c s (rung repeat wd) = Inr (n, db')"
      "n = None \<Longrightarrow> sw_db sw' = db'" "outbox (sw_db sw') = outbox db'"
      using assms Some wd by (auto simp: remind_step_alt rbind_eq_Inr split: if_splits)
    have "nudge_silent (sw_db sw') c s (rung repeat wd)"
    proof (cases n)
      case None
      then show ?thesis using n send_nudge_effect(3) [OF n(1)] nudge_then_silent by metis
    next
      case Some
      then show ?thesis using send_nudge_effect(4) [OF n(1)] n(3) by (simp add: nudge_silent_def already_sent_def)
    qed
    then show ?thesis using same by (simp add: quiet_def)
  qed
qed

lemma same_work_refl [simp]: "same_work db db" by (simp add: same_work_def)

lemma same_work_trans: "same_work a b \<Longrightarrow> same_work b c \<Longrightarrow> same_work a c"
  using keeps_sent_trans by (auto simp: same_work_def)

lemma each_quiet:
  "each (remind_step repeat today) sw ss = Inr sw' \<Longrightarrow>
     same_work (sw_db sw) (sw_db sw') \<and> (\<forall>s \<in> set ss. quiet repeat today (sw_db sw') s) \<and> sw_checked sw' = sw_checked sw + length ss"
proof (induction ss arbitrary: sw)
  case (Cons s ss)
  from Cons.prems obtain sw1 where s: "remind_step repeat today sw s = Inr sw1" "each (remind_step repeat today) sw1 ss = Inr sw'"
    by (auto simp: rbind_eq_Inr)
  note ih = Cons.IH [OF s(2)]
  have "sw_checked sw1 = sw_checked sw + 1"
    using s(1) by (auto simp: remind_step_alt rbind_eq_Inr split: option.splits if_splits)
  then show ?case
    using ih same_work_trans [OF remind_step_frame [OF s(1)]] quiet_later [OF step_then_quiet [OF s(1)]] by auto
qed simp

lemma quiet_each:
  "\<forall>s \<in> set ss. quiet repeat today (sw_db sw) s \<Longrightarrow>
     each (remind_step repeat today) sw ss = Inr (sw\<lparr>sw_checked := sw_checked sw + length ss\<rparr>)"
  by (induction ss arbitrary: sw) (simp_all add: quiet_step)

lemma after_None: "after key None rows = sort_key key rows"
  by (simp add: after_def)

section \<open>The liquidation ladder's work list\<close>

lemma post_once_frame:
  "post_once db key n = Inr (w, db') \<Longrightarrow> rdb db' = rdb db \<and> wfdb db' = wfdb db"
proof -
  assume run: "post_once db key n = Inr (w, db')"
  show ?thesis
  proof (cases "already_sent db key")
    case True
    then show ?thesis using run by (simp add: post_once_def)
  next
    case False
    then obtain m k where "post db m = Inr (k, db')" using run by (auto simp: post_once_def rbind_eq_Inr)
    from post_effect(1) [OF this] show ?thesis by (metis oc_db.select_convs(1,2) oc_db.simps(1,2) oc_db.surjective oc_db.update_convs(7))
  qed
qed

lemma send_liquidation_nudge_frame:
  "send_liquidation_nudge db a u milestone token remaining note = Inr (w, db') \<Longrightarrow> rdb db' = rdb db \<and> wfdb db' = wfdb db"
  by (auto simp: send_liquidation_nudge_def Let_def rbind_eq_Inr split: prod.splits if_splits dest!: post_once_frame)

text \<open>The record change of one advance; the messages leave the module's tables alone.\<close>

definition flip :: "date \<Rightarrow> reimb_db \<Rightarrow> cash_advance \<Rightarrow> bool \<times> reimb_db" where
  "flip today r a = (if the (ca_deadline a) - today < 0 then mark_overdue r a else (False, r))"

lemma remind_advance_tables:
  assumes "remind_advance repeat txt today lw a = Inr lw'"
  shows "wfdb (lw_db lw') = wfdb (lw_db lw)" "rdb (lw_db lw') = snd (flip today (rdb (lw_db lw)) a)"
proof -
  obtain flipped r where out: "flip today (rdb (lw_db lw)) a = (flipped, r)" by fastforce
  define lw2 where "lw2 = lw\<lparr>lw_checked := lw_checked lw + 1, lw_db := (lw_db lw)\<lparr>rdb := r\<rparr>, lw_flipped := lw_flipped lw + (if flipped then 1 else 0)\<rparr>"
  obtain owner g where g: "(case (g, owner) of
      (Some (milestone, token), Some u) \<Rightarrow>
        rbind (send_liquidation_nudge (lw_db lw2) (if flipped then a\<lparr>ca_st := CaOverdue\<rparr> else a) u milestone token
                 (the (ca_deadline a) - today) txt)
          (\<lambda>(w, db'). Inr (lw2\<lparr>lw_db := db', lw_nudged := lw_nudged lw + w\<rparr>))
    | _ \<Rightarrow> Inr lw2) = Inr lw'"
    using assms unfolding remind_advance_def Let_def flip_def [symmetric] out prod.case lw2_def [symmetric] rbind_eq_Inr
    by (elim exE conjE) (rule that, simp)
  have "wfdb (lw_db lw2) = wfdb (lw_db lw) \<and> rdb (lw_db lw2) = r" by (simp add: lw2_def)
  then have "wfdb (lw_db lw') = wfdb (lw_db lw) \<and> rdb (lw_db lw') = r"
    using g by (cases g; cases owner) (auto simp: rbind_eq_Inr dest!: send_liquidation_nudge_frame)
  then show "wfdb (lw_db lw') = wfdb (lw_db lw)" "rdb (lw_db lw') = snd (flip today (rdb (lw_db lw)) a)"
    using out by simp_all
qed

lemma flip_cases: "snd (flip today r a) = r \<or> snd (flip today r a) = put_advance r (a\<lparr>ca_st := CaOverdue\<rparr>) \<and> ca_st a \<noteq> CaSettled"
  by (auto simp: flip_def mark_overdue_def)

lemma remind_advance_frame:
  assumes "remind_advance repeat txt today lw a = Inr lw'"
  shows "rdb (lw_db lw') = rdb (lw_db lw) \<or> rdb (lw_db lw') = put_advance (rdb (lw_db lw)) (a\<lparr>ca_st := CaOverdue\<rparr>) \<and> ca_st a \<noteq> CaSettled"
  using remind_advance_tables(2) [OF assms] flip_cases by metis

lemma filter_row_upd:
  assumes "\<And>r. r \<in> set rows \<Longrightarrow> key r = k \<Longrightarrow> \<not> P r \<and> \<not> P (f r)"
  shows "filter P (row_upd key k f rows) = filter P rows"
  using assms by (induction rows) auto

lemma due_keys: "distinct (map ca_id (advances r)) \<Longrightarrow> distinct (map advance_order (due_advances r horizon))"
  unfolding due_advances_def by (auto simp: distinct_map inj_on_def advance_order_def distinct_filter)

lemma due_after_overdue:
  assumes "distinct (map ca_id (advances r))" "a \<in> set (due_advances r horizon)" "advance_order a \<le> k"
  shows "after advance_order (Some k) (due_advances (put_advance r (a\<lparr>ca_st := CaOverdue\<rparr>)) horizon) = after advance_order (Some k) (due_advances r horizon)"
proof -
  have a: "a \<in> set (advances r)" using assms(2) by (simp add: due_advances_def)
  have late: "\<not> k < advance_order x" if "x \<in> set (advances r)" "ca_id x = ca_id a" for x
  proof -
    have "x = a" using assms(1) a that by (auto simp: distinct_map dest: inj_onD)
    then show ?thesis using assms(3) by simp
  qed
  have same: "advance_order (a\<lparr>ca_st := CaOverdue\<rparr>) = advance_order a" by (simp add: advance_order_def)
  have "filter (\<lambda>x. k < advance_order x) (due_advances (put_advance r (a\<lparr>ca_st := CaOverdue\<rparr>)) horizon)
      = filter (\<lambda>x. k < advance_order x) (due_advances r horizon)"
    unfolding due_advances_def put_advance_def filter_filter
    by (simp, rule filter_row_upd) (use late assms(3) same in auto)
  then show ?thesis by (simp add: after_def filter_sort)
qed

interpretation liq: keyset_worklist "\<lambda>lw. due_advances (rdb (lw_db lw)) horizon" advance_order "remind_advance repeat txt today"
  "\<lambda>lw. distinct (map ca_id (advances (rdb (lw_db lw))))" for horizon repeat txt today
proof
  fix st st' r k
  assume ok: "distinct (map ca_id (advances (rdb (lw_db st))))" and r: "r \<in> set (due_advances (rdb (lw_db st)) horizon)"
    and run: "remind_advance repeat txt today st r = Inr st'"
  note f = remind_advance_frame [OF run]
  show "distinct (map ca_id (advances (rdb (lw_db st'))))" using f ok by (auto simp: put_advance_def)
  show "after advance_order (Some k) (due_advances (rdb (lw_db st')) horizon) = after advance_order (Some k) (due_advances (rdb (lw_db st)) horizon)"
    if "advance_order r \<le> k"
    using f due_after_overdue [OF ok r that] by auto
qed (rule due_keys)

text \<open>An advance a pass has worked on: overdue once its deadline has passed, else as it was.\<close>

definition seen :: "date \<Rightarrow> cash_advance \<Rightarrow> cash_advance" where
  "seen today a = (if the (ca_deadline a) < today then a\<lparr>ca_st := CaOverdue\<rparr> else a)"

lemma remind_advance_row:
  assumes "remind_advance repeat txt today lw a = Inr lw'" "a \<in> set (due_advances (rdb (lw_db lw)) horizon)"
    "distinct (map ca_id (advances (rdb (lw_db lw))))"
  shows "advances (rdb (lw_db lw')) = map (\<lambda>x. if ca_id x = ca_id a then seen today x else x) (advances (rdb (lw_db lw)))"
proof -
  have a: "a \<in> set (advances (rdb (lw_db lw)))" "ca_st a \<in> UNLIQUIDATED_STATUSES" using assms(2) by (simp_all add: due_advances_def)
  have uniq: "x = a" if "x \<in> set (advances (rdb (lw_db lw)))" "ca_id x = ca_id a" for x
    using assms(3) a(1) that by (auto simp: distinct_map dest: inj_onD)
  let ?r = "snd (flip today (rdb (lw_db lw)) a)"
  have same: "advances (rdb (lw_db lw)) = map (\<lambda>x. if ca_id x = ca_id a then a else x) (advances (rdb (lw_db lw)))"
    using uniq by (intro map_idI [symmetric]) auto
  have "advances ?r = map (\<lambda>x. if ca_id x = ca_id a then seen today a else x) (advances (rdb (lw_db lw)))"
  proof (cases "the (ca_deadline a) < today \<and> ca_st a \<noteq> CaOverdue")
    case True
    then have "ca_st a \<in> {CaOpen, CaLiquidationStarted}" using a(2) by (auto simp: UNLIQUIDATED_STATUSES_def)
    then have "?r = put_advance (rdb (lw_db lw)) (a\<lparr>ca_st := CaOverdue\<rparr>)" using True by (auto simp: flip_def mark_overdue_def)
    then show ?thesis using True by (simp add: put_advance_def row_upd_def seen_def)
  next
    case False
    then have "?r = rdb (lw_db lw)" by (auto simp: flip_def mark_overdue_def)
    moreover have "seen today a = a" using False by (auto simp: seen_def)
    ultimately show ?thesis using same by (simp only:)
  qed
  also have "\<dots> = map (\<lambda>x. if ca_id x = ca_id a then seen today x else x) (advances (rdb (lw_db lw)))"
    by (rule map_cong [OF refl]) (metis uniq)
  finally show ?thesis using remind_advance_tables(2) [OF assms(1)] by simp
qed

lemma each_advances:
  "each (remind_advance repeat txt today) lw as = Inr lw' \<Longrightarrow> set as \<subseteq> set (due_advances (rdb (lw_db lw)) horizon) \<Longrightarrow>
     distinct (map ca_id as) \<Longrightarrow> distinct (map ca_id (advances (rdb (lw_db lw)))) \<Longrightarrow>
     advances (rdb (lw_db lw')) = map (\<lambda>x. if ca_id x \<in> ca_id ` set as then seen today x else x) (advances (rdb (lw_db lw)))"
proof (induction as arbitrary: lw)
  case (Cons a as)
  from Cons.prems(1) obtain lw1 where a: "remind_advance repeat txt today lw a = Inr lw1"
    "each (remind_advance repeat txt today) lw1 as = Inr lw'" by (auto simp: rbind_eq_Inr)
  have row: "advances (rdb (lw_db lw1)) = map (\<lambda>x. if ca_id x = ca_id a then seen today x else x) (advances (rdb (lw_db lw)))"
    by (rule remind_advance_row [OF a(1)]) (use Cons.prems(2,4) in auto)
  have ids: "map ca_id (advances (rdb (lw_db lw1))) = map ca_id (advances (rdb (lw_db lw)))"
    unfolding row by (simp add: seen_def)
  have "set as \<subseteq> set (due_advances (rdb (lw_db lw1)) horizon)"
  proof
    fix x assume x: "x \<in> set as"
    then have "x \<in> set (advances (rdb (lw_db lw)))" using Cons.prems(2) by (auto simp: due_advances_def)
    moreover have "ca_id x \<noteq> ca_id a" using x Cons.prems(3) by (metis distinct.simps(2) image_eqI list.set_map list.simps(9))
    ultimately have "x \<in> set (advances (rdb (lw_db lw1)))" unfolding row by force
    then show "x \<in> set (due_advances (rdb (lw_db lw1)) horizon)" using x Cons.prems(2) by (auto simp: due_advances_def)
  qed
  then have "advances (rdb (lw_db lw')) = map (\<lambda>x. if ca_id x \<in> ca_id ` set as then seen today x else x) (advances (rdb (lw_db lw1)))"
    using Cons.IH [OF a(2)] Cons.prems(3,4) ids by simp
  then show ?case using Cons.prems(3) unfolding row by (auto simp: seen_def)
qed simp

section \<open>A sample ladder\<close>

text \<open>Step 1 of claim 1, held by user 8, escalated and due on day 738000, looked at a week later.\<close>

definition ladder_claim :: claim where
  "ladder_claim = (blank_claim 1 REIMBURSEMENT_KIND 5)\<lparr>cl_status := Some DIVISION_APPROVAL, cl_instance := Some 1,
     cl_holder_kind := Some ''user'', cl_holder := Some 8\<rparr>"

definition ladder_step :: wf_step where
  "ladder_step = \<lparr>sp_id = 1, sp_instance = 1, sp_state = 2, sp_revision = 1, sp_sequence = 0, sp_join = JoinAny, sp_quorum = None,
     sp_perm = None, sp_org = None, sp_status = Active, sp_acted_by = None, sp_on_behalf = None, sp_acted_at = None,
     sp_comment = None, sp_sla_due = Some (due_instant 738000), sp_escalation = 1\<rparr>"

definition ladder_db :: oc_db where
  "ladder_db = \<lparr>wfdb = (empty_wf_db chain_auth)\<lparr>instances := [\<lparr>in_id = 1, in_version = 1, in_state = 2, in_row_version = 2, in_revision = 1,
       in_originator = Some 5, in_org = Some 1, in_subject_kind = Some SUBJECT_KIND, in_subject_id = Some 1, in_amount = None\<rparr>],
       steps := [ladder_step], in_seq := 1, sp_seq := 1\<rparr>,
     rdb = sample_ca\<lparr>claims := [ladder_claim], cl_seq := 1\<rparr>, adb = \<lparr>attachments = [], blobs = Map.empty, at_seq = 0\<rparr>,
     sdb = snd first_copy, counters = [], renders = [], outbox = empty_outbox\<rparr>"

definition ladder_now :: instant where "ladder_now = due_instant 738007"

definition ladder_run :: "(bool \<times> sla_sweep) res" where
  "ladder_run = sweep_sla_reminders ladder_db ladder_now 1 5"

abbreviation sla_start :: "oc_db \<Rightarrow> sla_sweep" where
  "sla_start db \<equiv> \<lparr>sw_db = db, sw_checked = 0, sw_nudged = 0\<rparr>"

abbreviation repeat_days :: "oc_db \<Rightarrow> instant \<Rightarrow> int" where
  "repeat_days db now \<equiv> config_working_days db REMINDER_KEY REMINDER_DEFAULT (manila_date now)"

lemma sla_sweep_drains:
  assumes "distinct (map sp_id (steps (wfdb db)))" "0 < n"
  shows "sweep_sla_reminders db now n m =
    rbind (each (remind_step (repeat_days db now) (manila_date now)) (sla_start db)
             (take (n * m) (sort_key step_order (overdue_steps (wfdb db) now))))
      (\<lambda>sw. Inr (length (overdue_steps (wfdb db) now) < n * m, sw))"
  using sla.drain_works [OF assms(2), of "sla_start db"] assms(1)
  by (simp add: sweep_sla_reminders_def Let_def after_None)

section \<open>Properties\<close>

text \<open>
  C23. The reminder sweep starves nobody: fetched in keyset pages, it looks at the overdue steps of claims one
  by one, most overdue first, each exactly once, as one pass over the sorted list would; up to the page
  budget, and it reports the list drained exactly when the budget was not used up.
\<close>

theorem sla_sweep_is_one_pass:
  assumes "distinct (map sp_id (steps (wfdb db)))" "0 < n"
  shows "sweep_sla_reminders db now n m =
    rbind (each (remind_step (repeat_days db now) (manila_date now)) (sla_start db)
             (take (n * m) (sort_key step_order (overdue_steps (wfdb db) now))))
      (\<lambda>sw. Inr (length (overdue_steps (wfdb db) now) < n * m, sw))"
  by (rule sla_sweep_drains [OF assms])

theorem sla_sweep_is_one_pass_witness:
  "sweep_sla_reminders ladder_db ladder_now 1 5 =
     rbind (each (remind_step 2 738007) (sla_start ladder_db) [ladder_step]) (\<lambda>sw. Inr (True, sw))"
proof -
  have "distinct (map sp_id (steps (wfdb ladder_db)))" by code_simp
  moreover have "take (1 * 5) (sort_key step_order (overdue_steps (wfdb ladder_db) ladder_now)) = [ladder_step]"
    "length (overdue_steps (wfdb ladder_db) ladder_now) < 1 * 5" "repeat_days ladder_db ladder_now = 2" "manila_date ladder_now = 738007"
    by code_simp+
  ultimately show ?thesis using sla_sweep_is_one_pass [of ladder_db 1 ladder_now 5] by simp
qed

text \<open>
  A repeated sweep nags nobody: when a sweep has drained the list, running it again at the same time looks
  at the same steps, sends nothing and changes nothing.
\<close>

theorem sla_sweep_idempotent:
  assumes "distinct (map sp_id (steps (wfdb db)))" "0 < n" "sweep_sla_reminders db now n m = Inr (True, sw)"
  shows "sweep_sla_reminders (sw_db sw) now n m = Inr (True, \<lparr>sw_db = sw_db sw, sw_checked = sw_checked sw, sw_nudged = 0\<rparr>)"
proof -
  let ?L = "sort_key step_order (overdue_steps (wfdb db) now)" and ?w = "remind_step (repeat_days db now) (manila_date now)"
  have len: "length (overdue_steps (wfdb db) now) < n * m" and run: "each ?w (sla_start db) ?L = Inr sw"
    using assms(3) sla_sweep_drains [OF assms(1,2), of now m] by (auto simp: rbind_eq_Inr)
  note q = each_quiet [OF run]
  have same: "same_work db (sw_db sw)" using q by simp
  have rows: "overdue_steps (wfdb (sw_db sw)) now = overdue_steps (wfdb db) now" using same_work_rows [OF same] .
  have cfg: "repeat_days (sw_db sw) now = repeat_days db now" "steps (wfdb (sw_db sw)) = steps (wfdb db)"
    using same by (simp_all add: same_work_def config_working_days_def config_int_def)
  have "each ?w (sla_start (sw_db sw)) ?L = Inr ((sla_start (sw_db sw))\<lparr>sw_checked := length ?L\<rparr>)"
    using quiet_each [of ?L _ _ "sla_start (sw_db sw)"] q by simp
  moreover have "sw_checked sw = length ?L" using q by simp
  ultimately show ?thesis
    using sla_sweep_drains [of "sw_db sw" n now m] assms(1,2) cfg rows len by simp
qed

theorem sla_sweep_idempotent_witness:
  "map_sum id (\<lambda>(d, sw). (d, sw_checked sw, sw_nudged sw, length (ob_rows (outbox (sw_db sw))))) ladder_run = Inr (True, 1, 1, 1) \<and>
   (\<exists>sw. ladder_run = Inr (True, sw) \<and>
     sweep_sla_reminders (sw_db sw) ladder_now 1 5 = Inr (True, \<lparr>sw_db = sw_db sw, sw_checked = sw_checked sw, sw_nudged = 0\<rparr>))"
proof -
  have r: "map_sum id (\<lambda>(d, sw). (d, sw_checked sw, sw_nudged sw, length (ob_rows (outbox (sw_db sw))))) ladder_run = Inr (True, 1, 1, 1)"
    by code_simp
  obtain sw where sw: "ladder_run = Inr (True, sw)"
  proof (cases ladder_run)
    case (Inl e)
    then show thesis using r unfolding Inl by simp
  next
    case (Inr p)
    then show thesis using r that unfolding Inr by (cases p) simp
  qed
  have d: "distinct (map sp_id (steps (wfdb ladder_db)))" by code_simp
  show ?thesis
    using r sw sla_sweep_idempotent [OF d _ sw [unfolded ladder_run_def]] by auto
qed

text \<open>
  The deadline ladder leaves no overdue advance unmarked: when it has drained its list, exactly the
  unliquidated advances whose deadline is past have become overdue, and no other row has changed.
\<close>

theorem liquidation_sweep_marks_overdue:
  assumes "distinct (map ca_id (advances (rdb db)))" "0 < n" "sweep_liquidation_reminders db now n m = Inr (True, lw)"
  shows "advances (rdb (lw_db lw)) =
    map (\<lambda>a. if ca_st a \<noteq> CaSettled \<and> (case ca_deadline a of None \<Rightarrow> False | Some d \<Rightarrow> d < manila_date now)
             then a\<lparr>ca_st := CaOverdue\<rparr> else a) (advances (rdb db))"
proof -
  let ?st = "\<lparr>lw_db = db, lw_checked = 0, lw_nudged = 0, lw_flipped = 0\<rparr>"
  obtain horizon where h: "date_add (manila_date now) 7 = Inr horizon"
    and d: "drain (\<lambda>lw. due_advances (rdb (lw_db lw)) horizon) advance_order
      (remind_advance (repeat_days db now) (overdue_note (rdb db) (manila_date now)) (manila_date now)) n m None ?st = Inr (True, lw)"
    using assms(3) by (auto simp: sweep_liquidation_reminders_def Let_def rbind_eq_Inr)
  let ?L = "sort_key advance_order (due_advances (rdb db) horizon)"
  let ?w = "remind_advance (repeat_days db now) (overdue_note (rdb db) (manila_date now)) (manila_date now)"
  have run: "each ?w ?st ?L = Inr lw"
    using d liq.drain_works [OF assms(2), of ?st] assms(1) by (auto simp: after_None rbind_eq_Inr)
  have "distinct (map ca_id (due_advances (rdb db) horizon))" using assms(1) by (simp add: due_advances_def distinct_map_filter)
  then have dist: "distinct (map ca_id ?L)" by (simp add: distinct_map)
  have adv: "advances (rdb (lw_db lw)) =
      map (\<lambda>x. if ca_id x \<in> ca_id ` set (due_advances (rdb db) horizon) then seen (manila_date now) x else x) (advances (rdb db))"
    using each_advances [OF run _ dist, of horizon] assms(1) by simp
  have hz: "horizon = manila_date now + 7" using h by (simp add: date_add_def split: if_splits)
  have mem: "ca_id x \<in> ca_id ` set (due_advances (rdb db) horizon) \<longleftrightarrow> x \<in> set (due_advances (rdb db) horizon)"
    if "x \<in> set (advances (rdb db))" for x
    using that assms(1) by (auto simp: due_advances_def distinct_map dest: inj_onD)
  show ?thesis
    unfolding adv
  proof (rule map_cong [OF refl])
    fix x assume x: "x \<in> set (advances (rdb db))"
    show "(if ca_id x \<in> ca_id ` set (due_advances (rdb db) horizon) then seen (manila_date now) x else x) =
      (if ca_st x \<noteq> CaSettled \<and> (case ca_deadline x of None \<Rightarrow> False | Some d \<Rightarrow> d < manila_date now)
       then x\<lparr>ca_st := CaOverdue\<rparr> else x)"
      using x hz unfolding mem [OF x]
      by (cases "ca_st x"; cases "ca_deadline x") (auto simp: due_advances_def seen_def UNLIQUIDATED_STATUSES_def)
  qed
qed

theorem liquidation_sweep_marks_overdue_witness:
  "\<exists>lw. sweep_liquidation_reminders ladder_db (due_instant 738020) 1 5 = Inr (True, lw) \<and>
     map ca_st (advances (rdb ladder_db)) = [CaOpen] \<and> map ca_st (advances (rdb (lw_db lw))) = [CaOverdue]"
proof -
  have "map_sum id fst (sweep_liquidation_reminders ladder_db (due_instant 738020) 1 5) = Inr True" by code_simp
  then obtain lw where lw: "sweep_liquidation_reminders ladder_db (due_instant 738020) 1 5 = Inr (True, lw)"
    by (cases "sweep_liquidation_reminders ladder_db (due_instant 738020) 1 5") auto
  have d: "distinct (map ca_id (advances (rdb ladder_db)))" by code_simp
  have "map ca_st (map (\<lambda>a. if ca_st a \<noteq> CaSettled \<and> (case ca_deadline a of None \<Rightarrow> False | Some d \<Rightarrow> d < manila_date (due_instant 738020))
             then a\<lparr>ca_st := CaOverdue\<rparr> else a) (advances (rdb ladder_db))) = [CaOverdue]"
    "map ca_st (advances (rdb ladder_db)) = [CaOpen]" by code_simp+
  then show ?thesis using lw liquidation_sweep_marks_overdue [OF d _ lw] by simp
qed

end
