(* ===== verification/Claim_Settlement.thy ===== *)
theory Claim_Settlement
  imports Notify
begin

text \<open>
  Where money closes a claim: starting a liquidation against a cash advance (\<open>services/liquidation.py\<close>),
  recording its settlement and spawning the reimbursement of the difference (\<open>services/settlement.py\<close>),
  the FMS relay and the payout of a reimbursement (\<open>services/external.py\<close>). Each call is one transaction
  that locks the rows it reads; the two unique indexes behind the pre-flight checks are part of the model.
\<close>

section \<open>Starting a liquidation\<close>

definition LIVE_STATUSES :: "string set" where
  "LIVE_STATUSES = set (vc_all_states LIQUIDATION) - {CANCELLED}"

definition liquidation_for_advance :: "reimb_db \<Rightarrow> int \<Rightarrow> claim option" where
  "liquidation_for_advance r k =
     (case sort_key cl_id (filter (\<lambda>c. cl_cash_advance c = Some k \<and> cl_kind c = LIQUIDATION_KIND \<and>
             (case cl_status c of None \<Rightarrow> False | Some s \<Rightarrow> s \<in> LIVE_STATUSES)) (claims r)) of
        [] \<Rightarrow> None | c # _ \<Rightarrow> Some c)"

definition holds_staff :: "oc_db \<Rightarrow> int \<Rightarrow> int \<Rightarrow> bool" where
  "holds_staff db actor staff_id \<longleftrightarrow>
     (case row_get user_id (db_users db) actor of None \<Rightarrow> False | Some u \<Rightarrow> user_staff u = Some staff_id)"

definition start_liquidation :: "oc_db \<Rightarrow> int \<Rightarrow> int \<Rightarrow> instant \<Rightarrow> (claim \<times> oc_db) res" where
  "start_liquidation db k actor now =
     (case find_advance (rdb db) k of
        None \<Rightarrow> Inl cash_advance_not_found
      | Some a \<Rightarrow>
          if ca_st a = CaSettled then Inl cash_advance_already_settled_for_liquidation
          else if \<not> holds_staff db actor (ca_claimant a) then Inl not_advance_holder
          else if liquidation_for_advance (rdb db) k \<noteq> None then Inl liquidation_exists
          else rbind (create_draft_claim db actor LIQUIDATION_KIND now) (\<lambda>(c0, db1).
            let c1 = c0\<lparr>cl_dpo_no := ca_dpo_no a, cl_date_return := ca_date_return a\<rparr> in
            case link_claim (rdb (put_claim db1 c1)) c1 a of
              Inl e \<Rightarrow> Inl (if e = IntegrityError then liquidation_exists else e)
            | Inr (c2, r) \<Rightarrow>
                (let (_, r2) = mark_liquidation_started r a in Inr (c2, db1\<lparr>rdb := r2\<rparr>))))"

section \<open>Recording a settlement\<close>

definition LIVE_SPAWN_STATUSES :: "string set" where
  "LIVE_SPAWN_STATUSES = set (vc_all_states REIMBURSEMENT) - {CANCELLED}"

definition settlement_mode :: "claim \<Rightarrow> string res" where
  "settlement_mode c =
     rbind (totals_money c ''to_refund'') (\<lambda>f.
       if f > 0 then Inr REFUND
       else rbind (totals_money c ''to_reimburse'') (\<lambda>p. Inr (if p > 0 then OVER_ADVANCE else EXACT)))"

definition spawn_for_liquidation :: "reimb_db \<Rightarrow> int \<Rightarrow> claim option" where
  "spawn_for_liquidation r k =
     (case sort_key cl_id (filter (\<lambda>c. cl_spawned_from c = Some k \<and>
             (case cl_status c of None \<Rightarrow> False | Some s \<Rightarrow> s \<in> LIVE_SPAWN_STATUSES)) (claims r)) of
        [] \<Rightarrow> None | c # _ \<Rightarrow> Some c)"

record receipt =
  rc_or_no :: "string option"
  rc_or_date :: "date option"
  rc_amount :: "decimal option"

definition validate_receipt :: "string \<Rightarrow> int \<Rightarrow> receipt \<Rightarrow> unit res" where
  "validate_receipt mode to_refund rc =
     (let supplied = truthy (rc_or_no rc) \<or> rc_or_date rc \<noteq> None in
      if mode = REFUND \<and> (\<not> truthy (rc_or_no rc) \<or> rc_or_date rc = None) then Inl refund_receipt_required
      else if mode \<noteq> REFUND \<and> supplied then Inl refund_receipt_not_applicable
      else (case rc_amount rc of
        None \<Rightarrow> Inr ()
      | Some d \<Rightarrow> rbind (to_money d) (\<lambda>m.
          if m \<noteq> (if mode = REFUND then to_refund else 0) then Inl refund_amount_mismatch else Inr ())))"

definition approve_request :: "int \<Rightarrow> int \<Rightarrow> string option \<Rightarrow> int option \<Rightarrow> action_request" where
  "approve_request k actor comment expected =
     \<lparr>rq_claim = k, rq_action = ''approve'', rq_actor = actor, rq_comment = comment, rq_reasons = [], rq_key = None, rq_expected = expected\<rparr>"

text \<open>The refusals, in order; the result is the claim, its advance, the amount to refund and the mode.\<close>

definition settlement_guards :: "oc_db \<Rightarrow> int \<Rightarrow> receipt \<Rightarrow> (claim \<times> cash_advance \<times> int \<times> string) res" where
  "settlement_guards db k rc =
     (case get_claim (rdb db) k of
        None \<Rightarrow> Inl claim_not_found
      | Some c \<Rightarrow>
          if cl_kind c \<noteq> LIQUIDATION_KIND then Inl not_a_liquidation
          else (case cl_cash_advance c of
             None \<Rightarrow> Inl liquidation_without_advance
           | Some aid \<Rightarrow>
               (case find_advance (rdb db) aid of
                  None \<Rightarrow> Inl cash_advance_not_found
                | Some a \<Rightarrow>
                    if ca_st a = CaSettled then Inl settlement_already_recorded
                    else if status_or_draft c \<noteq> HANDED_TO_FMS then Inl settlement_wrong_state
                    else if \<not> (case obj_get (cl_totals c) ''grand'' of None \<Rightarrow> False | Some v \<Rightarrow> json_truthy v)
                    then Inl settlement_totals_missing
                    else rbind (totals_money c ''to_refund'') (\<lambda>to_refund.
                         rbind (settlement_mode c) (\<lambda>mode.
                         rbind (validate_receipt mode to_refund rc) (\<lambda>_. Inr (c, a, to_refund, mode)))))))"

definition record_settlement ::
  "oc_db \<Rightarrow> int \<Rightarrow> int \<Rightarrow> receipt \<Rightarrow> string option \<Rightarrow> int option \<Rightarrow> string \<Rightarrow> instant \<Rightarrow> (claim \<times> oc_db) res" where
  "record_settlement db k actor rc comment expected stamp now =
     rbind (settlement_guards db k rc) (\<lambda>(c, a, to_refund, mode).
     rbind (mark_settled (rdb db) a actor mode (if mode = REFUND then Some (Fin to_refund (-2)) else None)
              (if mode = REFUND then rc_or_no rc else None) (if mode = REFUND then rc_or_date rc else None) now) (\<lambda>(_, r).
     rbind (claim_action (db\<lparr>rdb := r\<rparr>) (approve_request (cl_id c) actor comment expected) stamp now) (\<lambda>(c1, db1).
       let db2 = snd (start_retention_clock (generate_on_commit db1 HOLDER_KIND (cl_id c1)) (cl_id c1) now) in
       case find_advance (rdb db2) (ca_id a) of
         None \<Rightarrow> Inl AttributeError
       | Some a' \<Rightarrow> rbind (notify_settlement db2 c1 a') (\<lambda>(_, db3). Inr (c1, db3)))))"

section \<open>The reimbursement due\<close>

definition trip_of :: "claim \<Rightarrow> claim \<Rightarrow> claim" where
  "trip_of src c = c\<lparr>cl_activity := cl_activity src, cl_dpo_no := cl_dpo_no src, cl_dpo_date := cl_dpo_date src,
     cl_dpo_document := cl_dpo_document src, cl_purpose := cl_purpose src, cl_destination := cl_destination src,
     cl_region := cl_region src, cl_date_depart := cl_date_depart src, cl_date_return := cl_date_return src,
     cl_within_50km := cl_within_50km src, cl_overnight := cl_overnight src, cl_fund_source := cl_fund_source src,
     cl_other_total := cl_other_total src\<rparr>"

definition copy_leg :: "int \<Rightarrow> int \<Rightarrow> int \<Rightarrow> leg \<Rightarrow> leg" where
  "copy_leg new_id k seq l = l\<lparr>lg_id := new_id, lg_claim := k, lg_seq := seq, lg_pct := None, lg_amount := None, lg_total := None\<rparr>"

definition copy_legs :: "reimb_db \<Rightarrow> int \<Rightarrow> int \<Rightarrow> reimb_db" where
  "copy_legs r src k =
     (let old = sort_key (\<lambda>l. (lg_seq l, lg_id l)) (filter (\<lambda>l. lg_claim l = src) (legs r));
          new = map (\<lambda>(n, l). copy_leg (lg_seq_id r + int n) k (int n) l) (enumerate 1 old) in
      r\<lparr>legs := legs r @ new, lg_seq_id := lg_seq_id r + int (length old)\<rparr>)"

definition spawn_reimbursement :: "oc_db \<Rightarrow> int \<Rightarrow> int \<Rightarrow> string \<Rightarrow> instant \<Rightarrow> (claim \<times> oc_db) res" where
  "spawn_reimbursement db k actor stamp now =
     rbind (locked_claim db k) (\<lambda>src.
       if cl_kind src \<noteq> LIQUIDATION_KIND then Inl not_a_liquidation
       else if \<not> holds_staff db actor (cl_claimant src) then Inl not_advance_holder
       else (case Option.bind (cl_cash_advance src) (find_advance (rdb db)) of
          None \<Rightarrow> Inl liquidation_without_advance
        | Some a \<Rightarrow>
            if ca_mode a \<noteq> Some OVER_ADVANCE then Inl spawn_not_over_advance
            else if spawn_for_liquidation (rdb db) (cl_id src) \<noteq> None then Inl spawn_exists
            else rbind (create_draft_claim db actor REIMBURSEMENT_KIND now) (\<lambda>(c0, db1).
              let c1 = (trip_of src c0)\<lparr>cl_cash_advance := Some (ca_id a), cl_spawned_from := Some (cl_id src)\<rparr> in
              if spawn_taken (rdb db1) c1 then Inl spawn_exists
              else
                (let db2 = put_claim db1 c1;
                     db3 = db2\<lparr>rdb := copy_legs (rdb db2) (cl_id src) (cl_id c1)\<rparr> in
                 price_claim db3 (cl_id c1) stamp))))"

section \<open>The FMS journey\<close>

definition claim_events :: "oc_db \<Rightarrow> int \<Rightarrow> external_event list" where
  "claim_events db k = sort_key xe_id (filter (\<lambda>e. xe_claim e = k) (external_events (rdb db)))"

definition latest_event :: "oc_db \<Rightarrow> int \<Rightarrow> external_event option" where
  "latest_event db k = (case claim_events db k of [] \<Rightarrow> None | es \<Rightarrow> Some (last es))"

definition latest_events :: "oc_db \<Rightarrow> int list \<Rightarrow> (int \<times> external_event) list" where
  "latest_events db ks = List.map_filter (\<lambda>k. map_option (\<lambda>e. (k, e)) (latest_event db k)) (remdups ks)"

definition assert_not_future :: "date option \<Rightarrow> instant \<Rightarrow> unit res" where
  "assert_not_future d now =
     (case d of None \<Rightarrow> Inr () | Some d \<Rightarrow> if d > manila_date now then Inl external_event_future_date else Inr ())"

definition blank_to_none :: "string option \<Rightarrow> string option" where
  "blank_to_none s = (let t = strip (case s of None \<Rightarrow> [] | Some x \<Rightarrow> x) in if t = [] then None else Some t)"

record relay =
  ry_status :: string
  ry_noted_by :: "string option"
  ry_note :: "string option"
  ry_date :: "date option"

definition record_external_event :: "oc_db \<Rightarrow> int \<Rightarrow> relay \<Rightarrow> int \<Rightarrow> bool \<Rightarrow> instant \<Rightarrow> (external_event \<times> oc_db) res" where
  "record_external_event db k ry actor allow_terminal now =
     (if ry_status ry = PAID \<and> \<not> allow_terminal then Inl external_status_is_terminal
      else if ry_status ry \<notin> set RELAY_STATUSES \<and> \<not> (ry_status ry = PAID \<and> allow_terminal) then Inl unknown_external_status
      else rbind (assert_not_future (ry_date ry) now) (\<lambda>_.
        case get_claim (rdb db) k of
          None \<Rightarrow> Inl claim_not_found
        | Some c \<Rightarrow>
            if status_or_draft c \<noteq> HANDED_TO_FMS
            then rbind (vocabulary (Some (cl_kind c))) (\<lambda>_. Inl external_event_wrong_state)
            else
              (let previous = latest_event db (cl_id c);
                   e = \<lparr>xe_id = xe_seq (rdb db) + 1, xe_claim = cl_id c, xe_status = ry_status ry,
                        xe_noted_by = blank_to_none (ry_noted_by ry), xe_note = blank_to_none (ry_note ry), xe_date = ry_date ry,
                        xe_created_by = Some actor\<rparr>;
                   db1 = db\<lparr>rdb := (rdb db)\<lparr>external_events := external_events (rdb db) @ [e], xe_seq := xe_seq (rdb db) + 1\<rparr>\<rparr>;
                   changed = (case previous of None \<Rightarrow> True | Some p \<Rightarrow> xe_status p \<noteq> ry_status ry) in
               if changed \<and> ry_status ry \<noteq> PAID
               then rbind (notify_external_status db1 c e) (\<lambda>(_, db2). Inr (e, db2))
               else Inr (e, db1))))"

section \<open>Recording a payout\<close>

definition note_for_payout :: "string \<Rightarrow> string" where
  "note_for_payout r = ''Payment reference '' @ r @ ''.''"

definition payout_guards :: "oc_db \<Rightarrow> int \<Rightarrow> string option \<Rightarrow> date option \<Rightarrow> instant \<Rightarrow> (claim \<times> string \<times> date) res" where
  "payout_guards db k ref paid_on now =
     rbind (locked_claim db k) (\<lambda>c.
       if cl_kind c \<noteq> REIMBURSEMENT_KIND then Inl payout_not_a_reimbursement
       else if cl_payout_ref c \<noteq> None then Inl payout_already_recorded
       else if status_or_draft c \<noteq> HANDED_TO_FMS then rbind (vocabulary (Some (cl_kind c))) (\<lambda>_. Inl payout_wrong_state)
       else
         (let reference = strip (case ref of None \<Rightarrow> [] | Some s \<Rightarrow> s) in
          if reference = [] then Inl payout_ref_required
          else (case paid_on of
             None \<Rightarrow> Inl payout_date_required
           | Some d \<Rightarrow> rbind (assert_not_future (Some d) now) (\<lambda>_. Inr (c, reference, d)))))"

definition record_payout ::
  "oc_db \<Rightarrow> int \<Rightarrow> int \<Rightarrow> string option \<Rightarrow> date option \<Rightarrow> string option \<Rightarrow> int option \<Rightarrow> string \<Rightarrow> instant \<Rightarrow> (claim \<times> oc_db) res" where
  "record_payout db k actor ref paid_on comment expected stamp now =
     rbind (payout_guards db k ref paid_on now) (\<lambda>(c, reference, d).
       let c1 = c\<lparr>cl_payout_ref := Some reference, cl_paid_on := Some d, cl_paid_by := Some actor\<rparr>;
           db1 = put_claim db c1 in
     rbind (record_external_event db1 (cl_id c1)
              \<lparr>ry_status = PAID, ry_noted_by = None, ry_note = Some (note_for_payout reference), ry_date = Some d\<rparr> actor True now) (\<lambda>(_, db2).
     rbind (claim_action db2 (approve_request (cl_id c1) actor comment expected) stamp now) (\<lambda>(c3, db3).
     rbind (notify_paid (snd (start_retention_clock db3 (cl_id c3) now)) c3) (\<lambda>(_, db4). Inr (c3, db4)))))"

end
