(* ===== verification/Claim_System.thy ===== *)
theory Claim_System
  imports Lifecycle_Guarantees Claim_Settlement
begin

text \<open>
  The invariant of the reimbursement module and that every call of its lifecycle keeps it: the engine's
  invariant, the claims mirroring their instances, every closed claim resting on recorded money, every
  claim on the chain of its kind, one live liquidation per advance, no gate of a chain passed unapproved.
  \<open>Module_Guarantees\<close> draws the consequences.
\<close>

section \<open>The engine below\<close>

text \<open>No run-time step changes which version an instance runs on, or which version is published.\<close>

definition versions_kept :: "wf_db \<Rightarrow> wf_db \<Rightarrow> bool" where
  "versions_kept w w' \<longleftrightarrow> definitions w' = definitions w \<and> versions w' = versions w \<and>
     (\<forall>k i. get_instance w k = Some i \<longrightarrow> (\<exists>i'. get_instance w' k = Some i' \<and> in_version i' = in_version i))"

lemma versions_kept_refl [simp]: "versions_kept w w"
  by (simp add: versions_kept_def)

lemma versions_kept_trans: "versions_kept a b \<Longrightarrow> versions_kept b c \<Longrightarrow> versions_kept a c"
  unfolding versions_kept_def by (metis (no_types, lifting))

lemma escalate_all_versions: "escalate_all a ss = Inr b \<Longrightarrow> versions b = versions a \<and> definitions b = definitions a"
proof (induction ss arbitrary: a)
  case (Cons s ss)
  from Cons.prems obtain c where c: "escalate a s = Inr c" "escalate_all c ss = Inr b" by (auto simp: rbind_eq_Inr)
  have "versions c = versions a \<and> definitions c = definitions a"
    using c(1) by (auto simp: escalate_def Let_def split: if_splits)
  then show ?case using Cons.IH [OF c(2)] by simp
qed simp

lemma run_versions:
  assumes "run_step w w'" "engine_inv w"
  shows "versions_kept w w'"
proof -
  have keys: "engine_keys w" and dist: "distinct (map sp_id (steps w))"
    using assms(2) by (simp_all add: engine_inv_def engine_keys_def)
  show ?thesis
    using assms(1)
  proof cases
    case (run_start code actor org skind sid amount flag now i)
    then obtain ini new e where s: "started w w' i ini new e" by (rule start_effect)
    have "versions w' = versions w \<and> definitions w' = definitions w" using s by (simp add: started_def)
    moreover have "get_instance w (in_id i) = None"
      using keys by (force simp: row_get_None engine_keys_def started_tables(15) [OF s])
    ultimately show ?thesis using fresh_instance [OF keys s] by (auto simp: versions_kept_def)
  next
    case (run_act iid act actor comment key expected now e)
    from run_act dist show ?thesis
    proof (cases rule: acted_effect)
      case (acted i cur target i' f new)
      have "versions w' = versions w \<and> definitions w' = definitions w" using acted(1) by (simp add: acted_def)
      moreover have "get_instance w (in_id i) = Some i" using acted(1) by (simp add: acted_def)
      ultimately show ?thesis using acted_instance [OF acted(1)] acted_ids(4) [OF acted(1)] by (auto simp: versions_kept_def)
    qed simp
  next
    case (run_sweep now limit ids)
    then show ?thesis
      using sweep_frame [OF run_sweep] by (auto simp: versions_kept_def sweep_due_steps_def rbind_eq_Inr Let_def dest: escalate_all_versions)
  next
    case (run_amount iid a)
    have "versions w' = versions w \<and> definitions w' = definitions w" using run_amount by (simp add: set_amount_def)
    then show ?thesis using run_amount by (auto simp: versions_kept_def set_amount_get)
  qed (auto simp: versions_kept_def set_due_def add_reminder_def)
qed

lemma runs_versions: "run_step\<^sup>*\<^sup>* w w' \<Longrightarrow> engine_inv w \<Longrightarrow> versions_kept w w' \<and> engine_inv w' \<and> states w' = states w \<and> transitions w' = transitions w"
proof (induction rule: rtranclp_induct)
  case (step y z)
  then have y: "versions_kept w y" "engine_inv y" "states y = states w" "transitions y = transitions w" by blast+
  have "engine_inv z" using engine.inv_step [OF y(2) run_engine [OF step.hyps(2)]] .
  then show ?case
    using y run_versions [OF step.hyps(2) y(2)] run_tables [OF step.hyps(2) y(2)] versions_kept_trans by metis
qed simp

text \<open>The engine's part of a lifecycle call, as run-time steps.\<close>

lemma run_set_due: "w' = w \<or> (\<exists>P d. w' = set_due w P d) \<Longrightarrow> run_step\<^sup>*\<^sup>* w w'"
  by (auto intro: run_due)

lemma run_set_amount: "w' = w \<or> (\<exists>a. w' = set_amount w iid a) \<Longrightarrow> run_step\<^sup>*\<^sup>* w w'"
  by (auto intro: run_amount)

section \<open>Instances stay in their version\<close>

definition closed_inv :: "int \<Rightarrow> int set \<Rightarrow> wf_db \<Rightarrow> bool" where
  "closed_inv vid S w \<longleftrightarrow> engine_inv w \<and>
     (\<forall>s \<in> set (states w). st_version s = vid \<and> st_kind s = Initial \<longrightarrow> st_id s \<in> S) \<and>
     (\<forall>t \<in> set (transitions w). tr_from t \<in> S \<longrightarrow> tr_to t \<in> S) \<and>
     (\<forall>i \<in> set (instances w). in_version i = vid \<longrightarrow> in_state i \<in> S)"

lemma closed_instances:
  assumes inv: "closed_inv vid S w" and run: "run_step w w'" and j: "j \<in> set (instances w')" "in_version j = vid"
  shows "in_state j \<in> S"
proof -
  have dist: "distinct (map sp_id (steps w))" using inv by (simp add: closed_inv_def engine_inv_def engine_keys_def)
  have old: "in_state i \<in> S" if "i \<in> set (instances w)" "in_version i = vid" for i using inv that by (simp add: closed_inv_def)
  show ?thesis
    using run
  proof cases
    case (run_act iid act actor comment key expected now e)
    then show ?thesis
    proof (cases rule: execute_edge [OF _ dist, consumes 1, case_names replay moved])
      case replay
      then show ?thesis using old j by simp
    next
      case (moved i i')
      have "j = i' \<or> j \<in> set (instances w)" using j(1) moved(4) by (auto simp: set_row_upd)
      moreover have "in_state i' \<in> S" if "in_version i = vid"
      proof -
        have "i \<in> set (instances w)" using moved(1) by auto
        then have "in_state i \<in> S" using old that by blast
        then show ?thesis using moved(9) inv unfolding closed_inv_def by metis
      qed
      ultimately show ?thesis using old j(2) moved(2) by auto
    qed
  next
    case (run_start code actor org skind sid amount flag now i)
    then obtain ini new ev where s: "started w w' i ini new ev" by (blast elim: start_effect)
    have "j \<in> set (instances w) \<or> j = i" using j(1) started_tables(4) [OF s] by auto
    then show ?thesis using old inv s j(2) by (auto simp: closed_inv_def started_def)
  next
    case (run_sweep now limit ids)
    then show ?thesis using old j sweep_frame by metis
  next
    case (run_amount iid a)
    then show ?thesis using old j by (auto simp: set_amount_def row_upd_def split: if_splits)
  qed (use old j in \<open>auto simp: set_due_def add_reminder_def\<close>)
qed

lemma closed_step:
  assumes inv: "closed_inv vid S w" and run: "run_step w w'"
  shows "closed_inv vid S w'"
proof -
  have e: "engine_inv w" using inv by (simp add: closed_inv_def)
  have "engine_inv w'" using engine.inv_step [OF e run_engine [OF run]] .
  then show ?thesis using inv run_tables [OF run e] closed_instances [OF inv run] by (simp add: closed_inv_def)
qed

lemma closed_run: "run_step\<^sup>*\<^sup>* w w' \<Longrightarrow> closed_inv vid S w \<Longrightarrow> closed_inv vid S w'"
  by (induction rule: rtranclp_induct) (auto intro: closed_step)

text \<open>Every instance on the published version of a chain stands at one of the codes \<open>C\<close>.\<close>

definition vocab_inv :: "wf_db \<Rightarrow> string \<Rightarrow> string list \<Rightarrow> bool" where
  "vocab_inv w chain C \<longleftrightarrow> (\<forall>v. get_published_version w chain = Some v \<longrightarrow>
     (\<exists>S. closed_inv (ver_id v) S w \<and> (\<forall>i \<in> S. \<exists>s \<in> set (states w). st_id s = i \<and> st_code s \<in> set C)))"

lemma vocab_run:
  assumes "run_step\<^sup>*\<^sup>* w w'" "engine_inv w" "vocab_inv w chain C"
  shows "vocab_inv w' chain C"
proof -
  have k: "versions_kept w w'" "states w' = states w" using runs_versions [OF assms(1,2)] by blast+
  then have "get_published_version w' chain = get_published_version w chain" by (simp add: versions_kept_def get_published_version_def)
  then show ?thesis using assms(3) closed_run [OF assms(1)] unfolding vocab_inv_def k(2) by metis
qed

lemma vocab_code:
  assumes "vocab_inv w chain C" "get_published_version w chain = Some v" "get_instance w iid = Some i" "in_version i = ver_id v"
    "inst_code w iid = Some c"
  shows "c \<in> set C"
proof -
  obtain S where S: "closed_inv (ver_id v) S w" "\<forall>i \<in> S. \<exists>s \<in> set (states w). st_id s = i \<and> st_code s \<in> set C"
    using assms(1,2) unfolding vocab_inv_def by blast
  have "in_state i \<in> S" using S(1) assms(3,4) by (auto simp: closed_inv_def)
  then obtain x where x: "x \<in> set (states w)" "st_id x = in_state i" "st_code x \<in> set C" using S(2) by blast
  have "distinct (map st_id (states w))" using S(1) by (simp add: closed_inv_def engine_inv_def state_keys_def)
  from row_get_distinct [OF this x(1)] x(2,3) show ?thesis using assms(3,5) by (auto simp: inst_code_def)
qed

section \<open>Closing a claim\<close>

definition CLOSED :: "string set" where "CLOSED = {PAID_CLOSED, SETTLED}"

text \<open>
  What the seeded chains have in common: a closing state is entered only by an approval at FMS, a claim
  does not start in one, cancelled is terminal, and every state has a code.
\<close>

definition closing_tables :: "wf_db \<Rightarrow> bool" where
  "closing_tables w \<longleftrightarrow>
     (\<forall>t \<in> set (transitions w). \<forall>b \<in> set (states w). st_id b = tr_to t \<and> st_code b \<in> CLOSED \<longrightarrow>
        tr_action t = Approve \<and> (\<forall>a \<in> set (states w). st_id a = tr_from t \<longrightarrow> st_code a = HANDED_TO_FMS)) \<and>
     (\<forall>s \<in> set (states w). (st_kind s = Initial \<longrightarrow> st_code s \<notin> CLOSED) \<and> (st_code s = CANCELLED \<longrightarrow> st_kind s = Terminal))"

lemma closing_act:
  assumes inv: "engine_inv w" and tabs: "closing_tables w"
    and run: "execute_action w iid act actor comment key expected now = Inr (e, w2)" and new: "find_replay w iid key = None"
    and code: "inst_code w2 iid = Some c" "c \<in> CLOSED"
  shows "inst_code w iid = Some c \<or> act = Approve \<and> inst_code w iid = Some HANDED_TO_FMS"
proof -
  have dist: "distinct (map sp_id (steps w))" using inv by (simp add: engine_inv_def engine_keys_def)
  show ?thesis using run
  proof (cases rule: execute_edge [OF _ dist, consumes 1, case_names replay moved])
    case replay
    show ?thesis using run replay new dist code
      by (auto simp: execute_action_def)
  next
    case (moved i i')
    have i': "get_instance w2 iid = Some i'" using moved(1,3,4) by (auto simp: row_get_upd)
    obtain cur where cur: "get_state w (in_state i) = Some cur"
      using run moved(1) new by (cases rule: execute_action_cases) auto
    from code i' obtain b where b: "get_state w (in_state i') = Some b" "st_code b = c"
      using moved(10) by (auto simp: inst_code_def)
    from moved(9) show ?thesis
    proof
      assume "in_state i' = in_state i"
      then show ?thesis using code b i' moved(1) by (simp add: inst_code_def)
    next
      assume "\<exists>t \<in> set (transitions w). tr_from t = in_state i \<and> tr_action t = act \<and> tr_to t = in_state i'"
      then obtain t where t: "t \<in> set (transitions w)" "tr_from t = in_state i" "tr_action t = act" "tr_to t = in_state i'" by blast
      have "b \<in> set (states w)" "st_id b = tr_to t" "cur \<in> set (states w)" "st_id cur = tr_from t" using b cur t by auto
      then have "act = Approve" "st_code cur = HANDED_TO_FMS"
        using tabs t b(2) code(2) unfolding closing_tables_def by metis+
      then show ?thesis using cur moved(1) by (simp add: inst_code_def)
    qed
  qed
qed

lemma cancelled_final:
  assumes tabs: "closing_tables w" and run: "execute_action w iid act actor comment key expected now = Inr (e, w2)"
    and code: "inst_code w iid = Some CANCELLED"
  shows "find_replay w iid key = Some e"
  using run
proof (cases rule: execute_action_cases)
  case (acted i cur t eff)
  then have "st_code cur = CANCELLED" "cur \<in> set (states w)" using code by (auto simp: inst_code_def)
  then show ?thesis using tabs acted(5) by (simp add: closing_tables_def)
qed

section \<open>The gates of a chain\<close>

text \<open>
  On the published version of a chain there is no way from the initial state out of the codes \<open>C\<close> that
  avoids an approval of \<open>gate\<close>, and no instance of it has found one.
\<close>

definition gate_inv :: "wf_db \<Rightarrow> string \<Rightarrow> string \<Rightarrow> string list \<Rightarrow> bool" where
  "gate_inv w chain gate C \<longleftrightarrow> (\<forall>v. get_published_version w chain = Some v \<longrightarrow>
     (\<exists>G \<in> set (states w). \<exists>S. st_version G = ver_id v \<and> st_code G = gate \<and> cut_inv (ver_id v) (st_id G) S w \<and>
        (\<forall>i \<in> S. \<exists>s \<in> set (states w). st_id s = i \<and> st_code s \<in> set C)))"

definition GATES :: "(string \<times> string \<times> string list) list" where
  "GATES =
     [(DEFINITION_CODE, DIVISION_APPROVAL, [DRAFT, DIVISION_APPROVAL, RETURNED, CANCELLED]),
      (DEFINITION_CODE, ADMIN_REVIEW, [DRAFT, DIVISION_APPROVAL, ADMIN_REVIEW, RETURNED, CANCELLED]),
      (DEFINITION_CODE, HANDED_TO_FMS, [DRAFT, DIVISION_APPROVAL, ADMIN_REVIEW, HANDED_TO_FMS, FMS_RETURNED, RETURNED, CANCELLED]),
      (LIQUIDATION_DEFINITION_CODE, CERTIFY_B, [DRAFT, CERTIFY_B, RETURNED, CANCELLED]),
      (LIQUIDATION_DEFINITION_CODE, CERTIFY_C, [DRAFT, CERTIFY_B, CERTIFY_C, RETURNED, CANCELLED]),
      (LIQUIDATION_DEFINITION_CODE, HANDED_TO_FMS, [DRAFT, CERTIFY_B, CERTIFY_C, HANDED_TO_FMS, RETURNED, CANCELLED])]"

definition gates_inv :: "wf_db \<Rightarrow> bool" where
  "gates_inv w \<longleftrightarrow> (\<forall>(chain, gate, C) \<in> set GATES. gate_inv w chain gate C) \<and>
     vocab_inv w DEFINITION_CODE (vc_all_states REIMBURSEMENT) \<and> vocab_inv w LIQUIDATION_DEFINITION_CODE (vc_all_states LIQUIDATION)"

lemma gate_run:
  assumes "run_step\<^sup>*\<^sup>* w w'" "engine_inv w" "gate_inv w chain gate C"
  shows "gate_inv w' chain gate C"
  unfolding gate_inv_def
proof (intro allI impI)
  fix v assume "get_published_version w' chain = Some v"
  moreover have "versions_kept w w'" using runs_versions [OF assms(1,2)] by blast
  ultimately have "get_published_version w chain = Some v" by (simp add: versions_kept_def get_published_version_def)
  then obtain G S where G: "G \<in> set (states w)" "st_version G = ver_id v" "st_code G = gate" "cut_inv (ver_id v) (st_id G) S w"
    "\<forall>i \<in> S. \<exists>s \<in> set (states w). st_id s = i \<and> st_code s \<in> set C"
    using assms(3) unfolding gate_inv_def by blast
  from cut_run [OF assms(1) G(4)] have "cut_inv (ver_id v) (st_id G) S w'" "states w' = states w" by blast+
  then show "\<exists>G \<in> set (states w'). \<exists>S. st_version G = ver_id v \<and> st_code G = gate \<and> cut_inv (ver_id v) (st_id G) S w' \<and>
      (\<forall>i \<in> S. \<exists>s \<in> set (states w'). st_id s = i \<and> st_code s \<in> set C)"
    using G(1,2,3,5) by metis
qed

lemma gates_run: "run_step\<^sup>*\<^sup>* w w' \<Longrightarrow> engine_inv w \<Longrightarrow> gates_inv w \<Longrightarrow> gates_inv w'"
  unfolding gates_inv_def using gate_run vocab_run by blast

lemma gate_passed:
  assumes inv: "gate_inv w chain gate C" and v: "get_published_version w chain = Some v"
    and i: "get_instance w iid = Some i" "in_version i = ver_id v" and code: "inst_code w iid = Some c" "c \<notin> set C"
  shows "\<exists>G \<in> set (states w). st_version G = ver_id v \<and> st_code G = gate \<and> approved_at w i (st_id G)"
proof -
  obtain G S where G: "G \<in> set (states w)" "st_version G = ver_id v" "st_code G = gate" "cut_inv (ver_id v) (st_id G) S w"
    "\<forall>i \<in> S. \<exists>s \<in> set (states w). st_id s = i \<and> st_code s \<in> set C"
    using inv v unfolding gate_inv_def by blast
  obtain s where s: "get_state w (in_state i) = Some s" "st_code s = c" using code(1) i(1) by (auto simp: inst_code_def)
  have "in_state i \<notin> S"
  proof
    assume "in_state i \<in> S"
    then obtain x where x: "x \<in> set (states w)" "st_id x = in_state i" "st_code x \<in> set C" using G(5) by blast
    have "distinct (map st_id (states w))" using G(4) by (simp add: cut_inv_def engine_inv_def state_keys_def)
    from row_get_distinct [OF this x(1)] x(2) s(1) have "x = s" by simp
    with x(3) s(2) code(2) show False by simp
  qed
  then have "approved_at w i (st_id G)" using G(4) i by (auto simp: cut_inv_def)
  then show ?thesis using G(1-3) by blast
qed

section \<open>The invariant of the module\<close>

definition adv_settled :: "cash_advance list \<Rightarrow> int \<Rightarrow> bool" where
  "adv_settled as k \<longleftrightarrow> map_option ca_st (row_get ca_id as k) = Some CaSettled"

text \<open>A closed claim has the fact its closing rests on.\<close>

definition closing_ok :: "cash_advance list \<Rightarrow> claim \<Rightarrow> bool" where
  "closing_ok as c \<longleftrightarrow> (case cl_status c of None \<Rightarrow> True | Some s \<Rightarrow> s \<in> CLOSED \<longrightarrow>
     (if cl_kind c = LIQUIDATION_KIND then (case cl_cash_advance c of None \<Rightarrow> False | Some k \<Rightarrow> adv_settled as k)
      else assert_payout_recorded c = Inr ()))"

text \<open>A claim runs on the published chain of its kind.\<close>

definition chain_ok :: "wf_db \<Rightarrow> claim \<Rightarrow> bool" where
  "chain_ok w c \<longleftrightarrow> (\<forall>iid. cl_instance c = Some iid \<longrightarrow>
     (\<exists>i code v. get_instance w iid = Some i \<and> definition_code (Some (cl_kind c)) = Inr code \<and>
        get_published_version w code = Some v \<and> in_version i = ver_id v))"

text \<open>An advance has one liquidation that is not cancelled.\<close>

definition one_live :: "claim list \<Rightarrow> bool" where
  "one_live cs \<longleftrightarrow> (\<forall>c \<in> set cs. \<forall>d \<in> set cs. \<forall>k. live_liquidation_of k c \<and> live_liquidation_of k d \<longrightarrow> cl_id c = cl_id d)"

definition module_inv :: "oc_db \<Rightarrow> bool" where
  "module_inv db \<longleftrightarrow> mirror_inv db \<and> closing_tables (wfdb db) \<and> ca_inv (rdb db) \<and> gates_inv (wfdb db) \<and>
     (\<forall>c \<in> set (claims (rdb db)). closing_ok (advances (rdb db)) c \<and> chain_ok (wfdb db) c) \<and> one_live (claims (rdb db))"

lemma ca_inv_frame: "ca_inv r \<Longrightarrow> advances r' = advances r \<Longrightarrow> ca_seq r' = ca_seq r \<Longrightarrow> ca_inv r'"
  by (metis ca_inv_def)

lemma closing_ok_core: "core c = core d \<Longrightarrow> closing_ok as c = closing_ok as d"
  by (cases "cl_status d") (simp_all add: closing_ok_def core_eq assert_payout_recorded_def)

lemma chain_ok_core: "core c = core d \<Longrightarrow> chain_ok w c = chain_ok w d"
  by (simp add: chain_ok_def core_eq)

lemma live_core: "core c = core d \<Longrightarrow> live_liquidation_of k c = live_liquidation_of k d"
  by (simp add: live_liquidation_of_def core_eq)

definition settled_kept :: "cash_advance list \<Rightarrow> cash_advance list \<Rightarrow> bool" where
  "settled_kept as as' \<longleftrightarrow> (\<forall>k. adv_settled as k \<longrightarrow> adv_settled as' k)"

lemma settled_kept_refl [simp]: "settled_kept as as"
  by (simp add: settled_kept_def)

lemma closing_ok_kept: "settled_kept as as' \<Longrightarrow> closing_ok as c \<Longrightarrow> closing_ok as' c"
  by (auto simp: closing_ok_def settled_kept_def split: option.splits)

lemma chain_ok_kept:
  assumes "versions_kept w w'" "chain_ok w c"
  shows "chain_ok w' c"
  unfolding chain_ok_def
proof (intro allI impI)
  fix iid assume "cl_instance c = Some iid"
  then obtain i code v where i: "get_instance w iid = Some i" "definition_code (Some (cl_kind c)) = Inr code"
    "get_published_version w code = Some v" "in_version i = ver_id v" using assms(2) by (auto simp: chain_ok_def)
  obtain i' where i': "get_instance w' iid = Some i'" "in_version i' = in_version i" using assms(1) i(1) by (auto simp: versions_kept_def)
  have "get_published_version w' code = Some v" using assms(1) i(3) by (simp add: versions_kept_def get_published_version_def)
  then show "\<exists>i code v. get_instance w' iid = Some i \<and> definition_code (Some (cl_kind c)) = Inr code \<and>
      get_published_version w' code = Some v \<and> in_version i = ver_id v"
    using i' i(2,4) by auto
qed

lemma one_live_core:
  assumes "map core cs = map core ds" "one_live ds"
  shows "one_live cs"
  unfolding one_live_def
proof (intro ballI allI impI)
  fix c d k assume c: "c \<in> set cs" and d: "d \<in> set cs" and l: "live_liquidation_of k c \<and> live_liquidation_of k d"
  obtain x where x: "x \<in> set ds" "core x = core c" by (rule same_core_mem [OF assms(1) c])
  obtain y where y: "y \<in> set ds" "core y = core d" by (rule same_core_mem [OF assms(1) d])
  have "cl_id x = cl_id y" using assms(2) x y l live_core unfolding one_live_def by metis
  then show "cl_id c = cl_id d" using x(2) y(2) by (simp add: core_eq)
qed

lemma one_live_replace:
  assumes "one_live cs" "\<And>k d. live_liquidation_of k c \<Longrightarrow> d \<in> set cs \<Longrightarrow> cl_id d \<noteq> cl_id c \<Longrightarrow> \<not> live_liquidation_of k d"
  shows "one_live (replace_claim c cs)"
  unfolding one_live_def
proof (intro ballI allI impI)
  fix x y k assume x: "x \<in> set (replace_claim c cs)" and y: "y \<in> set (replace_claim c cs)" and l: "live_liquidation_of k x \<and> live_liquidation_of k y"
  show "cl_id x = cl_id y"
    using mem_replace [OF x] mem_replace [OF y] l assms unfolding one_live_def by metis
qed

text \<open>What a call has to leave behind for the invariant to go on: one claim replaced.\<close>

lemma module_replace:
  assumes inv: "module_inv db" and m: "mirror_inv db'" and run: "run_step\<^sup>*\<^sup>* (wfdb db) (wfdb db')"
    and cs: "map core (claims (rdb db')) = map core (replace_claim c (claims (rdb db)))"
    and as: "settled_kept (advances (rdb db)) (advances (rdb db'))" "ca_inv (rdb db')"
    and c: "closing_ok (advances (rdb db')) c" "chain_ok (wfdb db') c"
    and live: "\<And>k d. live_liquidation_of k c \<Longrightarrow> d \<in> set (claims (rdb db)) \<Longrightarrow> cl_id d \<noteq> cl_id c \<Longrightarrow> \<not> live_liquidation_of k d"
  shows "module_inv db'"
proof -
  have e: "engine_inv (wfdb db)" using inv by (simp add: module_inv_def mirror_inv_def)
  have w: "versions_kept (wfdb db) (wfdb db')" "states (wfdb db') = states (wfdb db)" "transitions (wfdb db') = transitions (wfdb db)"
    using runs_versions [OF run e] by blast+
  have "gates_inv (wfdb db')" using gates_run [OF run e] inv by (simp add: module_inv_def)
  moreover have "closing_tables (wfdb db')" using inv w(2,3) by (simp add: module_inv_def closing_tables_def)
  moreover have "closing_ok (advances (rdb db')) d \<and> chain_ok (wfdb db') d" if d: "d \<in> set (claims (rdb db'))" for d
  proof -
    obtain x where x: "x \<in> set (replace_claim c (claims (rdb db)))" "core x = core d" by (rule same_core_mem [OF cs d])
    have "closing_ok (advances (rdb db')) x \<and> chain_ok (wfdb db') x"
      using mem_replace [OF x(1)] c inv closing_ok_kept [OF as(1)] chain_ok_kept [OF w(1)] by (auto simp: module_inv_def)
    then show ?thesis using closing_ok_core [OF x(2)] chain_ok_core [OF x(2)] by simp
  qed
  moreover have "one_live (replace_claim c (claims (rdb db)))"
    using one_live_replace [OF _ live] inv by (simp add: module_inv_def)
  then have "one_live (claims (rdb db'))" by (rule one_live_core [OF cs])
  ultimately show ?thesis using m as(2) by (simp add: module_inv_def)
qed

text \<open>No claim changed in what the invariant speaks of.\<close>

lemma module_frame:
  assumes inv: "module_inv db" and run: "run_step\<^sup>*\<^sup>* (wfdb db) (wfdb db')" and ic: "inst_code (wfdb db') = inst_code (wfdb db)"
    and cs: "map core (claims (rdb db')) = map core (claims (rdb db))" "cl_seq (rdb db') = cl_seq (rdb db)"
    and as: "settled_kept (advances (rdb db)) (advances (rdb db'))" "ca_inv (rdb db')"
  shows "module_inv db'"
proof -
  have e: "engine_inv (wfdb db)" using inv by (simp add: module_inv_def mirror_inv_def)
  have w: "versions_kept (wfdb db) (wfdb db')" "engine_inv (wfdb db')" "states (wfdb db') = states (wfdb db)" "transitions (wfdb db') = transitions (wfdb db)"
    using runs_versions [OF run e] by blast+
  have mir: "mirrors (wfdb db') d = mirrors (wfdb db) d" for d by (simp add: mirrors_def ic cong: option.case_cong)
  have "claims_sound (wfdb db') (claims (rdb db)) (cl_seq (rdb db))"
    using inv by (simp add: module_inv_def mirror_inv_def claims_sound_def mir)
  then have "mirror_inv db'"
    using claims_sound_core [OF cs(1)] cs(2) w inv by (simp add: module_inv_def mirror_inv_def)
  moreover have "gates_inv (wfdb db')" using gates_run [OF run e] inv by (simp add: module_inv_def)
  moreover have "closing_tables (wfdb db')" using inv w(3,4) by (simp add: module_inv_def closing_tables_def)
  moreover have "closing_ok (advances (rdb db')) d \<and> chain_ok (wfdb db') d" if d: "d \<in> set (claims (rdb db'))" for d
  proof -
    obtain x where x: "x \<in> set (claims (rdb db))" "core x = core d" by (rule same_core_mem [OF cs(1) d])
    then have "closing_ok (advances (rdb db')) x \<and> chain_ok (wfdb db') x"
      using inv closing_ok_kept [OF as(1)] chain_ok_kept [OF w(1)] by (auto simp: module_inv_def)
    then show ?thesis using closing_ok_core [OF x(2)] chain_ok_core [OF x(2)] by simp
  qed
  moreover have "one_live (claims (rdb db'))" using one_live_core [OF cs(1)] inv by (simp add: module_inv_def)
  ultimately show ?thesis using as(2) by (simp add: module_inv_def)
qed

section \<open>The lifecycle keeps it\<close>

lemma module_mirror: "module_inv db \<Longrightarrow> mirror_inv db"
  by (simp add: module_inv_def)

lemma module_claim:
  assumes "module_inv db" "get_claim (rdb db) k = Some c"
  shows "closing_ok (advances (rdb db)) c" "chain_ok (wfdb db) c" "mirrors (wfdb db) c" "c \<in> set (claims (rdb db))" "cl_id c = k"
  using assms by (auto simp: module_inv_def mirror_inv_def claims_sound_def)

lemma create_module:
  assumes inv: "module_inv db" and run: "create_draft_claim db actor kind now = Inr (c, db')"
  shows "module_inv db'"
proof -
  note e = create_draft_effect [OF run]
  have "mirror_inv db'" by (rule create_draft_mirror [OF module_mirror [OF inv] run])
  moreover have "\<not> live_liquidation_of k c" for k using e(9) by (simp add: live_liquidation_of_def)
  then have "one_live (claims (rdb db'))" using inv unfolding module_inv_def one_live_def e(1) by auto
  moreover have "closing_ok (advances (rdb db)) c" "chain_ok (wfdb db) c"
    using e(5,6) by (simp_all add: closing_ok_def chain_ok_def CLOSED_def code_defs)
  ultimately show ?thesis using inv e(1,3,8) by (auto simp: module_inv_def intro: ca_inv_frame)
qed

lemma cancel_module:
  assumes inv: "module_inv db" and run: "cancel_draft_claim db k actor comment = Inr (c', db')"
  shows "module_inv db'"
proof -
  obtain c where c: "get_claim (rdb db) k = Some c" "cl_instance c = None" "core c' = core (c\<lparr>cl_status := Some CANCELLED\<rparr>)"
    "wfdb db' = wfdb db" "map core (claims (rdb db')) = map core (replace_claim c' (claims (rdb db)))" "ca_tables (rdb db') = ca_tables (rdb db)"
    by (rule cancel_draft_effect [OF run])
  have "cl_status c' = Some CANCELLED" "cl_instance c' = None" using c(2,3) by (simp_all add: core_eq)
  then have "\<not> live_liquidation_of j c'" "closing_ok as c'" "chain_ok w c'" for j as w
    by (simp_all add: live_liquidation_of_def closing_ok_def chain_ok_def CLOSED_def code_defs)
  then show ?thesis
    by (intro module_replace [OF inv cancel_draft_mirror [OF module_mirror [OF inv] run] _ c(5)])
      (use c inv in \<open>auto simp: module_inv_def intro: ca_inv_frame\<close>)
qed

lemma live_stays:
  assumes "one_live cs" "c0 \<in> set cs" "cl_id c = cl_id c0" "live_liquidation_of k c \<Longrightarrow> live_liquidation_of k c0"
    "live_liquidation_of k c" "d \<in> set cs" "cl_id d \<noteq> cl_id c"
  shows "\<not> live_liquidation_of k d"
  using assms unfolding one_live_def by metis

lemma submit_module:
  assumes inv: "module_inv db" and run: "submit_claim db k actor key stamp now = Inr (c', db')"
  shows "module_inv db'"
proof -
  obtain c0 chain org grand i w w6 e st k5 where s: "get_claim (rdb db) k = Some c0" "cl_instance c0 = None"
    "definition_code (Some (cl_kind c0)) = Inr chain" "is_claim_owner db c0 actor" "status_or_draft c0 \<noteq> CANCELLED"
    "start_instance (wfdb db) chain (Some actor) (Some org) (Some SUBJECT_KIND) (Some k) (Some grand) (Some FEATURE_FLAG_KEY) now = Inr (i, w)"
    "execute_action w (in_id i) Submit actor None (Some k5) None now = Inr (e, w6)"
    "Option.bind (ev_to e) (get_state w6) = Some st" "wfdb db' = w6 \<or> (\<exists>P d. wfdb db' = set_due w6 P d)"
    "core c' = core (c0\<lparr>cl_instance := Some (in_id i), cl_status := Some (st_code st)\<rparr>)"
    "map core (claims (rdb db')) = map core (replace_claim c' (claims (rdb db)))"
    "cl_seq (rdb db') = cl_seq (rdb db)" "ca_tables (rdb db') = ca_tables (rdb db)"
    by (rule submit_effect [OF module_mirror [OF inv] run])
  have m': "mirror_inv db'" by (rule submit_mirror [OF module_mirror [OF inv] run])
  have e0: "engine_inv (wfdb db)" and t0: "closing_tables (wfdb db)" using inv by (simp_all add: module_inv_def mirror_inv_def)
  have runs: "run_step\<^sup>*\<^sup>* (wfdb db) (wfdb db')"
    using run_start [OF s(6)] run_act [OF s(7)] run_set_due [OF s(9)] by (meson converse_rtranclp_into_rtranclp)
  obtain ini new ev where ini: "started (wfdb db) w i ini new ev" by (rule start_effect [OF s(6)])
  have e1: "engine_inv w" by (rule start_inv [OF e0 s(6)])
  have t1: "closing_tables w" using t0 ini by (simp add: closing_tables_def started_def)
  have id: "cl_id c' = k" "cl_instance c' = Some (in_id i)" "cl_status c' = Some (st_code st)" "cl_kind c' = cl_kind c0"
    "cl_cash_advance c' = cl_cash_advance c0" "cl_id c0 = k"
    using s(1,10) by (auto simp: core_eq)
  have "mirrors (wfdb db') c'" by (rule mirror_replaced [OF m' s(11)]) (metis image_eqI id(1,6) module_claim(4) [OF inv s(1)])
  then have "inst_code (wfdb db') (in_id i) = Some (st_code st)" using id by (simp add: mirrors_def)
  moreover have ic6: "inst_code (wfdb db') = inst_code w6" using s(9) by auto
  ultimately have code: "inst_code w6 (in_id i) = Some (st_code st)" by simp
  have fresh: "find_replay w (in_id i) (Some k5) = None" using started_no_replay [OF ini] e0 by (simp add: engine_inv_def)
  have "st_code st \<notin> CLOSED"
  proof
    assume closed: "st_code st \<in> CLOSED"
    have "inst_code w (in_id i) = Some (st_code st)" using closing_act [OF e1 t1 s(7) fresh code closed] by auto
    moreover have "get_instance w (in_id i) = Some i" using fresh_instance [OF _ ini] e0 by (simp add: engine_inv_def)
    moreover have "get_state w (in_state i) = Some ini"
      using ini e1 row_get_distinct [of st_id "states w" ini] by (auto simp: started_def engine_inv_def state_keys_def)
    ultimately have "st_code ini \<in> CLOSED" using closed by (simp add: inst_code_def)
    then show False using t0 ini by (auto simp: closing_tables_def started_def)
  qed
  then have "closing_ok as c'" for as using id by (simp add: closing_ok_def)
  moreover have "chain_ok (wfdb db') c'"
  proof -
    obtain v where v: "get_published_version (wfdb db) chain = Some v" "in_version i = ver_id v"
      using s(6) unfolding start_instance_def by (auto simp: rbind_eq_Inr Let_def split: if_splits option.splits)
    have "chain_ok w c'"
      using v s(3) id fresh_instance [OF _ ini] e0 ini
      by (auto simp: chain_ok_def engine_inv_def get_published_version_def started_def)
    moreover have "versions_kept w (wfdb db')"
      using runs_versions [OF _ e1] run_act [OF s(7)] run_set_due [OF s(9)] by (meson converse_rtranclp_into_rtranclp)
    ultimately show ?thesis using chain_ok_kept by blast
  qed
  moreover have "live_liquidation_of j c' \<Longrightarrow> live_liquidation_of j c0" for j
    using id module_claim(3) [OF inv s(1)] s(2,5) by (auto simp: live_liquidation_of_def mirrors_def status_or_draft_def code_defs)
  ultimately show ?thesis
    by (intro module_replace [OF inv m' runs s(11)])
      (use inv s(13) id module_claim(4) [OF inv s(1)] live_stays [of "claims (rdb db)" c0 c'] in \<open>auto simp: module_inv_def intro: ca_inv_frame\<close>)
qed

lemma approve_facts:
  assumes "approve_guards db c = Inr ()" "cl_status c = Some HANDED_TO_FMS" "cl_kind c' = cl_kind c"
    "cl_cash_advance c' = cl_cash_advance c" "cl_payout_ref c' = cl_payout_ref c"
  shows "closing_ok (advances (rdb db)) c'"
proof -
  have g: "if cl_kind c = LIQUIDATION_KIND then assert_advance_settled db c = Inr () else assert_payout_recorded c = Inr ()"
    using assms(1,2) by (auto simp: approve_guards_def rbind_eq_Inr status_or_draft_def code_defs split: if_splits)
  show ?thesis
  proof (cases "cl_kind c = LIQUIDATION_KIND")
    case True
    then have "\<exists>k a. cl_cash_advance c = Some k \<and> find_advance (rdb db) k = Some a \<and> ca_st a = CaSettled"
      using g by (auto simp: assert_advance_settled_def split: option.splits if_splits)
    then show ?thesis using True assms(3,4) by (auto simp: closing_ok_def adv_settled_def split: option.splits)
  next
    case False
    then show ?thesis using g assms(3,5) by (auto simp: closing_ok_def assert_payout_recorded_def split: option.splits)
  qed
qed

lemma action_module:
  assumes inv: "module_inv db" and run: "claim_action db rq stamp now = Inr (c', db')" and fresh: "\<not> stale_replay db rq"
  shows "module_inv db'"
proof -
  obtain act c0 iid i w key e w2 st where s: "claim_verb (rq_action rq) = Some act" "get_claim (rdb db) (rq_claim rq) = Some c0"
    "cl_instance c0 = Some iid" "get_instance (wfdb db) iid = Some i"
    "w = wfdb db \<or> (\<exists>a. w = set_amount (wfdb db) iid a)" "request_key db rq = Some key"
    "execute_action w iid act (rq_actor rq) (rq_comment rq) (Some key) (rq_expected rq) now = Inr (e, w2)"
    "Option.bind (ev_to e) (get_state w2) = Some st" "wfdb db' = w2 \<or> (\<exists>P d. wfdb db' = set_due w2 P d)"
    "core c' = core (c0\<lparr>cl_status := Some (st_code st)\<rparr>)"
    "map core (claims (rdb db')) = map core (replace_claim c' (claims (rdb db)))"
    "cl_seq (rdb db') = cl_seq (rdb db)" "ca_tables (rdb db') = ca_tables (rdb db)"
    "act = Approve \<longrightarrow> approve_guards db c0 = Inr ()"
    by (rule action_effect [OF module_mirror [OF inv] run])
  have m': "mirror_inv db'" by (rule action_mirror [OF module_mirror [OF inv] run fresh])
  have runs: "run_step\<^sup>*\<^sup>* (wfdb db) (wfdb db')"
    using run_set_amount [OF s(5)] run_act [OF s(7)] run_set_due [OF s(9)] by (meson converse_rtranclp_into_rtranclp rtranclp_trans)
  have e0: "engine_inv (wfdb db)" and t0: "closing_tables (wfdb db)" using inv by (simp_all add: module_inv_def mirror_inv_def)
  have ew: "engine_inv w" using e0 s(5) set_amount_inv by auto
  have tabs: "states w = states (wfdb db)" "transitions w = transitions (wfdb db)" and icw: "inst_code w = inst_code (wfdb db)"
    using s(5) by auto
  have tw: "closing_tables w" using t0 unfolding closing_tables_def tabs .
  note cl = module_claim [OF inv s(2)]
  have id: "cl_id c' = cl_id c0" "cl_id c0 = rq_claim rq" "cl_instance c' = Some iid" "cl_status c' = Some (st_code st)" "cl_kind c' = cl_kind c0"
    "cl_cash_advance c' = cl_cash_advance c0" "cl_payout_ref c' = cl_payout_ref c0"
    using s(3,10) cl(5) by (simp_all add: core_eq)
  have st0: "cl_status c0 = inst_code w iid" "inst_code w iid \<noteq> None" using cl(3) s(3) icw by (auto simp: mirrors_def)
  have "mirrors (wfdb db') c'" by (rule mirror_replaced [OF m' s(11)]) (metis image_eqI id(1) cl(4))
  then have code: "inst_code (wfdb db') iid = Some (st_code st)" using id by (simp add: mirrors_def)
  note a = act_and_stamp [OF ew s(7,9)]
  have same: "cl_status c' = cl_status c0" if "find_replay w iid (Some key) \<noteq> None"
    using a(6) that code id(4) st0(1) by fastforce
  have "closing_ok (advances (rdb db)) c'"
  proof (cases "cl_status c' = cl_status c0")
    case True
    then have "core c' = core c0" using id s(10) by (simp add: core_eq)
    then show ?thesis using cl(1) closing_ok_core by blast
  next
    case False
    then have new: "find_replay w iid (Some key) = None" using same by blast
    show ?thesis
    proof (cases "st_code st \<in> CLOSED")
      case True
      have "inst_code w2 iid = Some (st_code st)" using code s(9) by auto
      from closing_act [OF ew tw s(7) new this True] have "act = Approve" "cl_status c0 = Some HANDED_TO_FMS"
        using False id(4) st0(1) by auto
      then show ?thesis using approve_facts [of db c0 c'] s(14) id by blast
    qed (use id(4) in \<open>simp add: closing_ok_def\<close>)
  qed
  moreover have "chain_ok (wfdb db') c'"
  proof -
    have "chain_ok (wfdb db) c'" using cl(2) id s(3) by (simp add: chain_ok_def)
    then show ?thesis using chain_ok_kept runs_versions [OF runs] inv by (auto simp: module_inv_def mirror_inv_def)
  qed
  moreover have "live_liquidation_of j c0" if l: "live_liquidation_of j c'" for j
  proof (rule ccontr)
    assume "\<not> live_liquidation_of j c0"
    then have "cl_status c0 = Some CANCELLED" "cl_status c' \<noteq> cl_status c0" using l id by (auto simp: live_liquidation_of_def)
    moreover from this have "find_replay w iid (Some key) = Some e" using cancelled_final [OF tw s(7)] st0(1) by simp
    ultimately show False using same by simp
  qed
  ultimately show ?thesis
    by (intro module_replace [OF inv m' runs s(11)])
      (use inv s(13) id cl(4) live_stays [of "claims (rdb db)" c0 c'] in \<open>auto simp: module_inv_def intro: ca_inv_frame\<close>)
qed

section \<open>Money keeps it\<close>

lemma adv_settled_upd:
  assumes "ca_id a' = k"
  shows "adv_settled (row_upd ca_id k (\<lambda>_. a') as) j =
    (if j = k then row_get ca_id as k \<noteq> None \<and> ca_st a' = CaSettled else adv_settled as j)"
  using assms by (auto simp: adv_settled_def row_get_upd)

lemma row_get_snoc: "row_get key (xs @ [y]) k = (case row_get key xs k of None \<Rightarrow> if key y = k then Some y else None | Some x \<Rightarrow> Some x)"
  by (induction xs) auto

lemma ca_step_kept:
  assumes inv: "ca_inv r" and step: "ca_step r r'"
  shows "settled_kept (advances r) (advances r')"
  using ca_step_change [OF step] unfolding ca_change_def
proof (elim disjE exE conjE)
  fix a assume "advances r' = advances r @ [a]"
  then show ?thesis by (auto simp: settled_kept_def adv_settled_def row_get_snoc)
next
  fix a a' assume a: "a \<in> set (advances r)" "succeeds a a'" "advances r' = row_upd ca_id (ca_id a) (\<lambda>_. a') (advances r)"
  have "row_get ca_id (advances r) (ca_id a) = Some a" using row_get_distinct a(1) inv by (auto simp: ca_inv_def)
  then have "\<not> adv_settled (advances r) (ca_id a)" using a(2) by (simp add: adv_settled_def succeeds_def)
  then show ?thesis
    unfolding settled_kept_def a(3) using adv_settled_upd [of a' "ca_id a" "advances r"] a(2) by (metis succeeds_def)
qed simp

text \<open>A call on the advances that leaves the claims' part of the invariant alone.\<close>

lemma ca_step_module:
  assumes inv: "module_inv db" and step: "ca_step (rdb db) r"
    and cs: "map core (claims r) = map core (claims (rdb db))" "cl_seq r = cl_seq (rdb db)"
  shows "module_inv (db\<lparr>rdb := r\<rparr>)"
proof -
  have i: "ca_inv (rdb db)" using inv by (simp add: module_inv_def)
  show ?thesis by (rule module_frame [OF inv]) (use cs ca_step_kept [OF i step] ca_inv_step [OF i step] in simp_all)
qed

text \<open>Calls that leave the engine, the claims and the advances alone.\<close>

definition untouched :: "oc_db \<Rightarrow> oc_db \<Rightarrow> bool" where
  "untouched db db' \<longleftrightarrow> wfdb db' = wfdb db \<and> map core (claims (rdb db')) = map core (claims (rdb db)) \<and>
     cl_seq (rdb db') = cl_seq (rdb db) \<and> ca_tables (rdb db') = ca_tables (rdb db)"

lemma untouched_refl [simp]: "untouched db db" and untouched_trans: "untouched a b \<Longrightarrow> untouched b c \<Longrightarrow> untouched a c"
  by (simp_all add: untouched_def)

lemma untouched_module: "untouched db db' \<Longrightarrow> module_inv db \<Longrightarrow> module_inv db'"
  by (rule module_frame) (auto simp: untouched_def module_inv_def intro: ca_inv_frame)

lemma post_untouched: "post db n = Inr (k, db') \<Longrightarrow> untouched db db'"
  by (auto simp: post_def rbind_eq_Inr untouched_def)

lemma post_once_untouched: "post_once db key n = Inr (k, db') \<Longrightarrow> untouched db db'"
  by (auto simp: post_once_def rbind_eq_Inr split: if_splits dest: post_untouched)

lemma notify_untouched:
  "notify_settlement db c a = Inr (k, db') \<Longrightarrow> untouched db db'"
  "notify_external_status db c e = Inr (k, db') \<Longrightarrow> untouched db db'"
  "notify_paid db c = Inr (k, db') \<Longrightarrow> untouched db db'"
  by (auto simp: notify_settlement_def notify_external_status_def notify_paid_def rbind_eq_Inr Let_def
      split: option.splits prod.splits dest: post_once_untouched)

lemma retention_untouched: "untouched db (snd (start_retention_clock db k now))"
  by (simp add: start_retention_clock_def untouched_def split: prod.splits)

lemma generate_untouched: "untouched db (generate_on_commit db kind k)"
  by (simp add: untouched_def)

lemma external_untouched:
  assumes "record_external_event db k ry actor t now = Inr (e, db')"
  shows "untouched db db'"
proof -
  define db1 where "db1 = db\<lparr>rdb := (rdb db)\<lparr>external_events := external_events (rdb db) @ [e], xe_seq := xe_seq (rdb db) + 1\<rparr>\<rparr>"
  have "db' = db1 \<or> (\<exists>c n. notify_external_status db1 c e = Inr (n, db'))"
    using assms unfolding record_external_event_def Let_def db1_def by (auto simp: rbind_eq_Inr split: if_splits option.splits)
  then have "untouched db1 db'" using notify_untouched(2) by auto
  then show ?thesis by (simp add: untouched_def db1_def)
qed

lemma price_untouched:
  assumes run: "price_claim db k stamp = Inr (c, db')" and dist: "distinct (map cl_id (claims (rdb db)))"
  shows "untouched db db'" "get_claim (rdb db') k = Some c"
proof -
  obtain c0 where p: "get_claim (rdb db) k = Some c0" "core c = core c0" "get_claim (rdb db') k = Some c" "wfdb db' = wfdb db"
    "map core (claims (rdb db')) = map core (replace_claim c (claims (rdb db)))" "ca_tables (rdb db') = ca_tables (rdb db)"
    "cl_seq (rdb db') = cl_seq (rdb db)"
    by (rule price_claim_effect [OF run])
  then show "untouched db db'" "get_claim (rdb db') k = Some c" using replace_same_core [OF p(1,2) dist] by (simp_all add: untouched_def)
qed

lemma module_ids: "module_inv db \<Longrightarrow> distinct (map cl_id (claims (rdb db)))"
  by (simp add: module_inv_def mirror_inv_def claims_sound_def)

text \<open>An edit of a claim that leaves its kind, its instance and its status alone.\<close>

lemma module_edit:
  assumes inv: "module_inv db" and c: "get_claim (rdb db) (cl_id c') = Some c"
    and same: "cl_instance c' = cl_instance c" "cl_status c' = cl_status c" "cl_kind c' = cl_kind c"
    and closed: "closing_ok (advances (rdb db)) c'"
    and live: "\<And>k d. live_liquidation_of k c' \<Longrightarrow> d \<in> set (claims (rdb db)) \<Longrightarrow> cl_id d \<noteq> cl_id c' \<Longrightarrow> \<not> live_liquidation_of k d"
  shows "module_inv (put_claim db c')"
proof -
  note cl = module_claim [OF inv c]
  have cs: "map core (claims (rdb (put_claim db c'))) = map core (replace_claim c' (claims (rdb db)))" by (simp add: put_claim_def replace_claim_def)
  have own: "own_instances (claims (rdb db))" using inv by (simp add: module_inv_def mirror_inv_def claims_sound_def)
  have "mirror_inv (put_claim db c')"
  proof (rule mirror_replace [OF module_mirror [OF inv] c _ _ cs])
    show "mirrors (wfdb (put_claim db c')) c'" using cl(3) same by (cases "cl_instance c") (simp_all add: mirrors_def)
    show "cl_instance d \<noteq> cl_instance c'" if d: "d \<in> set (claims (rdb db))" "cl_id d \<noteq> cl_id c'" "cl_instance d \<noteq> None" for d
      using own_instancesD [OF own d(1) cl(4) d(3)] d(2) cl(5) same(1) by metis
  qed (use inv in \<open>simp_all add: module_inv_def mirror_inv_def\<close>)
  moreover have "chain_ok (wfdb db) c'" using cl(2) same by (simp add: chain_ok_def)
  ultimately show ?thesis
    by (intro module_replace [OF inv _ _ cs]) (use closed inv live in \<open>auto simp: module_inv_def intro: ca_inv_frame\<close>)
qed

lemma draft_open: "cl_status c = Some DRAFT \<Longrightarrow> closing_ok as c"
  by (simp add: closing_ok_def CLOSED_def code_defs)

lemma created_claim:
  assumes "module_inv db" "create_draft_claim db actor kind now = Inr (c, db')"
  shows "get_claim (rdb db') (cl_id c) = Some c"
proof -
  note e = create_draft_effect [OF assms(2)]
  have "distinct (map cl_id (claims (rdb db')))" by (rule module_ids [OF create_module [OF assms]])
  then show ?thesis using row_get_distinct [of cl_id "claims (rdb db')" c] e(1) by simp
qed

lemma row_upd_twice: "key y = k \<Longrightarrow> row_upd key k (\<lambda>_. x) (row_upd key k (\<lambda>_. y) xs) = row_upd key k (\<lambda>_. x) xs"
  by (induction xs) auto

lemma start_liquidation_stages:
  assumes run: "start_liquidation db k actor now = Inr (c, db')"
  obtains a c0 db1 c1 r where "find_advance (rdb db) k = Some a" "create_draft_claim db actor LIQUIDATION_KIND now = Inr (c0, db1)"
    "c1 = c0\<lparr>cl_dpo_no := ca_dpo_no a, cl_date_return := ca_date_return a\<rparr>" "link_claim (rdb (put_claim db1 c1)) c1 a = Inr (c, r)"
    "db' = db1\<lparr>rdb := snd (mark_liquidation_started r a)\<rparr>"
proof -
  obtain a where a: "find_advance (rdb db) k = Some a" using run by (auto simp: start_liquidation_def split: option.splits)
  define link where "link c0 db1 = (let c1 = c0\<lparr>cl_dpo_no := ca_dpo_no a, cl_date_return := ca_date_return a\<rparr> in
    case link_claim (rdb (put_claim db1 c1)) c1 a of Inl e \<Rightarrow> Inl (if e = IntegrityError then liquidation_exists else e)
    | Inr (c2, r) \<Rightarrow> (let (_, r2) = mark_liquidation_started r a in Inr (c2, db1\<lparr>rdb := r2\<rparr>)))" for c0 and db1 :: oc_db
  have "rbind (create_draft_claim db actor LIQUIDATION_KIND now) (\<lambda>(c0, db1). link c0 db1) = Inr (c, db')"
    using run unfolding start_liquidation_def a option.case link_def by (simp only: sum.distinct split: if_splits)
  then obtain c0 db1 where c0: "create_draft_claim db actor LIQUIDATION_KIND now = Inr (c0, db1)" "link c0 db1 = Inr (c, db')"
    by (auto simp: rbind_eq_Inr)
  then obtain r where "link_claim (rdb (put_claim db1 (c0\<lparr>cl_dpo_no := ca_dpo_no a, cl_date_return := ca_date_return a\<rparr>)))
      (c0\<lparr>cl_dpo_no := ca_dpo_no a, cl_date_return := ca_date_return a\<rparr>) a = Inr (c, r)" "db' = db1\<lparr>rdb := snd (mark_liquidation_started r a)\<rparr>"
    by (fastforce simp: link_def Let_def split: sum.splits prod.splits)
  then show thesis by (intro that [OF a c0(1) refl])
qed

lemma start_liquidation_module:
  assumes inv: "module_inv db" and run: "start_liquidation db k actor now = Inr (c, db')"
  shows "module_inv db'"
proof -
  obtain a c0 db1 c1 r where s: "find_advance (rdb db) k = Some a" "create_draft_claim db actor LIQUIDATION_KIND now = Inr (c0, db1)"
    "c1 = c0\<lparr>cl_dpo_no := ca_dpo_no a, cl_date_return := ca_date_return a\<rparr>" "link_claim (rdb (put_claim db1 c1)) c1 a = Inr (c, r)"
    "db' = db1\<lparr>rdb := snd (mark_liquidation_started r a)\<rparr>"
    by (rule start_liquidation_stages [OF run])
  have inv1: "module_inv db1" by (rule create_module [OF inv s(2)])
  note e = create_draft_effect [OF s(2)]
  have g: "get_claim (rdb db1) (cl_id c0) = Some c0" by (rule created_claim [OF inv s(2)])
  let ?c = "c1\<lparr>cl_cash_advance := Some (ca_id a), cl_liq_deadline := ca_deadline a\<rparr>"
  have c: "c = ?c" "r = rdb (put_claim db1 c)"
    and index: "\<And>d. d \<in> set (claims (rdb (put_claim db1 c1))) \<Longrightarrow> cl_id d \<noteq> cl_id c \<Longrightarrow> live_liquidation_of (ca_id a) c \<Longrightarrow> \<not> live_liquidation_of (ca_id a) d"
    using s(4) by (auto simp: link_claim_def Let_def put_claim_def s(3) row_upd_twice split: if_splits)
  have "module_inv (put_claim db1 c)"
  proof (rule module_edit [OF inv1])
    show "\<not> live_liquidation_of j d" if "live_liquidation_of j c" "d \<in> set (claims (rdb db1))" "cl_id d \<noteq> cl_id c" for j d
    proof -
      have "j = ca_id a" using that(1) c(1) by (simp add: live_liquidation_of_def)
      moreover have "d \<in> set (claims (rdb (put_claim db1 c1)))" using that(2,3) c(1) by (auto simp: put_claim_def row_upd_def s(3))
      ultimately show ?thesis using index that(1,3) by blast
    qed
  qed (use g c(1) s(3) e(6) in \<open>auto intro: draft_open\<close>)
  moreover have "ca_step r (snd (mark_liquidation_started r a))"
    by (rule ca_started [where b = "fst (mark_liquidation_started r a)" and a = a]) (use s(1) e(8) in \<open>auto simp: c(2)\<close>)
  moreover have "claims (snd (mark_liquidation_started r a)) = claims r" "cl_seq (snd (mark_liquidation_started r a)) = cl_seq r"
    by (simp_all add: mark_liquidation_started_def put_advance_def)
  ultimately have "module_inv ((put_claim db1 c)\<lparr>rdb := snd (mark_liquidation_started r a)\<rparr>)"
    by (intro ca_step_module) (simp_all add: c(2))
  then show ?thesis using s(5) by (simp add: put_claim_def)
qed

lemma spawn_stages:
  assumes run: "spawn_reimbursement db k actor stamp now = Inr (c, db')"
  obtains src and a :: cash_advance and c0 db1 c1 db3 where "create_draft_claim db actor REIMBURSEMENT_KIND now = Inr (c0, db1)"
    "c1 = (trip_of src c0)\<lparr>cl_cash_advance := Some (ca_id a), cl_spawned_from := Some (cl_id src)\<rparr>"
    "db3 = (put_claim db1 c1)\<lparr>rdb := copy_legs (rdb (put_claim db1 c1)) (cl_id src) (cl_id c1)\<rparr>"
    "price_claim db3 (cl_id c1) stamp = Inr (c, db')"
proof -
  define rest where "rest src a c0 db1 = (let c1 = (trip_of src c0)\<lparr>cl_cash_advance := Some (ca_id a), cl_spawned_from := Some (cl_id src)\<rparr> in
    if spawn_taken (rdb db1) c1 then Inl spawn_exists
    else (let db2 = put_claim db1 c1; db3 = db2\<lparr>rdb := copy_legs (rdb db2) (cl_id src) (cl_id c1)\<rparr> in price_claim db3 (cl_id c1) stamp))"
    for src c0 and a :: cash_advance and db1
  obtain src a where "rbind (create_draft_claim db actor REIMBURSEMENT_KIND now) (\<lambda>(c0, db1). rest src a c0 db1) = Inr (c, db')"
    using run unfolding spawn_reimbursement_def rbind_eq_Inr rest_def [symmetric]
    by (elim exE conjE) (auto simp only: sum.distinct rbind_eq_Inr split: if_splits option.splits)
  then obtain c0 db1 where c0: "create_draft_claim db actor REIMBURSEMENT_KIND now = Inr (c0, db1)" "rest src a c0 db1 = Inr (c, db')"
    by (auto simp: rbind_eq_Inr)
  show thesis
    by (rule that [where src = src and a = a, OF c0(1) refl refl]) (use c0(2) in \<open>auto simp: rest_def Let_def split: if_splits\<close>)
qed

lemma spawn_module:
  assumes inv: "module_inv db" and run: "spawn_reimbursement db k actor stamp now = Inr (c, db')"
  shows "module_inv db'"
proof -
  obtain src and a :: cash_advance and c0 db1 c1 db3 where s: "create_draft_claim db actor REIMBURSEMENT_KIND now = Inr (c0, db1)"
    "c1 = (trip_of src c0)\<lparr>cl_cash_advance := Some (ca_id a), cl_spawned_from := Some (cl_id src)\<rparr>"
    "db3 = (put_claim db1 c1)\<lparr>rdb := copy_legs (rdb (put_claim db1 c1)) (cl_id src) (cl_id c1)\<rparr>"
    "price_claim db3 (cl_id c1) stamp = Inr (c, db')"
    by (rule spawn_stages [OF run])
  note e = create_draft_effect [OF s(1)]
  have k: "cl_id c1 = cl_id c0" "cl_instance c1 = cl_instance c0" "cl_status c1 = cl_status c0" "cl_kind c1 = cl_kind c0"
    by (simp_all add: s(2) trip_of_def)
  have "module_inv (put_claim db1 c1)"
    by (rule module_edit [OF create_module [OF inv s(1)]])
      (use k e(6,7) created_claim [OF inv s(1)] in \<open>auto simp: live_liquidation_of_def code_defs REIMBURSEMENT_KIND_def LIQUIDATION_KIND_def intro: draft_open\<close>)
  moreover have "untouched (put_claim db1 c1) db3" by (simp add: s(3) untouched_def copy_legs_def Let_def)
  ultimately have inv3: "module_inv db3" using untouched_module by blast
  show ?thesis using untouched_module [OF price_untouched(1) [OF s(4) module_ids [OF inv3]] inv3] .
qed

lemma same_core_get:
  "map core cs = map core ds \<Longrightarrow> row_get cl_id cs k = Some c \<Longrightarrow> \<exists>d. row_get cl_id ds k = Some d \<and> core d = core c"
proof (induction cs arbitrary: ds)
  case (Cons x cs)
  obtain y ds' where y: "ds = y # ds'" "core x = core y" "map core cs = map core ds'" using Cons.prems(1) by (cases ds) simp_all
  have "cl_id y = cl_id x" using y(2) by (simp add: core_eq)
  then show ?case using Cons.prems(2) Cons.IH [OF y(3)] y(1) y(2) [symmetric] by (cases "cl_id x = k") simp_all
qed simp

text \<open>A call's key, and whether it was used before, does not depend on the money tables.\<close>

lemma stale_replay_cong:
  assumes "wfdb db' = wfdb db" "map_option (\<lambda>c. (cl_id c, cl_instance c)) (get_claim (rdb db') (rq_claim rq)) =
    map_option (\<lambda>c. (cl_id c, cl_instance c)) (get_claim (rdb db) (rq_claim rq))"
  shows "stale_replay db' rq = stale_replay db rq"
proof (cases "get_claim (rdb db) (rq_claim rq)")
  case None
  then show ?thesis using assms by (simp add: stale_replay_def)
next
  case (Some c)
  then obtain c' where c': "get_claim (rdb db') (rq_claim rq) = Some c'" "cl_id c' = cl_id c" "cl_instance c' = cl_instance c" using assms(2) by auto
  have "action_key x c' = action_key x c" for x using c'(2) by (simp add: fun_eq_iff action_key_def)
  then have "request_key db' rq = request_key db rq" using Some c' assms(1)
    by (cases "Option.bind (cl_instance c) (get_instance (wfdb db))") (simp_all add: request_key_def)
  then show ?thesis using Some c' assms(1) by (cases "cl_instance c") (simp_all add: stale_replay_def cong: option.case_cong)
qed

lemma settlement_stages:
  assumes run: "record_settlement db k actor rc comment expected stamp now = Inr (c', db')"
  obtains c a mode refund or_no or_date b r c1 db1 a' db2 n where "get_claim (rdb db) k = Some c" "a \<in> set (advances (rdb db))"
    "mark_settled (rdb db) a actor mode refund or_no or_date now = Inr (b, r)"
    "claim_action (db\<lparr>rdb := r\<rparr>) (approve_request (cl_id c) actor comment expected) stamp now = Inr (c1, db1)"
    "db2 = snd (start_retention_clock (generate_on_commit db1 HOLDER_KIND (cl_id c1)) (cl_id c1) now)"
    "notify_settlement db2 c1 a' = Inr (n, db')"
proof -
  obtain c a to_refund mode where g: "settlement_guards db k rc = Inr (c, a, to_refund, mode)" using run by (auto simp: record_settlement_def rbind_eq_Inr)
  then have "get_claim (rdb db) k = Some c" "a \<in> set (advances (rdb db))"
    by (auto simp: settlement_guards_def rbind_eq_Inr split: option.splits if_splits)
  then show thesis
    using that run unfolding record_settlement_def g rbind.simps prod.case rbind_eq_Inr Let_def
    by (elim exE conjE) (auto simp: rbind_eq_Inr split: option.splits)
qed

lemma settlement_module:
  assumes inv: "module_inv db" and run: "record_settlement db k actor rc comment expected stamp now = Inr (c', db')"
    and fresh: "\<not> stale_replay db (approve_request k actor comment expected)"
  shows "module_inv db'"
proof -
  obtain c a mode refund or_no or_date b r c1 db1 a' db2 n where s: "get_claim (rdb db) k = Some c" "a \<in> set (advances (rdb db))"
    "mark_settled (rdb db) a actor mode refund or_no or_date now = Inr (b, r)"
    "claim_action (db\<lparr>rdb := r\<rparr>) (approve_request (cl_id c) actor comment expected) stamp now = Inr (c1, db1)"
    "db2 = snd (start_retention_clock (generate_on_commit db1 HOLDER_KIND (cl_id c1)) (cl_id c1) now)"
    "notify_settlement db2 c1 a' = Inr (n, db')"
    by (rule settlement_stages [OF run])
  have id: "cl_id c = k" using s(1) by auto
  have same: "claims r = claims (rdb db)" "cl_seq r = cl_seq (rdb db)"
    using s(3) by (auto simp: mark_settled_def rbind_eq_Inr put_advance_def split: if_splits)
  have inv1: "module_inv (db\<lparr>rdb := r\<rparr>)" by (rule ca_step_module [OF inv ca_settle [OF s(2,3)]]) (simp_all add: same)
  have "\<not> stale_replay (db\<lparr>rdb := r\<rparr>) (approve_request (cl_id c) actor comment expected)"
    using fresh id stale_replay_cong [of "db\<lparr>rdb := r\<rparr>" db] same(1) by simp
  from action_module [OF inv1 s(4) this] have "module_inv db1" .
  moreover have "untouched db1 db2" unfolding s(5) by (rule untouched_trans [OF generate_untouched retention_untouched])
  ultimately show ?thesis using untouched_module notify_untouched(1) [OF s(6)] by blast
qed

lemma payout_stages:
  assumes run: "record_payout db k actor ref paid_on comment expected stamp now = Inr (c', db')"
  obtains c reference d c1 ry e db2 c3 db3 n where "get_claim (rdb db) k = Some c" "status_or_draft c = HANDED_TO_FMS"
    "c1 = c\<lparr>cl_payout_ref := Some reference, cl_paid_on := Some d, cl_paid_by := Some actor\<rparr>"
    "record_external_event (put_claim db c1) (cl_id c1) ry actor True now = Inr (e, db2)"
    "claim_action db2 (approve_request (cl_id c1) actor comment expected) stamp now = Inr (c3, db3)"
    "notify_paid (snd (start_retention_clock db3 (cl_id c3) now)) c3 = Inr (n, db')"
proof -
  obtain c reference d where g: "payout_guards db k ref paid_on now = Inr (c, reference, d)" using run by (auto simp: record_payout_def rbind_eq_Inr)
  then have "get_claim (rdb db) k = Some c" "status_or_draft c = HANDED_TO_FMS"
    by (auto simp: payout_guards_def rbind_eq_Inr locked_claim_Inr Let_def split: option.splits if_splits)
  then show thesis
    using that run unfolding record_payout_def g rbind.simps prod.case rbind_eq_Inr Let_def
    by (elim exE conjE) (auto simp: rbind_eq_Inr)
qed

lemma payout_module:
  assumes inv: "module_inv db" and run: "record_payout db k actor ref paid_on comment expected stamp now = Inr (c', db')"
    and fresh: "\<not> stale_replay db (approve_request k actor comment expected)"
  shows "module_inv db'"
proof -
  obtain c reference d c1 ry e db2 c3 db3 n where s: "get_claim (rdb db) k = Some c" "status_or_draft c = HANDED_TO_FMS"
    "c1 = c\<lparr>cl_payout_ref := Some reference, cl_paid_on := Some d, cl_paid_by := Some actor\<rparr>"
    "record_external_event (put_claim db c1) (cl_id c1) ry actor True now = Inr (e, db2)"
    "claim_action db2 (approve_request (cl_id c1) actor comment expected) stamp now = Inr (c3, db3)"
    "notify_paid (snd (start_retention_clock db3 (cl_id c3) now)) c3 = Inr (n, db')"
    by (rule payout_stages [OF run])
  note cl = module_claim [OF inv s(1)]
  have st: "cl_status c = Some HANDED_TO_FMS"
    using s(2) cl(3) by (auto simp: status_or_draft_def mirrors_def code_defs split: option.splits if_splits)
  have inv1: "module_inv (put_claim db c1)"
  proof (rule module_edit [OF inv])
    show "\<not> live_liquidation_of j x" if "live_liquidation_of j c1" "x \<in> set (claims (rdb db))" "cl_id x \<noteq> cl_id c1" for j x
      by (rule live_stays [OF _ cl(4) _ _ that]) (use inv in \<open>simp_all add: s(3) module_inv_def live_liquidation_of_def\<close>)
  qed (use s(1) cl(5) st in \<open>simp_all add: s(3) closing_ok_def CLOSED_def code_defs\<close>)
  have u: "untouched (put_claim db c1) db2" by (rule external_untouched [OF s(4)])
  have inv2: "module_inv db2" by (rule untouched_module [OF u inv1])
  have "get_claim (rdb (put_claim db c1)) k = Some c1" using s(1) cl(5) by (simp add: put_claim_def row_get_upd s(3))
  moreover have "distinct (map cl_id (claims (rdb db2)))" by (rule module_ids [OF inv2])
  ultimately obtain x where x: "get_claim (rdb db2) k = Some x" "core x = core c1"
    using same_core_get [of "claims (rdb (put_claim db c1))" "claims (rdb db2)" k c1] u by (auto simp: untouched_def)
  have "\<not> stale_replay db2 (approve_request (cl_id c1) actor comment expected)"
    using fresh stale_replay_cong [of db2 db "approve_request k actor comment expected"] x s(1) u cl(5)
    by (simp add: approve_request_def untouched_def s(3) core_eq)
  from action_module [OF inv2 s(5) this] have "module_inv db3" .
  then show ?thesis using untouched_module retention_untouched notify_untouched(3) [OF s(6)] by blast
qed

end
