(* ===== verification/Claim_Index.thy ===== *)
theory Claim_Index
  imports Claim_System
begin

text \<open>
  What the unique indexes of the claims table guarantee by themselves: row ids are distinct and drawn from the
  sequence, and an advance has one liquidation that is not cancelled. Every call keeps this, also a call
  that replays an old event under an explicit key, which the mirror of \<open>Lifecycle_Guarantees\<close> does not survive.
\<close>

section \<open>The invariant\<close>

definition index_inv :: "reimb_db \<Rightarrow> bool" where
  "index_inv r \<longleftrightarrow> distinct (map cl_id (claims r)) \<and> (\<forall>c \<in> set (claims r). cl_id c \<le> cl_seq r) \<and> one_live (claims r)"

lemma index_frame:
  assumes "index_inv r" "map core (claims r') = map core (claims r)" "cl_seq r' = cl_seq r"
  shows "index_inv r'"
proof -
  have ids: "map cl_id (claims r') = map cl_id (claims r)" by (rule same_core_ids [OF assms(2)])
  have "cl_id c \<le> cl_seq r'" if mem: "c \<in> set (claims r')" for c
  proof -
    obtain d where "d \<in> set (claims r)" "core d = core c" by (rule same_core_mem [OF assms(2) mem])
    then show ?thesis using assms(1,3) by (auto simp: index_inv_def core_eq)
  qed
  then show ?thesis using assms(1) ids one_live_core [OF assms(2)] by (simp add: index_inv_def)
qed

lemma index_untouched: "untouched db db' \<Longrightarrow> index_inv (rdb db) \<Longrightarrow> index_inv (rdb db')"
  by (rule index_frame) (auto simp: untouched_def)

lemma index_ids: "index_inv r \<Longrightarrow> distinct (map cl_id (claims r))"
  by (simp add: index_inv_def)

text \<open>A row rewritten in place, where the index on live liquidations does not refuse it.\<close>

lemma index_replace:
  assumes inv: "index_inv r" and cs: "claims r' = replace_claim c (claims r)" "cl_seq r' = cl_seq r" and free: "\<not> liquidation_taken r c"
  shows "index_inv r'"
proof -
  have "one_live (replace_claim c (claims r))"
    by (rule one_live_replace) (use inv free in \<open>auto simp: index_inv_def liquidation_taken_def live_liquidation_of_def\<close>)
  moreover have "map cl_id (replace_claim c (claims r)) = map cl_id (claims r)" by (simp add: replace_claim_def)
  moreover have "cl_id ` set (replace_claim c (claims r)) = cl_id ` set (claims r)" using calculation(2) by (metis list.set_map)
  ultimately show ?thesis using inv cs unfolding index_inv_def by (metis (no_types, lifting) imageE imageI)
qed

lemma stays_free:
  assumes "index_inv r" "c0 \<in> set (claims r)" "cl_id c = cl_id c0" "cl_kind c = cl_kind c0" "cl_cash_advance c = cl_cash_advance c0"
    "cl_status c = cl_status c0"
  shows "\<not> liquidation_taken r c"
  using assms unfolding index_inv_def one_live_def liquidation_taken_def live_liquidation_of_def by (auto split: option.splits)

section \<open>The calls keep it\<close>

lemma sync_index:
  assumes inv: "index_inv (rdb db)" and run: "sync_claim_from_event db c e now = Inr (c', db')"
  shows "index_inv (rdb db')"
  using run
proof (cases rule: sync_stages)
  case (1 st)
  then show ?thesis using inv by simp
next
  case (2 st kind holder since nxt h)
  then show ?thesis by (intro index_replace [OF inv]) simp_all
qed

lemma create_index:
  assumes inv: "index_inv (rdb db)" and run: "create_draft_claim db actor kind now = Inr (c, db')"
  shows "index_inv (rdb db')"
proof -
  note e = create_draft_effect [OF run]
  have "\<not> live_liquidation_of k c" for k using e(9) by (simp add: live_liquidation_of_def)
  then have "one_live (claims (rdb db'))" using inv unfolding index_inv_def one_live_def e(1) by auto
  moreover have "cl_id d \<noteq> cl_id c" if "d \<in> set (claims (rdb db))" for d using inv that e(4) by (fastforce simp: index_inv_def)
  ultimately show ?thesis using inv e(1,2,4) unfolding index_inv_def by fastforce
qed

lemma cancel_index:
  assumes inv: "index_inv (rdb db)" and run: "cancel_draft_claim db k actor comment = Inr (c', db')"
  shows "index_inv (rdb db')"
proof -
  obtain c where c: "core c' = core (c\<lparr>cl_status := Some CANCELLED\<rparr>)"
    "map core (claims (rdb db')) = map core (replace_claim c' (claims (rdb db)))" "cl_seq (rdb db') = cl_seq (rdb db)"
    by (rule cancel_draft_effect [OF run])
  have "\<not> liquidation_taken (rdb db) c'" using c(1) by (simp add: liquidation_taken_def live_liquidation_of_def core_eq split: option.splits)
  then have "index_inv (rdb (put_claim db c'))" by (intro index_replace [OF inv]) simp_all
  then show ?thesis by (rule index_frame) (use c(2,3) in simp_all)
qed

lemma submit_index:
  assumes inv: "index_inv (rdb db)" and run: "submit_claim db k actor key stamp now = Inr (c', db')"
  shows "index_inv (rdb db')"
proof -
  obtain c0 chain scope org c1 db1 db2 grand i w3 c4 db4 c5 e w6 db7 db8 k5 where s:
    "get_claim (rdb db) k = Some c0" "submit_guards db c0 actor = Inr (chain, scope, org)"
    "price_claim db k stamp = Inr (c1, db1)" "assert_packet_complete db1 c1 now = Inr db2"
    "start_instance (wfdb db2) chain (Some actor) (Some org) (Some SUBJECT_KIND) (Some (cl_id c1)) (Some grand)
       (Some FEATURE_FLAG_KEY) now = Inr (i, w3)"
    "number_claim (db2\<lparr>wfdb := w3\<rparr>) c1 scope now = (c4, db4)" "c5 = c4\<lparr>cl_instance := Some (in_id i)\<rparr>"
    "execute_action w3 (in_id i) Submit actor None (Some k5) None now = Inr (e, w6)"
    "sync_claim_from_event ((put_claim db4 c5)\<lparr>wfdb := w6\<rparr>) c5 e now = Inr (c', db7)"
    "stamp_sla db7 c' (in_id i) e now = Inr db8" "rdb db' = rdb db8" "wfdb db' = wfdb db8"
    by (rule submit_stages [OF run])
  note p = price_untouched [OF s(3) index_ids [OF inv]]
  note q = packet_gate_other [OF s(4)]
  note n = number_claim_effect [OF s(6)]
  have inv1: "index_inv (rdb db1)" by (rule index_untouched [OF p(1) inv])
  have inv4: "index_inv (rdb db4)" by (rule index_frame [OF inv1]) (use q n(2) in simp_all)
  have "c1 \<in> set (claims (rdb db4))" using p(2) q(2) n(2) by auto
  then have "\<not> liquidation_taken (rdb db4) c5" by (rule stays_free [OF inv4]) (use n(1) in \<open>simp_all add: s(7) core_eq\<close>)
  then have "index_inv (rdb ((put_claim db4 c5)\<lparr>wfdb := w6\<rparr>))" by (intro index_replace [OF inv4]) simp_all
  then have "index_inv (rdb db7)" by (rule sync_index [OF _ s(9)])
  then show ?thesis using stamp_other(1) [OF s(10)] s(11) by simp
qed

lemma action_index:
  assumes inv: "index_inv (rdb db)" and run: "claim_action db rq stamp now = Inr (c', db')"
  shows "index_inv (rdb db')"
proof -
  obtain act c0 iid i c1 db1 key e w2 db3 db4 db5 where s: "claim_verb (rq_action rq) = Some act" "get_claim (rdb db) (rq_claim rq) = Some c0"
    "may_see_claim db c0 (rq_actor rq)" "cl_instance c0 = Some iid" "get_instance (wfdb db) iid = Some i"
    "action_prepare db c0 i act (rq_actor rq) (rq_reasons rq) stamp now = Inr (c1, db1)" "request_key db rq = Some key"
    "execute_action (wfdb db1) iid act (rq_actor rq) (rq_comment rq) (Some key) (rq_expected rq) now = Inr (e, w2)"
    "wfdb db3 = w2" "claims (rdb db3) = claims (rdb db1)" "ca_tables (rdb db3) = ca_tables (rdb db1)" "cl_seq (rdb db3) = cl_seq (rdb db1)"
    "sync_claim_from_event db3 c1 e now = Inr (c', db4)" "stamp_sla db4 c' iid e now = Inr db5" "rdb db' = rdb db5" "wfdb db' = wfdb db5"
    by (rule action_stages [OF run index_ids [OF inv]])
  have "cl_id c0 = rq_claim rq" using s(2) by auto
  then have c0: "get_claim (rdb db) (cl_id c0) = Some c0" using s(2) by simp
  note p = action_prepare_effect [OF s(6) c0 index_ids [OF inv]]
  have "index_inv (rdb db3)" by (rule index_frame [OF inv]) (use p(4,6) s(10,12) in simp_all)
  then have "index_inv (rdb db4)" by (rule sync_index [OF _ s(13)])
  then show ?thesis using stamp_other(1) [OF s(14)] s(15) by simp
qed

lemma start_liquidation_index:
  assumes inv: "index_inv (rdb db)" and run: "start_liquidation db k actor now = Inr (c, db')"
  shows "index_inv (rdb db')"
proof -
  obtain a c0 db1 c1 r where s: "find_advance (rdb db) k = Some a" "create_draft_claim db actor LIQUIDATION_KIND now = Inr (c0, db1)"
    "c1 = c0\<lparr>cl_dpo_no := ca_dpo_no a, cl_date_return := ca_date_return a\<rparr>" "link_claim (rdb (put_claim db1 c1)) c1 a = Inr (c, r)"
    "db' = db1\<lparr>rdb := snd (mark_liquidation_started r a)\<rparr>"
    by (rule start_liquidation_stages [OF run])
  have inv1: "index_inv (rdb db1)" by (rule create_index [OF inv s(2)])
  have "c0 \<in> set (claims (rdb db1))" using create_draft_effect(1) [OF s(2)] by simp
  then have "\<not> liquidation_taken (rdb db1) c1" by (rule stays_free [OF inv1]) (simp_all add: s(3))
  then have inv2: "index_inv (rdb (put_claim db1 c1))" by (intro index_replace [OF inv1]) simp_all
  have "claims r = replace_claim c (claims (rdb (put_claim db1 c1)))" "cl_seq r = cl_seq (rdb (put_claim db1 c1))"
    "\<not> liquidation_taken (rdb (put_claim db1 c1)) c"
    using s(4) by (auto simp: link_claim_def Let_def liquidation_taken_def live_liquidation_of_def replace_claim_def put_claim_def split: if_splits)
  then have "index_inv r" by (rule index_replace [OF inv2])
  then show ?thesis unfolding s(5) by (rule index_frame) (simp_all add: mark_liquidation_started_def put_advance_def)
qed

lemma spawn_index:
  assumes inv: "index_inv (rdb db)" and run: "spawn_reimbursement db k actor stamp now = Inr (c, db')"
  shows "index_inv (rdb db')"
proof -
  obtain src and a :: cash_advance and c0 db1 c1 db3 where s: "create_draft_claim db actor REIMBURSEMENT_KIND now = Inr (c0, db1)"
    "c1 = (trip_of src c0)\<lparr>cl_cash_advance := Some (ca_id a), cl_spawned_from := Some (cl_id src)\<rparr>"
    "db3 = (put_claim db1 c1)\<lparr>rdb := copy_legs (rdb (put_claim db1 c1)) (cl_id src) (cl_id c1)\<rparr>"
    "price_claim db3 (cl_id c1) stamp = Inr (c, db')"
    by (rule spawn_stages [OF run])
  have inv1: "index_inv (rdb db1)" by (rule create_index [OF inv s(1)])
  have "\<not> liquidation_taken (rdb db1) c1"
    using create_draft_effect(7) [OF s(1)] by (simp add: s(2) trip_of_def liquidation_taken_def live_liquidation_of_def REIMBURSEMENT_KIND_def LIQUIDATION_KIND_def)
  then have "index_inv (rdb (put_claim db1 c1))" by (intro index_replace [OF inv1]) simp_all
  then have inv3: "index_inv (rdb db3)" by (rule index_frame) (simp_all add: s(3) copy_legs_def Let_def)
  show ?thesis by (rule index_untouched [OF price_untouched(1) [OF s(4) index_ids [OF inv3]] inv3])
qed

lemma settlement_index:
  assumes inv: "index_inv (rdb db)" and run: "record_settlement db k actor rc comment expected stamp now = Inr (c', db')"
  shows "index_inv (rdb db')"
proof -
  obtain c a mode refund or_no or_date b r c1 db1 a' db2 n where s: "get_claim (rdb db) k = Some c" "a \<in> set (advances (rdb db))"
    "mark_settled (rdb db) a actor mode refund or_no or_date now = Inr (b, r)"
    "claim_action (db\<lparr>rdb := r\<rparr>) (approve_request (cl_id c) actor comment expected) stamp now = Inr (c1, db1)"
    "db2 = snd (start_retention_clock (generate_on_commit db1 HOLDER_KIND (cl_id c1)) (cl_id c1) now)"
    "notify_settlement db2 c1 a' = Inr (n, db')"
    by (rule settlement_stages [OF run])
  have "claims r = claims (rdb db)" "cl_seq r = cl_seq (rdb db)"
    using s(3) by (auto simp: mark_settled_def rbind_eq_Inr put_advance_def split: if_splits)
  then have "index_inv (rdb (db\<lparr>rdb := r\<rparr>))" by (intro index_frame [OF inv]) simp_all
  then have "index_inv (rdb db1)" by (rule action_index [OF _ s(4)])
  moreover have "untouched db1 db2" unfolding s(5) by (rule untouched_trans [OF generate_untouched retention_untouched])
  ultimately show ?thesis using index_untouched notify_untouched(1) [OF s(6)] by blast
qed

lemma payout_index:
  assumes inv: "index_inv (rdb db)" and run: "record_payout db k actor ref paid_on comment expected stamp now = Inr (c', db')"
  shows "index_inv (rdb db')"
proof -
  obtain c reference d c1 ry e db2 c3 db3 n where s: "get_claim (rdb db) k = Some c" "status_or_draft c = HANDED_TO_FMS"
    "c1 = c\<lparr>cl_payout_ref := Some reference, cl_paid_on := Some d, cl_paid_by := Some actor\<rparr>"
    "record_external_event (put_claim db c1) (cl_id c1) ry actor True now = Inr (e, db2)"
    "claim_action db2 (approve_request (cl_id c1) actor comment expected) stamp now = Inr (c3, db3)"
    "notify_paid (snd (start_retention_clock db3 (cl_id c3) now)) c3 = Inr (n, db')"
    by (rule payout_stages [OF run])
  have "c \<in> set (claims (rdb db))" using s(1) by auto
  then have "\<not> liquidation_taken (rdb db) c1" by (rule stays_free [OF inv]) (simp_all add: s(3))
  then have "index_inv (rdb (put_claim db c1))" by (intro index_replace [OF inv]) simp_all
  then have "index_inv (rdb db2)" by (rule index_untouched [OF external_untouched [OF s(4)]])
  then have "index_inv (rdb db3)" by (rule action_index [OF _ s(5)])
  then show ?thesis using index_untouched retention_untouched notify_untouched(3) [OF s(6)] by blast
qed

section \<open>The sweeps keep it\<close>

lemma each_keeps:
  assumes "\<And>st r st'. work st r = Inr st' \<Longrightarrow> P st \<Longrightarrow> P st'"
  shows "each work st rs = Inr st' \<Longrightarrow> P st \<Longrightarrow> P st'"
proof (induction rs arbitrary: st)
  case (Cons r rs)
  then obtain st1 where "work st r = Inr st1" "each work st1 rs = Inr st'" by (auto simp: rbind_eq_Inr)
  then show ?case using Cons.IH assms Cons.prems(2) by blast
qed simp

lemma drain_keeps:
  assumes w: "\<And>st r st'. work st r = Inr st' \<Longrightarrow> P st \<Longrightarrow> P st'"
  shows "drain rows key work n m cursor st = Inr (b, st') \<Longrightarrow> P st \<Longrightarrow> P st'"
proof (induction m arbitrary: cursor st)
  case (Suc m)
  let ?page = "page_of key n (rows st) cursor"
  show ?case
  proof (cases "?page = []")
    case False
    then obtain st1 where st1: "each work st ?page = Inr st1"
      "st1 = st' \<or> drain rows key work n m (Some (key (last ?page))) st1 = Inr (b, st')"
      using Suc.prems(1) by (auto simp: Let_def rbind_eq_Inr split: if_splits)
    have "P st1" by (rule each_keeps [where P = P, OF w st1(1) Suc.prems(2)])
    then show ?thesis using Suc.IH st1(2) by blast
  qed (use Suc.prems in simp)
qed simp

lemma sweeps_index:
  "sweep_sla_reminders db now n m = Inr (b, sw) \<Longrightarrow> index_inv (rdb db) \<Longrightarrow> index_inv (rdb (sw_db sw))"
  "sweep_liquidation_reminders db now n m = Inr (b, lw) \<Longrightarrow> index_inv (rdb db) \<Longrightarrow> index_inv (rdb (lw_db lw))"
proof -
  have sla: "remind_step repeat today st r = Inr st' \<Longrightarrow> index_inv (rdb (sw_db st)) \<Longrightarrow> index_inv (rdb (sw_db st'))" for repeat today st r st'
    using remind_step_frame [of repeat today st r st'] by (simp add: same_work_def)
  have liq: "index_inv (rdb (lw_db st'))" if "remind_advance repeat memo today st r = Inr st'" "index_inv (rdb (lw_db st))" for repeat memo today st r st'
    by (rule index_frame [OF that(2)]) (simp_all add: remind_advance_tables(2) [OF that(1)] flip_def mark_overdue_def put_advance_def)
  show "index_inv (rdb (sw_db sw))" if "sweep_sla_reminders db now n m = Inr (b, sw)" "index_inv (rdb db)"
    by (rule drain_keeps [where P = "\<lambda>sw. index_inv (rdb (sw_db sw))", OF _ that(1) [unfolded sweep_sla_reminders_def Let_def]])
      (use sla that(2) in simp_all)
  show "index_inv (rdb (lw_db lw))" if run: "sweep_liquidation_reminders db now n m = Inr (b, lw)" and i: "index_inv (rdb db)"
  proof -
    obtain horizon where d: "drain (\<lambda>lw. due_advances (rdb (lw_db lw)) horizon) advance_order
        (remind_advance (config_working_days db REMINDER_KEY REMINDER_DEFAULT (manila_date now)) (overdue_note (rdb db) (manila_date now)) (manila_date now))
        n m None \<lparr>lw_db = db, lw_checked = 0, lw_nudged = 0, lw_flipped = 0\<rparr> = Inr (b, lw)"
      using run by (auto simp: sweep_liquidation_reminders_def Let_def rbind_eq_Inr)
    show ?thesis
      by (rule drain_keeps [where P = "\<lambda>lw. index_inv (rdb (lw_db lw))", OF _ d]) (use liq i in simp_all)
  qed
qed

lemma advances_index:
  assumes inv: "index_inv r"
  shows "create_cash_advance_seeing before r claimant amount dv_no dv_date dpo_no date_return now = Inr (a, r') \<Longrightarrow> index_inv r'"
    "update_cash_advance r k ch now = Inr (a, r') \<Longrightarrow> index_inv r'"
    "remirror_deadline r b = (n, r') \<Longrightarrow> index_inv r'"
  by (rule index_frame [OF inv];
      auto simp: create_cash_advance_seeing_def insert_advance_def update_cash_advance_def remirror_deadline_def core_def
        rbind_eq_Inr Let_def split: if_splits)+

end
