(* ===== verification/Module_System.thy ===== *)
theory Module_System
  imports Claim_Index
begin

text \<open>
  The reimbursement module as one system: every call of its services that changes state, interleaved in any
  order on a database seeded with the two chains; the invariant of \<open>Claim_System\<close> holds in every state it
  can reach.
\<close>

section \<open>Seeding\<close>

text \<open>The chains are cut at their gates where they are seeded, and stay so when another chain is authored.\<close>

lemma new_edges_from:
  assumes "rmap (edge_row (numbered k vid rows)) es = Inr ts" "t \<in> set (numbered_edges n vid ts)"
  obtains e a b where "e \<in> set es" "a \<in> set (numbered k vid rows)" "b \<in> set (numbered k vid rows)" "st_code a = eg_from e"
    "st_code b = eg_to e" "tr_action t = eg_action e" "tr_from t = st_id a" "tr_to t = st_id b"
proof -
  obtain r where r: "r \<in> set ts" "tr_from t = tr_from r" "tr_to t = tr_to r" "tr_action t = tr_action r"
    using numbered_edges_row [OF assms(2)] by blast
  then show thesis using edge_rows_ends [OF assms(1) r(1)] that by metis
qed

lemma cut_other_chain:
  assumes cut: "cut db vid g S" "vid \<le> ver_seq db" "\<forall>i \<in> S. i \<le> st_seq db"
    and g: "rows_grounded db" and none: "get_published_version db code = None" and pub: "publishable v specs es"
    and run: "author_chain db code name v specs es = Inr (ver, db')"
  shows "cut db' vid g S"
proof -
  obtain ss rows where a: "ver_id ver = ver_seq db + 1" "ss = numbered (st_seq db) (ver_id ver) (chain_rows v specs)"
    "rmap (edge_row ss) es = Inr rows" "states db' = states db @ ss"
    "transitions db' = transitions db @ numbered_edges (tr_seq db) (ver_id ver) rows"
    by (rule author_chain_publishes [OF g none pub, where name = name]) (use run in auto)
  have new: "st_version s \<noteq> vid" if "s \<in> set ss" for s using numbered_version [of s] that a(1,2) cut(2) by auto
  have "tr_from t \<notin> S" if t: "t \<in> set (numbered_edges (tr_seq db) (ver_id ver) rows)" for t
  proof -
    obtain e x y where "x \<in> set ss" "tr_from t = st_id x" by (rule new_edges_from [OF a(3) [unfolded a(2)] t]) (use a(2) in blast)
    then have "tr_from t > st_seq db" using numbered_ids unfolding a(2) by metis
    then show ?thesis using cut(3) by fastforce
  qed
  then show ?thesis using cut(1) new unfolding cut_def a(4,5) by auto
qed

text \<open>A chain whose closing states are entered only by an approval at FMS.\<close>

definition closing_chain :: "(string \<times> state_kind \<times> string option \<times> bool) list \<Rightarrow> edge list \<Rightarrow> bool" where
  "closing_chain specs es \<longleftrightarrow>
     (\<forall>e \<in> set es. eg_to e \<in> CLOSED \<longrightarrow> eg_action e = Approve \<and> eg_from e = HANDED_TO_FMS) \<and>
     (\<forall>p \<in> set specs. (fst (snd p) = Initial \<longrightarrow> fst p \<notin> CLOSED) \<and> (fst p = CANCELLED \<longrightarrow> fst (snd p) = Terminal) \<and> fst p \<noteq> [])"

lemma closing_chains: "closing_chain claim_states claim_edges" "closing_chain liquidation_states liquidation_edges"
  by code_simp+

lemma closing_authored:
  assumes inv: "engine_inv db'" and tabs: "closing_tables db" "\<forall>s \<in> set (states db). st_code s \<noteq> []"
    and fk: "\<forall>t \<in> set (transitions db). tr_to t \<le> st_seq db"
    and g: "rows_grounded db" and none: "get_published_version db code = None" and pub: "publishable v specs es"
    and c: "closing_chain specs es" and run: "author_chain db code name v specs es = Inr (ver, db')"
  shows "closing_tables db'" "\<forall>s \<in> set (states db'). st_code s \<noteq> []"
proof -
  obtain ss rows where a: "ss = numbered (st_seq db) (ver_id ver) (chain_rows v specs)"
    "rmap (edge_row ss) es = Inr rows" "states db' = states db @ ss"
    "transitions db' = transitions db @ numbered_edges (tr_seq db) (ver_id ver) rows"
    by (rule author_chain_publishes [OF g none pub, where name = name]) (use run in auto)
  have row: "(st_kind s = Initial \<longrightarrow> st_code s \<notin> CLOSED) \<and> (st_code s = CANCELLED \<longrightarrow> st_kind s = Terminal) \<and> st_code s \<noteq> []"
    if s: "s \<in> set ss" for s
  proof -
    obtain p where "p \<in> set specs" "st_code s = fst p" "st_kind s = fst (snd p)" using s unfolding a(1) by (rule numbered_row)
    then show ?thesis using c by (simp add: closing_chain_def)
  qed
  have uniq: "x = y" if "x \<in> set (states db')" "y \<in> set (states db')" "st_id x = st_id y" for x y
    using inv that by (auto simp: engine_inv_def state_keys_def distinct_map inj_on_def)
  have high: "st_id s > st_seq db" if "s \<in> set ss" for s using numbered_ids that unfolding a(1) by metis
  have low: "st_id s \<le> st_seq db" if "s \<in> set (states db)" for s using g that by (simp add: rows_grounded_def)
  have edge: "tr_action t = Approve \<and> (\<forall>x \<in> set (states db'). st_id x = tr_from t \<longrightarrow> st_code x = HANDED_TO_FMS)"
    if t: "t \<in> set (transitions db')" and b: "b \<in> set (states db')" "st_id b = tr_to t" "st_code b \<in> CLOSED" for t b
  proof (cases "t \<in> set (transitions db)")
    case True
    then have from_low: "tr_from t \<le> st_seq db" "tr_to t \<le> st_seq db" using g fk by (simp_all add: rows_grounded_def)
    have old: "x \<in> set (states db)" if "x \<in> set (states db')" "st_id x \<le> st_seq db" for x
      using that high a(3) by fastforce
    have "b \<in> set (states db)" by (rule old [OF b(1)]) (use b(2) from_low in simp)
    then have c0: "tr_action t = Approve" "\<forall>x \<in> set (states db). st_id x = tr_from t \<longrightarrow> st_code x = HANDED_TO_FMS"
      using tabs(1) True b(2,3) unfolding closing_tables_def by blast+
    show ?thesis using c0 old from_low(1) by auto
  next
    case False
    then have "t \<in> set (numbered_edges (tr_seq db) (ver_id ver) rows)" using t a(4) by simp
    then obtain e x y where e: "e \<in> set es" "x \<in> set ss" "y \<in> set ss" "st_code x = eg_from e" "st_code y = eg_to e"
      "tr_action t = eg_action e" "tr_from t = st_id x" "tr_to t = st_id y"
      by (rule new_edges_from [OF a(2) [unfolded a(1)]]) (use a(1) in blast)
    have "y = b" by (rule uniq) (use e b a(3) in auto)
    then have "eg_action e = Approve" "eg_from e = HANDED_TO_FMS" using c e(1,5) b(3) by (auto simp: closing_chain_def)
    moreover have "z = x" if "z \<in> set (states db')" "st_id z = tr_from t" for z by (rule uniq) (use that e a(3) in auto)
    ultimately show ?thesis using e(4,6) by auto
  qed
  then have "\<forall>t \<in> set (transitions db'). \<forall>b \<in> set (states db'). st_id b = tr_to t \<and> st_code b \<in> CLOSED \<longrightarrow>
      tr_action t = Approve \<and> (\<forall>x \<in> set (states db'). st_id x = tr_from t \<longrightarrow> st_code x = HANDED_TO_FMS)" by blast
  moreover have "\<forall>s \<in> set (states db'). (st_kind s = Initial \<longrightarrow> st_code s \<notin> CLOSED) \<and> (st_code s = CANCELLED \<longrightarrow> st_kind s = Terminal)"
    using row tabs(1) unfolding a(3) closing_tables_def by auto
  ultimately show "closing_tables db'" unfolding closing_tables_def by blast
  show "\<forall>s \<in> set (states db'). st_code s \<noteq> []" using row tabs(2) unfolding a(3) by auto
qed

lemma authored_targets:
  assumes g: "rows_grounded db" and none: "get_published_version db code = None" and pub: "publishable v specs es"
    and first: "transitions db = []" and run: "author_chain db code name v specs es = Inr (ver, db')"
  shows "\<forall>t \<in> set (transitions db'). tr_to t \<le> st_seq db'"
proof
  obtain ss rows where a: "ss = numbered (st_seq db) (ver_id ver) (chain_rows v specs)"
    "rmap (edge_row ss) es = Inr rows" "states db' = states db @ ss" "rows_grounded db'"
    "transitions db' = numbered_edges (tr_seq db) (ver_id ver) rows"
    by (rule author_chain_publishes [OF g none pub, where name = name]) (use run first in auto)
  fix t assume "t \<in> set (transitions db')"
  then obtain e x y where "y \<in> set ss" "tr_to t = st_id y"
    unfolding a(5) by (rule new_edges_from [OF a(2) [unfolded a(1)]]) (use a(1) in blast)
  then show "tr_to t \<le> st_seq db'" using a(3,4) by (simp add: rows_grounded_def)
qed

lemma gate_authored:
  assumes inv: "engine_inv db" and g: "rows_grounded db" and none: "get_published_version db code = None" and pub: "publishable v specs es"
    and cut: "code_cut specs es gate C" and run: "author_chain db code name v specs es = Inr (ver, db')"
  shows "gate_inv db' code gate C"
  unfolding gate_inv_def
proof (intro allI impI)
  fix w assume "get_published_version db' code = Some w"
  moreover have "get_published_version db' code = Some ver"
    by (rule author_chain_publishes [OF g none pub, where name = name]) (use run in auto)
  ultimately have w: "w = ver" by simp
  obtain G S where "cut db' (ver_id ver) (st_id G) S" "G \<in> set (states db')" "st_version G = ver_id ver" "st_code G = gate"
    "\<forall>i \<in> set (instances db'). in_version i \<noteq> ver_id ver"
    "\<forall>i \<in> S. \<exists>s \<in> set (states db'). st_id s = i \<and> st_code s \<in> set C"
    by (rule authored_cut [OF g none pub cut run])
  moreover from this have "cut_inv (ver_id ver) (st_id G) S db'" using author_chain_inv [OF inv run] by (auto simp: cut_inv_def)
  ultimately show "\<exists>G \<in> set (states db'). \<exists>S. st_version G = ver_id w \<and> st_code G = gate \<and> cut_inv (ver_id w) (st_id G) S db' \<and>
      (\<forall>i \<in> S. \<exists>s \<in> set (states db'). st_id s = i \<and> st_code s \<in> set C)"
    unfolding w by blast
qed

lemma gate_other_chain:
  assumes gi: "gate_inv db chain gate C" and other: "chain \<noteq> code" and inv: "engine_inv db" and empty: "instances db = []"
    and g: "rows_grounded db" and none: "get_published_version db code = None" and pub: "publishable v specs es"
    and run: "author_chain db code name v specs es = Inr (ver, db')"
  shows "gate_inv db' chain gate C"
  unfolding gate_inv_def
proof (intro allI impI)
  obtain ss where a: "states db' = states db @ ss" "instances db' = instances db"
    "get_published_version db' chain = get_published_version db chain"
    by (rule author_chain_publishes [OF g none pub, where name = name]) (use run other in auto)
  fix w assume "get_published_version db' chain = Some w"
  then have "get_published_version db chain = Some w" using a(3) by simp
  then obtain G S where G: "G \<in> set (states db)" "st_version G = ver_id w" "st_code G = gate" "cut_inv (ver_id w) (st_id G) S db"
    "\<forall>i \<in> S. \<exists>s \<in> set (states db). st_id s = i \<and> st_code s \<in> set C"
    using gi unfolding gate_inv_def by blast
  have "cut db' (ver_id w) (st_id G) S"
    by (rule cut_other_chain [OF _ _ _ g none pub run]) (use G g in \<open>auto simp: cut_inv_def rows_grounded_def\<close>)
  then have "cut_inv (ver_id w) (st_id G) S db'" using author_chain_inv [OF inv run] a(2) empty by (simp add: cut_inv_def)
  then show "\<exists>G \<in> set (states db'). \<exists>S. st_version G = ver_id w \<and> st_code G = gate \<and> cut_inv (ver_id w) (st_id G) S db' \<and>
      (\<forall>i \<in> S. \<exists>s \<in> set (states db'). st_id s = i \<and> st_code s \<in> set C)"
    using G(1-3,5) unfolding a(1) set_append by blast
qed

lemma vocab_authored:
  assumes inv: "engine_inv db" and g: "rows_grounded db" and none: "get_published_version db code = None" and pub: "publishable v specs es"
    and C: "set (map fst specs) \<subseteq> set C" and run: "author_chain db code name v specs es = Inr (ver, db')"
  shows "vocab_inv db' code C"
  unfolding vocab_inv_def
proof (intro allI impI)
  obtain ss rows where a: "ver_id ver = ver_seq db + 1" "ss = numbered (st_seq db) (ver_id ver) (chain_rows v specs)"
    "rmap (edge_row ss) es = Inr rows" "states db' = states db @ ss"
    "transitions db' = transitions db @ numbered_edges (tr_seq db) (ver_id ver) rows" "instances db' = instances db"
    "get_published_version db' code = Some ver"
    by (rule author_chain_publishes [OF g none pub, where name = name]) (use run in auto)
  fix w assume "get_published_version db' code = Some w"
  then have w: "w = ver" using a(7) by simp
  have high: "st_id s > st_seq db" if "s \<in> set ss" for s using numbered_ids that unfolding a(2) by metis
  have "tr_to t \<in> st_id ` set ss" if t: "t \<in> set (transitions db')" "tr_from t \<in> st_id ` set ss" for t
  proof -
    have "t \<notin> set (transitions db)" using t(2) high g by (force simp: rows_grounded_def)
    then have "t \<in> set (numbered_edges (tr_seq db) (ver_id ver) rows)" using t(1) a(5) by simp
    then obtain e x y where "y \<in> set ss" "tr_to t = st_id y" by (rule new_edges_from [OF a(3) [unfolded a(2)]]) (use a(2) in blast)
    then show ?thesis by simp
  qed
  moreover have "st_id s \<in> st_id ` set ss" if "s \<in> set (states db')" "st_version s = ver_id ver" for s
    using that a(1,4) g by (auto simp: rows_grounded_def)
  moreover have "in_version i \<noteq> ver_id ver" if "i \<in> set (instances db')" for i using that g a(1,6) by (auto simp: rows_grounded_def)
  ultimately have "closed_inv (ver_id w) (st_id ` set ss) db'"
    using author_chain_inv [OF inv run] unfolding closed_inv_def w by blast
  moreover have "st_code s \<in> set C" if "s \<in> set ss" for s
    using that numbered_codes [of "st_seq db" "ver_id ver" v specs, folded a(2)] C by blast
  ultimately show "\<exists>S. closed_inv (ver_id w) S db' \<and> (\<forall>i \<in> S. \<exists>s \<in> set (states db'). st_id s = i \<and> st_code s \<in> set C)"
    using a(4) by (intro exI [of _ "st_id ` set ss"]) auto
qed

lemma vocab_other_chain:
  assumes vi: "vocab_inv db chain C" and other: "chain \<noteq> code" and inv: "engine_inv db" and empty: "instances db = []"
    and ids: "\<forall>v. get_published_version db chain = Some v \<longrightarrow> ver_id v \<le> ver_seq db"
    and g: "rows_grounded db" and none: "get_published_version db code = None" and pub: "publishable v specs es"
    and run: "author_chain db code name v specs es = Inr (ver, db')"
  shows "vocab_inv db' chain C"
  unfolding vocab_inv_def
proof (intro allI impI)
  obtain ss rows where a: "ver_id ver = ver_seq db + 1" "ss = numbered (st_seq db) (ver_id ver) (chain_rows v specs)"
    "rmap (edge_row ss) es = Inr rows" "states db' = states db @ ss"
    "transitions db' = transitions db @ numbered_edges (tr_seq db) (ver_id ver) rows" "instances db' = instances db"
    "get_published_version db' chain = get_published_version db chain"
    by (rule author_chain_publishes [OF g none pub, where name = name]) (use run other in auto)
  fix w assume "get_published_version db' chain = Some w"
  then have w: "get_published_version db chain = Some w" using a(7) by simp
  then obtain S where S: "closed_inv (ver_id w) S db" "\<forall>i \<in> S. \<exists>s \<in> set (states db). st_id s = i \<and> st_code s \<in> set C"
    using vi unfolding vocab_inv_def by blast
  have high: "st_id s > st_seq db" if "s \<in> set ss" for s using numbered_ids that unfolding a(2) by metis
  have low: "i \<le> st_seq db" if "i \<in> S" for i using S(2) that g by (auto simp: rows_grounded_def)
  have "tr_from t \<notin> S" if t: "t \<in> set (numbered_edges (tr_seq db) (ver_id ver) rows)" for t
  proof -
    obtain e x y where "x \<in> set ss" "tr_from t = st_id x" by (rule new_edges_from [OF a(3) [unfolded a(2)] t]) (use a(2) in blast)
    then show ?thesis using high [of x] low [of "tr_from t"] by auto
  qed
  moreover have "st_version s \<noteq> ver_id w" if "s \<in> set ss" for s
    using numbered_version [of s] that a(1,2) ids w by fastforce
  ultimately have "closed_inv (ver_id w) S db'"
    using S(1) author_chain_inv [OF inv run] a(4,5,6) unfolding closed_inv_def by auto
  then show "\<exists>S. closed_inv (ver_id w) S db' \<and> (\<forall>i \<in> S. \<exists>s \<in> set (states db'). st_id s = i \<and> st_code s \<in> set C)"
    using S(2) unfolding a(4) set_append by blast
qed

lemma chain_codes:
  "set (map fst claim_states) \<subseteq> set (vc_all_states REIMBURSEMENT)" "set (map fst liquidation_states) \<subseteq> set (vc_all_states LIQUIDATION)"
  by code_simp+

lemma seeded:
  assumes "ensure_definitions (empty_wf_db a) = Inr (ids, w)"
  shows "engine_inv w \<and> closing_tables w \<and> (\<forall>s \<in> set (states w). st_code s \<noteq> []) \<and> gates_inv w"
proof -
  let ?e = "empty_wf_db a"
  obtain c w1 l where r: "ensure_claim_definition ?e = Inr (c, w1)" "ensure_liquidation_definition w1 = Inr (l, w)"
    using assms by (auto simp: ensure_definitions_def rbind_eq_Inr)
  note r1 = r(1) [unfolded ensure_claim_definition_def] and r2 = r(2) [unfolded ensure_liquidation_definition_def]
  have e0: "engine_inv ?e" by (rule engine.inv_init) (simp add: engine_init_def authoring_init_def empty_wf_db_def)
  have g0: "rows_grounded ?e" and n0: "get_published_version ?e code = None" for code
    by (simp_all add: rows_grounded_def version_keys_def empty_wf_db_def get_published_version_def latest_version_def)
  have t0: "closing_tables ?e" "\<forall>s \<in> set (states ?e). st_code s \<noteq> []" "\<forall>t \<in> set (transitions ?e). tr_to t \<le> st_seq ?e"
    "transitions ?e = []" "instances ?e = []"
    by (simp_all add: closing_tables_def empty_wf_db_def)
  have other: "DEFINITION_CODE \<noteq> LIQUIDATION_DEFINITION_CODE" by (simp add: DEFINITION_CODE_def LIQUIDATION_DEFINITION_CODE_def)
  obtain g1: "rows_grounded w1" and i1: "instances w1 = []"
    and n1: "get_published_version w1 LIQUIDATION_DEFINITION_CODE = None"
    and v1: "get_published_version w1 DEFINITION_CODE = Some c"
    by (rule author_chain_publishes [OF g0 n0 [of DEFINITION_CODE] claim_publishable, where name = "''Local Travel Reimbursement '' @ em_dash @ '' claim''"])
      (use r1 t0(5) n0 other in auto)
  have e1: "engine_inv w1" by (rule author_chain_inv [OF e0 r1])
  have e2: "engine_inv w" by (rule author_chain_inv [OF e1 r2])
  note c1 = closing_authored [OF e1 t0(1,2,3) g0 n0 claim_publishable closing_chains(1) r1]
  note c2 = closing_authored [OF e2 c1 authored_targets [OF g0 n0 claim_publishable t0(4) r1] g1 n1 liquidation_publishable closing_chains(2) r2]
  have gc: "gate_inv w DEFINITION_CODE gate C" if "code_cut claim_states claim_edges gate C" for gate C
    by (rule gate_other_chain [OF gate_authored [OF e0 g0 n0 claim_publishable that r1] other e1 i1 g1 n1 liquidation_publishable r2])
  have gl: "gate_inv w LIQUIDATION_DEFINITION_CODE gate C" if "code_cut liquidation_states liquidation_edges gate C" for gate C
    by (rule gate_authored [OF e1 g1 n1 liquidation_publishable that r2])
  have "\<forall>v. get_published_version w1 DEFINITION_CODE = Some v \<longrightarrow> ver_id v \<le> ver_seq w1"
    using gate_authored [OF e0 g0 n0 claim_publishable claim_cuts(1) r1] g1 unfolding gate_inv_def rows_grounded_def by metis
  from vocab_other_chain [OF vocab_authored [OF e0 g0 n0 claim_publishable chain_codes(1) r1] other e1 i1 this g1 n1 liquidation_publishable r2]
    vocab_authored [OF e1 g1 n1 liquidation_publishable chain_codes(2) r2]
  have "gates_inv w"
    unfolding gates_inv_def GATES_def using gc [OF claim_cuts(1)] gc [OF claim_cuts(2)] gc [OF claim_cuts(3)]
      gl [OF liquidation_cuts(1)] gl [OF liquidation_cuts(2)] gl [OF liquidation_cuts(3)] by simp
  then show ?thesis using e2 c2 by blast
qed

section \<open>The system\<close>

text \<open>
  One call of the module. The label says whether the call replays a stale event: \<open>claim_action\<close>, and the
  settlement and the payout that end in it, run under an idempotency key, and when the key was used before
  the engine returns the old event without moving and the claim is synced to that event, also when the
  instance has moved on since. The other calls of the module and the code around it (evidence, documents,
  drafts, configuration, the outbox) write columns and tables these statements do not speak of.
\<close>

inductive module_step :: "bool \<Rightarrow> oc_db \<Rightarrow> oc_db \<Rightarrow> bool" where
  mod_create: "create_draft_claim db actor kind now = Inr (c, db') \<Longrightarrow> module_step False db db'"
| mod_cancel_draft: "cancel_draft_claim db k actor comment = Inr (c, db') \<Longrightarrow> module_step False db db'"
| mod_submit: "submit_claim db k actor key stamp now = Inr (c, db') \<Longrightarrow> module_step False db db'"
| mod_action: "claim_action db rq stamp now = Inr (c, db') \<Longrightarrow> module_step (stale_replay db rq) db db'"
| mod_start_liquidation: "start_liquidation db k actor now = Inr (c, db') \<Longrightarrow> module_step False db db'"
| mod_settle: "record_settlement db k actor rc comment expected stamp now = Inr (c, db') \<Longrightarrow>
    module_step (stale_replay db (approve_request k actor comment expected)) db db'"
| mod_spawn: "spawn_reimbursement db k actor stamp now = Inr (c, db') \<Longrightarrow> module_step False db db'"
| mod_payout: "record_payout db k actor ref paid_on comment expected stamp now = Inr (c, db') \<Longrightarrow>
    module_step (stale_replay db (approve_request k actor comment expected)) db db'"
| mod_new_advance: "create_cash_advance_seeing before (rdb db) claimant amount dv_no dv_date dpo_no date_return now = Inr (a, r) \<Longrightarrow>
    module_step False db (db\<lparr>rdb := r\<rparr>)"
| mod_edit_advance: "update_cash_advance (rdb db) k ch now = Inr (a, r) \<Longrightarrow> module_step False db (db\<lparr>rdb := r\<rparr>)"
| mod_remirror: "remirror_deadline (rdb db) a = (n, r) \<Longrightarrow> module_step False db (db\<lparr>rdb := r\<rparr>)"
| mod_escalate: "sweep_due_steps (wfdb db) now limit = Inr (ids, w) \<Longrightarrow> module_step False db (db\<lparr>wfdb := w\<rparr>)"
| mod_remind_steps: "sweep_sla_reminders db now n m = Inr (b, sw) \<Longrightarrow> module_step False db (sw_db sw)"
| mod_remind_advances: "sweep_liquidation_reminders db now n m = Inr (b, lw) \<Longrightarrow> module_step False db (lw_db lw)"
| mod_admin: "module_step False db (db\<lparr>wfdb := (wfdb db)\<lparr>auth := a, delegations := ds, flags := fs\<rparr>\<rparr>)"
| mod_other: "untouched db db' \<Longrightarrow> module_step False db db'"

text \<open>Any call at all, and any call that replays no stale event.\<close>

definition any_step :: "oc_db \<Rightarrow> oc_db \<Rightarrow> bool" where
  "any_step db db' \<longleftrightarrow> (\<exists>stale. module_step stale db db')"

definition module_init :: "oc_db \<Rightarrow> bool" where
  "module_init db \<longleftrightarrow> claims (rdb db) = [] \<and> advances (rdb db) = [] \<and>
     (\<exists>a ids. ensure_definitions (empty_wf_db a) = Inr (ids, wfdb db))"

text \<open>Engine steps that move no instance.\<close>

lemma module_engine:
  assumes inv: "module_inv db" and step: "run_step (wfdb db) w" and ic: "inst_code w = inst_code (wfdb db)"
  shows "module_inv (db\<lparr>wfdb := w\<rparr>)"
  by (rule module_frame [OF inv]) (use inv step ic in \<open>auto simp: module_inv_def\<close>)

lemma inst_code_same: "states w' = states w \<Longrightarrow> instances w' = instances w \<Longrightarrow> inst_code w' = inst_code w"
  by (simp add: fun_eq_iff inst_code_def)

lemma remind_step_module:
  assumes inv: "module_inv (sw_db sw)" and s: "s \<in> set (overdue_steps (wfdb (sw_db sw)) now)"
    and run: "remind_step repeat today sw s = Inr sw'"
  shows "module_inv (sw_db sw')"
proof (rule module_frame [OF inv])
  note e = remind_step_effect [OF run]
  have r: "rdb (sw_db sw') = rdb (sw_db sw)" and st: "states (wfdb (sw_db sw')) = states (wfdb (sw_db sw))"
    "instances (wfdb (sw_db sw')) = instances (wfdb (sw_db sw))" using e by (simp_all add: same_work_def)
  have "s \<in> set (steps (wfdb (sw_db sw)))" using s by (simp add: overdue_steps_def)
  then show "run_step\<^sup>*\<^sup>* (wfdb (sw_db sw)) (wfdb (sw_db sw'))" using e run_remind by (auto intro: r_into_rtranclp)
  show "inst_code (wfdb (sw_db sw')) = inst_code (wfdb (sw_db sw))" by (rule inst_code_same [OF st])
  show "ca_inv (rdb (sw_db sw'))" using inv by (simp add: r module_inv_def)
qed (use remind_step_effect [OF run] in \<open>simp_all add: same_work_def\<close>)

lemma remind_advance_module:
  assumes inv: "module_inv (lw_db lw)" and a: "a \<in> set (due_advances (rdb (lw_db lw)) horizon)"
    and run: "remind_advance repeat txt today lw a = Inr lw'"
  shows "module_inv (lw_db lw')"
proof -
  note t = remind_advance_tables [OF run]
  have "ca_step (rdb (lw_db lw)) (rdb (lw_db lw')) \<or> rdb (lw_db lw') = rdb (lw_db lw)"
    unfolding t(2) flip_def using a ca_overdue [of a "rdb (lw_db lw)" "fst (mark_overdue (rdb (lw_db lw)) a)"]
    by (auto simp: due_advances_def)
  moreover have "claims (rdb (lw_db lw')) = claims (rdb (lw_db lw)) \<and> cl_seq (rdb (lw_db lw')) = cl_seq (rdb (lw_db lw))"
    unfolding t(2) by (simp add: flip_def mark_overdue_def put_advance_def)
  ultimately have "module_inv ((lw_db lw)\<lparr>rdb := rdb (lw_db lw')\<rparr>)"
    using inv ca_step_module [OF inv, of "rdb (lw_db lw')"] by auto
  then show ?thesis by (rule untouched_module [rotated]) (simp add: untouched_def t(1))
qed

interpretation module_sla: keyset_worklist "\<lambda>sw. overdue_steps (wfdb (sw_db sw)) now" step_order "remind_step repeat today"
  "\<lambda>sw. module_inv (sw_db sw)" for now repeat today
proof
  fix st st' r k
  assume inv: "module_inv (sw_db st)" and r: "r \<in> set (overdue_steps (wfdb (sw_db st)) now)" and run: "remind_step repeat today st r = Inr st'"
  show "module_inv (sw_db st')" by (rule remind_step_module [OF inv r run])
  show "after step_order (Some k) (overdue_steps (wfdb (sw_db st')) now) = after step_order (Some k) (overdue_steps (wfdb (sw_db st)) now)"
    using same_work_rows [OF remind_step_frame [OF run]] by simp
qed (rule overdue_keys, simp add: module_inv_def mirror_inv_def engine_inv_def engine_keys_def)

interpretation module_liq: keyset_worklist "\<lambda>lw. due_advances (rdb (lw_db lw)) horizon" advance_order "remind_advance repeat txt today"
  "\<lambda>lw. module_inv (lw_db lw)" for horizon repeat txt today
proof
  have keys: "distinct (map ca_id (advances (rdb (lw_db st))))" if "module_inv (lw_db st)" for st
    using that by (simp add: module_inv_def ca_inv_def)
  show "distinct (map advance_order (due_advances (rdb (lw_db st)) horizon))" if "module_inv (lw_db st)" for st
    by (rule due_keys [OF keys [OF that]])
  fix st st' r k
  assume inv: "module_inv (lw_db st)" and r: "r \<in> set (due_advances (rdb (lw_db st)) horizon)" and run: "remind_advance repeat txt today st r = Inr st'"
  show "module_inv (lw_db st')" by (rule remind_advance_module [OF inv r run])
  show "after advance_order (Some k) (due_advances (rdb (lw_db st')) horizon) = after advance_order (Some k) (due_advances (rdb (lw_db st)) horizon)"
    if "advance_order r \<le> k" by (rule liq.work_later [OF keys [OF inv] r run that])
qed

lemma sweeps_module:
  "module_inv db \<Longrightarrow> sweep_sla_reminders db now n m = Inr (b, sw) \<Longrightarrow> module_inv (sw_db sw)"
  "module_inv db \<Longrightarrow> sweep_liquidation_reminders db now n m = Inr (b, lw) \<Longrightarrow> module_inv (lw_db lw)"
  using module_sla.drain_ok [of "\<lparr>sw_db = db, sw_checked = 0, sw_nudged = 0\<rparr>"]
    module_liq.drain_ok [of "\<lparr>lw_db = db, lw_checked = 0, lw_nudged = 0, lw_flipped = 0\<rparr>"]
  by (auto simp: sweep_sla_reminders_def sweep_liquidation_reminders_def Let_def rbind_eq_Inr)

lemma module_init_inv: "module_init db \<Longrightarrow> module_inv db"
  using seeded by (fastforce simp: module_init_def module_inv_def mirror_inv_def claims_sound_def own_instances_def one_live_def ca_inv_def)

lemma advance_steps_module:
  assumes inv: "module_inv db"
  shows "create_cash_advance_seeing before (rdb db) claimant amount dv_no dv_date dpo_no date_return now = Inr (a, r) \<Longrightarrow> module_inv (db\<lparr>rdb := r\<rparr>)"
    "update_cash_advance (rdb db) k ch now = Inr (a, r) \<Longrightarrow> module_inv (db\<lparr>rdb := r\<rparr>)"
    "remirror_deadline (rdb db) b = (n, r) \<Longrightarrow> module_inv (db\<lparr>rdb := r\<rparr>)"
proof -
  assume run: "create_cash_advance_seeing before (rdb db) claimant amount dv_no dv_date dpo_no date_return now = Inr (a, r)"
  show "module_inv (db\<lparr>rdb := r\<rparr>)"
    by (rule ca_step_module [OF inv ca_create [OF run]])
      (use run in \<open>auto simp: create_cash_advance_seeing_def insert_advance_def rbind_eq_Inr Let_def split: if_splits\<close>)
next
  assume run: "update_cash_advance (rdb db) k ch now = Inr (a, r)"
  show "module_inv (db\<lparr>rdb := r\<rparr>)"
    by (rule ca_step_module [OF inv ca_update [OF run]])
      (use run in \<open>auto simp: update_cash_advance_def rbind_eq_Inr Let_def split: if_splits\<close>)
next
  assume run: "remirror_deadline (rdb db) b = (n, r)"
  have "claims r = map (\<lambda>c. if cl_cash_advance c = Some (ca_id b) \<and> cl_kind c = LIQUIDATION_KIND then c\<lparr>cl_liq_deadline := ca_deadline b\<rparr> else c)
      (claims (rdb db))" "cl_seq r = cl_seq (rdb db)"
    using run by (auto simp: remirror_deadline_def Let_def)
  then show "module_inv (db\<lparr>rdb := r\<rparr>)"
    by (intro ca_step_module [OF inv ca_remirror [OF run]]) (auto simp: core_def)
qed

lemma module_step_inv:
  assumes inv: "module_inv db" and step: "module_step False db db'"
  shows "module_inv db'"
  using step
proof cases
  case mod_create then show ?thesis using create_module [OF inv] by metis
next
  case mod_cancel_draft then show ?thesis using cancel_module [OF inv] by metis
next
  case mod_submit then show ?thesis using submit_module [OF inv] by metis
next
  case mod_action then show ?thesis using action_module [OF inv] by blast
next
  case mod_start_liquidation then show ?thesis using start_liquidation_module [OF inv] by metis
next
  case mod_settle then show ?thesis using settlement_module [OF inv] by metis
next
  case mod_spawn then show ?thesis using spawn_module [OF inv] by metis
next
  case mod_payout then show ?thesis using payout_module [OF inv] by metis
next
  case mod_new_advance then show ?thesis using advance_steps_module(1) [OF inv] by metis
next
  case mod_edit_advance then show ?thesis using advance_steps_module(2) [OF inv] by metis
next
  case mod_remirror then show ?thesis using advance_steps_module(3) [OF inv] by metis
next
  case mod_remind_steps then show ?thesis using sweeps_module(1) [OF inv] by metis
next
  case mod_remind_advances then show ?thesis using sweeps_module(2) [OF inv] by metis
next
  case mod_other then show ?thesis using untouched_module [OF _ inv] by metis
next
  case (mod_escalate now limit ids w)
  have "module_inv (db\<lparr>wfdb := w\<rparr>)"
    by (rule module_engine [OF inv run_sweep [OF mod_escalate(2)]]) (use sweep_frame [OF mod_escalate(2)] in \<open>auto intro: inst_code_same\<close>)
  then show ?thesis using mod_escalate(1) by simp
next
  case (mod_admin a ds fs)
  show ?thesis
    unfolding mod_admin by (rule module_engine [OF inv run_admin]) (rule inst_code_same, simp_all)
qed

interpretation reimbursement: invariant_system module_init "module_step False" module_inv
  by unfold_locales (rule module_init_inv, assumption, rule module_step_inv)

section \<open>The indexes under any call\<close>

lemma any_step_index:
  assumes inv: "index_inv (rdb db)" and any: "any_step db db'"
  shows "index_inv (rdb db')"
proof -
  from any obtain stale where "module_step stale db db'" by (auto simp: any_step_def)
  then show ?thesis
  proof cases
    case mod_create then show ?thesis using create_index [OF inv] by metis
  next
    case mod_cancel_draft then show ?thesis using cancel_index [OF inv] by metis
  next
    case mod_submit then show ?thesis using submit_index [OF inv] by metis
  next
    case mod_action then show ?thesis using action_index [OF inv] by metis
  next
    case mod_start_liquidation then show ?thesis using start_liquidation_index [OF inv] by metis
  next
    case mod_settle then show ?thesis using settlement_index [OF inv] by metis
  next
    case mod_spawn then show ?thesis using spawn_index [OF inv] by metis
  next
    case mod_payout then show ?thesis using payout_index [OF inv] by metis
  next
    case mod_new_advance then show ?thesis using advances_index(1) [OF inv] by simp
  next
    case mod_edit_advance then show ?thesis using advances_index(2) [OF inv] by simp
  next
    case mod_remirror then show ?thesis using advances_index(3) [OF inv] by simp
  next
    case mod_remind_steps then show ?thesis using sweeps_index(1) [OF _ inv] by metis
  next
    case mod_remind_advances then show ?thesis using sweeps_index(2) [OF _ inv] by metis
  next
    case mod_other then show ?thesis using index_untouched [OF _ inv] by metis
  qed (use inv in simp_all)
qed

interpretation indexes: invariant_system module_init any_step "\<lambda>db. index_inv (rdb db)"
proof
  show "module_init s \<Longrightarrow> index_inv (rdb s)" for s by (simp add: module_init_def index_inv_def one_live_def)
qed (rule any_step_index)

end
