(* ===== verification/Module_Samples.thy ===== *)
theory Module_Samples
  imports Module_System
begin

text \<open>
  Runs of the module, evaluated from seeding to the last call: a reimbursement paid, a liquidation
  settled, a claim returned after an approval that carried a key of its own, and two runs in which such a
  keyed call is sent again after the claim moved on.
\<close>

section \<open>Sample runs\<close>

text \<open>
  A database with one claimant (user and staff 5), an approver 8 who also certifies and a reviewer 9 who
  also records for FMS; the claimant files a one-day trip on the first day of the calendar.
\<close>

definition seeded_db :: "auth_db \<Rightarrow> wf_db" where
  "seeded_db a = authored_db (authored_db (empty_wf_db a) DEFINITION_CODE (''Local Travel Reimbursement '' @ em_dash @ '' claim'') REIMBURSEMENT claim_states claim_edges)
     LIQUIDATION_DEFINITION_CODE (''Local Travel Reimbursement '' @ em_dash @ '' liquidation'') LIQUIDATION liquidation_states liquidation_edges"

lemma seeded_db_ok: "\<exists>ids. ensure_definitions (empty_wf_db a) = Inr (ids, seeded_db a)"
proof -
  let ?w1 = "authored_db (empty_wf_db a) DEFINITION_CODE (''Local Travel Reimbursement '' @ em_dash @ '' claim'') REIMBURSEMENT claim_states claim_edges"
  have c: "ensure_claim_definition (empty_wf_db a) = Inr (last (versions ?w1), ?w1)"
    unfolding ensure_claim_definition_def by (rule authored_db_ok [OF _ _ claim_publishable]) simp_all
  have "rows_grounded ?w1"
    by (rule author_chain_total [OF empty_grounded(1) claim_publishable, where a1 = a and code = DEFINITION_CODE and name = "''Local Travel Reimbursement '' @ em_dash @ '' claim''"])
      (use c in \<open>simp add: ensure_claim_definition_def\<close>)
  then have "ensure_liquidation_definition ?w1 = Inr (last (versions (seeded_db a)), seeded_db a)"
    unfolding ensure_liquidation_definition_def seeded_db_def
    by (rule authored_db_ok [OF _ _ liquidation_publishable]) (simp add: authored_db_def Let_def DEFINITION_CODE_def LIQUIDATION_DEFINITION_CODE_def)
  then show ?thesis using c by (simp add: ensure_definitions_def)
qed

definition sys_auth :: auth_db where
  "sys_auth = chain_auth\<lparr>users := [\<lparr>user_id = 5, user_is_active = True, user_staff = Some 5, user_email = ''a@b''\<rparr>,
    \<lparr>user_id = 8, user_is_active = True, user_staff = None, user_email = ''c@d''\<rparr>,
    \<lparr>user_id = 9, user_is_active = True, user_staff = None, user_email = ''e@f''\<rparr>]\<rparr>"

definition sys0 :: oc_db where
  "sys0 = \<lparr>wfdb = seeded_db sys_auth,
     rdb = sample_reimb\<lparr>staffs := [\<lparr>sf_id = 5, sf_section = None, sf_division = Some 1, sf_employment = None, sf_email = None, sf_deleted = False\<rparr>],
       configs := pi_configs sample_trip, rates := [\<lparr>rt_cluster = ''I'', rt_daily = 2, rt_from = 1, rt_active = True\<rparr>],
       regions := pi_regions sample_trip, return_reasons := [\<lparr>rr_id = 1, rr_active = True\<rparr>]\<rparr>,
     adb = \<lparr>attachments = [], blobs = Map.empty, at_seq = 0\<rparr>,
     sdb = snd first_copy, counters = [], renders = [], outbox = empty_outbox\<rparr>"

definition day_leg :: leg where
  "day_leg = \<lparr>lg_id = 1, lg_claim = 1, lg_seq = 1, lg_date = Some 1, lg_place = None, lg_region = Some ''13'', lg_depart = None,
     lg_arrive = None, lg_mode = None, lg_fare = None, lg_lodging = False, lg_meals = False, lg_pct = None, lg_amount = None, lg_total = None\<rparr>"

definition file_trip :: "oc_db \<Rightarrow> oc_db" where
  "file_trip db = db\<lparr>rdb := (rdb db)\<lparr>claims := map (\<lambda>c. c\<lparr>cl_region := Some ''13'', cl_date_depart := Some 1, cl_date_return := Some 1\<rparr>)
     (claims (rdb db)), legs := [day_leg]\<rparr>\<rparr>"

definition switch_on :: "oc_db \<Rightarrow> oc_db" where
  "switch_on db = db\<lparr>wfdb := (wfdb db)\<lparr>auth := auth (wfdb db), delegations := delegations (wfdb db),
     flags := [\<lparr>ff_key = FEATURE_FLAG_KEY, ff_enabled = True, ff_is_active = True\<rparr>]\<rparr>\<rparr>"

definition fresh_call :: "oc_db \<Rightarrow> action_request \<Rightarrow> 'a res \<Rightarrow> 'a res" where
  "fresh_call db rq call = (if stale_replay db rq then Inl ValueError else call)"

abbreviation approve_call :: "oc_db \<Rightarrow> int \<Rightarrow> string option \<Rightarrow> instant \<Rightarrow> (claim \<times> oc_db) res" where
  "approve_call db actor txt now \<equiv> fresh_call db (approve_request 1 actor txt None) (claim_action db (approve_request 1 actor txt None) ''t'' now)"

definition paid_run :: "oc_db res" where
  "paid_run =
     rbind (create_draft_claim (switch_on sys0) 5 REIMBURSEMENT_KIND 100) (\<lambda>(_, d1).
     rbind (submit_claim (file_trip d1) 1 5 None ''t'' 101) (\<lambda>(_, d2).
     rbind (approve_call d2 8 None 102) (\<lambda>(_, d3).
     rbind (approve_call d3 9 None 103) (\<lambda>(_, d4).
     rbind (fresh_call d4 (approve_request 1 9 None None) (record_payout d4 1 9 (Some ''ADA-1'') (Some 1) None None ''t'' 104)) (\<lambda>(_, d5).
     Inr d5)))))"

definition settled_run :: "oc_db res" where
  "settled_run =
     rbind (create_cash_advance_seeing (rdb sys0) (rdb (switch_on sys0)) 5 (Fin 1 (-2)) None None None None 100) (\<lambda>(_, r).
     rbind (start_liquidation ((switch_on sys0)\<lparr>rdb := r\<rparr>) 1 5 100) (\<lambda>(_, d1).
     rbind (submit_claim (file_trip d1) 1 5 None ''t'' 101) (\<lambda>(_, d2).
     rbind (approve_call d2 8 None 102) (\<lambda>(_, d3).
     rbind (approve_call d3 9 (Some ''ok'') 103) (\<lambda>(_, d4).
     rbind (fresh_call d4 (approve_request 1 9 None None)
              (record_settlement d4 1 9 \<lparr>rc_or_no = None, rc_or_date = None, rc_amount = None\<rparr> None None ''t'' 104)) (\<lambda>(_, d5).
     Inr d5))))))"

text \<open>The approver's request under a key of its own, sent again after the claim was returned.\<close>

definition keyed_approval :: action_request where
  "keyed_approval = (approve_request 1 8 None None)\<lparr>rq_key := Some ''k''\<rparr>"

definition return_request :: action_request where
  "return_request = \<lparr>rq_claim = 1, rq_action = ''return'', rq_actor = 9, rq_comment = Some ''no receipt'', rq_reasons = [1], rq_key = None,
     rq_expected = None\<rparr>"

definition returned_run :: "oc_db res" where
  "returned_run =
     rbind (create_draft_claim (switch_on sys0) 5 REIMBURSEMENT_KIND 100) (\<lambda>(_, d1).
     rbind (submit_claim (file_trip d1) 1 5 None ''t'' 101) (\<lambda>(_, d2).
     rbind (fresh_call d2 keyed_approval (claim_action d2 keyed_approval ''t'' 102)) (\<lambda>(_, d3).
     rbind (fresh_call d3 return_request (claim_action d3 return_request ''t'' 103)) (\<lambda>(_, d4).
     Inr d4))))"

lemma paid_run_ends:
  "(case paid_run of Inl e \<Rightarrow> False | Inr d \<Rightarrow>
     map (\<lambda>c. (cl_id c, cl_kind c, cl_status c, cl_instance c)) (claims (rdb d)) = [(1, REIMBURSEMENT_KIND, Some PAID_CLOSED, Some 1)])"
  by code_simp

lemma settled_run_ends:
  "(case settled_run of Inl e \<Rightarrow> False | Inr d \<Rightarrow>
     map (\<lambda>c. (cl_id c, cl_kind c, cl_status c, cl_instance c, cl_cash_advance c)) (claims (rdb d)) =
       [(1, LIQUIDATION_KIND, Some SETTLED, Some 1, Some 1)])"
  by code_simp

lemma replay_ends:
  "(case returned_run of Inl e \<Rightarrow> False | Inr d \<Rightarrow>
     (case claim_action d keyed_approval ''t'' 104 of Inl e \<Rightarrow> False | Inr (c, d') \<Rightarrow>
        cl_status c = Some ADMIN_REVIEW \<and> inst_code (wfdb d') 1 = Some RETURNED))"
  by code_simp

lemma sys0_reach: "reach module_init (module_step False) (switch_on sys0)"
proof -
  have "module_init sys0" using seeded_db_ok [of sys_auth] by (auto simp: module_init_def sys0_def sample_reimb_def)
  then have "reach module_init (module_step False) sys0" by (rule reach_init)
  then show ?thesis by (rule reach_step) (unfold switch_on_def, rule mod_admin)
qed

lemma file_trip_reach: "reach module_init (module_step False) db \<Longrightarrow> reach module_init (module_step False) (file_trip db)"
  by (erule reach_step, rule mod_other) (simp add: untouched_def file_trip_def core_def)

lemma fresh_call_Inr: "fresh_call db rq call = Inr x \<longleftrightarrow> \<not> stale_replay db rq \<and> call = Inr x"
  by (simp add: fresh_call_def)

lemma fresh_step:
  "\<not> stale_replay db rq \<and> claim_action db rq stamp now = Inr (c, db') \<Longrightarrow> module_step False db db'"
  "\<not> stale_replay db (approve_request k actor comment expected) \<and> record_settlement db k actor rc comment expected stamp now = Inr (c, db') \<Longrightarrow>
     module_step False db db'"
  "\<not> stale_replay db (approve_request k actor comment expected) \<and> record_payout db k actor ref paid_on comment expected stamp now = Inr (c, db') \<Longrightarrow>
     module_step False db db'"
  by (metis mod_action, metis mod_settle, metis mod_payout)

lemma paid_run_reach:
  assumes "paid_run = Inr d"
  shows "reach module_init (module_step False) d"
proof -
  obtain c1 d1 c2 d2 c3 d3 c4 d4 c5 where s: "create_draft_claim (switch_on sys0) 5 REIMBURSEMENT_KIND 100 = Inr (c1, d1)"
    "submit_claim (file_trip d1) 1 5 None ''t'' 101 = Inr (c2, d2)"
    "approve_call d2 8 None 102 = Inr (c3, d3)" "approve_call d3 9 None 103 = Inr (c4, d4)"
    "fresh_call d4 (approve_request 1 9 None None) (record_payout d4 1 9 (Some ''ADA-1'') (Some 1) None None ''t'' 104) = Inr (c5, d)"
    using assms unfolding paid_run_def rbind_eq_Inr split_paired_Ex prod.case by blast
  note f = s(3-5) [unfolded fresh_call_Inr]
  have "reach module_init (module_step False) d1" by (rule reach_step [OF sys0_reach mod_create [OF s(1)]])
  then have "reach module_init (module_step False) d2" by (intro reach_step [OF file_trip_reach mod_submit [OF s(2)]])
  then have "reach module_init (module_step False) d3" by (rule reach_step) (use f(1) in \<open>blast intro: fresh_step\<close>)
  then have "reach module_init (module_step False) d4" by (rule reach_step) (use f(2) in \<open>blast intro: fresh_step\<close>)
  then show ?thesis by (rule reach_step) (use f(3) in \<open>blast intro: fresh_step\<close>)
qed

lemma returned_run_reach:
  assumes "returned_run = Inr d"
  shows "reach module_init (module_step False) d"
proof -
  obtain c1 d1 c2 d2 c3 d3 c4 where s: "create_draft_claim (switch_on sys0) 5 REIMBURSEMENT_KIND 100 = Inr (c1, d1)"
    "submit_claim (file_trip d1) 1 5 None ''t'' 101 = Inr (c2, d2)"
    "fresh_call d2 keyed_approval (claim_action d2 keyed_approval ''t'' 102) = Inr (c3, d3)"
    "fresh_call d3 return_request (claim_action d3 return_request ''t'' 103) = Inr (c4, d)"
    using assms unfolding returned_run_def rbind_eq_Inr split_paired_Ex prod.case by blast
  note f = s(3,4) [unfolded fresh_call_Inr]
  have "reach module_init (module_step False) d1" by (rule reach_step [OF sys0_reach mod_create [OF s(1)]])
  then have "reach module_init (module_step False) d2" by (intro reach_step [OF file_trip_reach mod_submit [OF s(2)]])
  then have "reach module_init (module_step False) d3" by (rule reach_step) (use f(1) in \<open>blast intro: fresh_step\<close>)
  then show ?thesis by (rule reach_step) (use f(2) in \<open>blast intro: fresh_step\<close>)
qed

lemma settled_run_reach:
  assumes "settled_run = Inr d"
  shows "reach module_init (module_step False) d"
proof -
  obtain a r c1 d1 c2 d2 c3 d3 c4 d4 c5 where s:
    "create_cash_advance_seeing (rdb sys0) (rdb (switch_on sys0)) 5 (Fin 1 (-2)) None None None None 100 = Inr (a, r)"
    "start_liquidation ((switch_on sys0)\<lparr>rdb := r\<rparr>) 1 5 100 = Inr (c1, d1)"
    "submit_claim (file_trip d1) 1 5 None ''t'' 101 = Inr (c2, d2)"
    "approve_call d2 8 None 102 = Inr (c3, d3)" "approve_call d3 9 (Some ''ok'') 103 = Inr (c4, d4)"
    "fresh_call d4 (approve_request 1 9 None None)
      (record_settlement d4 1 9 \<lparr>rc_or_no = None, rc_or_date = None, rc_amount = None\<rparr> None None ''t'' 104) = Inr (c5, d)"
    using assms unfolding settled_run_def rbind_eq_Inr split_paired_Ex prod.case by blast
  note f = s(4-6) [unfolded fresh_call_Inr]
  have "reach module_init (module_step False) ((switch_on sys0)\<lparr>rdb := r\<rparr>)" by (rule reach_step [OF sys0_reach mod_new_advance [OF s(1)]])
  then have "reach module_init (module_step False) d1" by (rule reach_step) (rule mod_start_liquidation [OF s(2)])
  then have "reach module_init (module_step False) d2" by (intro reach_step [OF file_trip_reach mod_submit [OF s(3)]])
  then have "reach module_init (module_step False) d3" by (rule reach_step) (use f(1) in \<open>blast intro: fresh_step\<close>)
  then have "reach module_init (module_step False) d4" by (rule reach_step) (use f(2) in \<open>blast intro: fresh_step\<close>)
  then show ?thesis by (rule reach_step) (use f(3) in \<open>blast intro: fresh_step\<close>)
qed

lemma paid_sample:
  obtains d c where "reach module_init (module_step False) d" "c \<in> set (claims (rdb d))" "cl_kind c = REIMBURSEMENT_KIND" "cl_status c = Some PAID_CLOSED"
proof -
  obtain d where d: "paid_run = Inr d"
    "map (\<lambda>c. (cl_id c, cl_kind c, cl_status c, cl_instance c)) (claims (rdb d)) = [(1, REIMBURSEMENT_KIND, Some PAID_CLOSED, Some 1)]"
    using paid_run_ends by (auto split: sum.splits)
  then obtain c where "claims (rdb d) = [c]" "cl_kind c = REIMBURSEMENT_KIND" "cl_status c = Some PAID_CLOSED" by (auto simp: map_eq_Cons_conv)
  then show thesis using that [OF paid_run_reach [OF d(1)]] by simp
qed

lemma settled_sample:
  obtains d c where "reach module_init (module_step False) d" "c \<in> set (claims (rdb d))" "cl_kind c = LIQUIDATION_KIND" "cl_status c = Some SETTLED"
    "cl_cash_advance c = Some 1"
proof -
  obtain d where d: "settled_run = Inr d"
    "map (\<lambda>c. (cl_id c, cl_kind c, cl_status c, cl_instance c, cl_cash_advance c)) (claims (rdb d)) = [(1, LIQUIDATION_KIND, Some SETTLED, Some 1, Some 1)]"
    using settled_run_ends by (auto split: sum.splits)
  then obtain c where "claims (rdb d) = [c]" "cl_kind c = LIQUIDATION_KIND" "cl_status c = Some SETTLED" "cl_cash_advance c = Some 1"
    by (auto simp: map_eq_Cons_conv)
  then show thesis using that [OF settled_run_reach [OF d(1)]] by simp
qed

lemma replay_sample:
  obtains d c d' where "reach module_init (module_step False) d" "claim_action d keyed_approval ''t'' 104 = Inr (c, d')" "cl_status c = Some ADMIN_REVIEW"
    "inst_code (wfdb d') 1 = Some RETURNED"
proof -
  obtain d where d: "returned_run = Inr d" using replay_ends by (auto split: sum.splits)
  obtain c d' where "claim_action d keyed_approval ''t'' 104 = Inr (c, d')" "cl_status c = Some ADMIN_REVIEW" "inst_code (wfdb d') 1 = Some RETURNED"
    using replay_ends unfolding d by (auto split: sum.splits)
  then show thesis using that [OF returned_run_reach [OF d]] by blast
qed

section \<open>Runs with a stale replay\<close>

text \<open>Calls one after the other, on the database the one before left.\<close>

fun run_calls :: "oc_db \<Rightarrow> (oc_db \<Rightarrow> (claim \<times> oc_db) res) list \<Rightarrow> oc_db res" where
  "run_calls db [] = Inr db"
| "run_calls db (f # fs) = rbind (f db) (\<lambda>(_, db'). run_calls db' fs)"

lemma run_calls_reach:
  assumes "reach module_init any_step db" "\<And>f d c d'. f \<in> set fs \<Longrightarrow> f d = Inr (c, d') \<Longrightarrow> any_step\<^sup>*\<^sup>* d d'" "run_calls db fs = Inr d"
  shows "reach module_init any_step d"
  using assms
proof (induction fs arbitrary: db)
  case (Cons f fs)
  obtain c db1 where f: "f db = Inr (c, db1)" "run_calls db1 fs = Inr d" using Cons.prems(3) by (auto simp: rbind_eq_Inr)
  have "any_step\<^sup>*\<^sup>* db db1" by (rule Cons.prems(2) [of f, OF _ f(1)]) simp
  then have "reach module_init any_step db1" using Cons.prems(1) by (induction rule: rtranclp_induct) (auto intro: reach_step)
  then show ?case using Cons.IH [OF _ _ f(2)] Cons.prems(2) by (metis list.set_intros(2))
qed simp

lemma step_any: "module_step stale db db' \<Longrightarrow> any_step\<^sup>*\<^sup>* db db'"
  by (rule r_into_rtranclp) (auto simp: any_step_def)

lemma file_submit_any: "submit_claim (file_trip db) k actor key stamp now = Inr (c, db') \<Longrightarrow> any_step\<^sup>*\<^sup>* db db'"
  by (rule rtranclp_trans [OF step_any [OF mod_other] step_any [OF mod_submit]]) (simp_all add: untouched_def file_trip_def core_def)

lemma sys0_any: "reach module_init any_step (switch_on sys0)"
proof -
  have "module_init sys0" using seeded_db_ok [of sys_auth] by (auto simp: module_init_def sys0_def sample_reimb_def)
  then have "reach module_init any_step sys0" by (rule reach_init)
  moreover have "any_step sys0 (switch_on sys0)" unfolding any_step_def switch_on_def by (rule exI, rule mod_admin)
  ultimately show ?thesis by (rule reach_step)
qed

text \<open>
  The approver returns the claim under a key, the claimant resubmits, both gates approve, and at FMS the
  return is sent again: the claim reads \<open>returned\<close>, so the approval that follows does not ask for a payment.
\<close>

definition keyed_return :: action_request where
  "keyed_return = return_request\<lparr>rq_actor := 8, rq_key := Some ''k''\<rparr>"

definition owner_request :: "string \<Rightarrow> action_request" where
  "owner_request verb = \<lparr>rq_claim = 1, rq_action = verb, rq_actor = 5, rq_comment = Some ''done'', rq_reasons = [], rq_key = None, rq_expected = None\<rparr>"

definition unrecorded_calls :: "(oc_db \<Rightarrow> (claim \<times> oc_db) res) list" where
  "unrecorded_calls =
     [\<lambda>d. create_draft_claim d 5 REIMBURSEMENT_KIND 100,
      \<lambda>d. submit_claim (file_trip d) 1 5 None ''t'' 101,
      \<lambda>d. claim_action d keyed_return ''t'' 102,
      \<lambda>d. claim_action d (owner_request ''resubmit'') ''t'' 103,
      \<lambda>d. claim_action d (approve_request 1 8 None None) ''t'' 104,
      \<lambda>d. claim_action d (approve_request 1 9 None None) ''t'' 105,
      \<lambda>d. claim_action d keyed_return ''t'' 106,
      \<lambda>d. claim_action d (approve_request 1 9 None None) ''t'' 107]"

text \<open>
  A liquidation is returned under a key and cancelled, and a second one is started against its advance.
\<close>

definition relinked_calls :: "(oc_db \<Rightarrow> (claim \<times> oc_db) res) list" where
  "relinked_calls =
     [\<lambda>d. start_liquidation d 1 5 100,
      \<lambda>d. submit_claim (file_trip d) 1 5 None ''t'' 101,
      \<lambda>d. claim_action d keyed_return ''t'' 102,
      \<lambda>d. claim_action d (owner_request ''cancel'') ''t'' 103,
      \<lambda>d. start_liquidation d 1 5 104]"

definition relinked_run :: "oc_db res" where
  "relinked_run =
     rbind (create_cash_advance_seeing (rdb sys0) (rdb (switch_on sys0)) 5 (Fin 1 (-2)) None None None None 100) (\<lambda>(_, r).
     run_calls ((switch_on sys0)\<lparr>rdb := r\<rparr>) relinked_calls)"

lemma unrecorded_ends:
  "(case run_calls (switch_on sys0) unrecorded_calls of Inl e \<Rightarrow> False | Inr d \<Rightarrow>
     map (\<lambda>c. (cl_kind c, cl_status c, cl_payout_ref c)) (claims (rdb d)) = [(REIMBURSEMENT_KIND, Some PAID_CLOSED, None)])"
  by code_simp

lemma relinked_ends:
  "(case relinked_run of Inl e \<Rightarrow> False | Inr d \<Rightarrow>
     map (\<lambda>c. (cl_id c, cl_kind c, cl_status c, cl_cash_advance c)) (claims (rdb d)) =
       [(1, LIQUIDATION_KIND, Some CANCELLED, Some 1), (2, LIQUIDATION_KIND, Some DRAFT, Some 1)] \<and>
     (case claim_action d keyed_return ''t'' 105 of Inl e \<Rightarrow> e = IntegrityError | Inr p \<Rightarrow> False))"
  by code_simp

lemma unrecorded_sample:
  obtains d c where "reach module_init any_step d" "c \<in> set (claims (rdb d))" "cl_kind c = REIMBURSEMENT_KIND" "cl_status c = Some PAID_CLOSED"
    "cl_payout_ref c = None"
proof -
  obtain d where d: "run_calls (switch_on sys0) unrecorded_calls = Inr d"
    "map (\<lambda>c. (cl_kind c, cl_status c, cl_payout_ref c)) (claims (rdb d)) = [(REIMBURSEMENT_KIND, Some PAID_CLOSED, None)]"
    using unrecorded_ends by (auto split: sum.splits)
  have "reach module_init any_step d"
    by (rule run_calls_reach [OF sys0_any _ d(1)])
      (auto simp: unrecorded_calls_def dest: step_any [OF mod_create] file_submit_any step_any [OF mod_action])
  then show thesis using d(2) that by (auto simp: map_eq_Cons_conv)
qed

lemma relinked_sample:
  obtains d c1 c2 where "reach module_init any_step d" "claims (rdb d) = [c1, c2]" "cl_status c1 = Some CANCELLED" "cl_status c2 = Some DRAFT"
    "cl_kind c1 = LIQUIDATION_KIND" "cl_kind c2 = LIQUIDATION_KIND" "cl_cash_advance c1 = Some 1" "cl_cash_advance c2 = Some 1" "cl_id c1 = 1"
    "claim_action d keyed_return ''t'' 105 = Inl IntegrityError"
proof -
  obtain d where d: "relinked_run = Inr d"
    "map (\<lambda>c. (cl_id c, cl_kind c, cl_status c, cl_cash_advance c)) (claims (rdb d)) =
       [(1, LIQUIDATION_KIND, Some CANCELLED, Some 1), (2, LIQUIDATION_KIND, Some DRAFT, Some 1)]"
    "claim_action d keyed_return ''t'' 105 = Inl IntegrityError"
    using relinked_ends by (auto split: sum.splits)
  obtain a r where r: "create_cash_advance_seeing (rdb sys0) (rdb (switch_on sys0)) 5 (Fin 1 (-2)) None None None None 100 = Inr (a, r)"
    "run_calls ((switch_on sys0)\<lparr>rdb := r\<rparr>) relinked_calls = Inr d"
    using d(1) unfolding relinked_run_def rbind_eq_Inr split_paired_Ex prod.case by blast
  have "any_step (switch_on sys0) ((switch_on sys0)\<lparr>rdb := r\<rparr>)" unfolding any_step_def by (rule exI, rule mod_new_advance [OF r(1)])
  then have "reach module_init any_step ((switch_on sys0)\<lparr>rdb := r\<rparr>)" by (rule reach_step [OF sys0_any])
  then have "reach module_init any_step d"
    by (rule run_calls_reach [OF _ _ r(2)])
      (auto simp: relinked_calls_def dest: step_any [OF mod_start_liquidation] file_submit_any step_any [OF mod_action])
  then show thesis using d(2,3) that by (auto simp: map_eq_Cons_conv)
qed

end
