(* ===== verification/Module_Guarantees.thy ===== *)
theory Module_Guarantees
  imports Module_Samples
begin

text \<open>
  What holds of the claims of the reimbursement module: in every state reached by any calls, in every state
  reached by calls none of which replays a stale event, and what such a replay breaks.
\<close>

section \<open>Properties\<close>

lemma reached_claim:
  assumes "reach module_init (module_step False) db" "c \<in> set (claims (rdb db))"
  shows "mirrors (wfdb db) c" "closing_ok (advances (rdb db)) c" "chain_ok (wfdb db) c" "gates_inv (wfdb db)"
  using reimbursement.reach_inv [OF assms(1)] assms(2) by (auto simp: module_inv_def mirror_inv_def claims_sound_def)

lemma kind_chains: "definition_code (Some REIMBURSEMENT_KIND) = Inr DEFINITION_CODE" "definition_code (Some LIQUIDATION_KIND) = Inr LIQUIDATION_DEFINITION_CODE"
  "vocabulary (Some REIMBURSEMENT_KIND) = Inr REIMBURSEMENT" "vocabulary (Some LIQUIDATION_KIND) = Inr LIQUIDATION"
  by code_simp+

lemma vocabulary_kinds:
  assumes "vocabulary (Some k) = Inr v"
  shows "definition_code (Some k) = Inr DEFINITION_CODE \<and> v = REIMBURSEMENT \<or> definition_code (Some k) = Inr LIQUIDATION_DEFINITION_CODE \<and> v = LIQUIDATION"
  using assms by (auto simp: vocabulary_def VOCABULARIES_def definition_code_def DEFINITION_CODES_def REIMBURSEMENT_KIND_def LIQUIDATION_KIND_def
      split: if_splits option.splits)

text \<open>
  C6. Statuses are well typed as long as no call replays a stale event (\<open>stale_replay\<close>: an idempotency key used
  before, sent again after the instance moved on): in every state reached by such calls the status of a
  claim is a code of the vocabulary of its kind; a claim without an instance is a draft or cancelled, and
  the status of any other claim is the code of the state its workflow instance stands at.
\<close>

theorem claim_status_well_typed:
  assumes "reach module_init (module_step False) db" "c \<in> set (claims (rdb db))" "vocabulary (Some (cl_kind c)) = Inr v"
  shows "\<exists>s. cl_status c = Some s \<and> s \<in> set (vc_all_states v) \<and>
    (case cl_instance c of
       None \<Rightarrow> s = DRAFT \<or> s = CANCELLED
     | Some iid \<Rightarrow> \<exists>i st. get_instance (wfdb db) iid = Some i \<and> get_state (wfdb db) (in_state i) = Some st \<and> st_code st = s)"
proof (cases "cl_instance c")
  case None
  have "DRAFT \<in> set (vc_all_states v) \<and> CANCELLED \<in> set (vc_all_states v)"
    using vocabulary_kinds [OF assms(3)] by (elim disjE conjE) (simp, code_simp)+
  then show ?thesis using reached_claim(1) [OF assms(1,2)] None by (auto simp: mirrors_def)
next
  case (Some iid)
  then obtain s where s: "inst_code (wfdb db) iid = Some s" "cl_status c = Some s" using reached_claim(1) [OF assms(1,2)] by (auto simp: mirrors_def)
  obtain i code ver where i: "get_instance (wfdb db) iid = Some i" "definition_code (Some (cl_kind c)) = Inr code"
    "get_published_version (wfdb db) code = Some ver" "in_version i = ver_id ver"
    using reached_claim(3) [OF assms(1,2)] Some by (auto simp: chain_ok_def)
  have "vocab_inv (wfdb db) code (vc_all_states v)"
    using vocabulary_kinds [OF assms(3)] i(2) reached_claim(4) [OF assms(1,2)] by (auto simp: gates_inv_def)
  from vocab_code [OF this i(3,1,4) s(1)] show ?thesis using s i(1) Some by (auto simp: inst_code_def)
qed

theorem claim_status_well_typed_witness:
  "\<exists>d c. reach module_init (module_step False) d \<and> c \<in> set (claims (rdb d)) \<and> cl_status c = Some PAID_CLOSED \<and> PAID_CLOSED \<in> set (vc_all_states REIMBURSEMENT)"
proof -
  obtain d c where d: "reach module_init (module_step False) d" "c \<in> set (claims (rdb d))" "cl_kind c = REIMBURSEMENT_KIND" "cl_status c = Some PAID_CLOSED"
    by (rule paid_sample)
  from claim_status_well_typed [OF d(1,2), of REIMBURSEMENT] kind_chains(3) d show ?thesis by auto
qed

lemma closed_gate:
  assumes "reach module_init (module_step False) db" "c \<in> set (claims (rdb db))" "cl_status c = Some code" "code \<noteq> DRAFT" "code \<noteq> CANCELLED"
    "definition_code (Some (cl_kind c)) = Inr chain"
  obtains iid i and ver :: wf_version where "cl_instance c = Some iid" "get_instance (wfdb db) iid = Some i"
    "get_published_version (wfdb db) chain = Some ver \<and> in_version i = ver_id ver"
    "\<forall>gate C. (chain, gate, C) \<in> set GATES \<and> code \<notin> set C \<longrightarrow>
       (\<exists>G \<in> set (states (wfdb db)). st_version G = ver_id ver \<and> st_code G = gate \<and> approved_at (wfdb db) i (st_id G))"
proof -
  note r = reached_claim [OF assms(1,2)]
  obtain iid where iid: "cl_instance c = Some iid" "inst_code (wfdb db) iid = Some code"
    using r(1) assms(3-5) by (cases "cl_instance c") (auto simp: mirrors_def)
  obtain i ver where i: "get_instance (wfdb db) iid = Some i" "get_published_version (wfdb db) chain = Some ver" "in_version i = ver_id ver"
    using r(3) iid(1) assms(6) by (auto simp: chain_ok_def)
  have "gate_inv (wfdb db) chain gate C" if "(chain, gate, C) \<in> set GATES" for gate C using r(4) that by (auto simp: gates_inv_def)
  then show thesis using that [OF iid(1) i(1)] i(2,3) gate_passed [OF _ i(2,1,3) iid(2)] by blast
qed

text \<open>
  C1. No reimbursement is paid without its record as long as no call replays a stale event: in every state
  reached by calls whose idempotency key, if used before, was used for an event that led to the state the
  claim's instance stands at, a claim at \<open>paid_closed\<close> carries a payment reference, and its instance's log holds an approval of the division, of
  the admin review and of the hand-over to FMS on the published chain, a segregated gate not by the
  originator. A stale replay breaks this, see \<open>stale_replay_pays_unrecorded\<close>.
\<close>

theorem paid_claim_recorded_and_approved:
  assumes "reach module_init (module_step False) db" "c \<in> set (claims (rdb db))" "cl_kind c = REIMBURSEMENT_KIND" "cl_status c = Some PAID_CLOSED"
  shows "assert_payout_recorded c = Inr () \<and>
    (\<exists>iid i (ver :: wf_version). cl_instance c = Some iid \<and> get_instance (wfdb db) iid = Some i \<and>
      get_published_version (wfdb db) DEFINITION_CODE = Some ver \<and> in_version i = ver_id ver \<and>
      (\<forall>gate \<in> {DIVISION_APPROVAL, ADMIN_REVIEW, HANDED_TO_FMS}. \<exists>G \<in> set (states (wfdb db)).
         st_version G = ver_id ver \<and> st_code G = gate \<and> approved_at (wfdb db) i (st_id G)))"
proof -
  have "assert_payout_recorded c = Inr ()"
    using reached_claim(2) [OF assms(1,2)] assms(3,4) by (simp add: closing_ok_def CLOSED_def code_defs REIMBURSEMENT_KIND_def LIQUIDATION_KIND_def)
  moreover obtain iid i and ver :: wf_version where g: "cl_instance c = Some iid" "get_instance (wfdb db) iid = Some i"
    "get_published_version (wfdb db) DEFINITION_CODE = Some ver \<and> in_version i = ver_id ver"
    "\<forall>gate C. (DEFINITION_CODE, gate, C) \<in> set GATES \<and> PAID_CLOSED \<notin> set C \<longrightarrow>
       (\<exists>G \<in> set (states (wfdb db)). st_version G = ver_id ver \<and> st_code G = gate \<and> approved_at (wfdb db) i (st_id G))"
    by (rule closed_gate [OF assms(1,2,4)], simp_all only: assms(3) kind_chains) (simp_all add: code_defs)
  moreover have "\<forall>gate \<in> {DIVISION_APPROVAL, ADMIN_REVIEW, HANDED_TO_FMS}. \<exists>p \<in> set GATES. fst p = DEFINITION_CODE \<and> fst (snd p) = gate \<and> PAID_CLOSED \<notin> set (snd (snd p))"
    by code_simp
  then have "\<forall>gate \<in> {DIVISION_APPROVAL, ADMIN_REVIEW, HANDED_TO_FMS}. \<exists>G \<in> set (states (wfdb db)). st_version G = ver_id ver \<and> st_code G = gate \<and> approved_at (wfdb db) i (st_id G)"
    using g(4) by (metis prod.collapse)
  ultimately show ?thesis by blast
qed

theorem paid_claim_recorded_and_approved_witness:
  "\<exists>d c i (G :: wf_state). reach module_init (module_step False) d \<and> c \<in> set (claims (rdb d)) \<and> cl_status c = Some PAID_CLOSED \<and> st_code G = ADMIN_REVIEW \<and>
     approved_at (wfdb d) i (st_id G)"
proof -
  obtain d c where d: "reach module_init (module_step False) d" "c \<in> set (claims (rdb d))" "cl_kind c = REIMBURSEMENT_KIND" "cl_status c = Some PAID_CLOSED"
    by (rule paid_sample)
  from paid_claim_recorded_and_approved [OF d] obtain i where "\<exists>G \<in> set (states (wfdb d)). st_code G = ADMIN_REVIEW \<and> approved_at (wfdb d) i (st_id G)" by auto
  then show ?thesis using d by blast
qed

text \<open>
  C5. No liquidation is closed without its money as long as no call replays a stale event: in every state
  reached by calls whose idempotency key, if used before, was used for an event that
  led to the state the claim's instance stands at, a liquidation at \<open>settled\<close> is linked to an advance that is settled, and its log holds the certifications B
  and C and the hand-over to FMS.
\<close>

theorem settled_liquidation_backed:
  assumes "reach module_init (module_step False) db" "c \<in> set (claims (rdb db))" "cl_kind c = LIQUIDATION_KIND" "cl_status c = Some SETTLED"
  shows "(\<exists>k a. cl_cash_advance c = Some k \<and> find_advance (rdb db) k = Some a \<and> ca_st a = CaSettled) \<and>
    (\<exists>iid i (ver :: wf_version). cl_instance c = Some iid \<and> get_instance (wfdb db) iid = Some i \<and>
      get_published_version (wfdb db) LIQUIDATION_DEFINITION_CODE = Some ver \<and> in_version i = ver_id ver \<and>
      (\<forall>gate \<in> {CERTIFY_B, CERTIFY_C, HANDED_TO_FMS}. \<exists>G \<in> set (states (wfdb db)).
         st_version G = ver_id ver \<and> st_code G = gate \<and> approved_at (wfdb db) i (st_id G)))"
proof -
  have "\<exists>k a. cl_cash_advance c = Some k \<and> find_advance (rdb db) k = Some a \<and> ca_st a = CaSettled"
    using reached_claim(2) [OF assms(1,2)] assms(3,4) by (auto simp: closing_ok_def CLOSED_def adv_settled_def split: option.splits)
  moreover obtain iid i and ver :: wf_version where g: "cl_instance c = Some iid" "get_instance (wfdb db) iid = Some i"
    "get_published_version (wfdb db) LIQUIDATION_DEFINITION_CODE = Some ver \<and> in_version i = ver_id ver"
    "\<forall>gate C. (LIQUIDATION_DEFINITION_CODE, gate, C) \<in> set GATES \<and> SETTLED \<notin> set C \<longrightarrow>
       (\<exists>G \<in> set (states (wfdb db)). st_version G = ver_id ver \<and> st_code G = gate \<and> approved_at (wfdb db) i (st_id G))"
    by (rule closed_gate [OF assms(1,2,4)], simp_all only: assms(3) kind_chains) (simp_all add: code_defs)
  moreover have "\<forall>gate \<in> {CERTIFY_B, CERTIFY_C, HANDED_TO_FMS}. \<exists>p \<in> set GATES. fst p = LIQUIDATION_DEFINITION_CODE \<and> fst (snd p) = gate \<and> SETTLED \<notin> set (snd (snd p))"
    by code_simp
  then have "\<forall>gate \<in> {CERTIFY_B, CERTIFY_C, HANDED_TO_FMS}. \<exists>G \<in> set (states (wfdb db)). st_version G = ver_id ver \<and> st_code G = gate \<and> approved_at (wfdb db) i (st_id G)"
    using g(4) by (metis prod.collapse)
  ultimately show ?thesis by blast
qed

theorem settled_liquidation_backed_witness:
  "\<exists>d c i (G :: wf_state). reach module_init (module_step False) d \<and> c \<in> set (claims (rdb d)) \<and> cl_status c = Some SETTLED \<and> st_code G = CERTIFY_C \<and>
     approved_at (wfdb d) i (st_id G)"
proof -
  obtain d c where d: "reach module_init (module_step False) d" "c \<in> set (claims (rdb d))" "cl_kind c = LIQUIDATION_KIND" "cl_status c = Some SETTLED"
    by (rule settled_sample)
  from settled_liquidation_backed [OF d] obtain i where "\<exists>G \<in> set (states (wfdb d)). st_code G = CERTIFY_C \<and> approved_at (wfdb d) i (st_id G)" by auto
  then show ?thesis using d by blast
qed

text \<open>
  C10. An advance is liquidated once: whatever calls run, stale replays included, two liquidations linked to
  the same advance and not cancelled are the same row of the claims table. A replay that would bring a
  cancelled liquidation back beside its successor is refused by the unique index.
\<close>

theorem one_live_liquidation:
  assumes "reach module_init any_step db" "c \<in> set (claims (rdb db))" "d \<in> set (claims (rdb db))"
    "live_liquidation_of k c" "live_liquidation_of k d"
  shows "c = d"
proof -
  have inv: "index_inv (rdb db)" by (rule indexes.reach_inv [OF assms(1)])
  then have "cl_id c = cl_id d" using assms(2-5) unfolding index_inv_def one_live_def by blast
  then show ?thesis using inv assms(2,3) by (auto simp: index_inv_def distinct_map inj_on_def)
qed

theorem one_live_liquidation_witness:
  "\<exists>db. reach module_init any_step db \<and> length (claims (rdb db)) = 2 \<and> card {c \<in> set (claims (rdb db)). live_liquidation_of 1 c} = 1 \<and>
     claim_action db keyed_return ''t'' 105 = Inl IntegrityError"
proof -
  obtain db c1 c2 where d: "reach module_init any_step db" "claims (rdb db) = [c1, c2]" "cl_status c2 = Some DRAFT"
    "cl_kind c2 = LIQUIDATION_KIND" "cl_cash_advance c2 = Some 1" "claim_action db keyed_return ''t'' 105 = Inl IntegrityError"
    by (rule relinked_sample)
  have "live_liquidation_of 1 c2" using d by (simp add: live_liquidation_of_def code_defs)
  then have "{c \<in> set (claims (rdb db)). live_liquidation_of 1 c} = {c2}"
    using one_live_liquidation [OF d(1), of _ c2 1] d(2) by auto
  then show ?thesis using d by (intro exI [of _ db]) simp
qed

text \<open>
  C40. An explicit idempotency key can undo the mirror: an approval sent under a key, then a return, then the
  same approval sent again. The engine replays the first event and does not move, and the claim is set
  back to the state of that event: it reads \<open>admin_review\<close> while its instance stands at \<open>returned\<close>.
\<close>

theorem stale_replay_desynchronises:
  "\<exists>d c d'. reach module_init (module_step False) d \<and> claim_action d keyed_approval ''t'' 104 = Inr (c, d') \<and>
     cl_status c = Some ADMIN_REVIEW \<and> inst_code (wfdb d') 1 = Some RETURNED"
  by (rule replay_sample) blast


end
