(* ===== verification/Claim_Drafts.thy ===== *)
theory Claim_Drafts
  imports Claim_System
begin

text \<open>
  The wizard's writes to a claim its claimant still holds, \<open>services/drafts.py\<close>: the fields of the trip, the
  itinerary, the recomputation. A change of an input clears the totals; any change voids the frozen packet.
  The fields of a request keep their order; a value that was sent as null is \<open>None\<close>.
\<close>

section \<open>Fields\<close>

datatype draft_change =
    ActivityId "int option"
  | DpoNo "string option"
  | DpoDate "date option"
  | Purpose "string option"
  | Destination "string option"
  | RegionCode "string option"
  | DateDepart "date option"
  | DateReturn "date option"
  | Within50km "bool option"
  | OvernightStay "bool option"
  | FundSource "string option"
  | OtherTotal "decimal option"
  | OtherField string

fun field_of :: "draft_change \<Rightarrow> string" where
  "field_of (ActivityId v) = ''activity_id''"
| "field_of (DpoNo v) = ''dpo_no''"
| "field_of (DpoDate v) = ''dpo_date''"
| "field_of (Purpose v) = ''purpose''"
| "field_of (Destination v) = ''destination''"
| "field_of (RegionCode v) = ''destination_region_code''"
| "field_of (DateDepart v) = ''date_depart''"
| "field_of (DateReturn v) = ''date_return''"
| "field_of (Within50km v) = ''is_within_50km''"
| "field_of (OvernightStay v) = ''overnight_stay''"
| "field_of (FundSource v) = ''fund_source''"
| "field_of (OtherTotal v) = ''other_total''"
| "field_of (OtherField f) = f"

definition EDITABLE_FIELDS :: "string list" where
  "EDITABLE_FIELDS = [''activity_id'', ''dpo_no'', ''dpo_date'', ''purpose'', ''destination'', ''destination_region_code'', ''date_depart'',
     ''date_return'', ''is_within_50km'', ''overnight_stay'', ''fund_source'', ''other_total'']"

definition COMPUTE_INPUTS :: "string list" where
  "COMPUTE_INPUTS = [''date_depart'', ''date_return'', ''destination_region_code'', ''is_within_50km'', ''overnight_stay'', ''other_total'']"

definition NON_NULLABLE :: "string list" where
  "NON_NULLABLE = [''other_total'', ''is_within_50km'', ''overnight_stay'']"

definition EDITABLE_STATUSES :: "string list" where
  "EDITABLE_STATUSES = [DRAFT, RETURNED]"

fun null_value :: "draft_change \<Rightarrow> bool" where
  "null_value (ActivityId v) = (v = None)"
| "null_value (DpoNo v) = (v = None)"
| "null_value (DpoDate v) = (v = None)"
| "null_value (Purpose v) = (v = None)"
| "null_value (Destination v) = (v = None)"
| "null_value (RegionCode v) = (v = None)"
| "null_value (DateDepart v) = (v = None)"
| "null_value (DateReturn v) = (v = None)"
| "null_value (Within50km v) = (v = None)"
| "null_value (OvernightStay v) = (v = None)"
| "null_value (FundSource v) = (v = None)"
| "null_value (OtherTotal v) = (v = None)"
| "null_value (OtherField f) = False"

text \<open>The claim with the field set, or the refusal of the value.\<close>

fun with_field :: "reimb_db \<Rightarrow> claim \<Rightarrow> draft_change \<Rightarrow> claim res" where
  "with_field r c (ActivityId v) =
     (case v of None \<Rightarrow> Inr (c\<lparr>cl_activity := None\<rparr>)
      | Some i \<Rightarrow> if i \<in> set (activities r) then Inr (c\<lparr>cl_activity := Some i\<rparr>) else Inl unknown_activity)"
| "with_field r c (DpoNo v) = Inr (c\<lparr>cl_dpo_no := v\<rparr>)"
| "with_field r c (DpoDate v) = Inr (c\<lparr>cl_dpo_date := v\<rparr>)"
| "with_field r c (Purpose v) = Inr (c\<lparr>cl_purpose := v\<rparr>)"
| "with_field r c (Destination v) = Inr (c\<lparr>cl_destination := v\<rparr>)"
| "with_field r c (RegionCode v) = Inr (c\<lparr>cl_region := v\<rparr>)"
| "with_field r c (DateDepart v) = Inr (c\<lparr>cl_date_depart := v\<rparr>)"
| "with_field r c (DateReturn v) = Inr (c\<lparr>cl_date_return := v\<rparr>)"
| "with_field r c (Within50km v) = Inr (case v of None \<Rightarrow> c | Some b \<Rightarrow> c\<lparr>cl_within_50km := b\<rparr>)"
| "with_field r c (OvernightStay v) = Inr (case v of None \<Rightarrow> c | Some b \<Rightarrow> c\<lparr>cl_overnight := b\<rparr>)"
| "with_field r c (FundSource v) = Inr (c\<lparr>cl_fund_source := v\<rparr>)"
| "with_field r c (OtherTotal v) =
     (case v of None \<Rightarrow> Inr c
      | Some d \<Rightarrow> rbind (to_money d) (\<lambda>m. if m < 0 then Inl ValueError else Inr (c\<lparr>cl_other_total := m\<rparr>)))"
| "with_field r c (OtherField f) = Inl ValueError"

section \<open>Editing the trip\<close>

definition owned_editable_claim :: "oc_db \<Rightarrow> int \<Rightarrow> int \<Rightarrow> claim res" where
  "owned_editable_claim db k actor =
     rbind (locked_claim db k) (\<lambda>c.
       if \<not> is_claim_owner db c actor then Inl not_claim_owner
       else if status_or_draft c \<notin> set EDITABLE_STATUSES then Inl claim_not_editable
       else Inr c)"

text \<open>The claim so far, whether an input of the computation moved, and whether anything did.\<close>

definition apply_change :: "reimb_db \<Rightarrow> claim \<times> bool \<times> bool \<Rightarrow> draft_change \<Rightarrow> (claim \<times> bool \<times> bool) res" where
  "apply_change r s ch =
     (case s of (c, stale, changed) \<Rightarrow>
        if null_value ch \<and> field_of ch \<in> set NON_NULLABLE then Inr s
        else rbind (with_field r c ch) (\<lambda>c'.
          if c' = c then Inr s else Inr (c', stale \<or> field_of ch \<in> set COMPUTE_INPUTS, True)))"

fun apply_changes :: "reimb_db \<Rightarrow> claim \<times> bool \<times> bool \<Rightarrow> draft_change list \<Rightarrow> (claim \<times> bool \<times> bool) res" where
  "apply_changes r s [] = Inr s"
| "apply_changes r s (ch # chs) = rbind (apply_change r s ch) (\<lambda>s'. apply_changes r s' chs)"

definition dates_crossed :: "claim \<Rightarrow> bool" where
  "dates_crossed c = (case (cl_date_depart c, cl_date_return c) of (Some a, Some b) \<Rightarrow> b < a | _ \<Rightarrow> False)"

definition clear_totals :: "claim \<Rightarrow> claim" where
  "clear_totals c = (if json_truthy (cl_totals c) then c\<lparr>cl_totals := JObj []\<rparr> else c)"

definition update_draft_fields :: "oc_db \<Rightarrow> int \<Rightarrow> int \<Rightarrow> draft_change list \<Rightarrow> instant \<Rightarrow> (claim \<times> oc_db) res" where
  "update_draft_fields db k actor changes now =
     rbind (owned_editable_claim db k actor) (\<lambda>c.
       if \<exists>ch \<in> set changes. field_of ch \<notin> set EDITABLE_FIELDS then Inl ValueError
       else rbind (apply_changes (rdb db) (c, False, False) changes) (\<lambda>(c1, stale, changed).
         if dates_crossed c1 then Inl invalid_trip_dates
         else
           (let c2 = (if stale then clear_totals c1 else c1); db1 = put_claim db c2 in
            Inr (c2, if changed then invalidate_packet db1 c2 ''claim inputs changed'' (Some actor) now else db1))))"

section \<open>Replacing the itinerary\<close>

datatype leg_change =
    LegDate "date option"
  | LegPlace "string option"
  | LegRegion "string option"
  | LegDepart "string option"
  | LegArrive "string option"
  | LegMode "string option"
  | LegFare "decimal option"
  | LegLodging bool
  | LegMeals bool
  | LegOther string

fun leg_field :: "leg_change \<Rightarrow> string" where
  "leg_field (LegDate v) = ''leg_date''"
| "leg_field (LegPlace v) = ''place''"
| "leg_field (LegRegion v) = ''destination_region_code''"
| "leg_field (LegDepart v) = ''time_depart''"
| "leg_field (LegArrive v) = ''time_arrive''"
| "leg_field (LegMode v) = ''transport_mode''"
| "leg_field (LegFare v) = ''fare''"
| "leg_field (LegLodging v) = ''lodging_provided''"
| "leg_field (LegMeals v) = ''meals_provided''"
| "leg_field (LegOther f) = f"

definition LEG_FIELDS :: "string list" where
  "LEG_FIELDS = [''leg_date'', ''place'', ''destination_region_code'', ''time_depart'', ''time_arrive'', ''transport_mode'', ''fare'',
     ''lodging_provided'', ''meals_provided'']"

fun set_leg :: "leg \<Rightarrow> leg_change \<Rightarrow> leg res" where
  "set_leg l (LegDate v) = Inr (l\<lparr>lg_date := v\<rparr>)"
| "set_leg l (LegPlace v) = Inr (l\<lparr>lg_place := v\<rparr>)"
| "set_leg l (LegRegion v) = Inr (l\<lparr>lg_region := v\<rparr>)"
| "set_leg l (LegDepart v) = Inr (l\<lparr>lg_depart := v\<rparr>)"
| "set_leg l (LegArrive v) = Inr (l\<lparr>lg_arrive := v\<rparr>)"
| "set_leg l (LegMode v) = Inr (l\<lparr>lg_mode := v\<rparr>)"
| "set_leg l (LegFare v) =
     (case v of None \<Rightarrow> Inr (l\<lparr>lg_fare := None\<rparr>) | Some d \<Rightarrow> rbind (to_money d) (\<lambda>m. Inr (l\<lparr>lg_fare := Some m\<rparr>)))"
| "set_leg l (LegLodging b) = Inr (l\<lparr>lg_lodging := b\<rparr>)"
| "set_leg l (LegMeals b) = Inr (l\<lparr>lg_meals := b\<rparr>)"
| "set_leg l (LegOther f) = Inl ValueError"

fun set_legs :: "leg \<Rightarrow> leg_change list \<Rightarrow> leg res" where
  "set_legs l [] = Inr l"
| "set_legs l (f # fs) = rbind (set_leg l f) (\<lambda>l'. set_legs l' fs)"

record leg_body =
  lb_id :: "int option"
  lb_fields :: "leg_change list"

definition new_leg :: "int \<Rightarrow> int \<Rightarrow> leg" where
  "new_leg i k = \<lparr>lg_id = i, lg_claim = k, lg_seq = 0, lg_date = None, lg_place = None, lg_region = None, lg_depart = None, lg_arrive = None,
     lg_mode = None, lg_fare = None, lg_lodging = False, lg_meals = False, lg_pct = None, lg_amount = None, lg_total = None\<rparr>"

definition unpriced :: "int \<Rightarrow> leg \<Rightarrow> leg" where
  "unpriced pos l = l\<lparr>lg_seq := pos, lg_pct := None, lg_amount := None, lg_total := None\<rparr>"

text \<open>The rows the claim had, with their edits; the rows to insert; and the ids named so far.\<close>

record leg_edit =
  le_rows :: "leg list"
  le_new :: "leg list"
  le_kept :: "int list"

definition place_leg :: "int \<Rightarrow> int \<Rightarrow> leg_edit \<Rightarrow> int \<Rightarrow> leg_body \<Rightarrow> leg_edit res" where
  "place_leg k seq_id e pos b =
     (if \<exists>f \<in> set (lb_fields b). leg_field f \<notin> set LEG_FIELDS then Inl ValueError
      else (case lb_id b of
          Some i \<Rightarrow>
            (case row_get lg_id (le_rows e) i of
               None \<Rightarrow> Inl leg_unknown
             | Some l \<Rightarrow> rbind (set_legs l (lb_fields b)) (\<lambda>l'.
                 Inr (e\<lparr>le_rows := row_upd lg_id i (\<lambda>_. unpriced pos l') (le_rows e), le_kept := i # le_kept e\<rparr>)))
        | None \<Rightarrow> rbind (set_legs (new_leg (seq_id + int (length (le_new e)) + 1) k) (lb_fields b)) (\<lambda>l'.
                 Inr (e\<lparr>le_new := le_new e @ [unpriced pos l']\<rparr>))))"

fun place_legs :: "int \<Rightarrow> int \<Rightarrow> leg_edit \<Rightarrow> int \<Rightarrow> leg_body list \<Rightarrow> leg_edit res" where
  "place_legs k seq_id e pos [] = Inr e"
| "place_legs k seq_id e pos (b # bs) = rbind (place_leg k seq_id e pos b) (\<lambda>e'. place_legs k seq_id e' (pos + 1) bs)"

definition replace_legs :: "oc_db \<Rightarrow> int \<Rightarrow> int \<Rightarrow> leg_body list \<Rightarrow> instant \<Rightarrow> (claim \<times> oc_db) res" where
  "replace_legs db k actor bodies now =
     rbind (owned_editable_claim db k actor) (\<lambda>c.
       let r = rdb db; live = claim_legs r (cl_id c) in
       rbind (place_legs (cl_id c) (lg_seq_id r) \<lparr>le_rows = live, le_new = [], le_kept = []\<rparr> 1 bodies) (\<lambda>e.
         let rows = filter (\<lambda>l. lg_id l \<in> set (le_kept e)) (le_rows e) @ le_new e;
             r1 = r\<lparr>legs := filter (\<lambda>l. lg_claim l \<noteq> cl_id c) (legs r) @ rows, lg_seq_id := lg_seq_id r + int (length (le_new e))\<rparr>;
             c1 = clear_totals c; db1 = put_claim (db\<lparr>rdb := r1\<rparr>) c1 in
         Inr (c1, invalidate_packet db1 c1 ''claim inputs changed'' (Some actor) now)))"

definition recompute_totals :: "oc_db \<Rightarrow> int \<Rightarrow> int \<Rightarrow> string \<Rightarrow> (claim \<times> oc_db) res" where
  "recompute_totals db k actor stamp = rbind (owned_editable_claim db k actor) (\<lambda>c. price_claim db (cl_id c) stamp)"

section \<open>What an edit leaves alone\<close>

text \<open>The columns that belong to the lifecycle.\<close>

definition lifecycle_columns :: "claim \<Rightarrow> (int \<times> string \<times> int) \<times> int option \<times> string option \<times> string option \<times> string option \<times> int option \<times> instant option \<times> string option \<times> int option \<times> string option" where
  "lifecycle_columns c = ((cl_id c, cl_kind c, cl_claimant c), cl_instance c, cl_ref_no c, cl_status c, cl_holder_kind c, cl_holder c, cl_holder_since c, cl_next_action c,
     cl_cash_advance c, cl_payout_ref c)"

text \<open>What the computation reads of a claim.\<close>

definition inputs_of :: "claim \<Rightarrow> date option \<times> date option \<times> string option \<times> bool \<times> bool \<times> int" where
  "inputs_of c = (cl_date_depart c, cl_date_return c, cl_region c, cl_within_50km c, cl_overnight c, cl_other_total c)"

lemma lifecycle_core: "lifecycle_columns c' = lifecycle_columns c \<Longrightarrow> core c' = core c \<and> cl_id c' = cl_id c"
  by (simp add: lifecycle_columns_def core_def)

lemma with_field_same:
  assumes "with_field r c ch = Inr c'"
  shows "lifecycle_columns c' = lifecycle_columns c" "cl_totals c' = cl_totals c" "field_of ch \<notin> set COMPUTE_INPUTS \<Longrightarrow> inputs_of c' = inputs_of c"
  using assms by (cases ch; auto simp: lifecycle_columns_def inputs_of_def COMPUTE_INPUTS_def rbind_eq_Inr split: option.splits if_splits)+

lemma apply_change_same:
  assumes "apply_change r (c, stale, changed) ch = Inr (c', stale', changed')"
  shows "lifecycle_columns c' = lifecycle_columns c \<and> cl_totals c' = cl_totals c \<and> (stale \<longrightarrow> stale') \<and> (changed \<longrightarrow> changed') \<and>
    (\<not> stale' \<longrightarrow> inputs_of c' = inputs_of c) \<and> (\<not> changed' \<longrightarrow> c' = c) \<and> (stale' \<longrightarrow> stale \<or> changed')"
  using assms with_field_same [of r c ch c'] by (auto simp: apply_change_def rbind_eq_Inr split: if_splits)

lemma apply_changes_same:
  "apply_changes r (c, stale, changed) chs = Inr (c', stale', changed') \<Longrightarrow>
     lifecycle_columns c' = lifecycle_columns c \<and> cl_totals c' = cl_totals c \<and> (stale \<longrightarrow> stale') \<and> (changed \<longrightarrow> changed') \<and>
    (\<not> stale' \<longrightarrow> inputs_of c' = inputs_of c) \<and> (\<not> changed' \<longrightarrow> c' = c) \<and> (stale' \<longrightarrow> stale \<or> changed')"
proof (induction chs arbitrary: c stale changed)
  case (Cons ch chs)
  then obtain c1 stale1 changed1 where s: "apply_change r (c, stale, changed) ch = Inr (c1, stale1, changed1)"
    "apply_changes r (c1, stale1, changed1) chs = Inr (c', stale', changed')" by (auto simp: rbind_eq_Inr)
  show ?case using apply_change_same [OF s(1)] Cons.IH [OF s(2)] by auto
qed simp

lemma clear_totals_same [simp]: "lifecycle_columns (clear_totals c) = lifecycle_columns c" "\<not> json_truthy (cl_totals (clear_totals c))"
  by (simp_all add: clear_totals_def lifecycle_columns_def)

lemma owned_editable_Inr:
  "owned_editable_claim db k actor = Inr c \<longleftrightarrow> get_claim (rdb db) k = Some c \<and> is_claim_owner db c actor \<and> status_or_draft c \<in> set EDITABLE_STATUSES"
  by (auto simp: owned_editable_claim_def rbind_eq_Inr locked_claim_Inr)

lemma update_draft_cases:
  assumes "update_draft_fields db k actor changes now = Inr (c', db')"
  obtains c c1 stale changed where "owned_editable_claim db k actor = Inr c" "apply_changes (rdb db) (c, False, False) changes = Inr (c1, stale, changed)"
    "\<not> dates_crossed c1" "c' = (if stale then clear_totals c1 else c1)"
    "db' = (if changed then invalidate_packet (put_claim db c') c' ''claim inputs changed'' (Some actor) now else put_claim db c')"
proof -
  obtain c where c: "owned_editable_claim db k actor = Inr c" using assms by (auto simp: update_draft_fields_def rbind_eq_Inr)
  obtain c1 stale changed where a: "apply_changes (rdb db) (c, False, False) changes = Inr (c1, stale, changed)"
    using assms c by (auto simp: update_draft_fields_def rbind_eq_Inr split: if_splits)
  show thesis using assms by (intro that [OF c a]) (auto simp: update_draft_fields_def c a Let_def split: if_splits)
qed

lemma set_legs_claim: "set_legs l fs = Inr l' \<Longrightarrow> lg_claim l' = lg_claim l"
proof (induction fs arbitrary: l)
  case (Cons f fs)
  then obtain l1 where "set_leg l f = Inr l1" "set_legs l1 fs = Inr l'" by (auto simp: rbind_eq_Inr)
  moreover from this have "lg_claim l1 = lg_claim l" by (cases f) (auto simp: rbind_eq_Inr split: option.splits)
  ultimately show ?case using Cons.IH by simp
qed simp

lemma place_leg_claim:
  assumes "place_leg k s e pos b = Inr e'" "\<forall>l \<in> set (le_rows e) \<union> set (le_new e). lg_claim l = k"
  shows "\<forall>l \<in> set (le_rows e') \<union> set (le_new e'). lg_claim l = k"
proof (cases "lb_id b")
  case None
  then obtain l' where "set_legs (new_leg (s + int (length (le_new e)) + 1) k) (lb_fields b) = Inr l'" "e' = e\<lparr>le_new := le_new e @ [unpriced pos l']\<rparr>"
    using assms(1) by (auto simp: place_leg_def rbind_eq_Inr split: if_splits)
  then show ?thesis using assms(2) set_legs_claim [of "new_leg (s + int (length (le_new e)) + 1) k"] by (auto simp: unpriced_def new_leg_def)
next
  case (Some i)
  then obtain l l' where "row_get lg_id (le_rows e) i = Some l" "set_legs l (lb_fields b) = Inr l'"
    "e' = e\<lparr>le_rows := row_upd lg_id i (\<lambda>_. unpriced pos l') (le_rows e), le_kept := i # le_kept e\<rparr>"
    using assms(1) by (auto simp: place_leg_def rbind_eq_Inr split: if_splits option.splits)
  moreover from this have "lg_claim l' = k" using assms(2) set_legs_claim [of l] row_get_Some [of lg_id "le_rows e" i l] by auto
  ultimately show ?thesis using assms(2) by (auto simp: row_upd_def unpriced_def)
qed

lemma place_legs_claim:
  "place_legs k s e pos bs = Inr e' \<Longrightarrow> \<forall>l \<in> set (le_rows e) \<union> set (le_new e). lg_claim l = k \<Longrightarrow>
     \<forall>l \<in> set (le_rows e') \<union> set (le_new e'). lg_claim l = k"
proof (induction bs arbitrary: e pos)
  case (Cons b bs)
  then obtain e1 where e1: "place_leg k s e pos b = Inr e1" "place_legs k s e1 (pos + 1) bs = Inr e'" by (auto simp: rbind_eq_Inr)
  show ?case by (rule Cons.IH [OF e1(2) place_leg_claim [OF e1(1) Cons.prems(2)]])
qed simp

lemma replace_legs_cases:
  assumes "replace_legs db k actor bodies now = Inr (c', db')"
  obtains c rows n where "owned_editable_claim db k actor = Inr c" "c' = clear_totals c" "\<forall>l \<in> set rows. lg_claim l = cl_id c"
    "db' = invalidate_packet (put_claim (db\<lparr>rdb := (rdb db)\<lparr>legs := filter (\<lambda>l. lg_claim l \<noteq> cl_id c) (legs (rdb db)) @ rows, lg_seq_id := n\<rparr>\<rparr>) c') c'
       ''claim inputs changed'' (Some actor) now"
proof -
  obtain c where c: "owned_editable_claim db k actor = Inr c" using assms by (auto simp: replace_legs_def rbind_eq_Inr)
  obtain e where e: "place_legs (cl_id c) (lg_seq_id (rdb db)) \<lparr>le_rows = claim_legs (rdb db) (cl_id c), le_new = [], le_kept = []\<rparr> 1 bodies = Inr e"
    using assms c by (auto simp: replace_legs_def rbind_eq_Inr Let_def)
  have "\<forall>l \<in> set (le_rows e) \<union> set (le_new e). lg_claim l = cl_id c" by (rule place_legs_claim [OF e]) (simp add: claim_legs_def)
  then have l: "\<forall>l \<in> set (filter (\<lambda>l. lg_id l \<in> set (le_kept e)) (le_rows e) @ le_new e). lg_claim l = cl_id c" by auto
  show thesis using assms by (intro that [OF c _ l]) (auto simp: replace_legs_def c e Let_def)
qed

section \<open>Properties\<close>

text \<open>The snapshot on the claim is the one its inputs give.\<close>

definition money_current :: "reimb_db \<Rightarrow> claim \<Rightarrow> bool" where
  "money_current r c = (json_truthy (cl_totals c) \<longrightarrow>
     (\<exists>pd stamp. compute_per_diem (claim_input r c) = Inr pd \<and> priced_claim c pd (cl_other_total c) (claim_advance r c) stamp = c))"

lemma money_current_cong:
  assumes "money_current r c" "inputs_of c' = inputs_of c" "cl_id c' = cl_id c" "cl_cash_advance c' = cl_cash_advance c" "cl_totals c' = cl_totals c"
    "claim_input r' c = claim_input r c" "claim_advance r' c = claim_advance r c"
  shows "money_current r' c'"
proof -
  have "claim_input r' c' = claim_input r' c" using assms(2,3) by (simp add: claim_input_def inputs_of_def)
  then have i: "claim_input r' c' = claim_input r c" using assms(6) by simp
  have a: "claim_advance r' c' = claim_advance r c" using assms(4,7) by (simp add: claim_advance_def)
  have o: "cl_other_total c' = cl_other_total c" using assms(2) by (simp add: inputs_of_def)
  have p: "priced_claim x pd oth adv stamp = x \<longleftrightarrow> cl_other_total x = oth \<and> cl_totals x = totals_json pd oth (pr_per_diem pd + pr_transport pd + oth) adv
      (fst (settle (pr_per_diem pd + pr_transport pd + oth) adv)) (snd (settle (pr_per_diem pd + pr_transport pd + oth) adv)) stamp" for x :: claim and pd oth adv stamp
    by (cases x) (auto simp: priced_claim_def Let_def)
  show ?thesis using assms(1) unfolding money_current_def i a o p assms(5) by blast
qed

lemma claim_tables_same:
  assumes "filter (\<lambda>l. lg_claim l = cl_id c) (legs r') = filter (\<lambda>l. lg_claim l = cl_id c) (legs r)" "regions r' = regions r" "rates r' = rates r" "configs r' = configs r"
    "advances r' = advances r"
  shows "claim_input r' c = claim_input r c" "claim_advance r' c = claim_advance r c"
  using assms by (simp_all add: claim_input_def claim_legs_def claim_advance_def split: option.split)

lemma put_claim_get: "get_claim (rdb db) (cl_id c) = Some c0 \<Longrightarrow> get_claim (rdb (put_claim db c)) j = (if j = cl_id c then Some c else get_claim (rdb db) j)"
  by (simp add: put_claim_def row_get_upd)

lemma invalidate_fields [simp]: "rdb (invalidate_packet db c reason actor now) = rdb db" "wfdb (invalidate_packet db c reason actor now) = wfdb db"
  by (simp_all add: invalidate_packet_def)

lemma put_claim_tables [simp]:
  "legs (rdb (put_claim db c)) = legs (rdb db)" "regions (rdb (put_claim db c)) = regions (rdb db)" "rates (rdb (put_claim db c)) = rates (rdb db)"
  "configs (rdb (put_claim db c)) = configs (rdb db)" "advances (rdb (put_claim db c)) = advances (rdb db)"
  by (simp_all add: put_claim_def)

lemma put_claim_inputs [simp]:
  "claim_input (rdb (put_claim db c)) x = claim_input (rdb db) x" "claim_advance (rdb (put_claim db c)) x = claim_advance (rdb db) x"
  by (rule claim_tables_same; simp)+

lemma update_keeps_money:
  assumes run: "update_draft_fields db k actor changes now = Inr (c', db')"
    and old: "\<forall>c0. get_claim (rdb db) j = Some c0 \<longrightarrow> money_current (rdb db) c0" and new: "get_claim (rdb db') j = Some d"
  shows "money_current (rdb db') d"
proof -
  from run obtain c c1 stale changed where u: "owned_editable_claim db k actor = Inr c" "apply_changes (rdb db) (c, False, False) changes = Inr (c1, stale, changed)"
    "c' = (if stale then clear_totals c1 else c1)"
    "db' = (if changed then invalidate_packet (put_claim db c') c' ''claim inputs changed'' (Some actor) now else put_claim db c')"
    by (rule update_draft_cases)
  have g: "get_claim (rdb db) k = Some c" and id: "cl_id c = k" using u(1) by (auto simp: owned_editable_Inr)
  note same = apply_changes_same [OF u(2)]
  have l: "lifecycle_columns c' = lifecycle_columns c" using same by (simp add: u(3))
  then have id': "cl_id c' = k" using id by (simp add: lifecycle_columns_def)
  have r: "rdb db' = rdb (put_claim db c')" by (simp add: u(4))
  show ?thesis
  proof (cases "j = k")
    case True
    then have d: "d = c'" using new put_claim_get [of db c' c] g id' by (simp add: r)
    show ?thesis
    proof (cases stale)
      case True
      then show ?thesis by (simp add: d u(3) money_current_def)
    next
      case False
      have "money_current (rdb db) c" using old g \<open>j = k\<close> by simp
      then show ?thesis unfolding d r
        by (rule money_current_cong) (use False same l in \<open>simp_all add: u(3) lifecycle_columns_def\<close>)
    qed
  next
    case False
    then have "get_claim (rdb db) j = Some d" using new put_claim_get [of db c' c] g id' by (simp add: r)
    then have "money_current (rdb db) d" using old by simp
    then show ?thesis unfolding r by (rule money_current_cong) simp_all
  qed
qed

lemma replace_keeps_money:
  assumes run: "replace_legs db k actor bodies now = Inr (c', db')"
    and old: "\<forall>c0. get_claim (rdb db) j = Some c0 \<longrightarrow> money_current (rdb db) c0" and new: "get_claim (rdb db') j = Some d"
  shows "money_current (rdb db') d"
proof -
  from run obtain c rows n where u: "owned_editable_claim db k actor = Inr c" "c' = clear_totals c" "\<forall>l \<in> set rows. lg_claim l = cl_id c"
    "db' = invalidate_packet (put_claim (db\<lparr>rdb := (rdb db)\<lparr>legs := filter (\<lambda>l. lg_claim l \<noteq> cl_id c) (legs (rdb db)) @ rows, lg_seq_id := n\<rparr>\<rparr>) c') c'
       ''claim inputs changed'' (Some actor) now"
    by (rule replace_legs_cases)
  let ?db1 = "db\<lparr>rdb := (rdb db)\<lparr>legs := filter (\<lambda>l. lg_claim l \<noteq> cl_id c) (legs (rdb db)) @ rows, lg_seq_id := n\<rparr>\<rparr>"
  have g: "get_claim (rdb db) k = Some c" and id: "cl_id c = k" using u(1) by (auto simp: owned_editable_Inr)
  have id': "cl_id c' = k" using id clear_totals_same(1) [of c] by (simp add: u(2) lifecycle_columns_def)
  have r: "rdb db' = rdb (put_claim ?db1 c')" by (simp add: u(4))
  have get: "get_claim (rdb db') j = (if j = k then Some c' else get_claim (rdb db) j)"
    using put_claim_get [of ?db1 c' c] g id' by (simp add: r)
  show ?thesis
  proof (cases "j = k")
    case True
    then have "d = c'" using new get by simp
    then show ?thesis by (simp add: u(2) money_current_def)
  next
    case False
    then have d: "get_claim (rdb db) j = Some d" using new get by simp
    have id_d: "cl_id d = j" using d by auto
    have f: "filter (\<lambda>l. lg_claim l = cl_id d) (legs (rdb (put_claim ?db1 c'))) = filter (\<lambda>l. lg_claim l = cl_id d) (legs (rdb db))"
      using u(3) False id id_d by (auto simp: filter_empty_conv intro: filter_cong)
    have i: "claim_input (rdb (put_claim ?db1 c')) d = claim_input (rdb db) d" "claim_advance (rdb (put_claim ?db1 c')) d = claim_advance (rdb db) d"
      by (rule claim_tables_same [OF f]; simp)+
    have "money_current (rdb db) d" using old d by simp
    then show ?thesis unfolding r by (rule money_current_cong [OF _ refl refl refl refl i])
  qed
qed

lemma recompute_keeps_money:
  assumes run: "recompute_totals db k actor stamp = Inr (c', db')"
    and old: "\<forall>c0. get_claim (rdb db) j = Some c0 \<longrightarrow> money_current (rdb db) c0" and new: "get_claim (rdb db') j = Some d"
  shows "money_current (rdb db') d"
proof -
  obtain c where "owned_editable_claim db k actor = Inr c" "price_claim db (cl_id c) stamp = Inr (c', db')"
    using run by (auto simp: recompute_totals_def rbind_eq_Inr)
  then have g: "get_claim (rdb db) k = Some c" and id: "cl_id c = k" and p: "price_claim db k stamp = Inr (c', db')" by (auto simp: owned_editable_Inr)
  obtain pd r where r: "compute_claim_totals (rdb db) k None stamp = Inr (pd, r)" "db' = db\<lparr>rdb := r\<rparr>"
    using p by (auto simp: price_claim_def rbind_eq_Inr)
  have pd: "compute_per_diem (claim_input (rdb db) c) = Inr pd"
    "r = (rdb db)\<lparr>legs := map (\<lambda>l. if lg_claim l = k then write_leg pd l else l) (legs (rdb db)),
       claims := row_upd cl_id k (\<lambda>_. priced_claim c pd (cl_other_total c) (claim_advance (rdb db) c) stamp) (claims (rdb db))\<rparr>"
    using r(1) by (auto simp: compute_claim_totals_def g rbind_eq_Inr)
  have get: "get_claim r j = (if j = k then Some (priced_claim c pd (cl_other_total c) (claim_advance (rdb db) c) stamp) else get_claim (rdb db) j)"
    using g id by (simp add: pd(2) row_get_upd)
  have tables: "claim_input r x = claim_input (rdb db) x" "claim_advance r x = claim_advance (rdb db) x" for x
  proof -
    show "claim_input r x = claim_input (rdb db) x" unfolding claim_input_def pd(2) using claim_legs_written by simp
    show "claim_advance r x = claim_advance (rdb db) x" by (simp add: claim_advance_def pd(2) split: option.split)
  qed
  show ?thesis
  proof (cases "j = k")
    case True
    then have d: "d = priced_claim c pd (cl_other_total c) (claim_advance (rdb db) c) stamp" using new get by (simp add: r(2))
    have "claim_input r d = claim_input (rdb db) c" unfolding tables(1) by (simp add: d claim_input_def priced_claim_def Let_def)
    moreover have "claim_advance r d = claim_advance (rdb db) c" unfolding tables(2) by (simp add: d claim_advance_def priced_claim_def Let_def)
    moreover have "priced_claim d pd (cl_other_total d) (claim_advance (rdb db) c) stamp = d" by (simp add: d priced_claim_again)
    ultimately show ?thesis using pd(1) by (auto simp: money_current_def r(2))
  next
    case False
    then have "money_current (rdb db) d" using new get old by (simp add: r(2))
    then show ?thesis by (simp add: money_current_def r(2) tables)
  qed
qed

text \<open>
  C24. Stale money never survives an edit: if the totals stored on a claim were the ones its inputs give, or none, they
  still are after any of the three calls, on this claim and on every other.
\<close>

theorem draft_edits_keep_money_current:
  assumes "update_draft_fields db k actor changes now = Inr (c', db') \<or> replace_legs db k actor bodies now = Inr (c', db') \<or>
      recompute_totals db k actor stamp = Inr (c', db')"
    "\<forall>c0. get_claim (rdb db) j = Some c0 \<longrightarrow> money_current (rdb db) c0" "get_claim (rdb db') j = Some d"
  shows "money_current (rdb db') d"
  using assms(1) by (elim disjE) (rule update_keeps_money [OF _ assms(2,3)] replace_keeps_money [OF _ assms(2,3)] recompute_keeps_money [OF _ assms(2,3)], assumption)+


definition draft_db :: oc_db where
  "draft_db = packet_sample\<lparr>wfdb := empty_wf_db (sample_auth\<lparr>users := [\<lparr>user_id = 9, user_is_active = True, user_staff = Some 5, user_email = ''e''\<rparr>]\<rparr>),
     rdb := sample_unpriced\<rparr>"

lemma draft_db_owned: "owned_editable_claim draft_db 1 9 = Inr sample_claim"
  by code_simp

lemma draft_db_recomputed: "\<exists>c db'. recompute_totals draft_db 1 9 ''t'' = Inr (c, db') \<and> get_claim (rdb db') 1 = Some c \<and> json_truthy (cl_totals c)"
proof -
  have inp: "claim_input sample_unpriced sample_claim = sample_trip" and get: "get_claim sample_unpriced 1 = Some sample_claim" by code_simp+
  have r: "rdb draft_db = sample_unpriced" by (simp add: draft_db_def)
  obtain r' where c: "compute_claim_totals sample_unpriced 1 None ''t'' = Inr (sample_pd, r')"
    unfolding compute_claim_totals_def get option.case inp sample_pd_ok rbind.simps by simp
  then obtain c where g: "get_claim r' 1 = Some c" "json_truthy (cl_totals c)"
    using priced_claim_stored [OF c] by (auto simp: priced_claim_def Let_def totals_json_def)
  then show ?thesis by (simp add: recompute_totals_def draft_db_owned price_claim_def r c locked_claim_def)
qed

theorem draft_edits_keep_money_current_witness:
  "\<exists>c db'. recompute_totals draft_db 1 9 ''t'' = Inr (c, db') \<and> json_truthy (cl_totals c) \<and> money_current (rdb db') c"
proof -
  obtain c db' where r: "recompute_totals draft_db 1 9 ''t'' = Inr (c, db')" "get_claim (rdb db') 1 = Some c" "json_truthy (cl_totals c)" using draft_db_recomputed by blast
  have "\<forall>c0. get_claim (rdb draft_db) 1 = Some c0 \<longrightarrow> money_current (rdb draft_db) c0"
    by (simp add: draft_db_def sample_unpriced_def sample_claim_def money_current_def)
  from draft_edits_keep_money_current [OF disjI2 [OF disjI2 [OF r(1)]] this r(2)] show ?thesis using r by blast
qed

lemma put_same_core:
  assumes "get_claim (rdb db) (cl_id c') = Some c" "core c' = core c" "distinct (map cl_id (claims (rdb db)))"
  shows "map core (claims (rdb (put_claim db c'))) = map core (claims (rdb db))"
  using replace_same_core [OF assms] by (simp add: put_claim_def replace_claim_def)

lemma edit_closes:
  assumes own: "owned_editable_claim db k actor = Inr c" and d: "distinct (map cl_id (claims (rdb db)))" and l: "lifecycle_columns c' = lifecycle_columns c"
    and r: "rdb db' = (rdb (put_claim db c'))\<lparr>legs := ls, lg_seq_id := n\<rparr>" and w: "wfdb db' = wfdb db"
    and v: "c' = c \<or> active_snapshots collation (sdb db') HOLDER_KIND (cl_id c') = []"
  shows "\<exists>c. get_claim (rdb db) k = Some c \<and> is_claim_owner db c actor \<and> status_or_draft c \<in> {DRAFT, RETURNED} \<and>
    lifecycle_columns c' = lifecycle_columns c \<and> get_claim (rdb db') k = Some c' \<and> (\<forall>j. j \<noteq> k \<longrightarrow> get_claim (rdb db') j = get_claim (rdb db) j) \<and>
    untouched db db' \<and> (c' = c \<or> active_snapshots collation (sdb db') HOLDER_KIND k = [])"
proof -
  have g: "get_claim (rdb db) k = Some c" "is_claim_owner db c actor" "status_or_draft c \<in> {DRAFT, RETURNED}"
    using own by (auto simp: owned_editable_Inr EDITABLE_STATUSES_def)
  have id: "cl_id c = k" "cl_id c' = k" "core c' = core c" using g(1) lifecycle_core [OF l] by auto
  have get: "get_claim (rdb db') j = (if j = k then Some c' else get_claim (rdb db) j)" for j using put_claim_get [of db c' c j] g(1) by (simp add: r id)
  have "map core (claims (rdb db')) = map core (claims (rdb db))" using put_same_core [of db c' c] g(1) id d by (simp add: r)
  then have "untouched db db'" by (simp add: untouched_def w r put_claim_def ca_tables_def)
  then show ?thesis using g l get v id by auto
qed

lemma update_effect:
  assumes "update_draft_fields db k actor changes now = Inr (c', db')" "distinct (map cl_id (claims (rdb db)))"
  shows "\<exists>c. get_claim (rdb db) k = Some c \<and> is_claim_owner db c actor \<and> status_or_draft c \<in> {DRAFT, RETURNED} \<and>
    lifecycle_columns c' = lifecycle_columns c \<and> get_claim (rdb db') k = Some c' \<and> (\<forall>j. j \<noteq> k \<longrightarrow> get_claim (rdb db') j = get_claim (rdb db) j) \<and>
    untouched db db' \<and> (c' = c \<or> active_snapshots collation (sdb db') HOLDER_KIND k = [])"
proof -
  from assms(1) obtain c c1 stale changed where u: "owned_editable_claim db k actor = Inr c" "apply_changes (rdb db) (c, False, False) changes = Inr (c1, stale, changed)"
    "c' = (if stale then clear_totals c1 else c1)"
    "db' = (if changed then invalidate_packet (put_claim db c') c' ''claim inputs changed'' (Some actor) now else put_claim db c')"
    by (rule update_draft_cases)
  note same = apply_changes_same [OF u(2)]
  show ?thesis
    by (rule edit_closes [OF u(1) assms(2), where ls = "legs (rdb db)" and n = "lg_seq_id (rdb db)"])
      (use same in \<open>auto simp: u(3,4) put_claim_def invalidate_packet_def void_all_active\<close>)
qed

lemma replace_effect:
  assumes "replace_legs db k actor bodies now = Inr (c', db')" "distinct (map cl_id (claims (rdb db)))"
  shows "\<exists>c. get_claim (rdb db) k = Some c \<and> is_claim_owner db c actor \<and> status_or_draft c \<in> {DRAFT, RETURNED} \<and>
    lifecycle_columns c' = lifecycle_columns c \<and> get_claim (rdb db') k = Some c' \<and> (\<forall>j. j \<noteq> k \<longrightarrow> get_claim (rdb db') j = get_claim (rdb db) j) \<and>
    untouched db db' \<and> (c' = c \<or> active_snapshots collation (sdb db') HOLDER_KIND k = [])"
proof -
  from assms(1) obtain c rows n where u: "owned_editable_claim db k actor = Inr c" "c' = clear_totals c"
    "db' = invalidate_packet (put_claim (db\<lparr>rdb := (rdb db)\<lparr>legs := filter (\<lambda>l. lg_claim l \<noteq> cl_id c) (legs (rdb db)) @ rows, lg_seq_id := n\<rparr>\<rparr>) c') c'
       ''claim inputs changed'' (Some actor) now"
    by (rule replace_legs_cases)
  show ?thesis
    by (rule edit_closes [OF u(1) assms(2), where ls = "filter (\<lambda>l. lg_claim l \<noteq> cl_id c) (legs (rdb db)) @ rows" and n = n])
      (auto simp: u(2,3) put_claim_def invalidate_packet_def void_all_active)
qed

text \<open>
  An edit stays in its bounds: it takes the claimant and a claim still in the claimant's hands; the columns of the
  lifecycle, the workflow, the advances and every other claim stay as they are; and if the claim is not what it was, no frozen
  copy of it is official any more.
\<close>

theorem draft_edit_contained:
  assumes "update_draft_fields db k actor changes now = Inr (c', db') \<or> replace_legs db k actor bodies now = Inr (c', db')"
    "distinct (map cl_id (claims (rdb db)))"
  shows "\<exists>c. get_claim (rdb db) k = Some c \<and> is_claim_owner db c actor \<and> status_or_draft c \<in> {DRAFT, RETURNED} \<and>
    lifecycle_columns c' = lifecycle_columns c \<and> get_claim (rdb db') k = Some c' \<and> (\<forall>j. j \<noteq> k \<longrightarrow> get_claim (rdb db') j = get_claim (rdb db) j) \<and>
    untouched db db' \<and> (c' = c \<or> active_snapshots collation (sdb db') HOLDER_KIND k = [])"
  using assms(1) by (elim disjE) (rule update_effect [OF _ assms(2)] replace_effect [OF _ assms(2)], assumption)+

theorem draft_edit_contained_witness:
  "\<exists>c db'. update_draft_fields draft_db 1 9 [DateReturn (Some 101), OvernightStay None] 20 = Inr (c, db') \<and> cl_date_return c = Some 101 \<and>
     active_snapshots id (sdb db') HOLDER_KIND 1 = []"
proof -
  have "map_sum (\<lambda>_. ()) (\<lambda>(c, db). cl_date_return c) (update_draft_fields draft_db 1 9 [DateReturn (Some 101), OvernightStay None] 20) = Inr (Some 101)" by code_simp
  then obtain c db' where u: "update_draft_fields draft_db 1 9 [DateReturn (Some 101), OvernightStay None] 20 = Inr (c, db')" "cl_date_return c = Some 101"
    by (cases "update_draft_fields draft_db 1 9 [DateReturn (Some 101), OvernightStay None] 20") auto
  have "get_claim (rdb draft_db) 1 = Some sample_claim" "distinct (map cl_id (claims (rdb draft_db)))" "cl_date_return sample_claim = Some 102" by code_simp+
  with draft_edit_contained [OF disjI1 [OF u(1)], where collation = id] u show ?thesis by auto
qed

text \<open>The three calls keep the invariant of the module.\<close>

lemma draft_edit_module:
  assumes "update_draft_fields db k actor changes now = Inr (c', db') \<or> replace_legs db k actor bodies now = Inr (c', db') \<or>
      recompute_totals db k actor stamp = Inr (c', db')" "module_inv db"
  shows "module_inv db'"
proof -
  have d: "distinct (map cl_id (claims (rdb db)))" using assms(2) by (rule module_ids)
  have "untouched db db'"
    using assms(1) update_effect [OF _ d] replace_effect [OF _ d] price_untouched(1) [OF _ d] unfolding recompute_totals_def rbind_eq_Inr by blast
  then show ?thesis using assms(2) by (rule untouched_module)
qed

end
