(* ===== verification/Claim_Actions.thy ===== *)
theory Claim_Actions
  imports Claim_Drafts
begin

text \<open>
  What may this actor do with a claim, and how late is it: the read model of the approval screen,
  \<open>services/actions.py\<close>. The verbs are the engine's actions where there is an instance, without the ones
  certain to fail, and the module's own verbs; the badge comes from the active steps.
\<close>

section \<open>Model\<close>

definition DUE_SOON_WINDOW :: int where "DUE_SOON_WINDOW = 86400 * 1000000"

definition ON_TRACK :: string where "ON_TRACK = ''on_track''"
definition DUE_SOON :: string where "DUE_SOON = ''due_soon''"
definition OVERDUE :: string where "OVERDUE = ''overdue''"

definition SETTLE :: string where "SETTLE = ''settle''"
definition MARK_PAID :: string where "MARK_PAID = ''mark_paid''"
definition RELAY :: string where "RELAY = ''relay_fms''"
definition SPAWN :: string where "SPAWN = ''spawn''"

definition FMS_UPDATE_PERM :: string where
  "FMS_UPDATE_PERM = ''reimb.claim.fms_update''"

definition TERMINAL_VERB :: "(string \<times> string) list" where
  "TERMINAL_VERB = [(LIQUIDATION_KIND, SETTLE), (REIMBURSEMENT_KIND, MARK_PAID)]"

fun action_text :: "transition_action \<Rightarrow> string" where
  "action_text Submit = ''submit''"
| "action_text Approve = ''approve''"
| "action_text Return = ''return''"
| "action_text Reject = ''reject''"
| "action_text Cancel = ''cancel''"
| "action_text Escalate = ''escalate''"
| "action_text Resubmit = ''resubmit''"

definition can_relay :: "oc_db \<Rightarrow> claim \<Rightarrow> int \<Rightarrow> bool" where
  "can_relay db c actor =
     (if status_or_draft c \<noteq> HANDED_TO_FMS then False
      else (case Option.bind (cl_instance c) (get_instance (wfdb db)) of
          None \<Rightarrow> False
        | Some i \<Rightarrow> if in_org i = None then False else authorize_scoped (auth (wfdb db)) actor FMS_UPDATE_PERM (in_org i)))"

definition can_spawn :: "oc_db \<Rightarrow> claim \<Rightarrow> int \<Rightarrow> bool" where
  "can_spawn db c actor =
     (if cl_kind c \<noteq> LIQUIDATION_KIND then False
      else if status_or_draft c \<noteq> SETTLED then False
      else if \<not> is_claim_owner db c actor then False
      else (case Option.bind (cl_cash_advance c) (find_advance (rdb db)) of
          None \<Rightarrow> False
        | Some a \<Rightarrow> if ca_mode a \<noteq> Some OVER_ADVANCE then False else spawn_for_liquidation (rdb db) (cl_id c) = None))"

text \<open>\<open>claim.kind or REIMBURSEMENT_KIND\<close>.\<close>

definition kind_or_reimbursement :: "claim \<Rightarrow> string" where
  "kind_or_reimbursement c = (if cl_kind c = [] then REIMBURSEMENT_KIND else cl_kind c)"

definition terminal_verbs :: "claim \<Rightarrow> string list \<Rightarrow> string list" where
  "terminal_verbs c verbs =
     (if ''approve'' \<in> set verbs \<and> status_or_draft c = HANDED_TO_FMS
      then (case map_of TERMINAL_VERB (kind_or_reimbursement c) of
          None \<Rightarrow> verbs
        | Some v \<Rightarrow> map (\<lambda>verb. if verb = ''approve'' then v else verb) verbs)
      else verbs)"

definition claim_actions :: "oc_db \<Rightarrow> claim \<Rightarrow> int \<Rightarrow> instant \<Rightarrow> string list res" where
  "claim_actions db c actor now =
     (case cl_instance c of
        None \<Rightarrow>
          Inr (if status_or_draft c \<noteq> DRAFT then []
               else if \<not> is_claim_owner db c actor then [] else [''submit'', ''cancel''])
      | Some iid \<Rightarrow>
          rbind (available_actions (wfdb db) iid actor now) (\<lambda>acts.
            let verbs = map action_text acts;
                verbs1 = (if ''approve'' \<in> set verbs \<and> \<not> persisted_packet_complete db c then filter (\<lambda>v. v \<noteq> ''approve'') verbs else verbs);
                verbs2 = terminal_verbs c verbs1;
                verbs3 = (if can_relay db c actor then verbs2 @ [RELAY] else verbs2) in
            Inr (if can_spawn db c actor then verbs3 @ [SPAWN] else verbs3)))"

definition sla_state :: "instant option \<Rightarrow> instant \<Rightarrow> string option" where
  "sla_state due now =
     (case due of
        None \<Rightarrow> None
      | Some d \<Rightarrow> Some (if now > d then OVERDUE else if d - now \<le> DUE_SOON_WINDOW then DUE_SOON else ON_TRACK))"

definition earlier :: "(int \<rightharpoonup> instant) \<Rightarrow> int \<times> instant \<Rightarrow> (int \<rightharpoonup> instant)" where
  "earlier m p =
     (case m (fst p) of
        None \<Rightarrow> m(fst p \<mapsto> snd p)
      | Some current \<Rightarrow> if snd p < current then m(fst p \<mapsto> snd p) else m)"

definition active_step_due_dates :: "oc_db \<Rightarrow> int list \<Rightarrow> (int \<rightharpoonup> instant)" where
  "active_step_due_dates db iids =
     (if iids = [] then Map.empty
      else foldl earlier Map.empty
        (List.map_filter (\<lambda>s. if sp_instance s \<in> set iids \<and> sp_status s = Active then map_option (\<lambda>d. (sp_instance s, d)) (sp_sla_due s) else None)
          (steps (wfdb db))))"

definition claim_sla :: "oc_db \<Rightarrow> claim \<Rightarrow> instant \<Rightarrow> instant option \<times> string option" where
  "claim_sla db c now =
     (case cl_instance c of
        None \<Rightarrow> (None, None)
      | Some iid \<Rightarrow> (let due = active_step_due_dates db [iid] iid in (due, sla_state due now)))"

definition instance_row_version :: "oc_db \<Rightarrow> claim \<Rightarrow> int option" where
  "instance_row_version db c = map_option in_row_version (Option.bind (cl_instance c) (get_instance (wfdb db)))"

section \<open>The badge\<close>

lemma earlier_least:
  "foldl earlier m ps k = Some d \<Longrightarrow>
     (m k = Some d \<or> (k, d) \<in> set ps) \<and> (\<forall>d0. m k = Some d0 \<longrightarrow> d \<le> d0) \<and> (\<forall>d0. (k, d0) \<in> set ps \<longrightarrow> d \<le> d0)"
proof (induction ps arbitrary: m)
  case (Cons p ps)
  obtain j e where p: "p = (j, e)" by (cases p)
  have "foldl earlier (earlier m p) ps k = Some d" using Cons.prems by simp
  note ih = Cons.IH [OF this]
  show ?case
  proof (cases "j = k")
    case True
    then show ?thesis using ih by (cases "m k") (auto simp: p earlier_def split: if_splits)
  next
    case False
    then have "earlier m p k = m k" by (cases "m j") (auto simp: p earlier_def)
    then show ?thesis using ih False by (auto simp: p)
  qed
qed simp

lemma earlier_none: "foldl earlier m ps k = None \<longleftrightarrow> m k = None \<and> k \<notin> fst ` set ps"
proof (induction ps arbitrary: m)
  case (Cons p ps)
  have "earlier m p k = None \<longleftrightarrow> m k = None \<and> k \<noteq> fst p" by (auto simp: earlier_def split: option.splits if_splits)
  then show ?case using Cons.IH by auto
qed simp

text \<open>Active, dated steps of an instance.\<close>

definition clocked :: "oc_db \<Rightarrow> int \<Rightarrow> instant set" where
  "clocked db iid = {d. \<exists>s \<in> set (steps (wfdb db)). sp_instance s = iid \<and> sp_status s = Active \<and> sp_sla_due s = Some d}"

lemma clocked_finite: "finite (clocked db iid)"
proof -
  have "clocked db iid \<subseteq> the ` sp_sla_due ` set (steps (wfdb db))" by (force simp: clocked_def)
  then show ?thesis by (rule finite_subset) simp
qed

lemma due_date_least:
  "active_step_due_dates db [iid] iid = (if clocked db iid = {} then None else Some (Min (clocked db iid)))"
proof -
  let ?ps = "List.map_filter (\<lambda>s. if sp_instance s \<in> set [iid] \<and> sp_status s = Active then map_option (\<lambda>d. (sp_instance s, d)) (sp_sla_due s) else None) (steps (wfdb db))"
  have mem: "(iid, d) \<in> set ?ps \<longleftrightarrow> d \<in> clocked db iid" for d by (auto simp: clocked_def set_map_filter)
  have a: "active_step_due_dates db [iid] iid = foldl earlier Map.empty ?ps iid" by (simp add: active_step_due_dates_def)
  show ?thesis
  proof (cases "foldl earlier Map.empty ?ps iid")
    case None
    then have "iid \<notin> fst ` set ?ps" by (simp add: earlier_none)
    then have "clocked db iid = {}" using mem by force
    then show ?thesis using None a by simp
  next
    case (Some d)
    note l = earlier_least [OF this]
    then have "d \<in> clocked db iid" "\<forall>d0 \<in> clocked db iid. d \<le> d0" using mem by auto
    then show ?thesis using Some a clocked_finite by (auto intro!: Min_eqI [symmetric])
  qed
qed

text \<open>
  The badge tells the truth: it is there exactly when an active step of the claim's instance has a due date, and it says
  overdue exactly when one of them has passed; due soon means the first is at most a day away, and on track that all are further off.
\<close>

theorem sla_badge_iff:
  assumes "cl_instance c = Some iid"
  shows "(snd (claim_sla db c now) = None \<longleftrightarrow> clocked db iid = {}) \<and>
    (snd (claim_sla db c now) = Some OVERDUE \<longleftrightarrow> (\<exists>d \<in> clocked db iid. d < now)) \<and>
    (snd (claim_sla db c now) = Some DUE_SOON \<longleftrightarrow> (\<forall>d \<in> clocked db iid. now \<le> d) \<and> (\<exists>d \<in> clocked db iid. d \<le> now + DUE_SOON_WINDOW)) \<and>
    (snd (claim_sla db c now) = Some ON_TRACK \<longleftrightarrow> clocked db iid \<noteq> {} \<and> (\<forall>d \<in> clocked db iid. now + DUE_SOON_WINDOW < d))"
proof (cases "clocked db iid = {}")
  case True
  then show ?thesis using assms by (simp add: claim_sla_def due_date_least sla_state_def)
next
  case False
  have w: "0 \<le> DUE_SOON_WINDOW" by (simp add: DUE_SOON_WINDOW_def)
  define m where "m = Min (clocked db iid)"
  have m: "m \<in> clocked db iid" "\<And>d. d \<in> clocked db iid \<Longrightarrow> m \<le> d" using False clocked_finite by (auto simp: m_def)
  have s: "snd (claim_sla db c now) = Some (if now > m then OVERDUE else if m - now \<le> DUE_SOON_WINDOW then DUE_SOON else ON_TRACK)"
    using assms False by (simp add: claim_sla_def due_date_least sla_state_def m_def)
  have "(\<exists>d \<in> clocked db iid. d < now) \<longleftrightarrow> m < now" "(\<exists>d \<in> clocked db iid. d \<le> now + DUE_SOON_WINDOW) \<longleftrightarrow> m \<le> now + DUE_SOON_WINDOW"
    "(\<forall>d \<in> clocked db iid. now \<le> d) \<longleftrightarrow> now \<le> m" "(\<forall>d \<in> clocked db iid. now + DUE_SOON_WINDOW < d) \<longleftrightarrow> now + DUE_SOON_WINDOW < m"
    using m by force+
  then show ?thesis using False w unfolding s by (auto simp: OVERDUE_def DUE_SOON_def ON_TRACK_def)
qed

definition clocked_step :: wf_step where
  "clocked_step = \<lparr>sp_id = 1, sp_instance = 4, sp_state = 2, sp_revision = 1, sp_sequence = 1, sp_join = JoinAll, sp_quorum = None, sp_perm = None, sp_org = None,
     sp_status = Active, sp_acted_by = None, sp_on_behalf = None, sp_acted_at = None, sp_comment = None, sp_sla_due = Some 50, sp_escalation = 0\<rparr>"

definition clocked_db :: oc_db where
  "clocked_db = draft_db\<lparr>wfdb := (wfdb draft_db)\<lparr>steps := [clocked_step]\<rparr>\<rparr>"

theorem sla_badge_iff_witness: "snd (claim_sla clocked_db (sample_claim\<lparr>cl_instance := Some 4\<rparr>) 51) = Some OVERDUE"
proof -
  have i: "cl_instance (sample_claim\<lparr>cl_instance := Some 4\<rparr>) = Some 4" by simp
  have "50 \<in> clocked clocked_db 4" by (simp add: clocked_def clocked_db_def clocked_step_def)
  then have "\<exists>d \<in> clocked clocked_db 4. d < 51" by (rule bexI [rotated]) simp
  then show ?thesis using sla_badge_iff [OF i, of clocked_db 51] by blast
qed

section \<open>The verbs\<close>

lemma action_text_inj [simp]: "action_text a = action_text b \<longleftrightarrow> a = b"
  by (cases a; cases b) simp_all

lemma action_text_own [simp]: "action_text a \<noteq> SETTLE" "action_text a \<noteq> MARK_PAID" "action_text a \<noteq> RELAY" "action_text a \<noteq> SPAWN"
  "(action_text a = ''approve'') = (a = Approve)"
  by (cases a; simp add: SETTLE_def MARK_PAID_def RELAY_def SPAWN_def)+

lemma action_text_image [simp]:
  "''approve'' \<in> action_text ` A \<longleftrightarrow> Approve \<in> A" "SETTLE \<notin> action_text ` A" "MARK_PAID \<notin> action_text ` A" "RELAY \<notin> action_text ` A" "SPAWN \<notin> action_text ` A"
  using inj_image_mem_iff [of action_text Approve A] by (auto simp: inj_def image_iff dest: sym)

lemma own_verbs: "distinct [SETTLE, MARK_PAID, RELAY, SPAWN, ''approve'', ''submit'', ''cancel'']"
  by (simp add: SETTLE_def MARK_PAID_def RELAY_def SPAWN_def)

lemma terminal_verbs_set:
  assumes "cl_kind c \<in> {REIMBURSEMENT_KIND, LIQUIDATION_KIND}"
  shows "set (terminal_verbs c verbs) =
    (if ''approve'' \<in> set verbs \<and> status_or_draft c = HANDED_TO_FMS
     then insert (if cl_kind c = LIQUIDATION_KIND then SETTLE else MARK_PAID) (set verbs - {''approve''}) else set verbs)"
proof -
  have "kind_or_reimbursement c = cl_kind c" "map_of TERMINAL_VERB (cl_kind c) = Some (if cl_kind c = LIQUIDATION_KIND then SETTLE else MARK_PAID)"
    using assms by (auto simp: kind_or_reimbursement_def TERMINAL_VERB_def REIMBURSEMENT_KIND_def LIQUIDATION_KIND_def)
  then show ?thesis by (auto simp: terminal_verbs_def)
qed

text \<open>
  What the offered verbs rest on: \<open>approve\<close> is
  the engine's and passes the packet gate and the gates of the closing states; \<open>settle\<close> and \<open>mark_paid\<close> are offered in its
  place where a bare approval would be refused for lack of recorded money; \<open>cancel\<close> of a draft
  succeeds with a comment; \<open>spawn\<close> meets what the spawning call demands; \<open>relay_fms\<close> is covered by a grant.
\<close>

theorem offered_verbs_pass_their_gates:
  assumes "claim_actions db c actor now = Inr verbs" "get_claim (rdb db) (cl_id c) = Some c" "cl_kind c \<in> {REIMBURSEMENT_KIND, LIQUIDATION_KIND}"
  shows "(''approve'' \<in> set verbs \<longrightarrow> approve_guards db c = Inr () \<and>
      (\<exists>iid acts. cl_instance c = Some iid \<and> available_actions (wfdb db) iid actor now = Inr acts \<and> Approve \<in> set acts)) \<and>
    (SETTLE \<in> set verbs \<longrightarrow> cl_kind c = LIQUIDATION_KIND \<and> status_or_draft c = HANDED_TO_FMS \<and> persisted_packet_complete db c) \<and>
    (MARK_PAID \<in> set verbs \<longrightarrow> cl_kind c = REIMBURSEMENT_KIND \<and> status_or_draft c = HANDED_TO_FMS \<and> persisted_packet_complete db c) \<and>
    (cl_instance c = None \<and> ''cancel'' \<in> set verbs \<longrightarrow> (\<forall>comment. comment \<noteq> [] \<longrightarrow> is_ok (cancel_draft_claim db (cl_id c) actor comment))) \<and>
    (SPAWN \<in> set verbs \<longrightarrow> cl_kind c = LIQUIDATION_KIND \<and> holds_staff db actor (cl_claimant c) \<and> spawn_for_liquidation (rdb db) (cl_id c) = None \<and>
       (\<exists>a. Option.bind (cl_cash_advance c) (find_advance (rdb db)) = Some a \<and> ca_mode a = Some OVER_ADVANCE)) \<and>
    (RELAY \<in> set verbs \<longrightarrow> status_or_draft c = HANDED_TO_FMS \<and>
       (\<exists>iid i. cl_instance c = Some iid \<and> get_instance (wfdb db) iid = Some i \<and> authorize_scoped (auth (wfdb db)) actor FMS_UPDATE_PERM (in_org i)))"
proof (cases "cl_instance c")
  case None
  then have v: "verbs = (if status_or_draft c \<noteq> DRAFT then [] else if \<not> is_claim_owner db c actor then [] else [''submit'', ''cancel''])"
    using assms(1) by (simp add: claim_actions_def)
  have "is_ok (cancel_draft_claim db (cl_id c) actor comment)" if "comment \<noteq> []" "''cancel'' \<in> set verbs" for comment
  proof -
    have "is_claim_owner db c actor" "status_or_draft c = DRAFT" using that(2) v by (auto split: if_splits)
    then show ?thesis using that(1) assms(2) None by (simp add: cancel_draft_claim_def locked_claim_def DRAFT_def CANCELLED_def Let_def)
  qed
  then show ?thesis using None v own_verbs by (auto split: if_splits)
next
  case (Some iid)
  then obtain acts where a: "available_actions (wfdb db) iid actor now = Inr acts" using assms(1) by (auto simp: claim_actions_def rbind_eq_Inr)
  let ?v1 = "if Approve \<in> set acts \<and> \<not> persisted_packet_complete db c then filter (\<lambda>v. v \<noteq> ''approve'') (map action_text acts) else map action_text acts"
  have ap: "(''approve'' \<in> set (map action_text acts)) = (Approve \<in> set acts)" by simp
  have verbs: "set verbs = set (terminal_verbs c ?v1) \<union> (if can_relay db c actor then {RELAY} else {}) \<union> (if can_spawn db c actor then {SPAWN} else {})"
    using assms(1) Some a ap by (auto simp: claim_actions_def Let_def)
  have v1: "set ?v1 = action_text ` {a \<in> set acts. a = Approve \<longrightarrow> persisted_packet_complete db c}" by auto
  have tv: "set (terminal_verbs c ?v1) =
    (if Approve \<in> set acts \<and> persisted_packet_complete db c \<and> status_or_draft c = HANDED_TO_FMS
     then insert (if cl_kind c = LIQUIDATION_KIND then SETTLE else MARK_PAID) (set ?v1 - {''approve''}) else set ?v1)"
    unfolding terminal_verbs_set [OF assms(3)] v1 by simp
  have k: "REIMBURSEMENT_KIND \<noteq> LIQUIDATION_KIND" by (simp add: REIMBURSEMENT_KIND_def LIQUIDATION_KIND_def)
  have own: "SETTLE \<in> set verbs \<or> MARK_PAID \<in> set verbs \<longleftrightarrow> Approve \<in> set acts \<and> persisted_packet_complete db c \<and> status_or_draft c = HANDED_TO_FMS"
    "SETTLE \<in> set verbs \<Longrightarrow> cl_kind c = LIQUIDATION_KIND" "MARK_PAID \<in> set verbs \<Longrightarrow> cl_kind c \<noteq> LIQUIDATION_KIND"
    "RELAY \<in> set verbs \<longleftrightarrow> can_relay db c actor" "SPAWN \<in> set verbs \<longleftrightarrow> can_spawn db c actor"
    "''approve'' \<in> set verbs \<longleftrightarrow> Approve \<in> set acts \<and> persisted_packet_complete db c \<and> status_or_draft c \<noteq> HANDED_TO_FMS"
    unfolding verbs tv v1 using own_verbs by (auto split: if_splits)
  have ok: "approve_guards db c = Inr ()" if "persisted_packet_complete db c" "status_or_draft c \<noteq> HANDED_TO_FMS"
    using that by (auto simp: approve_guards_def persisted_packet_complete_def is_ok_iff)
  show ?thesis using Some a own ok assms(3) k
    by (auto simp: can_relay_def can_spawn_def is_claim_owner_def holds_staff_def split: option.splits if_splits)
qed

theorem offered_verbs_pass_their_gates_witness:
  "claim_actions draft_db sample_claim 9 20 = Inr [''submit'', ''cancel''] \<and> is_ok (cancel_draft_claim draft_db 1 9 ''no trip'')"
proof -
  have a: "claim_actions draft_db sample_claim 9 20 = Inr [''submit'', ''cancel'']" by code_simp
  have "get_claim (rdb draft_db) (cl_id sample_claim) = Some sample_claim" by code_simp
  moreover have "cl_kind sample_claim \<in> {REIMBURSEMENT_KIND, LIQUIDATION_KIND}" "cl_instance sample_claim = None" by (simp_all add: sample_claim_def REIMBURSEMENT_KIND_def)
  ultimately show ?thesis using offered_verbs_pass_their_gates [OF a] a by simp
qed

end
