(* ===== verification/Oversight_Queue.thy ===== *)
theory Oversight_Queue
  imports Claim_Drafts "HOL-Library.AList"
begin

text \<open>
  The oversight queue and the pipeline board, \<open>services/queue.py\<close>: which claims an actor may list, how long a claim has
  been with FMS, and the totals of the board's columns. The queries are filters over the tables; \<open>updated\<close> is the
  audit column \<open>updated_at\<close> of a claim, and \<open>grand\<close> the SQL expression that casts \<open>totals->>'grand'\<close> to
  \<open>numeric(14,2)\<close>: NULL, an amount, or a database error.
\<close>

section \<open>Scope\<close>

definition FOLLOWUP_KEY :: string where "FOLLOWUP_KEY = ''sla.external_followup_working_days''"
definition FOLLOWUP_DEFAULT :: int where "FOLLOWUP_DEFAULT = 10"
definition BOARD_CARD_LIMIT :: nat where "BOARD_CARD_LIMIT = 20"
definition DONE_WINDOW_KEY :: string where "DONE_WINDOW_KEY = ''board.done_window_days''"
definition DONE_WINDOW_DEFAULT :: int where "DONE_WINDOW_DEFAULT = 90"

definition oversight_scope :: "oc_db \<Rightarrow> int \<Rightarrow> instant \<Rightarrow> bool \<times> int set" where
  "oversight_scope db actor now =
     (let granted = \<Union> (set (map (\<lambda>perm. scoped_org_units (auth (wfdb db)) actor perm now) OVERSIGHT_PERMS)) in
      if granted = {} then (False, {})
      else if None \<in> granted then (True, {})
      else (False, descendants_or_self (org_units (auth (wfdb db))) (the ` granted)))"

definition in_scope :: "bool \<Rightarrow> int set \<Rightarrow> wf_instance \<Rightarrow> bool" where
  "in_scope is_global units i = (is_global \<or> (case in_org i of None \<Rightarrow> False | Some u \<Rightarrow> u \<in> units))"

record queue_filter =
  qf_kind :: "string option"
  qf_statuses :: "string list"
  qf_claimant :: "int option"
  qf_terminal :: bool

definition open_status :: "claim \<Rightarrow> bool" where
  "open_status c = (case cl_status c of None \<Rightarrow> True | Some s \<Rightarrow> s \<notin> ALL_TERMINAL_STATES)"

definition listed :: "oc_db \<Rightarrow> bool \<Rightarrow> int set \<Rightarrow> queue_filter \<Rightarrow> claim \<Rightarrow> bool" where
  "listed db is_global units f c =
     (case Option.bind (cl_instance c) (get_instance (wfdb db)) of
        None \<Rightarrow> False
      | Some i \<Rightarrow>
          (qf_terminal f \<or> open_status c) \<and> in_scope is_global units i \<and>
          (case qf_kind f of None \<Rightarrow> True | Some k \<Rightarrow> cl_kind c = k) \<and>
          (qf_statuses f = [] \<or> (case cl_status c of None \<Rightarrow> False | Some s \<Rightarrow> s \<in> set (qf_statuses f))) \<and>
          (case qf_claimant f of None \<Rightarrow> True | Some k \<Rightarrow> cl_claimant c = k))"

definition base_query :: "oc_db \<Rightarrow> bool \<Rightarrow> int set \<Rightarrow> queue_filter \<Rightarrow> claim list" where
  "base_query db is_global units f = filter (listed db is_global units f) (claims (rdb db))"

section \<open>Days with FMS\<close>

definition followup_threshold :: "oc_db \<Rightarrow> date \<Rightarrow> int" where
  "followup_threshold db today = config_working_days db FOLLOWUP_KEY FOLLOWUP_DEFAULT today"

definition external_since :: "claim \<Rightarrow> (int \<times> date) option" where
  "external_since c =
     (if cl_holder_kind c = Some ''external_fms'' then map_option (\<lambda>t. (cl_id c, manila_date t)) (cl_holder_since c) else None)"

definition days_with_fms :: "oc_db \<Rightarrow> claim list \<Rightarrow> instant \<Rightarrow> (int \<times> int) list res" where
  "days_with_fms db cs now =
     (case List.map_filter external_since cs of
        [] \<Rightarrow> Inr []
      | since \<Rightarrow>
          (let today = manila_date now; earliest = Min (snd ` set since);
               nonworking = load_nonworking_dates (holidays (rdb db)) (min earliest today) (max earliest today) in
           rmap (\<lambda>(cid, day). rbind (working_days_between day today nonworking) (\<lambda>n. Inr (cid, max n 0))) since))"

section \<open>The board\<close>

definition done_window_days :: "oc_db \<Rightarrow> date \<Rightarrow> int" where
  "done_window_days db today = config_int db DONE_WINDOW_KEY ''days'' DONE_WINDOW_DEFAULT today"

definition done_cutoff :: "instant \<Rightarrow> int \<Rightarrow> instant" where
  "done_cutoff now days = now - days * 86400000000"

definition done_window :: "(claim \<Rightarrow> instant) \<Rightarrow> instant \<Rightarrow> claim \<Rightarrow> bool" where
  "done_window updated cutoff c = (open_status c \<or> updated c \<ge> cutoff)"

definition whole_board :: queue_filter where
  "whole_board = \<lparr>qf_kind = None, qf_statuses = [], qf_claimant = None, qf_terminal = True\<rparr>"

definition board_rows :: "(claim \<Rightarrow> instant) \<Rightarrow> oc_db \<Rightarrow> bool \<Rightarrow> int set \<Rightarrow> instant \<Rightarrow> claim list" where
  "board_rows updated db is_global units cutoff = filter (done_window updated cutoff) (base_query db is_global units whole_board)"

text \<open>One row per status: its number of claims and the sum of the amounts that are not NULL.\<close>

definition status_groups :: "(json \<Rightarrow> int option res) \<Rightarrow> claim list \<Rightarrow> (string option \<times> int \<times> int) list res" where
  "status_groups grand rows =
     rmap (\<lambda>s. let own = filter (\<lambda>c. cl_status c = s) rows in
        rbind (rmap (\<lambda>c. grand (cl_totals c)) own) (\<lambda>amounts.
          Inr (s, int (length own), sum_list (List.map_filter id amounts))))
       (remdups (map cl_status rows))"

record board =
  bd_buckets :: "(string \<times> int \<times> int) list"
  bd_unmapped :: "(string \<times> int) list"

definition add_group :: "board \<Rightarrow> string option \<times> int \<times> int \<Rightarrow> board" where
  "add_group b g =
     (case g of (status, n, pesos) \<Rightarrow>
        (case bucket_of BOARD_COLUMN_STATES status of
           None \<Rightarrow>
             if status \<in> {Some DRAFT, Some CANCELLED} then b
             else b\<lparr>bd_unmapped := AList.update (case status of None \<Rightarrow> ''None'' | Some s \<Rightarrow> s) n (bd_unmapped b)\<rparr>
         | Some col \<Rightarrow> b\<lparr>bd_buckets := map (\<lambda>(k, m, t). if k = col then (k, m + n, t + pesos) else (k, m, t)) (bd_buckets b)\<rparr>))"

definition column_totals :: "(claim \<Rightarrow> instant) \<Rightarrow> (json \<Rightarrow> int option res) \<Rightarrow> oc_db \<Rightarrow> bool \<Rightarrow> int set \<Rightarrow> instant \<Rightarrow> board res" where
  "column_totals updated grand db is_global units cutoff =
     rbind (status_groups grand (board_rows updated db is_global units cutoff)) (\<lambda>groups.
       Inr (foldl add_group \<lparr>bd_buckets = map (\<lambda>(col, _). (col, 0, 0)) BOARD_COLUMNS, bd_unmapped = []\<rparr> groups))"

text \<open>NULLs last; the columns other than Done by the longest wait, Done by the latest change.\<close>

definition wait_key :: "claim \<Rightarrow> (int \<times> instant) \<times> int" where
  "wait_key c = (case cl_holder_since c of None \<Rightarrow> (1, 0) | Some t \<Rightarrow> (0, t), cl_id c)"

definition board_cards :: "(claim \<Rightarrow> instant) \<Rightarrow> oc_db \<Rightarrow> bool \<Rightarrow> int set \<Rightarrow> string \<Rightarrow> instant \<Rightarrow> claim list res" where
  "board_cards updated db is_global units col cutoff =
     (case map_of BOARD_COLUMN_STATES col of
        None \<Rightarrow> Inl KeyError
      | Some sts \<Rightarrow>
          (let rows = filter (done_window updated cutoff) (base_query db is_global units (whole_board\<lparr>qf_statuses := sorted_list_of_set sts\<rparr>)) in
           Inr (take BOARD_CARD_LIMIT
             (if col = BOARD_DONE then sort_key (\<lambda>c. (- updated c, - cl_id c)) rows else sort_key wait_key rows))))"

section \<open>A sample\<close>

definition fms_claim :: claim where
  "fms_claim = sample_claim\<lparr>cl_instance := Some 4, cl_status := Some HANDED_TO_FMS, cl_holder_kind := Some ''external_fms'', cl_holder_since := Some 864000000000\<rparr>"

definition overseen_db :: oc_db where
  "overseen_db = draft_db\<lparr>
     wfdb := (empty_wf_db (sample_auth\<lparr>role_perms := [(3, ''reimb.claim.review'')]\<rparr>))\<lparr>instances := [\<lparr>in_id = 4, in_version = 1, in_state = 2, in_row_version = 1, in_revision = 1,
       in_originator = Some 9, in_org = Some 1, in_subject_kind = None, in_subject_id = None, in_amount = None\<rparr>]\<rparr>,
     rdb := (rdb draft_db)\<lparr>claims := [fms_claim]\<rparr>\<rparr>"

section \<open>Scope\<close>

lemma authorize_unit:
  assumes "unique_units (org_units a)"
  shows "authorize_scoped a actor perm (Some t) \<longleftrightarrow>
    None \<in> scoped_org_units a actor perm (wall a) \<or> t \<in> descendants_or_self (org_units a) {s. Some s \<in> scoped_org_units a actor perm (wall a)}"
  unfolding descendants_iff [OF assms] authorize_scoped_def by (auto simp: Let_def)

lemma authorize_none: "authorize_scoped a actor perm None \<longleftrightarrow> None \<in> scoped_org_units a actor perm (wall a)"
  by (auto simp: authorize_scoped_def Let_def)

lemma the_image:
  assumes "None \<notin> G"
  shows "s \<in> the ` G \<longleftrightarrow> Some s \<in> G"
proof
  assume "s \<in> the ` G"
  then obtain x where "x \<in> G" "s = the x" by blast
  with assms show "Some s \<in> G" by (cases x) simp_all
qed force

text \<open>The list's own conditions on a claim: its kind, its status, its claimant, and open unless closed claims are asked for.\<close>

definition passes_filter :: "queue_filter \<Rightarrow> claim \<Rightarrow> bool" where
  "passes_filter f c \<longleftrightarrow> (qf_terminal f \<or> cl_status c \<notin> Some ` ALL_TERMINAL_STATES) \<and> (\<forall>k. qf_kind f = Some k \<longrightarrow> cl_kind c = k) \<and>
     (qf_statuses f \<noteq> [] \<longrightarrow> cl_status c \<in> Some ` set (qf_statuses f)) \<and> (\<forall>k. qf_claimant f = Some k \<longrightarrow> cl_claimant c = k)"

lemma listed_iff:
  "listed db is_global units f c \<longleftrightarrow>
     (\<exists>iid i. cl_instance c = Some iid \<and> get_instance (wfdb db) iid = Some i \<and> in_scope is_global units i) \<and> passes_filter f c"
proof -
  have "open_status c \<longleftrightarrow> cl_status c \<notin> Some ` ALL_TERMINAL_STATES" by (auto simp: open_status_def split: option.splits)
  moreover have "(case cl_status c of None \<Rightarrow> False | Some s \<Rightarrow> s \<in> set (qf_statuses f)) \<longleftrightarrow> cl_status c \<in> Some ` set (qf_statuses f)"
    by (auto split: option.splits)
  ultimately show ?thesis by (cases "cl_instance c") (auto simp: listed_def passes_filter_def split: option.splits)
qed

lemma scope_iff:
  assumes "unique_units (org_units (auth (wfdb db)))" "oversight_scope db actor (wall (auth (wfdb db))) = (is_global, units)"
  shows "in_scope is_global units i \<longleftrightarrow> (\<exists>perm \<in> set OVERSIGHT_PERMS. authorize_scoped (auth (wfdb db)) actor perm (in_org i))"
proof -
  let ?a = "auth (wfdb db)" and ?S = "\<lambda>perm. scoped_org_units (auth (wfdb db)) actor perm (wall (auth (wfdb db)))"
  let ?G = "\<Union> (set (map ?S OVERSIGHT_PERMS))"
  have g: "(is_global, units) = (if ?G = {} then (False, {}) else if None \<in> ?G then (True, {}) else (False, descendants_or_self (org_units ?a) (the ` ?G)))"
    by (rule assms(2) [unfolded oversight_scope_def Let_def, symmetric])
  show ?thesis
  proof (cases "None \<in> ?G")
    case True
    then have "is_global" using g by (auto split: if_splits)
    moreover obtain perm where "perm \<in> set OVERSIGHT_PERMS" "None \<in> ?S perm" using True by auto
    then have "\<exists>perm \<in> set OVERSIGHT_PERMS. authorize_scoped ?a actor perm (in_org i)"
      by (cases "in_org i") (auto simp: authorize_none authorize_unit [OF assms(1)])
    ultimately show ?thesis by (simp add: in_scope_def)
  next
    case False
    then have "\<not> is_global" and u: "units = (if ?G = {} then {} else descendants_or_self (org_units ?a) (the ` ?G))" using g by (auto split: if_splits)
    have the: "s \<in> the ` ?G \<longleftrightarrow> Some s \<in> ?G" for s by (rule the_image [OF False])
    have "t \<in> units \<longleftrightarrow> (\<exists>perm \<in> set OVERSIGHT_PERMS. authorize_scoped ?a actor perm (Some t))" for t
    proof -
      have "t \<in> units \<longleftrightarrow> (\<exists>s \<in> the ` ?G. s \<in> set (ancestors_or_self (org_units ?a) (Some t)))"
        by (simp add: u descendants_iff [OF assms(1)])
      also have "\<dots> \<longleftrightarrow> (\<exists>perm \<in> set OVERSIGHT_PERMS. \<exists>s. Some s \<in> ?S perm \<and> s \<in> set (ancestors_or_self (org_units ?a) (Some t)))"
        unfolding Bex_def the by auto
      also have "\<dots> \<longleftrightarrow> (\<exists>perm \<in> set OVERSIGHT_PERMS. authorize_scoped ?a actor perm (Some t))"
        using False by (auto simp: authorize_unit [OF assms(1)] descendants_iff [OF assms(1)])
      finally show ?thesis .
    qed
    then show ?thesis using \<open>\<not> is_global\<close> False by (cases "in_org i") (auto simp: in_scope_def authorize_none)
  qed
qed

text \<open>
  C39. The list shows exactly what the actor oversees and asked for: whatever the filter (the queue leaves closed
  claims out unless they are asked for), a claim is listed if and only if it was submitted, one of the oversight
  permissions is granted to the actor for the unit of the claim's workflow instance, and it has the kind, the
  status and the claimant of the filter.
\<close>

theorem queue_scope_exact:
  assumes "unique_units (org_units (auth (wfdb db)))" "oversight_scope db actor (wall (auth (wfdb db))) = (is_global, units)"
  shows "c \<in> set (base_query db is_global units f) \<longleftrightarrow> c \<in> set (claims (rdb db)) \<and> passes_filter f c \<and>
    (\<exists>iid i. cl_instance c = Some iid \<and> get_instance (wfdb db) iid = Some i \<and>
       (\<exists>perm \<in> set OVERSIGHT_PERMS. authorize_scoped (auth (wfdb db)) actor perm (in_org i)))"
  unfolding base_query_def set_filter mem_Collect_eq listed_iff scope_iff [OF assms] by blast

text \<open>The queue of an overseer of unit 1: an open claim of the unit is listed, a closed one is not.\<close>

definition open_queue :: queue_filter where
  "open_queue = \<lparr>qf_kind = None, qf_statuses = [], qf_claimant = None, qf_terminal = False\<rparr>"

theorem queue_scope_exact_witness:
  "\<exists>is_global units. oversight_scope overseen_db 8 100 = (is_global, units) \<and>
     fms_claim \<in> set (base_query overseen_db is_global units open_queue) \<and>
     fms_claim \<notin> set (base_query overseen_db is_global units (open_queue\<lparr>qf_kind := Some LIQUIDATION_KIND\<rparr>))"
proof -
  obtain is_global units where o: "oversight_scope overseen_db 8 100 = (is_global, units)" by (cases "oversight_scope overseen_db 8 100")
  have w: "wall (auth (wfdb overseen_db)) = 100" "unique_units (org_units (auth (wfdb overseen_db)))" "fms_claim \<in> set (claims (rdb overseen_db))" "cl_instance fms_claim = Some 4"
    by (simp_all add: overseen_db_def empty_wf_db_def sample_auth_def unique_units_def fms_claim_def)
  obtain i where i: "get_instance (wfdb overseen_db) 4 = Some i" "in_org i = Some 1" by (simp add: overseen_db_def)
  have h: "HANDED_TO_FMS \<notin> ALL_TERMINAL_STATES" by code_simp
  have f: "passes_filter open_queue fms_claim" "\<not> passes_filter (open_queue\<lparr>qf_kind := Some LIQUIDATION_KIND\<rparr>) fms_claim"
    using h by (auto simp: passes_filter_def open_queue_def fms_claim_def sample_claim_def LIQUIDATION_KIND_def)
  have p: "\<exists>perm \<in> set OVERSIGHT_PERMS. authorize_scoped (auth (wfdb overseen_db)) 8 perm (Some 1)" by code_simp
  note q = queue_scope_exact [OF w(2), of 8 is_global units fms_claim, unfolded w(1), OF o]
  show ?thesis using o q w i f p by fastforce
qed

section \<open>The follow-up clock\<close>

lemma wd_count_cong: "N \<inter> {lo<..hi} = M \<inter> {lo<..hi} \<Longrightarrow> wd_count N lo hi = wd_count M lo hi"
  unfolding wd_count_def by (rule arg_cong [where f = card]) (auto simp: is_working_day_def)

text \<open>
  One holiday window for the page is enough: every externally held claim, and no other, gets the number of working days from its
  hand-over to today that the whole calendar gives, never less than zero.
\<close>

theorem days_with_fms_exact:
  assumes "\<forall>c \<in> set cs. \<forall>t. cl_holder_since c = Some t \<longrightarrow> 1 \<le> manila_date t \<and> manila_date t < max_ordinal" "1 \<le> manila_date now" "manila_date now < max_ordinal"
  shows "days_with_fms db cs now = Inr (map (\<lambda>(cid, day). (cid, int (wd_count (load_nonworking_dates (holidays (rdb db)) 1 max_ordinal) day (manila_date now))))
    (List.map_filter external_since cs))"
proof (cases "List.map_filter external_since cs")
  case Nil
  then show ?thesis by (simp add: days_with_fms_def)
next
  case (Cons p ps)
  let ?since = "List.map_filter external_since cs" and ?today = "manila_date now"
  let ?e = "Min (snd ` set ?since)"
  let ?N = "load_nonworking_dates (holidays (rdb db)) (min ?e ?today) (max ?e ?today)" and ?M = "load_nonworking_dates (holidays (rdb db)) 1 max_ordinal"
  have day: "rbind (working_days_between (snd q) ?today ?N) (\<lambda>n. Inr (fst q, max n 0)) = Inr (fst q, int (wd_count ?M (snd q) ?today))" if q: "q \<in> set ?since" for q
  proof -
    obtain c t where "c \<in> set cs" "cl_holder_since c = Some t" "snd q = manila_date t" using q by (auto simp: set_map_filter external_since_def split: if_splits)
    then have v: "1 \<le> snd q" "snd q < max_ordinal" using assms(1) by auto
    have e: "?e \<le> snd q" by (rule Min_le) (use q in auto)
    have "?N \<inter> {snd q<..?today} = ?M \<inter> {snd q<..?today}" using v e assms(3) by (auto simp: load_nonworking_dates_def holiday_counts_def)
    then have "wd_count ?N (snd q) ?today = wd_count ?M (snd q) ?today" by (rule wd_count_cong)
    then show ?thesis using v assms(2,3) by (auto simp: working_days_between_spec valid_date_def)
  qed
  have "rmap (\<lambda>(cid, day). rbind (working_days_between day ?today ?N) (\<lambda>n. Inr (cid, max n 0))) ?since =
      rmap (\<lambda>q. Inr (fst q, int (wd_count ?M (snd q) ?today))) ?since"
    by (rule rmap_cong [OF refl]) (use day in \<open>auto simp: case_prod_beta\<close>)
  also have "\<dots> = Inr (map (\<lambda>q. (fst q, int (wd_count ?M (snd q) ?today))) ?since)" by (simp add: rmap_Inr_map)
  finally show ?thesis using Cons by (simp add: days_with_fms_def case_prod_beta Let_def)
qed

theorem days_with_fms_exact_witness:
  "\<exists>n. days_with_fms overseen_db [fms_claim] 1728000000000 = Inr [(1, n)] \<and> n \<ge> 0"
proof -
  have m: "manila_date 864000000000 = 11" "manila_date 1728000000000 = 21" by (simp_all add: manila_date_def)
  have "\<forall>c \<in> set [fms_claim]. \<forall>t. cl_holder_since c = Some t \<longrightarrow> 1 \<le> manila_date t \<and> manila_date t < max_ordinal" by (simp add: fms_claim_def m max_ordinal_def)
  from days_with_fms_exact [OF this, of 1728000000000 overseen_db] m show ?thesis
    by (simp add: max_ordinal_def external_since_def fms_claim_def map_filter_simps)
qed

section \<open>The columns\<close>

lemma grouped_sum:
  "distinct xs \<Longrightarrow> sum_list (map (\<lambda>s. sum_list (map w (filter (\<lambda>c. f c = s) rows))) xs) = (sum_list (map w (filter (\<lambda>c. f c \<in> set xs) rows)) :: int)"
proof (induction xs)
  case (Cons x xs)
  have "sum_list (map w (filter (\<lambda>c. f c = x) rs)) + sum_list (map w (filter (\<lambda>c. f c \<in> set xs) rs)) = sum_list (map w (filter (\<lambda>c. f c \<in> set (x # xs)) rs))" for rs
    using Cons.prems by (induction rs) auto
  then show ?case using Cons by simp
qed simp

lemma add_groups_column:
  "map_of (bd_buckets (foldl add_group b gs)) col =
     map_option (\<lambda>(n, t). (n + sum_list (map (\<lambda>(s, k, p). k) (filter (\<lambda>(s, k, p). bucket_of BOARD_COLUMN_STATES s = Some col) gs)),
       t + sum_list (map (\<lambda>(s, k, p). p) (filter (\<lambda>(s, k, p). bucket_of BOARD_COLUMN_STATES s = Some col) gs)))) (map_of (bd_buckets b) col)"
proof (induction gs arbitrary: b)
  case Nil
  then show ?case by (cases "map_of (bd_buckets b) col") auto
next
  case (Cons g gs)
  obtain s k p where g: "g = (s, k, p)" by (cases g)
  have "map_of (map (\<lambda>(x, m, t). if x = c then (x, m + k, t + p) else (x, m, t)) xs) col =
      (if col = c then map_option (\<lambda>(m, t). (m + k, t + p)) (map_of xs col) else map_of xs col)" for c and xs :: "(string \<times> int \<times> int) list"
    by (induction xs) auto
  then have "map_of (bd_buckets (add_group b g)) col =
      (if bucket_of BOARD_COLUMN_STATES s = Some col then map_option (\<lambda>(m, t). (m + k, t + p)) (map_of (bd_buckets b) col) else map_of (bd_buckets b) col)"
    by (auto simp: g add_group_def split: option.splits)
  then show ?case using Cons.IH [of "add_group b g"] by (cases "map_of (bd_buckets b) col") (auto simp: g)
qed

text \<open>A status no column takes, and the name under which it is reported: \<open>str(status)\<close>.\<close>

definition no_column :: "string option \<Rightarrow> bool" where
  "no_column s \<longleftrightarrow> bucket_of BOARD_COLUMN_STATES s = None \<and> s \<notin> {Some DRAFT, Some CANCELLED}"

definition status_name :: "string option \<Rightarrow> string" where
  "status_name s = (case s of None \<Rightarrow> ''None'' | Some x \<Rightarrow> x)"

lemma add_groups_reported:
  "map_of (bd_unmapped (foldl add_group b gs)) x =
     (case filter (\<lambda>(s, k, p). no_column s \<and> status_name s = x) gs of [] \<Rightarrow> map_of (bd_unmapped b) x | ys \<Rightarrow> Some (fst (snd (last ys))))"
proof (induction gs rule: rev_induct)
  case (snoc g gs)
  obtain s k p where g: "g = (s, k, p)" by (cases g)
  have one: "map_of (bd_unmapped (add_group b' (s, k, p))) x = (if no_column s \<and> status_name s = x then Some k else map_of (bd_unmapped b') x)" for b'
    by (cases "bucket_of BOARD_COLUMN_STATES s") (auto simp: g add_group_def no_column_def status_name_def update_conv)
  have "foldl add_group b (gs @ [g]) = add_group (foldl add_group b gs) g" by simp
  then show ?case unfolding one using snoc
    by (cases "no_column s \<and> status_name s = x"; cases "filter (\<lambda>(s, k, p). no_column s \<and> status_name s = x) gs") (auto simp: g one)
qed simp

lemma status_name_inj: "status_name s = status_name s' \<Longrightarrow> s \<noteq> Some ''None'' \<Longrightarrow> s' \<noteq> Some ''None'' \<Longrightarrow> s = s'"
  by (cases s; cases s') (simp_all add: status_name_def)

lemma one_match: "distinct xs \<Longrightarrow> a \<in> set xs \<Longrightarrow> P a \<Longrightarrow> (\<And>y. y \<in> set xs \<Longrightarrow> P y \<Longrightarrow> y = a) \<Longrightarrow> filter P xs = [a]"
proof (induction xs)
  case (Cons x xs)
  show ?case
  proof (cases "x = a")
    case True
    have "\<not> P y" if "y \<in> set xs" for y using Cons.prems(1,4) True that by (metis distinct.simps(2) list.set_intros(2))
    then have "filter P xs = []" by (simp add: filter_empty_conv)
    then show ?thesis using True Cons.prems(3) by simp
  next
    case False
    then have "\<not> P x" using Cons.prems(4) [of x] by auto
    moreover have "filter P xs = [a]" by (rule Cons.IH) (use Cons.prems False in auto)
    ultimately show ?thesis by simp
  qed
qed simp

text \<open>The amount of a claim as the board adds it up: nothing where there is none.\<close>

definition pesos :: "(json \<Rightarrow> int option res) \<Rightarrow> claim \<Rightarrow> int" where
  "pesos grand c = (case grand (cl_totals c) of Inr (Some m) \<Rightarrow> m | _ \<Rightarrow> 0)"

lemma amounts_sum: "rmap (\<lambda>c. grand (cl_totals c)) cs = Inr amounts \<Longrightarrow> sum_list (List.map_filter id amounts) = sum_list (map (pesos grand) cs)"
proof (induction cs arbitrary: amounts)
  case (Cons c cs)
  then obtain m ms where "grand (cl_totals c) = Inr m" "rmap (\<lambda>c. grand (cl_totals c)) cs = Inr ms" "amounts = m # ms" by (auto simp: rbind_eq_Inr)
  then show ?case using Cons.IH by (cases m) (simp_all add: map_filter_simps pesos_def)
qed (simp add: map_filter_simps)

text \<open>
  C28. The board agrees with the database, over the claims of the board: those in the actor's scope, the closed ones
  only if they changed since the cutoff of the Done window. Each column's count and amount are those of the board's
  claims whose status belongs to the column; and the statuses reported as unmapped are exactly those of the board's
  claims that no column takes, drafts and cancelled claims aside, each with the number of its claims (no claim's
  status being the literal text \<open>None\<close>, the name under which a claim without status is reported).
\<close>

theorem board_totals_exact:
  assumes "column_totals updated grand db is_global units cutoff = Inr b"
    "\<forall>c \<in> set (board_rows updated db is_global units cutoff). cl_status c \<noteq> Some ''None''"
  shows "(\<forall>col \<in> fst ` set BOARD_COLUMNS. map_of (bd_buckets b) col =
      Some (int (length (filter (\<lambda>c. bucket_of BOARD_COLUMN_STATES (cl_status c) = Some col) (board_rows updated db is_global units cutoff))),
        sum_list (map (pesos grand) (filter (\<lambda>c. bucket_of BOARD_COLUMN_STATES (cl_status c) = Some col) (board_rows updated db is_global units cutoff))))) \<and>
    (\<forall>name. map_of (bd_unmapped b) name =
      (case filter (\<lambda>c. no_column (cl_status c) \<and> status_name (cl_status c) = name) (board_rows updated db is_global units cutoff) of
         [] \<Rightarrow> None | own \<Rightarrow> Some (int (length own))))"
proof -
  let ?rows = "board_rows updated db is_global units cutoff" and ?b0 = "\<lparr>bd_buckets = map (\<lambda>(col, _). (col, 0, 0)) BOARD_COLUMNS, bd_unmapped = []\<rparr>"
  let ?grp = "\<lambda>s. (s, int (length (filter (\<lambda>c. cl_status c = s) ?rows)), sum_list (map (pesos grand) (filter (\<lambda>c. cl_status c = s) ?rows)))"
  obtain gs where g: "status_groups grand ?rows = Inr gs" and b: "b = foldl add_group ?b0 gs"
    using assms(1) by (auto simp: column_totals_def rbind_eq_Inr)
  have gs: "gs = map ?grp (remdups (map cl_status ?rows))"
  proof -
    have "list_all2 (\<lambda>s y. y = ?grp s) (remdups (map cl_status ?rows)) gs"
      using g unfolding status_groups_def rmap_eq_Inr_iff
      by (rule list_all2_mono) (auto simp: rbind_eq_Inr Let_def amounts_sum)
    then show ?thesis by (simp add: list_all2_conv_all_nth list_eq_iff_nth_eq)
  qed
  have part: "sum_list (map (\<lambda>s. sum_list (map w (filter (\<lambda>c. cl_status c = s) ?rows))) (filter P (remdups (map cl_status ?rows)))) =
      sum_list (map w (filter (\<lambda>c. P (cl_status c)) ?rows))" for P and w :: "claim \<Rightarrow> int"
  proof -
    have "filter (\<lambda>c. cl_status c \<in> set (filter P (remdups (map cl_status ?rows)))) ?rows = filter (\<lambda>c. P (cl_status c)) ?rows" by (rule filter_cong) auto
    then show ?thesis using grouped_sum [of "filter P (remdups (map cl_status ?rows))" w cl_status ?rows] by simp
  qed
  have len: "int (length xs) = sum_list (map (\<lambda>_. 1) xs)" for xs :: "claim list" by (induction xs) simp_all
  have "map_of (bd_buckets b) col = Some (int (length (filter (\<lambda>c. bucket_of BOARD_COLUMN_STATES (cl_status c) = Some col) ?rows)),
      sum_list (map (pesos grand) (filter (\<lambda>c. bucket_of BOARD_COLUMN_STATES (cl_status c) = Some col) ?rows)))" if "col \<in> fst ` set BOARD_COLUMNS" for col
  proof -
    have z: "map_of (bd_buckets ?b0) col = Some (0, 0)" using that by (auto simp: BOARD_COLUMNS_def)
    have f: "filter (\<lambda>(s, k, p). bucket_of BOARD_COLUMN_STATES s = Some col) gs = map ?grp (filter (\<lambda>s. bucket_of BOARD_COLUMN_STATES s = Some col) (remdups (map cl_status ?rows)))"
      by (simp add: gs filter_map comp_def)
    show ?thesis unfolding b add_groups_column z f len
      using part [where w = "\<lambda>_. 1" and P = "\<lambda>s. bucket_of BOARD_COLUMN_STATES s = Some col"]
        part [where w = "pesos grand" and P = "\<lambda>s. bucket_of BOARD_COLUMN_STATES s = Some col"]
      by (simp add: comp_def)
  qed
  moreover have "map_of (bd_unmapped b) name = (case filter (\<lambda>c. no_column (cl_status c) \<and> status_name (cl_status c) = name) ?rows of
      [] \<Rightarrow> None | own \<Rightarrow> Some (int (length own)))" for name
  proof -
    let ?P = "\<lambda>s. no_column s \<and> status_name s = name" and ?ss = "remdups (map cl_status ?rows)"
    have f: "filter (\<lambda>(s, k, p). no_column s \<and> status_name s = name) gs = map ?grp (filter ?P ?ss)" by (simp add: gs filter_map comp_def)
    show ?thesis
    proof (cases "filter (\<lambda>c. ?P (cl_status c)) ?rows")
      case Nil
      then have "filter ?P ?ss = []" by (auto simp: filter_empty_conv)
      then show ?thesis unfolding b add_groups_reported f Nil by simp
    next
      case (Cons c cs)
      then have "c \<in> set (filter (\<lambda>c. ?P (cl_status c)) ?rows)" by simp
      then have c: "c \<in> set ?rows" "?P (cl_status c)" by auto
      have inj: "s = cl_status c" if "s \<in> set ?ss" "?P s" for s
      proof (rule status_name_inj)
        show "status_name s = status_name (cl_status c)" using that c by simp
        show "s \<noteq> Some ''None''" "cl_status c \<noteq> Some ''None''" using that(1) c(1) assms(2) by auto
      qed
      have "filter ?P ?ss = [cl_status c]" by (rule one_match) (use c inj in auto)
      moreover have "filter (\<lambda>d. cl_status d = cl_status c) ?rows = filter (\<lambda>c. ?P (cl_status c)) ?rows"
        by (rule filter_cong) (use c inj in auto)
      ultimately show ?thesis unfolding b add_groups_reported f using Cons by simp
    qed
  qed
  ultimately show ?thesis by blast
qed

definition odd_db :: oc_db where
  "odd_db = overseen_db\<lparr>rdb := (rdb overseen_db)\<lparr>claims := [fms_claim, fms_claim\<lparr>cl_id := 2, cl_status := Some ''odd''\<rparr>]\<rparr>\<rparr>"

theorem board_totals_exact_witness:
  "\<exists>b. column_totals (\<lambda>_. 0) (\<lambda>_. Inr (Some 250)) odd_db True {} 0 = Inr b \<and> map_of (bd_buckets b) WITH_FMS = Some (1, 250) \<and>
     map_of (bd_unmapped b) ''odd'' = Some 1 \<and> map_of (bd_unmapped b) HANDED_TO_FMS = None"
proof -
  let ?odd = "fms_claim\<lparr>cl_id := 2, cl_status := Some ''odd''\<rparr>"
  have r: "board_rows (\<lambda>_. 0) odd_db True {} 0 = [fms_claim, ?odd]"
    by (simp add: board_rows_def base_query_def listed_def whole_board_def in_scope_def done_window_def odd_db_def overseen_db_def fms_claim_def)
  have "is_ok (column_totals (\<lambda>_. 0) (\<lambda>_. Inr (Some 250)) odd_db True {} 0)"
    by (simp add: column_totals_def r status_groups_def Let_def)
  then obtain b where b: "column_totals (\<lambda>_. 0) (\<lambda>_. Inr (Some 250)) odd_db True {} 0 = Inr b" by (auto simp: is_ok_iff)
  have h: "\<forall>c \<in> set (board_rows (\<lambda>_. 0) odd_db True {} 0). cl_status c \<noteq> Some ''None''" by (simp add: r fms_claim_def code_defs)
  have k: "bucket_of BOARD_COLUMN_STATES (Some HANDED_TO_FMS) = Some WITH_FMS" "bucket_of BOARD_COLUMN_STATES (Some ''odd'') = None" by code_simp+
  then have f: "filter (\<lambda>c. bucket_of BOARD_COLUMN_STATES (cl_status c) = Some WITH_FMS) [fms_claim, ?odd] = [fms_claim]" by (simp add: fms_claim_def)
  have n: "filter (\<lambda>c. no_column (cl_status c) \<and> status_name (cl_status c) = ''odd'') [fms_claim, ?odd] = [?odd]"
    "filter (\<lambda>c. no_column (cl_status c) \<and> status_name (cl_status c) = HANDED_TO_FMS) [fms_claim, ?odd] = []"
    using k by (simp_all add: no_column_def status_name_def fms_claim_def code_defs)
  note e = board_totals_exact [OF b h]
  have "WITH_FMS \<in> fst ` set BOARD_COLUMNS" by (simp add: BOARD_COLUMNS_def)
  from bspec [OF conjunct1 [OF e] this] have "map_of (bd_buckets b) WITH_FMS = Some (1, 250)"
    unfolding r f by (simp add: pesos_def)
  moreover have "map_of (bd_unmapped b) ''odd'' = Some 1" "map_of (bd_unmapped b) HANDED_TO_FMS = None"
    using spec [OF conjunct2 [OF e], of "''odd''"] spec [OF conjunct2 [OF e], of HANDED_TO_FMS] unfolding r n by simp_all
  ultimately show ?thesis using b by blast
qed

end
