(* ===== verification/Return_Insights.thy ===== *)
theory Return_Insights
  imports Oversight_Queue
begin

text \<open>
  Why packets come back, \<open>services/insights.py\<close>: the reasons of the returns an actor oversees, ranked over a window with
  the window before it as trend, and promoting a reason to a warning. The rows of the two tables carry the columns
  only this reads; the catalogue includes the soft-deleted rows.
\<close>

section \<open>Model\<close>

record dated_return = return_event +
  dr_at :: instant

record reason_row = return_reason +
  rs_code :: string
  rs_label :: string
  rs_category :: string
  rs_promoted :: bool
  rs_deleted :: bool

definition WINDOW_KEY :: string where "WINDOW_KEY = ''insights.window_days''"
definition WINDOW_DEFAULT :: int where "WINDOW_DEFAULT = 90"

record reason_rank =
  rk_id :: int
  rk_code :: string
  rk_label :: string
  rk_category :: string
  rk_count :: int
  rk_prior :: int
  rk_trend :: string
  rk_promoted :: bool
  rk_active :: bool

record insights =
  ig_days :: int
  ig_start :: date
  ig_total :: int
  ig_items :: "reason_rank list"

definition trend :: "int \<Rightarrow> int \<Rightarrow> string" where
  "trend count prior =
     (if prior = 0 then (if count \<noteq> 0 then ''new'' else ''flat'')
      else if count > prior then ''up'' else if count < prior then ''down'' else ''flat'')"

definition window_cutoffs :: "instant \<Rightarrow> int \<Rightarrow> instant \<times> instant" where
  "window_cutoffs now days = (let cutoff = now - days * 86400000000 in (cutoff, cutoff - days * 86400000000))"

definition window_days :: "oc_db \<Rightarrow> date \<Rightarrow> int" where
  "window_days db today = config_int db WINDOW_KEY ''days'' WINDOW_DEFAULT today"

definition events_query :: "oc_db \<Rightarrow> dated_return list \<Rightarrow> bool \<Rightarrow> int set \<Rightarrow> instant \<Rightarrow> dated_return list" where
  "events_query db evs is_global units prior_cutoff =
     (let visible = cl_id ` set (base_query db is_global units whole_board) in
      filter (\<lambda>e. re_claim e \<in> visible \<and> dr_at e \<ge> prior_cutoff) evs)"

text \<open>One row per reason named, with how often in the window and in the one before.\<close>

definition cited :: "dated_return list \<Rightarrow> int \<Rightarrow> int" where
  "cited es r = sum_list (map (\<lambda>e. int (count_list (re_reasons e) r)) es)"

definition tallies :: "dated_return list \<Rightarrow> instant \<Rightarrow> (int \<times> int \<times> int) list" where
  "tallies es cutoff =
     map (\<lambda>r. (r, cited (filter (\<lambda>e. dr_at e \<ge> cutoff) es) r, cited (filter (\<lambda>e. dr_at e < cutoff) es) r))
       (remdups (concat (map re_reasons es)))"

definition rank_of :: "reason_row \<Rightarrow> int \<Rightarrow> int \<Rightarrow> reason_rank" where
  "rank_of row current prior =
     \<lparr>rk_id = rr_id row, rk_code = rs_code row, rk_label = rs_label row, rk_category = rs_category row, rk_count = current, rk_prior = prior,
      rk_trend = trend current prior, rk_promoted = rs_promoted row, rk_active = rr_active row \<and> \<not> rs_deleted row\<rparr>"

definition rank_key :: "reason_rank \<Rightarrow> int \<times> int \<times> string" where
  "rank_key i = (- rk_count i, - rk_prior i, rk_label i)"

definition ranked_reasons ::
  "oc_db \<Rightarrow> dated_return list \<Rightarrow> reason_row list \<Rightarrow> bool \<Rightarrow> int set \<Rightarrow> instant \<Rightarrow> int \<Rightarrow> insights" where
  "ranked_reasons db evs catalogue is_global units now days =
     (let (cutoff, prior_cutoff) = window_cutoffs now days;
          es = events_query db evs is_global units prior_cutoff in
      \<lparr>ig_days = days, ig_start = manila_date cutoff, ig_total = int (length (filter (\<lambda>e. dr_at e \<ge> cutoff) es)),
       ig_items = sort_key rank_key
         (List.map_filter (\<lambda>(r, current, prior). map_option (\<lambda>row. rank_of row current prior) (row_get rr_id catalogue r)) (tallies es cutoff))\<rparr>)"

definition PROMOTE_PERM :: string where "PROMOTE_PERM = ''reimb.claim.review''"

definition may_promote :: "oc_db \<Rightarrow> int \<Rightarrow> instant \<Rightarrow> bool" where
  "may_promote db actor now = (None \<in> scoped_org_units (auth (wfdb db)) actor PROMOTE_PERM now)"

definition set_promoted :: "reason_row list \<Rightarrow> int \<Rightarrow> bool \<Rightarrow> (reason_row \<times> reason_row list) res" where
  "set_promoted catalogue r promoted =
     (case row_get rr_id (filter (\<lambda>row. \<not> rs_deleted row) catalogue) r of
        None \<Rightarrow> Inl unknown_return_reason
      | Some row \<Rightarrow>
          if promoted \<and> \<not> rr_active row then Inl reason_not_promotable
          else if rs_promoted row \<noteq> promoted
          then (let row' = row\<lparr>rs_promoted := promoted\<rparr> in Inr (row', row_upd rr_id r (\<lambda>_. row') catalogue))
          else Inr (row, catalogue))"

section \<open>Properties\<close>

text \<open>What the ranking reads of a return: when it was and what it cited.\<close>

definition anonymous :: "dated_return \<Rightarrow> instant \<times> int list" where
  "anonymous e = (dr_at e, re_reasons e)"

lemma anonymous_filter:
  assumes "map anonymous es = map anonymous fs" "\<And>e. P e = Q (dr_at e)"
  shows "map anonymous (filter P es) = map anonymous (filter P fs)"
proof -
  have "map anonymous (filter P xs) = filter (\<lambda>a. Q (fst a)) (map anonymous xs)" for xs by (induction xs) (simp_all add: assms(2) anonymous_def)
  then show ?thesis using assms(1) by simp
qed

lemma anonymous_cited:
  assumes "map anonymous es = map anonymous fs"
  shows "cited es = cited fs" "map re_reasons es = map re_reasons fs"
proof -
  have r: "re_reasons = snd \<circ> anonymous" by (auto simp: anonymous_def)
  show reasons: "map re_reasons es = map re_reasons fs" using assms by (simp add: r map_map [symmetric] del: map_map)
  have "cited xs x = sum_list (map (\<lambda>rs. int (count_list rs x)) (map re_reasons xs))" for xs x by (simp add: cited_def comp_def)
  then show "cited es = cited fs" by (intro ext) (simp only: reasons)
qed

lemma anonymous_tallies:
  assumes "map anonymous es = map anonymous fs"
  shows "tallies es cutoff = tallies fs cutoff" "length (filter (\<lambda>e. dr_at e \<ge> cutoff) es) = length (filter (\<lambda>e. dr_at e \<ge> cutoff) fs)"
proof -
  have "map anonymous (filter (\<lambda>e. dr_at e \<ge> cutoff) es) = map anonymous (filter (\<lambda>e. dr_at e \<ge> cutoff) fs)"
    "map anonymous (filter (\<lambda>e. dr_at e < cutoff) es) = map anonymous (filter (\<lambda>e. dr_at e < cutoff) fs)"
    by (rule anonymous_filter [OF assms]; simp)+
  note w = this
  show "tallies es cutoff = tallies fs cutoff" by (simp add: tallies_def anonymous_cited [OF w(1)] anonymous_cited [OF w(2)] anonymous_cited(2) [OF assms])
  show "length (filter (\<lambda>e. dr_at e \<ge> cutoff) es) = length (filter (\<lambda>e. dr_at e \<ge> cutoff) fs)" using arg_cong [OF w(1), of length] by simp
qed

text \<open>
  The ranking has no person in it: it depends only on when the returns on overseen claims were and which reasons they cited. Returns on claims
  out of scope, and which of the overseen claims a return was on, make no difference.
\<close>

theorem insights_anonymous:
  assumes "map anonymous (events_query db evs is_global units (snd (window_cutoffs now days))) =
    map anonymous (events_query db evs' is_global units (snd (window_cutoffs now days)))"
  shows "ranked_reasons db evs catalogue is_global units now days = ranked_reasons db evs' catalogue is_global units now days"
  using anonymous_tallies [OF assms] by (simp add: ranked_reasons_def case_prod_beta Let_def)


definition sample_returns :: "dated_return list" where
  "sample_returns = [\<lparr>re_claim = 1, re_step = None, re_reasons = [1, 2], re_comment = None, re_returned_to = ''claimant'', dr_at = 90\<rparr>,
     \<lparr>re_claim = 7, re_step = None, re_reasons = [2], re_comment = None, re_returned_to = ''claimant'', dr_at = 95\<rparr>]"

definition sample_reasons :: "reason_row list" where
  "sample_reasons = [\<lparr>rr_id = 1, rr_active = True, rs_code = ''a'', rs_label = ''A'', rs_category = ''x'', rs_promoted = False, rs_deleted = False\<rparr>]"

theorem insights_anonymous_witness:
  "ranked_reasons overseen_db sample_returns sample_reasons True {} 100 90 = ranked_reasons overseen_db [hd sample_returns] sample_reasons True {} 100 90"
proof (rule insights_anonymous)
  have "cl_id ` set (base_query overseen_db True {} whole_board) = {1}"
    by (simp add: base_query_def listed_def whole_board_def in_scope_def overseen_db_def fms_claim_def)
  then show "map anonymous (events_query overseen_db sample_returns True {} (snd (window_cutoffs 100 90))) =
      map anonymous (events_query overseen_db [hd sample_returns] True {} (snd (window_cutoffs 100 90)))"
    by (simp add: events_query_def sample_returns_def Let_def)
qed

text \<open>
  The ranking is complete and in order: its rows are the reasons with a catalogue row that an overseen return of the two
  windows cited, each once, with the number of citations in either window, most cited first.
\<close>

theorem ranking_complete:
  "let es = events_query db evs is_global units (snd (window_cutoffs now days)); cutoff = fst (window_cutoffs now days) in
    set (ig_items (ranked_reasons db evs catalogue is_global units now days)) =
      {rank_of row (cited (filter (\<lambda>e. dr_at e \<ge> cutoff) es) r) (cited (filter (\<lambda>e. dr_at e < cutoff) es) r) | row r.
         row_get rr_id catalogue r = Some row \<and> (\<exists>e \<in> set es. r \<in> set (re_reasons e))} \<and>
    distinct (map rk_id (ig_items (ranked_reasons db evs catalogue is_global units now days))) \<and>
    sorted (map rank_key (ig_items (ranked_reasons db evs catalogue is_global units now days)))"
proof -
  define es where "es = events_query db evs is_global units (snd (window_cutoffs now days))"
  define cutoff where "cutoff = fst (window_cutoffs now days)"
  let ?f = "\<lambda>(r, current, prior). map_option (\<lambda>row. rank_of row current prior) (row_get rr_id catalogue r)"
  let ?xs = "List.map_filter ?f (tallies es cutoff)"
  have items: "ig_items (ranked_reasons db evs catalogue is_global units now days) = sort_key rank_key ?xs"
    by (simp add: ranked_reasons_def es_def cutoff_def case_prod_beta Let_def)
  have mem: "set ?xs = {rank_of row (cited (filter (\<lambda>e. dr_at e \<ge> cutoff) es) r) (cited (filter (\<lambda>e. dr_at e < cutoff) es) r) | row r.
         row_get rr_id catalogue r = Some row \<and> (\<exists>e \<in> set es. r \<in> set (re_reasons e))}"
    by (auto simp: set_map_filter tallies_def image_iff; blast)
  have ids: "map rk_id (List.map_filter ?f ts) = filter (\<lambda>r. row_get rr_id catalogue r \<noteq> None) (map fst ts)" for ts
  proof (induction ts)
    case (Cons t ts)
    then show ?case using row_get_Some [of rr_id catalogue "fst t"] by (cases t; cases "row_get rr_id catalogue (fst t)") (auto simp: map_filter_simps rank_of_def)
  qed (simp add: map_filter_simps)
  have "map fst (tallies es cutoff) = remdups (concat (map re_reasons es))" by (simp add: tallies_def comp_def)
  then have "distinct (map rk_id ?xs)" by (simp add: ids)
  then have "distinct (map rk_id (sort_key rank_key ?xs))" by (simp add: distinct_map)
  then show ?thesis unfolding items Let_def es_def [symmetric] cutoff_def [symmetric] using mem by simp
qed

text \<open>Only a live reason in force can be promoted; any live one can be switched off; no other row changes.\<close>

lemma set_promoted_iff:
  "is_ok (set_promoted catalogue r promoted) \<longleftrightarrow> (\<exists>row. row_get rr_id (filter (\<lambda>row. \<not> rs_deleted row) catalogue) r = Some row \<and> (promoted \<longrightarrow> rr_active row))"
  by (auto simp: set_promoted_def Let_def split: option.splits)

end
