(* ===== verification/Redis_Store.thy ===== *)
theory Redis_Store
  imports OC_Prelude
begin

text \<open>
  The part of Redis the authentication code relies on: a keyspace whose entries may carry a time of expiry.
  An entry is there until that time and gone from then on, whether or not the server has collected it. Time is
  an \<open>int\<close> in the unit of the caller. The laws a client needs are the locale \<open>expiring_keyspace\<close>,
  interpreted on these definitions.
\<close>

section \<open>Commands\<close>

type_synonym ('k, 'v) redis = "'k \<Rightarrow> ('v \<times> int option) option"

definition rd_alive :: "int \<Rightarrow> 'v \<times> int option \<Rightarrow> bool" where
  "rd_alive now e = (case snd e of None \<Rightarrow> True | Some t \<Rightarrow> now < t)"

definition rd_get :: "('k, 'v) redis \<Rightarrow> int \<Rightarrow> 'k \<Rightarrow> 'v option" where
  "rd_get r now k = (case r k of None \<Rightarrow> None | Some e \<Rightarrow> if rd_alive now e then Some (fst e) else None)"

text \<open>\<open>SET\<close> without and with \<open>EX\<close>; an expiry in the past removes the key.\<close>

definition rd_set :: "('k, 'v) redis \<Rightarrow> 'k \<Rightarrow> 'v \<Rightarrow> ('k, 'v) redis" where
  "rd_set r k v = r(k := Some (v, None))"

definition rd_set_ex :: "('k, 'v) redis \<Rightarrow> int \<Rightarrow> 'k \<Rightarrow> 'v \<Rightarrow> int \<Rightarrow> ('k, 'v) redis" where
  "rd_set_ex r now k v d = r(k := Some (v, Some (now + d)))"

text \<open>A write that keeps the entry's time of expiry, as \<open>INCR\<close> and a field update of a hash do.\<close>

definition rd_put :: "('k, 'v) redis \<Rightarrow> int \<Rightarrow> 'k \<Rightarrow> 'v \<Rightarrow> ('k, 'v) redis" where
  "rd_put r now k v = r(k := Some (v, case r k of None \<Rightarrow> None | Some e \<Rightarrow> if rd_alive now e then snd e else None))"

definition rd_expire :: "('k, 'v) redis \<Rightarrow> int \<Rightarrow> 'k \<Rightarrow> int \<Rightarrow> ('k, 'v) redis" where
  "rd_expire r now k d =
     (case rd_get r now k of None \<Rightarrow> r(k := None) | Some v \<Rightarrow> r(k := Some (v, Some (now + d))))"

definition rd_del :: "('k, 'v) redis \<Rightarrow> 'k \<Rightarrow> ('k, 'v) redis" where
  "rd_del r k = r(k := None)"

text \<open>\<open>SET NX EX\<close>: the flag says whether the key was set.\<close>

definition rd_set_nx :: "('k, 'v) redis \<Rightarrow> int \<Rightarrow> 'k \<Rightarrow> 'v \<Rightarrow> int \<Rightarrow> bool \<times> ('k, 'v) redis" where
  "rd_set_nx r now k v d = (if rd_get r now k = None then (True, rd_set_ex r now k v d) else (False, r))"

text \<open>\<open>PTTL\<close>: the time left, -1 for a key that does not expire, -2 for no key.\<close>

definition rd_pttl :: "('k, 'v) redis \<Rightarrow> int \<Rightarrow> 'k \<Rightarrow> int" where
  "rd_pttl r now k =
     (case r k of None \<Rightarrow> -2
      | Some e \<Rightarrow> if rd_alive now e then (case snd e of None \<Rightarrow> -1 | Some t \<Rightarrow> t - now) else -2)"

section \<open>The contract\<close>

locale expiring_keyspace =
  fixes look :: "'s \<Rightarrow> int \<Rightarrow> 'k \<Rightarrow> 'v option"
    and store :: "'s \<Rightarrow> int \<Rightarrow> 'k \<Rightarrow> 'v \<Rightarrow> int \<Rightarrow> 's"
    and drop_key :: "'s \<Rightarrow> 'k \<Rightarrow> 's"
  assumes look_store: "look (store s now k v d) t k' = (if k' = k then if t < now + d then Some v else None else look s t k')"
    and look_drop: "look (drop_key s k) t k' = (if k' = k then None else look s t k')"
    and look_fades: "look s t k = None \<Longrightarrow> t \<le> t' \<Longrightarrow> look s t' k = None"
begin

text \<open>A key stored only when it is absent is stored once in the time it lives.\<close>

definition once :: "'s \<Rightarrow> int \<Rightarrow> 'k \<Rightarrow> 'v \<Rightarrow> int \<Rightarrow> bool \<times> 's" where
  "once s now k v d = (if look s now k = None then (True, store s now k v d) else (False, s))"

lemma once_held:
  assumes "once s now k v d = (ok, s')" "0 < d" "t < now + d" "now \<le> t" "ok"
  shows "once s' t k v' d' = (False, s')"
  using assms by (auto simp: once_def look_store split: if_splits)

lemma look_kept: "look s t' k = Some v \<Longrightarrow> t \<le> t' \<Longrightarrow> \<exists>w. look s t k = Some w"
  using look_fades [of s t k t'] by (cases "look s t k") auto

end

lemma rd_get_simps [simp]:
  "rd_get (rd_set_ex r now k v d) t k' = (if k' = k then if t < now + d then Some v else None else rd_get r t k')"
  "rd_get (rd_set r k v) t k' = (if k' = k then Some v else rd_get r t k')"
  "rd_get (rd_del r k) t k' = (if k' = k then None else rd_get r t k')"
  by (auto simp: rd_get_def rd_set_ex_def rd_set_def rd_del_def rd_alive_def)

lemma rd_get_fades: "rd_get r t k = None \<Longrightarrow> t \<le> t' \<Longrightarrow> rd_get r t' k = None"
  by (auto simp: rd_get_def rd_alive_def split: option.splits if_splits)

interpretation keyspace: expiring_keyspace rd_get rd_set_ex rd_del
  by unfold_locales (auto intro: rd_get_fades)

lemma rd_get_put [simp]:
  "rd_get (rd_put r now k v) t k' = (if k' = k then if rd_get r now k \<noteq> None \<and> rd_get r t k = None \<and> r k \<noteq> None then None else Some v else rd_get r t k')"
  if "now \<le> t"
  using that by (auto simp: rd_get_def rd_put_def rd_alive_def split: option.splits)

lemma rd_get_expire [simp]:
  "rd_get (rd_expire r now k d) t k' =
     (if k' = k then if rd_get r now k \<noteq> None \<and> t < now + d then rd_get r now k else None else rd_get r t k')"
  by (auto simp: rd_get_def rd_expire_def rd_alive_def split: option.splits)

lemma rd_pttl_pos: "0 < rd_pttl r now k \<longleftrightarrow> (\<exists>v t. r k = Some (v, Some t) \<and> now < t)"
  by (auto simp: rd_pttl_def rd_alive_def split: option.splits)

lemma rd_pttl_get: "0 < rd_pttl r now k \<Longrightarrow> rd_get r now k \<noteq> None"
  by (auto simp: rd_pttl_def rd_get_def rd_alive_def split: option.splits)

lemma rd_pttl_set_ex: "0 < d \<Longrightarrow> rd_pttl (rd_set_ex r now k v d) t k' = (if k' = k then if t < now + d then now + d - t else -2 else rd_pttl r t k')"
  by (simp add: rd_pttl_def rd_set_ex_def rd_alive_def)

end
