(* ===== verification/Login_Throttle.thy ===== *)
theory Login_Throttle
  imports Redis_Store Money "HOL-Library.Sublist"
begin

text \<open>
  \<open>core/auth/throttle.py\<close>: counters of failed logins per account and per address, with an exponential delay
  after a number of failures in a row. The digest of the account name, Python's \<open>casefold\<close> and the settings are
  parameters; time is Redis's clock in milliseconds.
\<close>

section \<open>Throttle\<close>

record throttle_settings =
  throttle_threshold :: int
  throttle_base :: int
  throttle_ceiling :: int
  throttle_window :: int

record decision =
  td_allowed :: bool
  td_retry_after :: int

definition ACCT_PREFIX :: string where "ACCT_PREFIX = ''throttle:acct:''"
definition IP_PREFIX :: string where "IP_PREFIX = ''throttle:ip:''"

definition acct_key :: "(string \<Rightarrow> string) \<Rightarrow> (string \<Rightarrow> string) \<Rightarrow> string \<Rightarrow> string" where
  "acct_key sha casefold ident = ACCT_PREFIX @ sha (casefold (strip ident))"

definition ip_key :: "string \<Rightarrow> string" where
  "ip_key ip = IP_PREFIX @ ip"

definition until_key :: "string \<Rightarrow> string" where
  "until_key k = k @ '':until''"

definition backoff_seconds :: "throttle_settings \<Rightarrow> int \<Rightarrow> int" where
  "backoff_seconds cfg fails =
     (if fails < throttle_threshold cfg then 0
      else min (throttle_base cfg * 2 ^ nat (fails - throttle_threshold cfg)) (throttle_ceiling cfg))"

definition throttle_keys :: "(string \<Rightarrow> string) \<Rightarrow> (string \<Rightarrow> string) \<Rightarrow> string \<Rightarrow> string option \<Rightarrow> string list" where
  "throttle_keys sha casefold ident ip =
     acct_key sha casefold ident # (if truthy ip then [ip_key (the ip)] else [])"

text \<open>The longest delay of the keys, milliseconds rounded up to seconds.\<close>

definition retry_of :: "(string, int) redis \<Rightarrow> int \<Rightarrow> string \<Rightarrow> int" where
  "retry_of r now k = (let p = rd_pttl r now (until_key k) in if p > 0 then (p + 999) div 1000 else 0)"

definition throttle_check :: "(string, int) redis \<Rightarrow> string list \<Rightarrow> int \<Rightarrow> decision" where
  "throttle_check r keys now =
     (let retry = fold (\<lambda>k m. max m (retry_of r now k)) keys 0 in \<lparr>td_allowed = (retry = 0), td_retry_after = retry\<rparr>)"

definition fail_key :: "throttle_settings \<Rightarrow> int \<Rightarrow> string \<Rightarrow> (string, int) redis \<Rightarrow> (string, int) redis" where
  "fail_key cfg now k r =
     (let fails = (case rd_get r now k of None \<Rightarrow> 0 | Some n \<Rightarrow> n) + 1;
          r1 = rd_expire (rd_put r now k fails) now k (throttle_window cfg * 1000);
          delay = backoff_seconds cfg fails in
      if delay > 0 then rd_set_ex r1 now (until_key k) 1 (delay * 1000) else r1)"

definition register_failure :: "throttle_settings \<Rightarrow> int \<Rightarrow> string list \<Rightarrow> (string, int) redis \<Rightarrow> (string, int) redis" where
  "register_failure cfg now keys r = fold (fail_key cfg now) keys r"

definition throttle_reset :: "string list \<Rightarrow> (string, int) redis \<Rightarrow> (string, int) redis" where
  "throttle_reset keys r = fold (\<lambda>k r. rd_del (rd_del r k) (until_key k)) keys r"

section \<open>The state machine\<close>

text \<open>
  The keyspace with Redis's clock. Names come from users, addresses from connections; neither a digest nor an
  address ends in the suffix of the delay keys.
\<close>

definition proper_keys :: "string list \<Rightarrow> bool" where
  "proper_keys keys = list_all (\<lambda>k. \<not> suffix '':until'' k) keys"

inductive throttle_step :: "throttle_settings \<Rightarrow> int \<times> (string, int) redis \<Rightarrow> int \<times> (string, int) redis \<Rightarrow> bool" for cfg where
  thr_wait: "now \<le> now' \<Longrightarrow> throttle_step cfg (now, r) (now', r)"
| thr_fail: "proper_keys keys \<Longrightarrow> throttle_step cfg (now, r) (now, register_failure cfg now keys r)"
| thr_reset: "proper_keys keys \<Longrightarrow> throttle_step cfg (now, r) (now, throttle_reset keys r)"

definition throttle_init :: "int \<times> (string, int) redis \<Rightarrow> bool" where
  "throttle_init s = (\<forall>k. snd s k = None)"

text \<open>Every delay ends within the ceiling.\<close>

definition delays_bounded :: "throttle_settings \<Rightarrow> int \<times> (string, int) redis \<Rightarrow> bool" where
  "delays_bounded cfg s = (\<forall>k v e. snd s (until_key k) = Some (v, e) \<longrightarrow> (\<exists>t. e = Some t \<and> t \<le> fst s + throttle_ceiling cfg * 1000))"

lemma until_proper: "\<not> suffix '':until'' k \<Longrightarrow> until_key j \<noteq> k"
  by (auto simp: until_key_def suffix_def)

lemma until_inj [simp]: "until_key j = until_key k \<longleftrightarrow> j = k"
  by (simp add: until_key_def)

lemma backoff_bounds: "0 \<le> throttle_ceiling cfg \<Longrightarrow> backoff_seconds cfg n \<le> throttle_ceiling cfg"
  by (simp add: backoff_seconds_def)

lemma fail_key_bounded:
  assumes "delays_bounded cfg (now, r)" "\<not> suffix '':until'' k" "0 \<le> throttle_ceiling cfg"
  shows "delays_bounded cfg (now, fail_key cfg now k r)"
proof -
  have "until_key j \<noteq> k" for j using until_proper [OF assms(2)] by blast
  then show ?thesis
    using assms(1) backoff_bounds [OF assms(3)]
    by (auto simp: delays_bounded_def fail_key_def Let_def rd_set_ex_def rd_expire_def rd_put_def split: option.splits)
qed

lemma register_bounded:
  "delays_bounded cfg (now, r) \<Longrightarrow> proper_keys keys \<Longrightarrow> 0 \<le> throttle_ceiling cfg \<Longrightarrow> delays_bounded cfg (now, register_failure cfg now keys r)"
  unfolding register_failure_def proper_keys_def
  by (induction keys arbitrary: r) (auto intro: fail_key_bounded)

lemma reset_bounded: "delays_bounded cfg (now, r) \<Longrightarrow> delays_bounded cfg (now, throttle_reset keys r)"
  unfolding throttle_reset_def
proof (induction keys arbitrary: r)
  case (Cons k ks)
  then have "delays_bounded cfg (now, rd_del (rd_del r k) (until_key k))" by (auto simp: delays_bounded_def rd_del_def)
  from Cons.IH [OF this] show ?case by simp
qed simp

lemma throttle_system: "0 \<le> throttle_ceiling cfg \<Longrightarrow> invariant_system throttle_init (throttle_step cfg) (delays_bounded cfg)"
proof
  show "throttle_init s \<Longrightarrow> delays_bounded cfg s" for s by (simp add: throttle_init_def delays_bounded_def)
  show "0 \<le> throttle_ceiling cfg \<Longrightarrow> delays_bounded cfg s \<Longrightarrow> throttle_step cfg s t \<Longrightarrow> delays_bounded cfg t" for s t
    by (erule throttle_step.cases) (auto intro: register_bounded reset_bounded, force simp: delays_bounded_def)
qed

lemma fold_max_bound: "(\<And>k. k \<in> set keys \<Longrightarrow> f k \<le> b) \<Longrightarrow> m \<le> b \<Longrightarrow> fold (\<lambda>k m. max m (f k)) keys m \<le> (b :: int)"
  by (induction keys arbitrary: m) auto

lemma fold_max_ge: "m \<le> fold (\<lambda>k m. max m (f k)) keys (m :: int) \<and> (\<forall>k \<in> set keys. f k \<le> fold (\<lambda>k m. max m (f k)) keys m)"
proof (induction keys arbitrary: m)
  case (Cons k ks)
  from Cons.IH [of "max m (f k)"] show ?case by auto
qed simp

lemma retry_nonneg [simp]: "0 \<le> retry_of r now k"
  by (simp add: retry_of_def Let_def pos_imp_zdiv_nonneg_iff)

lemma check_allowed: "td_allowed (throttle_check r keys now) \<longleftrightarrow> (\<forall>k \<in> set keys. retry_of r now k = 0)"
proof
  assume "td_allowed (throttle_check r keys now)"
  then have "\<forall>k \<in> set keys. retry_of r now k \<le> 0" using fold_max_ge [of 0 "retry_of r now" keys] by (simp add: throttle_check_def Let_def)
  then show "\<forall>k \<in> set keys. retry_of r now k = 0" by (metis retry_nonneg order_antisym)
next
  assume "\<forall>k \<in> set keys. retry_of r now k = 0"
  then have "fold (\<lambda>k m. max m (retry_of r now k)) keys 0 \<le> 0" by (intro fold_max_bound) auto
  then show "td_allowed (throttle_check r keys now)" using fold_max_ge [of 0 "retry_of r now" keys] by (simp add: throttle_check_def Let_def)
qed

lemma retry_bounded:
  assumes "delays_bounded cfg (now, r)" "now \<le> t" "0 \<le> throttle_ceiling cfg"
  shows "retry_of r t k * 1000 \<le> max 0 (now + throttle_ceiling cfg * 1000 - t) + 999"
proof (cases "rd_pttl r t (until_key k) > 0")
  case True
  then obtain v e where e: "r (until_key k) = Some (v, Some e)" "t < e" by (auto simp: rd_pttl_pos)
  then have "e \<le> now + throttle_ceiling cfg * 1000" using assms(1) by (auto simp: delays_bounded_def)
  then show ?thesis using e by (simp add: retry_of_def Let_def rd_pttl_def rd_alive_def)
qed (use assms in \<open>simp add: retry_of_def Let_def\<close>)

section \<open>Properties\<close>

text \<open>
  C35. Throttling is a delay and never a lock: whatever failures and resets happened, a caller is told to wait at most
  the ceiling, and once the ceiling has passed without a further failure the caller is let through, whoever it is.
\<close>

theorem throttle_never_locks:
  assumes "reach throttle_init (throttle_step cfg) (now, r)" "0 \<le> throttle_ceiling cfg"
  shows "td_retry_after (throttle_check r keys now) \<le> throttle_ceiling cfg \<and>
    (\<forall>t \<ge> now + throttle_ceiling cfg * 1000. td_allowed (throttle_check r keys t))"
proof -
  have b: "delays_bounded cfg (now, r)" by (rule invariant_system.reach_inv [OF throttle_system assms(1)]) (rule assms(2))
  have "retry_of r now k \<le> throttle_ceiling cfg" for k using retry_bounded [OF b order_refl assms(2), of k] assms(2) by simp
  then have "td_retry_after (throttle_check r keys now) \<le> throttle_ceiling cfg"
    using assms(2) by (simp add: throttle_check_def Let_def fold_max_bound)
  moreover have "td_allowed (throttle_check r keys t)" if "now + throttle_ceiling cfg * 1000 \<le> t" for t
  proof -
    have "now \<le> t" using that assms(2) by simp
    then have "retry_of r t k \<le> 0" for k using retry_bounded [OF b _ assms(2), of t k] that by simp
    then have "retry_of r t k = 0" for k by (metis retry_nonneg order_antisym)
    then show ?thesis by (simp add: check_allowed)
  qed
  ultimately show ?thesis by blast
qed

definition house_throttle :: throttle_settings where
  "house_throttle = \<lparr>throttle_threshold = 5, throttle_base = 1, throttle_ceiling = 300, throttle_window = 900\<rparr>"

theorem throttle_never_locks_witness:
  "td_allowed (throttle_check (register_failure house_throttle 7 [''a''] (\<lambda>_. None)) [''a''] 300007)"
proof -
  have "reach throttle_init (throttle_step house_throttle) (7, \<lambda>_. None)" by (rule reach_init) (simp add: throttle_init_def)
  then have "reach throttle_init (throttle_step house_throttle) (7, register_failure house_throttle 7 [''a''] (\<lambda>_. None))"
    by (rule reach_step) (rule thr_fail, simp add: proper_keys_def suffix_def)
  from throttle_never_locks [OF this] show ?thesis by (simp add: house_throttle_def)
qed

text \<open>
  Guessing is slowed down exponentially: the failure that brings an account's counter to n, at or past the
  threshold, blocks the account for the whole delay of n, which is the base doubled for every further failure up
  to the ceiling, and the wait it announces is that delay.
\<close>

theorem throttle_backs_off:
  assumes "\<not> suffix '':until'' k" "n = (case rd_get r now k of None \<Rightarrow> 0 | Some m \<Rightarrow> m) + 1" "throttle_threshold cfg \<le> n"
    "0 < throttle_base cfg" "0 < throttle_ceiling cfg"
  shows "td_retry_after (throttle_check (register_failure cfg now [k] r) [k] now) =
      min (throttle_base cfg * 2 ^ nat (n - throttle_threshold cfg)) (throttle_ceiling cfg) \<and>
    (\<forall>t. now \<le> t \<and> t < now + backoff_seconds cfg n * 1000 \<longrightarrow> \<not> td_allowed (throttle_check (register_failure cfg now [k] r) [k] t)) \<and>
    (0 < throttle_window cfg \<longrightarrow> rd_get (register_failure cfg now [k] r) now k = Some n)"
proof -
  have d: "backoff_seconds cfg n = min (throttle_base cfg * 2 ^ nat (n - throttle_threshold cfg)) (throttle_ceiling cfg)" "0 < backoff_seconds cfg n"
    using assms(3-5) by (simp_all add: backoff_seconds_def)
  have nk: "until_key j \<noteq> k" for j using until_proper [OF assms(1)] by blast
  have r: "register_failure cfg now [k] r =
      rd_set_ex (rd_expire (rd_put r now k n) now k (throttle_window cfg * 1000)) now (until_key k) 1 (backoff_seconds cfg n * 1000)"
    using d(2) assms(2) by (simp add: register_failure_def fail_key_def Let_def)
  have retry: "retry_of (register_failure cfg now [k] r) t k = (now + backoff_seconds cfg n * 1000 - t + 999) div 1000" if "t < now + backoff_seconds cfg n * 1000" for t
    using d(2) that by (simp add: r retry_of_def Let_def rd_pttl_set_ex)
  have "\<not> td_allowed (throttle_check (register_failure cfg now [k] r) [k] t)" if "now \<le> t" "t < now + backoff_seconds cfg n * 1000" for t
    using retry [OF that(2)] that by (simp add: check_allowed)
  moreover have "td_retry_after (throttle_check (register_failure cfg now [k] r) [k] now) =
      min (throttle_base cfg * 2 ^ nat (n - throttle_threshold cfg)) (throttle_ceiling cfg)"
    using retry [of now] d by (simp add: throttle_check_def Let_def)
  moreover have "rd_get (register_failure cfg now [k] r) now k = Some n" if "0 < throttle_window cfg"
    using that nk [of k] by (auto simp: r)
  ultimately show ?thesis by blast
qed

theorem throttle_backs_off_witness:
  "td_retry_after (throttle_check (register_failure house_throttle 0 [''a''] (\<lambda>k. if k = ''a'' then Some (6, None) else None)) [''a''] 0) = 4"
  using throttle_backs_off [of "''a''" 7 "\<lambda>k. if k = ''a'' then Some (6, None) else None" 0 house_throttle]
  by (simp add: house_throttle_def suffix_def rd_get_def rd_alive_def)

end
