(* ===== verification/Session_Store.thy ===== *)
theory Session_Store
  imports Redis_Store Money Org_Units "HOL-Library.List_Lexorder" "HOL-Library.Char_ord" "HOL-Library.Product_Lexorder" "HOL-Library.Multiset"
begin

text \<open>
  \<open>core/auth/policy.py\<close> and \<open>core/auth/session_store.py\<close>: the server-side session records, the index of a user's
  sessions ordered by their age, the limit on concurrent sessions and the lifetimes. Redis runs on the clock of
  the application; the random session id is an argument. \<open>session_step\<close> runs the calls one after the other;
  in \<open>store_step\<close> the two round trips of a sign-in and of a rotation are steps of their own. A record is stored
  as it is; its serialization to a hash of strings (\<open>_encode\<close>, \<open>_decode\<close>) is left out.
\<close>

section \<open>Lifetimes\<close>

record session_settings =
  session_absolute :: int
  session_idle_privileged :: int
  session_idle_staff :: int
  session_reauth :: int
  session_max_concurrent :: int
  session_cap_policy :: string

abbreviation seconds :: "int \<Rightarrow> int" where
  "seconds n \<equiv> n * 1000000"

definition PRIVILEGED_ROLE_CODES :: "string set" where
  "PRIVILEGED_ROLE_CODES = {''system_admin'', ''approver'', ''auditor''}"

definition is_privileged :: "string list \<Rightarrow> bool" where
  "is_privileged roles = (\<exists>r \<in> set roles. r \<in> PRIVILEGED_ROLE_CODES)"

definition idle_tier_for :: "string list \<Rightarrow> string" where
  "idle_tier_for roles = (if is_privileged roles then ''privileged'' else ''staff'')"

definition idle_seconds_for :: "session_settings \<Rightarrow> string \<Rightarrow> int" where
  "idle_seconds_for cfg tier = (if tier = ''privileged'' then session_idle_privileged cfg else session_idle_staff cfg)"

definition absolute_expires_at :: "session_settings \<Rightarrow> instant \<Rightarrow> instant" where
  "absolute_expires_at cfg created = created + seconds (session_absolute cfg)"

definition expiry_reason :: "session_settings \<Rightarrow> instant \<Rightarrow> instant \<Rightarrow> string \<Rightarrow> instant \<Rightarrow> string option" where
  "expiry_reason cfg created seen tier now =
     (if now \<ge> created + seconds (session_absolute cfg) then Some ''absolute''
      else if now \<ge> seen + seconds (idle_seconds_for cfg tier) then Some ''idle''
      else None)"

definition reauth_required :: "session_settings \<Rightarrow> instant \<Rightarrow> instant \<Rightarrow> bool" where
  "reauth_required cfg last_auth now = (now \<ge> last_auth + seconds (session_reauth cfg))"

section \<open>Records and their keys\<close>

record session_record =
  se_sid :: string
  se_user :: int
  se_email :: string
  se_version :: int
  se_created :: instant
  se_seen :: instant
  se_auth :: instant
  se_ip :: "string option"
  se_agent :: "string option"
  se_tier :: string
  se_roles :: "string list"
  se_must_change :: bool
  se_mfa_setup :: bool
  se_mfa_auth :: bool

text \<open>The hashes \<open>session:{sid}\<close> and the sorted sets \<open>user_sessions:{uid}\<close>.\<close>

record session_db =
  hashes :: "(string, session_record) redis"
  index :: "(int, (instant \<times> string) list) redis"

definition zadd :: "instant \<Rightarrow> string \<Rightarrow> (instant \<times> string) list \<Rightarrow> (instant \<times> string) list" where
  "zadd score sid xs = insort (score, sid) (filter (\<lambda>x. snd x \<noteq> sid) xs)"

definition zmembers :: "session_db \<Rightarrow> instant \<Rightarrow> int \<Rightarrow> string list" where
  "zmembers db now uid = (case rd_get (index db) now uid of None \<Rightarrow> [] | Some xs \<Rightarrow> map snd xs)"

definition index_add :: "instant \<Rightarrow> int \<Rightarrow> instant \<Rightarrow> string \<Rightarrow> session_db \<Rightarrow> session_db" where
  "index_add now uid score sid db =
     db\<lparr>index := rd_put (index db) now uid (zadd score sid (case rd_get (index db) now uid of None \<Rightarrow> [] | Some xs \<Rightarrow> xs))\<rparr>"

text \<open>A sorted set without members is no key.\<close>

definition index_remove :: "instant \<Rightarrow> int \<Rightarrow> string list \<Rightarrow> session_db \<Rightarrow> session_db" where
  "index_remove now uid sids db =
     (case rd_get (index db) now uid of
        None \<Rightarrow> db
      | Some xs \<Rightarrow>
          (let ys = filter (\<lambda>x. snd x \<notin> set sids) xs in
           db\<lparr>index := if ys = [] then rd_del (index db) uid else rd_put (index db) now uid ys\<rparr>))"

definition drop_hashes :: "string list \<Rightarrow> session_db \<Rightarrow> session_db" where
  "drop_hashes sids db = db\<lparr>hashes := fold (\<lambda>s r. rd_del r s) sids (hashes db)\<rparr>"

definition ttl_seconds :: "session_settings \<Rightarrow> session_record \<Rightarrow> instant \<Rightarrow> int" where
  "ttl_seconds cfg rec now =
     max 1 (min (idle_seconds_for cfg (se_tier rec)) ((absolute_expires_at cfg (se_created rec) - now) div 1000000))"

definition prune_user_index :: "session_db \<Rightarrow> int \<Rightarrow> instant \<Rightarrow> session_db" where
  "prune_user_index db uid now =
     index_remove now uid (filter (\<lambda>s. rd_get (hashes db) now s = None) (zmembers db now uid)) db"

text \<open>The oldest sessions make room, or the new one is refused.\<close>

definition SessionCapReached :: exn where
  "SessionCapReached = ServiceError ''SessionCapReached''"

definition enforce_cap :: "session_settings \<Rightarrow> session_db \<Rightarrow> int \<Rightarrow> instant \<Rightarrow> session_db res" where
  "enforce_cap cfg db uid now =
     (let cap = session_max_concurrent cfg in
      if cap < 1 then Inr db
      else
        (let db1 = prune_user_index db uid now; members = zmembers db1 now uid; count = int (length members) in
         if session_cap_policy cfg = ''reject'' then (if count \<ge> cap then Inl SessionCapReached else Inr db1)
         else
           (let to_remove = count - (cap - 1) in
            if to_remove \<le> 0 then Inr db1
            else (let oldest = take (nat to_remove) members in Inr (index_remove now uid oldest (drop_hashes oldest db1))))))"

section \<open>Operations\<close>

record sign_in =
  si_user :: int
  si_email :: string
  si_version :: int
  si_roles :: "string list"
  si_ip :: "string option"
  si_agent :: "string option"
  si_must_change :: bool
  si_mfa_setup :: bool
  si_mfa_auth :: bool

definition session_for :: "sign_in \<Rightarrow> string \<Rightarrow> instant \<Rightarrow> session_record" where
  "session_for si sid now =
     \<lparr>se_sid = sid, se_user = si_user si, se_email = si_email si, se_version = si_version si, se_created = now,
      se_seen = now, se_auth = now, se_ip = si_ip si, se_agent = si_agent si, se_tier = idle_tier_for (si_roles si),
      se_roles = si_roles si, se_must_change = si_must_change si, se_mfa_setup = si_mfa_setup si, se_mfa_auth = si_mfa_auth si\<rparr>"

text \<open>The pipeline that stores the new session: it runs at \<open>t\<close>, with the time \<open>now\<close> the call had read before.\<close>

definition insert_session :: "session_settings \<Rightarrow> session_db \<Rightarrow> sign_in \<Rightarrow> string \<Rightarrow> instant \<Rightarrow> instant \<Rightarrow> session_record \<times> session_db" where
  "insert_session cfg db si sid now t =
     (let rec = session_for si sid now;
          db2 = db\<lparr>hashes := rd_set_ex (hashes db) t sid rec (seconds (ttl_seconds cfg rec now))\<rparr>;
          db3 = index_add t (si_user si) now sid db2 in
      (rec, db3\<lparr>index := rd_expire (index db3) t (si_user si) (seconds (session_absolute cfg))\<rparr>))"

definition create_session :: "session_settings \<Rightarrow> session_db \<Rightarrow> sign_in \<Rightarrow> string \<Rightarrow> instant \<Rightarrow> (session_record \<times> session_db) res" where
  "create_session cfg db si sid now = rbind (enforce_cap cfg db (si_user si) now) (\<lambda>db1. Inr (insert_session cfg db1 si sid now now))"

definition destroy :: "session_db \<Rightarrow> string \<Rightarrow> int option \<Rightarrow> instant \<Rightarrow> session_db" where
  "destroy db sid uid now =
     (let owner = (case uid of Some u \<Rightarrow> Some u | None \<Rightarrow> map_option se_user (rd_get (hashes db) now sid));
          db1 = drop_hashes [sid] db in
      case owner of None \<Rightarrow> db1 | Some u \<Rightarrow> index_remove now u [sid] db1)"

definition get_session_record :: "session_settings \<Rightarrow> session_db \<Rightarrow> string \<Rightarrow> instant \<Rightarrow> session_record option \<times> session_db" where
  "get_session_record cfg db sid now =
     (case rd_get (hashes db) now sid of
        None \<Rightarrow> (None, db)
      | Some rec \<Rightarrow>
          if expiry_reason cfg (se_created rec) (se_seen rec) (se_tier rec) now \<noteq> None
          then (None, destroy db sid (Some (se_user rec)) now) else (Some rec, db))"

definition touch :: "session_settings \<Rightarrow> session_db \<Rightarrow> string \<Rightarrow> instant \<Rightarrow> session_record option \<times> session_db" where
  "touch cfg db sid now =
     (case get_session_record cfg db sid now of
        (None, db1) \<Rightarrow> (None, db1)
      | (Some rec, db1) \<Rightarrow>
          (let rec' = rec\<lparr>se_seen := now\<rparr> in
           (Some rec', db1\<lparr>hashes := rd_set_ex (hashes db1) now sid rec' (seconds (ttl_seconds cfg rec' now))\<rparr>)))"

record overrides =
  ov_roles :: "string list option"
  ov_version :: "int option"
  ov_auth :: "instant option"
  ov_must_change :: "bool option"
  ov_mfa_setup :: "bool option"
  ov_mfa_auth :: "bool option"

definition override :: "'a option \<Rightarrow> 'a \<Rightarrow> 'a" where
  "override x y = (case x of None \<Rightarrow> y | Some v \<Rightarrow> v)"

definition replaced :: "session_record \<Rightarrow> string \<Rightarrow> overrides \<Rightarrow> session_record" where
  "replaced rec sid ov = rec\<lparr>se_sid := sid, se_version := override (ov_version ov) (se_version rec),
     se_auth := override (ov_auth ov) (se_auth rec), se_roles := override (ov_roles ov) (se_roles rec),
     se_tier := (case ov_roles ov of None \<Rightarrow> se_tier rec | Some roles \<Rightarrow> idle_tier_for roles),
     se_must_change := override (ov_must_change ov) (se_must_change rec),
     se_mfa_setup := override (ov_mfa_setup ov) (se_mfa_setup rec), se_mfa_auth := override (ov_mfa_auth ov) (se_mfa_auth rec)\<rparr>"

text \<open>The transaction that swaps the ids, on the record the call had read before.\<close>

definition swap_id :: "session_settings \<Rightarrow> session_db \<Rightarrow> session_record \<Rightarrow> string \<Rightarrow> string \<Rightarrow> overrides \<Rightarrow> instant \<Rightarrow> instant \<Rightarrow> session_db" where
  "swap_id cfg db rec sid new_sid ov now t =
     (let rec' = replaced rec new_sid ov;
          db2 = db\<lparr>hashes := rd_set_ex (hashes db) t new_sid rec' (seconds (ttl_seconds cfg rec' now))\<rparr>;
          db3 = index_add t (se_user rec) (se_created rec') new_sid db2 in
      drop_hashes [sid] (index_remove t (se_user rec) [sid] db3))"

definition regenerate_id ::
  "session_settings \<Rightarrow> session_db \<Rightarrow> string \<Rightarrow> string \<Rightarrow> overrides \<Rightarrow> instant \<Rightarrow> session_record option \<times> session_db" where
  "regenerate_id cfg db sid new_sid ov now =
     (case get_session_record cfg db sid now of
        (None, db1) \<Rightarrow> (None, db1)
      | (Some rec, db1) \<Rightarrow> (Some (replaced rec new_sid ov), swap_id cfg db1 rec sid new_sid ov now now))"

definition destroy_all_for_user :: "session_db \<Rightarrow> int \<Rightarrow> string option \<Rightarrow> instant \<Rightarrow> nat \<times> session_db" where
  "destroy_all_for_user db uid except now =
     (let sids = filter (\<lambda>s. Some s \<noteq> except) (zmembers db now uid) in
      (length sids, index_remove now uid sids (drop_hashes sids db)))"

definition stamp_version :: "instant \<Rightarrow> int \<Rightarrow> string \<Rightarrow> session_db \<Rightarrow> session_db" where
  "stamp_version now v sid db =
     (case rd_get (hashes db) now sid of None \<Rightarrow> db | Some rec \<Rightarrow> db\<lparr>hashes := rd_put (hashes db) now sid (rec\<lparr>se_version := v\<rparr>)\<rparr>)"

definition set_permissions_version :: "session_db \<Rightarrow> int \<Rightarrow> int \<Rightarrow> instant \<Rightarrow> nat \<times> session_db" where
  "set_permissions_version db uid v now =
     (let db1 = prune_user_index db uid now; sids = zmembers db1 now uid in
      (length sids, fold (stamp_version now v) sids db1))"

definition list_for_user :: "session_settings \<Rightarrow> session_db \<Rightarrow> int \<Rightarrow> instant \<Rightarrow> session_record list \<times> session_db" where
  "list_for_user cfg db uid now =
     (let db1 = prune_user_index db uid now in
      fold (\<lambda>sid (out, d). case get_session_record cfg d sid now of (None, d') \<Rightarrow> (out, d') | (Some rec, d') \<Rightarrow> (out @ [rec], d'))
        (zmembers db1 now uid) ([], db1))"

definition resolve_handle :: "(string \<Rightarrow> string) \<Rightarrow> session_db \<Rightarrow> int \<Rightarrow> string \<Rightarrow> instant \<Rightarrow> string option \<times> session_db" where
  "resolve_handle sha db uid handle now =
     (let db1 = prune_user_index db uid now in (find (\<lambda>sid. sha sid = handle) (zmembers db1 now uid), db1))"

section \<open>What the operations do to the keyspace\<close>

abbreviation live :: "session_db \<Rightarrow> instant \<Rightarrow> string \<Rightarrow> session_record option" where
  "live db t s \<equiv> rd_get (hashes db) t s"

lemma rd_get_back: "rd_get r t k = Some v \<Longrightarrow> now \<le> t \<Longrightarrow> rd_get r now k = Some v"
  by (auto simp: rd_get_def rd_alive_def split: option.splits if_splits)

lemma zmembers_fades: "now \<le> t \<Longrightarrow> zmembers db t u = zmembers db now u \<or> zmembers db t u = []"
  using rd_get_back [of "index db" t u _ now] by (cases "rd_get (index db) t u") (auto simp: zmembers_def)

lemma live_drop [simp]: "live (drop_hashes sids db) t s = (if s \<in> set sids then None else live db t s)"
proof -
  have "rd_get (fold (\<lambda>s r. rd_del r s) sids r) t s = (if s \<in> set sids then None else rd_get r t s)" for r :: "(string, session_record) redis"
    by (induction sids arbitrary: r) auto
  then show ?thesis by (simp add: drop_hashes_def)
qed

lemma zmembers_drop [simp]: "zmembers (drop_hashes sids db) t u = zmembers db t u"
  by (simp add: zmembers_def drop_hashes_def)

lemma live_remove [simp]: "hashes (index_remove now u sids db) = hashes db"
  by (simp add: index_remove_def Let_def split: option.splits)

lemma zmembers_remove:
  assumes "now \<le> t"
  shows "zmembers (index_remove now u sids db) t u' = (if u' = u then filter (\<lambda>s. s \<notin> set sids) (zmembers db t u') else zmembers db t u')"
proof (cases "rd_get (index db) now u")
  case None
  then show ?thesis using rd_get_fades [OF None assms] by (auto simp: index_remove_def zmembers_def)
next
  case (Some xs)
  have t: "rd_get (index db) t u = Some xs \<or> rd_get (index db) t u = None" using rd_get_back [OF _ assms, of "index db" u] Some by (cases "rd_get (index db) t u") auto
  have f: "filter (\<lambda>s. s \<notin> set sids) (map snd xs) = map snd (filter (\<lambda>x. snd x \<notin> set sids) xs)" for xs :: "(instant \<times> string) list"
    by (simp add: filter_map comp_def)
  have e: "index db u \<noteq> None" using Some by (auto simp: rd_get_def split: option.splits)
  show ?thesis
  proof (cases "filter (\<lambda>x. snd x \<notin> set sids) xs = []")
    case True
    then show ?thesis using Some t f [of xs] by (auto simp: index_remove_def zmembers_def)
  next
    case False
    then show ?thesis using Some t f [of xs] e assms by (auto simp: index_remove_def zmembers_def)
  qed
qed

text \<open>An operation that only gives up sessions: what it leaves is as it was, and a session that stays keeps its place in the index.\<close>

definition trimmed :: "instant \<Rightarrow> session_db \<Rightarrow> session_db \<Rightarrow> bool" where
  "trimmed now db db' \<longleftrightarrow> (\<forall>t \<ge> now.
     (\<forall>s. live db' t s = live db t s \<or> live db' t s = None) \<and>
     (\<forall>u. \<exists>P. zmembers db' t u = filter P (zmembers db t u)) \<and>
     (\<forall>u s. s \<in> set (zmembers db t u) \<longrightarrow> s \<notin> set (zmembers db' t u) \<longrightarrow> live db' now s = None))"

lemma trimmed_refl [simp]: "trimmed now db db"
  by (auto simp: trimmed_def intro: exI [of _ "\<lambda>_. True"])

lemma trimmed_trans: "trimmed now a b \<Longrightarrow> trimmed now b c \<Longrightarrow> trimmed now a c"
  unfolding trimmed_def
  by (intro allI impI conjI, metis, metis filter_filter) (metis order_refl)

lemma trimmed_remove:
  assumes "\<And>s. s \<in> set sids \<Longrightarrow> live db now s = None"
  shows "trimmed now db (index_remove now u sids db)"
  unfolding trimmed_def
proof (intro allI impI conjI)
  fix t u' assume "now \<le> t"
  note z = zmembers_remove [OF this, of u sids db]
  show "\<exists>P. zmembers (index_remove now u sids db) t u' = filter P (zmembers db t u')"
    by (cases "u' = u") (auto simp: z intro: exI [of _ "\<lambda>_. True"])
  show "live (index_remove now u sids db) now s = None" if "s \<in> set (zmembers db t u')" "s \<notin> set (zmembers (index_remove now u sids db) t u')" for s
    using that assms by (cases "u' = u") (auto simp: z)
qed simp

lemma trimmed_drop: "trimmed now db (drop_hashes sids db)"
  by (auto simp: trimmed_def intro: exI [of _ "\<lambda>_. True"])

lemma trimmed_drop_remove: "trimmed now db (index_remove now u sids (drop_hashes sids db))"
  by (rule trimmed_trans [OF trimmed_drop trimmed_remove]) simp

lemma prune_trimmed: "trimmed now db (prune_user_index db u now)"
  unfolding prune_user_index_def by (rule trimmed_remove) simp

lemma destroy_trimmed: "trimmed now db (destroy db sid uid now)"
  by (auto simp: destroy_def Let_def intro: trimmed_drop trimmed_drop_remove split: option.split)

lemma get_trimmed: "get_session_record cfg db sid now = (x, db') \<Longrightarrow> trimmed now db db'"
  by (auto simp: get_session_record_def intro: destroy_trimmed split: option.splits if_splits)

lemma get_served:
  "get_session_record cfg db sid now = (Some rec, db') \<Longrightarrow> db' = db \<and> live db now sid = Some rec \<and> now < absolute_expires_at cfg (se_created rec) \<and>
    now < se_seen rec + seconds (idle_seconds_for cfg (se_tier rec))"
  by (auto simp: get_session_record_def expiry_reason_def absolute_expires_at_def split: option.splits if_splits)

lemma enforce_cap_trimmed:
  assumes "enforce_cap cfg db u now = Inr db'"
  shows "trimmed now db db'" "1 \<le> session_max_concurrent cfg \<Longrightarrow> distinct (zmembers db now u) \<Longrightarrow> int (length (zmembers db' now u)) \<le> session_max_concurrent cfg - 1"
proof -
  let ?db1 = "prune_user_index db u now"
  let ?m = "zmembers ?db1 now u"
  let ?n = "int (length ?m) - (session_max_concurrent cfg - 1)"
  show "trimmed now db db'"
    using assms by (auto simp: enforce_cap_def Let_def intro: prune_trimmed trimmed_trans [OF prune_trimmed trimmed_drop_remove] split: if_splits)
  show "int (length (zmembers db' now u)) \<le> session_max_concurrent cfg - 1" if cap: "1 \<le> session_max_concurrent cfg" and d: "distinct (zmembers db now u)"
  proof (cases "0 < ?n \<and> session_cap_policy cfg \<noteq> ''reject''")
    case True
    have "distinct ?m" using d by (simp add: prune_user_index_def zmembers_remove)
    then have "set (take (nat ?n) ?m) \<inter> set (drop (nat ?n) ?m) = {}" by (rule set_take_disj_set_drop_if_distinct) simp
    then have "filter (\<lambda>s. s \<notin> set (take (nat ?n) ?m)) ?m = drop (nat ?n) ?m"
      by (subst append_take_drop_id [of "nat ?n" ?m, symmetric], subst filter_append) (auto simp: filter_empty_conv filter_id_conv simp del: append_take_drop_id)
    then show ?thesis using assms cap True by (auto simp: enforce_cap_def Let_def zmembers_remove)
  qed (use assms cap in \<open>auto simp: enforce_cap_def Let_def split: if_splits\<close>)
qed

lemma set_zadd [simp]: "set (map snd (zadd sc s xs)) = insert s (snd ` set xs)"
  by (auto simp: zadd_def set_insort_key)

lemma set_zadd' [simp]: "snd ` set (zadd sc s xs) = insert s (snd ` set xs)"
  using set_zadd [of sc s xs] by simp

lemma zadd_sids: "mset (map snd (zadd sc s xs)) = add_mset s (mset (filter (\<lambda>x. x \<noteq> s) (map snd xs)))"
  by (simp add: zadd_def filter_map comp_def flip: mset_map) (simp add: mset_insort)


section \<open>The state machine\<close>

text \<open>
  The calls on the store, each run to its end before the next, on a clock that does not run backwards. A fresh session id is one
  that no key holds: it is 256 random bits.
\<close>

definition fresh_sid :: "session_db \<Rightarrow> string \<Rightarrow> bool" where
  "fresh_sid db sid = (hashes db sid = None \<and> (\<forall>u xs e. index db u = Some (xs, e) \<longrightarrow> sid \<notin> snd ` set xs))"

inductive session_use :: "session_settings \<Rightarrow> instant \<times> session_db \<Rightarrow> instant \<times> session_db \<Rightarrow> bool" for cfg where
  ses_wait: "now \<le> t \<Longrightarrow> session_use cfg (now, db) (t, db)"
| ses_get: "get_session_record cfg db sid now = (x, db') \<Longrightarrow> session_use cfg (now, db) (now, db')"
| ses_touch: "touch cfg db sid now = (x, db') \<Longrightarrow> session_use cfg (now, db) (now, db')"
| ses_rotate: "regenerate_id cfg db sid new_sid ov now = (x, db') \<Longrightarrow> fresh_sid db new_sid \<Longrightarrow> session_use cfg (now, db) (now, db')"
| ses_destroy: "session_use cfg (now, db) (now, destroy db sid uid now)"
| ses_revoke: "destroy_all_for_user db uid except now = (n, db') \<Longrightarrow> session_use cfg (now, db) (now, db')"
| ses_version: "set_permissions_version db uid v now = (n, db') \<Longrightarrow> session_use cfg (now, db) (now, db')"
| ses_list: "list_for_user cfg db uid now = (xs, db') \<Longrightarrow> session_use cfg (now, db) (now, db')"
| ses_resolve: "resolve_handle sha db uid h now = (x, db') \<Longrightarrow> session_use cfg (now, db) (now, db')"

inductive session_step :: "session_settings \<Rightarrow> instant \<times> session_db \<Rightarrow> instant \<times> session_db \<Rightarrow> bool" for cfg where
  ses_use: "session_use cfg s s' \<Longrightarrow> session_step cfg s s'"
| ses_create: "create_session cfg db si sid now = Inr (rec, db') \<Longrightarrow> fresh_sid db sid \<Longrightarrow> session_step cfg (now, db) (now, db')"

definition session_init :: "instant \<times> session_db \<Rightarrow> bool" where
  "session_init s = ((\<forall>k. hashes (snd s) k = None) \<and> (\<forall>u. index (snd s) u = None))"

definition held :: "session_db \<Rightarrow> instant \<Rightarrow> int \<Rightarrow> string list" where
  "held db now u = filter (\<lambda>s. live db now s \<noteq> None) (zmembers db now u)"

text \<open>The invariant, with a bound \<open>B\<close> on the sessions a user holds.\<close>

definition session_bound :: "(int \<Rightarrow> int) \<Rightarrow> session_settings \<Rightarrow> instant \<times> session_db \<Rightarrow> bool" where
  "session_bound B cfg s \<longleftrightarrow> (case s of (now, db) \<Rightarrow>
     (\<forall>sid rec. live db now sid = Some rec \<longrightarrow> se_sid rec = sid \<and> se_created rec \<le> now \<and>
        (\<forall>t. now \<le> t \<and> t < absolute_expires_at cfg (se_created rec) \<longrightarrow> sid \<in> set (zmembers db t (se_user rec)))) \<and>
     (\<forall>u. distinct (zmembers db now u)) \<and>
     (\<forall>u sid rec. sid \<in> set (zmembers db now u) \<and> live db now sid = Some rec \<longrightarrow> se_user rec = u) \<and>
     (1 \<le> session_max_concurrent cfg \<longrightarrow> (\<forall>u. int (length (held db now u)) \<le> B u)))"

abbreviation session_inv :: "session_settings \<Rightarrow> instant \<times> session_db \<Rightarrow> bool" where
  "session_inv cfg \<equiv> session_bound (\<lambda>_. session_max_concurrent cfg) cfg"

lemma session_invD:
  assumes "session_bound B cfg (now, db)"
  shows "live db now sid = Some rec \<Longrightarrow> se_sid rec = sid" "live db now sid = Some rec \<Longrightarrow> se_created rec \<le> now"
    "live db now sid = Some rec \<Longrightarrow> now \<le> t \<Longrightarrow> t < absolute_expires_at cfg (se_created rec) \<Longrightarrow> sid \<in> set (zmembers db t (se_user rec))"
    "distinct (zmembers db now u)" "sid \<in> set (zmembers db now u) \<Longrightarrow> live db now sid = Some rec \<Longrightarrow> se_user rec = u"
    "1 \<le> session_max_concurrent cfg \<Longrightarrow> int (length (held db now u)) \<le> B u"
  using assms by (auto simp: session_bound_def)

lemma session_invI:
  assumes "\<And>sid rec. live db now sid = Some rec \<Longrightarrow> se_sid rec = sid \<and> se_created rec \<le> now"
    "\<And>sid rec t. live db now sid = Some rec \<Longrightarrow> now \<le> t \<Longrightarrow> t < absolute_expires_at cfg (se_created rec) \<Longrightarrow> sid \<in> set (zmembers db t (se_user rec))"
    "\<And>u. distinct (zmembers db now u)" "\<And>u sid rec. sid \<in> set (zmembers db now u) \<Longrightarrow> live db now sid = Some rec \<Longrightarrow> se_user rec = u"
    "\<And>u. 1 \<le> session_max_concurrent cfg \<Longrightarrow> int (length (held db now u)) \<le> B u"
  shows "session_bound B cfg (now, db)"
  using assms by (auto simp: session_bound_def)

lemma length_filter_mono: "(\<And>x. x \<in> set zs \<Longrightarrow> P x \<Longrightarrow> Q x) \<Longrightarrow> length (filter P zs) \<le> length (filter Q zs)"
  by (induction zs) (auto intro: le_SucI)

lemma held_filter:
  assumes "\<And>s. live db' now s \<noteq> None \<Longrightarrow> live db now s \<noteq> None" "zmembers db' now u = filter P (zmembers db now u)"
  shows "length (held db' now u) \<le> length (held db now u)"
  using assms(1) by (simp add: held_def assms(2)) (intro length_filter_mono, blast)

lemma trimmed_inv:
  assumes "session_bound B cfg (now, db)" "trimmed now db db'"
  shows "session_bound B cfg (now, db')"
proof -
  note i = session_invD [OF assms(1)]
  have l: "live db' t s = Some rec \<Longrightarrow> live db t s = Some rec" if "now \<le> t" for t s rec
    using assms(2) that unfolding trimmed_def by (metis option.distinct(1))
  have z: "\<exists>P. zmembers db' t u = filter P (zmembers db t u)" if "now \<le> t" for t u using assms(2) that unfolding trimmed_def by blast
  have k: "s \<in> set (zmembers db' t u)" if "now \<le> t" "s \<in> set (zmembers db t u)" "live db' now s = Some rec" for t s u rec
    using assms(2) that unfolding trimmed_def by (metis option.distinct(1))
  show ?thesis
  proof (rule session_invI)
    show "live db' now sid = Some rec \<Longrightarrow> se_sid rec = sid \<and> se_created rec \<le> now" for sid rec using l [OF order_refl] i(1,2) by blast
    show "sid \<in> set (zmembers db' t (se_user rec))" if "live db' now sid = Some rec" "now \<le> t" "t < absolute_expires_at cfg (se_created rec)" for sid rec t
      using k [OF that(2) _ that(1)] i(3) [OF l [OF order_refl that(1)] that(2,3)] by blast
    show "distinct (zmembers db' now u)" for u using z [OF order_refl, of u] i(4) [of u] by auto
    show "se_user rec = u" if "sid \<in> set (zmembers db' now u)" "live db' now sid = Some rec" for u sid rec
      using that z [OF order_refl, of u] i(5) l [OF order_refl that(2)] by auto
    show "int (length (held db' now u)) \<le> B u" if "1 \<le> session_max_concurrent cfg" for u
    proof -
      obtain P where "zmembers db' now u = filter P (zmembers db now u)" using z [OF order_refl] by blast
      then have "length (held db' now u) \<le> length (held db now u)" by (rule held_filter [rotated]) (use l [OF order_refl] in blast)
      then show ?thesis using i(6) [OF that, of u] by simp
    qed
  qed
qed

lemma wait_inv:
  assumes "session_bound B cfg (now, db)" "now \<le> t"
  shows "session_bound B cfg (t, db)"
proof -
  note i = session_invD [OF assms(1)]
  note l = rd_get_back [OF _ assms(2), of "hashes db"]
  have z: "zmembers db t u = zmembers db now u \<or> zmembers db t u = []" for u by (rule zmembers_fades [OF assms(2)])
  show ?thesis
  proof (rule session_invI)
    show "live db t sid = Some rec \<Longrightarrow> se_sid rec = sid \<and> se_created rec \<le> t" for sid rec using i(1,2) l assms(2) by (meson order_trans)
    show "sid \<in> set (zmembers db t' (se_user rec))" if "live db t sid = Some rec" "t \<le> t'" "t' < absolute_expires_at cfg (se_created rec)" for sid rec t'
      using i(3) [OF l [OF that(1)]] that assms(2) by simp
    show "distinct (zmembers db t u)" for u using z [of u] i(4) [of u] by auto
    show "se_user rec = u" if "sid \<in> set (zmembers db t u)" "live db t sid = Some rec" for u sid rec
      using that z [of u] i(5) l [OF that(2)] by (metis list.distinct(1) list.set_cases)
    show "int (length (held db t u)) \<le> B u" if "1 \<le> session_max_concurrent cfg" for u
    proof -
      have "length (held db t u) \<le> length (held db now u)"
        using z [of u] l by (auto simp: held_def intro!: length_filter_mono)
      then show ?thesis using i(6) [OF that, of u] by simp
    qed
  qed
qed


text \<open>Rewriting the record of a session that is there, with the same owner and age.\<close>

lemma live_set_ex: "live (db\<lparr>hashes := rd_set_ex (hashes db) now sid rec d\<rparr>) t s = (if s = sid then if t < now + d then Some rec else None else live db t s)"
  by simp

lemma zmembers_hashes [simp]: "zmembers (db\<lparr>hashes := h\<rparr>) t u = zmembers db t u"
  by (simp add: zmembers_def)

lemma ttl_pos: "0 < seconds (ttl_seconds cfg rec now)"
  by (simp add: ttl_seconds_def)

lemma rewritten_inv:
  assumes "session_bound B cfg (now, db)" "live db now sid = Some rec" "\<And>s. live db' now s = (if s = sid then Some rec' else live db now s)"
    "se_user rec' = se_user rec" "se_created rec' = se_created rec" "se_sid rec' = sid" "\<And>t u. zmembers db' t u = zmembers db t u"
  shows "session_bound B cfg (now, db')"
proof -
  note i = session_invD [OF assms(1)]
  show ?thesis
  proof (rule session_invI)
    show "live db' now s = Some r \<Longrightarrow> se_sid r = s \<and> se_created r \<le> now" for s r
      using i(1,2) assms(2-6) by (auto split: if_splits)
    show "s \<in> set (zmembers db' t (se_user r))" if "live db' now s = Some r" "now \<le> t" "t < absolute_expires_at cfg (se_created r)" for s r t
      using i(3) that assms(2-7) by (auto split: if_splits)
    show "distinct (zmembers db' now u)" for u using i(4) assms(7) by simp
    show "se_user r = u" if "s \<in> set (zmembers db' now u)" "live db' now s = Some r" for u s r
      using that i(5) assms(2-7) by (auto split: if_splits)
    have "held db' now u = held db now u" for u unfolding held_def assms(7) by (rule filter_cong) (use assms(2,3) in auto)
    then show "int (length (held db' now u)) \<le> B u" if "1 \<le> session_max_concurrent cfg" for u using i(6) [OF that] by simp
  qed
qed

lemma touch_inv:
  assumes "session_bound B cfg (now, db)" "touch cfg db sid now = (x, db')"
  shows "session_bound B cfg (now, db')"
proof (cases "get_session_record cfg db sid now")
  case (Pair y db1)
  show ?thesis
  proof (cases y)
    case None
    then show ?thesis using assms Pair trimmed_inv [OF assms(1) get_trimmed [OF Pair]] by (simp add: touch_def)
  next
    case (Some rec)
    note g = get_served [OF Pair [unfolded Some]]
    then have s: "se_sid rec = sid" using session_invD(1) [OF assms(1)] by blast
    have "db' = db\<lparr>hashes := rd_set_ex (hashes db) now sid (rec\<lparr>se_seen := now\<rparr>) (seconds (ttl_seconds cfg (rec\<lparr>se_seen := now\<rparr>) now))\<rparr>"
      using assms(2) Pair Some g by (auto simp: touch_def Let_def)
    then show ?thesis using g s ttl_pos [of cfg "rec\<lparr>se_seen := now\<rparr>" now]
      by (intro rewritten_inv [OF assms(1), of sid rec _ "rec\<lparr>se_seen := now\<rparr>"]) auto
  qed
qed

lemma stamp_live: "live (stamp_version now v sid db) now s = (if s = sid then map_option (\<lambda>rec. rec\<lparr>se_version := v\<rparr>) (live db now s) else live db now s)"
  by (auto simp: stamp_version_def split: option.splits)

lemma stamp_members [simp]: "zmembers (stamp_version now v sid db) t u = zmembers db t u"
  by (simp add: stamp_version_def split: option.splits)

lemma stamp_inv: "session_bound B cfg (now, db) \<Longrightarrow> session_bound B cfg (now, stamp_version now v sid db)"
proof (cases "live db now sid")
  case (Some rec)
  assume i: "session_bound B cfg (now, db)"
  show ?thesis
    by (rule rewritten_inv [OF i Some, of _ "rec\<lparr>se_version := v\<rparr>"]) (use Some session_invD(1) [OF i Some] in \<open>auto simp: stamp_live\<close>)
qed (simp add: stamp_version_def)

lemma stamps_inv: "session_bound B cfg (now, db) \<Longrightarrow> session_bound B cfg (now, fold (stamp_version now v) sids db)"
  by (induction sids arbitrary: db) (auto intro: stamp_inv)

lemma list_trimmed:
  assumes "fold (\<lambda>sid (out, d). case get_session_record cfg d sid now of (None, d') \<Rightarrow> (out, d') | (Some rec, d') \<Rightarrow> (out @ [rec], d')) sids (out, db) = (out', db')"
  shows "trimmed now db db'"
  using assms
proof (induction sids arbitrary: out db)
  case (Cons sid sids)
  obtain x d where g: "get_session_record cfg db sid now = (x, d)" by (cases "get_session_record cfg db sid now")
  have "trimmed now d db'" using Cons.prems g by (cases x) (auto intro: Cons.IH)
  then show ?case using trimmed_trans [OF get_trimmed [OF g]] by blast
qed simp


text \<open>A session that appears, while those in \<open>gone\<close> go.\<close>

lemma fresh_unknown:
  assumes "fresh_sid db sid"
  shows "live db t sid = None" "sid \<notin> set (zmembers db t u)"
proof -
  show "live db t sid = None" using assms by (simp add: fresh_sid_def rd_get_def)
  show "sid \<notin> set (zmembers db t u)"
    using assms by (auto simp: fresh_sid_def zmembers_def rd_get_def split: option.splits if_splits prod.splits)
qed

lemma trimmed_unknown:
  assumes "trimmed now db db'" "live db now sid = None" "sid \<notin> set (zmembers db now u)"
  shows "live db' now sid = None" "sid \<notin> set (zmembers db' now u)"
  using assms unfolding trimmed_def by (metis order_refl, metis filter_is_subset order_refl subsetD)

lemma length_distinct_card: "distinct xs \<Longrightarrow> set xs \<subseteq> A \<Longrightarrow> finite A \<Longrightarrow> length xs \<le> card A"
  by (metis card_mono distinct_card)

lemma enrolled_inv:
  assumes inv: "session_bound A cfg (now, db)" and new: "live db now sid = None" "\<And>v. sid \<notin> set (zmembers db now v)"
    and live': "\<And>s. live db' now s = (if s = sid then Some rec else if s \<in> gone then None else live db now s)"
    and rec: "se_sid rec = sid" "se_created rec \<le> now" "se_user rec = u"
    and others: "\<And>v t. v \<noteq> u \<Longrightarrow> now \<le> t \<Longrightarrow> zmembers db' t v = zmembers db t v"
    and listed: "\<And>t. now \<le> t \<Longrightarrow> t < absolute_expires_at cfg (se_created rec) \<Longrightarrow> sid \<in> set (zmembers db' t u)"
    and kept: "\<And>s r t. live db now s = Some r \<Longrightarrow> s \<notin> gone \<Longrightarrow> now \<le> t \<Longrightarrow> t < absolute_expires_at cfg (se_created r) \<Longrightarrow> s \<in> set (zmembers db t u) \<Longrightarrow> s \<in> set (zmembers db' t u)"
    and own: "set (zmembers db' now u) \<subseteq> insert sid (set (zmembers db now u))" "distinct (zmembers db' now u)"
    and cap: "1 \<le> session_max_concurrent cfg \<Longrightarrow> int (length (held db' now u)) \<le> B u" "\<And>v. v \<noteq> u \<Longrightarrow> B v = A v"
  shows "session_bound B cfg (now, db')"
proof -
  note i = session_invD [OF inv]
  have was: "live db' now s = Some r \<Longrightarrow> s \<noteq> sid \<Longrightarrow> live db now s = Some r \<and> s \<notin> gone" for s r using live' by (auto split: if_splits)
  show ?thesis
  proof (rule session_invI)
    show "se_sid r = s \<and> se_created r \<le> now" if h: "live db' now s = Some r" for s r
    proof (cases "s = sid")
      case True
      then have "r = rec" using h live' [of s] by simp
      then show ?thesis using rec True by simp
    next
      case False
      then show ?thesis using was [OF h False] i(1,2) by blast
    qed
    show "s \<in> set (zmembers db' t (se_user r))" if h: "live db' now s = Some r" "now \<le> t" "t < absolute_expires_at cfg (se_created r)" for s r t
    proof (cases "s = sid")
      case True
      then have "r = rec" using h(1) live' [of s] by simp
      then show ?thesis using rec(3) listed [OF h(2)] h(3) True by simp
    next
      case False
      note w = was [OF h(1) False]
      then have m: "s \<in> set (zmembers db t (se_user r))" using i(3) h(2,3) by blast
      show ?thesis
      proof (cases "se_user r = u")
        case True
        then show ?thesis using kept w h(2,3) m by blast
      qed (use others m h(2) in simp)
    qed
    show "distinct (zmembers db' now v)" for v using i(4) [of v] others [of v now] own(2) by (cases "v = u") auto
    show "se_user r = v" if h: "s \<in> set (zmembers db' now v)" "live db' now s = Some r" for v s r
    proof (cases "s = sid")
      case True
      then have "r = rec" using h(2) live' [of s] by simp
      moreover have "v = u" using others [of v now] new(2) [of v] h(1) True by (cases "v = u") auto
      ultimately show ?thesis using rec(3) by simp
    next
      case False
      then have "s \<in> set (zmembers db now v)" using h(1) others [of v now] own(1) by (cases "v = u") auto
      then show ?thesis using i(5) was [OF h(2) False] by blast
    qed
    show "int (length (held db' now v)) \<le> B v" if "1 \<le> session_max_concurrent cfg" for v
    proof (cases "v = u")
      case False
      have "length (held db' now v) \<le> length (held db now v)"
        unfolding held_def others [OF False order_refl] by (rule length_filter_mono) (use new(2) [of v] live' in \<open>auto split: if_splits\<close>)
      then show ?thesis using i(6) [OF that, of v] cap(2) [OF False] by simp
    qed (use cap(1) [OF that] in simp)
  qed
qed


lemma index_add_hashes [simp]: "hashes (index_add now u sc sid db) = hashes db"
  by (simp add: index_add_def)

lemma zmembers_index_other [simp]: "v \<noteq> u \<Longrightarrow> zmembers (index_add now u sc sid db) t v = zmembers db t v"
  by (simp add: zmembers_def index_add_def rd_put_def rd_get_def)

lemma zmembers_add:
  assumes "now \<le> t"
  shows "zmembers (index_add now u sc sid db) t u =
    (if rd_get (index db) now u \<noteq> None \<and> rd_get (index db) t u = None then []
     else map snd (zadd sc sid (case rd_get (index db) now u of None \<Rightarrow> [] | Some xs \<Rightarrow> xs)))"
proof -
  have "rd_get (index db) now u \<noteq> None \<Longrightarrow> index db u \<noteq> None" by (auto simp: rd_get_def split: option.splits)
  then show ?thesis using assms by (auto simp: zmembers_def index_add_def)
qed

lemma distinct_zadd: "distinct (map snd xs) \<Longrightarrow> distinct (map snd (zadd sc s xs))"
  using mset_eq_imp_distinct_iff [of "map snd (zadd sc s xs)" "s # filter (\<lambda>x. x \<noteq> s) (map snd xs)"] zadd_sids [of sc s xs] by simp

lemma zmembers_now: "zmembers db now u = map snd (case rd_get (index db) now u of None \<Rightarrow> [] | Some xs \<Rightarrow> xs)"
  by (auto simp: zmembers_def split: option.splits)

lemma insert_cases:
  assumes "insert_session cfg db si sid now t = (rec, db')"
  shows "rec = session_for si sid now"
    "\<And>x s. live db' x s = (if s = sid then if x < t + seconds (ttl_seconds cfg rec now) then Some rec else None else live db x s)"
    "\<And>x v. v \<noteq> si_user si \<Longrightarrow> zmembers db' x v = zmembers db x v"
    "\<And>x. t \<le> x \<Longrightarrow> zmembers db' x (si_user si) = (if x < t + seconds (session_absolute cfg)
       then map snd (zadd now sid (case rd_get (index db) t (si_user si) of None \<Rightarrow> [] | Some xs \<Rightarrow> xs)) else [])"
proof -
  let ?u = "si_user si"
  let ?x = "case rd_get (index db) t ?u of None \<Rightarrow> [] | Some xs \<Rightarrow> xs"
  let ?d2 = "db\<lparr>hashes := rd_set_ex (hashes db) t sid rec (seconds (ttl_seconds cfg rec now))\<rparr>"
  let ?d3 = "index_add t ?u now sid ?d2"
  have db': "db' = ?d3\<lparr>index := rd_expire (index ?d3) t ?u (seconds (session_absolute cfg))\<rparr>"
    using assms by (auto simp: insert_session_def Let_def)
  have g: "rd_get (index ?d3) t ?u = Some (zadd now sid ?x)"
    by (auto simp: index_add_def rd_put_def rd_get_def rd_alive_def split: option.splits)
  show "rec = session_for si sid now" using assms by (auto simp: insert_session_def Let_def)
  show "zmembers db' x v = zmembers db x v" if "v \<noteq> ?u" for x v
    using that by (simp add: db' zmembers_def index_add_def rd_put_def rd_get_def rd_expire_def split: option.splits)
  show "zmembers db' x ?u = (if x < t + seconds (session_absolute cfg) then map snd (zadd now sid ?x) else [])" for x
    using g by (simp add: db' zmembers_def)
  show "live db' x s = (if s = sid then if x < t + seconds (ttl_seconds cfg rec now) then Some rec else None else live db x s)" for x s
    by (simp add: db')
qed

lemma session_for_fields [simp]: "se_sid (session_for si sid now) = sid" "se_created (session_for si sid now) = now" "se_user (session_for si sid now) = si_user si"
  by (simp_all add: session_for_def)

text \<open>A new session is one more.\<close>

lemma insert_inv:
  assumes i: "session_bound B cfg (t, db)" and ins: "insert_session cfg db si sid now t = (rec, db')" and le: "now \<le> t"
    and new: "live db t sid = None" "\<And>v. sid \<notin> set (zmembers db t v)"
  shows "session_bound (B(si_user si := B (si_user si) + 1)) cfg (t, db')"
proof -
  let ?u = "si_user si"
  note c = insert_cases [OF ins]
  note z = c(4)
  have in_z: "s \<in> set (zmembers db x ?u) \<Longrightarrow> t \<le> x \<Longrightarrow> s \<in> set (zmembers db t ?u)" for s x
    using zmembers_fades [of t x db ?u] by auto
  have sub: "set (zmembers db' t ?u) \<subseteq> insert sid (set (zmembers db t ?u))" using z [OF order_refl] by (auto simp: zmembers_now [of db] split: if_splits)
  have dis: "distinct (zmembers db' t ?u)"
    using session_invD(4) [OF i, of ?u] distinct_zadd [of _ now sid] z [OF order_refl] by (simp add: zmembers_now [of db])
  show ?thesis
  proof (rule enrolled_inv [OF i new, where gone = "{}" and rec = rec and u = ?u])
    show "live db' t s = (if s = sid then Some rec else if s \<in> {} then None else live db t s)" for s using c(2) ttl_pos [of cfg rec now] by simp
    show "sid \<in> set (zmembers db' x ?u)" if "t \<le> x" "x < absolute_expires_at cfg (se_created rec)" for x
      using that le by (simp add: z c(1) absolute_expires_at_def)
    show "s \<in> set (zmembers db' x ?u)" if "live db t s = Some r" "s \<notin> {}" "t \<le> x" "x < absolute_expires_at cfg (se_created r)" "s \<in> set (zmembers db x ?u)" for s r x
    proof -
      have "x < t + seconds (session_absolute cfg)" using session_invD(2) [OF i that(1)] that(4) by (simp add: absolute_expires_at_def)
      then show ?thesis using in_z [OF that(5,3)] z [OF that(3)] by (simp add: zmembers_now [of db])
    qed
    show "int (length (held db' t ?u)) \<le> (B(?u := B ?u + 1)) ?u" if "1 \<le> session_max_concurrent cfg"
    proof -
      have sub': "set (held db' t ?u) \<subseteq> insert sid (set (held db t ?u))" using sub c(2) new(1) by (auto simp: held_def split: if_splits)
      have "length (held db' t ?u) \<le> card (insert sid (set (held db t ?u)))"
        by (rule length_distinct_card [OF _ sub']) (use dis in \<open>auto simp: held_def\<close>)
      also have "\<dots> \<le> Suc (length (held db t ?u))" using card_length [of "sid # held db t ?u"] by simp
      finally show ?thesis using session_invD(6) [OF i that, of ?u] by simp
    qed
  qed (use c(1,3) sub dis le in auto)
qed

text \<open>A check leaves room for one.\<close>

lemma enforce_inv:
  assumes i: "session_bound B cfg (now, db)" and c: "enforce_cap cfg db u now = Inr db1"
  shows "session_bound (B(u := session_max_concurrent cfg - 1)) cfg (now, db1)"
proof -
  note i1 = trimmed_inv [OF i enforce_cap_trimmed(1) [OF c]]
  have "int (length (held db1 now u)) \<le> session_max_concurrent cfg - 1" if "1 \<le> session_max_concurrent cfg"
  proof -
    have "length (held db1 now u) \<le> length (zmembers db1 now u)" by (simp add: held_def)
    then show ?thesis using enforce_cap_trimmed(2) [OF c that session_invD(4) [OF i]] by simp
  qed
  then show ?thesis by (intro session_invI) (use session_invD [OF i1] in auto)
qed

lemma create_inv:
  assumes "session_inv cfg (now, db)" "create_session cfg db si sid now = Inr (rec, db')" "fresh_sid db sid"
  shows "session_inv cfg (now, db')"
proof -
  let ?u = "si_user si"
  obtain db1 where c: "enforce_cap cfg db ?u now = Inr db1" "insert_session cfg db1 si sid now now = (rec, db')"
    using assms(2) by (auto simp: create_session_def rbind_eq_Inr)
  note f = trimmed_unknown [OF enforce_cap_trimmed(1) [OF c(1)] fresh_unknown(1) [OF assms(3)] fresh_unknown(2) [OF assms(3)]]
  show ?thesis using insert_inv [OF enforce_inv [OF assms(1) c(1)] c(2) order_refl f] by (simp add: fun_upd_idem)
qed

lemma replaced_fields [simp]: "se_sid (replaced rec sid ov) = sid" "se_created (replaced rec sid ov) = se_created rec" "se_user (replaced rec sid ov) = se_user rec"
  by (simp_all add: replaced_def)

lemma swap_cases:
  assumes "distinct (zmembers db t (se_user rec))" "new_sid \<noteq> sid"
  shows "\<And>s. live (swap_id cfg db rec sid new_sid ov now t) t s =
      (if s = new_sid then Some (replaced rec new_sid ov) else if s \<in> {sid} then None else live db t s)"
    "\<And>x v. v \<noteq> se_user rec \<Longrightarrow> t \<le> x \<Longrightarrow> zmembers (swap_id cfg db rec sid new_sid ov now t) x v = zmembers db x v"
    "\<And>x. t \<le> x \<Longrightarrow> set (zmembers (swap_id cfg db rec sid new_sid ov now t) x (se_user rec)) =
      (if rd_get (index db) t (se_user rec) \<noteq> None \<and> rd_get (index db) x (se_user rec) = None then {}
       else insert new_sid (set (zmembers db t (se_user rec)) - {sid}))"
    "distinct (zmembers (swap_id cfg db rec sid new_sid ov now t) t (se_user rec))"
proof -
  let ?u = "se_user rec" and ?r = "replaced rec new_sid ov" and ?db' = "swap_id cfg db rec sid new_sid ov now t"
  let ?d2 = "db\<lparr>hashes := rd_set_ex (hashes db) t new_sid ?r (seconds (ttl_seconds cfg ?r now))\<rparr>"
  have db': "?db' = drop_hashes [sid] (index_remove t ?u [sid] (index_add t ?u (se_created ?r) new_sid ?d2))"
    by (simp add: swap_id_def Let_def)
  show "live ?db' t s = (if s = new_sid then Some ?r else if s \<in> {sid} then None else live db t s)" for s
    using assms(2) ttl_pos [of cfg ?r now] by (simp add: db')
  show "zmembers ?db' x v = zmembers db x v" if "v \<noteq> ?u" "t \<le> x" for x v
    using that by (simp add: db' zmembers_remove)
  have z: "zmembers ?db' x ?u = filter (\<lambda>s. s \<noteq> sid) (if rd_get (index db) t ?u \<noteq> None \<and> rd_get (index db) x ?u = None then []
     else map snd (zadd (se_created ?r) new_sid (case rd_get (index db) t ?u of None \<Rightarrow> [] | Some xs \<Rightarrow> xs)))" if "t \<le> x" for x
    using that by (simp add: db' zmembers_remove zmembers_add)
  show "set (zmembers ?db' x ?u) = (if rd_get (index db) t ?u \<noteq> None \<and> rd_get (index db) x ?u = None then {} else insert new_sid (set (zmembers db t ?u) - {sid}))"
    if "t \<le> x" for x using z [OF that] assms(2) by (auto simp: zmembers_now)
  show "distinct (zmembers ?db' t ?u)"
    using assms(1) distinct_zadd [of _ "se_created ?r" new_sid] z [OF order_refl] by (simp add: zmembers_now)
qed

text \<open>The index of a user's sessions is there until \<open>e\<close>, if it is there at all.\<close>

definition lasting :: "session_db \<Rightarrow> instant \<Rightarrow> int \<Rightarrow> instant \<Rightarrow> bool" where
  "lasting db now u e \<longleftrightarrow> (\<forall>x. now \<le> x \<and> x < e \<and> rd_get (index db) now u \<noteq> None \<longrightarrow> rd_get (index db) x u \<noteq> None)"

lemma live_lasting:
  assumes "session_bound B cfg (now, db)" "live db now sid = Some rec"
  shows "lasting db now (se_user rec) (absolute_expires_at cfg (se_created rec))"
  unfolding lasting_def
proof (intro allI impI)
  fix x assume "now \<le> x \<and> x < absolute_expires_at cfg (se_created rec) \<and> rd_get (index db) now (se_user rec) \<noteq> None"
  then have "sid \<in> set (zmembers db x (se_user rec))" using session_invD(3) [OF assms] by blast
  then show "rd_get (index db) x (se_user rec) \<noteq> None" by (rule contrapos_pn) (simp add: zmembers_def)
qed

text \<open>Swapping the ids of a session that is there keeps the number; where the old id is gone it is one more.\<close>

lemma swap_inv:
  assumes i: "session_bound B cfg (t, db)" and fresh: "fresh_sid db new_sid" "new_sid \<noteq> sid" and rec: "se_created rec \<le> t"
    and last: "lasting db t (se_user rec) (absolute_expires_at cfg (se_created rec))"
  shows "session_bound (B(se_user rec := B (se_user rec) + (if sid \<in> set (held db t (se_user rec)) then 0 else 1))) cfg
    (t, swap_id cfg db rec sid new_sid ov now t)"
proof -
  let ?u = "se_user rec" and ?db' = "swap_id cfg db rec sid new_sid ov now t"
  let ?n = "if sid \<in> set (held db t ?u) then 0 else 1 :: int"
  note c = swap_cases [OF session_invD(4) [OF i, of ?u] fresh(2), where cfg = cfg and ov = ov and now = now]
  note f = fresh_unknown [OF fresh(1)]
  have in_z: "rd_get (index db) x ?u \<noteq> None \<and> s \<in> set (zmembers db t ?u)" if "t \<le> x" "s \<in> set (zmembers db x ?u)" for s x
  proof
    show "rd_get (index db) x ?u \<noteq> None" using that(2) by (rule contrapos_pn) (simp add: zmembers_def)
    show "s \<in> set (zmembers db t ?u)" using zmembers_fades [OF that(1), of db ?u] that(2) by auto
  qed
  show ?thesis
  proof (rule enrolled_inv [OF i f(1) f(2) c(1), where u = ?u])
    show "new_sid \<in> set (zmembers ?db' x ?u)" if "t \<le> x" "x < absolute_expires_at cfg (se_created (replaced rec new_sid ov))" for x
      using last that unfolding c(3) [OF that(1)] lasting_def by auto
    show "s \<in> set (zmembers ?db' x ?u)" if "s \<notin> {sid}" "t \<le> x" "s \<in> set (zmembers db x ?u)" for s x
      using in_z [OF that(2,3)] that(1) unfolding c(3) [OF that(2)] by auto
    have s: "set (zmembers ?db' t ?u) = insert new_sid (set (zmembers db t ?u) - {sid})" using c(3) [OF order_refl] by auto
    then show "set (zmembers ?db' t ?u) \<subseteq> insert new_sid (set (zmembers db t ?u))" by auto
    show "int (length (held ?db' t ?u)) \<le> (B(?u := B ?u + ?n)) ?u" if "1 \<le> session_max_concurrent cfg"
    proof -
      have sub: "set (held ?db' t ?u) \<subseteq> insert new_sid (set (held db t ?u) - {sid})" using s c(1) by (auto simp: held_def split: if_splits)
      have "length (held ?db' t ?u) \<le> card (insert new_sid (set (held db t ?u) - {sid}))"
        by (rule length_distinct_card [OF _ sub]) (use c(4) in \<open>auto simp: held_def\<close>)
      also have "\<dots> \<le> Suc (card (set (held db t ?u) - {sid}))" by (simp add: card_insert_if)
      finally have "int (length (held ?db' t ?u)) \<le> int (card (set (held db t ?u))) + ?n"
        using card_Suc_Diff1 [of "set (held db t ?u)" sid] by (auto split: if_splits)
      also have "\<dots> \<le> int (length (held db t ?u)) + ?n" using card_length [of "held db t ?u"] by simp
      finally show ?thesis using session_invD(6) [OF i that, of ?u] by simp
    qed
  qed (use c rec in auto)
qed

lemma rotate_cases:
  assumes "session_bound B cfg (now, db)" "get_session_record cfg db sid now = (Some rec, db1)" "regenerate_id cfg db sid new_sid ov now = (x, db')" "fresh_sid db new_sid"
  shows "db' = swap_id cfg db rec sid new_sid ov now now" "new_sid \<noteq> sid"
    "\<And>s. live db' now s = (if s = new_sid then Some (replaced rec new_sid ov) else if s \<in> {sid} then None else live db now s)"
proof -
  note g = get_served [OF assms(2)]
  show db': "db' = swap_id cfg db rec sid new_sid ov now now" using assms(2,3) g by (auto simp: regenerate_id_def)
  show ne: "new_sid \<noteq> sid" using g fresh_unknown(1) [OF assms(4)] by auto
  show "live db' now s = (if s = new_sid then Some (replaced rec new_sid ov) else if s \<in> {sid} then None else live db now s)" for s
    unfolding db' by (rule swap_cases(1) [OF session_invD(4) [OF assms(1)] ne])
qed

lemma rotate_inv:
  assumes "session_bound B cfg (now, db)" "regenerate_id cfg db sid new_sid ov now = (x, db')" "fresh_sid db new_sid"
  shows "session_bound B cfg (now, db')"
proof (cases "get_session_record cfg db sid now")
  case (Pair y db1)
  show ?thesis
  proof (cases y)
    case None
    then show ?thesis using assms Pair trimmed_inv [OF assms(1) get_trimmed [OF Pair]] by (simp add: regenerate_id_def)
  next
    case (Some rec)
    note c = rotate_cases [OF assms(1) Pair [unfolded Some] assms(2,3)]
    have g: "live db now sid = Some rec" "now < absolute_expires_at cfg (se_created rec)" using get_served [OF Pair [unfolded Some]] by auto
    have "sid \<in> set (held db now (se_user rec))" using session_invD(3) [OF assms(1) g(1) order_refl g(2)] g(1) by (simp add: held_def)
    then show ?thesis
      using swap_inv [OF assms(1,3) c(2) session_invD(2) [OF assms(1) g(1)] live_lasting [OF assms(1) g(1)], of ov now] c(1) by (simp add: fun_upd_idem)
  qed
qed

lemma session_use_inv:
  assumes "session_use cfg s s'" "session_bound B cfg s"
  shows "session_bound B cfg s'"
  using assms
proof (cases rule: session_use.cases)
  case (ses_revoke db uid except now n db')
  then have "db' = index_remove now uid (filter (\<lambda>s. Some s \<noteq> except) (zmembers db now uid)) (drop_hashes (filter (\<lambda>s. Some s \<noteq> except) (zmembers db now uid)) db)"
    by (simp add: destroy_all_for_user_def Let_def)
  then show ?thesis using assms(2) ses_revoke by (metis trimmed_drop_remove trimmed_inv)
next
  case (ses_version db uid v now n db')
  then show ?thesis using assms(2) by (auto simp: set_permissions_version_def Let_def intro!: stamps_inv trimmed_inv [OF _ prune_trimmed])
next
  case (ses_list db uid now xs db')
  then have "trimmed now (prune_user_index db uid now) db'" by (auto simp: list_for_user_def Let_def intro: list_trimmed)
  then show ?thesis using assms(2) ses_list trimmed_inv [OF _ trimmed_trans [OF prune_trimmed]] by blast
next
  case (ses_resolve sha db uid h now x db')
  then have "db' = prune_user_index db uid now" by (simp add: resolve_handle_def Let_def)
  then show ?thesis using assms(2) ses_resolve trimmed_inv [OF _ prune_trimmed] by blast
qed (auto intro: wait_inv touch_inv rotate_inv trimmed_inv [OF _ get_trimmed] trimmed_inv [OF _ destroy_trimmed])

lemma session_step_inv: "session_inv cfg s \<Longrightarrow> session_step cfg s s' \<Longrightarrow> session_inv cfg s'"
  by (erule session_step.cases) (auto intro: session_use_inv create_inv)

lemma session_init_inv: "session_init s \<Longrightarrow> session_inv cfg s"
  by (auto simp: session_init_def session_bound_def rd_get_def zmembers_def held_def split: prod.splits)

interpretation sessions: invariant_system session_init "session_step cfg" "session_inv cfg" for cfg
  by unfold_locales (auto intro: session_init_inv session_step_inv)

text \<open>Use never makes a session younger.\<close>

lemma use_created:
  assumes "session_use cfg (now, db) (t, db')" "session_inv cfg (now, db)" "live db' t sid = Some rec"
  shows "\<exists>sid0 rec0. live db now sid0 = Some rec0 \<and> se_created rec = se_created rec0"
proof -
  have trim: ?thesis if "trimmed now db d" "live d now sid = Some rec" for d
    using that unfolding trimmed_def by (metis order_refl option.distinct(1))
  have stamps: "live (fold (stamp_version n v) sids d) n sid = Some rec \<Longrightarrow> \<exists>r. live d n sid = Some r \<and> se_created rec = se_created r" for n v sids d
    by (induction sids arbitrary: d) (fastforce simp: stamp_live split: if_splits)+
  from assms(1) show ?thesis
  proof (cases rule: session_use.cases)
    case ses_wait
    then show ?thesis using assms(3) rd_get_back by fastforce
  next
    case (ses_touch sid1 x)
    obtain y d where g: "get_session_record cfg db sid1 now = (y, d)" by (cases "get_session_record cfg db sid1 now")
    show ?thesis
    proof (cases y)
      case None
      then show ?thesis using trim [OF get_trimmed [OF g]] ses_touch assms(3) g by (simp add: touch_def)
    next
      case (Some r)
      note s = get_served [OF g [unfolded Some]]
      then have "rec = r\<lparr>se_seen := now\<rparr> \<or> live db now sid = Some rec"
        using ses_touch assms(3) g Some by (auto simp: touch_def Let_def split: if_splits)
      then show ?thesis using s by (metis session_record.select_convs(5) session_record.update_convs(6) session_record.surjective)
    qed
  next
    case (ses_rotate sid1 new_sid ov x)
    obtain y d where g: "get_session_record cfg db sid1 now = (y, d)" by (cases "get_session_record cfg db sid1 now")
    show ?thesis
    proof (cases y)
      case None
      then show ?thesis using trim [OF get_trimmed [OF g]] ses_rotate assms(3) g by (simp add: regenerate_id_def)
    next
      case (Some r)
      then show ?thesis using rotate_cases(3) [OF assms(2) g [unfolded Some] ses_rotate(2,3), of sid] ses_rotate(1) assms(3) get_served [OF g [unfolded Some]]
        by (metis option.inject replaced_fields(2) option.distinct(1))
    qed
  next
    case (ses_version uid v n)
    then have "live (fold (stamp_version now v) (zmembers (prune_user_index db uid now) now uid) (prune_user_index db uid now)) now sid = Some rec"
      using assms(3) by (auto simp: set_permissions_version_def Let_def)
    from stamps [OF this] show ?thesis using trim [OF prune_trimmed] by (metis prune_trimmed trimmed_def order_refl option.distinct(1))
  next
    case (ses_revoke uid except n)
    then have "trimmed now db db'" using trimmed_drop_remove by (auto simp: destroy_all_for_user_def Let_def)
    then show ?thesis using trim assms(3) ses_revoke by blast
  next
    case (ses_list uid xs)
    then have "trimmed now (prune_user_index db uid now) db'" by (auto simp: list_for_user_def Let_def intro: list_trimmed)
    then show ?thesis using trim trimmed_trans [OF prune_trimmed] assms(3) ses_list by blast
  next
    case (ses_resolve sha uid h x)
    then have "db' = prune_user_index db uid now" by (simp add: resolve_handle_def Let_def)
    then show ?thesis using trim [OF prune_trimmed] assms(3) ses_resolve by blast
  qed (use trim get_trimmed destroy_trimmed assms(3) in blast)+
qed

lemma uses_created:
  assumes "(session_use cfg)\<^sup>*\<^sup>* (now, db) s" "session_inv cfg (now, db)"
  shows "now \<le> fst s \<and> session_inv cfg s \<and> (\<forall>sid rec. live (snd s) (fst s) sid = Some rec \<longrightarrow> se_created rec \<le> now)"
  using assms(1)
proof (induction rule: rtranclp_induct)
  case base
  then show ?case using assms(2) session_invD(2) [OF assms(2)] by auto
next
  case (step s s')
  then have le: "fst s \<le> fst s'" by (auto elim: session_use.cases)
  obtain n d t d' where e: "s = (n, d)" "s' = (t, d')" by (cases s, cases s')
  have "\<exists>sid0 rec0. live d n sid0 = Some rec0 \<and> se_created rec = se_created rec0" if "live d' t sid = Some rec" for sid rec
    by (rule use_created [OF _ _ that]) (use step e in auto)
  then show ?case using step.IH le session_use_inv [OF step.hyps(2)] e by fastforce
qed


section \<open>Calls that overlap\<close>
















lemma stamp_index [simp]: "rd_get (index (fold (stamp_version now v) sids db)) t u = rd_get (index db) t u"
  by (induction sids arbitrary: db) (auto simp: stamp_version_def split: option.splits)





section \<open>Properties\<close>

lemma served_live: "fst (get_session_record cfg db sid t) = Some rec \<Longrightarrow> live db t sid = Some rec \<and> t < absolute_expires_at cfg (se_created rec)"
  using get_served [of cfg db sid t rec] by (cases "get_session_record cfg db sid t") auto




definition house_sessions :: session_settings where
  "house_sessions = \<lparr>session_absolute = 43200, session_idle_privileged = 1800, session_idle_staff = 3600, session_reauth = 300,
     session_max_concurrent = 3, session_cap_policy = ''evict_oldest''\<rparr>"

definition no_sessions :: session_db where
  "no_sessions = \<lparr>hashes = (\<lambda>_. None), index = (\<lambda>_. None)\<rparr>"

definition staff_sign_in :: sign_in where
  "staff_sign_in = \<lparr>si_user = 5, si_email = ''a@b'', si_version = 0, si_roles = [''staff''], si_ip = None, si_agent = None,
     si_must_change = False, si_mfa_setup = False, si_mfa_auth = True\<rparr>"

definition signed_in :: session_db where
  "signed_in = (case create_session house_sessions no_sessions staff_sign_in ''s1'' 0 of Inl e \<Rightarrow> no_sessions | Inr (rec, db) \<Rightarrow> db)"

lemma signed_in_reach: "reach session_init (session_step house_sessions) (0, signed_in)"
proof -
  have "reach session_init (session_step house_sessions) (0, no_sessions)" by (rule reach_init) (simp add: session_init_def no_sessions_def)
  moreover obtain rec db where c: "create_session house_sessions no_sessions staff_sign_in ''s1'' 0 = Inr (rec, db)"
    by (simp add: create_session_def insert_session_def enforce_cap_def prune_user_index_def zmembers_def no_sessions_def index_remove_def rd_get_def Let_def house_sessions_def)
  moreover have "fresh_sid no_sessions ''s1''" by (simp add: fresh_sid_def no_sessions_def)
  then have "session_step house_sessions (0, no_sessions) (0, db)" by (rule ses_create [OF c])
  ultimately show ?thesis using reach_step by (fastforce simp: signed_in_def c)
qed

lemma signed_in_served: "map_option se_user (fst (get_session_record house_sessions signed_in ''s1'' 0)) = Some 5"
  by code_simp













text \<open>
  C17. A session cannot be prolonged: whatever is done with the sessions of a moment short of signing in again, reading,
  touching and rotating them as often as one likes, once the absolute lifetime has passed none of them is served,
  under its own id or any id it was rotated to.
\<close>

theorem session_not_prolonged:
  assumes "reach session_init (session_step cfg) (now, db)" "(session_use cfg)\<^sup>*\<^sup>* (now, db) (t, db')" "now + seconds (session_absolute cfg) \<le> t"
  shows "fst (get_session_record cfg db' sid t) = None"
proof (rule ccontr)
  assume "fst (get_session_record cfg db' sid t) \<noteq> None"
  then obtain rec where r: "live db' t sid = Some rec" "t < absolute_expires_at cfg (se_created rec)" using served_live by fastforce
  then have "se_created rec \<le> now" using uses_created [OF assms(2) sessions.reach_inv [OF assms(1)]] by simp
  then show False using r(2) assms(3) by (simp add: absolute_expires_at_def)
qed

theorem session_not_prolonged_witness:
  "fst (get_session_record house_sessions (snd (touch house_sessions signed_in ''s1'' 0)) ''s1'' 43200000000) = None"
proof -
  have "session_use house_sessions (0, signed_in) (0, snd (touch house_sessions signed_in ''s1'' 0))" by (rule ses_touch) (rule prod.collapse [symmetric])
  then have "(session_use house_sessions)\<^sup>*\<^sup>* (0, signed_in) (43200000000, snd (touch house_sessions signed_in ''s1'' 0))"
    by (rule converse_rtranclp_into_rtranclp [OF _ r_into_rtranclp]) (simp add: ses_wait)
  from session_not_prolonged [OF signed_in_reach this] show ?thesis by (simp add: house_sessions_def)
qed

text \<open>
  Revoking is complete and exact: from then on no session of the user is served except the one that was spared,
  and every other user's session is served as before.
\<close>

theorem revocation_complete:
  assumes "reach session_init (session_step cfg) (now, db)" "destroy_all_for_user db u except now = (n, db')" "now \<le> t"
  shows "fst (get_session_record cfg db' sid t) =
    (case fst (get_session_record cfg db sid t) of
       None \<Rightarrow> None
     | Some rec \<Rightarrow> if se_user rec = u \<and> Some sid \<noteq> except then None else Some rec)"
proof -
  have i: "session_inv cfg (now, db)" by (rule sessions.reach_inv [OF assms(1)])
  let ?sids = "filter (\<lambda>s. Some s \<noteq> except) (zmembers db now u)"
  have db': "db' = index_remove now u ?sids (drop_hashes ?sids db)" using assms(2) by (simp add: destroy_all_for_user_def Let_def)
  have l: "live db' t sid = (if sid \<in> set ?sids then None else live db t sid)" by (simp add: db')
  have k: "sid \<in> set ?sids \<longleftrightarrow> se_user rec = u \<and> Some sid \<noteq> except" if "live db t sid = Some rec" "t < absolute_expires_at cfg (se_created rec)" for rec
  proof -
    have l0: "live db now sid = Some rec" by (rule rd_get_back [OF that(1) assms(3)])
    then have "sid \<in> set (zmembers db now (se_user rec))" using session_invD(3) [OF i l0 order_refl] that(2) assms(3) by simp
    then show ?thesis using session_invD(5) [OF i _ l0, of u] by (cases "se_user rec = u") auto
  qed
  show ?thesis
  proof (cases "fst (get_session_record cfg db sid t)")
    case None
    then show ?thesis using l by (auto simp: get_session_record_def split: option.splits if_splits)
  next
    case (Some rec)
    note r = served_live [OF Some]
    then have e: "expiry_reason cfg (se_created rec) (se_seen rec) (se_tier rec) t = None" using Some by (simp add: get_session_record_def split: if_splits)
    show ?thesis using l k [of rec] r e Some by (cases "sid \<in> set ?sids") (simp_all add: get_session_record_def)
  qed
qed

theorem revocation_complete_witness:
  "fst (get_session_record house_sessions (snd (destroy_all_for_user signed_in 5 None 0)) ''s1'' 0) = None"
  using revocation_complete [OF signed_in_reach prod.collapse [symmetric], of 0 5 None "''s1''"] signed_in_served
  by (auto split: option.splits)

lemma stamps_live:
  "live (fold (stamp_version now v) sids db) now s = (if s \<in> set sids then map_option (\<lambda>rec. rec\<lparr>se_version := v\<rparr>) (live db now s) else live db now s)"
proof (induction sids arbitrary: db)
  case (Cons a sids)
  then show ?case by (cases "live db now s") (auto simp: stamp_live)
qed simp

lemma stamped_live:
  assumes i: "session_inv cfg (now, db)" and s: "set_permissions_version db u v now = (n, db')"
    and l: "live db' now sid = Some rec" "now < absolute_expires_at cfg (se_created rec)"
  obtains rec0 where "live db now sid = Some rec0" "rec = (if se_user rec0 = u then rec0\<lparr>se_version := v\<rparr> else rec0)"
proof -
  let ?db1 = "prune_user_index db u now"
  have i1: "session_inv cfg (now, ?db1)" by (rule trimmed_inv [OF i prune_trimmed])
  have h: "hashes ?db1 = hashes db" by (simp add: prune_user_index_def)
  have "live db' now sid = (if sid \<in> set (zmembers ?db1 now u) then map_option (\<lambda>rec. rec\<lparr>se_version := v\<rparr>) (live db now sid) else live db now sid)"
    using s by (auto simp: set_permissions_version_def Let_def stamps_live h)
  then obtain rec0 where r0: "live db now sid = Some rec0" "rec = (if sid \<in> set (zmembers ?db1 now u) then rec0\<lparr>se_version := v\<rparr> else rec0)"
    using l(1) by (cases "live db now sid") (auto split: if_splits)
  then have "se_created rec = se_created rec0" by simp
  then have "sid \<in> set (zmembers ?db1 now u) \<longleftrightarrow> se_user rec0 = u"
    using session_invD(3) [OF i1, of sid rec0 now] session_invD(5) [OF i1, of sid u rec0] r0 l(2) h by auto
  then show thesis using that [OF r0(1)] r0(2) by simp
qed

text \<open>
  A change of permissions reaches every session: after the stamp every session of the user that is served carries
  the new version, under which nothing has been cached, and no other session changes.
\<close>

theorem version_reaches_every_session:
  assumes "reach session_init (session_step cfg) (now, db)" "set_permissions_version db u v now = (n, db')"
    "fst (get_session_record cfg db' sid now) = Some rec"
  shows "\<exists>rec0. fst (get_session_record cfg db sid now) = Some rec0 \<and> rec = (if se_user rec0 = u then rec0\<lparr>se_version := v\<rparr> else rec0)"
proof -
  have r: "live db' now sid = Some rec" "now < absolute_expires_at cfg (se_created rec)" using served_live [OF assms(3)] by auto
  obtain rec0 where r0: "live db now sid = Some rec0" "rec = (if se_user rec0 = u then rec0\<lparr>se_version := v\<rparr> else rec0)"
    by (rule stamped_live [OF sessions.reach_inv [OF assms(1)] assms(2) r])
  then have "se_created rec = se_created rec0" "se_seen rec = se_seen rec0" "se_tier rec = se_tier rec0" by simp_all
  then have "fst (get_session_record cfg db sid now) = Some rec0" using r0(1) r(1) assms(3) by (simp add: get_session_record_def split: if_splits)
  then show ?thesis using r0(2) by blast
qed

theorem version_reaches_every_session_witness:
  "\<exists>rec. fst (get_session_record house_sessions (snd (set_permissions_version signed_in 5 7 0)) ''s1'' 0) = Some rec \<and> se_version rec = 7"
proof -
  have "fst (get_session_record house_sessions (snd (set_permissions_version signed_in 5 7 0)) ''s1'' 0) \<noteq> None" by code_simp
  then obtain rec where r: "fst (get_session_record house_sessions (snd (set_permissions_version signed_in 5 7 0)) ''s1'' 0) = Some rec" by blast
  obtain rec0 where "fst (get_session_record house_sessions signed_in ''s1'' 0) = Some rec0" "rec = (if se_user rec0 = 5 then rec0\<lparr>se_version := 7\<rparr> else rec0)"
    using version_reaches_every_session [OF signed_in_reach prod.collapse [symmetric] r] by blast
  then show ?thesis using signed_in_served r by simp
qed

end
