(* ===== verification/Audit_Chain.thy ===== *)
theory Audit_Chain
  imports OC_Prelude Json_Values Org_Units "HOL-Library.List_Lexorder" "HOL-Library.Char_ord"
begin

text \<open>
  \<open>core/audit.py\<close>: the hash-chained log every flush of the session writes, its verification, the redaction of secret
  columns and the semantic events of the authentication code. The digest, \<open>repr\<close> of a float, base64 and
  \<open>datetime.isoformat\<close> are parameters; JSONB returns the document that was stored.
\<close>

section \<open>Canonical text\<close>

text \<open>The values of columns; texts that the standard library computes are carried by their constructors.\<close>

datatype pyval =
    PyNone
  | PyBool bool
  | PyInt int
  | PyStr string
  | PyDecimal string
  | PyFloat string
  | PyDatetime string
  | PyDate string
  | PyBytes string
  | PyDict "(string \<times> pyval) list"
  | PyList "pyval list"
  | PyOther string

primrec serialize_value :: "(string \<Rightarrow> string) \<Rightarrow> pyval \<Rightarrow> json" where
  "serialize_value b64 PyNone = JNull"
| "serialize_value b64 (PyBool b) = JBool b"
| "serialize_value b64 (PyInt n) = JInt n"
| "serialize_value b64 (PyStr s) = JStr s"
| "serialize_value b64 (PyDecimal s) = JStr s"
| "serialize_value b64 (PyFloat s) = JStr s"
| "serialize_value b64 (PyDatetime s) = JStr s"
| "serialize_value b64 (PyDate s) = JStr s"
| "serialize_value b64 (PyBytes s) = JStr (b64 s)"
| "serialize_value b64 (PyDict kvs) = JObj (map (map_prod id (serialize_value b64)) kvs)"
| "serialize_value b64 (PyList vs) = JList (map (serialize_value b64) vs)"
| "serialize_value b64 (PyOther s) = JStr s"

definition py_int_str :: "int \<Rightarrow> string" where
  "py_int_str n = (if n < 0 then CHR ''-'' # nat_digits (nat (- n)) else nat_digits (nat n))"

definition hex_digit :: "nat \<Rightarrow> char" where
  "hex_digit n = (if n < 10 then char_of (48 + n) else char_of (87 + n))"

text \<open>\<open>json.dumps\<close> with \<open>ensure_ascii\<close>: printable ASCII stays, everything else is escaped.\<close>

definition json_char :: "char \<Rightarrow> string" where
  "json_char c =
     (let n = of_char c :: nat in
      if n = 34 then [char_of (92::nat), char_of (34::nat)]
      else if n = 92 then [char_of (92::nat), char_of (92::nat)]
      else if n = 10 then [char_of (92::nat), CHR ''n'']
      else if n = 13 then [char_of (92::nat), CHR ''r'']
      else if n = 9 then [char_of (92::nat), CHR ''t'']
      else if n = 8 then [char_of (92::nat), CHR ''b'']
      else if n = 12 then [char_of (92::nat), CHR ''f'']
      else if 32 \<le> n \<and> n \<le> 126 then [c]
      else char_of (92::nat) # ''u00'' @ [hex_digit (n div 16), hex_digit (n mod 16)])"

definition json_text :: "string \<Rightarrow> string" where
  "json_text s = char_of (34::nat) # concat (map json_char s) @ [char_of (34::nat)]"

fun commas :: "string list \<Rightarrow> string" where
  "commas [] = []"
| "commas [x] = x"
| "commas (x # y # zs) = x @ '','' @ commas (y # zs)"

primrec canonical_json :: "(int \<Rightarrow> int \<Rightarrow> string) \<Rightarrow> json \<Rightarrow> string" where
  "canonical_json frepr JNull = ''null''"
| "canonical_json frepr (JBool b) = (if b then ''true'' else ''false'')"
| "canonical_json frepr (JInt n) = py_int_str n"
| "canonical_json frepr (JFloat c e) = frepr c e"
| "canonical_json frepr (JStr s) = json_text s"
| "canonical_json frepr (JList xs) = ''['' @ commas (map (canonical_json frepr) xs) @ '']''"
| "canonical_json frepr (JObj kvs) =
     ''{'' @ commas (map (\<lambda>(k, v). json_text k @ '':'' @ v) (sort_key fst (map (map_prod id (canonical_json frepr)) kvs))) @ ''}''"

section \<open>The chain\<close>

record audit_row =
  al_id :: int
  al_at :: instant
  al_actor :: "int option"
  al_request :: "string option"
  al_table :: string
  al_pk :: int
  al_action :: string
  al_old :: "json option"
  al_new :: "json option"
  al_prev :: string
  al_hash :: string

text \<open>The library functions the chain is computed with.\<close>

record codec =
  sha256 :: "string \<Rightarrow> string"
  float_repr :: "int \<Rightarrow> int \<Rightarrow> string"
  base64 :: "string \<Rightarrow> string"
  iso_utc :: "instant \<Rightarrow> string"

definition GENESIS_HASH :: string where
  "GENESIS_HASH = replicate 64 (CHR ''0'')"

definition REDACTED :: string where
  "REDACTED = ''[redacted]''"

definition or_null :: "('a \<Rightarrow> json) \<Rightarrow> 'a option \<Rightarrow> json" where
  "or_null f x = (case x of None \<Rightarrow> JNull | Some v \<Rightarrow> f v)"

definition build_payload ::
  "codec \<Rightarrow> string \<Rightarrow> int \<Rightarrow> string \<Rightarrow> int option \<Rightarrow> string option \<Rightarrow> instant \<Rightarrow> json option \<Rightarrow> json option \<Rightarrow> json" where
  "build_payload cd table pk action actor request at old new =
     JObj [(''table'', JStr table), (''row_pk'', JInt pk), (''action'', JStr action), (''actor_id'', or_null JInt actor),
       (''request_id'', or_null JStr request), (''at'', JStr (iso_utc cd at)), (''old'', or_null id old), (''new'', or_null id new)]"

definition compute_row_hash :: "codec \<Rightarrow> string \<Rightarrow> json \<Rightarrow> string" where
  "compute_row_hash cd prev payload = sha256 cd (prev @ ''|'' @ canonical_json (float_repr cd) payload)"

definition payload_of :: "codec \<Rightarrow> audit_row \<Rightarrow> json" where
  "payload_of cd r = build_payload cd (al_table r) (al_pk r) (al_action r) (al_actor r) (al_request r) (al_at r) (al_old r) (al_new r)"

fun verify_from :: "codec \<Rightarrow> string \<Rightarrow> audit_row list \<Rightarrow> int option" where
  "verify_from cd prev [] = None"
| "verify_from cd prev (r # rs) =
     (if al_prev r \<noteq> prev \<or> al_hash r \<noteq> compute_row_hash cd prev (payload_of cd r) then Some (al_id r)
      else verify_from cd (al_hash r) rs)"

definition verify_chain :: "codec \<Rightarrow> audit_row list \<Rightarrow> int option" where
  "verify_chain cd rows = verify_from cd GENESIS_HASH rows"

section \<open>Writing\<close>

record audit_db =
  al_rows :: "audit_row list"
  al_seq :: int

text \<open>What a flush finds: an object's table and key, whether it is a log itself, and its columns.\<close>

record column_change =
  cc_key :: string
  cc_old :: pyval
  cc_new :: pyval

datatype image = Inserted "(string \<times> pyval) list" | Modified bool "column_change list"

record flushed =
  fl_table :: string
  fl_pk :: int
  fl_log :: bool
  fl_excluded :: "string set"
  fl_image :: image

definition column_json :: "codec \<Rightarrow> string set \<Rightarrow> string \<Rightarrow> pyval \<Rightarrow> json" where
  "column_json cd excluded k v =
     (if k \<in> excluded then (if v \<noteq> PyNone then JStr REDACTED else JNull) else serialize_value (base64 cd) v)"

definition change_action :: "bool \<Rightarrow> column_change list \<Rightarrow> string" where
  "change_action soft cs =
     (if soft \<and> (\<exists>c \<in> set cs. cc_key c = ''deleted_at'' \<and> cc_new c \<noteq> PyNone) then ''soft_delete'' else ''update'')"

text \<open>The action and the old and new images of one object; none where nothing is to be recorded.\<close>

definition capture_change :: "codec \<Rightarrow> flushed \<Rightarrow> (string \<times> json option \<times> json option) option" where
  "capture_change cd f =
     (if fl_log f then None
      else (case fl_image f of
          Inserted cols \<Rightarrow> Some (''insert'', None, Some (JObj (map (\<lambda>(k, v). (k, column_json cd (fl_excluded f) k v)) cols)))
        | Modified soft cs \<Rightarrow>
            if cs = [] then None
            else Some (change_action soft cs, Some (JObj (map (\<lambda>c. (cc_key c, column_json cd (fl_excluded f) (cc_key c) (cc_old c))) cs)),
                   Some (JObj (map (\<lambda>c. (cc_key c, column_json cd (fl_excluded f) (cc_key c) (cc_new c))) cs)))))"

record entry =
  en_table :: string
  en_pk :: int
  en_action :: string
  en_old :: "json option"
  en_new :: "json option"
  en_at :: instant

definition last_hash :: "audit_row list \<Rightarrow> string" where
  "last_hash rows = (if rows = [] \<or> al_hash (last rows) = [] then GENESIS_HASH else al_hash (last rows))"

definition add_row :: "codec \<Rightarrow> int option \<Rightarrow> string option \<Rightarrow> audit_db \<Rightarrow> entry \<Rightarrow> audit_db" where
  "add_row cd actor request db e =
     (let prev = last_hash (al_rows db);
          payload = build_payload cd (en_table e) (en_pk e) (en_action e) actor request (en_at e) (en_old e) (en_new e);
          r = \<lparr>al_id = al_seq db + 1, al_at = en_at e, al_actor = actor, al_request = request, al_table = en_table e, al_pk = en_pk e,
            al_action = en_action e, al_old = en_old e, al_new = en_new e, al_prev = prev, al_hash = compute_row_hash cd prev payload\<rparr> in
      \<lparr>al_rows = al_rows db @ [r], al_seq = al_seq db + 1\<rparr>)"

definition captured :: "codec \<Rightarrow> flushed \<times> instant \<Rightarrow> entry option" where
  "captured cd p = map_option (\<lambda>(action, old, new).
     \<lparr>en_table = fl_table (fst p), en_pk = fl_pk (fst p), en_action = action, en_old = old, en_new = new, en_at = snd p\<rparr>) (capture_change cd (fst p))"

text \<open>
  One flush: a hard delete is refused; otherwise the new objects and then the changed ones are recorded, each with the
  time its row is written.
\<close>

definition flush_audit ::
  "codec \<Rightarrow> audit_db \<Rightarrow> int option \<Rightarrow> string option \<Rightarrow> nat \<Rightarrow> (flushed \<times> instant) list \<Rightarrow> audit_db res" where
  "flush_audit cd db actor request deleted objects =
     (if deleted \<noteq> 0 then Inl RuntimeError
      else Inr (foldl (add_row cd actor request) db (List.map_filter (captured cd) objects)))"

definition FORBIDDEN_EVENT_KEYS :: "string set" where
  "FORBIDDEN_EVENT_KEYS = {''password'', ''password_hash'', ''mfa_secret'', ''secret'', ''session_id'', ''sid'', ''code'', ''totp'', ''token''}"

record auth_event =
  ae_event :: string
  ae_subject :: int
  ae_actor :: "int option"
  ae_request :: "string option"
  ae_data :: "(string \<times> pyval) list"
  ae_table :: string
  ae_pk :: "int option"

text \<open>The ambient actor and request of the session fill in where the call names none.\<close>

definition append_auth_event :: "codec \<Rightarrow> audit_db \<Rightarrow> int option \<Rightarrow> string option \<Rightarrow> auth_event \<Rightarrow> instant \<Rightarrow> audit_db res" where
  "append_auth_event cd db ctx_actor ctx_request ev now =
     (if \<exists>k \<in> fst ` set (ae_data ev). k \<in> FORBIDDEN_EVENT_KEYS then Inl ValueError
      else
        (let actor = (case ae_actor ev of Some a \<Rightarrow> Some a | None \<Rightarrow> ctx_actor);
             request = (case ae_request ev of Some r \<Rightarrow> Some r | None \<Rightarrow> ctx_request) in
         Inr (add_row cd actor request db
           \<lparr>en_table = ae_table ev, en_pk = (case ae_pk ev of Some k \<Rightarrow> k | None \<Rightarrow> ae_subject ev), en_action = ''insert'', en_old = None,
            en_new = Some (JObj ((''event'', JStr (ae_event ev)) # map (map_prod id (serialize_value (base64 cd))) (ae_data ev))), en_at = now\<rparr>)))"

section \<open>The chain holds\<close>

inductive audit_step :: "codec \<Rightarrow> audit_db \<Rightarrow> audit_db \<Rightarrow> bool" for cd where
  aud_flush: "flush_audit cd db actor request deleted objects = Inr db' \<Longrightarrow> audit_step cd db db'"
| aud_event: "append_auth_event cd db ctx_actor ctx_request ev now = Inr db' \<Longrightarrow> audit_step cd db db'"

definition audit_init :: "audit_db \<Rightarrow> bool" where
  "audit_init db = (al_rows db = [])"

text \<open>A digest is a text of 64 characters.\<close>

definition digest_ok :: "codec \<Rightarrow> bool" where
  "digest_ok cd = (\<forall>x. length (sha256 cd x) = 64)"

lemma verify_from_append:
  "verify_from cd prev (rs @ ss) =
     (case verify_from cd prev rs of Some i \<Rightarrow> Some i | None \<Rightarrow> verify_from cd (if rs = [] then prev else al_hash (last rs)) ss)"
  by (induction rs arbitrary: prev) (simp_all del: last.simps split: option.splits, auto)

lemma hash_nonempty: "digest_ok cd \<Longrightarrow> compute_row_hash cd prev p \<noteq> []"
  by (auto simp: digest_ok_def compute_row_hash_def dest: spec [where x = "prev @ ''|'' @ canonical_json (float_repr cd) p"])

lemma verified_hash: "digest_ok cd \<Longrightarrow> verify_from cd prev rs = None \<Longrightarrow> r \<in> set rs \<Longrightarrow> al_hash r \<noteq> []"
proof (induction rs arbitrary: prev)
  case (Cons x rs)
  then show ?case using hash_nonempty [of cd prev "payload_of cd x"] by (auto split: if_splits)
qed simp

lemma last_hash_verified: "digest_ok cd \<Longrightarrow> verify_chain cd rows = None \<Longrightarrow> last_hash rows = (if rows = [] then GENESIS_HASH else al_hash (last rows))"
  using verified_hash [of cd GENESIS_HASH rows "last rows"] by (auto simp: last_hash_def verify_chain_def)

lemma add_row_verified:
  assumes "digest_ok cd" "verify_chain cd (al_rows db) = None"
  shows "verify_chain cd (al_rows (add_row cd actor request db e)) = None"
  using assms last_hash_verified [OF assms] by (simp add: add_row_def Let_def verify_chain_def verify_from_append payload_of_def)

lemma add_rows_verified:
  "digest_ok cd \<Longrightarrow> verify_chain cd (al_rows db) = None \<Longrightarrow> verify_chain cd (al_rows (foldl (add_row cd actor request) db es)) = None"
proof (induction es arbitrary: db)
  case (Cons e es)
  then show ?case using add_row_verified [OF Cons.prems, of actor request e] by simp
qed simp

lemma audit_step_verified: "digest_ok cd \<Longrightarrow> verify_chain cd (al_rows db) = None \<Longrightarrow> audit_step cd db db' \<Longrightarrow> verify_chain cd (al_rows db') = None"
  by (erule audit_step.cases)
    (auto simp: flush_audit_def append_auth_event_def Let_def intro: add_rows_verified add_row_verified split: if_splits)

lemma audit_system: "digest_ok cd \<Longrightarrow> invariant_system audit_init (audit_step cd) (\<lambda>db. verify_chain cd (al_rows db) = None)"
  by unfold_locales (simp add: audit_init_def verify_chain_def, rule audit_step_verified)


text \<open>The texts the digest is applied to when a log is verified.\<close>

definition row_text :: "codec \<Rightarrow> audit_row \<Rightarrow> string" where
  "row_text cd r = canonical_json (float_repr cd) (payload_of cd r)"

definition hashed :: "codec \<Rightarrow> audit_row list \<Rightarrow> string set" where
  "hashed cd rows = (\<lambda>r. al_prev r @ ''|'' @ row_text cd r) ` set rows"

definition end_hash :: "audit_row list \<Rightarrow> string" where
  "end_hash rows = (if rows = [] then GENESIS_HASH else al_hash (last rows))"

lemma verified_snoc:
  "verify_chain cd (rs @ [r]) = None \<longleftrightarrow> verify_chain cd rs = None \<and> al_prev r = end_hash rs \<and> al_hash r = sha256 cd (al_prev r @ ''|'' @ row_text cd r)"
  by (auto simp: verify_chain_def verify_from_append end_hash_def compute_row_hash_def row_text_def split: option.splits)

lemma end_hash_length: "digest_ok cd \<Longrightarrow> verify_chain cd rs = None \<Longrightarrow> length (end_hash rs) = 64"
  by (cases rs rule: rev_cases) (auto simp: verified_snoc digest_ok_def end_hash_def GENESIS_HASH_def)

lemma same_end_same_texts:
  assumes "digest_ok cd" "inj_on (sha256 cd) (hashed cd rs \<union> hashed cd ss)" "GENESIS_HASH \<notin> sha256 cd ` (hashed cd rs \<union> hashed cd ss)"
    "verify_chain cd rs = None" "verify_chain cd ss = None" "end_hash rs = end_hash ss"
  shows "map (row_text cd) rs = map (row_text cd) ss"
  using assms(2-6)
proof (induction rs arbitrary: ss rule: rev_induct)
  case Nil
  then show ?case by (cases ss rule: rev_cases) (auto simp: verified_snoc end_hash_def hashed_def)
next
  case (snoc r rs)
  then obtain us u where ss: "ss = us @ [u]" by (cases ss rule: rev_cases) (auto simp: verified_snoc end_hash_def hashed_def)
  let ?t = "\<lambda>x. al_prev x @ ''|'' @ row_text cd x"
  have v: "verify_chain cd rs = None" "al_prev r = end_hash rs" "al_hash r = sha256 cd (?t r)"
    "verify_chain cd us = None" "al_prev u = end_hash us" "al_hash u = sha256 cd (?t u)"
    using snoc.prems(3,4) by (simp_all add: ss verified_snoc)
  have "sha256 cd (?t r) = sha256 cd (?t u)" using snoc.prems(5) v by (simp add: ss end_hash_def)
  moreover have "?t r \<in> hashed cd (rs @ [r])" "?t u \<in> hashed cd ss" by (simp_all add: ss hashed_def)
  ultimately have "?t r = ?t u" using inj_onD [OF snoc.prems(1)] by blast
  then have e: "end_hash rs = end_hash us" "row_text cd r = row_text cd u"
    using end_hash_length [OF assms(1)] v by (simp_all add: append_eq_append_conv)
  have "map (row_text cd) rs = map (row_text cd) us"
    by (rule snoc.IH [OF _ _ v(1,4) e(1)]) (use snoc.prems(1,2) in \<open>auto simp: ss hashed_def intro: inj_on_subset\<close>)
  then show ?case by (simp add: ss e)
qed

section \<open>Properties\<close>

text \<open>
  The log always verifies: whatever flushes and events were written, the chain holds from genesis, and it holds for
  every prefix of the log too, so the log as it was at any earlier moment can be verified.
\<close>

theorem chain_always_verifies:
  assumes "digest_ok cd" "reach audit_init (audit_step cd) db"
  shows "verify_chain cd (al_rows db) = None \<and> verify_chain cd (take n (al_rows db)) = None"
proof -
  have v: "verify_chain cd (al_rows db) = None" by (rule invariant_system.reach_inv [OF audit_system [OF assms(1)] assms(2)])
  then have "verify_chain cd (take n (al_rows db) @ drop n (al_rows db)) = None" by simp
  then have "verify_chain cd (take n (al_rows db)) = None" unfolding verify_chain_def verify_from_append by (simp split: option.splits)
  with v show ?thesis by blast
qed

definition toy_codec :: codec where
  "toy_codec = \<lparr>sha256 = (\<lambda>x. take 64 (rev x @ replicate 64 (CHR ''x''))), float_repr = (\<lambda>c e. []), base64 = id, iso_utc = (\<lambda>t. py_int_str t)\<rparr>"

definition sample_change :: flushed where
  "sample_change = \<lparr>fl_table = ''users'', fl_pk = 5, fl_log = False, fl_excluded = {''mfa''},
     fl_image = Modified True [\<lparr>cc_key = ''mfa'', cc_old = PyStr ''h1'', cc_new = PyStr ''h2''\<rparr>]\<rparr>"

definition sample_log :: audit_db where
  "sample_log = (case flush_audit toy_codec \<lparr>al_rows = [], al_seq = 0\<rparr> (Some 5) None 0 [(sample_change, 7)] of Inl e \<Rightarrow> \<lparr>al_rows = [], al_seq = 0\<rparr> | Inr db \<Rightarrow> db)"

lemma toy_digest: "digest_ok toy_codec"
  by (auto simp: digest_ok_def toy_codec_def min_def)

lemma sample_log_reach: "reach audit_init (audit_step toy_codec) sample_log"
proof -
  have "reach audit_init (audit_step toy_codec) \<lparr>al_rows = [], al_seq = 0\<rparr>" by (rule reach_init) (simp add: audit_init_def)
  moreover have "audit_step toy_codec \<lparr>al_rows = [], al_seq = 0\<rparr> sample_log"
    by (rule aud_flush [where actor = "Some 5" and request = None and deleted = 0 and objects = "[(sample_change, 7)]"])
      (simp add: sample_log_def flush_audit_def)
  ultimately show ?thesis by (rule reach_step)
qed

theorem chain_always_verifies_witness: "verify_chain toy_codec (al_rows sample_log) = None \<and> length (al_rows sample_log) = 1"
proof -
  have "length (al_rows sample_log) = 1" by code_simp
  then show ?thesis using chain_always_verifies [OF toy_digest sample_log_reach] by simp
qed

text \<open>
  C9. Tampering shows: a log that verifies and ends in the same hash as the genuine log has the same number of rows with
  the same content, unless the digest collides on the texts of the two logs. Nothing can be changed, dropped, added
  or reordered before a row whose hash is known.
\<close>

theorem tampering_shows:
  assumes "digest_ok cd" "reach audit_init (audit_step cd) db" "inj_on (sha256 cd) (hashed cd (al_rows db) \<union> hashed cd forged)"
    "GENESIS_HASH \<notin> sha256 cd ` (hashed cd (al_rows db) \<union> hashed cd forged)"
    "map (row_text cd) forged \<noteq> map (row_text cd) (al_rows db)" "end_hash forged = end_hash (al_rows db)"
  shows "\<exists>r \<in> set forged. verify_chain cd forged = Some (al_id r)"
proof -
  have "verify_chain cd (al_rows db) = None" by (rule invariant_system.reach_inv [OF audit_system [OF assms(1)] assms(2)])
  then have "verify_chain cd forged \<noteq> None"
    using same_end_same_texts [OF assms(1,3,4)] assms(5,6) by metis
  moreover have "verify_from cd prev rows = Some i \<Longrightarrow> \<exists>r \<in> set rows. al_id r = i" for prev rows i
    by (induction rows arbitrary: prev) (auto split: if_splits)
  ultimately show ?thesis by (fastforce simp: verify_chain_def)
qed

definition forged_log :: "audit_row list" where
  "forged_log = map (\<lambda>r. r\<lparr>al_pk := 6\<rparr>) (al_rows sample_log)"


definition sample_forgery :: bool where
  "sample_forgery =
     (case al_rows sample_log of
        [r] \<Rightarrow>
          (let s = r\<lparr>al_pk := 6\<rparr>; t = row_text toy_codec r; u = row_text toy_codec s;
               h = sha256 toy_codec (al_prev r @ ''|'' @ t); k = sha256 toy_codec (al_prev r @ ''|'' @ u) in
           h \<noteq> k \<and> GENESIS_HASH \<noteq> h \<and> GENESIS_HASH \<noteq> k \<and> t \<noteq> u)
      | _ \<Rightarrow> False)"

lemma sample_forgery_holds: "sample_forgery"
  by code_simp

theorem tampering_shows_witness: "\<exists>r \<in> set forged_log. verify_chain toy_codec forged_log = Some (al_id r)"
proof -
  obtain r where r: "al_rows sample_log = [r]" using sample_forgery_holds by (auto simp: sample_forgery_def split: list.splits)
  let ?s = "r\<lparr>al_pk := 6\<rparr>" and ?h = "\<lambda>r. al_prev r @ ''|'' @ row_text toy_codec r"
  have f: "forged_log = [?s]" by (simp add: forged_log_def r)
  have "sha256 toy_codec (?h r) \<noteq> sha256 toy_codec (?h ?s)" "GENESIS_HASH \<noteq> sha256 toy_codec (?h r)" "GENESIS_HASH \<noteq> sha256 toy_codec (?h ?s)"
    "row_text toy_codec r \<noteq> row_text toy_codec ?s"
    using sample_forgery_holds by (simp_all add: sample_forgery_def r Let_def)
  then show ?thesis
    by (intro tampering_shows [OF toy_digest sample_log_reach]) (auto simp: r f hashed_def end_hash_def)
qed

text \<open>Two images of a row that agree on everything but the values of excluded columns.\<close>

definition same_value :: "string set \<Rightarrow> string \<Rightarrow> pyval \<Rightarrow> pyval \<Rightarrow> bool" where
  "same_value excluded k v w = (if k \<in> excluded then (v = PyNone) = (w = PyNone) else v = w)"

fun same_image :: "string set \<Rightarrow> image \<Rightarrow> image \<Rightarrow> bool" where
  "same_image ex (Inserted cs) (Inserted ds) = list_all2 (\<lambda>c d. fst c = fst d \<and> same_value ex (fst c) (snd c) (snd d)) cs ds"
| "same_image ex (Modified s cs) (Modified t ds) =
     (s = t \<and> list_all2 (\<lambda>c d. cc_key c = cc_key d \<and> same_value ex (cc_key c) (cc_old c) (cc_old d) \<and> same_value ex (cc_key c) (cc_new c) (cc_new d)) cs ds)"
| "same_image ex _ _ = False"

definition same_public :: "flushed \<Rightarrow> flushed \<Rightarrow> bool" where
  "same_public f g = (fl_table f = fl_table g \<and> fl_pk f = fl_pk g \<and> fl_log f = fl_log g \<and> fl_excluded f = fl_excluded g \<and>
     same_image (fl_excluded f) (fl_image f) (fl_image g))"

lemma column_json_same: "same_value ex k v w \<Longrightarrow> column_json cd ex k v = column_json cd ex k w"
  by (simp add: same_value_def column_json_def split: if_splits)

lemma list_all2_map_eq: "list_all2 R xs ys \<Longrightarrow> (\<And>x y. R x y \<Longrightarrow> f x = g y) \<Longrightarrow> map f xs = map g ys"
  by (induction rule: list_all2_induct) auto

lemma list_all2_exists: "list_all2 R xs ys \<Longrightarrow> (\<And>x y. R x y \<Longrightarrow> P x = Q y) \<Longrightarrow> (\<exists>x \<in> set xs. P x) = (\<exists>y \<in> set ys. Q y)"
  by (induction rule: list_all2_induct) auto

lemma same_value_none: "same_value ex k v w \<Longrightarrow> (v = PyNone) = (w = PyNone)"
  by (auto simp: same_value_def split: if_splits)

lemma capture_same:
  assumes "same_public f g"
  shows "capture_change cd f = capture_change cd g"
proof (cases "fl_image f")
  case (Inserted cs)
  then obtain ds where d: "fl_image g = Inserted ds" "list_all2 (\<lambda>c d. fst c = fst d \<and> same_value (fl_excluded f) (fst c) (snd c) (snd d)) cs ds"
    using assms by (cases "fl_image g") (auto simp: same_public_def)
  have "map (\<lambda>(k, v). (k, column_json cd (fl_excluded f) k v)) cs = map (\<lambda>(k, v). (k, column_json cd (fl_excluded g) k v)) ds"
    by (rule list_all2_map_eq [OF d(2)]) (use assms in \<open>auto simp: same_public_def column_json_same split: prod.splits\<close>)
  then show ?thesis using assms Inserted d(1) by (simp add: capture_change_def same_public_def)
next
  case (Modified s cs)
  then obtain ds where d: "fl_image g = Modified s ds"
    "list_all2 (\<lambda>c d. cc_key c = cc_key d \<and> same_value (fl_excluded f) (cc_key c) (cc_old c) (cc_old d) \<and> same_value (fl_excluded f) (cc_key c) (cc_new c) (cc_new d)) cs ds"
    using assms by (cases "fl_image g") (auto simp: same_public_def)
  have ex: "fl_excluded g = fl_excluded f" using assms by (simp add: same_public_def)
  have "map (\<lambda>c. (cc_key c, column_json cd (fl_excluded f) (cc_key c) (cc_old c))) cs = map (\<lambda>c. (cc_key c, column_json cd (fl_excluded f) (cc_key c) (cc_old c))) ds"
    "map (\<lambda>c. (cc_key c, column_json cd (fl_excluded f) (cc_key c) (cc_new c))) cs = map (\<lambda>c. (cc_key c, column_json cd (fl_excluded f) (cc_key c) (cc_new c))) ds"
    by (rule list_all2_map_eq [OF d(2)], elim conjE, simp only: prod.inject column_json_same simp_thms)+
  moreover have "(\<exists>c \<in> set cs. cc_key c = ''deleted_at'' \<and> cc_new c \<noteq> PyNone) = (\<exists>c \<in> set ds. cc_key c = ''deleted_at'' \<and> cc_new c \<noteq> PyNone)"
    by (rule list_all2_exists [OF d(2)], elim conjE, drule same_value_none, drule same_value_none) simp
  moreover have "(cs = []) = (ds = [])" using list_all2_lengthD [OF d(2)] by auto
  ultimately show ?thesis using assms Modified d(1) ex by (simp add: capture_change_def change_action_def same_public_def)
qed

lemma map_filter_of_map: "List.map_filter f xs = map the (filter (\<lambda>y. y \<noteq> None) (map f xs))"
  by (induction xs) (simp_all add: map_filter_simps split: option.splits)

text \<open>
  C36. Secrets stay out of the chain: two flushes that agree on everything but the values of excluded columns, and on
  which of those are empty, write the same rows, hashes included.
\<close>

theorem secrets_stay_out:
  assumes "list_all2 (\<lambda>p q. same_public (fst p) (fst q) \<and> snd p = snd q) objects objects'"
  shows "flush_audit cd db actor request deleted objects = flush_audit cd db actor request deleted objects'"
proof -
  have "captured cd p = captured cd q" if "same_public (fst p) (fst q) \<and> snd p = snd q" for p q
    using that capture_same [of "fst p" "fst q" cd] by (auto simp: captured_def same_public_def)
  then have "map (captured cd) objects = map (captured cd) objects'" using list_all2_map_eq [OF assms] by blast
  then have "List.map_filter (captured cd) objects = List.map_filter (captured cd) objects'" by (simp only: map_filter_of_map)
  then show ?thesis by (simp add: flush_audit_def)
qed

theorem secrets_stay_out_witness:
  "flush_audit toy_codec sample_log None None 0 [(sample_change, 7)] =
   flush_audit toy_codec sample_log None None 0 [(sample_change\<lparr>fl_image := Modified True [\<lparr>cc_key = ''mfa'', cc_old = PyStr ''x'', cc_new = PyStr ''y''\<rparr>]\<rparr>, 7)]"
  by (rule secrets_stay_out) (simp add: same_public_def sample_change_def same_value_def)

end
