(* ===== verification/Login_Service.thy ===== *)
theory Login_Service
  imports Login_Throttle Session_Store Audit_Chain
begin

text \<open>
  \<open>core/auth/service.py\<close>, \<open>core/auth/mfa.py\<close>, \<open>core/auth/password_policy.py\<close> and \<open>core/auth/verifiers.py\<close>: signing in with a
  password and a second factor, signing out and changing the password. Argon2, NFKC, \<open>casefold\<close>, SHA-256, the
  blocklist and \<open>pyotp\<close> are the parameters \<open>auth_env\<close>; random ids and tokens are arguments. The Redis effects of a call
  stay when its transaction fails, so an operation returns its result or exception together with the state. The events
  are those handed to \<open>append_auth_event\<close>.
\<close>

section \<open>State\<close>

record auth_env =
  verify_password :: "string \<Rightarrow> string \<Rightarrow> bool"
  hash_password :: "string \<Rightarrow> string"
  needs_rehash :: "string \<Rightarrow> bool"
  nfkc :: "string \<Rightarrow> string"
  case_fold :: "string \<Rightarrow> string"
  sha_hex :: "string \<Rightarrow> string"
  blocklisted :: "string \<Rightarrow> bool"
  totp_at :: "string \<Rightarrow> int \<Rightarrow> string"
  totp_verify :: "string \<Rightarrow> string \<Rightarrow> instant \<Rightarrow> int \<Rightarrow> bool"
  totp_interval :: int
  env_throttle :: throttle_settings
  env_session :: session_settings
  mfa_valid_window :: int
  mfa_required_roles :: "string set"
  pwd_min_length :: nat
  pwd_max_length :: nat

record account =
  ac_id :: int
  ac_email :: string
  ac_password_hash :: "string option"
  ac_is_active :: bool
  ac_mfa_enabled :: bool
  ac_mfa_secret :: "string option"
  ac_must_change :: bool
  ac_permissions_version :: int
  ac_last_login :: "instant option"
  ac_password_changed :: "instant option"

record attempt =
  la_user :: "int option"
  la_identifier :: string
  la_outcome :: string
  la_reason :: "string option"
  la_ip :: "string option"
  la_agent :: "string option"
  la_session_hash :: "string option"

text \<open>A role a user holds, with its window.\<close>

record held_role =
  hr_user :: int
  hr_code :: string
  hr_from :: "instant option"
  hr_to :: "instant option"

record auth_state =
  as_users :: "account list"
  as_roles :: "held_role list"
  as_attempts :: "attempt list"
  as_throttle :: "(string, int) redis"
  as_sessions :: session_db
  as_pending :: "(string, int \<times> string) redis"
  as_used :: "(int \<times> int, unit) redis"
  as_events :: "auth_event list"

section \<open>Second factor\<close>

definition normalize_code :: "string \<Rightarrow> string" where
  "normalize_code code = filter (\<lambda>c. c \<noteq> CHR '' '') (strip code)"

definition verify_code :: "auth_env \<Rightarrow> string option \<Rightarrow> string \<Rightarrow> instant \<Rightarrow> bool" where
  "verify_code env secret code at =
     (let c = normalize_code code in
      if \<not> truthy secret \<or> c = [] then False else totp_verify env (the secret) c at (mfa_valid_window env))"

definition time_step :: "auth_env \<Rightarrow> instant \<Rightarrow> int" where
  "time_step env now = now div (totp_interval env * 1000000)"

text \<open>The first step in the window whose code it is.\<close>

definition matched_counter :: "auth_env \<Rightarrow> string \<Rightarrow> string \<Rightarrow> instant \<Rightarrow> int option" where
  "matched_counter env secret code now =
     map_option (\<lambda>off. time_step env now + off)
       (find (\<lambda>off. totp_at env secret (time_step env now + off) = normalize_code code) [- mfa_valid_window env..mfa_valid_window env])"

text \<open>The clock is read twice: by the check of the code and to find its step.\<close>

definition check_and_consume ::
  "auth_env \<Rightarrow> (int \<times> int, unit) redis \<Rightarrow> int \<Rightarrow> string option \<Rightarrow> string \<Rightarrow> instant \<Rightarrow> instant \<Rightarrow> bool \<times> (int \<times> int, unit) redis" where
  "check_and_consume env used u secret code at now =
     (if \<not> verify_code env secret code at then (False, used)
      else (case matched_counter env (the secret) code now of
          None \<Rightarrow> (True, used)
        | Some m \<Rightarrow> rd_set_nx used now (u, m) () (seconds ((2 * mfa_valid_window env + 2) * totp_interval env))))"

section \<open>Password policy\<close>

definition contains_identifier :: "auth_env \<Rightarrow> string \<Rightarrow> string option \<Rightarrow> string option \<Rightarrow> bool" where
  "contains_identifier env password email username =
     (let pw = case_fold env password;
          candidates = (if truthy email then [takeWhile (\<lambda>c. c \<noteq> CHR ''@'') (the email)] else []) @ (if truthy username then [the username] else []) in
      \<exists>candidate \<in> set candidates. let c = case_fold env (strip candidate) in length c \<ge> 4 \<and> sublist c pw)"

text \<open>The codes of all rules the password breaks.\<close>

definition password_errors :: "auth_env \<Rightarrow> string \<Rightarrow> string option \<Rightarrow> string option \<Rightarrow> string list" where
  "password_errors env password email username =
     (let p = nfkc env password in
      (if length p < pwd_min_length env then [''too_short''] else []) @
      (if length p > pwd_max_length env then [''too_long''] else []) @
      (if blocklisted env p then [''blocklisted''] else []) @
      (if contains_identifier env p email username then [''contains_identifier''] else []))"

definition PasswordPolicyError :: exn where
  "PasswordPolicyError = ServiceError ''PasswordPolicyError''"

definition validate_password :: "auth_env \<Rightarrow> string \<Rightarrow> string option \<Rightarrow> string option \<Rightarrow> unit res" where
  "validate_password env password email username = (if password_errors env password email username \<noteq> [] then Inl PasswordPolicyError else Inr ())"

section \<open>Signing in\<close>

datatype login_status = Success | Invalid | Throttled | Mfa_Required | Mfa_Failed

record login_result =
  lr_status :: login_status
  lr_sid :: "string option"
  lr_user :: "int option"
  lr_must_change :: bool
  lr_mfa_setup :: bool
  lr_mfa_token :: "string option"
  lr_retry_after :: int

definition plain_result :: "login_status \<Rightarrow> login_result" where
  "plain_result s = \<lparr>lr_status = s, lr_sid = None, lr_user = None, lr_must_change = False, lr_mfa_setup = False, lr_mfa_token = None, lr_retry_after = 0\<rparr>"

record client =
  cn_ip :: "string option"
  cn_agent :: "string option"

definition record_attempt :: "auth_state \<Rightarrow> int option \<Rightarrow> string \<Rightarrow> string \<Rightarrow> string option \<Rightarrow> client \<Rightarrow> string option \<Rightarrow> auth_state" where
  "record_attempt st user ident outcome reason cn sess =
     st\<lparr>as_attempts := as_attempts st @ [\<lparr>la_user = user, la_identifier = take 320 ident, la_outcome = outcome, la_reason = reason,
       la_ip = cn_ip cn, la_agent = cn_agent cn, la_session_hash = sess\<rparr>]\<rparr>"

definition role_codes :: "auth_state \<Rightarrow> int \<Rightarrow> instant \<Rightarrow> string list" where
  "role_codes st u now = remdups (map hr_code (filter (\<lambda>r. hr_user r = u \<and>
     (case hr_from r of None \<Rightarrow> True | Some f \<Rightarrow> f \<le> now) \<and> (case hr_to r of None \<Rightarrow> True | Some t \<Rightarrow> t > now)) (as_roles st)))"

definition requires_mfa :: "auth_env \<Rightarrow> string list \<Rightarrow> bool" where
  "requires_mfa env roles = (\<exists>r \<in> set roles. r \<in> mfa_required_roles env)"

definition put_account :: "auth_state \<Rightarrow> account \<Rightarrow> auth_state" where
  "put_account st a = st\<lparr>as_users := row_upd ac_id (ac_id a) (\<lambda>_. a) (as_users st)\<rparr>"

text \<open>
  The tail of a successful sign-in. The cap may refuse the session; then the transaction is rolled back to the
  tables of \<open>st0\<close>.
\<close>

definition create_session_for ::
  "auth_env \<Rightarrow> auth_state \<Rightarrow> auth_state \<Rightarrow> account \<Rightarrow> string list \<Rightarrow> client \<Rightarrow> bool \<Rightarrow> string \<Rightarrow> instant \<Rightarrow> login_result res \<times> auth_state" where
  "create_session_for env st0 st a roles cn mfa_setup sid now =
     (case create_session (env_session env) (as_sessions st)
        \<lparr>si_user = ac_id a, si_email = ac_email a, si_version = ac_permissions_version a, si_roles = roles, si_ip = cn_ip cn, si_agent = cn_agent cn,
         si_must_change = ac_must_change a, si_mfa_setup = mfa_setup, si_mfa_auth = True\<rparr> sid now of
        Inl e \<Rightarrow> (Inl e, st\<lparr>as_users := as_users st0, as_attempts := as_attempts st0\<rparr>)
      | Inr (rec, s) \<Rightarrow>
          (Inr \<lparr>lr_status = Success, lr_sid = Some sid, lr_user = Some (ac_id a), lr_must_change = ac_must_change a, lr_mfa_setup = mfa_setup,
             lr_mfa_token = None, lr_retry_after = 0\<rparr>,
           record_attempt (put_account (st\<lparr>as_sessions := s\<rparr>) (a\<lparr>ac_last_login := Some now\<rparr>)) (Some (ac_id a)) (ac_email a) ''success'' None cn
             (Some (sha_hex env sid))))"

definition login_keys :: "auth_env \<Rightarrow> string \<Rightarrow> client \<Rightarrow> string list" where
  "login_keys env ident cn = throttle_keys (sha_hex env) (case_fold env) ident (cn_ip cn)"

definition account_for :: "auth_state \<Rightarrow> string \<Rightarrow> account option res" where
  "account_for st ident =
     (case filter (\<lambda>a. lower (ac_email a) = lower ident) (as_users st) of
        [] \<Rightarrow> Inr None | [a] \<Rightarrow> Inr (Some a) | _ \<Rightarrow> Inl MultipleResultsFound)"

text \<open>Without a stored hash a dummy is verified for its time only.\<close>

definition password_ok :: "auth_env \<Rightarrow> account option \<Rightarrow> string \<Rightarrow> bool" where
  "password_ok env user pw =
     (case user of None \<Rightarrow> False
      | Some a \<Rightarrow> truthy (ac_password_hash a) \<and> verify_password env pw (the (ac_password_hash a)))"

definition login ::
  "auth_env \<Rightarrow> auth_state \<Rightarrow> string \<Rightarrow> string \<Rightarrow> client \<Rightarrow> string \<Rightarrow> string \<Rightarrow> instant \<Rightarrow> login_result res \<times> auth_state" where
  "login env st identifier password cn sid token now =
     (let ident = strip identifier; keys = login_keys env ident cn; ms = now div 1000;
          decision = throttle_check (as_throttle st) keys ms in
      if \<not> td_allowed decision
      then (Inr ((plain_result Throttled)\<lparr>lr_retry_after := td_retry_after decision\<rparr>), record_attempt st None ident ''throttled'' (Some ''throttled'') cn None)
      else (case account_for st ident of
          Inl e \<Rightarrow> (Inl e, st)
        | Inr user \<Rightarrow>
            (let pw = nfkc env password; ok = password_ok env user pw in
             case user of
               Some a \<Rightarrow>
                 if ok \<and> ac_is_active a
                 then
                   (let st1 = st\<lparr>as_throttle := throttle_reset keys (as_throttle st)\<rparr>;
                        a1 = (if needs_rehash env (the (ac_password_hash a)) then a\<lparr>ac_password_hash := Some (hash_password env pw)\<rparr> else a);
                        st2 = put_account st1 a1; roles = role_codes st (ac_id a) now in
                    if ac_mfa_enabled a
                    then (Inr ((plain_result Mfa_Required)\<lparr>lr_user := Some (ac_id a), lr_mfa_token := Some token\<rparr>),
                          record_attempt (st2\<lparr>as_pending := rd_set_ex (as_pending st) now token (ac_id a, case cn_ip cn of None \<Rightarrow> [] | Some ip \<Rightarrow> ip)
                              (seconds (session_reauth (env_session env)))\<rparr>)
                            (Some (ac_id a)) ident ''mfa_required'' None cn None)
                    else create_session_for env st st2 a1 roles cn (requires_mfa env roles) sid now)
                 else (Inr (plain_result Invalid),
                   record_attempt (st\<lparr>as_throttle := register_failure (env_throttle env) ms keys (as_throttle st)\<rparr>) (Some (ac_id a)) ident ''failure''
                     (Some (if \<not> ok then ''bad_credentials'' else ''inactive'')) cn None)
             | None \<Rightarrow>
                 (Inr (plain_result Invalid),
                  record_attempt (st\<lparr>as_throttle := register_failure (env_throttle env) ms keys (as_throttle st)\<rparr>) None ident ''failure''
                    (Some ''bad_credentials'') cn None))))"

definition complete_mfa ::
  "auth_env \<Rightarrow> auth_state \<Rightarrow> string \<Rightarrow> string \<Rightarrow> client \<Rightarrow> string \<Rightarrow> instant \<Rightarrow> instant \<Rightarrow> login_result res \<times> auth_state" where
  "complete_mfa env st token code cn sid at now =
     (case rd_get (as_pending st) now token of
        None \<Rightarrow> (Inr (plain_result Invalid), st)
      | Some (u, ip) \<Rightarrow>
          (case row_get ac_id (as_users st) u of
             None \<Rightarrow> (Inr (plain_result Invalid), st)
           | Some a \<Rightarrow>
               if \<not> ac_is_active a \<or> \<not> ac_mfa_enabled a \<or> \<not> truthy (ac_mfa_secret a) then (Inr (plain_result Invalid), st)
               else
                 (let (ok, used) = check_and_consume env (as_used st) (ac_id a) (ac_mfa_secret a) code at now; st1 = st\<lparr>as_used := used\<rparr> in
                  if \<not> ok
                  then (Inr ((plain_result Mfa_Failed)\<lparr>lr_user := Some (ac_id a)\<rparr>), record_attempt st1 (Some (ac_id a)) (ac_email a) ''mfa_failure'' None cn None)
                  else create_session_for env st (st1\<lparr>as_pending := rd_del (as_pending st) token\<rparr>) a (role_codes st (ac_id a) now) cn False sid now)))"

definition logout_event :: "auth_env \<Rightarrow> int \<Rightarrow> string \<Rightarrow> string option \<Rightarrow> string option \<Rightarrow> auth_event" where
  "logout_event env u sid ip request =
     \<lparr>ae_event = ''auth.logout'', ae_subject = u, ae_actor = Some u, ae_request = request,
      ae_data = [(''session_id_hash'', PyStr (sha_hex env sid)), (''ip'', case ip of None \<Rightarrow> PyNone | Some x \<Rightarrow> PyStr x)],
      ae_table = ''core_sessions'', ae_pk = None\<rparr>"

definition logout :: "auth_env \<Rightarrow> auth_state \<Rightarrow> int \<Rightarrow> string \<Rightarrow> client \<Rightarrow> string option \<Rightarrow> instant \<Rightarrow> auth_state" where
  "logout env st u sid cn request now =
     st\<lparr>as_sessions := destroy (as_sessions st) sid (Some u) now, as_events := as_events st @ [logout_event env u sid (cn_ip cn) request]\<rparr>"

definition invalid_credentials :: exn where
  "invalid_credentials = APIError 401 ''invalid_credentials''"

definition not_signed_in :: exn where
  "not_signed_in = APIError 401 ''unauthorized''"

definition revoked_sessions_event :: "int \<Rightarrow> string option \<Rightarrow> nat \<Rightarrow> auth_event" where
  "revoked_sessions_event u request n =
     \<lparr>ae_event = ''auth.session.revoked'', ae_subject = u, ae_actor = Some u, ae_request = request,
      ae_data = [(''reason'', PyStr ''password_change''), (''revoked_count'', PyInt (int n))], ae_table = ''core_sessions'', ae_pk = None\<rparr>"

definition change_password ::
  "auth_env \<Rightarrow> auth_state \<Rightarrow> int \<Rightarrow> string \<Rightarrow> string \<Rightarrow> string \<Rightarrow> string \<Rightarrow> string option \<Rightarrow> instant \<Rightarrow> (string \<times> auth_state) res" where
  "change_password env st u sid current_password new_password new_sid request now =
     (case row_get ac_id (as_users st) u of
        None \<Rightarrow> Inl not_signed_in
      | Some a \<Rightarrow>
          if \<not> ac_is_active a then Inl not_signed_in
          else if \<not> password_ok env (Some a) (nfkc env current_password) then Inl invalid_credentials
          else rbind (validate_password env new_password (Some (ac_email a)) None) (\<lambda>_.
            let a' = a\<lparr>ac_password_hash := Some (hash_password env (nfkc env new_password)), ac_must_change := False, ac_password_changed := Some now\<rparr>;
                (n, s1) = destroy_all_for_user (as_sessions st) (ac_id a) (Some sid) now;
                (rotated, s2) = regenerate_id (env_session env) s1 sid new_sid
                  \<lparr>ov_roles = None, ov_version = None, ov_auth = Some now, ov_must_change = Some False, ov_mfa_setup = None, ov_mfa_auth = None\<rparr> now in
            Inr (if rotated = None then sid else new_sid, (put_account st a')\<lparr>as_sessions := s2, as_events := as_events st @ [revoked_sessions_event (ac_id a) request n]\<rparr>)))"


section \<open>Properties\<close>

lemma attempt_fields [simp]:
  "as_throttle (record_attempt st u i out r cn s) = as_throttle st" "as_sessions (record_attempt st u i out r cn s) = as_sessions st"
  "as_pending (record_attempt st u i out r cn s) = as_pending st" "as_used (record_attempt st u i out r cn s) = as_used st"
  "as_users (record_attempt st u i out r cn s) = as_users st"
  by (simp_all add: record_attempt_def)

lemma put_account_fields [simp]:
  "as_throttle (put_account st a) = as_throttle st" "as_sessions (put_account st a) = as_sessions st" "as_pending (put_account st a) = as_pending st"
  "as_used (put_account st a) = as_used st" "as_attempts (put_account st a) = as_attempts st"
  by (simp_all add: put_account_def)

text \<open>Identifier and password prove nothing.\<close>

definition unproven :: "auth_env \<Rightarrow> auth_state \<Rightarrow> string \<Rightarrow> string \<Rightarrow> bool" where
  "unproven env st ident password =
     (case account_for st (strip ident) of
        Inl e \<Rightarrow> False
      | Inr None \<Rightarrow> True
      | Inr (Some a) \<Rightarrow> \<not> password_ok env (Some a) (nfkc env password) \<or> \<not> ac_is_active a)"

lemma unproven_login:
  assumes "unproven env st ident password"
  shows "fst (login env st ident password cn sid token now) =
      (let d = throttle_check (as_throttle st) (login_keys env (strip ident) cn) (now div 1000) in
       if td_allowed d then Inr (plain_result Invalid) else Inr ((plain_result Throttled)\<lparr>lr_retry_after := td_retry_after d\<rparr>))"
    "as_throttle (snd (login env st ident password cn sid token now)) =
      (if td_allowed (throttle_check (as_throttle st) (login_keys env (strip ident) cn) (now div 1000))
       then register_failure (env_throttle env) (now div 1000) (login_keys env (strip ident) cn) (as_throttle st) else as_throttle st)"
    "as_sessions (snd (login env st ident password cn sid token now)) = as_sessions st"
    "as_pending (snd (login env st ident password cn sid token now)) = as_pending st"
  using assms by (auto simp: unproven_def login_def Let_def split: sum.splits option.splits)

text \<open>
  C37. A failed sign-in reveals nothing of the account: with any two tables of accounts in which the identifier and password
  prove nothing, because there is no such account, the password is wrong or the account is inactive, the caller gets
  the same answer and the same throttle, sessions and pending tokens, so also every later answer of the throttle.
\<close>

theorem login_reveals_nothing:
  assumes "unproven env st ident password" "unproven env (st\<lparr>as_users := us\<rparr>) ident password"
  shows "fst (login env (st\<lparr>as_users := us\<rparr>) ident password cn sid token now) = fst (login env st ident password cn sid token now) \<and>
    as_throttle (snd (login env (st\<lparr>as_users := us\<rparr>) ident password cn sid token now)) = as_throttle (snd (login env st ident password cn sid token now)) \<and>
    as_sessions (snd (login env (st\<lparr>as_users := us\<rparr>) ident password cn sid token now)) = as_sessions (snd (login env st ident password cn sid token now)) \<and>
    as_pending (snd (login env (st\<lparr>as_users := us\<rparr>) ident password cn sid token now)) = as_pending (snd (login env st ident password cn sid token now))"
  by (simp add: unproven_login [OF assms(1)] unproven_login [OF assms(2)])

text \<open>
  An environment to try things in: the hash of a password is the password in brackets, and the code of a time step is
  the step as a single letter.
\<close>

definition toy_env :: auth_env where
  "toy_env = \<lparr>verify_password = (\<lambda>p h. h = ''<'' @ p @ ''>''), hash_password = (\<lambda>p. ''<'' @ p @ ''>''), needs_rehash = (\<lambda>_. False), nfkc = id, case_fold = lower,
     sha_hex = id, blocklisted = (\<lambda>p. p = ''password1234''), totp_at = (\<lambda>s k. [char_of (nat (k mod 256))]),
     totp_verify = (\<lambda>s c at w. \<exists>off \<in> set [-w..w]. c = [char_of (nat ((at div 30000000 + off) mod 256))]), totp_interval = 30,
     env_throttle = house_throttle, env_session = house_sessions, mfa_valid_window = 1, mfa_required_roles = {''system_admin'', ''approver''},
     pwd_min_length = 12, pwd_max_length = 128\<rparr>"

definition toy_account :: account where
  "toy_account = \<lparr>ac_id = 5, ac_email = ''a@b'', ac_password_hash = Some ''<pw>'', ac_is_active = True, ac_mfa_enabled = False, ac_mfa_secret = Some ''k'',
     ac_must_change = False, ac_permissions_version = 0, ac_last_login = None, ac_password_changed = None\<rparr>"

definition toy_state :: auth_state where
  "toy_state = \<lparr>as_users = [toy_account], as_roles = [], as_attempts = [], as_throttle = (\<lambda>_. None), as_sessions = signed_in, as_pending = (\<lambda>_. None), as_used = (\<lambda>_. None), as_events = []\<rparr>"

theorem login_reveals_nothing_witness:
  "fst (login toy_env (toy_state\<lparr>as_users := []\<rparr>) ''a@b'' ''no'' \<lparr>cn_ip = None, cn_agent = None\<rparr> ''s2'' ''t'' 7) =
   fst (login toy_env toy_state ''a@b'' ''no'' \<lparr>cn_ip = None, cn_agent = None\<rparr> ''s2'' ''t'' 7)"
proof -
  have "unproven toy_env toy_state ''a@b'' ''no''" "unproven toy_env (toy_state\<lparr>as_users := []\<rparr>) ''a@b'' ''no''" by code_simp+
  from login_reveals_nothing [OF this] show ?thesis by blast
qed

lemma account_for_Some:
  assumes "account_for st ident = Inr (Some a)"
  shows "a \<in> set (as_users st) \<and> lower (ac_email a) = lower ident"
proof -
  define p where "p = (\<lambda>a :: account. lower (ac_email a) = lower ident)"
  have "filter p (as_users st) = [a]" using assms by (auto simp: account_for_def p_def split: list.splits)
  then have "set (filter p (as_users st)) = {a}" by simp
  then have "a \<in> set (as_users st) \<and> p a" unfolding set_filter by blast
  then show ?thesis by (simp add: p_def)
qed

lemma session_handed_out:
  assumes "create_session_for env st0 st a roles cn setup sid now = (Inr r, st')" "0 < session_absolute (env_session env)" "\<And>tier. 0 < idle_seconds_for (env_session env) tier"
  shows "lr_status r = Success" "lr_sid r = Some sid" "map_option se_user (fst (get_session_record (env_session env) (as_sessions st') sid now)) = Some (ac_id a)"
    "la_session_hash (last (as_attempts st')) = Some (sha_hex env sid) \<and> la_user (last (as_attempts st')) = Some (ac_id a)" "as_pending st' = as_pending st"
proof -
  obtain rec s where c: "create_session (env_session env) (as_sessions st)
        \<lparr>si_user = ac_id a, si_email = ac_email a, si_version = ac_permissions_version a, si_roles = roles, si_ip = cn_ip cn, si_agent = cn_agent cn,
         si_must_change = ac_must_change a, si_mfa_setup = setup, si_mfa_auth = True\<rparr> sid now = Inr (rec, s)"
    and r: "lr_status r = Success" "lr_sid r = Some sid"
    and st': "st' = record_attempt (put_account (st\<lparr>as_sessions := s\<rparr>) (a\<lparr>ac_last_login := Some now\<rparr>)) (Some (ac_id a)) (ac_email a) ''success'' None cn (Some (sha_hex env sid))"
    using assms(1) by (auto simp: create_session_for_def split: sum.splits)
  show "lr_status r = Success" "lr_sid r = Some sid" by (rule r)+
  have "live s now sid = Some rec" "se_created rec = now" "se_seen rec = now" "se_user rec = ac_id a"
    using c ttl_pos [of "env_session env" rec now] by (auto simp: create_session_def insert_session_def session_for_def Let_def rbind_eq_Inr)
  then show "map_option se_user (fst (get_session_record (env_session env) (as_sessions st') sid now)) = Some (ac_id a)"
    using assms(2) assms(3) [of "se_tier rec"] by (simp add: st' get_session_record_def expiry_reason_def)
  show "la_session_hash (last (as_attempts st')) = Some (sha_hex env sid) \<and> la_user (last (as_attempts st')) = Some (ac_id a)"
    by (simp add: st' record_attempt_def)
  show "as_pending st' = as_pending st" by (simp add: st')
qed

text \<open>
  C7. Nobody is signed in without proof: a session is handed out by \<open>login\<close> only for an active account that has no second
  factor, for the password its hash verifies, while the throttle allows the attempt; and by \<open>complete_mfa\<close> only for an
  active account with a pending token, for a code that verifies under its secret, and the token is gone then. In both cases the session
  answers for that account and the attempt is on record with its hash.
\<close>

theorem sign_in_is_proven:
  assumes "x = login env st ident password cn sid token now \<or> x = complete_mfa env st token code cn sid at now" "x = (Inr r, st')" "lr_status r = Success"
    "0 < session_absolute (env_session env)" "\<forall>tier. 0 < idle_seconds_for (env_session env) tier"
  shows "lr_sid r = Some sid \<and> (\<exists>a \<in> set (as_users st). ac_is_active a \<and>
    (td_allowed (throttle_check (as_throttle st) (login_keys env (strip ident) cn) (now div 1000)) \<and> \<not> ac_mfa_enabled a \<and>
       lower (ac_email a) = lower (strip ident) \<and> password_ok env (Some a) (nfkc env password) \<or>
     (\<exists>ip. rd_get (as_pending st) now token = Some (ac_id a, ip)) \<and> ac_mfa_enabled a \<and> verify_code env (ac_mfa_secret a) code at \<and>
       rd_get (as_pending st') now token = None) \<and>
    map_option se_user (fst (get_session_record (env_session env) (as_sessions st') sid now)) = Some (ac_id a) \<and>
    la_session_hash (last (as_attempts st')) = Some (sha_hex env sid) \<and> la_user (last (as_attempts st')) = Some (ac_id a))"
proof -
  note h = session_handed_out [OF _ assms(4) spec [OF assms(5)]]
  show ?thesis
  proof (cases "x = login env st ident password cn sid token now")
    case True
    let ?pw = "nfkc env password"
    have l: "login env st ident password cn sid token now = (Inr r, st')" using True assms(2) by simp
    obtain a where a: "account_for st (strip ident) = Inr (Some a)" "password_ok env (Some a) ?pw" "ac_is_active a" "\<not> ac_mfa_enabled a"
        "td_allowed (throttle_check (as_throttle st) (login_keys env (strip ident) cn) (now div 1000))"
      using l assms(3) by (auto simp: login_def Let_def plain_result_def split: if_splits sum.splits option.splits)
    let ?a1 = "if needs_rehash env (the (ac_password_hash a)) then a\<lparr>ac_password_hash := Some (hash_password env ?pw)\<rparr> else a"
    let ?st2 = "put_account (st\<lparr>as_throttle := throttle_reset (login_keys env (strip ident) cn) (as_throttle st)\<rparr>) ?a1"
    have c: "create_session_for env st ?st2 ?a1 (role_codes st (ac_id a) now) cn (requires_mfa env (role_codes st (ac_id a) now)) sid now = (Inr r, st')"
      using l a by (simp add: login_def Let_def split: if_splits)
    have id: "ac_id ?a1 = ac_id a" by simp
    have "a \<in> set (as_users st)" "lower (ac_email a) = lower (strip ident)" using account_for_Some [OF a(1)] by blast+
    then show ?thesis using a(2-5) h [OF c, unfolded id] by blast
  next
    case False
    then have l: "complete_mfa env st token code cn sid at now = (Inr r, st')" using assms(1,2) by simp
    obtain u ip where p: "rd_get (as_pending st) now token = Some (u, ip)" using l assms(3) by (auto simp: complete_mfa_def plain_result_def split: option.splits)
    obtain a where a: "row_get ac_id (as_users st) u = Some a" "ac_is_active a" "ac_mfa_enabled a"
      using l assms(3) p by (auto simp: complete_mfa_def plain_result_def split: option.splits if_splits)
    have u: "ac_id a = u" "a \<in> set (as_users st)" using row_get_Some [OF a(1)] by auto
    obtain ok used where k: "check_and_consume env (as_used st) (ac_id a) (ac_mfa_secret a) code at now = (ok, used)"
      by (cases "check_and_consume env (as_used st) (ac_id a) (ac_mfa_secret a) code at now")
    have ok: "ok" and c: "create_session_for env st (st\<lparr>as_used := used, as_pending := rd_del (as_pending st) token\<rparr>) a (role_codes st (ac_id a) now) cn False sid now = (Inr r, st')"
      using l assms(3) p a k by (auto simp: complete_mfa_def plain_result_def Let_def split: if_splits)
    have "verify_code env (ac_mfa_secret a) code at" using k ok by (auto simp: check_and_consume_def split: if_splits)
    moreover have "rd_get (as_pending st') now token = None" using h(5) [OF c] by simp
    ultimately show ?thesis using p u a h [OF c] by blast
  qed
qed


theorem sign_in_is_proven_witness:
  "\<exists>r st'. login toy_env toy_state ''A@b '' ''pw'' \<lparr>cn_ip = None, cn_agent = None\<rparr> ''s2'' ''t'' 7 = (Inr r, st') \<and> lr_sid r = Some ''s2'' \<and>
     map_option se_user (fst (get_session_record house_sessions (as_sessions st') ''s2'' 7)) = Some 5"
proof -
  let ?x = "login toy_env toy_state ''A@b '' ''pw'' \<lparr>cn_ip = None, cn_agent = None\<rparr> ''s2'' ''t'' 7"
  have "(case fst ?x of Inl e \<Rightarrow> False | Inr r \<Rightarrow> lr_status r = Success)" by code_simp
  then obtain r st' where x: "?x = (Inr r, st')" "lr_status r = Success" by (cases ?x) (auto split: sum.splits)
  have e: "env_session toy_env = house_sessions" "as_users toy_state = [toy_account]" "ac_id toy_account = 5" by (simp_all add: toy_env_def toy_state_def toy_account_def)
  have "\<forall>tier. 0 < idle_seconds_for (env_session toy_env) tier" "0 < session_absolute (env_session toy_env)"
    by (simp_all add: toy_env_def house_sessions_def idle_seconds_for_def)
  from sign_in_is_proven [where env = toy_env and st = toy_state and ident = "''A@b ''" and password = "''pw''", OF disjI1 [OF refl] x this(2,1)] x(1)
  show ?thesis by (simp add: e)
qed

text \<open>Checks of codes, one after the other, on a clock that does not run backwards.\<close>

inductive mfa_use :: "auth_env \<Rightarrow> instant \<times> (int \<times> int, unit) redis \<Rightarrow> instant \<times> (int \<times> int, unit) redis \<Rightarrow> bool" for env where
  mfa_wait: "now \<le> t \<Longrightarrow> mfa_use env (now, used) (t, used)"
| mfa_check: "check_and_consume env used u secret code at now = (ok, used') \<Longrightarrow> mfa_use env (now, used) (now, used')"

lemma matched_window:
  assumes "matched_counter env secret code now = Some m"
  shows "time_step env now - mfa_valid_window env \<le> m" "m \<le> time_step env now + mfa_valid_window env"
proof -
  obtain off where f: "find (\<lambda>off. totp_at env secret (time_step env now + off) = normalize_code code) [- mfa_valid_window env..mfa_valid_window env] = Some off"
    and m: "m = time_step env now + off" using assms by (auto simp: matched_counter_def)
  have "off \<in> set [- mfa_valid_window env..mfa_valid_window env]" using f by (rule find_Some_in [THEN conjunct1])
  then show "time_step env now - mfa_valid_window env \<le> m" "m \<le> time_step env now + mfa_valid_window env" by (simp_all add: m)
qed

lemma step_bounds:
  assumes "0 < totp_interval env"
  shows "seconds (totp_interval env) * time_step env now \<le> now" "now < seconds (totp_interval env) * (time_step env now + 1)"
proof -
  define d where "d = seconds (totp_interval env)"
  have d: "0 < d" "time_step env now = now div d" using assms by (simp_all add: d_def time_step_def)
  have "d * (now div d) + now mod d = now" "0 \<le> now mod d" "now mod d < d" using d by simp_all
  then have "d * (now div d) \<le> now" "now < d * (now div d) + d" by linarith+
  then show "seconds (totp_interval env) * time_step env now \<le> now" "now < seconds (totp_interval env) * (time_step env now + 1)"
    by (simp_all add: d flip: d_def) (simp add: distrib_left)?
qed

lemma mfa_kept:
  assumes "(mfa_use env)\<^sup>*\<^sup>* (now, used) s" "\<And>t. now \<le> t \<Longrightarrow> t < e \<Longrightarrow> rd_get used t k \<noteq> None"
  shows "now \<le> fst s \<and> (\<forall>t. fst s \<le> t \<and> t < e \<longrightarrow> rd_get (snd s) t k \<noteq> None)"
  using assms(1)
proof (induction rule: rtranclp_induct)
  case base
  then show ?case using assms(2) by simp
next
  case (step s s')
  from step.hyps(2) show ?case
  proof (cases rule: mfa_use.cases)
    case (mfa_wait n t used')
    then show ?thesis using step.IH by auto
  next
    case (mfa_check used1 u secret code at n ok used2)
    have "rd_get used2 t k \<noteq> None" if "n \<le> t" "t < e" for t
    proof -
      have old: "rd_get used1 t k \<noteq> None" "rd_get used1 n k \<noteq> None" using step.IH mfa_check that by auto
      then show ?thesis using mfa_check(3)
        by (auto simp: check_and_consume_def rd_set_nx_def split: if_splits option.splits)
    qed
    then show ?thesis using step.IH mfa_check by auto
  qed
qed

text \<open>A step whose code was accepted and recorded is not accepted again.\<close>

lemma step_used:
  assumes "check_and_consume env used u secret code at now = (True, used1)" "matched_counter env (the secret) code now = Some m"
    "(mfa_use env)\<^sup>*\<^sup>* (now, used1) (t, used2)" "matched_counter env (the secret') code' t = Some m"
    "0 < totp_interval env" "0 \<le> mfa_valid_window env"
  shows "fst (check_and_consume env used2 u secret' code' at' t) = False"
proof -
  let ?i = "seconds (totp_interval env)" and ?w = "mfa_valid_window env"
  have set: "used1 = rd_set_ex used now (u, m) () (seconds ((2 * ?w + 2) * totp_interval env))"
    using assms(1,2) by (auto simp: check_and_consume_def rd_set_nx_def split: if_splits)
  have "now \<le> t \<and> (\<forall>x. t \<le> x \<and> x < now + ?i * (2 * ?w + 2) \<longrightarrow> rd_get used2 x (u, m) \<noteq> None)"
    using mfa_kept [OF assms(3), of "now + ?i * (2 * ?w + 2)" "(u, m)"] by (simp add: set algebra_simps)
  moreover have "t < now + ?i * (2 * ?w + 2)"
  proof -
    have "time_step env t + 1 \<le> time_step env now + (2 * ?w + 1)" using matched_window [OF assms(2)] matched_window [OF assms(4)] by simp
    then have "?i * (time_step env t + 1) \<le> ?i * (time_step env now + (2 * ?w + 1))" using assms(5) by (intro mult_left_mono) simp_all
    then have "t < ?i * time_step env now + ?i * (2 * ?w + 1)" using step_bounds [OF assms(5), of t] by (simp add: distrib_left)
    also have "\<dots> \<le> now + ?i * (2 * ?w + 1)" using step_bounds [OF assms(5), of now] by simp
    also have "\<dots> \<le> now + ?i * (2 * ?w + 2)" using assms(5) by simp
    finally show ?thesis .
  qed
  ultimately have "rd_get used2 t (u, m) \<noteq> None" by simp
  then show ?thesis using assms(4) by (simp add: check_and_consume_def rd_set_nx_def)
qed

text \<open>
  What \<open>pyotp\<close> documents of \<open>TOTP.verify\<close>: it accepts the code of a step at most \<open>valid_window\<close> away from the step
  of the given time.
\<close>

definition verifies_by_step :: "auth_env \<Rightarrow> bool" where
  "verifies_by_step env \<longleftrightarrow> (\<forall>secret code at w. totp_verify env secret code at w \<longrightarrow>
     (\<exists>off \<in> set [- w..w]. totp_at env secret (time_step env at + off) = code))"

lemma find_exists: "x \<in> set xs \<Longrightarrow> P x \<Longrightarrow> \<exists>y. find P xs = Some y \<and> y \<in> set xs \<and> P y"
  by (induction xs) auto

text \<open>A check whose two readings of the clock fall in one step finds the step of a code that verifies.\<close>

lemma verified_step:
  assumes law: "verifies_by_step env" and v: "verify_code env secret code at" and same: "time_step env at = time_step env now"
  obtains m where "matched_counter env (the secret) code now = Some m" "totp_at env (the secret) m = normalize_code code"
proof -
  let ?P = "\<lambda>off. totp_at env (the secret) (time_step env now + off) = normalize_code code"
  have "totp_verify env (the secret) (normalize_code code) at (mfa_valid_window env)" using v by (simp add: verify_code_def Let_def split: if_splits)
  then obtain off where "off \<in> set [- mfa_valid_window env..mfa_valid_window env]" "?P off"
    using law same unfolding verifies_by_step_def by metis
  from find_exists [where P = ?P, OF this] obtain y where "find ?P [- mfa_valid_window env..mfa_valid_window env] = Some y" "?P y" by blast
  then show thesis using that [of "time_step env now + y"] by (simp add: matched_counter_def)
qed

text \<open>
  C19. A code works once: a code accepted in a check whose two readings of the clock (one to verify it, one to
  find its step) fall in the same time step is refused by every later check of the same user and secret
  whose two readings fall in the same step, whatever codes of anyone were checked in between, provided it
  is the code of only one of the steps from the first check's window to the last one's. The check of a
  code is by step, as \<open>pyotp\<close> documents it. A check that runs across the boundary of two steps may accept
  a code without recording it, see \<open>boundary_code_reusable\<close>.
\<close>

theorem code_works_once:
  assumes "verifies_by_step env" "0 < totp_interval env" "0 \<le> mfa_valid_window env"
    "check_and_consume env used u secret code at now = (True, used1)" "time_step env at = time_step env now"
    "(mfa_use env)\<^sup>*\<^sup>* (now, used1) (t, used2)" "time_step env at' = time_step env t"
    "\<And>k k'. {k, k'} \<subseteq> {time_step env now - mfa_valid_window env..time_step env t + mfa_valid_window env} \<Longrightarrow>
       totp_at env (the secret) k = normalize_code code \<Longrightarrow> totp_at env (the secret) k' = normalize_code code \<Longrightarrow> k = k'"
  shows "fst (check_and_consume env used2 u secret code at' t) = False"
proof (cases "verify_code env secret code at'")
  case False
  then show ?thesis by (simp add: check_and_consume_def)
next
  case True
  have "verify_code env secret code at" using assms(4) by (auto simp: check_and_consume_def split: if_splits)
  then obtain m where m: "matched_counter env (the secret) code now = Some m" "totp_at env (the secret) m = normalize_code code"
    using verified_step [OF assms(1) _ assms(5)] by blast
  obtain m' where m': "matched_counter env (the secret) code t = Some m'" "totp_at env (the secret) m' = normalize_code code"
    using verified_step [OF assms(1) True assms(7)] by blast
  have "now \<le> t" using mfa_kept [OF assms(6), of now] by auto
  then have "time_step env now \<le> time_step env t" using assms(2) by (simp add: time_step_def zdiv_mono1)
  then have "m' = m" using matched_window [OF m(1)] matched_window [OF m'(1)] assms(8) [of m' m] m(2) m'(2) by simp
  then show ?thesis using step_used [OF assms(4) m(1) assms(6) _ assms(2,3)] m'(1) by simp
qed

theorem code_works_once_witness:
  "fst (check_and_consume toy_env (\<lambda>_. None) 5 (Some ''k'') [char_of (65::nat)] 1950000000 1950000000) \<and>
   fst (check_and_consume toy_env (snd (check_and_consume toy_env (\<lambda>_. None) 5 (Some ''k'') [char_of (65::nat)] 1950000000 1950000000)) 5 (Some ''k'')
      [char_of (65::nat)] 1980000001 1990000000) = False \<and> verify_code toy_env (Some ''k'') [char_of (65::nat)] 1980000001"
proof -
  let ?code = "[char_of (65::nat)] :: string" and ?t = "1950000000 :: int" and ?t' = "1990000000 :: int"
  let ?x = "check_and_consume toy_env (\<lambda>_. None) 5 (Some ''k'') ?code ?t ?t"
  have ok: "fst ?x" "verify_code toy_env (Some ''k'') ?code 1980000001" by code_simp+
  have x: "?x = (True, snd ?x)" using ok by (simp add: prod_eq_iff)
  have law: "verifies_by_step toy_env" by (auto simp: verifies_by_step_def toy_env_def time_step_def)
  have e: "0 < totp_interval toy_env" "0 \<le> mfa_valid_window toy_env" by (simp_all add: toy_env_def)
  have s: "time_step toy_env ?t = time_step toy_env ?t" "time_step toy_env 1980000001 = time_step toy_env ?t'" by (simp_all add: time_step_def toy_env_def)
  have w: "(mfa_use toy_env)\<^sup>*\<^sup>* (?t, snd ?x) (?t', snd ?x)" by (rule r_into_rtranclp, rule mfa_wait) simp
  have u: "k = k'" if "{k, k'} \<subseteq> {time_step toy_env ?t - mfa_valid_window toy_env..time_step toy_env ?t' + mfa_valid_window toy_env}"
    "totp_at toy_env (the (Some ''k'')) k = normalize_code ?code" "totp_at toy_env (the (Some ''k'')) k' = normalize_code ?code" for k k'
  proof -
    have b: "64 \<le> k" "k \<le> 67" "64 \<le> k'" "k' \<le> 67" using that(1) by (simp_all add: time_step_def toy_env_def)
    have "totp_at toy_env (the (Some ''k'')) k = totp_at toy_env (the (Some ''k'')) k'" using that(2,3) by (rule trans [OF _ sym])
    then have "nat (k mod 256) = nat (k' mod 256)" by (simp add: toy_env_def)
    then show ?thesis using b by simp
  qed
  have "fst (check_and_consume toy_env (snd ?x) 5 (Some ''k'') ?code 1980000001 ?t') = False"
    by (rule code_works_once [OF law e x s(1) w s(2) u])
  with ok show ?thesis by blast
qed

lemma served_eq: "live db' t s = live db t s \<Longrightarrow> fst (get_session_record cfg db' s t) = fst (get_session_record cfg db s t)"
  by (simp add: get_session_record_def split: option.split)

lemma rotated_live:
  assumes "regenerate_id cfg db sid new_sid ov now = (Some rec', db')"
  obtains rec where "get_session_record cfg db sid now = (Some rec, db)" "rec' = replaced rec new_sid ov"
    "\<forall>s. live db' now s = (if s = sid then None else if s = new_sid then Some rec' else live db now s)"
proof -
  obtain rec db1 where g: "get_session_record cfg db sid now = (Some rec, db1)"
    using assms by (cases "get_session_record cfg db sid now"; cases "fst (get_session_record cfg db sid now)") (auto simp: regenerate_id_def)
  have "db1 = db" using get_served [OF g] by simp
  note g = g [unfolded this]
  have "live db' now s = (if s = sid then None else if s = new_sid then Some rec' else live db now s)" for s
    using assms g ttl_pos [of cfg rec' now] by (auto simp: regenerate_id_def swap_id_def Let_def)
  then show thesis using that [OF g] assms g by (auto simp: regenerate_id_def Let_def)
qed

lemma change_password_cases:
  assumes "change_password env st u sid current_password new_password new_sid request now = Inr (sid', st')"
  obtains a n s1 rotated where "row_get ac_id (as_users st) u = Some a" "ac_is_active a" "password_ok env (Some a) (nfkc env current_password)"
    "password_errors env new_password (Some (ac_email a)) None = []" "destroy_all_for_user (as_sessions st) u (Some sid) now = (n, s1)"
    "regenerate_id (env_session env) s1 sid new_sid
       \<lparr>ov_roles = None, ov_version = None, ov_auth = Some now, ov_must_change = Some False, ov_mfa_setup = None, ov_mfa_auth = None\<rparr> now = (rotated, as_sessions st')"
    "sid' = (if rotated = None then sid else new_sid)"
    "as_users st' = row_upd ac_id u (\<lambda>_. a\<lparr>ac_password_hash := Some (hash_password env (nfkc env new_password)), ac_must_change := False, ac_password_changed := Some now\<rparr>) (as_users st)"
proof -
  obtain a where a: "row_get ac_id (as_users st) u = Some a" using assms by (auto simp: change_password_def split: option.splits)
  have u: "ac_id a = u" using row_get_Some [OF a] by simp
  have g: "ac_is_active a" "password_ok env (Some a) (nfkc env current_password)" "password_errors env new_password (Some (ac_email a)) None = []"
    using assms a by (auto simp: change_password_def rbind_eq_Inr validate_password_def split: if_splits)
  obtain n s1 where d: "destroy_all_for_user (as_sessions st) u (Some sid) now = (n, s1)" by (cases "destroy_all_for_user (as_sessions st) u (Some sid) now")
  obtain rotated s2 where r: "regenerate_id (env_session env) s1 sid new_sid
       \<lparr>ov_roles = None, ov_version = None, ov_auth = Some now, ov_must_change = Some False, ov_mfa_setup = None, ov_mfa_auth = None\<rparr> now = (rotated, s2)"
    by (meson surj_pair)
  have e: "sid' = (if rotated = None then sid else new_sid)" "as_sessions st' = s2"
    "as_users st' = row_upd ac_id u (\<lambda>_. a\<lparr>ac_password_hash := Some (hash_password env (nfkc env new_password)), ac_must_change := False, ac_password_changed := Some now\<rparr>) (as_users st)"
    using assms by (auto simp: change_password_def a g validate_password_def u d r Let_def put_account_def)
  show thesis by (rule that [OF a g d r [folded e(2)] e(1,3)])
qed

text \<open>
  C18. A changed password shuts out everyone else: it takes the current password and one the policy accepts; afterwards the new hash is stored and
  of the user's sessions the server answers under the returned id only, which is the caller's session under
  a fresh id: its old id is dead too.
\<close>

theorem password_change_revokes:
  assumes "reach session_init (session_step (env_session env)) (now, as_sessions st)"
    "change_password env st u sid current_password new_password new_sid request now = Inr (sid', st')" "new_sid \<noteq> sid"
  shows "(\<exists>a. row_get ac_id (as_users st) u = Some a \<and> ac_is_active a \<and> password_ok env (Some a) (nfkc env current_password) \<and>
      password_errors env new_password (Some (ac_email a)) None = []) \<and>
    map_option ac_password_hash (row_get ac_id (as_users st') u) = Some (Some (hash_password env (nfkc env new_password))) \<and>
    (\<forall>s rec. fst (get_session_record (env_session env) (as_sessions st') s now) = Some rec \<longrightarrow> se_user rec = u \<longrightarrow> s = sid') \<and>
    (\<forall>rec. fst (get_session_record (env_session env) (as_sessions st) sid now) = Some rec \<longrightarrow>
       sid' = new_sid \<and> fst (get_session_record (env_session env) (as_sessions st') sid now) = None \<and>
       map_option se_user (fst (get_session_record (env_session env) (as_sessions st') new_sid now)) = Some (se_user rec))"
proof -
  let ?cfg = "env_session env"
  from assms(2) obtain a n s1 rotated where c: "row_get ac_id (as_users st) u = Some a" "ac_is_active a" "password_ok env (Some a) (nfkc env current_password)"
    "password_errors env new_password (Some (ac_email a)) None = []" "destroy_all_for_user (as_sessions st) u (Some sid) now = (n, s1)"
    "regenerate_id (env_session env) s1 sid new_sid
       \<lparr>ov_roles = None, ov_version = None, ov_auth = Some now, ov_must_change = Some False, ov_mfa_setup = None, ov_mfa_auth = None\<rparr> now = (rotated, as_sessions st')"
    "sid' = (if rotated = None then sid else new_sid)"
    "as_users st' = row_upd ac_id u (\<lambda>_. a\<lparr>ac_password_hash := Some (hash_password env (nfkc env new_password)), ac_must_change := False, ac_password_changed := Some now\<rparr>) (as_users st)"
    by (rule change_password_cases)
  note rev = revocation_complete [OF assms(1) c(5) order_refl]
  have one: "s = sid" if "fst (get_session_record ?cfg s1 s now) = Some rec" "se_user rec = u" for s rec
    using rev [of s] that by (auto split: option.splits if_splits)
  have keep: "fst (get_session_record ?cfg s1 sid now) = fst (get_session_record ?cfg (as_sessions st) sid now)"
    using rev [of sid] by (auto split: option.splits)
  have "(\<forall>s rec. fst (get_session_record ?cfg (as_sessions st') s now) = Some rec \<longrightarrow> se_user rec = u \<longrightarrow> s = sid') \<and>
    (\<forall>rec. fst (get_session_record ?cfg (as_sessions st) sid now) = Some rec \<longrightarrow>
       sid' = new_sid \<and> fst (get_session_record ?cfg (as_sessions st') sid now) = None \<and>
       map_option se_user (fst (get_session_record ?cfg (as_sessions st') new_sid now)) = Some (se_user rec))"
  proof (cases rotated)
    case None
    then have g: "get_session_record ?cfg s1 sid now = (None, as_sessions st')"
      using c(6) by (auto simp: regenerate_id_def Let_def split: prod.splits option.splits)
    have "fst (get_session_record ?cfg s1 s now) = Some rec" if "fst (get_session_record ?cfg (as_sessions st') s now) = Some rec" for s rec
    proof -
      have "live (as_sessions st') now s = live s1 now s" using get_trimmed [OF g] served_live [OF that] unfolding trimmed_def by (metis option.distinct(1) order_refl)
      from served_eq [OF this] that show ?thesis by metis
    qed
    then have "\<forall>s rec. fst (get_session_record ?cfg (as_sessions st') s now) = Some rec \<longrightarrow> se_user rec = u \<longrightarrow> s = sid" using one by blast
    moreover have "fst (get_session_record ?cfg (as_sessions st) sid now) = None" using keep g by (metis fst_conv)
    ultimately show ?thesis using None c(7) by simp
  next
    case (Some rec')
    obtain rec where r: "get_session_record ?cfg s1 sid now = (Some rec, s1)"
      "rec' = replaced rec new_sid \<lparr>ov_roles = None, ov_version = None, ov_auth = Some now, ov_must_change = Some False, ov_mfa_setup = None, ov_mfa_auth = None\<rparr>"
      "\<forall>s. live (as_sessions st') now s = (if s = sid then None else if s = new_sid then Some rec' else live s1 now s)"
      by (rule rotated_live [OF c(6) [unfolded Some]])
    have "fst (get_session_record ?cfg s1 s now) = Some rec2"
      if "fst (get_session_record ?cfg (as_sessions st') s now) = Some rec2" "s \<noteq> new_sid" for s rec2
    proof -
      have "live (as_sessions st') now s = live s1 now s" using spec [OF r(3), of s] served_live [OF that(1)] that(2) by (auto split: if_splits)
      from served_eq [OF this] that(1) show ?thesis by metis
    qed
    moreover have "fst (get_session_record ?cfg (as_sessions st') sid now) = None" by (simp add: get_session_record_def r(3))
    moreover have "fst (get_session_record ?cfg (as_sessions st') new_sid now) = Some rec'"
      using get_served [OF r(1)] assms(3) by (simp add: get_session_record_def r(2,3) replaced_def override_def expiry_reason_def absolute_expires_at_def)
    moreover have "fst (get_session_record ?cfg (as_sessions st) sid now) = Some rec" using keep r(1) by (metis fst_conv)
    moreover have "sid' = new_sid" "se_user rec' = se_user rec" using c(7) Some r(2) by (simp_all add: replaced_fields)
    ultimately show ?thesis using one by (metis option.distinct(1) option.inject option.map(2))
  qed
  moreover have "ac_id a = u" using row_get_Some [OF c(1)] by simp
  then have "map_option ac_password_hash (row_get ac_id (as_users st') u) = Some (Some (hash_password env (nfkc env new_password)))"
    by (simp add: c(8) c(1) row_get_upd)
  ultimately show ?thesis using c(1-4) by blast
qed


lemma toy_change: "map_sum (\<lambda>_. ()) fst (change_password toy_env toy_state 5 ''s1'' ''pw'' ''correct horse'' ''s2'' None 0) = Inr ''s2''"
  by code_simp

theorem password_change_revokes_witness:
  "\<exists>st'. change_password toy_env toy_state 5 ''s1'' ''pw'' ''correct horse'' ''s2'' None 0 = Inr (''s2'', st') \<and>
     fst (get_session_record house_sessions (as_sessions st') ''s1'' 0) = None \<and>
     map_option se_user (fst (get_session_record house_sessions (as_sessions st') ''s2'' 0)) = Some 5"
proof -
  have e: "env_session toy_env = house_sessions" "as_sessions toy_state = signed_in" by (simp_all add: toy_env_def toy_state_def)
  obtain st' where c: "change_password toy_env toy_state 5 ''s1'' ''pw'' ''correct horse'' ''s2'' None 0 = Inr (''s2'', st')"
    using toy_change by (cases "change_password toy_env toy_state 5 ''s1'' ''pw'' ''correct horse'' ''s2'' None 0") auto
  have r: "reach session_init (session_step (env_session toy_env)) (0, as_sessions toy_state)" using signed_in_reach by (simp only: e)
  obtain rec where "fst (get_session_record house_sessions signed_in ''s1'' 0) = Some rec" "se_user rec = 5" using signed_in_served by (auto simp: map_option_case split: option.splits)
  then show ?thesis using c password_change_revokes [OF r c] by (simp add: e)
qed

text \<open>The log refuses no event of this module.\<close>

lemma auth_events_accepted:
  "is_ok (append_auth_event cd adb ctx_actor ctx_request (logout_event env u sid ip request) now)"
  "is_ok (append_auth_event cd adb ctx_actor ctx_request (revoked_sessions_event u request n) now)"
  by (simp_all add: append_auth_event_def logout_event_def revoked_sessions_event_def FORBIDDEN_EVENT_KEYS_def Let_def)

text \<open>
  What the code leaves open. A second step whose token or account is not accepted leaves no row in the table of
  attempts; a wrong code leaves the pending token in place, is not counted by the throttle, and may be followed by any number
  of others; and a code that verified by one reading of the clock but belongs to no step of the window by
  the next is accepted without being used up.
\<close>

lemma complete_mfa_unrecorded:
  "rd_get (as_pending st) now token = None \<Longrightarrow> complete_mfa env st token code cn sid at now = (Inr (plain_result Invalid), st)"
  by (simp add: complete_mfa_def)

lemma complete_mfa_unthrottled:
  assumes "complete_mfa env st token code cn sid at now = (Inr r, st')" "lr_status r = Mfa_Failed"
  shows "as_throttle st' = as_throttle st \<and> as_pending st' = as_pending st"
  using assms
  by (auto simp: complete_mfa_def create_session_for_def plain_result_def Let_def split: option.splits if_splits prod.splits sum.splits)

lemma boundary_code_reusable:
  "check_and_consume toy_env (\<lambda>_. None) 5 (Some ''k'') [char_of (64::nat)] 1979999999 1980000000 = (True, (\<lambda>_. None))"
proof -
  have "verify_code toy_env (Some ''k'') [char_of (64::nat)] 1979999999" "matched_counter toy_env ''k'' [char_of (64::nat)] 1980000000 = None"
    by code_simp+
  then show ?thesis by (simp add: check_and_consume_def)
qed

end
