(* ===== verification/Role_Grants.thy ===== *)
theory Role_Grants
  imports Session_Store Audit_Chain
begin

text \<open>
  \<open>core/rbac.py\<close>, \<open>core/auth/permission_cache.py\<close> and the resolver of \<open>core/auth/dependencies.py\<close>: role grants with
  their windows, the version counter of a user, the cached permission sets keyed by that version, and the stamp on
  the user's sessions. A cache key is the pair of user and version, a cached set the set itself. The events
  are those handed to \<open>append_auth_event\<close>; the rows the hook of the session writes for the changed columns are
  \<open>Audit_Chain\<close>'s matter. The roles' own permissions do not change here.
\<close>

section \<open>Tables\<close>

record grant_row = user_role +
  gr_id :: int
  gr_deleted :: bool

record authz_db =
  az_grants :: "grant_row list"
  az_seq :: int
  az_roles :: "(int \<times> string) list"
  az_role_perms :: "(int \<times> string) list"
  az_versions :: "(int \<times> int) list"
  az_sessions :: session_db
  az_cache :: "(int \<times> int, string set) redis"
  az_events :: "auth_event list"

definition user_version :: "authz_db \<Rightarrow> int \<Rightarrow> int" where
  "user_version db u = (case map_of (az_versions db) u of None \<Rightarrow> 0 | Some v \<Rightarrow> v)"

definition not_found :: exn where
  "not_found = APIError 404 ''not_found''"

section \<open>The permission set and its cache\<close>

definition live_grants :: "authz_db \<Rightarrow> int \<Rightarrow> grant_row list" where
  "live_grants db u = filter (\<lambda>g. ur_user g = u \<and> \<not> gr_deleted g) (az_grants db)"

text \<open>One row per permission of a grant's role.\<close>

definition grant_codes :: "authz_db \<Rightarrow> int \<Rightarrow> (string \<times> instant option \<times> instant option) list" where
  "grant_codes db u = concat (map (\<lambda>g.
     List.map_filter (\<lambda>(role, code). if role = ur_role g then Some (code, ur_valid_from g, ur_valid_to g) else None) (az_role_perms db)) (live_grants db u))"

definition window_open :: "instant \<Rightarrow> instant option \<times> instant option \<Rightarrow> bool" where
  "window_open now w = ((case fst w of None \<Rightarrow> True | Some f \<Rightarrow> f \<le> now) \<and> (case snd w of None \<Rightarrow> True | Some t \<Rightarrow> t > now))"

definition effective_permissions :: "authz_db \<Rightarrow> int \<Rightarrow> instant \<Rightarrow> string set" where
  "effective_permissions db u now = set (map fst (filter (\<lambda>r. window_open now (snd r)) (grant_codes db u)))"

text \<open>The edges of windows that lie ahead.\<close>

definition window_edges :: "instant \<Rightarrow> instant option \<times> instant option \<Rightarrow> instant list" where
  "window_edges now w = filter (\<lambda>t. t > now) (List.map_filter id [fst w, snd w])"

definition load_permission_entry :: "authz_db \<Rightarrow> int \<Rightarrow> instant \<Rightarrow> string set \<times> instant option" where
  "load_permission_entry db u now =
     (let edges = concat (map (\<lambda>r. window_edges now (snd r)) (grant_codes db u)) in
      (effective_permissions db u now, if edges = [] then None else Some (Min (set edges))))"

definition cache_ttl :: "int \<Rightarrow> instant option \<Rightarrow> instant \<Rightarrow> int" where
  "cache_ttl backstop boundary now =
     max 1 (case boundary of None \<Rightarrow> backstop | Some b \<Rightarrow> min backstop ((b - now) div 1000000))"

definition get_or_load :: "int \<Rightarrow> authz_db \<Rightarrow> int \<Rightarrow> int \<Rightarrow> instant \<Rightarrow> string set \<times> authz_db" where
  "get_or_load backstop db u v now =
     (case rd_get (az_cache db) now (u, v) of
        Some codes \<Rightarrow> (codes, db)
      | None \<Rightarrow>
          (let (codes, boundary) = load_permission_entry db u now in
           (codes, db\<lparr>az_cache := rd_set_ex (az_cache db) now (u, v) codes (seconds (cache_ttl backstop boundary now))\<rparr>)))"

definition cache_invalidate :: "authz_db \<Rightarrow> int \<Rightarrow> int \<Rightarrow> authz_db" where
  "cache_invalidate db u v = db\<lparr>az_cache := rd_del (az_cache db) (u, v)\<rparr>"

text \<open>
  What the gate \<open>require_permission\<close> does for a request that carries a session id: the middleware touches the
  session, \<open>require_session\<close> applies the two gates, and the permission is looked up under the session's version.
\<close>

definition unauthorized :: exn where "unauthorized = APIError 401 ''unauthorized''"
definition forbidden :: exn where "forbidden = APIError 403 ''forbidden''"
definition password_change_required :: exn where "password_change_required = APIError 403 ''password_change_required''"
definition mfa_setup_required :: exn where "mfa_setup_required = APIError 403 ''mfa_setup_required''"

definition require_session :: "session_record option \<Rightarrow> session_record res" where
  "require_session rec =
     (case rec of
        None \<Rightarrow> Inl unauthorized
      | Some r \<Rightarrow>
          if se_must_change r then Inl password_change_required
          else if se_mfa_setup r then Inl mfa_setup_required else Inr r)"

definition require_permission :: "session_settings \<Rightarrow> int \<Rightarrow> authz_db \<Rightarrow> string \<Rightarrow> string \<Rightarrow> instant \<Rightarrow> session_record res \<times> authz_db" where
  "require_permission cfg backstop db sid perm now =
     (let (rec, s) = touch cfg (az_sessions db) sid now; db1 = db\<lparr>az_sessions := s\<rparr> in
      case require_session rec of
        Inl e \<Rightarrow> (Inl e, db1)
      | Inr r \<Rightarrow>
          (let (codes, db2) = get_or_load backstop db1 (se_user r) (se_version r) now in
           (if perm \<in> codes then Inr r else Inl forbidden, db2)))"

section \<open>Granting and revoking\<close>

definition bump_version :: "authz_db \<Rightarrow> int \<Rightarrow> int \<times> authz_db" where
  "bump_version db u =
     (let v = user_version db u + 1 in (v, db\<lparr>az_versions := map (\<lambda>p. if fst p = u then (u, v) else p) (az_versions db)\<rparr>))"

definition propagate :: "authz_db \<Rightarrow> int \<Rightarrow> int \<Rightarrow> instant \<Rightarrow> authz_db" where
  "propagate db u v now =
     cache_invalidate (db\<lparr>az_sessions := snd (set_permissions_version (az_sessions db) u v now)\<rparr>) u (v - 1)"

record grant_request =
  gq_user :: int
  gq_role :: int
  gq_org :: "int option"
  gq_from :: "instant option"
  gq_to :: "instant option"
  gq_actor :: int
  gq_request :: "string option"

definition py_opt :: "('a \<Rightarrow> pyval) \<Rightarrow> 'a option \<Rightarrow> pyval" where
  "py_opt f x = (case x of None \<Rightarrow> PyNone | Some v \<Rightarrow> f v)"

definition put_grant :: "authz_db \<Rightarrow> grant_request \<Rightarrow> (grant_row \<times> authz_db) res" where
  "put_grant db q =
     (case filter (\<lambda>g. ur_user g = gq_user q \<and> ur_role g = gq_role q \<and> ur_org g = gq_org q) (az_grants db) of
        [] \<Rightarrow>
          (let g = \<lparr>ur_user = gq_user q, ur_role = gq_role q, ur_org = gq_org q, ur_valid_from = gq_from q, ur_valid_to = gq_to q,
             gr_id = az_seq db + 1, gr_deleted = False\<rparr> in
           Inr (g, db\<lparr>az_grants := az_grants db @ [g], az_seq := az_seq db + 1\<rparr>))
      | [g] \<Rightarrow>
          (let g' = g\<lparr>gr_deleted := False, ur_valid_from := gq_from q, ur_valid_to := gq_to q\<rparr> in
           Inr (g', db\<lparr>az_grants := row_upd gr_id (gr_id g) (\<lambda>_. g') (az_grants db)\<rparr>))
      | _ \<Rightarrow> Inl MultipleResultsFound)"

definition note_event :: "authz_db \<Rightarrow> auth_event \<Rightarrow> authz_db" where
  "note_event db ev = db\<lparr>az_events := az_events db @ [ev]\<rparr>"

definition granted_event :: "(instant \<Rightarrow> string) \<Rightarrow> grant_request \<Rightarrow> string \<Rightarrow> grant_row \<Rightarrow> auth_event" where
  "granted_event iso_at q code g =
     \<lparr>ae_event = ''rbac.role.granted'', ae_subject = gq_user q, ae_actor = Some (gq_actor q), ae_request = gq_request q,
      ae_data = [(''role_id'', PyInt (gq_role q)), (''role_code'', PyStr code), (''org_unit_id'', py_opt PyInt (gq_org q)),
        (''valid_from'', py_opt (\<lambda>t. PyDatetime (iso_at t)) (gq_from q)), (''valid_to'', py_opt (\<lambda>t. PyDatetime (iso_at t)) (gq_to q))],
      ae_table = ''core_user_roles'', ae_pk = Some (gr_id g)\<rparr>"

definition grant_role :: "(instant \<Rightarrow> string) \<Rightarrow> authz_db \<Rightarrow> grant_request \<Rightarrow> instant \<Rightarrow> (grant_row \<times> authz_db) res" where
  "grant_role iso_at db q now =
     (if gq_user q \<notin> fst ` set (az_versions db) then Inl not_found
      else (case map_of (az_roles db) (gq_role q) of
          None \<Rightarrow> Inl not_found
        | Some code \<Rightarrow>
            rbind (put_grant db q) (\<lambda>(g, db1).
              let (v, db2) = bump_version db1 (gq_user q); db3 = note_event db2 (granted_event iso_at q code g) in
              Inr (g, propagate db3 (gq_user q) v now))))"

definition revoked_event :: "int \<Rightarrow> int \<Rightarrow> int \<Rightarrow> string option \<Rightarrow> grant_row \<Rightarrow> auth_event" where
  "revoked_event u k actor request g =
     \<lparr>ae_event = ''rbac.role.revoked'', ae_subject = u, ae_actor = Some actor, ae_request = request,
      ae_data = [(''role_id'', PyInt (ur_role g)), (''org_unit_id'', py_opt PyInt (ur_org g))], ae_table = ''core_user_roles'', ae_pk = Some k\<rparr>"

definition revoke_role :: "authz_db \<Rightarrow> int \<Rightarrow> int \<Rightarrow> int \<Rightarrow> string option \<Rightarrow> instant \<Rightarrow> (grant_row \<times> authz_db) res" where
  "revoke_role db u k actor request now =
     (case find (\<lambda>g. gr_id g = k \<and> ur_user g = u \<and> \<not> gr_deleted g) (az_grants db) of
        None \<Rightarrow> Inl not_found
      | Some g \<Rightarrow>
          (let g' = g\<lparr>gr_deleted := True\<rparr>; db1 = db\<lparr>az_grants := row_upd gr_id k (\<lambda>_. g') (az_grants db)\<rparr> in
           if u \<notin> fst ` set (az_versions db) then Inl not_found
           else (let (v, db2) = bump_version db1 u; db3 = note_event db2 (revoked_event u k actor request g) in Inr (g', propagate db3 u v now))))"


section \<open>The cache follows the tables\<close>

lemma window_same:
  assumes "t0 \<le> t" "\<And>e. e \<in> set (window_edges t0 w) \<Longrightarrow> t < e"
  shows "window_open t w = window_open t0 w"
  using assms by (cases w; cases "fst w"; cases "snd w") (force simp: window_open_def window_edges_def map_filter_simps split: if_splits)+

lemma effective_same:
  assumes "load_permission_entry db u t0 = (codes, b)" "t0 \<le> t" "case b of None \<Rightarrow> True | Some e \<Rightarrow> t < e"
  shows "effective_permissions db u t = codes"
proof -
  let ?edges = "concat (map (\<lambda>r. window_edges t0 (snd r)) (grant_codes db u))"
  have "t < e" if "e \<in> set ?edges" for e
  proof -
    have "b = Some (Min (set ?edges))" using assms(1) that by (auto simp: load_permission_entry_def Let_def split: if_splits)
    then have "t < Min (set ?edges)" using assms(3) by simp
    also have "\<dots> \<le> e" by (rule Min_le [OF _ that]) simp
    finally show ?thesis .
  qed
  then have "window_open t (snd r) = window_open t0 (snd r)" if "r \<in> set (grant_codes db u)" for r
    using that by (intro window_same [OF assms(2)]) auto
  then have "filter (\<lambda>r. window_open t (snd r)) (grant_codes db u) = filter (\<lambda>r. window_open t0 (snd r)) (grant_codes db u)" by (rule filter_cong [OF refl])
  then show ?thesis using assms(1) by (simp add: effective_permissions_def load_permission_entry_def Let_def)
qed

text \<open>A set is current at \<open>t\<close> when the tables gave it less than a second before, or give it at \<open>t\<close>.\<close>

definition current :: "authz_db \<Rightarrow> int \<Rightarrow> instant \<Rightarrow> string set \<Rightarrow> bool" where
  "current db u t codes = (\<exists>t0 \<le> t. codes = effective_permissions db u t0 \<and> (t < t0 + 1000000 \<or> codes = effective_permissions db u t))"

lemma loaded_current:
  assumes "load_permission_entry db u now = (codes, b)" "now \<le> t" "t < now + seconds (cache_ttl backstop b now)"
  shows "current db u t codes"
proof (cases "t < now + 1000000")
  case True
  have "codes = effective_permissions db u now" using assms(1) by (simp add: load_permission_entry_def Let_def)
  then show ?thesis using True assms(2) by (auto simp: current_def)
next
  case False
  have "t < e" if "b = Some e" for e
  proof -
    have "cache_ttl backstop b now \<le> max 1 ((e - now) div 1000000)" by (simp add: cache_ttl_def that)
    then have "t < now + seconds (max 1 ((e - now) div 1000000))" using assms(3) by linarith
    moreover have "1 < (e - now) div 1000000" using False calculation by (auto simp: max_def split: if_splits)
    ultimately have "t < now + seconds ((e - now) div 1000000)" by (simp add: max_def split: if_splits)
    also have "\<dots> \<le> e" by simp
    finally show ?thesis .
  qed
  then have "effective_permissions db u t = codes" by (intro effective_same [OF assms(1,2)]) (simp split: option.split)
  then show ?thesis by (auto simp: current_def)
qed

inductive authz_step :: "session_settings \<Rightarrow> int \<Rightarrow> instant \<times> authz_db \<Rightarrow> instant \<times> authz_db \<Rightarrow> bool" for cfg backstop where
  az_wait: "now \<le> t \<Longrightarrow> authz_step cfg backstop (now, db) (t, db)"
| az_request: "require_permission cfg backstop db sid perm now = (x, db') \<Longrightarrow> authz_step cfg backstop (now, db) (now, db')"
| az_login: "create_session cfg (az_sessions db) si sid now = Inr (rec, s) \<Longrightarrow> si_version si = user_version db (si_user si) \<Longrightarrow>
    fresh_sid (az_sessions db) sid \<Longrightarrow> authz_step cfg backstop (now, db) (now, db\<lparr>az_sessions := s\<rparr>)"
| az_rotate: "regenerate_id cfg (az_sessions db) sid new_sid ov now = (x, s) \<Longrightarrow> ov_version ov = None \<Longrightarrow> fresh_sid (az_sessions db) new_sid \<Longrightarrow>
    authz_step cfg backstop (now, db) (now, db\<lparr>az_sessions := s\<rparr>)"
| az_logout: "authz_step cfg backstop (now, db) (now, db\<lparr>az_sessions := destroy (az_sessions db) sid uid now\<rparr>)"
| az_revoke_all: "destroy_all_for_user (az_sessions db) uid except now = (n, s) \<Longrightarrow> authz_step cfg backstop (now, db) (now, db\<lparr>az_sessions := s\<rparr>)"
| az_grant: "grant_role iso_at db q now = Inr (g, db') \<Longrightarrow> authz_step cfg backstop (now, db) (now, db')"
| az_revoke: "revoke_role db u k actor request now = Inr (g, db') \<Longrightarrow> authz_step cfg backstop (now, db) (now, db')"

definition authz_init :: "instant \<times> authz_db \<Rightarrow> bool" where
  "authz_init s = (session_init (fst s, az_sessions (snd s)) \<and> (\<forall>k. az_cache (snd s) k = None) \<and>
     distinct (map gr_id (az_grants (snd s))) \<and> (\<forall>g \<in> set (az_grants (snd s)). gr_id g \<le> az_seq (snd s)))"

definition versions_ok :: "session_settings \<Rightarrow> instant \<Rightarrow> authz_db \<Rightarrow> bool" where
  "versions_ok cfg now db = (\<forall>sid rec. live (az_sessions db) now sid = Some rec \<and> now < absolute_expires_at cfg (se_created rec) \<longrightarrow>
     se_version rec = user_version db (se_user rec))"

definition cache_ok :: "instant \<Rightarrow> authz_db \<Rightarrow> bool" where
  "cache_ok now db = ((\<forall>u v. az_cache db (u, v) \<noteq> None \<longrightarrow> v \<le> user_version db u) \<and>
     (\<forall>u t codes. now \<le> t \<and> rd_get (az_cache db) t (u, user_version db u) = Some codes \<longrightarrow> current db u t codes))"

definition authz_inv :: "session_settings \<Rightarrow> instant \<times> authz_db \<Rightarrow> bool" where
  "authz_inv cfg s = (case s of (now, db) \<Rightarrow>
     session_inv cfg (now, az_sessions db) \<and> versions_ok cfg now db \<and> cache_ok now db \<and>
     distinct (map gr_id (az_grants db)) \<and> (\<forall>g \<in> set (az_grants db). gr_id g \<le> az_seq db))"

lemma current_cong: "az_grants db' = az_grants db \<Longrightarrow> az_role_perms db' = az_role_perms db \<Longrightarrow> current db' = current db"
  by (intro ext) (simp add: current_def effective_permissions_def grant_codes_def live_grants_def)

lemma user_version_cong: "az_versions db' = az_versions db \<Longrightarrow> user_version db' = user_version db"
  by (intro ext) (simp add: user_version_def)

text \<open>A call on the sessions that leaves the rest alone and gives no live session another version or owner.\<close>

lemma sessions_changed_inv:
  assumes "authz_inv cfg (now, db)" "session_inv cfg (now, s)"
    "\<And>sid rec. live s now sid = Some rec \<Longrightarrow> now < absolute_expires_at cfg (se_created rec) \<Longrightarrow> se_version rec = user_version db (se_user rec)"
  shows "authz_inv cfg (now, db\<lparr>az_sessions := s\<rparr>)"
  using assms current_cong [of "db\<lparr>az_sessions := s\<rparr>" db] user_version_cong [of "db\<lparr>az_sessions := s\<rparr>" db]
  by (auto simp: authz_inv_def versions_ok_def cache_ok_def)

lemma trimmed_authz:
  assumes "authz_inv cfg (now, db)" "trimmed now (az_sessions db) s"
  shows "authz_inv cfg (now, db\<lparr>az_sessions := s\<rparr>)"
proof (rule sessions_changed_inv [OF assms(1)])
  show "session_inv cfg (now, s)" using assms trimmed_inv by (auto simp: authz_inv_def)
  show "se_version rec = user_version db (se_user rec)" if "live s now sid = Some rec" "now < absolute_expires_at cfg (se_created rec)" for sid rec
  proof -
    have "live (az_sessions db) now sid = Some rec" using assms(2) that(1) unfolding trimmed_def by (metis order_refl option.distinct(1))
    then show ?thesis using assms(1) that(2) by (auto simp: authz_inv_def versions_ok_def)
  qed
qed


lemma touch_live:
  assumes "touch cfg s sid now = (x, s')" "live s' now k = Some rec"
  shows "\<exists>rec0. live s now k = Some rec0 \<and> se_version rec = se_version rec0 \<and> se_user rec = se_user rec0 \<and> se_created rec = se_created rec0"
proof (cases "get_session_record cfg s sid now")
  case (Pair y s1)
  show ?thesis
  proof (cases y)
    case None
    then have "trimmed now s s'" using assms(1) Pair get_trimmed [OF Pair] by (simp add: touch_def)
    then show ?thesis using assms(2) unfolding trimmed_def by (metis order_refl option.distinct(1))
  next
    case (Some r)
    note g = get_served [OF Pair [unfolded Some]]
    have "s' = s\<lparr>hashes := rd_set_ex (hashes s) now sid (r\<lparr>se_seen := now\<rparr>) (seconds (ttl_seconds cfg (r\<lparr>se_seen := now\<rparr>) now))\<rparr>"
      using assms(1) Pair Some g by (auto simp: touch_def Let_def)
    then show ?thesis using assms(2) g by (cases "k = sid") (auto split: if_splits)
  qed
qed

lemma touched:
  assumes "touch cfg s sid now = (Some rec, s')"
  shows "\<exists>rec0. live s now sid = Some rec0 \<and> now < absolute_expires_at cfg (se_created rec0) \<and> se_version rec = se_version rec0 \<and> se_user rec = se_user rec0"
proof (cases "get_session_record cfg s sid now")
  case (Pair y s1)
  then obtain r where "y = Some r" using assms by (cases y) (simp_all add: touch_def)
  then show ?thesis using assms Pair get_served [of cfg s sid now r s1] by (auto simp: touch_def Let_def)
qed

lemma request_inv:
  assumes "authz_inv cfg (now, db)" "require_permission cfg backstop db sid perm now = (x, db')"
  shows "authz_inv cfg (now, db')"
proof -
  obtain rec s where t: "touch cfg (az_sessions db) sid now = (rec, s)" by (cases "touch cfg (az_sessions db) sid now")
  let ?db1 = "db\<lparr>az_sessions := s\<rparr>"
  have i1: "authz_inv cfg (now, ?db1)"
  proof (rule sessions_changed_inv [OF assms(1)])
    show "session_inv cfg (now, s)" using assms(1) touch_inv [OF _ t] by (simp add: authz_inv_def)
    show "se_version r = user_version db (se_user r)" if "live s now k = Some r" "now < absolute_expires_at cfg (se_created r)" for k r
      using touch_live [OF t that(1)] that(2) assms(1) by (auto simp: authz_inv_def versions_ok_def)
  qed
  show ?thesis
  proof (cases "require_session rec")
    case (Inl e)
    then show ?thesis using assms(2) t i1 by (simp add: require_permission_def)
  next
    case (Inr r)
    then have "rec = Some r" by (auto simp: require_session_def split: option.splits if_splits)
    then obtain rec0 where "live (az_sessions db) now sid = Some rec0" "now < absolute_expires_at cfg (se_created rec0)" "se_version r = se_version rec0" "se_user r = se_user rec0"
      using touched t by blast
    then have v: "se_version r = user_version db (se_user r)" using assms(1) by (simp add: authz_inv_def versions_ok_def)
    obtain codes db2 where g: "get_or_load backstop ?db1 (se_user r) (se_version r) now = (codes, db2)" by (cases "get_or_load backstop ?db1 (se_user r) (se_version r) now")
    have db': "db' = db2" using assms(2) t Inr g by (simp add: require_permission_def split: if_splits)
    show ?thesis
    proof (cases "rd_get (az_cache ?db1) now (se_user r, se_version r)")
      case None
      obtain b where l: "load_permission_entry ?db1 (se_user r) now = (codes, b)"
        and d: "db2 = ?db1\<lparr>az_cache := rd_set_ex (az_cache ?db1) now (se_user r, se_version r) codes (seconds (cache_ttl backstop b now))\<rparr>"
        using g None by (cases "load_permission_entry ?db1 (se_user r) now") (simp add: get_or_load_def)
      have c: "current db2 = current ?db1" "user_version db2 = user_version ?db1"
        by (rule current_cong; simp add: d) (rule user_version_cong, simp add: d)
      have "cache_ok now db2"
        unfolding cache_ok_def
      proof (intro conjI allI impI)
        show "w \<le> user_version db2 u" if "az_cache db2 (u, w) \<noteq> None" for u w
        proof (cases "(u, w) = (se_user r, se_version r)")
          case True
          then show ?thesis using v c(2) user_version_cong [of ?db1 db] by simp
        next
          case False
          then have "az_cache ?db1 (u, w) \<noteq> None" using that by (auto simp: d rd_set_ex_def)
          then show ?thesis using i1 unfolding c(2) authz_inv_def cache_ok_def prod.case by blast
        qed
        show "current db2 u t cs" if h: "now \<le> t \<and> rd_get (az_cache db2) t (u, user_version db2 u) = Some cs" for u t cs
        proof (cases "(u, user_version db2 u) = (se_user r, se_version r)")
          case True
          then have "cs = codes" "t < now + seconds (cache_ttl backstop b now)" "u = se_user r" using h by (simp_all add: d split: if_splits)
          then show ?thesis using loaded_current [OF l] h c(1) by simp
        next
          case False
          have z: "az_cache db2 = rd_set_ex (az_cache ?db1) now (se_user r, se_version r) codes (seconds (cache_ttl backstop b now))" by (simp add: d)
          have "rd_get (az_cache db2) t (u, user_version db2 u) = rd_get (az_cache ?db1) t (u, user_version db2 u)" unfolding z rd_get_simps using False by auto
          then have "rd_get (az_cache ?db1) t (u, user_version ?db1 u) = Some cs" using h by (simp only: c(2))
          then show ?thesis using i1 h unfolding c(1) authz_inv_def cache_ok_def prod.case by blast
        qed
      qed
      moreover have "az_sessions db2 = az_sessions ?db1" "az_grants db2 = az_grants ?db1" "az_seq db2 = az_seq ?db1" by (simp_all add: d)
      moreover from this have "versions_ok cfg now db2 = versions_ok cfg now ?db1" unfolding versions_ok_def c(2) by (simp only: simp_thms)
      ultimately show ?thesis using i1 unfolding db' authz_inv_def prod.case by simp
    next
      case (Some cs)
      then show ?thesis using g i1 by (simp add: db' get_or_load_def)
    qed
  qed
qed


lemma login_inv:
  assumes "authz_inv cfg (now, db)" "create_session cfg (az_sessions db) si sid now = Inr (rec, s)" "si_version si = user_version db (si_user si)"
    "fresh_sid (az_sessions db) sid"
  shows "authz_inv cfg (now, db\<lparr>az_sessions := s\<rparr>)"
proof (rule sessions_changed_inv [OF assms(1)])
  have i: "session_inv cfg (now, az_sessions db)" using assms(1) by (simp add: authz_inv_def)
  show "session_inv cfg (now, s)" by (rule create_inv [OF i assms(2,4)])
  obtain s1 where s1: "enforce_cap cfg (az_sessions db) (si_user si) now = Inr s1" and ins: "insert_session cfg s1 si sid now now = (rec, s)"
    using assms(2) by (auto simp: create_session_def rbind_eq_Inr)
  note c = insert_cases [OF ins]
  have v: "se_version rec = si_version si" "se_user rec = si_user si" unfolding c(1) by (simp_all add: session_for_def)
  show "se_version r = user_version db (se_user r)" if "live s now k = Some r" "now < absolute_expires_at cfg (se_created r)" for k r
  proof (cases "k = sid")
    case True
    then show ?thesis using that(1) c(2) v assms(3) by (simp split: if_splits)
  next
    case False
    then have "live s1 now k = Some r" using that(1) c(2) by simp
    then have "live (az_sessions db) now k = Some r" using enforce_cap_trimmed(1) [OF s1] unfolding trimmed_def by (metis order_refl option.distinct(1))
    then show ?thesis using assms(1) that(2) by (simp add: authz_inv_def versions_ok_def)
  qed
qed

lemma rotate_authz:
  assumes "authz_inv cfg (now, db)" "regenerate_id cfg (az_sessions db) sid new_sid ov now = (x, s)" "ov_version ov = None" "fresh_sid (az_sessions db) new_sid"
  shows "authz_inv cfg (now, db\<lparr>az_sessions := s\<rparr>)"
proof (cases "get_session_record cfg (az_sessions db) sid now")
  case (Pair y s1)
  have i: "session_inv cfg (now, az_sessions db)" using assms(1) by (simp add: authz_inv_def)
  show ?thesis
  proof (cases y)
    case None
    then have "trimmed now (az_sessions db) s" using assms(2) Pair get_trimmed [OF Pair] by (simp add: regenerate_id_def)
    then show ?thesis by (rule trimmed_authz [OF assms(1)])
  next
    case (Some r)
    note c = rotate_cases(3) [OF i Pair [unfolded Some] assms(2,4)] and g = get_served [OF Pair [unfolded Some]]
    show ?thesis
    proof (rule sessions_changed_inv [OF assms(1) rotate_inv [OF i assms(2,4)]])
      show "se_version q = user_version db (se_user q)" if "live s now k = Some q" "now < absolute_expires_at cfg (se_created q)" for k q
      proof (cases "k = new_sid")
        case True
        then have "q = replaced r new_sid ov" using that(1) c [of k] by simp
        then have "se_version q = se_version r" "se_user q = se_user r" using assms(3) by (simp_all add: replaced_def override_def)
        then show ?thesis using g assms(1) unfolding authz_inv_def versions_ok_def by auto
      next
        case False
        then have "live (az_sessions db) now k = Some q" using that(1) c [of k] by (simp split: if_splits)
        then show ?thesis using assms(1) that(2) by (simp add: authz_inv_def versions_ok_def)
      qed
    qed
  qed
qed


text \<open>A change of one user's grants, the new version, and its propagation.\<close>

lemma regranted_inv:
  assumes inv: "authz_inv cfg (now, db)"
    and d1: "az_versions db1 = az_versions db" "az_sessions db1 = az_sessions db" "az_cache db1 = az_cache db" "az_role_perms db1 = az_role_perms db"
      "\<And>w. w \<noteq> u \<Longrightarrow> live_grants db1 w = live_grants db w" "distinct (map gr_id (az_grants db1))" "\<forall>g \<in> set (az_grants db1). gr_id g \<le> az_seq db1"
    and u: "u \<in> fst ` set (az_versions db)" and b: "bump_version db1 u = (v, db2)"
  shows "authz_inv cfg (now, propagate db2 u v now)" "user_version (propagate db2 u v now) u = v" "rd_get (az_cache (propagate db2 u v now)) t (u, v) = None"
    "az_grants (propagate db2 u v now) = az_grants db1" "az_role_perms (propagate db2 u v now) = az_role_perms db1"
proof -
  let ?p = "propagate db2 u v now"
  obtain n s where s: "set_permissions_version (az_sessions db) u v now = (n, s)" by (cases "set_permissions_version (az_sessions db) u v now")
  have v: "v = user_version db u + 1" and db2: "db2 = db1\<lparr>az_versions := map (\<lambda>p. if fst p = u then (u, v) else p) (az_versions db)\<rparr>"
    using b d1(1) by (auto simp: bump_version_def Let_def user_version_def)
  have fields: "az_sessions ?p = s" "az_cache ?p = rd_del (az_cache db) (u, v - 1)" "az_versions ?p = az_versions db2"
    "az_grants ?p = az_grants db1" "az_role_perms ?p = az_role_perms db1" "az_seq ?p = az_seq db1"
    using s d1 by (simp_all add: propagate_def cache_invalidate_def db2)
  show "az_grants ?p = az_grants db1" "az_role_perms ?p = az_role_perms db1" by (rule fields)+
  have mo: "map_of (map (\<lambda>p. if fst p = u then (u, v) else p) xs) w = (if w = u then map_option (\<lambda>_. v) (map_of xs u) else map_of xs w)" for xs :: "(int \<times> int) list" and w
    by (induction xs) auto
  have "map_of (az_versions db) u \<noteq> None" using u by (simp add: map_of_eq_None_iff)
  moreover have "az_versions db2 = map (\<lambda>p. if fst p = u then (u, v) else p) (az_versions db)" by (simp add: db2)
  ultimately have uv: "user_version ?p w = (if w = u then v else user_version db w)" for w unfolding user_version_def fields(3) by (auto simp: mo)
  then show "user_version ?p u = v" by simp
  have old: "w \<le> user_version db x" if "az_cache db (x, w) \<noteq> None" for x w
    using inv that unfolding authz_inv_def cache_ok_def prod.case by blast
  have new: "az_cache db (u, v) = None" using old [of u v] v by (cases "az_cache db (u, v)") auto
  then show none: "rd_get (az_cache ?p) t (u, v) = None" for t by (simp add: fields(2) rd_get_def rd_del_def)
  have cur: "current ?p w = current db w" if "w \<noteq> u" for w
    using d1(4) d1(5) [OF that] fields by (intro ext) (simp add: current_def effective_permissions_def grant_codes_def live_grants_def)
  have i: "session_inv cfg (now, az_sessions db)" using inv by (simp add: authz_inv_def)
  have "session_inv cfg (now, s)" using session_use_inv [OF ses_version [OF s] i] .
  moreover have "versions_ok cfg now ?p"
    unfolding versions_ok_def
  proof (intro allI impI, elim conjE)
    fix sid rec assume l: "live (az_sessions ?p) now sid = Some rec" "now < absolute_expires_at cfg (se_created rec)"
    obtain rec0 where r0: "live (az_sessions db) now sid = Some rec0" "rec = (if se_user rec0 = u then rec0\<lparr>se_version := v\<rparr> else rec0)"
      by (rule stamped_live [OF i s]) (use l fields(1) in auto)
    show "se_version rec = user_version ?p (se_user rec)"
    proof (cases "se_user rec0 = u")
      case False
      then have "rec = rec0" using r0(2) by simp
      then have "se_version rec = user_version db (se_user rec)" using inv r0(1) l(2) unfolding authz_inv_def versions_ok_def prod.case by blast
      then show ?thesis using False \<open>rec = rec0\<close> uv by simp
    qed (use r0(2) uv in simp)
  qed
  moreover have "cache_ok now ?p"
    unfolding cache_ok_def
  proof (intro conjI allI impI)
    show "w \<le> user_version ?p x" if "az_cache ?p (x, w) \<noteq> None" for x w
    proof -
      have "az_cache db (x, w) \<noteq> None" using that by (simp add: fields(2) rd_del_def split: if_splits)
      then show ?thesis using old [of x w] uv [of x] v by (simp split: if_splits)
    qed
    show "current ?p x t cs" if h: "now \<le> t \<and> rd_get (az_cache ?p) t (x, user_version ?p x) = Some cs" for x t cs
    proof (cases "x = u")
      case True
      then show ?thesis using h none [of t] uv by simp
    next
      case False
      then have "rd_get (az_cache db) t (x, user_version db x) = Some cs" using h uv [of x] by (simp add: fields(2))
      then have "current db x t cs" using inv h unfolding authz_inv_def cache_ok_def prod.case by blast
      then show ?thesis using cur [OF False] by simp
    qed
  qed
  ultimately show "authz_inv cfg (now, ?p)" using d1(6,7) by (simp add: authz_inv_def fields)
qed

lemma regrant_row:
  assumes "distinct (map gr_id (az_grants db))" "\<forall>g \<in> set (az_grants db). gr_id g \<le> az_seq db" "h \<in> set (az_grants db)" "ur_user h = u" "ur_user g' = u" "gr_id g' = gr_id h"
    "db1 = db\<lparr>az_grants := row_upd gr_id (gr_id h) (\<lambda>_. g') (az_grants db)\<rparr>"
  shows "w \<noteq> u \<Longrightarrow> live_grants db1 w = live_grants db w" "distinct (map gr_id (az_grants db1))" "\<forall>g \<in> set (az_grants db1). gr_id g \<le> az_seq db1"
proof -
  let ?f = "\<lambda>r. if gr_id r = gr_id h then g' else r"
  have same: "r = h" if "r \<in> set (az_grants db)" "gr_id r = gr_id h" for r using assms(1,3) that by (auto simp: distinct_map dest: inj_onD)
  have ids: "map gr_id (map ?f (az_grants db)) = map gr_id (az_grants db)" using assms(6) by simp
  show "live_grants db1 w = live_grants db w" if "w \<noteq> u"
  proof -
    let ?P = "\<lambda>g. ur_user g = w \<and> \<not> gr_deleted g"
    have "filter ?P (map ?f (az_grants db)) = map ?f (filter (?P \<circ> ?f) (az_grants db))" by (rule filter_map)
    also have "filter (?P \<circ> ?f) (az_grants db) = filter ?P (az_grants db)" by (rule filter_cong) (use same assms(4,5) that in auto)
    also have "map ?f (filter ?P (az_grants db)) = filter ?P (az_grants db)" by (rule map_idI) (use same assms(4) that in auto)
    finally show ?thesis by (simp add: live_grants_def assms(7) row_upd_def)
  qed
  have g1: "az_grants db1 = map ?f (az_grants db)" by (simp add: assms(7) row_upd_def)
  show "distinct (map gr_id (az_grants db1))" unfolding g1 ids by (rule assms(1))
  show "\<forall>g \<in> set (az_grants db1). gr_id g \<le> az_seq db1" using assms(2,3,6) by (auto simp: assms(7) row_upd_def)
qed

lemma put_grant_effect:
  assumes "put_grant db q = Inr (g, db1)" "distinct (map gr_id (az_grants db))" "\<forall>g \<in> set (az_grants db). gr_id g \<le> az_seq db"
  shows "az_versions db1 = az_versions db" "az_sessions db1 = az_sessions db" "az_cache db1 = az_cache db" "az_role_perms db1 = az_role_perms db"
    "\<And>w. w \<noteq> gq_user q \<Longrightarrow> live_grants db1 w = live_grants db w" "distinct (map gr_id (az_grants db1))" "\<forall>g \<in> set (az_grants db1). gr_id g \<le> az_seq db1"
proof -
  let ?m = "filter (\<lambda>g. ur_user g = gq_user q \<and> ur_role g = gq_role q \<and> ur_org g = gq_org q) (az_grants db)"
  have "(db1 = db\<lparr>az_grants := az_grants db @ [g], az_seq := az_seq db + 1\<rparr> \<and> gr_id g = az_seq db + 1 \<and> ur_user g = gq_user q) \<or>
    (\<exists>h \<in> set (az_grants db). ur_user h = gq_user q \<and> gr_id g = gr_id h \<and> ur_user g = gq_user q \<and> db1 = db\<lparr>az_grants := row_upd gr_id (gr_id h) (\<lambda>_. g) (az_grants db)\<rparr>)"
  proof (cases ?m)
    case Nil
    then show ?thesis using assms(1) by (auto simp: put_grant_def Let_def)
  next
    case (Cons h hs)
    have "h \<in> set ?m" by (simp add: Cons)
    then have h: "h \<in> set (az_grants db)" "ur_user h = gq_user q" by simp_all
    have "hs = []" using assms(1) Cons by (cases hs) (simp_all add: put_grant_def)
    then have "g = h\<lparr>gr_deleted := False, ur_valid_from := gq_from q, ur_valid_to := gq_to q\<rparr> \<and> db1 = db\<lparr>az_grants := row_upd gr_id (gr_id h) (\<lambda>_. g) (az_grants db)\<rparr>"
      using assms(1) Cons by (auto simp: put_grant_def Let_def)
    then show ?thesis using h by fastforce
  qed
  then consider (new) "db1 = db\<lparr>az_grants := az_grants db @ [g], az_seq := az_seq db + 1\<rparr>" "gr_id g = az_seq db + 1" "ur_user g = gq_user q"
    | (old) h where "h \<in> set (az_grants db)" "ur_user h = gq_user q" "gr_id g = gr_id h" "ur_user g = gq_user q"
        "db1 = db\<lparr>az_grants := row_upd gr_id (gr_id h) (\<lambda>_. g) (az_grants db)\<rparr>"
    by blast
  then have "az_versions db1 = az_versions db \<and> az_sessions db1 = az_sessions db \<and> az_cache db1 = az_cache db \<and> az_role_perms db1 = az_role_perms db \<and>
    (\<forall>w. w \<noteq> gq_user q \<longrightarrow> live_grants db1 w = live_grants db w) \<and> distinct (map gr_id (az_grants db1)) \<and> (\<forall>g \<in> set (az_grants db1). gr_id g \<le> az_seq db1)"
  proof cases
    case new
    have "gr_id g \<notin> gr_id ` set (az_grants db)" using assms(3) new(2) by auto
    moreover have "\<forall>g \<in> set (az_grants db). gr_id g \<le> az_seq db + 1" using assms(3) by fastforce
    ultimately show ?thesis using assms(2) new by (simp add: live_grants_def)
  next
    case (old h)
    show ?thesis using regrant_row [OF assms(2,3) old(1,2,4,3,5)] by (simp add: old(5))
  qed
  then show "az_versions db1 = az_versions db" "az_sessions db1 = az_sessions db" "az_cache db1 = az_cache db" "az_role_perms db1 = az_role_perms db"
    "\<And>w. w \<noteq> gq_user q \<Longrightarrow> live_grants db1 w = live_grants db w" "distinct (map gr_id (az_grants db1))" "\<forall>g \<in> set (az_grants db1). gr_id g \<le> az_seq db1"
    by blast+
qed

lemma propagate_note: "propagate (note_event db ev) u v now = note_event (propagate db u v now) ev"
  by (simp add: propagate_def note_event_def cache_invalidate_def)

lemma note_event_inv [simp]: "authz_inv cfg (now, note_event db ev) = authz_inv cfg (now, db)"
proof -
  have "current (note_event db ev) = current db" by (rule current_cong) (simp_all add: note_event_def)
  then show ?thesis by (simp add: authz_inv_def versions_ok_def cache_ok_def user_version_def note_event_def)
qed

text \<open>No event of a grant or a revocation is refused by the log.\<close>

lemma events_accepted:
  "is_ok (append_auth_event cd adb ctx_actor ctx_request (granted_event iso_at q code g) now)"
  "is_ok (append_auth_event cd adb ctx_actor ctx_request (revoked_event u k actor request g) now)"
  by (simp_all add: append_auth_event_def granted_event_def revoked_event_def FORBIDDEN_EVENT_KEYS_def Let_def)

lemma grant_inv:
  assumes "authz_inv cfg (now, db)" "grant_role iso_at db q now = Inr (g, db')"
  shows "authz_inv cfg (now, db')"
proof -
  obtain db1 v db2 ev where p: "put_grant db q = Inr (g, db1)" "bump_version db1 (gq_user q) = (v, db2)" "db' = note_event (propagate db2 (gq_user q) v now) ev"
    and u: "gq_user q \<in> fst ` set (az_versions db)"
    using assms(2) by (cases "put_grant db q"; cases "bump_version (snd (projr (put_grant db q))) (gq_user q)")
      (auto simp: grant_role_def propagate_note Let_def split: if_splits option.splits)
  have k: "distinct (map gr_id (az_grants db))" "\<forall>g \<in> set (az_grants db). gr_id g \<le> az_seq db" using assms(1) by (simp_all add: authz_inv_def)
  show ?thesis unfolding p(3) note_event_inv by (rule regranted_inv(1) [OF assms(1) put_grant_effect [OF p(1) k] u p(2)])
qed

lemma revoke_cases:
  assumes "authz_inv cfg (now, db)" "revoke_role db u k actor request now = Inr (g, db')"
  obtains h db1 v db2 ev where "h \<in> set (az_grants db)" "gr_id h = k" "ur_user h = u" "\<not> gr_deleted h" "g = h\<lparr>gr_deleted := True\<rparr>"
    "db1 = db\<lparr>az_grants := row_upd gr_id k (\<lambda>_. g) (az_grants db)\<rparr>" "bump_version db1 u = (v, db2)" "db' = note_event (propagate db2 u v now) ev"
    "u \<in> fst ` set (az_versions db)"
proof -
  obtain h where "find (\<lambda>g. gr_id g = k \<and> ur_user g = u \<and> \<not> gr_deleted g) (az_grants db) = Some h" "g = h\<lparr>gr_deleted := True\<rparr>"
    using assms(2) by (auto simp: revoke_role_def Let_def split: option.splits if_splits prod.splits)
  moreover from this have "h \<in> set (az_grants db)" "gr_id h = k" "ur_user h = u" "\<not> gr_deleted h" by (auto simp: find_Some_iff)
  ultimately show thesis using assms(2) that
    by (cases "bump_version (db\<lparr>az_grants := row_upd gr_id k (\<lambda>_. g) (az_grants db)\<rparr>) u") (auto simp: revoke_role_def propagate_note Let_def split: if_splits)
qed

lemma revoke_inv:
  assumes "authz_inv cfg (now, db)" "revoke_role db u k actor request now = Inr (g, db')"
  shows "authz_inv cfg (now, db')"
proof -
  obtain h db1 v db2 ev where h: "h \<in> set (az_grants db)" "gr_id h = k" "ur_user h = u" "g = h\<lparr>gr_deleted := True\<rparr>"
    "db1 = db\<lparr>az_grants := row_upd gr_id k (\<lambda>_. g) (az_grants db)\<rparr>" "bump_version db1 u = (v, db2)" "db' = note_event (propagate db2 u v now) ev" "u \<in> fst ` set (az_versions db)"
    by (rule revoke_cases [OF assms])
  have k: "distinct (map gr_id (az_grants db))" "\<forall>g \<in> set (az_grants db). gr_id g \<le> az_seq db" using assms(1) by (simp_all add: authz_inv_def)
  note r = regrant_row [OF k h(1,3), of g db1]
  show ?thesis unfolding h(7) note_event_inv
    by (rule regranted_inv(1) [OF assms(1) _ _ _ _ _ _ _ h(8,6)]) (use h r in auto)
qed


lemma authz_step_inv:
  assumes "authz_inv cfg s" "authz_step cfg backstop s s'"
  shows "authz_inv cfg s'"
  using assms(2)
proof (cases rule: authz_step.cases)
  case (az_wait now t db)
  have i: "session_inv cfg (now, az_sessions db)" using assms(1) az_wait by (simp add: authz_inv_def)
  have "live (az_sessions db) t sid = Some rec \<Longrightarrow> live (az_sessions db) now sid = Some rec" for sid rec by (rule rd_get_back [OF _ az_wait(3)])
  moreover have "versions_ok cfg now db" using assms(1) az_wait by (simp add: authz_inv_def)
  ultimately have "versions_ok cfg t db" unfolding versions_ok_def using order_le_less_trans [OF az_wait(3)] by blast
  moreover have "cache_ok now db" using assms(1) az_wait by (simp add: authz_inv_def)
  then have "cache_ok t db" unfolding cache_ok_def using order_trans [OF az_wait(3)] by blast
  ultimately show ?thesis using assms(1) az_wait wait_inv [OF i az_wait(3)] by (simp add: authz_inv_def)
next
  case (az_revoke_all db uid except now n sd)
  then have "trimmed now (az_sessions db) sd" using trimmed_drop_remove by (auto simp: destroy_all_for_user_def Let_def)
  then show ?thesis using assms(1) az_revoke_all trimmed_authz by blast
qed (use assms(1) in \<open>auto intro: request_inv login_inv rotate_authz grant_inv revoke_inv trimmed_authz [OF _ destroy_trimmed]\<close>)

lemma authz_init_inv:
  assumes "authz_init s"
  shows "authz_inv cfg s"
proof -
  obtain now db where s: "s = (now, db)" by (cases s)
  have i: "session_init (now, az_sessions db)" "\<forall>k. az_cache db k = None" using assms s by (auto simp: authz_init_def)
  have "live (az_sessions db) now k = None" for k using i(1) by (simp add: session_init_def rd_get_def)
  moreover have "rd_get (az_cache db) t k = None" for t k using spec [OF i(2), of k] by (simp add: rd_get_def)
  ultimately show ?thesis using session_init_inv [OF i(1)] assms s i(2) by (simp add: authz_inv_def authz_init_def versions_ok_def cache_ok_def)
qed

interpretation authorization: invariant_system authz_init "authz_step cfg backstop" "authz_inv cfg" for cfg backstop
  by unfold_locales (auto intro: authz_init_inv authz_step_inv)

section \<open>Properties\<close>

lemma gate_decides:
  assumes "authz_inv cfg (now, db)" "require_permission cfg backstop db sid perm now = (x, db')" "x = Inr rec \<or> x = Inl forbidden"
  obtains r codes where "fst (touch cfg (az_sessions db) sid now) = Some r" "current db (se_user r) now codes" "x = (if perm \<in> codes then Inr r else Inl forbidden)"
proof -
  obtain tr s where t: "touch cfg (az_sessions db) sid now = (tr, s)" by (cases "touch cfg (az_sessions db) sid now")
  let ?db1 = "db\<lparr>az_sessions := s\<rparr>"
  obtain r where r: "require_session tr = Inr r"
    using assms(2,3) t by (cases "require_session tr")
      (auto simp: require_permission_def require_session_def forbidden_def unauthorized_def password_change_required_def mfa_setup_required_def split: option.splits if_splits)
  then have tr: "tr = Some r" by (auto simp: require_session_def split: option.splits if_splits)
  then obtain rec0 where "live (az_sessions db) now sid = Some rec0" "now < absolute_expires_at cfg (se_created rec0)" "se_version r = se_version rec0" "se_user r = se_user rec0"
    using touched t by blast
  then have v: "se_version r = user_version db (se_user r)" using assms(1) by (simp add: authz_inv_def versions_ok_def)
  obtain codes db2 where g: "get_or_load backstop ?db1 (se_user r) (se_version r) now = (codes, db2)" by (cases "get_or_load backstop ?db1 (se_user r) (se_version r) now")
  have x: "x = (if perm \<in> codes then Inr r else Inl forbidden)" using assms(2) t r g by (simp add: require_permission_def)
  have same: "current ?db1 = current db" by (rule current_cong) simp_all
  have "current db (se_user r) now codes"
  proof (cases "rd_get (az_cache db) now (se_user r, se_version r)")
    case None
    obtain b where "load_permission_entry ?db1 (se_user r) now = (codes, b)"
      using g None by (cases "load_permission_entry ?db1 (se_user r) now") (simp add: get_or_load_def)
    then have "current ?db1 (se_user r) now codes" by (rule loaded_current [where backstop = backstop]) (simp_all add: cache_ttl_def)
    then show ?thesis by (simp only: same)
  next
    case (Some cs)
    then have "codes = cs" using g by (simp add: get_or_load_def)
    then show ?thesis using Some assms(1) v unfolding authz_inv_def cache_ok_def prod.case by auto
  qed
  then show thesis using that x t tr by simp
qed

text \<open>
  C8. The cache never hides a change: in every reachable state the gate lets a request pass, under whatever session, only
  if the tables give the user the permission at that moment or gave it less than a second before, and it refuses for
  lack of permission only if they deny it or denied it less than a second before. A grant, a revocation or the edge of
  a grant's window is in force within a second, although permission sets are cached for minutes.
\<close>

theorem permission_changes_in_force:
  assumes "reach authz_init (authz_step cfg backstop) (now, db)" "require_permission cfg backstop db sid perm now = (x, db')"
  shows "(\<forall>rec. x = Inr rec \<longrightarrow> (\<exists>t. now - 1000000 < t \<and> t \<le> now \<and> perm \<in> effective_permissions db (se_user rec) t)) \<and>
    (x = Inl forbidden \<longrightarrow> (\<exists>r t. fst (touch cfg (az_sessions db) sid now) = Some r \<and> now - 1000000 < t \<and> t \<le> now \<and> perm \<notin> effective_permissions db (se_user r) t))"
proof -
  have i: "authz_inv cfg (now, db)" by (rule authorization.reach_inv [OF assms(1)])
  have t: "\<exists>t. now - 1000000 < t \<and> t \<le> now \<and> codes = effective_permissions db u t" if "current db u now codes" for u codes
    using that unfolding current_def by force
  show ?thesis
  proof (intro conjI allI impI)
    fix rec assume "x = Inr rec"
    then obtain r codes where "current db (se_user r) now codes" "x = (if perm \<in> codes then Inr r else Inl forbidden)" using gate_decides [OF i assms(2)] by metis
    then show "\<exists>t. now - 1000000 < t \<and> t \<le> now \<and> perm \<in> effective_permissions db (se_user rec) t" using t \<open>x = Inr rec\<close> by (metis Inl_Inr_False sum.inject(2))
  next
    assume "x = Inl forbidden"
    then obtain r codes where "fst (touch cfg (az_sessions db) sid now) = Some r" "current db (se_user r) now codes" "x = (if perm \<in> codes then Inr r else Inl forbidden)"
      using gate_decides [OF i assms(2)] by metis
    then show "\<exists>r t. fst (touch cfg (az_sessions db) sid now) = Some r \<and> now - 1000000 < t \<and> t \<le> now \<and> perm \<notin> effective_permissions db (se_user r) t"
      using t \<open>x = Inl forbidden\<close> by (metis Inl_Inr_False)
  qed
qed


definition sample_authz :: authz_db where
  "sample_authz = \<lparr>az_grants = [\<lparr>ur_user = 5, ur_role = 1, ur_org = None, ur_valid_from = None, ur_valid_to = None, gr_id = 1, gr_deleted = False\<rparr>],
     az_seq = 1, az_roles = [(1, ''staff'')], az_role_perms = [(1, ''claims.read'')], az_versions = [(5, 0)], az_sessions = signed_in, az_cache = (\<lambda>_. None), az_events = []\<rparr>"

lemma sample_authz_reach: "reach authz_init (authz_step house_sessions 300) (0, sample_authz)"
proof -
  let ?db = "sample_authz\<lparr>az_sessions := no_sessions\<rparr>"
  have "reach authz_init (authz_step house_sessions 300) (0, ?db)"
    by (rule reach_init) (simp add: authz_init_def session_init_def no_sessions_def sample_authz_def)
  moreover obtain rec s where c: "create_session house_sessions no_sessions staff_sign_in ''s1'' 0 = Inr (rec, s)"
    by (simp add: create_session_def insert_session_def enforce_cap_def prune_user_index_def zmembers_def no_sessions_def index_remove_def rd_get_def Let_def house_sessions_def)
  then have "s = signed_in" by (simp add: signed_in_def)
  then have "authz_step house_sessions 300 (0, ?db) (0, ?db\<lparr>az_sessions := signed_in\<rparr>)"
    using c by (intro az_login [of house_sessions ?db staff_sign_in "''s1''" 0 rec]) (simp_all add: user_version_def staff_sign_in_def sample_authz_def fresh_sid_def no_sessions_def)
  moreover have "?db\<lparr>az_sessions := signed_in\<rparr> = sample_authz" by (simp add: sample_authz_def)
  ultimately show ?thesis using reach_step by fastforce
qed

theorem permission_changes_in_force_witness:
  "\<exists>rec t. fst (require_permission house_sessions 300 sample_authz ''s1'' ''claims.read'' 0) = Inr rec \<and> t \<le> 0 \<and>
     ''claims.read'' \<in> effective_permissions sample_authz (se_user rec) t"
proof -
  have "is_ok (fst (require_permission house_sessions 300 sample_authz ''s1'' ''claims.read'' 0))" by code_simp
  then obtain rec where r: "fst (require_permission house_sessions 300 sample_authz ''s1'' ''claims.read'' 0) = Inr rec" by (auto simp: is_ok_iff)
  from permission_changes_in_force [OF sample_authz_reach prod.collapse [symmetric], of "''s1''" "''claims.read''"] r show ?thesis by blast
qed

end
