(* ===== verification/Spec2Isabelle.thy ===== *)
theory Spec2Isabelle
  imports Workdays Org_Units Workflow_Properties Claim_Chains Claim_Totals Claim_Facts Attachments
    Reference_Numbers Snapshots Module_Guarantees
    Claim_Actions Return_Insights Login_Service Role_Grants
begin

text \<open>
  Office-Connect is a server for the paperwork of a government bureau: a shared core under
  \<open>src/office_connect/core\<close> (organisation tree, permissions and sessions, audit log, working days, a
  versioned workflow engine, checklists, attachments, notifications) and the local-travel reimbursement
  module under \<open>src/office_connect/modules/reimbursement\<close>, in which a traveller files a claim, the server
  prices it and demands its documents, the claim or the liquidation of a cash advance runs through a
  chain of approvals, and money that was paid or returned outside the system closes it. This development
  models that logic and proves what makes it right.

  \<^bold>\<open>Conventions.\<close> A table is the list of its live rows (soft-deleted rows are filtered by the ORM), a
  row a record, a primary key an \<open>int\<close> handed out by a sequence. A service of the source flushes and
  never commits; on an exception the caller rolls back. Its model therefore maps a database to
  \<open>Inl e\<close> (the exception, database unchanged) or \<open>Inr (result, database)\<close>; where Redis keeps an effect
  across a rollback, the state comes back with the exception. \<open>APIError\<close> carries the HTTP status and
  the stable code; messages, the audit context and the audit columns are left out.
  Dates are proleptic Gregorian ordinals with the range of Python's \<open>date\<close> explicit, instants are
  microseconds since 0001-01-01 UTC, Manila is eight hours ahead, a \<open>numeric(12, 2)\<close> amount is an
  \<open>int\<close> of centavos, Python ints are unbounded. Row locks serialise the calls that take them, so
  concurrency over the database is the interleaving of whole calls, with three refinements: the compare-and-swap on
  \<open>row_version\<close>, the pre-flight read of a cash advance, which may be stale, and the notification worker, which may
  die between the mail and the commit. Redis takes no locks: a sign-in and a rotation of \<open>Session_Store\<close> are
  also modelled as two round trips that others may come between (\<open>store_step\<close>).
  Libraries are parameters with the laws they are used by as named hypotheses: the digest, Argon2 and
  TOTP, the malware scanner and the image re-encoder, the mail transport. A digest is never assumed free of
  collisions, only on the texts hashed or the contents saved in the run at hand.

  \<^bold>\<open>Foundations.\<close>
  \<^item> \<open>OC_Prelude\<close>: exceptions, results, tables, reachable states, and the contract
    \<open>invariant_system\<close> every state machine below is an interpretation of.
  \<^item> \<open>Money\<close>, \<open>Json_Values\<close>, \<open>Iso_Dates\<close> (\<open>core/money.py\<close> and the parts of \<open>decimal\<close>, \<open>int\<close>, JSON and
    \<open>datetime\<close> the source uses): rounding is to the nearest centavo, printing and parsing are inverse.
  \<^item> \<open>Workdays\<close> (\<open>core/workdays.py\<close>): adding and counting working days are inverse, stay in a
    computable window and never skip a working day.
  \<^item> \<open>Org_Units\<close> (\<open>core/org_units.py\<close>): the upward and the downward walk of the unit tree are
    inverse, so the check of one row, the scope of a list and the list of holders agree.
  \<^item> \<open>Reference_Numbers\<close>, \<open>Snapshots\<close>, \<open>Attachments\<close> (\<open>core/reference_numbers.py\<close>, \<open>core/documents/snapshots.py\<close>,
    \<open>core/attachments/\<close>): numbers are never handed out twice, frozen copies are kept, only files that are the
    platform's own, washed or scanned are served (interpretations \<open>snaps\<close> and \<open>files\<close>).

  \<^bold>\<open>Identity.\<close>
  \<^item> \<open>Redis_Store\<close>: keys with expiry, and the laws of the contract \<open>expiring_keyspace\<close>.
  \<^item> \<open>Login_Throttle\<close>, \<open>Session_Store\<close>, \<open>Login_Service\<close> (\<open>core/auth/\<close>): the throttle slows down and never
    locks out; sessions are capped when calls come one after the other, and up to those that overlap otherwise
    (interpretations \<open>sessions\<close> and \<open>store\<close>), cannot outlive their absolute lifetime and are revoked completely; nobody is signed in without proof, a failure reveals nothing, a code checked within a time step works once, a changed password leaves one session.
  \<^item> \<open>Role_Grants\<close> (\<open>core/rbac.py\<close>, \<open>core/auth/permission_cache.py\<close>, \<open>core/auth/dependencies.py\<close>): a change of permissions is in force
    within a second although permission sets are cached (interpretation \<open>authorization\<close>).
  \<^item> \<open>Audit_Chain\<close> (\<open>core/audit.py\<close>): the hash chain verifies, a changed log shows unless the digest collides, secrets stay out.

  \<^bold>\<open>Workflow engine.\<close>
  \<^item> \<open>Workflow_Model\<close>, \<open>Workflow_Definitions\<close>, \<open>Workflow_Engine\<close> (\<open>core/models/workflow.py\<close>,
    \<open>core/workflow/\<close>, \<open>core/maker_checker.py\<close>): tables, authoring with graph validation, the
    executor, authority and delegation, gates and joins, available actions, SLA sweep, replay.
  \<^item> \<open>Workflow_Invariants\<close>, \<open>Workflow_Guarantees\<close>, \<open>Workflow_Properties\<close>: the effect of each
    operation, the invariant of the whole engine under any interleaving of authoring, starting,
    acting and sweeping (interpretations \<open>authoring\<close> and \<open>engine\<close>), and what follows: the event log
    determines every instance, approvers are distinct and never the maker, retries replay,
    concurrent actions are refused, offered actions are accepted.

  \<^bold>\<open>Checklists and notifications.\<close>
  \<^item> \<open>Checklist_Rules\<close>, \<open>Checklist_Checks\<close>, \<open>Checklist_Engine\<close> (\<open>core/checklist/\<close>): the rule grammar, whose
    evaluator refines the denotation of a syntax tree and whose validator accepts exactly the printed trees; the
    automatic checks; planning and completeness.
  \<^item> \<open>Outbox\<close> (\<open>core/notifications/\<close>): persisting, dispatching, retrying, giving up, and workers that die before they commit; a
    notification is mailed at most once but for sends that were not committed and rows that were dead-lettered
    (interpretation \<open>outbox_sys\<close>).

  \<^bold>\<open>Reimbursement.\<close>
  \<^item> \<open>Reimb_Model\<close>, \<open>Effective_Dating\<close>, \<open>Deadline\<close> (\<open>models/\<close>, \<open>services/errors.py\<close>,
    \<open>services/checklist_facts.py\<close>, \<open>services/deadline.py\<close>): the module's tables, the as-of lookups
    as interpretations of one locale, and the liquidation clock.
  \<^item> \<open>Per_Diem\<close>, \<open>Claim_Totals\<close> (\<open>services/per_diem.py\<close>, \<open>services/compute.py\<close>): the breakdown
    re-performs, every day is credited once, later rates do not matter, the stored snapshot
    balances and recomputing it changes nothing.
  \<^item> \<open>Cash_Advance\<close> (\<open>services/cash_advance.py\<close>): at most one unliquidated advance per claimant,
    settled advances are closed and deadlines pinned (interpretation \<open>cash_advances\<close>).
  \<^item> \<open>Claim_Status\<close>, \<open>Claim_Chains\<close> (\<open>services/status.py\<close>, \<open>workflow.py\<close>): the two vocabularies and
    the two approval chains. Seeding them always succeeds; a claim is paid and a liquidation
    settled only past every gate of its chain, by a cut argument on the engine's log.
  \<^item> \<open>OC_Store\<close>, \<open>Claim_Facts\<close>, \<open>Claim_Checklist\<close> (\<open>services/checklist_facts.py\<close>, \<open>seeds.py\<close>, \<open>services/checklist.py\<close>,
    \<open>services/attachments.py\<close>): the packet of a claim. Refreshing is idempotent; over a validated catalogue whose active rows carry
    every live item a packet that passes the gate of the submission passes the gate of the approval; changed evidence voids what was frozen.
  \<^item> \<open>Claim_Lifecycle\<close>, \<open>Claim_Settlement\<close>, \<open>Notify\<close> (\<open>services/lifecycle.py\<close>, \<open>services/liquidation.py\<close>,
    \<open>services/settlement.py\<close>, \<open>services/external.py\<close>, \<open>services/notify.py\<close>): every call that changes a claim with its refusals in order,
    and the reminder ladders, whose paged sweeps are one pass over their worklist (interpretations \<open>sla\<close> and \<open>liq\<close> of \<open>keyset_worklist\<close>).
  \<^item> \<open>Claim_Drafts\<close>, \<open>Claim_Actions\<close>, \<open>Oversight_Queue\<close>, \<open>Return_Insights\<close> (\<open>services/drafts.py\<close>, \<open>services/actions.py\<close>,
    \<open>services/queue.py\<close>, \<open>services/insights.py\<close>): what the claimant may still edit and what the officers see. Edits never leave
    totals that their inputs do not give, an offered verb passes its gates, lists show exactly what the row check would allow,
    board and ranking agree with the tables.
  \<^item> \<open>Lifecycle_Guarantees\<close>, \<open>Claim_System\<close>, \<open>Claim_Index\<close>, \<open>Module_System\<close>, \<open>Module_Samples\<close>, \<open>Module_Guarantees\<close>: the module as one
    system, every call of its services in any order on a seeded database. A call is a stale replay when its idempotency
    key was used for an event of the instance that led to another state than the one it stands at now; \<open>lifecycle.py\<close> then sets the claim back to
    that event. \<open>module_step False\<close> are the calls that are no stale replay, \<open>any_step\<close> are all calls. Without stale replays
    (interpretation \<open>reimbursement\<close>) a paid claim was approved and its payment recorded, a settled liquidation is backed by its
    advance, the status of a claim is the state of its instance; with them a claim can be closed unpaid, which an evaluated run shows.
    The unique indexes over live liquidations and spawns hold under all calls (interpretation \<open>indexes\<close>).

  \<^bold>\<open>Bounds and termination.\<close> Loops are structural or have a measure: the date loops end because the
  date range is finite, the graph worklist because it removes a state per visit, the ancestry walks
  carry the source's own depth of 64, rules the source's depth of 8, and the sweeps the source's budget of pages, which the
  theorems state. No definition uses fuel of its own.

  \<^bold>\<open>Not modelled.\<close> The HTTP layer and its schemas, rendering of documents, the remote storage driver,
  the calendar projection, the CSV ingestion of the staff directory, operations and migrations: they parse, render or transport, or
  rest on services outside the repository.
\<close>

end
